(* ===== verification/Prelude.thy ===== *)
theory Prelude
  imports Complex_Main "HOL-Library.Word"
begin

text \<open>
  The data every component of the model shares: JavaScript strings as lists of UTF-16 code units,
  optional values with JavaScript's truthiness, JSON values, and the generic facts about lists and
  maps that the component theories use.

  A JavaScript value that may be \<^verbatim>\<open>undefined\<close> (or \<^verbatim>\<open>null\<close>, where the code uses
  one of the two only) is an option. A thrown error is the \<open>Inl\<close> of a sum; the code
  observes thrown values only through \<^verbatim>\<open>error.message\<close> or \<^verbatim>\<open>String(error)\<close>, so
  an error is modelled by that text unless a component gives its errors codes of their own.
\<close>

named_theorems js_simps \<open>evaluation of JavaScript operations\<close>
named_theorems inv_intros \<open>introduction rules of component invariants\<close>

section \<open>Strings\<close>

type_synonym code_unit = "16 word"
type_synonym jstr = "code_unit list"
type_synonym jerror = jstr

definition js_char :: "char \<Rightarrow> code_unit" where
  "js_char c = of_char c"

definition js :: "string \<Rightarrow> jstr" where
  "js s = map js_char s"

lemma unat_js_char: "unat (js_char c) = of_char c"
proof -
  have "(of_char c :: nat) < 256" by simp
  then have "(of_char c :: nat) mod 65536 = of_char c" by (intro mod_less) linarith
  moreover have "js_char c = word_of_nat (of_char c)"
    unfolding js_char_def by (rule of_nat_of_char [symmetric])
  ultimately show ?thesis by (simp add: unat_of_nat)
qed

lemma js_char_eq_iff [simp]: "js_char c = js_char d \<longleftrightarrow> c = d"
  by (metis of_char_eq_iff unat_js_char)

lemma js_eq_iff [simp]: "js s = js t \<longleftrightarrow> s = t"
  by (auto simp: js_def inj_def intro!: map_injective [of js_char])

lemma js_Nil [simp]: "js [] = []"
  by (simp add: js_def)

lemma js_eq_Nil_iff [simp]: "js s = [] \<longleftrightarrow> s = []" "[] = js s \<longleftrightarrow> s = []"
  by (auto simp: js_def)

lemma length_js [simp]: "length (js s) = length s"
  by (simp add: js_def)

lemma js_append: "js (s @ t) = js s @ js t"
  by (simp add: js_def)

text \<open>The line feed, and the decimal text of a number as \<^verbatim>\<open>String(n)\<close> writes it.\<close>

definition LF :: code_unit where
  "LF = 10"

fun nat_text :: "nat \<Rightarrow> jstr" where
  "nat_text n =
     (if n < 10 then [of_nat (48 + n)] else nat_text (n div 10) @ [of_nat (48 + n mod 10)])"

declare nat_text.simps [simp del]

definition int_text :: "int \<Rightarrow> jstr" where
  "int_text i = (if i < 0 then js ''-'' @ nat_text (nat (- i)) else nat_text (nat i))"

lemma nat_text_not_Nil [simp]: "nat_text n \<noteq> []"
  by (subst nat_text.simps) simp

text \<open>\<^verbatim>\<open>parts.join(sep)\<close>.\<close>

fun join_with :: "jstr \<Rightarrow> jstr list \<Rightarrow> jstr" where
  "join_with sep [] = []"
| "join_with sep [x] = x"
| "join_with sep (x # y # xs) = x @ sep @ join_with sep (y # xs)"

lemma join_with_Cons:
  "join_with sep (x # xs) = (if xs = [] then x else x @ sep @ join_with sep xs)"
  by (cases xs) auto

lemma join_with_append:
  "xs \<noteq> [] \<Longrightarrow> ys \<noteq> [] \<Longrightarrow>
   join_with sep (xs @ ys) = join_with sep xs @ sep @ join_with sep ys"
  by (induction xs) (auto simp: join_with_Cons)

section \<open>Optional values\<close>

text \<open>
  \<^verbatim>\<open>Boolean(x)\<close> for an \<^verbatim>\<open>x\<close> of type \<^verbatim>\<open>string | undefined\<close>: the empty
  string is falsy too.
\<close>

definition truthy_str :: "jstr option \<Rightarrow> bool" where
  "truthy_str x = (case x of None \<Rightarrow> False | Some s \<Rightarrow> s \<noteq> [])"

text \<open>\<^verbatim>\<open>x || y\<close> for such an \<^verbatim>\<open>x\<close>.\<close>

definition or_str :: "jstr option \<Rightarrow> jstr \<Rightarrow> jstr" where
  "or_str x y = (if truthy_str x then the x else y)"

text \<open>\<^verbatim>\<open>x || undefined\<close>.\<close>

definition or_undefined :: "jstr option \<Rightarrow> jstr option" where
  "or_undefined x = (if truthy_str x then x else None)"

text \<open>\<^verbatim>\<open>x ?? y\<close>.\<close>

definition nullish :: "'a option \<Rightarrow> 'a \<Rightarrow> 'a" where
  "nullish x y = (case x of None \<Rightarrow> y | Some v \<Rightarrow> v)"

text \<open>\<^verbatim>\<open>x ?? y\<close> where \<^verbatim>\<open>y\<close> may be \<^verbatim>\<open>undefined\<close> as well.\<close>

definition nullish_opt :: "'a option \<Rightarrow> 'a option \<Rightarrow> 'a option" where
  "nullish_opt x y = (case x of None \<Rightarrow> y | Some v \<Rightarrow> Some v)"

lemma truthy_str_simps [simp]:
  "\<not> truthy_str None"
  "truthy_str (Some s) \<longleftrightarrow> s \<noteq> []"
  by (simp_all add: truthy_str_def)

lemma truthy_strE: "truthy_str x \<Longrightarrow> (\<And>s. x = Some s \<Longrightarrow> s \<noteq> [] \<Longrightarrow> P) \<Longrightarrow> P"
  by (cases x) auto

lemma nullish_simps [simp]:
  "nullish None y = y"
  "nullish (Some v) y = v"
  "nullish_opt None z = z"
  "nullish_opt (Some v) z = Some v"
  by (simp_all add: nullish_def nullish_opt_def)

lemma or_str_simps [simp]:
  "or_str None y = y"
  "or_str (Some s) y = (if s = [] then y else s)"
  by (simp_all add: or_str_def)

lemma or_undefined_simps [simp]:
  "or_undefined None = None"
  "or_undefined (Some s) = (if s = [] then None else Some s)"
  by (simp_all add: or_undefined_def)

section \<open>JSON values\<close>

text \<open>
  The values that \<^verbatim>\<open>JSON.parse\<close> can return and that tool arguments and details
  hold. An object is the list of its members in insertion order.
\<close>

datatype json =
    JNull
  | JBool bool
  | JNum int
  | JStr jstr
  | JArr "json list"
  | JObj "(jstr \<times> json) list"

fun json_get :: "json \<Rightarrow> jstr \<Rightarrow> json option" where
  "json_get (JObj ms) k = map_of ms k"
| "json_get _ _ = None"

section \<open>Lists\<close>

text \<open>\<^verbatim>\<open>xs.findIndex(p)\<close>, with \<open>None\<close> for -1.\<close>

fun find_index :: "('a \<Rightarrow> bool) \<Rightarrow> 'a list \<Rightarrow> nat option" where
  "find_index p [] = None"
| "find_index p (x # xs) = (if p x then Some 0 else map_option Suc (find_index p xs))"

text \<open>\<^verbatim>\<open>xs[xs.length - 1]\<close>, with \<open>None\<close> for \<^verbatim>\<open>undefined\<close>.\<close>

definition last_opt :: "'a list \<Rightarrow> 'a option" where
  "last_opt xs = (if xs = [] then None else Some (last xs))"

text \<open>\<^verbatim>\<open>xs[i]\<close> for a natural index, with \<open>None\<close> for \<^verbatim>\<open>undefined\<close>.\<close>

definition nth_opt :: "'a list \<Rightarrow> nat \<Rightarrow> 'a option" where
  "nth_opt xs i = (if i < length xs then Some (xs ! i) else None)"

lemma last_opt_simps [simp]:
  "last_opt [] = None"
  "last_opt (xs @ [x]) = Some x"
  by (simp_all add: last_opt_def)

lemma last_opt_None_iff [simp]: "last_opt xs = None \<longleftrightarrow> xs = []"
  by (simp add: last_opt_def)

lemma last_opt_SomeD: "last_opt xs = Some x \<Longrightarrow> \<exists>ys. xs = ys @ [x]"
  by (cases xs rule: rev_cases) auto

lemma find_index_None_iff: "find_index p xs = None \<longleftrightarrow> (\<forall>x\<in>set xs. \<not> p x)"
  by (induction xs) auto

lemma find_index_SomeD:
  "find_index p xs = Some i \<Longrightarrow> i < length xs \<and> p (xs ! i) \<and> (\<forall>j<i. \<not> p (xs ! j))"
proof (induction xs arbitrary: i)
  case Nil
  then show ?case by simp
next
  case (Cons x xs)
  show ?case
  proof (cases "p x")
    case True
    with Cons.prems show ?thesis by simp
  next
    case False
    with Cons.prems obtain k where "find_index p xs = Some k" and "i = Suc k"
      by auto
    with Cons.IH False show ?thesis
      by (auto simp: less_Suc_eq_0_disj)
  qed
qed

lemma find_index_append:
  "find_index p (xs @ ys) =
     (case find_index p xs of Some i \<Rightarrow> Some i
      | None \<Rightarrow> map_option (\<lambda>i. length xs + i) (find_index p ys))"
proof (induction xs)
  case Nil
  show ?case by (cases "find_index p ys") simp_all
next
  case (Cons x xs)
  then show ?case by (cases "find_index p ys") (auto split: option.splits)
qed

section \<open>Maps built from lists\<close>

text \<open>
  \<^verbatim>\<open>for (const x of xs) m.set(key(x), x)\<close>: later entries overwrite earlier ones.
\<close>

definition index_by :: "('a \<Rightarrow> 'k) \<Rightarrow> 'a list \<Rightarrow> 'k \<rightharpoonup> 'a" where
  "index_by key xs = foldl (\<lambda>m x. m(key x \<mapsto> x)) Map.empty xs"

lemma index_by_simps [simp]:
  "index_by key [] = Map.empty"
  "index_by key (xs @ [x]) = (index_by key xs)(key x \<mapsto> x)"
  by (simp_all add: index_by_def)

lemma dom_index_by: "dom (index_by key xs) = key ` set xs"
proof (induction xs rule: rev_induct)
  case Nil
  show ?case by simp
next
  case (snoc x xs)
  then show ?case by (simp add: fun_upd_def [symmetric] del: fun_upd_apply)
qed

lemma index_by_SomeD: "index_by key xs k = Some x \<Longrightarrow> x \<in> set xs \<and> key x = k"
  by (induction xs rule: rev_induct) (auto split: if_splits)

lemma index_by_distinct:
  "distinct (map key xs) \<Longrightarrow> x \<in> set xs \<Longrightarrow> index_by key xs (key x) = Some x"
proof (induction xs rule: rev_induct)
  case Nil
  then show ?case by simp
next
  case (snoc y xs)
  then show ?case by (cases "key x = key y") (auto simp: image_iff)
qed

lemma index_by_None_iff: "index_by key xs k = None \<longleftrightarrow> k \<notin> key ` set xs"
  by (metis domIff dom_index_by)

section \<open>JavaScript maps\<close>

text \<open>
  A \<^verbatim>\<open>Map\<close> whose iteration order the code uses is the list of its bindings in insertion order;
  \<^verbatim>\<open>Map.get\<close> is \<open>map_of\<close>.
\<close>

fun map_set :: "'k \<Rightarrow> 'v \<Rightarrow> ('k \<times> 'v) list \<Rightarrow> ('k \<times> 'v) list" where
  "map_set k v [] = [(k, v)]"
| "map_set k v ((k', v') # m) = (if k' = k then (k, v) # m else (k', v') # map_set k v m)"

definition map_delete :: "'k \<Rightarrow> ('k \<times> 'v) list \<Rightarrow> ('k \<times> 'v) list" where
  "map_delete k m = filter (\<lambda>p. fst p \<noteq> k) m"

lemma map_of_map_set: "map_of (map_set k v m) = (map_of m)(k \<mapsto> v)"
  by (induction k v m rule: map_set.induct) auto

lemma map_of_map_delete: "map_of (map_delete k m) = (map_of m)(k := None)"
  unfolding map_delete_def by (induction m) auto

lemma map_set_new: "k \<notin> fst ` set m \<Longrightarrow> map_set k v m = m @ [(k, v)]"
  by (induction k v m rule: map_set.induct) auto

lemma keys_map_set: "fst ` set (map_set k v m) = insert k (fst ` set m)"
  by (induction k v m rule: map_set.induct) auto

lemma distinct_map_set: "distinct (map fst m) \<Longrightarrow> distinct (map fst (map_set k v m))"
proof (induction k v m rule: map_set.induct)
  case (2 k v k' v' m)
  have "k' \<notin> fst ` set (map_set k v m)" if "k' \<noteq> k" using that 2 by (simp add: keys_map_set)
  with 2 show ?case by auto
qed simp

lemma distinct_map_delete: "distinct (map fst m) \<Longrightarrow> distinct (map fst (map_delete k m))"
  unfolding map_delete_def by (rule distinct_map_filter)

end
