(* ===== verification/Messages.thy ===== *)
theory Messages
  imports Prelude
begin

text \<open>
  The data that flows through the agent: the message, tool and model types of
  \<^verbatim>\<open>packages/ai/src/types.ts\<close>, the agent message union and events of
  \<^verbatim>\<open>packages/agent/src/types.ts\<close>, and the harness messages with their conversion to LLM
  messages (\<^verbatim>\<open>packages/agent/src/harness/messages.ts\<close>).

  A \<^verbatim>\<open>number\<close> that is a timestamp is \<open>jtime\<close>, with \<open>None\<close> for \<^verbatim>\<open>NaN\<close>, which
  \<^verbatim>\<open>new Date(text).getTime()\<close> gives for a text that is no date. Costs, in dollars, are
  rationals; token counts are integers.
\<close>

section \<open>LLM messages\<close>

type_synonym jtime = "int option"

record text_content =
  tc_text :: jstr
  tc_textSignature :: "jstr option"

record thinking_content =
  th_thinking :: jstr
  th_thinkingSignature :: "jstr option"
  th_redacted :: "bool option"

record image_content =
  ic_data :: jstr
  ic_mimeType :: jstr

record tool_call =
  call_id :: jstr
  call_name :: jstr
  call_arguments :: json
  call_thoughtSignature :: "jstr option"

record usage_cost =
  cost_input :: rat
  cost_output :: rat
  cost_cacheRead :: rat
  cost_cacheWrite :: rat
  cost_total :: rat

record usage =
  us_input :: int
  us_output :: int
  us_cacheRead :: int
  us_cacheWrite :: int
  us_totalTokens :: int
  us_cost :: usage_cost

datatype stop_reason = SR_stop | SR_length | SR_toolUse | SR_error | SR_aborted

text \<open>\<^verbatim>\<open>TextContent | ImageContent\<close>, and \<^verbatim>\<open>string | (TextContent | ImageContent)[]\<close>.\<close>

datatype content_block = TextBlock text_content | ImageBlock image_content

datatype message_content = PlainText jstr | Blocks "content_block list"

datatype assistant_block =
    AText text_content
  | AThinking thinking_content
  | AToolCall tool_call

record user_message =
  um_content :: message_content
  um_timestamp :: jtime

record assistant_message =
  am_content :: "assistant_block list"
  am_api :: jstr
  am_provider :: jstr
  am_model :: jstr
  am_responseModel :: "jstr option"
  am_responseId :: "jstr option"
  am_diagnostics :: "json list option"
  am_usage :: usage
  am_stopReason :: stop_reason
  am_errorMessage :: "jstr option"
  am_timestamp :: jtime

record tool_result_message =
  tr_toolCallId :: jstr
  tr_toolName :: jstr
  tr_content :: "content_block list"
  tr_details :: "json option"
  tr_isError :: bool
  tr_timestamp :: jtime

datatype message =
    UserM user_message
  | AssistantM assistant_message
  | ToolResultM tool_result_message

record model_cost =
  mc_input :: rat
  mc_output :: rat
  mc_cacheRead :: rat
  mc_cacheWrite :: rat

datatype input_kind = InText | InImage

record llm_model =
  model_id :: jstr
  model_name :: jstr
  model_api :: jstr
  model_provider :: jstr
  model_baseUrl :: jstr
  model_reasoning :: bool
  model_thinkingLevelMap :: "json option"
  model_input :: "input_kind list"
  model_cost :: model_cost
  model_contextWindow :: int
  model_maxTokens :: int
  model_headers :: "(jstr \<times> jstr) list option"
  model_compat :: "json option"

text \<open>\<^verbatim>\<open>content.filter((c) => c.type === "toolCall")\<close>.\<close>

fun tool_calls_of :: "assistant_block list \<Rightarrow> tool_call list" where
  "tool_calls_of [] = []"
| "tool_calls_of (AToolCall c # bs) = c # tool_calls_of bs"
| "tool_calls_of (AText t # bs) = tool_calls_of bs"
| "tool_calls_of (AThinking t # bs) = tool_calls_of bs"

lemma tool_calls_of_append [simp]:
  "tool_calls_of (xs @ ys) = tool_calls_of xs @ tool_calls_of ys"
  by (induction xs rule: tool_calls_of.induct) simp_all

lemma set_tool_calls_of: "c \<in> set (tool_calls_of bs) \<longleftrightarrow> AToolCall c \<in> set bs"
  by (induction bs rule: tool_calls_of.induct) auto

section \<open>Stream events of a provider\<close>

datatype assistant_event =
    Ev_start (ev_partial: assistant_message)
  | Ev_text_start nat (ev_partial: assistant_message)
  | Ev_text_delta nat jstr (ev_partial: assistant_message)
  | Ev_text_end nat jstr (ev_partial: assistant_message)
  | Ev_thinking_start nat (ev_partial: assistant_message)
  | Ev_thinking_delta nat jstr (ev_partial: assistant_message)
  | Ev_thinking_end nat jstr (ev_partial: assistant_message)
  | Ev_toolcall_start nat (ev_partial: assistant_message)
  | Ev_toolcall_delta nat jstr (ev_partial: assistant_message)
  | Ev_toolcall_end nat tool_call (ev_partial: assistant_message)
  | Ev_done stop_reason assistant_message
  | Ev_error stop_reason assistant_message

section \<open>Agent messages\<close>

record bash_execution_message =
  be_command :: jstr
  be_output :: jstr
  be_exitCode :: "int option"
  be_cancelled :: bool
  be_truncated :: bool
  be_fullOutputPath :: "jstr option"
  be_timestamp :: jtime
  be_excludeFromContext :: "bool option"

record custom_message =
  cm_customType :: jstr
  cm_content :: message_content
  cm_display :: bool
  cm_details :: "json option"
  cm_timestamp :: jtime

record branch_summary_message =
  bs_summary :: jstr
  bs_fromId :: jstr
  bs_timestamp :: jtime

record compaction_summary_message =
  cs_summary :: jstr
  cs_tokensBefore :: int
  cs_timestamp :: jtime

text \<open>
  \<^verbatim>\<open>Message | CustomAgentMessages[...]\<close>, with the custom messages that the harness declares.
  \<open>HookMsg\<close> is a message with the role \<^verbatim>\<open>hookMessage\<close> that session files of version 2 hold.
\<close>

datatype agent_message =
    Llm message
  | BashExecution bash_execution_message
  | CustomMsg custom_message
  | BranchSummary branch_summary_message
  | CompactionSummary compaction_summary_message
  | HookMsg custom_message

datatype thinking_level = TL_off | TL_minimal | TL_low | TL_medium | TL_high | TL_xhigh

fun thinking_level_text :: "thinking_level \<Rightarrow> jstr" where
  "thinking_level_text TL_off = js ''off''"
| "thinking_level_text TL_minimal = js ''minimal''"
| "thinking_level_text TL_low = js ''low''"
| "thinking_level_text TL_medium = js ''medium''"
| "thinking_level_text TL_high = js ''high''"
| "thinking_level_text TL_xhigh = js ''xhigh''"

section \<open>Conversion to LLM messages\<close>

definition COMPACTION_SUMMARY_PREFIX :: jstr where
  "COMPACTION_SUMMARY_PREFIX =
     js ''The conversation history before this point was compacted into the following summary:''
     @ [LF, LF] @ js ''<summary>'' @ [LF]"

definition COMPACTION_SUMMARY_SUFFIX :: jstr where
  "COMPACTION_SUMMARY_SUFFIX = LF # js ''</summary>''"

definition BRANCH_SUMMARY_PREFIX :: jstr where
  "BRANCH_SUMMARY_PREFIX =
     js ''The following is a summary of a branch that this conversation came back from:''
     @ [LF, LF] @ js ''<summary>'' @ [LF]"

definition BRANCH_SUMMARY_SUFFIX :: jstr where
  "BRANCH_SUMMARY_SUFFIX = js ''</summary>''"

definition bash_execution_to_text :: "bash_execution_message \<Rightarrow> jstr" where
  "bash_execution_to_text m =
     js ''Ran `'' @ be_command m @ js ''`'' @ [LF]
     @ (if be_output m \<noteq> []
        then js ''```'' @ [LF] @ be_output m @ [LF] @ js ''```''
        else js ''(no output)'')
     @ (if be_cancelled m then [LF, LF] @ js ''(command cancelled)''
        else case be_exitCode m of
          None \<Rightarrow> []
        | Some c \<Rightarrow> if c \<noteq> 0 then [LF, LF] @ js ''Command exited with code '' @ int_text c else [])
     @ (if be_truncated m \<and> truthy_str (be_fullOutputPath m)
        then [LF, LF] @ js ''[Output truncated. Full output: '' @ the (be_fullOutputPath m) @ js '']''
        else [])"

text \<open>\<^verbatim>\<open>{ type: "text", text }\<close>.\<close>

definition text_block :: "jstr \<Rightarrow> content_block" where
  "text_block t = TextBlock \<lparr>tc_text = t, tc_textSignature = None\<rparr>"

definition user_text :: "jstr \<Rightarrow> jtime \<Rightarrow> message" where
  "user_text t ts = UserM \<lparr>um_content = Blocks [text_block t], um_timestamp = ts\<rparr>"

fun convert_message :: "agent_message \<Rightarrow> message option" where
  "convert_message (BashExecution m) =
     (if be_excludeFromContext m = Some True then None
      else Some (user_text (bash_execution_to_text m) (be_timestamp m)))"
| "convert_message (CustomMsg m) =
     Some (UserM \<lparr>um_content =
        (case cm_content m of PlainText t \<Rightarrow> Blocks [text_block t] | Blocks bs \<Rightarrow> Blocks bs),
        um_timestamp = cm_timestamp m\<rparr>)"
| "convert_message (BranchSummary m) =
     Some (user_text (BRANCH_SUMMARY_PREFIX @ bs_summary m @ BRANCH_SUMMARY_SUFFIX) (bs_timestamp m))"
| "convert_message (CompactionSummary m) =
     Some (user_text (COMPACTION_SUMMARY_PREFIX @ cs_summary m @ COMPACTION_SUMMARY_SUFFIX)
        (cs_timestamp m))"
| "convert_message (Llm m) = Some m"
| "convert_message (HookMsg m) = None"

definition convertToLlm :: "agent_message list \<Rightarrow> message list" where
  "convertToLlm ms = map the (filter (\<lambda>m. m \<noteq> None) (map convert_message ms))"

text \<open>The three message factories; the entry's timestamp text is parsed by the host.\<close>

definition createBranchSummaryMessage ::
    "(jstr \<Rightarrow> jtime) \<Rightarrow> jstr \<Rightarrow> jstr \<Rightarrow> jstr \<Rightarrow> branch_summary_message" where
  "createBranchSummaryMessage get_time summary fromId timestamp =
     \<lparr>bs_summary = summary, bs_fromId = fromId, bs_timestamp = get_time timestamp\<rparr>"

definition createCompactionSummaryMessage ::
    "(jstr \<Rightarrow> jtime) \<Rightarrow> jstr \<Rightarrow> int \<Rightarrow> jstr \<Rightarrow> compaction_summary_message" where
  "createCompactionSummaryMessage get_time summary tokensBefore timestamp =
     \<lparr>cs_summary = summary, cs_tokensBefore = tokensBefore, cs_timestamp = get_time timestamp\<rparr>"

definition createCustomMessage ::
    "(jstr \<Rightarrow> jtime) \<Rightarrow> jstr \<Rightarrow> message_content \<Rightarrow> bool \<Rightarrow> json option \<Rightarrow> jstr \<Rightarrow> custom_message" where
  "createCustomMessage get_time customType content display details timestamp =
     \<lparr>cm_customType = customType, cm_content = content, cm_display = display,
      cm_details = details, cm_timestamp = get_time timestamp\<rparr>"

lemma convertToLlm_simps [simp]:
  "convertToLlm [] = []"
  "convertToLlm (m # ms) =
     (case convert_message m of None \<Rightarrow> convertToLlm ms | Some l \<Rightarrow> l # convertToLlm ms)"
  by (auto simp: convertToLlm_def split: option.splits)

lemma convertToLlm_append: "convertToLlm (ms @ ns) = convertToLlm ms @ convertToLlm ns"
  by (simp add: convertToLlm_def)

lemma convertToLlm_Llm [simp]: "convertToLlm (map Llm ls) = ls"
  by (induction ls) simp_all

definition excluded_from_context :: "agent_message \<Rightarrow> bool" where
  "excluded_from_context m =
     (case m of BashExecution b \<Rightarrow> be_excludeFromContext b = Some True | HookMsg c \<Rightarrow> True | _ \<Rightarrow> False)"

lemma convert_message_None_iff: "convert_message m = None \<longleftrightarrow> excluded_from_context m"
  by (cases m rule: convert_message.cases) (auto simp: excluded_from_context_def)

lemma length_convertToLlm:
  "length (convertToLlm ms) = length (filter (\<lambda>m. \<not> excluded_from_context m) ms)"
  by (induction ms) (auto simp: convert_message_None_iff [symmetric] split: option.splits)

section \<open>Sample values\<close>

text \<open>Concrete messages for the examples of the other theories.\<close>

definition sample_usage :: usage where
  "sample_usage = \<lparr>us_input = 10, us_output = 5, us_cacheRead = 0, us_cacheWrite = 0,
     us_totalTokens = 15,
     us_cost = \<lparr>cost_input = 0, cost_output = 0, cost_cacheRead = 0, cost_cacheWrite = 0,
       cost_total = 0\<rparr>\<rparr>"

definition sample_assistant :: "assistant_block list \<Rightarrow> stop_reason \<Rightarrow> assistant_message" where
  "sample_assistant bs r = \<lparr>am_content = bs, am_api = js ''anthropic-messages'',
     am_provider = js ''anthropic'', am_model = js ''m'', am_responseModel = None,
     am_responseId = None, am_diagnostics = None, am_usage = sample_usage, am_stopReason = r,
     am_errorMessage = None, am_timestamp = Some 0\<rparr>"

definition sample_user :: "string \<Rightarrow> message" where
  "sample_user t = UserM \<lparr>um_content = PlainText (js t), um_timestamp = Some 0\<rparr>"

definition sample_call :: "string \<Rightarrow> string \<Rightarrow> tool_call" where
  "sample_call i n = \<lparr>call_id = js i, call_name = js n, call_arguments = JObj [],
     call_thoughtSignature = None\<rparr>"

section \<open>Agent events\<close>

datatype tool_execution_mode = Mode_sequential | Mode_parallel

datatype queue_mode = Queue_all | Queue_one_at_a_time

record tool_result =
  res_content :: "content_block list"
  res_details :: "json option"
  res_terminate :: "bool option"

datatype agent_event =
    Agent_start
  | Agent_end "agent_message list"
  | Turn_start
  | Turn_end agent_message "tool_result_message list"
  | Message_start agent_message
  | Message_update agent_message assistant_event
  | Message_end agent_message
  | Tool_execution_start jstr jstr json
  | Tool_execution_update jstr jstr json tool_result
  | Tool_execution_end jstr jstr tool_result bool

end
