(* ===== verification/Js_Strings.thy ===== *)
theory Js_Strings
  imports Prelude "HOL-Library.Sublist"
begin

text \<open>
  String operations of JavaScript that several components use: white space and trimming, splitting
  at a code unit, searching, digits, and the length of a string's UTF-8 encoding.
\<close>

section \<open>White space\<close>

text \<open>The code units that \<^verbatim>\<open>trim\<close> removes: white space and line terminators of ECMAScript.\<close>

definition js_space :: "code_unit \<Rightarrow> bool" where
  "js_space c \<longleftrightarrow>
     c \<in> {0x9, 0xA, 0xB, 0xC, 0xD, 0x20, 0xA0, 0x1680, 0x2028, 0x2029, 0x202F, 0x205F, 0x3000, 0xFEFF}
   \<or> (0x2000 \<le> c \<and> c \<le> 0x200A)"

definition js_trimStart :: "jstr \<Rightarrow> jstr" where
  "js_trimStart s = dropWhile js_space s"

definition js_trimEnd :: "jstr \<Rightarrow> jstr" where
  "js_trimEnd s = rev (dropWhile js_space (rev s))"

definition js_trim :: "jstr \<Rightarrow> jstr" where
  "js_trim s = js_trimEnd (js_trimStart s)"

lemma js_trimEnd_prefix: "\<exists>t. s = js_trimEnd s @ t \<and> (\<forall>c\<in>set t. js_space c)"
proof (intro exI conjI)
  have "rev (rev s) = rev (takeWhile js_space (rev s) @ dropWhile js_space (rev s))"
    by (simp only: takeWhile_dropWhile_id)
  then have "s = rev (dropWhile js_space (rev s)) @ rev (takeWhile js_space (rev s))"
    by (simp only: rev_append rev_rev_ident)
  then show "s = js_trimEnd s @ rev (takeWhile js_space (rev s))" by (simp add: js_trimEnd_def)
qed (auto dest: set_takeWhileD)

lemma js_trimEnd_idem [simp]: "js_trimEnd (js_trimEnd s) = js_trimEnd s"
  by (simp add: js_trimEnd_def)

lemma length_js_trimEnd: "length (js_trimEnd s) \<le> length s"
  using length_dropWhile_le [of js_space "rev s"] by (simp add: js_trimEnd_def)

lemma js_trim_Nil_iff: "js_trim s = [] \<longleftrightarrow> (\<forall>c\<in>set s. js_space c)"
proof
  assume trim: "js_trim s = []"
  show "\<forall>c\<in>set s. js_space c"
  proof (cases "dropWhile js_space s")
    case Nil
    then show ?thesis by simp
  next
    case (Cons c cs)
    then have "\<not> js_space c" by (metis hd_dropWhile list.distinct(1) list.sel(1))
    with trim Cons show ?thesis
      by (auto simp: js_trim_def js_trimEnd_def js_trimStart_def dropWhile_append split: if_splits)
  qed
next
  assume "\<forall>c\<in>set s. js_space c"
  then show "js_trim s = []"
    by (auto simp: js_trim_def js_trimStart_def js_trimEnd_def dest: set_dropWhileD)
qed

section \<open>Splitting\<close>

text \<open>\<^verbatim>\<open>s.split(c)\<close> for a separator of one code unit: at least one piece.\<close>

fun split_on :: "code_unit \<Rightarrow> jstr \<Rightarrow> jstr list" where
  "split_on c [] = [[]]"
| "split_on c (x # xs) =
     (if x = c then [] # split_on c xs
      else (case split_on c xs of [] \<Rightarrow> [[x]] | p # ps \<Rightarrow> (x # p) # ps))"

lemma split_on_not_Nil [simp]: "split_on c s \<noteq> []"
  by (induction s) (auto split: list.splits)

lemma join_split_on: "join_with [c] (split_on c s) = s"
proof (induction s)
  case Nil
  show ?case by simp
next
  case (Cons x xs)
  obtain p ps where ps: "split_on c xs = p # ps" by (cases "split_on c xs") auto
  with Cons show ?case by (cases ps) (auto simp: join_with_Cons)
qed

lemma split_on_pieces: "p \<in> set (split_on c s) \<Longrightarrow> c \<notin> set p"
proof (induction s arbitrary: p)
  case Nil
  then show ?case by simp
next
  case (Cons x xs)
  obtain q qs where qs: "split_on c xs = q # qs" by (cases "split_on c xs") auto
  from Cons.IH [of q] Cons.IH [of p] Cons.prems qs show ?case by (auto split: if_splits)
qed

lemma split_on_free: "c \<notin> set s \<Longrightarrow> split_on c s = [s]"
  by (induction s) auto

lemma split_on_append_sep: "split_on c (s @ c # t) = split_on c s @ split_on c t"
  by (induction s) (auto split: list.splits simp: Cons_eq_append_conv)

lemma split_join:
  assumes "xs \<noteq> []" and "\<forall>x\<in>set xs. c \<notin> set x"
  shows "split_on c (join_with [c] xs) = xs"
  using assms
proof (induction xs)
  case Nil
  then show ?case by simp
next
  case (Cons x xs)
  then show ?case
    by (cases xs) (auto simp: split_on_free split_on_append_sep)
qed

section \<open>Searching\<close>

text \<open>\<^verbatim>\<open>content.indexOf(pattern)\<close>.\<close>

fun index_of :: "jstr \<Rightarrow> jstr \<Rightarrow> nat option" where
  "index_of [] p = (if p = [] then Some 0 else None)"
| "index_of (c # s) p = (if prefix p (c # s) then Some 0 else map_option Suc (index_of s p))"

lemma index_of_SomeD:
  "index_of s p = Some i \<Longrightarrow> i + length p \<le> length s \<and> take (length p) (drop i s) = p"
proof (induction s arbitrary: i)
  case (Cons c s)
  show ?case
  proof (cases "prefix p (c # s)")
    case True
    with Cons.prems have "i = 0" by simp
    moreover from True obtain t where "c # s = p @ t" by (auto simp: prefix_def)
    ultimately show ?thesis by simp
  next
    case False
    with Cons.prems obtain k where "index_of s p = Some k" "i = Suc k" by auto
    with Cons.IH show ?thesis by simp
  qed
qed (auto split: if_splits)

lemma index_of_prefix: "prefix p (s @ t) \<Longrightarrow> prefix p s \<or> prefix s p"
  by (metis prefix_def prefix_same_cases)

section \<open>Digits\<close>

definition is_digit_unit :: "code_unit \<Rightarrow> bool" where
  "is_digit_unit c \<longleftrightarrow> 0x30 \<le> c \<and> c \<le> 0x39"

text \<open>\<^verbatim>\<open>parseInt(s, 10)\<close> for digits.\<close>

definition digits_value :: "jstr \<Rightarrow> nat" where
  "digits_value ds = foldl (\<lambda>n c. 10 * n + (unat c - 48)) 0 ds"

definition leading_digits :: "jstr \<Rightarrow> jstr" where
  "leading_digits s = takeWhile is_digit_unit s"

section \<open>UTF-8 length\<close>

definition high_surrogate :: "code_unit \<Rightarrow> bool" where
  "high_surrogate c \<longleftrightarrow> 0xD800 \<le> c \<and> c \<le> 0xDBFF"

definition low_surrogate :: "code_unit \<Rightarrow> bool" where
  "low_surrogate c \<longleftrightarrow> 0xDC00 \<le> c \<and> c \<le> 0xDFFF"

text \<open>
  \<^verbatim>\<open>Buffer.byteLength(s, "utf-8")\<close>: a surrogate pair takes four bytes, a lone
  surrogate is encoded as the replacement character in three.
\<close>

fun utf8_length :: "jstr \<Rightarrow> nat" where
  "utf8_length [] = 0"
| "utf8_length [c] = (if c < 0x80 then 1 else if c < 0x800 then 2 else 3)"
| "utf8_length (c # d # s) =
     (if high_surrogate c \<and> low_surrogate d then 4 + utf8_length s
      else (if c < 0x80 then 1 else if c < 0x800 then 2 else 3) + utf8_length (d # s))"

lemma surrogates_disjoint: "low_surrogate c \<Longrightarrow> \<not> high_surrogate c"
  unfolding high_surrogate_def low_surrogate_def by (auto simp: word_le_nat_alt)

lemma utf8_length_low: "low_surrogate d \<Longrightarrow> utf8_length (d # t) \<le> 3 + utf8_length t"
  by (cases t) (use surrogates_disjoint in auto)

lemma utf8_length_Cons_le: "utf8_length s \<le> utf8_length (c # s)"
proof (cases s)
  case (Cons d t)
  show ?thesis
  proof (cases "high_surrogate c \<and> low_surrogate d")
    case True
    with utf8_length_low [of d t] Cons show ?thesis by simp
  next
    case False
    with Cons show ?thesis by auto
  qed
qed simp

lemma utf8_length_ge: "length s \<le> 4 * utf8_length s"
  by (induction s rule: utf8_length.induct) auto

lemma utf8_length_zero [simp]: "utf8_length s = 0 \<longleftrightarrow> s = []"
  using utf8_length_ge [of s] by auto

end
