(* ===== verification/Context_Overflow.thy ===== *)
theory Context_Overflow
  imports Messages Js_Strings
begin

text \<open>
  Which failed responses are worth another try. \<^verbatim>\<open>packages/ai/src/utils/overflow.ts\<close> tells from a response
  whether the context did not fit the model, and \<^verbatim>\<open>_isRetryableError\<close> of the coding agent's session whether an error is
  transient. Both test the text of the error with regular expressions without regard to case; an expression here is a value of \<open>rx\<close>, and
  \<open>rx_rests\<close> computes what can be left of a string after it. The patterns are written in lower case. The
  comparison with 99 percent of the context window, which the code makes in floating point, is made on integers.
\<close>

section \<open>Regular expressions\<close>

datatype rx =
    Rx_text jstr
  | Rx_class "code_unit \<Rightarrow> bool"
  | Rx_star "code_unit \<Rightarrow> bool"
  | Rx_seq "rx list"
  | Rx_alt "rx list"
  | Rx_opt rx

fun star_rests :: "(code_unit \<Rightarrow> bool) \<Rightarrow> jstr \<Rightarrow> jstr list" where
  "star_rests p [] = [[]]"
| "star_rests p (c # s) = (c # s) # (if p c then star_rests p s else [])"

text \<open>The ways to match at the start of a string that is in lower case, as what is left after them.\<close>

fun rx_rests :: "rx \<Rightarrow> jstr \<Rightarrow> jstr list" and rx_seq_rests :: "rx list \<Rightarrow> jstr \<Rightarrow> jstr list" and
  rx_alt_rests :: "rx list \<Rightarrow> jstr \<Rightarrow> jstr list" where
  "rx_rests (Rx_text t) s = (if take (length t) s = t then [drop (length t) s] else [])"
| "rx_rests (Rx_class p) s = (case s of [] \<Rightarrow> [] | c # s' \<Rightarrow> if p c then [s'] else [])"
| "rx_rests (Rx_star p) s = star_rests p s"
| "rx_rests (Rx_seq rs) s = rx_seq_rests rs s"
| "rx_rests (Rx_alt rs) s = rx_alt_rests rs s"
| "rx_rests (Rx_opt r) s = rx_rests r s @ [s]"
| "rx_seq_rests [] s = [s]"
| "rx_seq_rests (r # rs) s = concat (map (rx_seq_rests rs) (rx_rests r s))"
| "rx_alt_rests [] s = []"
| "rx_alt_rests (r # rs) s = rx_rests r s @ rx_alt_rests rs s"

text \<open>The flag \<^verbatim>\<open>i\<close>: only letters of ASCII are in the patterns, and no other character folds to one of them.\<close>

definition ascii_lower :: "code_unit \<Rightarrow> code_unit" where
  "ascii_lower c = (if 0x41 \<le> c \<and> c \<le> 0x5A then c + 0x20 else c)"

definition rx_test_start :: "rx \<Rightarrow> jstr \<Rightarrow> bool" where
  "rx_test_start r s \<longleftrightarrow> rx_rests r (map ascii_lower s) \<noteq> []"

definition rx_test :: "rx \<Rightarrow> jstr \<Rightarrow> bool" where
  "rx_test r s \<longleftrightarrow> list_ex (\<lambda>t. rx_rests r t \<noteq> []) (suffixes (map ascii_lower s))"

abbreviation rx_js :: "string \<Rightarrow> rx" where
  "rx_js s \<equiv> Rx_text (js s)"

definition rx_digit :: rx where
  "rx_digit = Rx_class is_digit_unit"

definition rx_digits :: rx where
  "rx_digits = Rx_seq [rx_digit, Rx_star is_digit_unit]"

definition rx_dot :: "code_unit \<Rightarrow> bool" where
  "rx_dot c \<longleftrightarrow> c \<notin> {0xA, 0xD, 0x2028, 0x2029}"

definition rx_any :: rx where
  "rx_any = Rx_opt (Rx_class rx_dot)"

definition rx_words :: "string list \<Rightarrow> rx" where
  "rx_words ws = Rx_alt (map rx_js ws)"

section \<open>Overflow of the context\<close>

definition OVERFLOW_PATTERNS :: "rx list" where
  "OVERFLOW_PATTERNS =
     [rx_js ''prompt is too long'',
      rx_js ''request_too_large'',
      rx_js ''input is too long for requested model'',
      rx_js ''exceeds the context window'',
      Rx_seq [rx_js ''input token count'', Rx_star rx_dot, rx_js ''exceeds the maximum''],
      Rx_seq [rx_js ''maximum prompt length is '', rx_digits],
      rx_js ''reduce the length of the messages'',
      Rx_seq [rx_js ''maximum context length is '', rx_digits, rx_js '' tokens''],
      Rx_seq [rx_js ''input ('', rx_digits, rx_js '' tokens) is longer than the model'', Rx_opt (Rx_text [0x27]),
        rx_js ''s context length ('', rx_digits, rx_js '' tokens)''],
      Rx_seq [rx_js ''exceeds the limit of '', rx_digits],
      rx_js ''exceeds the available context size'',
      rx_js ''greater than the context length'',
      rx_js ''context window exceeds limit'',
      rx_js ''exceeded model token limit'',
      Rx_seq [rx_js ''too large for model with '', rx_digits, rx_js '' maximum context length''],
      rx_js ''model_context_window_exceeded'',
      Rx_seq [rx_js ''prompt too long; exceeded '', Rx_opt (rx_js ''max ''), rx_js ''context length''],
      Rx_seq [rx_js ''context'', rx_words [''_'', '' ''], rx_js ''length'', rx_words [''_'', '' ''], rx_js ''exceeded''],
      rx_js ''too many tokens'',
      rx_js ''token limit exceeded'']"

text \<open>The last pattern is anchored at the start.\<close>

definition OVERFLOW_START_PATTERN :: rx where
  "OVERFLOW_START_PATTERN =
     Rx_seq [rx_js ''4'', rx_words [''00'', ''13''], Rx_star js_space, Rx_opt (rx_js ''status code''), Rx_star js_space,
       rx_js ''(no body)'']"

definition NON_OVERFLOW_START_PATTERN :: rx where
  "NON_OVERFLOW_START_PATTERN = Rx_seq [rx_words [''throttling error'', ''service unavailable''], rx_js '':'']"

definition NON_OVERFLOW_PATTERNS :: "rx list" where
  "NON_OVERFLOW_PATTERNS = [rx_js ''rate limit'', rx_js ''too many requests'']"

definition is_non_overflow :: "jstr \<Rightarrow> bool" where
  "is_non_overflow err \<longleftrightarrow> rx_test_start NON_OVERFLOW_START_PATTERN err \<or> list_ex (\<lambda>p. rx_test p err) NON_OVERFLOW_PATTERNS"

definition matches_overflow :: "jstr \<Rightarrow> bool" where
  "matches_overflow err \<longleftrightarrow> list_ex (\<lambda>p. rx_test p err) OVERFLOW_PATTERNS \<or> rx_test_start OVERFLOW_START_PATTERN err"

definition isContextOverflow :: "assistant_message \<Rightarrow> int \<Rightarrow> bool" where
  "isContextOverflow m contextWindow \<longleftrightarrow>
     (let inputTokens = us_input (am_usage m) + us_cacheRead (am_usage m) in
      am_stopReason m = SR_error \<and> truthy_str (am_errorMessage m)
        \<and> \<not> is_non_overflow (the (am_errorMessage m)) \<and> matches_overflow (the (am_errorMessage m))
      \<or> contextWindow \<noteq> 0 \<and> am_stopReason m = SR_stop \<and> inputTokens > contextWindow
      \<or> contextWindow \<noteq> 0 \<and> am_stopReason m = SR_length \<and> us_output (am_usage m) = 0
        \<and> 100 * inputTokens \<ge> 99 * contextWindow)"

section \<open>Transient errors\<close>

definition RETRYABLE_PATTERN :: rx where
  "RETRYABLE_PATTERN =
     Rx_alt
       [rx_js ''overloaded'',
        Rx_seq [rx_js ''provider'', rx_any, rx_js ''returned'', rx_any, rx_js ''error''],
        Rx_seq [rx_js ''rate'', rx_any, rx_js ''limit''],
        rx_js ''too many requests'',
        rx_words [''429'', ''500'', ''502'', ''503'', ''504''],
        Rx_seq [rx_js ''service'', rx_any, rx_js ''unavailable''],
        Rx_seq [rx_js ''server'', rx_any, rx_js ''error''],
        Rx_seq [rx_js ''internal'', rx_any, rx_js ''error''],
        Rx_seq [rx_js ''network'', rx_any, rx_js ''error''],
        Rx_seq [rx_js ''connection'', rx_any, rx_words [''error'', ''refused'', ''lost'']],
        Rx_seq [rx_js ''websocket'', rx_any, rx_words [''closed'', ''error'']],
        rx_words [''other side closed'', ''fetch failed''],
        Rx_seq [rx_js ''upstream'', rx_any, rx_js ''connect''],
        rx_words [''reset before headers'', ''socket hang up'', ''ended without'', ''stream ended before message_stop'',
          ''http2 request did not get a response''],
        Rx_seq [rx_js ''time'', Rx_opt (rx_js ''d''), rx_js '' out''],
        rx_words [''timeout'', ''terminated'', ''retry delay'']]"

definition isRetryableError :: "int \<Rightarrow> assistant_message \<Rightarrow> bool" where
  "isRetryableError contextWindow m \<longleftrightarrow>
     am_stopReason m = SR_error \<and> truthy_str (am_errorMessage m) \<and> \<not> isContextOverflow m contextWindow
     \<and> rx_test RETRYABLE_PATTERN (the (am_errorMessage m))"

text \<open>An error is met with a retry or with compaction, never with both.\<close>

lemma retryable_not_overflow: "isRetryableError w m \<Longrightarrow> \<not> isContextOverflow m w"
  by (simp add: isRetryableError_def)

lemma retryable_is_error: "isRetryableError w m \<Longrightarrow> am_stopReason m = SR_error"
  by (simp add: isRetryableError_def)

text \<open>
  The comment of the file gives this message of Bedrock as one that the second list of patterns keeps from being taken for
  an overflow. It does not: the prefix it looks for is written with a space.\<close>

definition throttling_example :: jstr where
  "throttling_example = js ''ThrottlingException: Too many tokens''"

lemma throttling_exception_is_overflow:
  assumes "am_stopReason m = SR_error" and "am_errorMessage m = Some throttling_example"
  shows "isContextOverflow m contextWindow"
proof -
  have "\<not> is_non_overflow throttling_example" by code_simp
  moreover have "rx_test (rx_js ''too many tokens'') throttling_example" by code_simp
  then have "matches_overflow throttling_example" by (simp add: matches_overflow_def OVERFLOW_PATTERNS_def)
  ultimately show ?thesis using assms by (simp add: isContextOverflow_def throttling_example_def)
qed

text \<open>A short error that is transient.\<close>

lemma short_error: "rx_test RETRYABLE_PATTERN (js ''429'')" "\<not> matches_overflow (js ''429'')"
  by code_simp+

end
