(* ===== verification/Thinking_Levels.thy ===== *)
theory Thinking_Levels
  imports Messages
begin

text \<open>
  Levels of thinking and models: the functions of \<^verbatim>\<open>packages/ai/src/models.ts\<close> that do not look at the
  generated table. A value of \<^verbatim>\<open>thinkingLevelMap\<close> may be missing, \<^verbatim>\<open>null\<close> or a text.
\<close>

definition EXTENDED_THINKING_LEVELS :: "thinking_level list" where
  "EXTENDED_THINKING_LEVELS = [TL_off, TL_minimal, TL_low, TL_medium, TL_high, TL_xhigh]"

text \<open>The index of a level in the list, which is the order of the levels.\<close>

fun level_index :: "thinking_level \<Rightarrow> nat" where
  "level_index TL_off = 0"
| "level_index TL_minimal = 1"
| "level_index TL_low = 2"
| "level_index TL_medium = 3"
| "level_index TL_high = 4"
| "level_index TL_xhigh = 5"

instantiation thinking_level :: linorder
begin

definition less_eq_thinking_level :: "thinking_level \<Rightarrow> thinking_level \<Rightarrow> bool" where
  "a \<le> b \<longleftrightarrow> level_index a \<le> level_index b"

definition less_thinking_level :: "thinking_level \<Rightarrow> thinking_level \<Rightarrow> bool" where
  "a < b \<longleftrightarrow> level_index a < level_index b"

lemma level_index_inj: "level_index a = level_index b \<Longrightarrow> a = b"
  by (cases a; cases b) simp_all

instance
  by standard (auto simp: less_eq_thinking_level_def less_thinking_level_def intro: level_index_inj)

end

definition getSupportedThinkingLevels :: "llm_model \<Rightarrow> thinking_level list" where
  "getSupportedThinkingLevels m =
     (if \<not> model_reasoning m then [TL_off]
      else filter (\<lambda>level.
        (let mapped = (case model_thinkingLevelMap m of None \<Rightarrow> None | Some v \<Rightarrow> json_get v (thinking_level_text level)) in
         if mapped = Some JNull then False
         else if level = TL_xhigh then mapped \<noteq> None
         else True)) EXTENDED_THINKING_LEVELS)"

definition clampThinkingLevel :: "llm_model \<Rightarrow> thinking_level \<Rightarrow> thinking_level" where
  "clampThinkingLevel m level =
     (let availableLevels = getSupportedThinkingLevels m; requestedIndex = level_index level in
      if level \<in> set availableLevels then level
      else
        (case find (\<lambda>l. l \<in> set availableLevels) (drop requestedIndex EXTENDED_THINKING_LEVELS) of
           Some candidate \<Rightarrow> candidate
         | None \<Rightarrow>
             (case find (\<lambda>l. l \<in> set availableLevels) (rev (take requestedIndex EXTENDED_THINKING_LEVELS)) of
                Some candidate \<Rightarrow> candidate
              | None \<Rightarrow> (case availableLevels of l # _ \<Rightarrow> l | [] \<Rightarrow> TL_off))))"

definition modelsAreEqual :: "llm_model option \<Rightarrow> llm_model option \<Rightarrow> bool" where
  "modelsAreEqual a b \<longleftrightarrow>
     (case (a, b) of (Some x, Some y) \<Rightarrow> model_id x = model_id y \<and> model_provider x = model_provider y | _ \<Rightarrow> False)"

section \<open>Clamping\<close>

lemma sorted_levels: "sorted_wrt (<) EXTENDED_THINKING_LEVELS" and all_levels: "set EXTENDED_THINKING_LEVELS = UNIV"
proof -
  show "sorted_wrt (<) EXTENDED_THINKING_LEVELS" by (simp add: EXTENDED_THINKING_LEVELS_def less_thinking_level_def)
  show "set EXTENDED_THINKING_LEVELS = UNIV"
    unfolding EXTENDED_THINKING_LEVELS_def using thinking_level.exhaust by (auto simp: set_eq_iff)
qed

lemma level_at: "drop (level_index l) EXTENDED_THINKING_LEVELS = l # drop (Suc (level_index l)) EXTENDED_THINKING_LEVELS"
  by (cases l) (simp_all add: EXTENDED_THINKING_LEVELS_def)

lemma levels_above: "set (drop (level_index l) EXTENDED_THINKING_LEVELS) = {k. l \<le> k}"
  and levels_below: "set (take (level_index l) EXTENDED_THINKING_LEVELS) = {k. k < l}"
proof -
  show "set (drop (level_index l) EXTENDED_THINKING_LEVELS) = {k. l \<le> k}"
    by (rule set_eqI, case_tac x) (cases l; simp add: EXTENDED_THINKING_LEVELS_def less_eq_thinking_level_def)+
  show "set (take (level_index l) EXTENDED_THINKING_LEVELS) = {k. k < l}"
    by (rule set_eqI, case_tac x) (cases l; simp add: EXTENDED_THINKING_LEVELS_def less_thinking_level_def)+
qed

text \<open>The first element found in a sorted list is the least.\<close>

lemma find_least:
  fixes xs :: "'a :: linorder list"
  shows "sorted_wrt (<) xs \<Longrightarrow> find P xs = Some y \<Longrightarrow> y \<in> set xs \<and> P y \<and> (\<forall>x\<in>set xs. P x \<longrightarrow> y \<le> x)"
  by (induction xs) (auto split: if_splits)

lemma find_greatest:
  fixes xs :: "'a :: linorder list"
  shows "sorted_wrt (\<lambda>x y. y < x) xs \<Longrightarrow> find P xs = Some y \<Longrightarrow> y \<in> set xs \<and> P y \<and> (\<forall>x\<in>set xs. P x \<longrightarrow> x \<le> y)"
  by (induction xs) (auto split: if_splits)

text \<open>
  A level that the model does not support becomes the next higher one it does, and the next lower one if there is
  none.\<close>

lemma clamp_nearest:
  assumes "getSupportedThinkingLevels m \<noteq> []"
  shows "clampThinkingLevel m level \<in> set (getSupportedThinkingLevels m)
    \<and> (\<forall>l\<in>set (getSupportedThinkingLevels m). level \<le> l \<longrightarrow>
         level \<le> clampThinkingLevel m level \<and> clampThinkingLevel m level \<le> l)
    \<and> (\<forall>l\<in>set (getSupportedThinkingLevels m). clampThinkingLevel m level < level \<longrightarrow> l \<le> clampThinkingLevel m level)"
proof -
  let ?s = "set (getSupportedThinkingLevels m)"
  let ?up = "find (\<lambda>l. l \<in> ?s) (drop (level_index level) EXTENDED_THINKING_LEVELS)"
  let ?down = "find (\<lambda>l. l \<in> ?s) (rev (take (level_index level) EXTENDED_THINKING_LEVELS))"
  have sorted: "sorted_wrt (<) (drop (level_index level) EXTENDED_THINKING_LEVELS)"
    "sorted_wrt (\<lambda>x y. y < x) (rev (take (level_index level) EXTENDED_THINKING_LEVELS))"
    using sorted_levels by (simp_all add: sorted_wrt_drop sorted_wrt_take sorted_wrt_rev)
  show ?thesis
  proof (cases "level \<in> ?s")
    case True
    then show ?thesis by (simp add: clampThinkingLevel_def)
  next
    case no: False
    show ?thesis
    proof (cases ?up)
      case (Some c)
      from find_least [OF sorted(1) this] no Some show ?thesis
        by (auto simp: clampThinkingLevel_def levels_above)
    next
      case None
      then have low: "\<forall>l\<in>?s. l < level" by (auto simp: find_None_iff levels_above not_le)
      obtain l where "l \<in> ?s" using assms by (cases "getSupportedThinkingLevels m") auto
      with low obtain c where down: "?down = Some c" by (cases ?down) (auto simp: find_None_iff levels_below)
      from find_greatest [OF sorted(2) down] no None down low show ?thesis
        by (auto simp: clampThinkingLevel_def levels_below)
    qed
  qed
qed

end
