(* ===== verification/Utf8.thy ===== *)
theory Utf8
  imports Js_Strings
begin

text \<open>
  UTF-8 as \<^verbatim>\<open>Buffer\<close> encodes and decodes it. A string is read as a list of characters: a surrogate pair or
  a single code unit. A byte is a natural number below 256. A lone surrogate is encoded as the replacement character
  U+FFFD. The decoder replaces every byte that does not fit by that character; a real decoder may take
  several such bytes together, which makes no difference here because only well-formed input is decoded.
\<close>

section \<open>Characters\<close>

fun chars :: "jstr \<Rightarrow> jstr list" where
  "chars [] = []"
| "chars [c] = [[c]]"
| "chars (c # d # s) =
     (if high_surrogate c \<and> low_surrogate d then [c, d] # chars s else [c] # chars (d # s))"

definition surrogate :: "code_unit \<Rightarrow> bool" where
  "surrogate c \<longleftrightarrow> high_surrogate c \<or> low_surrogate c"

definition replacement :: code_unit where
  "replacement = 0xFFFD"

fun char_bytes :: "jstr \<Rightarrow> nat list" where
  "char_bytes [c] =
     (let n = unat c in
      if n < 0x80 then [n]
      else if n < 0x800 then [0xC0 + n div 64, 0x80 + n mod 64]
      else if surrogate c then [0xEF, 0xBF, 0xBD]
      else [0xE0 + n div 4096, 0x80 + n div 64 mod 64, 0x80 + n mod 64])"
| "char_bytes [h, l] =
     (let n = 0x10000 + (unat h - 0xD800) * 1024 + (unat l - 0xDC00) in
      [0xF0 + n div 262144, 0x80 + n div 4096 mod 64, 0x80 + n div 64 mod 64, 0x80 + n mod 64])"
| "char_bytes _ = []"

definition utf8_encode :: "jstr \<Rightarrow> nat list" where
  "utf8_encode s = concat (map char_bytes (chars s))"

definition is_continuation :: "nat \<Rightarrow> bool" where
  "is_continuation b \<longleftrightarrow> b div 64 = 2"

fun utf8_decode :: "nat list \<Rightarrow> jstr" where
  "utf8_decode [] = []"
| "utf8_decode (a # bs) =
     (if a < 0x80 then of_nat a # utf8_decode bs
      else if 0xC0 \<le> a \<and> a < 0xE0 \<and> length bs \<ge> 1 \<and> is_continuation (bs ! 0)
      then of_nat ((a - 0xC0) * 64 + (bs ! 0 - 0x80)) # utf8_decode (drop 1 bs)
      else if 0xE0 \<le> a \<and> a < 0xF0 \<and> length bs \<ge> 2 \<and> is_continuation (bs ! 0) \<and> is_continuation (bs ! 1)
      then of_nat ((a - 0xE0) * 4096 + (bs ! 0 - 0x80) * 64 + (bs ! 1 - 0x80)) # utf8_decode (drop 2 bs)
      else if 0xF0 \<le> a \<and> length bs \<ge> 3 \<and> is_continuation (bs ! 0) \<and> is_continuation (bs ! 1)
        \<and> is_continuation (bs ! 2)
      then
        (let n = (a - 0xF0) * 262144 + (bs ! 0 - 0x80) * 4096 + (bs ! 1 - 0x80) * 64 + (bs ! 2 - 0x80) - 0x10000
         in [of_nat (0xD800 + n div 1024), of_nat (0xDC00 + n mod 1024)] @ utf8_decode (drop 3 bs))
      else replacement # utf8_decode bs)"

text \<open>What a character reads back as.\<close>

fun char_fix :: "jstr \<Rightarrow> jstr" where
  "char_fix [c] = (if surrogate c then [replacement] else [c])"
| "char_fix u = u"

section \<open>Characters of a string\<close>

definition is_pair :: "jstr \<Rightarrow> bool" where
  "is_pair u \<longleftrightarrow> (\<exists>h l. u = [h, l] \<and> high_surrogate h \<and> low_surrogate l)"

definition is_char :: "jstr \<Rightarrow> bool" where
  "is_char u \<longleftrightarrow> (\<exists>c. u = [c]) \<or> is_pair u"

text \<open>A list of characters in which no two neighbours would be a pair.\<close>

fun chars_ok :: "jstr list \<Rightarrow> bool" where
  "chars_ok [] = True"
| "chars_ok [u] = is_char u"
| "chars_ok (u # v # us) =
     (is_char u \<and> \<not> (\<exists>c d. u = [c] \<and> v = [d] \<and> high_surrogate c \<and> low_surrogate d) \<and> chars_ok (v # us))"

lemma concat_chars [simp]: "concat (chars s) = s"
  by (induction s rule: chars.induct) auto

lemma chars_not_Nil [simp]: "chars s = [] \<longleftrightarrow> s = []"
  by (cases s rule: chars.cases) auto

lemma chars_hd: "hd (chars (c # s)) = [c] \<or> (\<exists>d t. s = d # t \<and> high_surrogate c \<and> low_surrogate d \<and> hd (chars (c # s)) = [c, d])"
  by (cases s) auto

lemma chars_ok_Cons: "chars_ok (u # us) \<longleftrightarrow>
  is_char u \<and> chars_ok us \<and> (us \<noteq> [] \<longrightarrow> \<not> (\<exists>c d. u = [c] \<and> hd us = [d] \<and> high_surrogate c \<and> low_surrogate d))"
  by (cases us) auto

lemma chars_ok_chars: "chars_ok (chars s)"
proof (induction s rule: chars.induct)
  case (3 c d s)
  show ?case
  proof (cases "high_surrogate c \<and> low_surrogate d")
    case True
    with 3(1) show ?thesis by (auto simp: chars_ok_Cons is_char_def is_pair_def)
  next
    case False
    with 3(2) chars_hd [of d s] show ?thesis by (auto simp: chars_ok_Cons is_char_def)
  qed
qed (auto simp: is_char_def)

lemma is_char_cases:
  assumes "is_char u"
  obtains (single) c where "u = [c]" | (pair) h l where "u = [h, l]" and "high_surrogate h" and "low_surrogate l"
  using assms by (auto simp: is_char_def is_pair_def)

lemma chars_concat: "chars_ok us \<Longrightarrow> chars (concat us) = us"
proof (induction us)
  case (Cons u us)
  then have IH: "chars (concat us) = us" and u: "is_char u" by (simp_all add: chars_ok_Cons)
  from u show ?case
  proof (cases rule: is_char_cases)
    case (single c)
    show ?thesis
    proof (cases "concat us")
      case Nil
      with IH single show ?thesis by simp
    next
      case (Cons d t)
      with IH have us: "us = chars (d # t)" by simp
      have "\<not> (high_surrogate c \<and> low_surrogate d)"
      proof
        assume hl: "high_surrogate c \<and> low_surrogate d"
        have "hd us = [d]" using chars_hd [of d t] surrogates_disjoint hl unfolding us by auto
        with \<open>chars_ok (u # us)\<close> single hl us show False by (auto simp: chars_ok_Cons)
      qed
      with us single Cons show ?thesis by simp
    qed
  next
    case (pair h l)
    with IH show ?thesis by simp
  qed
qed simp

lemma chars_ok_append: "chars_ok (us @ vs) \<Longrightarrow> chars_ok us \<and> chars_ok vs"
proof (induction us)
  case (Cons u us)
  then show ?case by (cases us) (auto simp: chars_ok_Cons)
qed simp

lemma chars_ok_is_char: "chars_ok us \<Longrightarrow> u \<in> set us \<Longrightarrow> is_char u"
  by (induction us) (auto simp: chars_ok_Cons)

section \<open>Bytes of a character\<close>

lemma unat_range: "unat (c :: code_unit) < 65536"
proof -
  have "unat c < 2 ^ LENGTH(16)" by (rule unsigned_less)
  then show ?thesis by simp
qed

lemma surrogate_nat:
  "high_surrogate c \<longleftrightarrow> 0xD800 \<le> unat c \<and> unat c < 0xDC00"
  "low_surrogate c \<longleftrightarrow> 0xDC00 \<le> unat c \<and> unat c < 0xE000"
  by (auto simp: high_surrogate_def low_surrogate_def word_le_nat_alt)

lemma char_bytes_shape:
  assumes "is_char u"
  obtains b bs where "char_bytes u = b # bs" and "\<not> is_continuation b" and "\<forall>x\<in>set bs. is_continuation x"
  using assms
proof (cases rule: is_char_cases)
  case (single c)
  have cont: "is_continuation (0x80 + x mod 64)" "is_continuation 0xBF" "is_continuation 0xBD" for x
    by (simp_all add: is_continuation_def)
  consider (one) "unat c < 0x80" | (two) "\<not> unat c < 0x80" "unat c < 0x800" | (lone) "\<not> unat c < 0x800" "surrogate c"
    | (three) "\<not> unat c < 0x800" "\<not> surrogate c" by blast
  then show thesis
  proof cases
    case one
    then have "\<not> is_continuation (unat c)" unfolding is_continuation_def by linarith
    with one show thesis by (intro that [of "unat c" "[]"]) (simp_all add: single Let_def)
  next
    case two
    have "\<not> is_continuation (0xC0 + unat c div 64)" unfolding is_continuation_def by linarith
    with two cont show thesis
      by (intro that [of "0xC0 + unat c div 64" "[0x80 + unat c mod 64]"]) (simp_all add: single Let_def)
  next
    case lone
    then show thesis
      using cont by (intro that [of "0xEF" "[0xBF, 0xBD]"]) (simp_all add: single Let_def, simp add: is_continuation_def)
  next
    case three
    have "\<not> is_continuation (0xE0 + unat c div 4096)" unfolding is_continuation_def by linarith
    with three cont show thesis
      by (intro that [of "0xE0 + unat c div 4096" "[0x80 + unat c div 64 mod 64, 0x80 + unat c mod 64]"])
        (simp_all add: single Let_def)
  qed
next
  case (pair h l)
  let ?n = "0x10000 + (unat h - 0xD800) * 1024 + (unat l - 0xDC00)"
  have "\<not> is_continuation (0xF0 + ?n div 262144)" by (simp add: is_continuation_def)
  moreover have "is_continuation (0x80 + x mod 64)" for x by (simp add: is_continuation_def)
  ultimately show thesis using that unfolding pair(1) by (simp add: Let_def)
qed

section \<open>Length\<close>

lemma small_nat: "c < (0x80 :: code_unit) \<longleftrightarrow> unat c < 0x80" "c < (0x800 :: code_unit) \<longleftrightarrow> unat c < 0x800"
  by (simp_all add: word_less_nat_alt)

lemma length_single: "length (char_bytes [c]) = (if c < 0x80 then 1 else if c < 0x800 then 2 else 3)"
  by (simp add: Let_def small_nat)

lemma length_pair [simp]: "length (char_bytes [h, l]) = 4"
  by (simp add: Let_def)

lemma length_utf8_encode: "length (utf8_encode s) = utf8_length s"
proof (induction s rule: utf8_length.induct)
  case (2 c)
  show ?case using length_single [of c] by (simp add: utf8_encode_def)
next
  case (3 c d s)
  show ?case
  proof (cases "high_surrogate c \<and> low_surrogate d")
    case True
    with 3(1) show ?thesis by (simp add: utf8_encode_def del: char_bytes.simps)
  next
    case False
    with 3(2) length_single [of c] show ?thesis by (auto simp: utf8_encode_def simp del: char_bytes.simps)
  qed
qed (simp add: utf8_encode_def)

section \<open>Decoding\<close>

lemma continuation_add [simp]: "is_continuation (0x80 + x mod 64)"
  by (simp add: is_continuation_def)

lemma of_nat_unat [simp]: "(of_nat (unat c) :: code_unit) = c"
  by simp

lemma digits64:
  "x div 64 div 64 * 4096 + x div 64 mod 64 * 64 + x mod 64 = (x :: nat)"
  "x div 64 div 64 div 64 * 262144 + x div 64 div 64 mod 64 * 4096 + x div 64 mod 64 * 64 + x mod 64 = (x :: nat)"
proof -
  have x: "x div 64 * 64 + x mod 64 = x" by (rule div_mult_mod_eq)
  have y: "x div 64 div 64 * 64 + x div 64 mod 64 = x div 64" by (rule div_mult_mod_eq)
  have z: "x div 64 div 64 div 64 * 64 + x div 64 div 64 mod 64 = x div 64 div 64" by (rule div_mult_mod_eq)
  show "x div 64 div 64 * 4096 + x div 64 mod 64 * 64 + x mod 64 = x" using x y by linarith
  show "x div 64 div 64 div 64 * 262144 + x div 64 div 64 mod 64 * 4096 + x div 64 mod 64 * 64 + x mod 64 = x"
    using x y z by linarith
qed

lemma decode_single:
  "utf8_decode (char_bytes [c] @ bs) = char_fix [c] @ utf8_decode bs"
proof -
  let ?n = "unat c"
  consider (one) "?n < 0x80" | (two) "\<not> ?n < 0x80" "?n < 0x800" | (lone) "\<not> ?n < 0x800" "surrogate c"
    | (three) "\<not> ?n < 0x800" "\<not> surrogate c" by blast
  then show ?thesis
  proof cases
    case one
    then have "\<not> surrogate c" by (auto simp: surrogate_def surrogate_nat)
    with one show ?thesis by (simp add: Let_def)
  next
    case two
    then have s: "\<not> surrogate c" by (auto simp: surrogate_def surrogate_nat)
    have "?n div 64 < 32" using two(2) by linarith
    moreover have "(0xC0 + ?n div 64 - 0xC0) * 64 + (0x80 + ?n mod 64 - 0x80) = ?n" by simp
    ultimately show ?thesis using two s by (simp add: Let_def)
  next
    case lone
    have "(of_nat ((0xEF - 0xE0) * 4096 + (0xBF - 0x80) * 64 + (0xBD - 0x80)) :: code_unit) = replacement"
      by (simp add: replacement_def)
    with lone show ?thesis by (simp add: Let_def is_continuation_def)
  next
    case three
    have "?n div 4096 < 16" using unat_range [of c] by linarith
    moreover have "(0xE0 + ?n div 4096 - 0xE0) * 4096 + (0x80 + ?n div 64 mod 64 - 0x80) * 64 + (0x80 + ?n mod 64 - 0x80) = ?n"
    proof -
      have "?n div 4096 = ?n div 64 div 64" by (simp add: div_mult2_eq [symmetric])
      then show ?thesis using digits64(1) [of ?n] by simp
    qed
    ultimately show ?thesis using three by (simp add: Let_def)
  qed
qed

lemma decode_pair:
  assumes "high_surrogate h" and "low_surrogate l"
  shows "utf8_decode (char_bytes [h, l] @ bs) = [h, l] @ utf8_decode bs"
proof -
  define m where "m = (unat h - 0xD800) * 1024 + (unat l - 0xDC00)"
  let ?n = "0x10000 + m"
  have parts: "unat h - 0xD800 < 1024" "unat l - 0xDC00 < 1024" "0xD800 \<le> unat h" "0xDC00 \<le> unat l"
    using assms by (auto simp: surrogate_nat)
  have m: "m div 1024 = unat h - 0xD800" "m mod 1024 = unat l - 0xDC00" "m < 1048576"
    using parts(1,2) by (simp_all add: m_def)
  have "?n div 262144 < 8" using m(3) by linarith
  have sum: "(0xF0 + ?n div 262144 - 0xF0) * 262144 + (0x80 + ?n div 4096 mod 64 - 0x80) * 4096
      + (0x80 + ?n div 64 mod 64 - 0x80) * 64 + (0x80 + ?n mod 64 - 0x80) - 0x10000 = m"
  proof -
    have "?n div 262144 = ?n div 64 div 64 div 64" "?n div 4096 = ?n div 64 div 64"
      by (simp_all add: div_mult2_eq [symmetric])
    then show ?thesis using digits64(2) [of ?n] by simp
  qed
  have bytes: "char_bytes [h, l] = [0xF0 + ?n div 262144, 0x80 + ?n div 4096 mod 64, 0x80 + ?n div 64 mod 64, 0x80 + ?n mod 64]"
    by (simp add: Let_def m_def add.assoc)
  have "utf8_decode (char_bytes [h, l] @ bs) =
      [of_nat (0xD800 + m div 1024), of_nat (0xDC00 + m mod 1024)] @ utf8_decode bs"
    unfolding bytes using sum by (simp add: Let_def del: of_nat_add)
  also have "[of_nat (0xD800 + m div 1024), of_nat (0xDC00 + m mod 1024)] = [h, l]"
    using parts m by (simp del: of_nat_add)
  finally show ?thesis .
qed

lemma decode_chars: "chars_ok us \<Longrightarrow> utf8_decode (concat (map char_bytes us)) = concat (map char_fix us)"
proof (induction us)
  case (Cons u us)
  then have "is_char u" "utf8_decode (concat (map char_bytes us)) = concat (map char_fix us)"
    by (simp_all add: chars_ok_Cons)
  then show ?case
    by (cases rule: is_char_cases)
      (simp_all add: decode_single decode_pair del: char_bytes.simps char_fix.simps(1))
qed simp

section \<open>Cutting off bytes at a character boundary\<close>

fun char_total :: "jstr list \<Rightarrow> nat" where
  "char_total [] = 0"
| "char_total (u # us) = length (char_bytes u) + char_total us"

text \<open>The longest suffix whose encoding fits.\<close>

fun fit_suffix :: "nat \<Rightarrow> jstr list \<Rightarrow> jstr list" where
  "fit_suffix k [] = []"
| "fit_suffix k (u # us) = (if char_total (u # us) \<le> k then u # us else fit_suffix k us)"

lemma char_total_length: "length (concat (map char_bytes us)) = char_total us"
  by (induction us) simp_all

lemma char_total_append [simp]: "char_total (us @ vs) = char_total us + char_total vs"
  by (induction us) simp_all

lemma fit_suffix_whole: "char_total us \<le> k \<Longrightarrow> fit_suffix k us = us"
  by (cases us) simp_all

lemma fit_suffix_bound: "char_total (fit_suffix k us) \<le> k"
  by (induction us) simp_all

lemma fit_suffix_suffix: "\<exists>vs. us = vs @ fit_suffix k us"
proof (induction us)
  case (Cons u us)
  then obtain vs where "us = vs @ fit_suffix k us" by blast
  then have "u # us = (u # vs) @ fit_suffix k us" by simp
  then show ?case by (metis append_Nil fit_suffix.simps(2))
qed simp

lemma dropWhile_chars:
  assumes "chars_ok us"
  shows "dropWhile is_continuation (concat (map char_bytes us)) = concat (map char_bytes us)"
proof (cases us)
  case (Cons u vs)
  with assms have "is_char u" by (simp add: chars_ok_Cons)
  then obtain b bs where "char_bytes u = b # bs" "\<not> is_continuation b" by (metis char_bytes_shape)
  with Cons show ?thesis by simp
qed simp

lemma cut_bytes:
  assumes "chars_ok us"
  shows "dropWhile is_continuation (drop (char_total us - k) (concat (map char_bytes us)))
    = concat (map char_bytes (fit_suffix k us))"
  using assms
proof (induction us)
  case (Cons u us)
  then have us: "chars_ok us" and u: "is_char u" by (simp_all add: chars_ok_Cons)
  show ?case
  proof (cases "char_total (u # us) \<le> k")
    case True
    with dropWhile_chars [OF Cons.prems] show ?thesis by simp
  next
    case False
    from u obtain b bs where shape: "char_bytes u = b # bs" "\<forall>x\<in>set bs. is_continuation x" by (metis char_bytes_shape)
    show ?thesis
    proof (cases "char_total us \<le> k")
      case True
      let ?n = "char_total (u # us) - k"
      have n: "0 < ?n" "?n \<le> length (char_bytes u)" using True False by simp_all
      have "drop ?n (char_bytes u) = drop (?n - 1) bs" using n(1) by (simp add: shape(1) drop_Cons')
      then have "\<forall>x\<in>set (drop ?n (char_bytes u)). is_continuation x"
        using shape(2) set_drop_subset [of "?n - 1" bs] by auto
      then have "dropWhile is_continuation (drop ?n (char_bytes u) @ concat (map char_bytes us))
          = dropWhile is_continuation (concat (map char_bytes us))"
        by (simp add: dropWhile_append)
      moreover have "drop ?n (concat (map char_bytes (u # us))) = drop ?n (char_bytes u) @ concat (map char_bytes us)"
        using n(2) by simp
      ultimately have "dropWhile is_continuation (drop ?n (concat (map char_bytes (u # us))))
          = concat (map char_bytes us)"
        using dropWhile_chars [OF us] by simp
      then show ?thesis using True False by (simp add: fit_suffix_whole)
    next
      case 2: False
      then have "drop (char_total (u # us) - k) (concat (map char_bytes (u # us)))
          = drop (char_total us - k) (concat (map char_bytes us))"
        by simp
      with Cons.IH [OF us] False show ?thesis by simp
    qed
  qed
qed simp

end
