(* ===== verification/Truncate.thy ===== *)
theory Truncate
  imports Utf8
begin

text \<open>
  Truncation of tool output by lines and bytes: \<^verbatim>\<open>packages/coding-agent/src/core/tools/truncate.ts\<close>, which measures
  and cuts with \<^verbatim>\<open>Buffer\<close>, and \<^verbatim>\<open>packages/agent/src/harness/utils/truncate.ts\<close>, which does
  so by hand on code units. The limits are natural numbers.
\<close>

section \<open>Byte lengths\<close>

text \<open>\<^verbatim>\<open>utf8ByteLength\<close>: with \<^verbatim>\<open>Buffer\<close> at hand, or the loop from the first unit that is not ASCII.\<close>

fun byte_count :: "jstr \<Rightarrow> nat" where
  "byte_count [] = 0"
| "byte_count (c # s) =
     (if c \<le> 0x7F then 1 + byte_count s
      else if c \<le> 0x7FF then 2 + byte_count s
      else if high_surrogate c \<and> s \<noteq> []
      then (if low_surrogate (hd s) then 4 + byte_count (tl s) else 3 + byte_count s)
      else 3 + byte_count s)"

definition utf8ByteLength :: "bool \<Rightarrow> jstr \<Rightarrow> nat" where
  "utf8ByteLength has_buffer content =
     (if has_buffer then utf8_length content
      else
        (case find_index (\<lambda>c. \<not> c \<le> 0x7F) content of
           None \<Rightarrow> length content
         | Some k \<Rightarrow> k + byte_count (drop k content)))"

fun replaceUnpairedSurrogates :: "jstr \<Rightarrow> jstr" where
  "replaceUnpairedSurrogates [] = []"
| "replaceUnpairedSurrogates (c # s) =
     (if high_surrogate c then
        (if s \<noteq> [] \<and> low_surrogate (hd s) then [c, hd s] @ replaceUnpairedSurrogates (tl s)
         else replacement # replaceUnpairedSurrogates s)
      else if low_surrogate c then replacement # replaceUnpairedSurrogates s
      else c # replaceUnpairedSurrogates s)"

section \<open>The end of a line\<close>

text \<open>\<^verbatim>\<open>truncateStringToBytesFromEnd\<close>, on the bytes of a \<^verbatim>\<open>Buffer\<close>.\<close>

function next_boundary :: "nat list \<Rightarrow> nat \<Rightarrow> nat" where
  "next_boundary buf start =
     (if start < length buf \<and> is_continuation (buf ! start) then next_boundary buf (Suc start) else start)"
  by pat_completeness auto

termination by (relation "measure (\<lambda>(buf, start). length buf - start)") auto

declare next_boundary.simps [simp del]

definition truncateStringToBytesFromEnd :: "jstr \<Rightarrow> nat \<Rightarrow> jstr" where
  "truncateStringToBytesFromEnd str maxBytes =
     (let buf = utf8_encode str in
      if length buf \<le> maxBytes then str
      else utf8_decode (drop (next_boundary buf (length buf - maxBytes)) buf))"

text \<open>The same by hand: the loop goes back from index \<open>i\<close> over whole characters.\<close>

definition char_before :: "jstr \<Rightarrow> nat \<Rightarrow> nat \<times> nat \<times> bool" where
  "char_before str i =
     (let code = str ! (i - 1) in
      if low_surrogate code \<and> 0 < i - 1
      then (if high_surrogate (str ! (i - 2)) then (i - 2, 4, False) else (i - 1, 3, True))
      else if surrogate code then (i - 1, 3, True)
      else (i - 1, if code \<le> 0x7F then 1 else if code \<le> 0x7FF then 2 else 3, False))"

function cut_loop :: "jstr \<Rightarrow> nat \<Rightarrow> nat \<Rightarrow> nat \<Rightarrow> nat \<Rightarrow> bool \<Rightarrow> nat \<times> bool" where
  "cut_loop str maxBytes i outputBytes start needsReplacement =
     (if i = 0 then (start, needsReplacement)
      else
        (case char_before str i of
           (characterStart, characterBytes, unpaired) \<Rightarrow>
             if outputBytes + characterBytes > maxBytes then (start, needsReplacement)
             else cut_loop str maxBytes characterStart (outputBytes + characterBytes) characterStart
                    (needsReplacement \<or> unpaired)))"
  by pat_completeness auto

termination
  by (relation "measure (\<lambda>(str, maxBytes, i, _). i)") (auto simp: char_before_def Let_def split: if_splits)

declare cut_loop.simps [simp del]

definition harness_truncateStringToBytesFromEnd :: "jstr \<Rightarrow> nat \<Rightarrow> jstr" where
  "harness_truncateStringToBytesFromEnd str maxBytes =
     (if maxBytes = 0 then []
      else
        (let (start, needsReplacement) = cut_loop str maxBytes (length str) 0 (length str) False;
             out = drop start str
         in if needsReplacement then replaceUnpairedSurrogates out else out))"

section \<open>Truncation\<close>

datatype truncated_by = By_lines | By_bytes

record truncation_result =
  tn_content :: jstr
  tn_truncated :: bool
  tn_truncatedBy :: "truncated_by option"
  tn_totalLines :: nat
  tn_totalBytes :: nat
  tn_outputLines :: nat
  tn_outputBytes :: nat
  tn_lastLinePartial :: bool
  tn_firstLineExceedsLimit :: bool
  tn_maxLines :: nat
  tn_maxBytes :: nat

record truncation_options =
  to_maxLines :: "nat option"
  to_maxBytes :: "nat option"

definition DEFAULT_MAX_LINES :: nat where
  "DEFAULT_MAX_LINES = 2000"

definition DEFAULT_MAX_BYTES :: nat where
  "DEFAULT_MAX_BYTES = 50 * 1024"

definition GREP_MAX_LINE_LENGTH :: nat where
  "GREP_MAX_LINE_LENGTH = 500"

text \<open>The two files share their loops; the measure of a line and the cut of a long one are arguments.\<close>

fun head_loop ::
  "(jstr \<Rightarrow> nat) \<Rightarrow> nat \<Rightarrow> nat \<Rightarrow> jstr list \<Rightarrow> nat \<Rightarrow> jstr list \<Rightarrow> nat \<Rightarrow> jstr list \<times> nat \<times> truncated_by" where
  "head_loop len maxLines maxBytes [] i out bytes = (out, bytes, By_lines)"
| "head_loop len maxLines maxBytes (line # rest) i out bytes =
     (if \<not> i < maxLines then (out, bytes, By_lines)
      else
        (let lineBytes = len line + (if i > 0 then 1 else 0) in
         if bytes + lineBytes > maxBytes then (out, bytes, By_bytes)
         else head_loop len maxLines maxBytes rest (Suc i) (out @ [line]) (bytes + lineBytes)))"

definition truncate_head :: "(jstr \<Rightarrow> nat) \<Rightarrow> jstr \<Rightarrow> truncation_options \<Rightarrow> truncation_result" where
  "truncate_head len content options =
     (let maxLines = nullish (to_maxLines options) DEFAULT_MAX_LINES;
          maxBytes = nullish (to_maxBytes options) DEFAULT_MAX_BYTES;
          totalBytes = len content;
          ls = split_on LF content;
          totalLines = length ls
      in if totalLines \<le> maxLines \<and> totalBytes \<le> maxBytes
         then \<lparr>tn_content = content, tn_truncated = False, tn_truncatedBy = None, tn_totalLines = totalLines,
               tn_totalBytes = totalBytes, tn_outputLines = totalLines, tn_outputBytes = totalBytes,
               tn_lastLinePartial = False, tn_firstLineExceedsLimit = False, tn_maxLines = maxLines,
               tn_maxBytes = maxBytes\<rparr>
         else if len (hd ls) > maxBytes
         then \<lparr>tn_content = [], tn_truncated = True, tn_truncatedBy = Some By_bytes, tn_totalLines = totalLines,
               tn_totalBytes = totalBytes, tn_outputLines = 0, tn_outputBytes = 0,
               tn_lastLinePartial = False, tn_firstLineExceedsLimit = True, tn_maxLines = maxLines,
               tn_maxBytes = maxBytes\<rparr>
         else
           (let (out, bytes, reason) = head_loop len maxLines maxBytes ls 0 [] 0;
                reason' = (if length out \<ge> maxLines \<and> bytes \<le> maxBytes then By_lines else reason);
                outputContent = join_with [LF] out
            in \<lparr>tn_content = outputContent, tn_truncated = True, tn_truncatedBy = Some reason', tn_totalLines = totalLines,
                tn_totalBytes = totalBytes, tn_outputLines = length out, tn_outputBytes = len outputContent,
                tn_lastLinePartial = False, tn_firstLineExceedsLimit = False, tn_maxLines = maxLines,
                tn_maxBytes = maxBytes\<rparr>))"

text \<open>The lines are given from the last one back.\<close>

fun tail_loop ::
  "(jstr \<Rightarrow> nat) \<Rightarrow> (jstr \<Rightarrow> nat \<Rightarrow> jstr) \<Rightarrow> nat \<Rightarrow> nat \<Rightarrow> jstr list \<Rightarrow> jstr list \<Rightarrow> nat \<Rightarrow>
   jstr list \<times> nat \<times> truncated_by \<times> bool" where
  "tail_loop len shorten maxLines maxBytes [] out bytes = (out, bytes, By_lines, False)"
| "tail_loop len shorten maxLines maxBytes (line # rest) out bytes =
     (if \<not> length out < maxLines then (out, bytes, By_lines, False)
      else
        (let lineBytes = len line + (if length out > 0 then 1 else 0) in
         if bytes + lineBytes > maxBytes
         then
           (if out = []
            then (let t = shorten line maxBytes in ([t], len t, By_bytes, True))
            else (out, bytes, By_bytes, False))
         else tail_loop len shorten maxLines maxBytes rest (line # out) (bytes + lineBytes)))"

definition truncate_tail ::
  "(jstr \<Rightarrow> nat) \<Rightarrow> (jstr \<Rightarrow> nat \<Rightarrow> jstr) \<Rightarrow> jstr \<Rightarrow> truncation_options \<Rightarrow> truncation_result" where
  "truncate_tail len shorten content options =
     (let maxLines = nullish (to_maxLines options) DEFAULT_MAX_LINES;
          maxBytes = nullish (to_maxBytes options) DEFAULT_MAX_BYTES;
          totalBytes = len content;
          ls = split_on LF content;
          totalLines = length ls
      in if totalLines \<le> maxLines \<and> totalBytes \<le> maxBytes
         then \<lparr>tn_content = content, tn_truncated = False, tn_truncatedBy = None, tn_totalLines = totalLines,
               tn_totalBytes = totalBytes, tn_outputLines = totalLines, tn_outputBytes = totalBytes,
               tn_lastLinePartial = False, tn_firstLineExceedsLimit = False, tn_maxLines = maxLines,
               tn_maxBytes = maxBytes\<rparr>
         else
           (let (out, bytes, reason, partial) = tail_loop len shorten maxLines maxBytes (rev ls) [] 0;
                reason' = (if length out \<ge> maxLines \<and> bytes \<le> maxBytes then By_lines else reason);
                outputContent = join_with [LF] out
            in \<lparr>tn_content = outputContent, tn_truncated = True, tn_truncatedBy = Some reason', tn_totalLines = totalLines,
                tn_totalBytes = totalBytes, tn_outputLines = length out, tn_outputBytes = len outputContent,
                tn_lastLinePartial = partial, tn_firstLineExceedsLimit = False, tn_maxLines = maxLines,
                tn_maxBytes = maxBytes\<rparr>))"

definition truncateHead :: "jstr \<Rightarrow> truncation_options \<Rightarrow> truncation_result" where
  "truncateHead = truncate_head utf8_length"

definition truncateTail :: "jstr \<Rightarrow> truncation_options \<Rightarrow> truncation_result" where
  "truncateTail = truncate_tail utf8_length truncateStringToBytesFromEnd"

definition harness_truncateHead :: "bool \<Rightarrow> jstr \<Rightarrow> truncation_options \<Rightarrow> truncation_result" where
  "harness_truncateHead has_buffer = truncate_head (utf8ByteLength has_buffer)"

definition harness_truncateTail :: "bool \<Rightarrow> jstr \<Rightarrow> truncation_options \<Rightarrow> truncation_result" where
  "harness_truncateTail has_buffer =
     truncate_tail (utf8ByteLength has_buffer) harness_truncateStringToBytesFromEnd"

definition truncateLine :: "jstr \<Rightarrow> nat option \<Rightarrow> jstr \<times> bool" where
  "truncateLine line maxChars =
     (let n = nullish maxChars GREP_MAX_LINE_LENGTH in
      if length line \<le> n then (line, False) else (take n line @ js ''... [truncated]'', True))"

section \<open>The two ways to measure and to cut agree\<close>

lemma ascii_nat: "c \<le> (0x7F :: code_unit) \<longleftrightarrow> c < 0x80" "c \<le> (0x7FF :: code_unit) \<longleftrightarrow> c < 0x800"
  by (simp_all add: word_le_nat_alt word_less_nat_alt less_Suc_eq_le [symmetric])

lemma surrogate_large: "surrogate c \<Longrightarrow> \<not> c < 0x80 \<and> \<not> c < 0x800"
  by (auto simp: surrogate_def surrogate_nat small_nat)

lemma byte_count: "byte_count s = utf8_length s"
proof (induction s rule: utf8_length.induct)
  case (3 c d s)
  show ?case
  proof (cases "high_surrogate c \<and> low_surrogate d")
    case True
    with 3(1) surrogate_large [of c] show ?thesis by (simp add: ascii_nat surrogate_def)
  next
    case False
    with 3(2) show ?thesis by (auto simp: ascii_nat)
  qed
qed (auto simp: ascii_nat)

lemma utf8_length_ascii:
  "\<forall>c\<in>set s. c \<le> 0x7F \<Longrightarrow> utf8_length (s @ t) = length s + utf8_length t"
proof (induction s)
  case (Cons c s)
  then have "\<not> high_surrogate c" "c < 0x80" using surrogate_large [of c] by (auto simp: ascii_nat surrogate_def)
  with Cons show ?case by (cases "s @ t") auto
qed simp

lemma utf8ByteLength_buffer: "utf8ByteLength has_buffer s = utf8_length s"
proof (cases "find_index (\<lambda>c. \<not> c \<le> 0x7F) s")
  case None
  then have "\<forall>c\<in>set s. c \<le> 0x7F" by (auto simp: find_index_None_iff)
  from utf8_length_ascii [OF this, of "[]"] None show ?thesis by (simp add: utf8ByteLength_def)
next
  case (Some k)
  from find_index_SomeD [OF this] have k: "k < length s" "\<forall>j<k. s ! j \<le> 0x7F" by auto
  then have "\<forall>c\<in>set (take k s). c \<le> 0x7F" by (auto simp: in_set_conv_nth)
  from utf8_length_ascii [OF this, of "drop k s"] Some k(1) show ?thesis
    by (simp add: utf8ByteLength_def byte_count)
qed

lemma replace_chars: "replaceUnpairedSurrogates s = concat (map char_fix (chars s))"
proof (induction s rule: chars.induct)
  case (2 c)
  show ?case by (simp add: surrogate_def)
next
  case (3 c d s)
  then show ?case by (auto simp: surrogate_def)
qed simp

lemma next_boundary_drop: "drop (next_boundary buf n) buf = dropWhile is_continuation (drop n buf)"
proof (induction buf n rule: next_boundary.induct)
  case (1 buf start)
  show ?case
  proof (cases "start < length buf \<and> is_continuation (buf ! start)")
    case True
    then have "drop start buf = buf ! start # drop (Suc start) buf" by (simp add: Cons_nth_drop_Suc)
    with 1 True show ?thesis by (simp add: next_boundary.simps [of buf start])
  next
    case False
    show ?thesis
    proof (cases "start < length buf")
      case True
      then have "drop start buf = buf ! start # drop (Suc start) buf" by (simp add: Cons_nth_drop_Suc)
      with False True show ?thesis by (simp add: next_boundary.simps [of buf start])
    next
      case 2: False
      then show ?thesis by (simp add: next_boundary.simps [of buf start])
    qed
  qed
qed

lemma total_chars: "char_total (chars s) = utf8_length s"
  by (simp add: char_total_length [symmetric] length_utf8_encode [unfolded utf8_encode_def])

lemma cut_buffer:
  assumes "maxBytes < utf8_length s"
  shows "truncateStringToBytesFromEnd s maxBytes = concat (map char_fix (fit_suffix maxBytes (chars s)))"
proof -
  obtain vs where vs: "chars s = vs @ fit_suffix maxBytes (chars s)" using fit_suffix_suffix by blast
  have ok: "chars_ok (fit_suffix maxBytes (chars s))" using chars_ok_append [of vs] chars_ok_chars [of s] vs by metis
  have "truncateStringToBytesFromEnd s maxBytes =
      utf8_decode (dropWhile is_continuation (drop (utf8_length s - maxBytes) (utf8_encode s)))"
    using assms by (simp add: truncateStringToBytesFromEnd_def length_utf8_encode next_boundary_drop Let_def)
  also have "\<dots> = utf8_decode (concat (map char_bytes (fit_suffix maxBytes (chars s))))"
    using cut_bytes [OF chars_ok_chars, of s maxBytes] by (simp add: utf8_encode_def total_chars)
  also have "\<dots> = concat (map char_fix (fit_suffix maxBytes (chars s)))" using ok by (rule decode_chars)
  finally show ?thesis .
qed

lemma fit_suffix_step:
  assumes "char_total us \<le> k" and "k < char_total (u # us)"
  shows "fit_suffix k (vs @ u # us) = us"
proof (induction vs)
  case Nil
  show ?case using assms by (simp add: fit_suffix_whole)
next
  case (Cons v vs)
  then show ?case using assms by simp
qed

text \<open>The hand-written loop steps back over one character of the string at a time.\<close>

lemma char_before_single:
  assumes "\<not> (low_surrogate c \<and> s \<noteq> [] \<and> high_surrogate (last s))"
  shows "char_before (s @ c # t) (Suc (length s)) = (length s, length (char_bytes [c]), surrogate c)"
proof -
  have len: "length (char_bytes [c]) = (if surrogate c then 3 else if c \<le> 0x7F then 1 else if c \<le> 0x7FF then 2 else 3)"
    using surrogate_large [of c] length_single [of c] by (auto simp: ascii_nat)
  show ?thesis
  proof (cases "low_surrogate c \<and> 0 < length s")
    case True
    then have s: "s \<noteq> []" by auto
    then have "(s @ c # t) ! (length s - 1) = last s" by (simp add: nth_append last_conv_nth)
    with True s assms len show ?thesis
      by (simp add: char_before_def Let_def nth_append numeral_2_eq_2 surrogate_def del: char_bytes.simps)
  next
    case False
    with len show ?thesis
      by (auto simp: char_before_def Let_def nth_append surrogate_def simp del: char_bytes.simps)
  qed
qed

lemma char_before_pair:
  assumes "high_surrogate h" and "low_surrogate l"
  shows "char_before (s @ h # l # t) (length s + 2) = (length s, length (char_bytes [h, l]), False)"
  using assms by (simp add: char_before_def Let_def nth_append del: char_bytes.simps)

lemma chars_ok_last:
  assumes "chars_ok (us @ [c] # vs)" and "low_surrogate c" and "us \<noteq> []"
  shows "\<not> high_surrogate (last (concat us))"
proof -
  from assms(3) obtain ws w where us: "us = ws @ [w]" by (metis rev_exhaust)
  from assms(1) have "chars_ok (w # [c] # vs)" unfolding us using chars_ok_append [of ws "w # [c] # vs"] by simp
  then have w: "is_char w" and ok: "\<not> (\<exists>a d. w = [a] \<and> [c] = [d] \<and> high_surrogate a \<and> low_surrogate d)"
    by simp_all
  from w show ?thesis
  proof (cases rule: is_char_cases)
    case (single a)
    with ok assms(2) us show ?thesis by simp
  next
    case (pair h l)
    with us surrogates_disjoint [of l] show ?thesis by simp
  qed
qed

lemma char_before_char:
  assumes "chars_ok (us @ u # vs)"
  shows "char_before (concat us @ u @ t) (length (concat us) + length u)
    = (length (concat us), length (char_bytes u), char_fix u \<noteq> u)"
proof -
  have ok: "chars_ok us" "is_char u"
    using chars_ok_append [OF assms] by (simp_all add: chars_ok_Cons)
  from ok(2) show ?thesis
  proof (cases rule: is_char_cases)
    case (single c)
    have "\<not> (low_surrogate c \<and> concat us \<noteq> [] \<and> high_surrogate (last (concat us)))"
      using chars_ok_last assms unfolding single by fastforce
    from char_before_single [OF this, of t] single show ?thesis
      by (auto simp: replacement_def surrogate_def surrogate_nat simp del: char_bytes.simps)
  next
    case (pair h l)
    with char_before_pair [of h l "concat us" t] show ?thesis by (simp del: char_bytes.simps)
  qed
qed

lemma cut_loop_chars:
  assumes "chars_ok (us @ vs)" and "char_total vs \<le> maxBytes"
    and "needs \<longleftrightarrow> (\<exists>u\<in>set vs. char_fix u \<noteq> u)"
  shows "cut_loop (concat (us @ vs)) maxBytes (length (concat us)) (char_total vs) (length (concat us)) needs =
    (length (concat (us @ vs)) - length (concat (fit_suffix maxBytes (us @ vs))),
     \<exists>u\<in>set (fit_suffix maxBytes (us @ vs)). char_fix u \<noteq> u)"
  using assms
proof (induction us arbitrary: vs needs rule: rev_induct)
  case Nil
  then show ?case by (simp add: cut_loop.simps fit_suffix_whole)
next
  case (snoc u us)
  have ok: "chars_ok (us @ u # vs)" using snoc.prems(1) by simp
  then have u: "is_char u" using chars_ok_is_char [of "us @ u # vs" u] by simp
  then have len: "0 < length u" by (cases rule: is_char_cases) simp_all
  have before: "char_before (concat us @ u @ concat vs) (length (concat us) + length u)
    = (length (concat us), length (char_bytes u), char_fix u \<noteq> u)"
    by (rule char_before_char [OF ok])
  show ?case
  proof (cases "char_total vs + length (char_bytes u) \<le> maxBytes")
    case True
    have "cut_loop (concat (us @ u # vs)) maxBytes (length (concat us)) (char_total (u # vs)) (length (concat us))
        (needs \<or> char_fix u \<noteq> u) =
      (length (concat (us @ u # vs)) - length (concat (fit_suffix maxBytes (us @ u # vs))),
       \<exists>u\<in>set (fit_suffix maxBytes (us @ u # vs)). char_fix u \<noteq> u)"
      using True snoc.prems(3) by (intro snoc.IH [OF ok]) auto
    moreover have "char_total (u # vs) = char_total vs + length (char_bytes u)" by simp
    ultimately show ?thesis using True before len
      by (simp add: cut_loop.simps [of _ _ "length (concat us) + length u"] del: char_total.simps)
  next
    case False
    then have "fit_suffix maxBytes (us @ u # vs) = vs"
      using snoc.prems(2) by (intro fit_suffix_step) simp_all
    with False before len snoc.prems(3) show ?thesis
      by (simp add: cut_loop.simps [of _ _ "length (concat us) + length u"])
  qed
qed

lemma char_fix_id: "(\<forall>u\<in>set us. char_fix u = u) \<Longrightarrow> concat (map char_fix us) = concat us"
  by (induction us) simp_all

lemma cut_by_hand:
  "harness_truncateStringToBytesFromEnd s maxBytes = concat (map char_fix (fit_suffix maxBytes (chars s)))"
proof -
  let ?fit = "fit_suffix maxBytes (chars s)"
  obtain vs where vs: "chars s = vs @ ?fit" using fit_suffix_suffix by blast
  then have s: "s = concat vs @ concat ?fit" by (metis concat_append concat_chars)
  have ok: "chars_ok ?fit" using chars_ok_append [of vs] chars_ok_chars [of s] vs by metis
  have run: "cut_loop s maxBytes (length s) 0 (length s) False =
      (length s - length (concat ?fit), \<exists>u\<in>set ?fit. char_fix u \<noteq> u)"
    using cut_loop_chars [of "chars s" "[]" maxBytes False] chars_ok_chars [of s] by simp
  have "length s - length (concat ?fit) = length (concat vs)" by (subst s) simp
  then have out: "drop (length s - length (concat ?fit)) s = concat ?fit" by (metis append_eq_conv_conj s)
  have zero: "?fit = []" if "maxBytes = 0"
  proof -
    have "char_total ?fit = 0" using fit_suffix_bound [of maxBytes "chars s"] that by simp
    then have "utf8_length (concat ?fit) = 0" using total_chars [of "concat ?fit"] chars_concat [OF ok] by simp
    then have "concat ?fit = []" by (simp only: utf8_length_zero)
    then show ?thesis using chars_concat [OF ok] by (simp only: chars.simps)
  qed
  show ?thesis
    using run out zero chars_concat [OF ok]
    by (auto simp: harness_truncateStringToBytesFromEnd_def Let_def replace_chars char_fix_id simp del: concat_eq_Nil_conv)
qed

lemma cuts_agree:
  "maxBytes < utf8_length s \<Longrightarrow> harness_truncateStringToBytesFromEnd s maxBytes = truncateStringToBytesFromEnd s maxBytes"
  by (simp add: cut_buffer cut_by_hand)

section \<open>Joined lines\<close>

lemma utf8_length_append_LF: "utf8_length (a @ LF # b) = utf8_length a + 1 + utf8_length b"
proof (induction a rule: utf8_length.induct)
  case 1
  then show ?case by (cases b) (simp_all add: LF_def high_surrogate_def)
next
  case (2 c)
  then show ?case by (cases b) (simp_all add: LF_def high_surrogate_def low_surrogate_def)
qed simp_all

lemma utf8_length_snoc_line:
  "utf8_length (join_with [LF] (out @ [line])) =
    utf8_length (join_with [LF] out) + (utf8_length line + (if 0 < length out then 1 else 0))"
proof (cases "out = []")
  case False
  then have "join_with [LF] (out @ [line]) = join_with [LF] out @ LF # line"
    by (induction out) (auto simp: join_with_Cons)
  with False show ?thesis by (simp add: utf8_length_append_LF)
qed simp

lemma utf8_length_Cons_line:
  "utf8_length (join_with [LF] (line # out)) =
    utf8_length (join_with [LF] out) + (utf8_length line + (if 0 < length out then 1 else 0))"
  by (simp add: join_with_Cons utf8_length_append_LF)

lemma prefix_bytes_mono:
  assumes "m \<le> n"
  shows "utf8_length (join_with [LF] (take m ls)) \<le> utf8_length (join_with [LF] (take n ls))"
proof -
  have step: "utf8_length (join_with [LF] (take k ls)) \<le> utf8_length (join_with [LF] (take (Suc k) ls))" for k
    using utf8_length_snoc_line [of "take k ls"] by (cases "k < length ls") (simp_all add: take_Suc_conv_app_nth)
  show ?thesis by (rule lift_Suc_mono_le [where f = "\<lambda>k. utf8_length (join_with [LF] (take k ls))", OF step assms])
qed

lemma suffix_bytes_mono:
  assumes "m \<le> n"
  shows "utf8_length (join_with [LF] (rev (take m ls))) \<le> utf8_length (join_with [LF] (rev (take n ls)))"
proof -
  have step: "utf8_length (join_with [LF] (rev (take k ls))) \<le> utf8_length (join_with [LF] (rev (take (Suc k) ls)))" for k
    using utf8_length_Cons_line [of _ "rev (take k ls)"]
    by (cases "k < length ls") (simp_all add: take_Suc_conv_app_nth)
  show ?thesis by (rule lift_Suc_mono_le [where f = "\<lambda>k. utf8_length (join_with [LF] (rev (take k ls)))", OF step assms])
qed

section \<open>What the loops keep\<close>

text \<open>The number of lines kept from a list, and that one more would break a limit.\<close>

definition kept_most :: "nat \<Rightarrow> nat \<Rightarrow> (nat \<Rightarrow> nat) \<Rightarrow> nat \<Rightarrow> nat \<Rightarrow> bool" where
  "kept_most maxLines maxBytes bytes available n \<longleftrightarrow>
     n \<le> available \<and> n \<le> maxLines \<and> bytes n \<le> maxBytes
     \<and> (\<forall>m\<le>available. m \<le> maxLines \<longrightarrow> n < m \<longrightarrow> maxBytes < bytes m)"

lemma kept_mostI:
  assumes "n \<le> available" and "n \<le> maxLines" and "bytes n \<le> maxBytes"
    and "n = available \<or> n = maxLines \<or> maxBytes < bytes (Suc n)"
    and "\<And>m n. m \<le> n \<Longrightarrow> bytes m \<le> bytes n"
  shows "kept_most maxLines maxBytes bytes available n"
  unfolding kept_most_def
proof (intro conjI allI impI)
  fix m assume m: "m \<le> available" "m \<le> maxLines" "n < m"
  with assms(4) have "maxBytes < bytes (Suc n)" by auto
  also have "bytes (Suc n) \<le> bytes m" using m(3) by (intro assms(5)) simp
  finally show "maxBytes < bytes m" .
qed (use assms in auto)

lemma head_loop_kept:
  assumes "head_loop utf8_length maxLines maxBytes (drop k ls) k (take k ls) (utf8_length (join_with [LF] (take k ls)))
    = (out, bytes, reason)"
    and "k \<le> length ls" and "k \<le> maxLines" and "utf8_length (join_with [LF] (take k ls)) \<le> maxBytes"
  shows "\<exists>n\<le>length ls. out = take n ls \<and> n \<le> maxLines \<and> bytes = utf8_length (join_with [LF] out) \<and> bytes \<le> maxBytes
    \<and> (reason = By_lines \<and> (n = length ls \<or> n = maxLines)
       \<or> reason = By_bytes \<and> n < length ls \<and> n < maxLines \<and> maxBytes < utf8_length (join_with [LF] (take (Suc n) ls)))"
  using assms
proof (induction "length ls - k" arbitrary: k)
  case 0
  then have "drop k ls = []" "k = length ls" by simp_all
  with 0 show ?case by auto
next
  case (Suc j)
  then have k: "k < length ls" by simp
  then have d: "drop k ls = ls ! k # drop (Suc k) ls" and t: "take (Suc k) ls = take k ls @ [ls ! k]"
    by (simp_all add: Cons_nth_drop_Suc take_Suc_conv_app_nth)
  have size: "utf8_length (join_with [LF] (take (Suc k) ls)) =
      utf8_length (join_with [LF] (take k ls)) + (utf8_length (ls ! k) + (if 0 < k then 1 else 0))"
    using utf8_length_snoc_line [of "take k ls" "ls ! k"] k by (simp add: t)
  consider (lines) "k = maxLines"
    | (bytes) "k < maxLines" "maxBytes < utf8_length (join_with [LF] (take (Suc k) ls))"
    | (more) "k < maxLines" "utf8_length (join_with [LF] (take (Suc k) ls)) \<le> maxBytes"
    using Suc.prems(3) by linarith
  then show ?case
  proof cases
    case lines
    with Suc.prems k d show ?thesis by (intro exI [of _ k]) auto
  next
    case bytes
    with Suc.prems k d size show ?thesis by (intro exI [of _ k]) auto
  next
    case more
    have "head_loop utf8_length maxLines maxBytes (drop (Suc k) ls) (Suc k) (take (Suc k) ls)
        (utf8_length (join_with [LF] (take (Suc k) ls))) = (out, bytes, reason)"
      using Suc.prems(1) more d size t by (simp add: Let_def)
    from Suc.hyps(1) [OF _ this] Suc.hyps(2) k more show ?thesis by simp
  qed
qed

lemma head_loop_start:
  obtains n reason where
    "head_loop utf8_length maxLines maxBytes ls 0 [] 0 = (take n ls, utf8_length (join_with [LF] (take n ls)), reason)"
    and "kept_most maxLines maxBytes (\<lambda>n. utf8_length (join_with [LF] (take n ls))) (length ls) n"
    and "reason = By_bytes \<longleftrightarrow> n < length ls \<and> n < maxLines"
proof -
  obtain out bytes reason where run: "head_loop utf8_length maxLines maxBytes ls 0 [] 0 = (out, bytes, reason)"
    by (metis prod_cases3)
  from head_loop_kept [of maxLines maxBytes 0 ls out bytes reason] this obtain n where n:
    "n \<le> length ls" "out = take n ls" "n \<le> maxLines" "bytes = utf8_length (join_with [LF] out)" "bytes \<le> maxBytes"
    "reason = By_lines \<and> (n = length ls \<or> n = maxLines)
       \<or> reason = By_bytes \<and> n < length ls \<and> n < maxLines \<and> maxBytes < utf8_length (join_with [LF] (take (Suc n) ls))"
    by auto
  have "kept_most maxLines maxBytes (\<lambda>n. utf8_length (join_with [LF] (take n ls))) (length ls) n"
    using n prefix_bytes_mono by (intro kept_mostI) auto
  with run n show thesis by (intro that [of n reason]) auto
qed

lemma tail_loop_kept:
  assumes "tail_loop utf8_length shorten maxLines maxBytes (drop k ls) (rev (take k ls))
      (utf8_length (join_with [LF] (rev (take k ls)))) = (out, bytes, reason, False)"
    and "k \<le> length ls" and "k \<le> maxLines" and "utf8_length (join_with [LF] (rev (take k ls))) \<le> maxBytes"
  shows "\<exists>n\<le>length ls. out = rev (take n ls) \<and> n \<le> maxLines \<and> bytes = utf8_length (join_with [LF] out) \<and> bytes \<le> maxBytes
    \<and> (reason = By_lines \<and> (n = length ls \<or> n = maxLines)
       \<or> reason = By_bytes \<and> n < length ls \<and> n < maxLines \<and> maxBytes < utf8_length (join_with [LF] (rev (take (Suc n) ls))))"
  using assms
proof (induction "length ls - k" arbitrary: k)
  case 0
  then have "drop k ls = []" "k = length ls" by simp_all
  with 0 show ?case by auto
next
  case (Suc j)
  then have k: "k < length ls" by simp
  then have d: "drop k ls = ls ! k # drop (Suc k) ls" and t: "rev (take (Suc k) ls) = ls ! k # rev (take k ls)"
    by (simp_all add: Cons_nth_drop_Suc take_Suc_conv_app_nth)
  have size: "utf8_length (join_with [LF] (rev (take (Suc k) ls))) =
      utf8_length (join_with [LF] (rev (take k ls))) + (utf8_length (ls ! k) + (if 0 < k then 1 else 0))"
    using utf8_length_Cons_line [of "ls ! k" "rev (take k ls)"] k by (simp add: t)
  consider (lines) "k = maxLines"
    | (bytes) "k < maxLines" "maxBytes < utf8_length (join_with [LF] (rev (take (Suc k) ls)))"
    | (more) "k < maxLines" "utf8_length (join_with [LF] (rev (take (Suc k) ls))) \<le> maxBytes"
    using Suc.prems(3) by linarith
  then show ?case
  proof cases
    case lines
    with Suc.prems k d show ?thesis by (intro exI [of _ k]) auto
  next
    case bytes
    with Suc.prems k d size show ?thesis by (intro exI [of _ k]) (auto simp: Let_def split: if_splits)
  next
    case more
    have "tail_loop utf8_length shorten maxLines maxBytes (drop (Suc k) ls) (rev (take (Suc k) ls))
        (utf8_length (join_with [LF] (rev (take (Suc k) ls)))) = (out, bytes, reason, False)"
      using Suc.prems(1) more d size t k by (simp add: Let_def)
    from Suc.hyps(1) [OF _ this] Suc.hyps(2) k more show ?thesis by simp
  qed
qed

lemma tail_loop_not_partial:
  "out \<noteq> [] \<Longrightarrow> \<exists>out' bytes' reason. tail_loop len shorten maxLines maxBytes ls out bytes = (out', bytes', reason, False)"
  by (induction len shorten maxLines maxBytes ls out bytes rule: tail_loop.induct) (auto simp: Let_def)

definition last_lines :: "nat \<Rightarrow> jstr list \<Rightarrow> jstr list" where
  "last_lines n ls = drop (length ls - n) ls"

lemma rev_take_rev: "rev (take n (rev ls)) = last_lines n ls"
  by (simp add: last_lines_def rev_take)

lemma tail_loop_start:
  assumes "ls \<noteq> []" and "\<not> (0 < maxLines \<and> maxBytes < utf8_length (last ls))"
  obtains n reason where
    "tail_loop utf8_length shorten maxLines maxBytes (rev ls) [] 0 =
      (last_lines n ls, utf8_length (join_with [LF] (last_lines n ls)), reason, False)"
    and "kept_most maxLines maxBytes (\<lambda>n. utf8_length (join_with [LF] (last_lines n ls))) (length ls) n"
    and "reason = By_bytes \<longleftrightarrow> n < length ls \<and> n < maxLines"
proof -
  obtain l rest where ls: "rev ls = l # rest" "l = last ls" using assms(1)
    by (metis append_butlast_last_id rev.simps(2) rev_append rev_rev_ident append_Cons append_Nil rev_singleton_conv)
  obtain out bytes reason where run: "tail_loop utf8_length shorten maxLines maxBytes (rev ls) [] 0 = (out, bytes, reason, False)"
  proof (cases "0 < maxLines")
    case True
    with assms(2) ls tail_loop_not_partial [of "[l]" utf8_length shorten maxLines maxBytes rest "utf8_length l"]
    obtain out' bytes' reason' where "tail_loop utf8_length shorten maxLines maxBytes rest [l] (utf8_length l) = (out', bytes', reason', False)"
      by blast
    then have "tail_loop utf8_length shorten maxLines maxBytes (rev ls) [] 0 = (out', bytes', reason', False)"
      unfolding ls(1) using True assms(2) ls(2) by (simp add: Let_def)
    then show thesis by (rule that)
  next
    case False
    then have "tail_loop utf8_length shorten maxLines maxBytes (rev ls) [] 0 = ([], 0, By_lines, False)"
      unfolding ls(1) by simp
    then show thesis by (rule that)
  qed
  from tail_loop_kept [of shorten maxLines maxBytes 0 "rev ls" out bytes reason] run obtain n where n:
    "n \<le> length ls" "out = last_lines n ls" "n \<le> maxLines" "bytes = utf8_length (join_with [LF] out)" "bytes \<le> maxBytes"
    "reason = By_lines \<and> (n = length ls \<or> n = maxLines)
       \<or> reason = By_bytes \<and> n < length ls \<and> n < maxLines \<and> maxBytes < utf8_length (join_with [LF] (last_lines (Suc n) ls))"
    by (auto simp: rev_take_rev)
  have "kept_most maxLines maxBytes (\<lambda>n. utf8_length (join_with [LF] (last_lines n ls))) (length ls) n"
    using n suffix_bytes_mono [of _ _ "rev ls"] by (intro kept_mostI) (auto simp: rev_take_rev)
  with run n show thesis by (intro that [of n reason]) auto
qed

lemma tail_loop_partial:
  assumes "ls \<noteq> []" and "0 < maxLines" and "maxBytes < len (last ls)"
  shows "tail_loop len shorten maxLines maxBytes (rev ls) [] 0 =
    ([shorten (last ls) maxBytes], len (shorten (last ls) maxBytes), By_bytes, True)"
proof -
  obtain l rest where "rev ls = l # rest" "l = last ls" using assms(1)
    by (metis append_butlast_last_id rev.simps(2) rev_append rev_rev_ident append_Cons append_Nil rev_singleton_conv)
  then have "rev ls = last ls # rest" by simp
  then show ?thesis by (simp only: tail_loop.simps) (simp add: assms Let_def)
qed

lemma utf8_length_Cons: "\<not> high_surrogate d \<Longrightarrow> utf8_length (d # t) = utf8_length [d] + utf8_length t"
  by (cases t) auto

lemma utf8_length_char_fix: "utf8_length (concat (map char_fix us)) \<le> char_total us" if "\<forall>u\<in>set us. is_char u"
  using that
proof (induction us)
  case (Cons u us)
  then have IH: "utf8_length (concat (map char_fix us)) \<le> char_total us" and "is_char u" by simp_all
  from \<open>is_char u\<close> show ?case
  proof (cases rule: is_char_cases)
    case (single c)
    have "\<not> high_surrogate replacement" by (simp add: replacement_def high_surrogate_def)
    then obtain d where d: "char_fix [c] = [d]" "\<not> high_surrogate d" "length (char_bytes [c]) = utf8_length [d]"
      using surrogate_large [of c] length_single [of c]
      by (cases "surrogate c") (auto simp: surrogate_def replacement_def simp del: char_bytes.simps)
    have "utf8_length (d # concat (map char_fix us)) = utf8_length [d] + utf8_length (concat (map char_fix us))"
      using d(2) by (rule utf8_length_Cons)
    with d(1,3) IH show ?thesis
      unfolding single by (simp del: char_fix.simps char_bytes.simps utf8_length.simps)
  next
    case (pair h l)
    with IH show ?thesis by (simp del: char_bytes.simps)
  qed
qed simp

section \<open>The properties\<close>

text \<open>
  C18: \<^verbatim>\<open>truncateHead\<close> returns the first lines of the content joined again, as many as
  fit both limits: not more lines than \<^verbatim>\<open>maxLines\<close>, not more bytes than \<^verbatim>\<open>maxBytes\<close>, and every longer
  prefix of lines breaks a limit. The result is marked truncated exactly when a line is missing, and the
  byte counts it reports are those of the content and of the output.\<close>

theorem truncateHead_longest_prefix:
  assumes "options = \<lparr>to_maxLines = maxLines, to_maxBytes = maxBytes\<rparr>"
  shows "let r = truncateHead content options; ls = split_on LF content; n = tn_outputLines r in
    tn_content r = join_with [LF] (take n ls)
    \<and> kept_most (nullish maxLines 2000) (nullish maxBytes 51200) (\<lambda>n. utf8_length (join_with [LF] (take n ls))) (length ls) n
    \<and> tn_outputBytes r = utf8_length (tn_content r) \<and> tn_totalBytes r = utf8_length content \<and> tn_totalLines r = length ls
    \<and> (tn_truncated r \<longleftrightarrow> n < length ls)
    \<and> (tn_firstLineExceedsLimit r \<longleftrightarrow> nullish maxBytes 51200 < utf8_length (hd ls))
    \<and> tn_truncatedBy r =
        (if \<not> tn_truncated r then None
         else if tn_firstLineExceedsLimit r \<or> n < nullish maxLines 2000 then Some By_bytes else Some By_lines)
    \<and> \<not> tn_lastLinePartial r"
proof -
  define M where "M = nullish maxLines DEFAULT_MAX_LINES"
  define B where "B = nullish maxBytes DEFAULT_MAX_BYTES"
  define ls where "ls = split_on LF content"
  have lims: "nullish maxLines 2000 = M" "nullish maxBytes 51200 = B"
    by (simp_all add: M_def B_def DEFAULT_MAX_LINES_def DEFAULT_MAX_BYTES_def)
  have ls: "ls \<noteq> []" "join_with [LF] ls = content" by (simp_all add: ls_def join_split_on)
  let ?bytes = "\<lambda>n. utf8_length (join_with [LF] (take n ls))"
  have one: "?bytes 1 = utf8_length (hd ls)" using ls(1) by (cases ls) simp_all
  have all: "?bytes (length ls) = utf8_length content" using ls(2) by simp
  have first: "utf8_length (hd ls) \<le> utf8_length content"
    using prefix_bytes_mono [of 1 "length ls" ls] ls(1) one all by (cases ls) simp_all
  note defs = truncateHead_def truncate_head_def Let_def assms M_def [symmetric] B_def [symmetric] ls_def [symmetric]
  consider (all) "length ls \<le> M" "utf8_length content \<le> B"
    | (first) "\<not> (length ls \<le> M \<and> utf8_length content \<le> B)" "B < utf8_length (hd ls)"
    | (some) "\<not> (length ls \<le> M \<and> utf8_length content \<le> B)" "\<not> B < utf8_length (hd ls)" by blast
  then show ?thesis
  proof cases
    case all
    with all first ls show ?thesis by (simp add: defs lims kept_most_def)
  next
    case first
    have "kept_most M B ?bytes (length ls) 0"
      using first(2) one prefix_bytes_mono by (intro kept_mostI) simp_all
    with first ls(1) show ?thesis by (simp add: defs lims)
  next
    case some
    obtain n reason where run: "head_loop utf8_length M B ls 0 [] 0 = (take n ls, ?bytes n, reason)"
      and kept: "kept_most M B ?bytes (length ls) n" and reason: "reason = By_bytes \<longleftrightarrow> n < length ls \<and> n < M"
      by (rule head_loop_start)
    have n: "n \<le> length ls" using kept by (simp add: kept_most_def)
    have "n \<noteq> length ls" using kept some(1) all by (auto simp: kept_most_def)
    with n have less: "n < length ls" by simp
    have by_lines: "reason = By_lines" if "M \<le> n" using that reason by (cases reason) auto
    have fits: "n \<le> M" "?bytes n \<le> B" using kept by (simp_all add: kept_most_def)
    from some(1) have no: "(length ls \<le> M \<and> utf8_length content \<le> B) = False" by simp
    have "truncateHead content options =
      \<lparr>tn_content = join_with [LF] (take n ls), tn_truncated = True,
       tn_truncatedBy = Some (if n < M then By_bytes else By_lines), tn_totalLines = length ls,
       tn_totalBytes = utf8_length content, tn_outputLines = n, tn_outputBytes = ?bytes n,
       tn_lastLinePartial = False, tn_firstLineExceedsLimit = False, tn_maxLines = M, tn_maxBytes = B\<rparr>"
      using some(2) run less fits reason by (simp add: defs no by_lines min_def)
    with less some(2) kept show ?thesis by (simp add: lims ls_def [symmetric])
  qed
qed

text \<open>
  C19: \<^verbatim>\<open>truncateTail\<close> returns the last lines of the content joined again, as many as fit both
  limits. Only when a line may be kept and the last one alone is longer than \<^verbatim>\<open>maxBytes\<close> is the output the
  end of that line instead, cut at a character and still within the limit.\<close>

theorem truncateTail_longest_suffix:
  assumes "options = \<lparr>to_maxLines = maxLines, to_maxBytes = maxBytes\<rparr>"
  shows "let r = truncateTail content options; ls = split_on LF content; n = tn_outputLines r;
        M = nullish maxLines 2000; B = nullish maxBytes 51200 in
    (tn_lastLinePartial r \<longleftrightarrow> 0 < M \<and> B < utf8_length (last ls))
    \<and> (if tn_lastLinePartial r
       then n = 1 \<and> tn_outputBytes r \<le> B \<and> tn_truncated r
         \<and> tn_content r = concat (map char_fix (fit_suffix B (chars (last ls))))
       else tn_content r = join_with [LF] (last_lines n ls)
         \<and> kept_most M B (\<lambda>n. utf8_length (join_with [LF] (last_lines n ls))) (length ls) n
         \<and> (tn_truncated r \<longleftrightarrow> n < length ls))
    \<and> tn_outputBytes r = utf8_length (tn_content r) \<and> tn_totalBytes r = utf8_length content \<and> tn_totalLines r = length ls
    \<and> \<not> tn_firstLineExceedsLimit r"
proof -
  define M where "M = nullish maxLines DEFAULT_MAX_LINES"
  define B where "B = nullish maxBytes DEFAULT_MAX_BYTES"
  define ls where "ls = split_on LF content"
  have lims: "nullish maxLines 2000 = M" "nullish maxBytes 51200 = B"
    by (simp_all add: M_def B_def DEFAULT_MAX_LINES_def DEFAULT_MAX_BYTES_def)
  have ls: "ls \<noteq> []" "join_with [LF] ls = content" by (simp_all add: ls_def join_split_on)
  let ?bytes = "\<lambda>n. utf8_length (join_with [LF] (last_lines n ls))"
  have all: "?bytes (length ls) = utf8_length content" "last_lines (length ls) ls = ls"
    using ls(2) by (simp_all add: last_lines_def)
  have "take 1 (rev ls) = [last ls]" using ls(1) by (cases ls rule: rev_cases) simp_all
  then have last: "utf8_length (last ls) \<le> utf8_length content"
    using suffix_bytes_mono [of 1 "length ls" "rev ls"] ls by (cases ls) simp_all
  note defs = truncateTail_def truncate_tail_def Let_def assms M_def [symmetric] B_def [symmetric] ls_def [symmetric]
  consider (all) "length ls \<le> M" "utf8_length content \<le> B"
    | (partial) "\<not> (length ls \<le> M \<and> utf8_length content \<le> B)" "0 < M \<and> B < utf8_length (last ls)"
    | (some) "\<not> (length ls \<le> M \<and> utf8_length content \<le> B)" "\<not> (0 < M \<and> B < utf8_length (last ls))" by blast
  then show ?thesis
  proof cases
    case all
    with \<open>?bytes (length ls) = utf8_length content\<close> \<open>last_lines (length ls) ls = ls\<close> last ls show ?thesis
      by (simp add: defs lims kept_most_def)
  next
    case partial
    let ?fit = "fit_suffix B (chars (last ls))"
    from partial(2) have cut: "truncateStringToBytesFromEnd (last ls) B = concat (map char_fix ?fit)"
      by (intro cut_buffer) simp
    obtain vs where "chars (last ls) = vs @ ?fit" using fit_suffix_suffix by blast
    then have "\<forall>u\<in>set ?fit. is_char u"
      using chars_ok_is_char [OF chars_ok_chars [of "last ls"]] by (metis Un_iff set_append)
    then have "utf8_length (concat (map char_fix ?fit)) \<le> B"
      using utf8_length_char_fix fit_suffix_bound order_trans by blast
    moreover from partial(1) have no: "(length ls \<le> M \<and> utf8_length content \<le> B) = False" by simp
    ultimately show ?thesis
      using partial(2) ls(1) tail_loop_partial [of ls M B utf8_length truncateStringToBytesFromEnd]
      by (simp add: defs lims no cut)
  next
    case some
    obtain n reason where run: "tail_loop utf8_length truncateStringToBytesFromEnd M B (rev ls) [] 0 =
        (last_lines n ls, ?bytes n, reason, False)"
      and kept: "kept_most M B ?bytes (length ls) n"
      using tail_loop_start [OF ls(1) some(2)] by metis
    have n: "n \<le> length ls" using kept by (simp add: kept_most_def)
    have "n \<noteq> length ls" using kept some(1) all by (auto simp: kept_most_def)
    with n have less: "n < length ls" by simp
    then have len: "length (last_lines n ls) = n" by (simp add: last_lines_def)
    from some(1) have no: "(length ls \<le> M \<and> utf8_length content \<le> B) = False" by simp
    from some(2) less kept show ?thesis by (simp add: defs lims no run len)
  qed
qed

section \<open>The two files agree\<close>

text \<open>The end of a line is only cut when the line does not fit.\<close>

lemma tail_loop_cong:
  assumes "\<And>line. maxBytes < len line \<Longrightarrow> shorten line maxBytes = shorten' line maxBytes"
    and "out = [] \<Longrightarrow> bytes = 0"
  shows "tail_loop len shorten maxLines maxBytes ls out bytes = tail_loop len shorten' maxLines maxBytes ls out bytes"
  using assms(2)
proof (induction ls arbitrary: out bytes)
  case (Cons line ls)
  then show ?case using assms(1) [of line] by (auto simp: Let_def)
qed simp

text \<open>
  C20: the environment-independent \<^verbatim>\<open>truncateHead\<close> and \<^verbatim>\<open>truncateTail\<close> of the harness
  package, which count UTF-8 bytes and cut surrogate pairs by hand where there is no \<^verbatim>\<open>Buffer\<close>, return what
  the coding agent's, which go through \<^verbatim>\<open>Buffer\<close>, return: on every string, lone surrogates included, for
  every limits and with or without a \<^verbatim>\<open>Buffer\<close> at hand.\<close>

theorem harness_truncation_agrees:
  "harness_truncateHead has_buffer content options = truncateHead content options
   \<and> harness_truncateTail has_buffer content options = truncateTail content options"
proof -
  have len: "utf8ByteLength has_buffer = utf8_length" by (rule ext) (rule utf8ByteLength_buffer)
  have "tail_loop utf8_length harness_truncateStringToBytesFromEnd M B ls [] 0 =
      tail_loop utf8_length truncateStringToBytesFromEnd M B ls [] 0" for M B ls
    by (rule tail_loop_cong) (simp_all add: cuts_agree)
  then show ?thesis
    by (simp add: harness_truncateHead_def harness_truncateTail_def truncateHead_def truncateTail_def len
      truncate_tail_def Let_def)
qed

section \<open>Witnesses\<close>

lemma split_example: "split_on LF [0x61, 0x0A, 0x62, 0x0A, 0x63] = [[0x61], [0x62], [0x63]]"
  by (simp add: LF_def)

lemma utf8_example:
  "utf8_length [0x61, 0x0A, 0x62, 0x0A, 0x63] = 5" "utf8_length [0x61] = 1" "utf8_length [0x62] = 1" "utf8_length [0x63] = 1"
  "utf8_length [0x61, 0x0A, 0x62] = 3" "utf8_length [0xD83D, 0xDE00, 0x7A] = 5"
  by (simp_all add: high_surrogate_def low_surrogate_def)

lemma truncateHead_longest_prefix_witness:
  "let r = truncateHead [0x61, 0x0A, 0x62, 0x0A, 0x63] \<lparr>to_maxLines = Some 2, to_maxBytes = None\<rparr> in
   tn_content r = [0x61, 0x0A, 0x62] \<and> tn_outputBytes r = 3 \<and> tn_truncated r"
proof -
  let ?r = "truncateHead [0x61, 0x0A, 0x62, 0x0A, 0x63] \<lparr>to_maxLines = Some 2, to_maxBytes = None\<rparr>"
  have "tn_outputLines ?r = 2"
    by (simp add: truncateHead_def truncate_head_def Let_def split_example utf8_example DEFAULT_MAX_BYTES_def
        del: utf8_length.simps split_on.simps)
  moreover have "join_with [LF] (take 2 [[0x61], [0x62], [0x63]]) = [0x61, 0x0A, 0x62]" by (simp add: LF_def)
  ultimately show ?thesis
    using truncateHead_longest_prefix [OF refl, of "[0x61, 0x0A, 0x62, 0x0A, 0x63]" "Some 2" None]
    by (simp add: Let_def split_example utf8_example
        del: utf8_length.simps split_on.simps join_with.simps take_Suc_Cons take_Cons_numeral)
qed

lemma truncateTail_longest_suffix_witness:
  "let r = truncateTail [0x61, 0x0A, 0xD83D, 0xDE00, 0x7A] \<lparr>to_maxLines = None, to_maxBytes = Some 3\<rparr> in
   tn_content r = [0x7A] \<and> tn_lastLinePartial r"
proof -
  have "last (split_on LF [0x61, 0x0A, 0xD83D, 0xDE00, 0x7A]) = [0xD83D, 0xDE00, 0x7A]" by (simp add: LF_def)
  moreover have "chars [0xD83D, 0xDE00, 0x7A] = [[0xD83D, 0xDE00], [0x7A]]"
    by (simp add: high_surrogate_def low_surrogate_def)
  moreover have "concat (map char_fix (fit_suffix 3 [[0xD83D, 0xDE00], [0x7A]])) = [0x7A]"
    by (simp add: surrogate_def high_surrogate_def low_surrogate_def)
  ultimately show ?thesis
    using truncateTail_longest_suffix [OF refl, of "[0x61, 0x0A, 0xD83D, 0xDE00, 0x7A]" None "Some 3"]
    by (simp add: Let_def utf8_example del: utf8_length.simps split_on.simps chars.simps fit_suffix.simps)
qed

end
