(* ===== verification/Output_Accumulator.thy ===== *)
theory Output_Accumulator
  imports Truncate
begin

text \<open>
  The accumulator of a command's output: \<^verbatim>\<open>packages/coding-agent/src/core/tools/output-accumulator.ts\<close>. It decodes
  chunks as they come, keeps only the end of the text, and writes everything to a temporary file once it is too much to show.

  The streaming decoder (\<^verbatim>\<open>TextDecoder\<close>) is a parameter with a state \<open>'d\<close>; what is asked of it is that it puts out whole
  characters, without lone surrogates. The name of the temporary file, which is random, is a parameter as well. The
  stream to the file is the list of the bytes written to it.
\<close>

section \<open>State\<close>

record 'd text_decoder =
  td_new :: 'd
  td_decode :: "'d \<Rightarrow> nat list \<Rightarrow> jstr \<times> 'd"
  td_flush :: "'d \<Rightarrow> jstr"

record accumulator_options =
  ao_maxLines :: "nat option"
  ao_maxBytes :: "nat option"
  ao_tempFilePrefix :: "jstr option"

record output_snapshot =
  os_content :: jstr
  os_truncation :: truncation_result
  os_fullOutputPath :: "jstr option"

record 'd accumulator =
  oa_maxLines :: nat
  oa_maxBytes :: nat
  oa_maxRollingBytes :: nat
  oa_tempFilePrefix :: jstr
  oa_decoder :: 'd
  oa_rawChunks :: "nat list list"
  oa_tailText :: jstr
  oa_tailBytes :: nat
  oa_tailStartsAtLineBoundary :: bool
  oa_totalRawBytes :: nat
  oa_totalDecodedBytes :: nat
  oa_totalLines :: nat
  oa_currentLineBytes :: nat
  oa_finished :: bool
  oa_tempFilePath :: "jstr option"
  oa_streamOpen :: bool
  oa_written :: "nat list"

definition new_accumulator :: "'d text_decoder \<Rightarrow> accumulator_options \<Rightarrow> 'd accumulator" where
  "new_accumulator dec opts =
     (let maxBytes = nullish (ao_maxBytes opts) DEFAULT_MAX_BYTES in
      \<lparr>oa_maxLines = nullish (ao_maxLines opts) DEFAULT_MAX_LINES, oa_maxBytes = maxBytes,
       oa_maxRollingBytes = max (maxBytes * 2) 1,
       oa_tempFilePrefix = nullish (ao_tempFilePrefix opts) (js ''pi-output''), oa_decoder = td_new dec,
       oa_rawChunks = [], oa_tailText = [], oa_tailBytes = 0, oa_tailStartsAtLineBoundary = True,
       oa_totalRawBytes = 0, oa_totalDecodedBytes = 0, oa_totalLines = 1, oa_currentLineBytes = 0,
       oa_finished = False, oa_tempFilePath = None, oa_streamOpen = False, oa_written = []\<rparr>)"

section \<open>Operations\<close>

definition trimTail :: "'d accumulator \<Rightarrow> 'd accumulator" where
  "trimTail s =
     (let buffer = utf8_encode (oa_tailText s) in
      if length buffer \<le> oa_maxRollingBytes s then s\<lparr>oa_tailBytes := length buffer\<rparr>
      else
        (let start = next_boundary buffer (length buffer - oa_maxRollingBytes s);
             text = utf8_decode (drop start buffer)
         in s\<lparr>oa_tailStartsAtLineBoundary :=
                (if start = 0 then oa_tailStartsAtLineBoundary s else buffer ! (start - 1) = 0x0A),
              oa_tailText := text, oa_tailBytes := utf8_length text\<rparr>))"

text \<open>The indices that the loop over \<^verbatim>\<open>text.indexOf("\n", i + 1)\<close> visits.\<close>

definition newline_positions :: "jstr \<Rightarrow> nat list" where
  "newline_positions text = filter (\<lambda>i. text ! i = LF) [0..<length text]"

definition appendDecodedText :: "jstr \<Rightarrow> 'd accumulator \<Rightarrow> 'd accumulator" where
  "appendDecodedText text s =
     (if text = [] then s
      else
        (let bytes = utf8_length text;
             s1 = s\<lparr>oa_totalDecodedBytes := oa_totalDecodedBytes s + bytes, oa_tailText := oa_tailText s @ text,
               oa_tailBytes := oa_tailBytes s + bytes\<rparr>;
             s2 = (if oa_tailBytes s1 > oa_maxRollingBytes s1 * 2 then trimTail s1 else s1);
             newlines = newline_positions text
         in if newlines = [] then s2\<lparr>oa_currentLineBytes := oa_currentLineBytes s2 + bytes\<rparr>
            else s2\<lparr>oa_totalLines := oa_totalLines s2 + length newlines,
                    oa_currentLineBytes := utf8_length (drop (Suc (last newlines)) text)\<rparr>))"

definition shouldUseTempFile :: "'d accumulator \<Rightarrow> bool" where
  "shouldUseTempFile s \<longleftrightarrow>
     oa_totalRawBytes s > oa_maxBytes s \<or> oa_totalDecodedBytes s > oa_maxBytes s \<or> oa_totalLines s > oa_maxLines s"

definition ensureTempFile :: "(jstr \<Rightarrow> jstr) \<Rightarrow> 'd accumulator \<Rightarrow> 'd accumulator" where
  "ensureTempFile temp_path s =
     (if truthy_str (oa_tempFilePath s) then s
      else s\<lparr>oa_tempFilePath := Some (temp_path (oa_tempFilePrefix s)), oa_streamOpen := True,
             oa_written := concat (oa_rawChunks s), oa_rawChunks := []\<rparr>)"

definition append_output ::
  "'d text_decoder \<Rightarrow> (jstr \<Rightarrow> jstr) \<Rightarrow> nat list \<Rightarrow> 'd accumulator \<Rightarrow> jerror + 'd accumulator" where
  "append_output dec temp_path data s =
     (if oa_finished s then Inl (js ''Cannot append to a finished output accumulator'')
      else
        (let (text, d) = td_decode dec (oa_decoder s) data;
             s1 = appendDecodedText text (s\<lparr>oa_totalRawBytes := oa_totalRawBytes s + length data, oa_decoder := d\<rparr>)
         in Inr (if oa_streamOpen s1 \<or> shouldUseTempFile s1
                 then (let s2 = ensureTempFile temp_path s1 in
                       if oa_streamOpen s2 then s2\<lparr>oa_written := oa_written s2 @ data\<rparr> else s2)
                 else if length data > 0 then s1\<lparr>oa_rawChunks := oa_rawChunks s1 @ [data]\<rparr>
                 else s1)))"

definition finish_output :: "'d text_decoder \<Rightarrow> (jstr \<Rightarrow> jstr) \<Rightarrow> 'd accumulator \<Rightarrow> 'd accumulator" where
  "finish_output dec temp_path s =
     (if oa_finished s then s
      else
        (let s1 = appendDecodedText (td_flush dec (oa_decoder s)) (s\<lparr>oa_finished := True\<rparr>) in
         if shouldUseTempFile s1 then ensureTempFile temp_path s1 else s1))"

definition getSnapshotText :: "'d accumulator \<Rightarrow> jstr" where
  "getSnapshotText s =
     (if oa_tailStartsAtLineBoundary s then oa_tailText s
      else
        (case find_index (\<lambda>c. c = LF) (oa_tailText s) of
           None \<Rightarrow> oa_tailText s
         | Some firstNewline \<Rightarrow> drop (Suc firstNewline) (oa_tailText s)))"

definition snapshot :: "(jstr \<Rightarrow> jstr) \<Rightarrow> bool \<Rightarrow> 'd accumulator \<Rightarrow> 'd accumulator \<times> output_snapshot" where
  "snapshot temp_path persistIfTruncated s =
     (let tailTruncation =
            truncateTail (getSnapshotText s) \<lparr>to_maxLines = Some (oa_maxLines s), to_maxBytes = Some (oa_maxBytes s)\<rparr>;
          truncated = (oa_totalLines s > oa_maxLines s \<or> oa_totalDecodedBytes s > oa_maxBytes s);
          truncatedBy =
            (if truncated
             then (case tn_truncatedBy tailTruncation of
                     Some b \<Rightarrow> Some b
                   | None \<Rightarrow> Some (if oa_totalDecodedBytes s > oa_maxBytes s then By_bytes else By_lines))
             else None);
          truncation = tailTruncation\<lparr>tn_truncated := truncated, tn_truncatedBy := truncatedBy,
            tn_totalLines := oa_totalLines s, tn_totalBytes := oa_totalDecodedBytes s,
            tn_maxLines := oa_maxLines s, tn_maxBytes := oa_maxBytes s\<rparr>;
          s1 = (if persistIfTruncated \<and> truncated then ensureTempFile temp_path s else s)
      in (s1, \<lparr>os_content = tn_content truncation, os_truncation = truncation, os_fullOutputPath = oa_tempFilePath s1\<rparr>))"

definition getLastLineBytes :: "'d accumulator \<Rightarrow> nat" where
  "getLastLineBytes s = oa_currentLineBytes s"

definition closeTempFile :: "'d accumulator \<Rightarrow> 'd accumulator" where
  "closeTempFile s = s\<lparr>oa_streamOpen := False\<rparr>"

section \<open>Texts without lone surrogates\<close>

definition whole_chars :: "jstr \<Rightarrow> bool" where
  "whole_chars s \<longleftrightarrow> (\<forall>u\<in>set (chars s). char_fix u = u)"

lemma chars_append: "whole_chars a \<Longrightarrow> chars (a @ b) = chars a @ chars b"
proof (induction a rule: chars.induct)
  case (2 c)
  then have "\<not> high_surrogate c" by (auto simp: whole_chars_def surrogate_def replacement_def surrogate_nat split: if_splits)
  then show ?case by (cases b) simp_all
next
  case (3 c d s)
  show ?case
  proof (cases "high_surrogate c \<and> low_surrogate d")
    case True
    with 3(1,3) show ?thesis by (simp add: whole_chars_def)
  next
    case False
    with 3(2,3) show ?thesis by (auto simp: whole_chars_def)
  qed
qed simp

lemma whole_chars_append: "whole_chars a \<Longrightarrow> whole_chars (a @ b) \<longleftrightarrow> whole_chars b"
  by (auto simp: chars_append whole_chars_def)

lemma whole_chars_Nil [simp]: "whole_chars []"
  by (simp add: whole_chars_def)

lemma utf8_length_append: "whole_chars a \<Longrightarrow> utf8_length (a @ b) = utf8_length a + utf8_length b"
  by (simp only: total_chars [symmetric] chars_append char_total_append)

text \<open>The end that fits does not depend on what came before it.\<close>

lemma fit_suffix_fit: "k \<le> r \<Longrightarrow> fit_suffix k (fit_suffix r us) = fit_suffix k us"
  by (induction us) (auto simp: fit_suffix_whole)

lemma fit_suffix_append: "fit_suffix r (us @ vs) = fit_suffix r (fit_suffix r us @ vs)"
proof (induction us)
  case (Cons u us)
  then show ?case by auto
qed simp

lemma fit_suffix_large:
  assumes "k < char_total us" and "\<forall>u\<in>set us. length (char_bytes u) \<le> 4"
  shows "k \<le> char_total (fit_suffix k us) + 3"
  using assms
proof (induction us)
  case (Cons u us)
  show ?case
  proof (cases "k < char_total us")
    case False
    with Cons.prems show ?thesis by (simp add: fit_suffix_whole)
  qed (use Cons in auto)
qed simp

section \<open>The tail of a text truncates like the text\<close>

lemma tail_loop_append:
  "tail_loop len shorten M B (xs @ ys) out bytes =
     (case tail_loop len shorten M B xs out bytes of
        (out', bytes', reason, partial) \<Rightarrow>
          if length out' = length out + length xs \<and> \<not> partial then tail_loop len shorten M B ys out' bytes'
          else (out', bytes', reason, partial))"
proof (induction xs arbitrary: out bytes)
  case (Cons x xs)
  show ?case using Cons.IH by (auto simp: Let_def split: prod.splits if_splits)
qed simp

definition same_output :: "truncation_result \<Rightarrow> truncation_result \<Rightarrow> bool" where
  "same_output r r' \<longleftrightarrow>
     tn_content r = tn_content r' \<and> tn_outputLines r = tn_outputLines r' \<and> tn_outputBytes r = tn_outputBytes r'
     \<and> tn_lastLinePartial r = tn_lastLinePartial r' \<and> tn_firstLineExceedsLimit r = tn_firstLineExceedsLimit r'"

abbreviation limits_of :: "nat \<Rightarrow> nat \<Rightarrow> truncation_options" where
  "limits_of M B \<equiv> \<lparr>to_maxLines = Some M, to_maxBytes = Some B\<rparr>"

lemma truncateTail_long:
  assumes "\<not> (length (split_on LF t) \<le> M \<and> utf8_length t \<le> B)"
    and "tail_loop utf8_length truncateStringToBytesFromEnd M B (rev (split_on LF t)) [] 0 = (out, bytes, reason, partial)"
  shows "truncateTail t (limits_of M B) =
    \<lparr>tn_content = join_with [LF] out, tn_truncated = True,
     tn_truncatedBy = Some (if length out \<ge> M \<and> bytes \<le> B then By_lines else reason),
     tn_totalLines = length (split_on LF t), tn_totalBytes = utf8_length t, tn_outputLines = length out,
     tn_outputBytes = utf8_length (join_with [LF] out), tn_lastLinePartial = partial, tn_firstLineExceedsLimit = False,
     tn_maxLines = M, tn_maxBytes = B\<rparr>"
proof -
  from assms(1) have no: "(length (split_on LF t) \<le> M \<and> utf8_length t \<le> B) = False" by simp
  show ?thesis by (simp add: truncateTail_def truncate_tail_def Let_def no assms(2))
qed

lemma truncateTail_short:
  assumes "length (split_on LF t) \<le> M" and "utf8_length t \<le> B"
  shows "truncateTail t (limits_of M B) =
    \<lparr>tn_content = t, tn_truncated = False, tn_truncatedBy = None, tn_totalLines = length (split_on LF t),
     tn_totalBytes = utf8_length t, tn_outputLines = length (split_on LF t), tn_outputBytes = utf8_length t,
     tn_lastLinePartial = False, tn_firstLineExceedsLimit = False, tn_maxLines = M, tn_maxBytes = B\<rparr>"
  using assms by (simp add: truncateTail_def truncate_tail_def Let_def)

lemma last_line_bytes: "utf8_length (last (split_on LF t)) \<le> utf8_length t"
proof -
  have "take 1 (rev (split_on LF t)) = [last (split_on LF t)]"
    by (cases "split_on LF t" rule: rev_cases) simp_all
  then show ?thesis
    using suffix_bytes_mono [of 1 "length (split_on LF t)" "rev (split_on LF t)"] join_split_on [of LF t]
    by (cases "split_on LF t") simp_all
qed

text \<open>Lines before the tail make no difference when the nearest of them does not fit with it.\<close>

lemma truncateTail_drop_lines:
  assumes lines: "split_on LF t = A @ split_on LF x" and "A \<noteq> []"
    and large: "B < utf8_length (last A) + 1 + utf8_length x"
  shows "same_output (truncateTail x (limits_of M B)) (truncateTail t (limits_of M B))
    \<and> tn_truncated (truncateTail t (limits_of M B))"
proof -
  let ?ls = "split_on LF x"
  let ?loop = "tail_loop utf8_length truncateStringToBytesFromEnd M B"
  obtain A' a where A: "A = A' @ [a]" using assms(2) by (metis rev_exhaust)
  have "rev (take (Suc (length ?ls)) (rev (A @ ?ls))) = a # ?ls" by (simp add: A)
  then have "utf8_length (join_with [LF] (a # ?ls)) \<le> utf8_length t"
    using suffix_bytes_mono [of "Suc (length ?ls)" "length (A @ ?ls)" "rev (A @ ?ls)"] join_split_on [of LF t]
    by (simp add: lines A)
  moreover have bytes: "utf8_length (join_with [LF] (a # ?ls)) = utf8_length x + utf8_length a + 1"
    using join_split_on [of LF x] by (simp add: utf8_length_Cons_line)
  ultimately have long: "\<not> (length (split_on LF t) \<le> M \<and> utf8_length t \<le> B)" using large A by simp
  have loop: "?loop (rev (split_on LF t)) [] 0 =
      (case ?loop (rev ?ls) [] 0 of
         (out, bytes, reason, partial) \<Rightarrow>
           if length out = length ?ls \<and> \<not> partial then ?loop (a # rev A') out bytes else (out, bytes, reason, partial))"
    by (simp add: lines A tail_loop_append)
  show ?thesis
  proof (cases "0 < M \<and> B < utf8_length (last ?ls)")
    case True
    then have "\<not> (length ?ls \<le> M \<and> utf8_length x \<le> B)" using last_line_bytes [of x] by simp
    with True long loop show ?thesis
      by (simp add: truncateTail_long tail_loop_partial same_output_def)
  next
    case False
    obtain n reason where run: "?loop (rev ?ls) [] 0 = (last_lines n ?ls, utf8_length (join_with [LF] (last_lines n ?ls)), reason, False)"
      and kept: "kept_most M B (\<lambda>n. utf8_length (join_with [LF] (last_lines n ?ls))) (length ?ls) n"
      using tail_loop_start [OF split_on_not_Nil False] by metis
    have n: "n \<le> length ?ls" using kept by (simp add: kept_most_def)
    have all: "last_lines (length ?ls) ?ls = ?ls" "join_with [LF] ?ls = x" by (simp_all add: last_lines_def join_split_on)
    show ?thesis
    proof (cases "length ?ls \<le> M \<and> utf8_length x \<le> B")
      case True
      then have "n = length ?ls" using kept n all by (auto simp: kept_most_def)
      then have "?loop (rev ?ls) [] 0 = (?ls, utf8_length x, reason, False)" using run all by simp
      moreover have "\<exists>reason. ?loop (a # rev A') ?ls (utf8_length x) = (?ls, utf8_length x, reason, False)"
        using large A by (auto simp: Let_def)
      ultimately obtain reason' where "?loop (rev (split_on LF t)) [] 0 = (?ls, utf8_length x, reason', False)"
        using loop by auto
      from truncateTail_long [OF long this] True all(2) show ?thesis by (simp add: truncateTail_short same_output_def)
    next
      case no: False
      then have "n \<noteq> length ?ls" using kept all by (auto simp: kept_most_def)
      then have "length (last_lines n ?ls) \<noteq> length ?ls" using n by (simp add: last_lines_def)
      with run loop have "?loop (rev (split_on LF t)) [] 0 =
          (last_lines n ?ls, utf8_length (join_with [LF] (last_lines n ?ls)), reason, False)" by simp
      from truncateTail_long [OF long this] truncateTail_long [OF no run] show ?thesis by (simp add: same_output_def)
    qed
  qed
qed

text \<open>The end of a last line that does not fit is the end of any of its ends that do not.\<close>

lemma fit_suffix_end: "k < char_total vs \<Longrightarrow> fit_suffix k (us @ vs) = fit_suffix k vs"
  by (induction us) auto

lemma truncateTail_end_of_line:
  assumes lines: "split_on LF t = A @ [q @ x]" and "whole_chars q" and "LF \<notin> set x" and large: "B < utf8_length x"
  shows "same_output (truncateTail x (limits_of M B)) (truncateTail t (limits_of M B))
    \<and> tn_truncated (truncateTail t (limits_of M B))"
proof -
  have x: "split_on LF x = [x]" using assms(3) by (rule split_on_free)
  have line: "B < utf8_length (q @ x)" using large assms(2) by (simp add: utf8_length_append)
  then have long: "\<not> (length (split_on LF t) \<le> M \<and> utf8_length t \<le> B)"
    using last_line_bytes [of t] by (simp add: lines)
  have cut: "truncateStringToBytesFromEnd (q @ x) B = truncateStringToBytesFromEnd x B"
    using large line assms(2)
    by (simp add: cut_buffer chars_append fit_suffix_end total_chars)
  show ?thesis
  proof (cases "0 < M")
    case True
    with long line large cut x show ?thesis
      using tail_loop_partial [of "split_on LF t" M B utf8_length truncateStringToBytesFromEnd]
        tail_loop_partial [of "[x]" M B utf8_length truncateStringToBytesFromEnd]
      by (simp add: truncateTail_long same_output_def lines)
  next
    case False
    then have none: "tail_loop utf8_length truncateStringToBytesFromEnd M B ls [] 0 = ([], 0, By_lines, False)" for ls
      by (cases ls) simp_all
    have "\<not> (length (split_on LF x) \<le> M \<and> utf8_length x \<le> B)" using large by simp
    from truncateTail_long [OF this none] truncateTail_long [OF long none] show ?thesis by (simp add: same_output_def)
  qed
qed

section \<open>What the accumulator knows of the text so far\<close>

text \<open>The text lost from the front of the tail, whether the tail starts a line, and that enough of it is left.\<close>

definition keeps_tail :: "jstr \<Rightarrow> 'd accumulator \<Rightarrow> bool" where
  "keeps_tail t s \<longleftrightarrow>
     (\<exists>p. t = p @ oa_tailText s \<and> whole_chars p \<and> (oa_tailStartsAtLineBoundary s \<longleftrightarrow> p = [] \<or> last p = LF)
       \<and> (p \<noteq> [] \<longrightarrow> oa_maxRollingBytes s \<le> utf8_length (oa_tailText s) + 3))"

lemma char_bytes_last:
  assumes "is_char u"
  shows "char_bytes u \<noteq> []" and "length (char_bytes u) \<le> 4" and "last (char_bytes u) = 10 \<longleftrightarrow> last u = LF"
proof -
  have LF: "c = LF \<longleftrightarrow> unat c = 10" for c
  proof
    assume "unat c = 10"
    then have "c = of_nat 10" using of_nat_unat [of c] by simp
    then show "c = LF" by (simp add: LF_def)
  qed (simp add: LF_def)
  have goals: "char_bytes u \<noteq> [] \<and> length (char_bytes u) \<le> 4 \<and> (last (char_bytes u) = 10 \<longleftrightarrow> last u = LF)"
    using assms
  proof (cases rule: is_char_cases)
    case (single c)
    then show ?thesis by (simp add: Let_def LF)
  next
    case (pair h l)
    then have "l \<noteq> LF" by (auto simp: LF_def low_surrogate_def)
    with pair show ?thesis by (simp add: Let_def)
  qed
  then show "char_bytes u \<noteq> []" "length (char_bytes u) \<le> 4" "last (char_bytes u) = 10 \<longleftrightarrow> last u = LF" by simp_all
qed

lemma next_boundary_le: "n \<le> length buf \<Longrightarrow> n \<le> next_boundary buf n \<and> next_boundary buf n \<le> length buf"
proof (induction buf n rule: next_boundary.induct)
  case (1 buf start)
  then show ?case by (subst (1 2) next_boundary.simps) (auto simp: less_eq_Suc_le)
qed

lemma last_concat: "us \<noteq> [] \<Longrightarrow> last us \<noteq> [] \<Longrightarrow> last (concat us) = last (last us)"
  by (cases us rule: rev_cases) simp_all

lemma last_byte:
  assumes "chars_ok us" and "us \<noteq> []"
  shows "concat us \<noteq> []" and "last (concat (map char_bytes us)) = 10 \<longleftrightarrow> last (concat us) = LF"
proof -
  have u: "is_char (last us)" using chars_ok_is_char [OF assms(1)] assms(2) by simp
  then have ne: "last us \<noteq> []" by (cases rule: is_char_cases) simp_all
  then show "concat us \<noteq> []" using assms(2) by (metis concat_eq_Nil_conv last_in_set)
  have "last (concat (map char_bytes us)) = last (char_bytes (last us))"
    using assms(2) char_bytes_last(1) [OF u] by (subst last_concat) (simp_all add: last_map)
  then show "last (concat (map char_bytes us)) = 10 \<longleftrightarrow> last (concat us) = LF"
    using char_bytes_last(3) [OF u] last_concat [OF assms(2) ne] by simp
qed

text \<open>The cut of the buffer is a cut of the text, and the byte before it tells a line start.\<close>

lemma cut_point:
  fixes x R
  defines "start \<equiv> next_boundary (utf8_encode x) (utf8_length x - R)"
  assumes x: "whole_chars x" and large: "R < utf8_length x"
  obtains q r where "x = q @ r" and "whole_chars q" and "q \<noteq> []" and "utf8_decode (drop start (utf8_encode x)) = r"
    and "0 < start" and "utf8_encode x ! (start - 1) = 10 \<longleftrightarrow> last q = LF"
    and "utf8_length r \<le> R" and "R \<le> utf8_length r + 3"
proof -
  define r where "r = fit_suffix R (chars x)"
  obtain q where q: "chars x = q @ r" using fit_suffix_suffix unfolding r_def by blast
  have ok: "chars_ok q" "chars_ok r" using chars_ok_append [of q r] chars_ok_chars [of x] q by auto
  have fixed: "\<forall>u\<in>set q. char_fix u = u" "\<forall>u\<in>set r. char_fix u = u" using x by (auto simp: whole_chars_def q)
  have bytes: "utf8_length (concat r) = char_total r" using chars_concat [OF ok(2)] total_chars [of "concat r"] by simp
  have dropped: "drop start (utf8_encode x) = concat (map char_bytes r)"
    using cut_bytes [OF chars_ok_chars, of x R] by (simp add: start_def next_boundary_drop utf8_encode_def r_def total_chars)
  have le: "utf8_length x - R \<le> start" "start \<le> utf8_length x"
    using next_boundary_le [of "utf8_length x - R" "utf8_encode x"] by (simp_all add: start_def length_utf8_encode)
  have "utf8_length x - start = char_total r"
    using arg_cong [OF dropped, of length] by (simp add: length_utf8_encode char_total_length)
  then have start: "start = char_total q" using le(2) total_chars [of x] by (simp add: q)
  moreover have pos: "0 < start" using le(1) large by simp
  ultimately have ne: "q \<noteq> []" by auto
  have "utf8_encode x = concat (map char_bytes q) @ concat (map char_bytes r)" by (simp add: utf8_encode_def q)
  then have "utf8_encode x ! (start - 1) = last (concat (map char_bytes q))"
    using pos start by (simp add: nth_append last_conv_nth flip: char_total_length)
  then have "utf8_encode x ! (start - 1) = 10 \<longleftrightarrow> last (concat q) = LF" using last_byte(2) [OF ok(1) ne] by simp
  moreover have "\<forall>u\<in>set (chars x). length (char_bytes u) \<le> 4"
    using char_bytes_last(2) chars_ok_is_char [OF chars_ok_chars] by blast
  then have "R \<le> char_total r + 3"
    unfolding r_def using large by (intro fit_suffix_large) (simp_all add: total_chars)
  moreover have "char_total r \<le> R" unfolding r_def by (rule fit_suffix_bound)
  moreover have "utf8_decode (drop start (utf8_encode x)) = concat r"
    using fixed(2) by (simp add: dropped decode_chars [OF ok(2)] char_fix_id)
  moreover have "x = concat q @ concat r" using q by (metis concat_append concat_chars)
  ultimately show thesis
    using last_byte(1) [OF ok(1) ne] pos fixed(1) chars_concat [OF ok(1)]
    by (intro that [of "concat q" "concat r"]) (simp_all add: whole_chars_def bytes)
qed

lemma trimTail_keeps:
  assumes "keeps_tail t s" and "whole_chars t" and "oa_tailBytes s = utf8_length (oa_tailText s)"
  shows "keeps_tail t (trimTail s) \<and> oa_tailBytes (trimTail s) = utf8_length (oa_tailText (trimTail s))
    \<and> oa_tailBytes (trimTail s) \<le> oa_maxRollingBytes s"
proof (cases "utf8_length (oa_tailText s) \<le> oa_maxRollingBytes s")
  case True
  with assms show ?thesis by (simp add: trimTail_def keeps_tail_def length_utf8_encode)
next
  case False
  define start where "start = next_boundary (utf8_encode (oa_tailText s)) (utf8_length (oa_tailText s) - oa_maxRollingBytes s)"
  obtain p where p: "t = p @ oa_tailText s" "whole_chars p" using assms(1) by (auto simp: keeps_tail_def)
  with assms(2) False obtain q r where qr: "oa_tailText s = q @ r" "whole_chars q" "q \<noteq> []"
    "utf8_decode (drop start (utf8_encode (oa_tailText s))) = r" "0 < start"
    "utf8_encode (oa_tailText s) ! (start - 1) = 10 \<longleftrightarrow> last q = LF"
    "utf8_length r \<le> oa_maxRollingBytes s" "oa_maxRollingBytes s \<le> utf8_length r + 3"
    using cut_point [of "oa_tailText s" "oa_maxRollingBytes s"] by (auto simp: whole_chars_append start_def not_le)
  have trimmed: "trimTail s = s\<lparr>oa_tailStartsAtLineBoundary := (last q = LF), oa_tailText := r, oa_tailBytes := utf8_length r\<rparr>"
    using False qr(4-6) by (simp add: trimTail_def Let_def length_utf8_encode start_def [symmetric])
  have "keeps_tail t (trimTail s)"
    unfolding keeps_tail_def using p qr(1-3,8)
    by (intro exI [of _ "p @ q"]) (simp add: trimmed whole_chars_append)
  with qr(7) show ?thesis by (simp add: trimmed)
qed

section \<open>Lines of a text that grows\<close>

lemma chars_LF: "chars (a @ LF # b) = chars a @ [LF] # chars b"
proof -
  have LF: "\<not> high_surrogate LF" "\<not> low_surrogate LF" by (simp_all add: LF_def high_surrogate_def low_surrogate_def)
  then have "chars (LF # b) = [LF] # chars b" by (cases b) simp_all
  with LF show ?thesis by (induction a rule: chars.induct) simp_all
qed

lemma whole_chars_LF: "whole_chars (a @ LF # b) \<longleftrightarrow> whole_chars a \<and> whole_chars b"
proof -
  have "char_fix [LF] = [LF]" by (simp add: LF_def surrogate_def high_surrogate_def low_surrogate_def)
  then show ?thesis by (auto simp: chars_LF whole_chars_def)
qed

lemma length_split_on: "length (split_on c s) = Suc (length (filter (\<lambda>x. x = c) s))"
  by (induction s) (auto split: list.split)

lemma length_newline_positions: "length (newline_positions s) = length (filter (\<lambda>x. x = LF) s)"
proof -
  have "filter (\<lambda>x. x = LF) (map ((!) s) [0..<length s]) = map ((!) s) (newline_positions s)"
    by (simp add: newline_positions_def filter_map comp_def)
  then show ?thesis by (metis length_map map_nth)
qed

lemma newline_positions_last: "LF \<notin> set b \<Longrightarrow> newline_positions (a @ LF # b) = newline_positions a @ [length a]"
proof -
  assume b: "LF \<notin> set b"
  have "[0..<length (a @ LF # b)] = [0..<length a] @ length a # [Suc (length a)..<Suc (length a + length b)]"
    using upt_add_eq_append [of 0 "length a" "Suc (length b)"] by (simp add: upt_conv_Cons del: upt_Suc)
  moreover have "filter (\<lambda>i. (a @ LF # b) ! i = LF) [Suc (length a)..<Suc (length a + length b)] = []"
  proof -
    have "(a @ LF # b) ! i \<noteq> LF" if "i \<in> set [Suc (length a)..<Suc (length a + length b)]" for i
    proof -
      from that have "(a @ LF # b) ! i = b ! (i - Suc (length a))" "i - Suc (length a) < length b"
        by (auto simp: nth_append nth_Cons')
      with b nth_mem show ?thesis by metis
    qed
    then show ?thesis by (simp add: filter_empty_conv)
  qed
  moreover have "filter (\<lambda>i. (a @ LF # b) ! i = LF) [0..<length a] = newline_positions a"
    unfolding newline_positions_def by (rule filter_cong) (simp_all add: nth_append)
  ultimately show ?thesis by (simp add: newline_positions_def)
qed

lemma newline_positions_Nil: "newline_positions s = [] \<longleftrightarrow> LF \<notin> set s"
proof -
  have "newline_positions s = [] \<longleftrightarrow> filter (\<lambda>x. x = LF) s = []"
    using length_newline_positions [of s] by (metis length_0_conv)
  then show ?thesis by (auto simp: filter_empty_conv)
qed

lemma split_on_append_free:
  "LF \<notin> set b \<Longrightarrow> split_on LF (a @ b) = butlast (split_on LF a) @ [last (split_on LF a) @ b]"
proof (induction a)
  case (Cons c a)
  then show ?case by (cases "split_on LF a") auto
qed (simp add: split_on_free)

lemma last_line_whole: "whole_chars t \<Longrightarrow> whole_chars (last (split_on LF t))"
proof (cases "LF \<in> set t")
  case True
  then obtain a b where t: "t = a @ LF # b" "LF \<notin> set b" by (meson split_list_last)
  moreover assume "whole_chars t"
  ultimately show ?thesis by (simp add: whole_chars_LF split_on_append_sep split_on_free)
qed (simp add: split_on_free)

text \<open>The size of the last line, as the code counts it.\<close>

lemma last_line_after:
  assumes "whole_chars t"
  shows "utf8_length (last (split_on LF (t @ b))) =
    (if newline_positions b = [] then utf8_length (last (split_on LF t)) + utf8_length b
     else utf8_length (drop (Suc (last (newline_positions b))) b))"
proof (cases "LF \<in> set b")
  case True
  then obtain c d where b: "b = c @ LF # d" "LF \<notin> set d" by (meson split_list_last)
  then have "split_on LF (t @ b) = split_on LF (t @ c) @ [d]"
    using split_on_append_sep [of LF "t @ c" d] by (simp add: split_on_free)
  with b show ?thesis by (simp add: newline_positions_last)
next
  case False
  with last_line_whole [OF assms] show ?thesis by (simp add: newline_positions_Nil split_on_append_free utf8_length_append)
qed

section \<open>The invariant\<close>

definition holds_text :: "jstr \<Rightarrow> 'd accumulator \<Rightarrow> bool" where
  "holds_text t s \<longleftrightarrow>
     whole_chars t \<and> keeps_tail t s
     \<and> oa_maxRollingBytes s = max (oa_maxBytes s * 2) 1
     \<and> oa_tailBytes s = utf8_length (oa_tailText s) \<and> oa_tailBytes s \<le> oa_maxRollingBytes s * 2
     \<and> oa_totalDecodedBytes s = utf8_length t \<and> oa_totalLines s = length (split_on LF t)
     \<and> oa_currentLineBytes s = utf8_length (last (split_on LF t))"

lemma trimTail_fields:
  "oa_maxLines (trimTail s) = oa_maxLines s" "oa_maxBytes (trimTail s) = oa_maxBytes s"
  "oa_maxRollingBytes (trimTail s) = oa_maxRollingBytes s" "oa_decoder (trimTail s) = oa_decoder s"
  "oa_rawChunks (trimTail s) = oa_rawChunks s" "oa_totalRawBytes (trimTail s) = oa_totalRawBytes s"
  "oa_totalDecodedBytes (trimTail s) = oa_totalDecodedBytes s" "oa_totalLines (trimTail s) = oa_totalLines s"
  "oa_currentLineBytes (trimTail s) = oa_currentLineBytes s" "oa_finished (trimTail s) = oa_finished s"
  "oa_tempFilePath (trimTail s) = oa_tempFilePath s" "oa_streamOpen (trimTail s) = oa_streamOpen s"
  "oa_written (trimTail s) = oa_written s"
  by (simp_all add: trimTail_def Let_def)

lemma keeps_tail_append:
  assumes "keeps_tail t s" and "whole_chars b"
    and "s' = s\<lparr>oa_totalDecodedBytes := n, oa_tailText := oa_tailText s @ b, oa_tailBytes := m\<rparr>"
    and "whole_chars t"
  shows "keeps_tail (t @ b) s'"
proof -
  obtain p where p: "t = p @ oa_tailText s" "whole_chars p" "oa_tailStartsAtLineBoundary s \<longleftrightarrow> p = [] \<or> last p = LF"
    "p \<noteq> [] \<longrightarrow> oa_maxRollingBytes s \<le> utf8_length (oa_tailText s) + 3"
    using assms(1) by (auto simp: keeps_tail_def)
  moreover from p(1,2) assms(4) have "whole_chars (oa_tailText s)" by (simp add: whole_chars_append)
  ultimately show ?thesis
    unfolding keeps_tail_def by (intro exI [of _ p]) (auto simp: assms(3) utf8_length_append)
qed

lemma appendDecodedText_holds:
  assumes s: "holds_text t s" and b: "whole_chars b"
  shows "holds_text (t @ b) (appendDecodedText b s)"
proof (cases "b = []")
  case False
  define s1 where "s1 = s\<lparr>oa_totalDecodedBytes := oa_totalDecodedBytes s + utf8_length b, oa_tailText := oa_tailText s @ b,
    oa_tailBytes := oa_tailBytes s + utf8_length b\<rparr>"
  define s2 where "s2 = (if oa_tailBytes s1 > oa_maxRollingBytes s1 * 2 then trimTail s1 else s1)"
  have t: "whole_chars t" "whole_chars (t @ b)" using s b by (simp_all add: holds_text_def whole_chars_append)
  then have "whole_chars (oa_tailText s)" using s by (auto simp: holds_text_def keeps_tail_def whole_chars_append)
  then have bytes: "oa_tailBytes s1 = utf8_length (oa_tailText s1)" using s by (simp add: s1_def holds_text_def utf8_length_append)
  have "keeps_tail (t @ b) s1" using s b t(1) by (intro keeps_tail_append [of t s b]) (simp_all add: holds_text_def s1_def)
  then have s2: "keeps_tail (t @ b) s2" "oa_tailBytes s2 = utf8_length (oa_tailText s2)" "oa_tailBytes s2 \<le> oa_maxRollingBytes s2 * 2"
    using trimTail_keeps [OF _ t(2) bytes] bytes by (auto simp: s2_def trimTail_fields)
  have fields: "oa_maxRollingBytes s2 = oa_maxRollingBytes s" "oa_maxBytes s2 = oa_maxBytes s"
    "oa_totalDecodedBytes s2 = oa_totalDecodedBytes s + utf8_length b" "oa_totalLines s2 = oa_totalLines s"
    "oa_currentLineBytes s2 = oa_currentLineBytes s"
    by (simp_all add: s2_def trimTail_fields s1_def)
  have run: "appendDecodedText b s =
      (if newline_positions b = [] then s2\<lparr>oa_currentLineBytes := oa_currentLineBytes s2 + utf8_length b\<rparr>
       else s2\<lparr>oa_totalLines := oa_totalLines s2 + length (newline_positions b),
               oa_currentLineBytes := utf8_length (drop (Suc (last (newline_positions b))) b)\<rparr>)"
    unfolding appendDecodedText_def Let_def s1_def [symmetric] s2_def [symmetric] using False by (simp only: if_False)
  have "length (split_on LF (t @ b)) = length (split_on LF t) + length (newline_positions b)"
    by (simp add: length_split_on length_newline_positions)
  then show ?thesis
    using s s2 t(2) fields last_line_after [OF t(1), of b] utf8_length_append [OF t(1), of b]
    by (simp add: run holds_text_def keeps_tail_def)
qed (use s in \<open>simp add: appendDecodedText_def\<close>)

section \<open>Snapshots\<close>

text \<open>The text shown is the whole text, its end after a line break, or an end of its last line.\<close>

lemma snapshot_text_cases:
  assumes "keeps_tail t s" and "whole_chars t"
  obtains (all) "getSnapshotText s = t"
    | (lines) a where "a \<noteq> []" and "split_on LF t = a @ split_on LF (getSnapshotText s)"
        and "oa_maxRollingBytes s \<le> utf8_length (last a) + 1 + utf8_length (getSnapshotText s) + 3"
    | (line) a q where "split_on LF t = a @ [q @ getSnapshotText s]" and "whole_chars q" and "LF \<notin> set (getSnapshotText s)"
        and "oa_maxRollingBytes s \<le> utf8_length (getSnapshotText s) + 3"
proof -
  let ?tail = "oa_tailText s"
  obtain p where p: "t = p @ ?tail" "whole_chars p" "oa_tailStartsAtLineBoundary s \<longleftrightarrow> p = [] \<or> last p = LF"
    "p \<noteq> [] \<longrightarrow> oa_maxRollingBytes s \<le> utf8_length ?tail + 3"
    using assms(1) by (auto simp: keeps_tail_def)
  show thesis
  proof (cases "p = []")
    case True
    with p show ?thesis by (intro all) (simp add: getSnapshotText_def)
  next
    case ne: False
    show ?thesis
    proof (cases "last p = LF")
      case True
      then have "p = butlast p @ [LF]" using ne by (metis append_butlast_last_id)
      then have "split_on LF t = split_on LF (butlast p) @ split_on LF ?tail"
        using p(1) split_on_append_sep [of LF "butlast p" ?tail] by (metis append_Cons append_Nil append_assoc)
      with p True ne show ?thesis by (intro lines [of "split_on LF (butlast p)"]) (simp_all add: getSnapshotText_def)
    next
      case no: False
      show ?thesis
      proof (cases "find_index (\<lambda>c. c = LF) ?tail")
        case None
        then have "LF \<notin> set ?tail" by (auto simp: find_index_None_iff)
        with None p no ne last_line_whole [OF p(2)] show ?thesis
          by (intro line [of "butlast (split_on LF p)" "last (split_on LF p)"])
            (simp_all add: getSnapshotText_def split_on_append_free)
      next
        case (Some k)
        define l where "l = take k ?tail"
        define x where "x = drop (Suc k) ?tail"
        from find_index_SomeD [OF Some] have k: "k < length ?tail" "?tail ! k = LF" "\<forall>j<k. ?tail ! j \<noteq> LF" by auto
        then have tail: "?tail = l @ LF # x" using id_take_nth_drop [OF k(1)] by (simp add: l_def x_def)
        have free: "LF \<notin> set l" using k by (auto simp: l_def in_set_conv_nth)
        have shown: "getSnapshotText s = x" using Some no ne p(3) by (simp add: getSnapshotText_def x_def)
        have "split_on LF t = split_on LF (p @ l) @ split_on LF x"
          using split_on_append_sep [of LF "p @ l" x] by (simp add: p(1) tail)
        moreover have "utf8_length l \<le> utf8_length (last (split_on LF (p @ l)))"
          using last_line_whole [OF p(2)] by (simp add: split_on_append_free [OF free] utf8_length_append)
        moreover have "utf8_length ?tail = utf8_length l + 1 + utf8_length x" by (simp add: tail utf8_length_append_LF)
        ultimately show ?thesis using p(4) ne shown by (intro lines [of "split_on LF (p @ l)"]) simp_all
      qed
    qed
  qed
qed

lemma snapshot_same_output:
  assumes s: "holds_text t s" and "4 \<le> oa_maxBytes s"
  defines "limits \<equiv> limits_of (oa_maxLines s) (oa_maxBytes s)"
  shows "same_output (truncateTail (getSnapshotText s) limits) (truncateTail t limits)
    \<and> (getSnapshotText s = t \<or> tn_truncated (truncateTail t limits))"
proof -
  from s have "keeps_tail t s" "whole_chars t" "oa_maxRollingBytes s = oa_maxBytes s * 2"
    using assms(2) by (simp_all add: holds_text_def)
  from this(1,2) show ?thesis
  proof (cases rule: snapshot_text_cases)
    case all
    then show ?thesis by (simp add: same_output_def)
  next
    case (lines a)
    then have "oa_maxBytes s < utf8_length (last a) + 1 + utf8_length (getSnapshotText s)"
      using \<open>oa_maxRollingBytes s = oa_maxBytes s * 2\<close> assms(2) by simp
    from truncateTail_drop_lines [OF lines(2,1) this] show ?thesis by (simp add: limits_def)
  next
    case (line a q)
    then have "oa_maxBytes s < utf8_length (getSnapshotText s)"
      using \<open>oa_maxRollingBytes s = oa_maxBytes s * 2\<close> assms(2) by simp
    from truncateTail_end_of_line [OF line(1-3) this] show ?thesis by (simp add: limits_def)
  qed
qed

lemma truncateTail_fields:
  "tn_truncated (truncateTail t (limits_of M B)) \<longleftrightarrow> M < length (split_on LF t) \<or> B < utf8_length t"
  "tn_truncatedBy (truncateTail t (limits_of M B)) = None \<longleftrightarrow> \<not> tn_truncated (truncateTail t (limits_of M B))"
  "tn_totalLines (truncateTail t (limits_of M B)) = length (split_on LF t)"
  "tn_totalBytes (truncateTail t (limits_of M B)) = utf8_length t"
  "tn_maxLines (truncateTail t (limits_of M B)) = M" "tn_maxBytes (truncateTail t (limits_of M B)) = B"
  by (auto simp: truncateTail_def truncate_tail_def Let_def split: prod.splits)

lemma snapshot_is_truncateTail:
  fixes s :: "'d accumulator" and temp_path :: "jstr \<Rightarrow> jstr" and persist :: bool
  assumes s: "holds_text t s" and large: "4 \<le> oa_maxBytes s"
  defines "r \<equiv> os_truncation (snd (snapshot temp_path persist s))"
    and "full \<equiv> truncateTail t (limits_of (oa_maxLines s) (oa_maxBytes s))"
  shows "r = full\<lparr>tn_truncatedBy := tn_truncatedBy r\<rparr>" and "tn_truncatedBy r = None \<longleftrightarrow> \<not> tn_truncated full"
    and "os_content (snd (snapshot temp_path persist s)) = tn_content full"
proof -
  have same: "same_output (truncateTail (getSnapshotText s) (limits_of (oa_maxLines s) (oa_maxBytes s))) full"
    using snapshot_same_output [OF s large] by (simp add: full_def)
  have totals: "oa_totalLines s = length (split_on LF t)" "oa_totalDecodedBytes s = utf8_length t"
    using s by (simp_all add: holds_text_def)
  show "os_content (snd (snapshot temp_path persist s)) = tn_content full"
    using same by (simp add: snapshot_def Let_def same_output_def)
  show "r = full\<lparr>tn_truncatedBy := tn_truncatedBy r\<rparr>"
    using same
    by (intro truncation_result.equality)
      (simp_all add: r_def snapshot_def Let_def same_output_def full_def truncateTail_fields totals)
  show "tn_truncatedBy r = None \<longleftrightarrow> \<not> tn_truncated full"
    by (simp add: r_def snapshot_def Let_def full_def truncateTail_fields totals split: option.splits)
qed

section \<open>Runs\<close>

text \<open>What a client does with the accumulator until it closes the file, and the text and bytes it has given it.\<close>

datatype output_op = Append_output "nat list" | Take_snapshot bool | Finish_output

fun run_op :: "'d text_decoder \<Rightarrow> (jstr \<Rightarrow> jstr) \<Rightarrow> output_op \<Rightarrow> 'd accumulator \<Rightarrow> 'd accumulator" where
  "run_op dec temp_path (Append_output data) s =
     (case append_output dec temp_path data s of Inl _ \<Rightarrow> s | Inr s' \<Rightarrow> s')"
| "run_op dec temp_path (Take_snapshot persist) s = fst (snapshot temp_path persist s)"
| "run_op dec temp_path Finish_output s = finish_output dec temp_path s"

definition run_ops :: "'d text_decoder \<Rightarrow> (jstr \<Rightarrow> jstr) \<Rightarrow> output_op list \<Rightarrow> 'd accumulator \<Rightarrow> 'd accumulator" where
  "run_ops dec temp_path ops s = foldl (\<lambda>s op. run_op dec temp_path op s) s ops"

fun output_text :: "'d text_decoder \<Rightarrow> 'd \<Rightarrow> bool \<Rightarrow> output_op list \<Rightarrow> jstr" where
  "output_text dec d finished [] = []"
| "output_text dec d finished (Append_output data # ops) =
     (if finished then output_text dec d finished ops
      else fst (td_decode dec d data) @ output_text dec (snd (td_decode dec d data)) finished ops)"
| "output_text dec d finished (Take_snapshot persist # ops) = output_text dec d finished ops"
| "output_text dec d finished (Finish_output # ops) =
     (if finished then output_text dec d finished ops else td_flush dec d @ output_text dec d True ops)"

fun output_bytes :: "bool \<Rightarrow> output_op list \<Rightarrow> nat list" where
  "output_bytes finished [] = []"
| "output_bytes finished (Append_output data # ops) = (if finished then [] else data) @ output_bytes finished ops"
| "output_bytes finished (Take_snapshot persist # ops) = output_bytes finished ops"
| "output_bytes finished (Finish_output # ops) = output_bytes True ops"

definition whole_decoder :: "'d text_decoder \<Rightarrow> bool" where
  "whole_decoder dec \<longleftrightarrow> (\<forall>d data. whole_chars (fst (td_decode dec d data)) \<and> whole_chars (td_flush dec d))"

text \<open>Either everything is still in memory and little enough, or everything has been written.\<close>

definition holds_bytes :: "nat list \<Rightarrow> 'd accumulator \<Rightarrow> bool" where
  "holds_bytes data s \<longleftrightarrow>
     oa_totalRawBytes s = length data
     \<and> (if oa_tempFilePath s = None
        then \<not> oa_streamOpen s \<and> concat (oa_rawChunks s) = data \<and> \<not> shouldUseTempFile s
        else truthy_str (oa_tempFilePath s) \<and> oa_streamOpen s \<and> oa_written s = data \<and> oa_rawChunks s = [])"

lemma appendDecodedText_fields:
  "oa_maxLines (appendDecodedText b s) = oa_maxLines s" "oa_maxBytes (appendDecodedText b s) = oa_maxBytes s"
  "oa_decoder (appendDecodedText b s) = oa_decoder s" "oa_rawChunks (appendDecodedText b s) = oa_rawChunks s"
  "oa_totalRawBytes (appendDecodedText b s) = oa_totalRawBytes s" "oa_finished (appendDecodedText b s) = oa_finished s"
  "oa_tempFilePath (appendDecodedText b s) = oa_tempFilePath s" "oa_streamOpen (appendDecodedText b s) = oa_streamOpen s"
  "oa_written (appendDecodedText b s) = oa_written s"
  by (simp_all add: appendDecodedText_def Let_def trimTail_fields)

lemma ensureTempFile_fields:
  "oa_maxLines (ensureTempFile tp s) = oa_maxLines s" "oa_maxBytes (ensureTempFile tp s) = oa_maxBytes s"
  "oa_decoder (ensureTempFile tp s) = oa_decoder s" "oa_finished (ensureTempFile tp s) = oa_finished s"
  "oa_totalRawBytes (ensureTempFile tp s) = oa_totalRawBytes s"
  "holds_text t (ensureTempFile tp s) = holds_text t s" "shouldUseTempFile (ensureTempFile tp s) = shouldUseTempFile s"
  by (simp_all add: ensureTempFile_def holds_text_def keeps_tail_def shouldUseTempFile_def)

text \<open>The file is opened with what is in memory, once.\<close>

lemma ensureTempFile_open:
  assumes "\<forall>p. tp p \<noteq> []"
    and "if oa_tempFilePath s = None then \<not> oa_streamOpen s \<and> concat (oa_rawChunks s) = data
       else truthy_str (oa_tempFilePath s) \<and> oa_streamOpen s \<and> oa_written s = data \<and> oa_rawChunks s = []"
  shows "truthy_str (oa_tempFilePath (ensureTempFile tp s)) \<and> oa_streamOpen (ensureTempFile tp s)
    \<and> oa_written (ensureTempFile tp s) = data \<and> oa_rawChunks (ensureTempFile tp s) = []"
  using assms by (auto simp: ensureTempFile_def split: if_splits)

text \<open>What holds of the bytes once the file is opened if it has to be.\<close>

lemma holds_bytes_append:
  assumes paths: "\<forall>p. tp p \<noteq> []" and s: "holds_bytes bs s"
    and s1: "oa_totalRawBytes s1 = oa_totalRawBytes s + length data" "oa_tempFilePath s1 = oa_tempFilePath s"
      "oa_streamOpen s1 = oa_streamOpen s" "oa_written s1 = oa_written s" "oa_rawChunks s1 = oa_rawChunks s"
  shows "holds_bytes (bs @ data)
    (if oa_streamOpen s1 \<or> shouldUseTempFile s1
     then (let s2 = ensureTempFile tp s1 in if oa_streamOpen s2 then s2\<lparr>oa_written := oa_written s2 @ data\<rparr> else s2)
     else if length data > 0 then s1\<lparr>oa_rawChunks := oa_rawChunks s1 @ [data]\<rparr>
     else s1)"
proof (cases "oa_streamOpen s1 \<or> shouldUseTempFile s1")
  case True
  have "if oa_tempFilePath s1 = None then \<not> oa_streamOpen s1 \<and> concat (oa_rawChunks s1) = bs
      else truthy_str (oa_tempFilePath s1) \<and> oa_streamOpen s1 \<and> oa_written s1 = bs \<and> oa_rawChunks s1 = []"
    using s by (auto simp: s1 holds_bytes_def split: if_splits)
  from ensureTempFile_open [OF paths this] True s show ?thesis
    by (auto simp: Let_def holds_bytes_def ensureTempFile_fields s1 elim: truthy_strE)
next
  case False
  with s show ?thesis by (auto simp: holds_bytes_def s1 shouldUseTempFile_def split: if_splits)
qed

lemma holds_text_other:
  "holds_text t (s\<lparr>oa_totalRawBytes := n, oa_decoder := d\<rparr>) = holds_text t s"
  "holds_text t (s\<lparr>oa_finished := b\<rparr>) = holds_text t s"
  "holds_text t (s\<lparr>oa_written := w\<rparr>) = holds_text t s"
  "holds_text t (s\<lparr>oa_rawChunks := c\<rparr>) = holds_text t s"
  by (simp_all add: holds_text_def keeps_tail_def)

lemma append_holds:
  assumes dec: "whole_decoder dec" and paths: "\<forall>p. tp p \<noteq> []" and s: "holds_text t s" "holds_bytes bs s"
    and run: "append_output dec tp data s = Inr s'"
  shows "holds_text (t @ fst (td_decode dec (oa_decoder s) data)) s' \<and> holds_bytes (bs @ data) s'"
proof -
  obtain b d where b: "td_decode dec (oa_decoder s) data = (b, d)" by (cases "td_decode dec (oa_decoder s) data")
  then have "whole_chars b" using dec by (metis fst_conv whole_decoder_def)
  define s1 where "s1 = appendDecodedText b (s\<lparr>oa_totalRawBytes := oa_totalRawBytes s + length data, oa_decoder := d\<rparr>)"
  have s1: "holds_text (t @ b) s1"
    unfolding s1_def using s(1) \<open>whole_chars b\<close> by (intro appendDecodedText_holds) (simp_all add: holds_text_other)
  have s': "s' = (if oa_streamOpen s1 \<or> shouldUseTempFile s1
     then (let s2 = ensureTempFile tp s1 in if oa_streamOpen s2 then s2\<lparr>oa_written := oa_written s2 @ data\<rparr> else s2)
     else if length data > 0 then s1\<lparr>oa_rawChunks := oa_rawChunks s1 @ [data]\<rparr>
     else s1)"
  proof (cases "oa_finished s")
    case False
    then have "append_output dec tp data s = Inr (if oa_streamOpen s1 \<or> shouldUseTempFile s1
       then (let s2 = ensureTempFile tp s1 in if oa_streamOpen s2 then s2\<lparr>oa_written := oa_written s2 @ data\<rparr> else s2)
       else if length data > 0 then s1\<lparr>oa_rawChunks := oa_rawChunks s1 @ [data]\<rparr>
       else s1)"
      by (simp only: append_output_def b Let_def prod.case s1_def if_False)
    with run show ?thesis by simp
  qed (use run in \<open>simp add: append_output_def\<close>)
  have "holds_bytes (bs @ data) s'"
    unfolding s' by (rule holds_bytes_append [OF paths s(2)]) (simp_all add: s1_def appendDecodedText_fields)
  moreover have "holds_text (t @ b) s'"
    unfolding s' using s1 by (simp add: Let_def holds_text_other ensureTempFile_fields)
  ultimately show ?thesis by (simp add: b)
qed

lemma finish_holds:
  assumes dec: "whole_decoder dec" and paths: "\<forall>p. tp p \<noteq> []" and s: "holds_text t s" "holds_bytes bs s"
    and "\<not> oa_finished s"
  shows "holds_text (t @ td_flush dec (oa_decoder s)) (finish_output dec tp s) \<and> holds_bytes bs (finish_output dec tp s)"
proof -
  define s1 where "s1 = appendDecodedText (td_flush dec (oa_decoder s)) (s\<lparr>oa_finished := True\<rparr>)"
  have "holds_text (t @ td_flush dec (oa_decoder s)) s1"
    unfolding s1_def using s(1) dec by (intro appendDecodedText_holds) (simp_all add: holds_text_other whole_decoder_def)
  moreover have run: "finish_output dec tp s = (if shouldUseTempFile s1 then ensureTempFile tp s1 else s1)"
    using assms(5) by (simp add: finish_output_def s1_def)
  moreover have "holds_bytes bs (finish_output dec tp s)"
  proof (cases "shouldUseTempFile s1")
    case True
    have "if oa_tempFilePath s1 = None then \<not> oa_streamOpen s1 \<and> concat (oa_rawChunks s1) = bs
        else truthy_str (oa_tempFilePath s1) \<and> oa_streamOpen s1 \<and> oa_written s1 = bs \<and> oa_rawChunks s1 = []"
      using s(2) by (auto simp: s1_def appendDecodedText_fields holds_bytes_def split: if_splits)
    from ensureTempFile_open [OF paths this] True s(2) show ?thesis
      by (auto simp: run holds_bytes_def ensureTempFile_fields s1_def appendDecodedText_fields elim: truthy_strE)
  next
    case False
    with s(2) show ?thesis by (auto simp: run holds_bytes_def s1_def appendDecodedText_fields split: if_splits)
  qed
  ultimately show ?thesis by (simp add: ensureTempFile_fields)
qed

lemma ensureTempFile_same: "truthy_str (oa_tempFilePath s) \<Longrightarrow> ensureTempFile tp s = s"
  by (simp add: ensureTempFile_def)

text \<open>By the time a snapshot is truncated the file is open.\<close>

lemma snapshot_state: "holds_bytes bs s \<Longrightarrow> fst (snapshot tp persist s) = s"
proof -
  assume s: "holds_bytes bs s"
  have "truthy_str (oa_tempFilePath s)" if "oa_totalLines s > oa_maxLines s \<or> oa_totalDecodedBytes s > oa_maxBytes s"
    using s that by (auto simp: holds_bytes_def shouldUseTempFile_def split: if_splits)
  then show ?thesis by (auto simp: snapshot_def Let_def ensureTempFile_same)
qed

lemma output_limits:
  "oa_maxLines (run_op dec tp op s) = oa_maxLines s" "oa_maxBytes (run_op dec tp op s) = oa_maxBytes s"
  by (cases op; simp add: append_output_def finish_output_def snapshot_def Let_def ensureTempFile_fields
      appendDecodedText_fields split: prod.splits sum.splits)+

lemma run_op_ghost:
  assumes "holds_bytes bs s"
  shows "output_text dec (oa_decoder s) (oa_finished s) (op # ops) =
      output_text dec (oa_decoder s) (oa_finished s) [op]
      @ output_text dec (oa_decoder (run_op dec tp op s)) (oa_finished (run_op dec tp op s)) ops"
    and "output_bytes (oa_finished s) (op # ops) =
      output_bytes (oa_finished s) [op] @ output_bytes (oa_finished (run_op dec tp op s)) ops"
  by (cases op; simp add: append_output_def finish_output_def snapshot_state [OF assms] Let_def ensureTempFile_fields
      appendDecodedText_fields split_beta)+

lemma run_op_holds:
  assumes "whole_decoder dec" and "\<forall>p. tp p \<noteq> []" and "holds_text t s" "holds_bytes bs s"
  shows "holds_text (t @ output_text dec (oa_decoder s) (oa_finished s) [op]) (run_op dec tp op s)
    \<and> holds_bytes (bs @ output_bytes (oa_finished s) [op]) (run_op dec tp op s)"
proof (cases op)
  case (Append_output data)
  show ?thesis
  proof (cases "append_output dec tp data s")
    case (Inl e)
    then have "oa_finished s" by (auto simp: append_output_def Let_def split: if_splits prod.splits)
    with Inl assms(3,4) Append_output show ?thesis by simp
  next
    case (Inr s')
    then have "\<not> oa_finished s" by (auto simp: append_output_def)
    with append_holds [OF assms Inr] Inr Append_output show ?thesis by simp
  qed
next
  case (Take_snapshot persist)
  with assms(3,4) show ?thesis by (simp add: snapshot_state)
next
  case Finish_output
  with assms(3,4) finish_holds [OF assms] show ?thesis by (cases "oa_finished s") (simp_all add: finish_output_def)
qed

lemma run_ops_holds:
  assumes "whole_decoder dec" and "\<forall>p. tp p \<noteq> []" and "holds_text t s" "holds_bytes bs s"
  shows "holds_text (t @ output_text dec (oa_decoder s) (oa_finished s) ops) (run_ops dec tp ops s)
    \<and> holds_bytes (bs @ output_bytes (oa_finished s) ops) (run_ops dec tp ops s)
    \<and> oa_maxLines (run_ops dec tp ops s) = oa_maxLines s \<and> oa_maxBytes (run_ops dec tp ops s) = oa_maxBytes s"
  using assms(3,4)
proof (induction ops arbitrary: t bs s)
  case Nil
  then show ?case by (simp add: run_ops_def)
next
  case (Cons op ops)
  from run_op_holds [OF assms(1,2) Cons.prems, of op]
  have step: "holds_text (t @ output_text dec (oa_decoder s) (oa_finished s) [op]) (run_op dec tp op s)"
    "holds_bytes (bs @ output_bytes (oa_finished s) [op]) (run_op dec tp op s)" by blast+
  have "run_ops dec tp (op # ops) s = run_ops dec tp ops (run_op dec tp op s)" by (simp add: run_ops_def)
  with Cons.IH [OF step] show ?case
    by (simp only: run_op_ghost [OF Cons.prems(2), where dec = dec and op = op and ops = ops and tp = tp] append_assoc output_limits simp_thms)
qed

lemma new_accumulator_holds:
  assumes "1 \<le> nullish (ao_maxLines opts) DEFAULT_MAX_LINES"
  shows "holds_text [] (new_accumulator dec opts) \<and> holds_bytes [] (new_accumulator dec opts)"
  using assms by (simp add: new_accumulator_def Let_def holds_text_def keeps_tail_def holds_bytes_def shouldUseTempFile_def)

text \<open>
  C40: whatever chunks a command writes and whatever snapshots are taken on the way, the next snapshot of
  \<^verbatim>\<open>OutputAccumulator\<close>, which has kept only an end of the text, shows what \<^verbatim>\<open>truncateTail\<close> makes of
  the whole text: the same content and the same counts. Only the reason of a truncation may be named otherwise. The tail
  kept takes at most four times \<^verbatim>\<open>maxBytes\<close> bytes and the chunks kept at most \<^verbatim>\<open>maxBytes\<close>, and a
  truncated snapshot names a file to which every byte has been written.\<close>

theorem snapshot_shows_whole_end:
  assumes "whole_decoder dec" and "\<forall>p. temp_path p \<noteq> []"
    and "1 \<le> nullish (ao_maxLines opts) DEFAULT_MAX_LINES" and "4 \<le> nullish (ao_maxBytes opts) DEFAULT_MAX_BYTES"
  shows "let s = run_ops dec temp_path ops (new_accumulator dec opts);
        (s', shown) = snapshot temp_path persist s;
        r = os_truncation shown;
        full = truncateTail (output_text dec (td_new dec) False ops)
          \<lparr>to_maxLines = ao_maxLines opts, to_maxBytes = ao_maxBytes opts\<rparr>
      in os_content shown = tn_content full \<and> r = full\<lparr>tn_truncatedBy := tn_truncatedBy r\<rparr>
        \<and> (tn_truncatedBy r = None \<longleftrightarrow> \<not> tn_truncated full)
        \<and> getLastLineBytes s = utf8_length (last (split_on LF (output_text dec (td_new dec) False ops)))
        \<and> utf8_length (oa_tailText s) \<le> 4 * nullish (ao_maxBytes opts) DEFAULT_MAX_BYTES
        \<and> length (concat (oa_rawChunks s)) \<le> nullish (ao_maxBytes opts) DEFAULT_MAX_BYTES
        \<and> (\<not> tn_truncated r \<or> os_fullOutputPath shown \<noteq> None \<and> oa_written s' = output_bytes False ops)"
proof -
  define t where "t = output_text dec (td_new dec) False ops"
  define s where "s = run_ops dec temp_path ops (new_accumulator dec opts)"
  define M where "M = nullish (ao_maxLines opts) DEFAULT_MAX_LINES"
  define B where "B = nullish (ao_maxBytes opts) DEFAULT_MAX_BYTES"
  have start: "oa_decoder (new_accumulator dec opts) = td_new dec" "\<not> oa_finished (new_accumulator dec opts)"
    "oa_maxLines (new_accumulator dec opts) = M" "oa_maxBytes (new_accumulator dec opts) = B"
    by (simp_all add: new_accumulator_def Let_def M_def B_def)
  have s: "holds_text t s" "holds_bytes (output_bytes False ops) s" and limits: "oa_maxLines s = M" "oa_maxBytes s = B"
    using run_ops_holds [OF assms(1,2), of "[]" "new_accumulator dec opts" "[]" ops] new_accumulator_holds [OF assms(3), of dec]
    by (simp_all add: start t_def s_def)
  have full: "truncateTail t \<lparr>to_maxLines = ao_maxLines opts, to_maxBytes = ao_maxBytes opts\<rparr> = truncateTail t (limits_of M B)"
    by (simp add: truncateTail_def truncate_tail_def M_def B_def)
  have "4 \<le> oa_maxBytes s" using assms(4) by (simp add: limits B_def)
  note shown = snapshot_is_truncateTail [OF s(1) this, where temp_path = temp_path and persist = persist, unfolded limits]
  have state: "fst (snapshot temp_path persist s) = s" using s(2) by (rule snapshot_state)
  have path: "os_fullOutputPath (snd (snapshot temp_path persist s)) = oa_tempFilePath s"
    using state by (auto simp: snapshot_def Let_def)
  have totals: "oa_totalLines s = length (split_on LF t)" "oa_totalDecodedBytes s = utf8_length t"
    "getLastLineBytes s = utf8_length (last (split_on LF t))" "utf8_length (oa_tailText s) \<le> 4 * B"
    using s(1) assms(4) by (simp_all add: holds_text_def getLastLineBytes_def limits B_def [symmetric])
  have chunks: "length (concat (oa_rawChunks s)) \<le> B"
    using s(2) by (auto simp: holds_bytes_def shouldUseTempFile_def limits split: if_splits)
  have "oa_tempFilePath s \<noteq> None \<and> oa_written s = output_bytes False ops" if "tn_truncated (truncateTail t (limits_of M B))"
    using s(2) that by (auto simp: holds_bytes_def shouldUseTempFile_def limits totals truncateTail_fields split: if_splits)
  moreover have "tn_truncated (os_truncation (snd (snapshot temp_path persist s))) \<longleftrightarrow> tn_truncated (truncateTail t (limits_of M B))"
    by (subst shown(1)) simp
  ultimately show ?thesis
    using shown totals(3,4) chunks state path
    by (auto simp: Let_def split_beta s_def [symmetric] t_def [symmetric] M_def [symmetric] B_def [symmetric] full)
qed

section \<open>Witness\<close>

text \<open>A decoder of ASCII, an accumulator for one line of four bytes, and a command that writes two lines.\<close>

definition ascii_decoder :: "unit text_decoder" where
  "ascii_decoder =
     \<lparr>td_new = (), td_decode = (\<lambda>_ data. (map (\<lambda>b. of_nat (b mod 128)) data, ())), td_flush = (\<lambda>_. [])\<rparr>"

lemma ascii_decoder_whole: "whole_decoder ascii_decoder"
proof -
  have ascii: "whole_chars s" if "\<forall>c\<in>set s. unat c < 128" for s
  proof -
    have none: "\<forall>c\<in>set s. \<not> surrogate c" using that by (force simp: surrogate_def surrogate_nat)
    moreover have "(\<forall>c\<in>set s. \<not> surrogate c) \<longrightarrow> chars s = map (\<lambda>c. [c]) s"
      by (induction s rule: chars.induct) (simp_all add: surrogate_def)
    ultimately have "chars s = map (\<lambda>c. [c]) s" by blast
    with none have "char_fix u = u" if "u \<in> set (chars s)" for u using that by auto
    then show ?thesis by (simp add: whole_chars_def)
  qed
  have "unat (of_nat (b mod 128) :: code_unit) < 128" for b
    by (rule le_less_trans [of _ "b mod 128"]) (simp_all add: unat_of_nat)
  then show ?thesis unfolding whole_decoder_def by (intro allI conjI ascii) (auto simp: ascii_decoder_def)
qed

lemma truncated_by_update: "r = full\<lparr>tn_truncatedBy := b\<rparr> \<Longrightarrow> tn_truncated r = tn_truncated full"
  by simp

lemma snapshot_shows_whole_end_witness:
  "let opts = \<lparr>ao_maxLines = Some 1, ao_maxBytes = Some 4, ao_tempFilePrefix = None\<rparr>;
       s = run_ops ascii_decoder (\<lambda>p. js ''out'') [Append_output [0x61, 0x0A], Take_snapshot False, Append_output [0x62]]
         (new_accumulator ascii_decoder opts);
       (s', shown) = snapshot (\<lambda>p. js ''out'') True s
   in os_content shown = [0x62] \<and> os_fullOutputPath shown \<noteq> None \<and> oa_written s' = [0x61, 0x0A, 0x62]"
proof -
  let ?opts = "\<lparr>ao_maxLines = Some 1, ao_maxBytes = Some 4, ao_tempFilePrefix = None\<rparr> :: accumulator_options"
  let ?ops = "[Append_output [0x61, 0x0A], Take_snapshot False, Append_output [0x62]]"
  let ?path = "\<lambda>p. js ''out''"
  let ?full = "truncateTail [0x61, 0x0A, 0x62] \<lparr>to_maxLines = ao_maxLines ?opts, to_maxBytes = ao_maxBytes ?opts\<rparr>"
  define s where "s = run_ops ascii_decoder ?path ?ops (new_accumulator ascii_decoder ?opts)"
  define shown where "shown = snapshot ?path True s"
  have out: "output_text ascii_decoder (td_new ascii_decoder) False ?ops = [0x61, 0x0A, 0x62]"
    "output_bytes False ?ops = [0x61, 0x0A, 0x62]"
    by (simp_all add: ascii_decoder_def)
  have split: "split_on LF [0x61, 0x0A, 0x62] = [[0x61], [0x62]]" by (simp add: LF_def)
  have full: "tn_content ?full = [0x62]" "tn_truncated ?full"
    by (simp_all add: truncateTail_def truncate_tail_def Let_def split utf8_example del: utf8_length.simps split_on.simps)
  have "\<forall>p. ?path p \<noteq> []" "1 \<le> nullish (ao_maxLines ?opts) DEFAULT_MAX_LINES" "4 \<le> nullish (ao_maxBytes ?opts) DEFAULT_MAX_BYTES"
    by simp_all
  note claim = snapshot_shows_whole_end [OF ascii_decoder_whole this, of ?ops True, folded s_def, unfolded Let_def split_beta out,
      folded shown_def]
  then have "os_truncation (snd shown) = ?full\<lparr>tn_truncatedBy := tn_truncatedBy (os_truncation (snd shown))\<rparr>" by blast
  then have "tn_truncated (os_truncation (snd shown))" 
    using full(2) truncated_by_update by blast
  with claim full(1) have "os_content (snd shown) = [0x62] \<and> os_fullOutputPath (snd shown) \<noteq> None \<and> oa_written (fst shown) = [0x61, 0x0A, 0x62]"
    by metis
  then show ?thesis unfolding Let_def split_beta s_def shown_def .
qed

end
