(* ===== verification/Stdin_Buffer.thy ===== *)
theory Stdin_Buffer
  imports Js_Strings
begin

text \<open>
  The buffer between the terminal and the key handling: \<^verbatim>\<open>packages/tui/src/stdin-buffer.ts\<close>. Input arrives in
  chunks that end anywhere; the buffer cuts it into complete key sequences and pasted texts. The
  listeners are not part of the model: what an operation emits is part of its result. The timer is
  the flag whether one is set; its firing is an operation.
\<close>

section \<open>Escape sequences\<close>

definition ESC :: code_unit where
  "ESC = 0x1B"

definition BEL :: code_unit where
  "BEL = 0x07"

definition BRACKETED_PASTE_START :: jstr where
  "BRACKETED_PASTE_START = ESC # js ''[200~''"

definition BRACKETED_PASTE_END :: jstr where
  "BRACKETED_PASTE_END = ESC # js ''[201~''"

datatype sequence_status = Complete | Incomplete | Not_escape

text \<open>\<^verbatim>\<open>/^\d+$/\<close> and \<^verbatim>\<open>/^<\d+;\d+;\d+[Mm]$/\<close>. The three numbers of the second are the pieces between the semicolons.\<close>

definition all_digits :: "jstr \<Rightarrow> bool" where
  "all_digits s \<longleftrightarrow> s \<noteq> [] \<and> list_all is_digit_unit s"

definition three_numbers :: "jstr \<Rightarrow> bool" where
  "three_numbers s = (let parts = split_on 0x3B s in length parts = 3 \<and> list_all all_digits parts)"

definition mouse_match :: "jstr \<Rightarrow> bool" where
  "mouse_match payload \<longleftrightarrow>
     2 \<le> length payload \<and> hd payload = 0x3C \<and> last payload \<in> {0x4D, 0x6D}
     \<and> three_numbers (tl (butlast payload))"

definition isCompleteCsiSequence :: "jstr \<Rightarrow> sequence_status" where
  "isCompleteCsiSequence data =
     (if \<not> prefix [ESC, 0x5B] data then Complete
      else if length data < 3 then Incomplete
      else
        (let payload = drop 2 data; lastChar = last payload in
         if 0x40 \<le> lastChar \<and> lastChar \<le> 0x7E
         then
           (if prefix [0x3C] payload
            then
              (if mouse_match payload then Complete
               else if (lastChar = 0x4D \<or> lastChar = 0x6D) \<and> three_numbers (tl (butlast payload)) then Complete
               else Incomplete)
            else Complete)
         else Incomplete))"

definition isCompleteOscSequence :: "jstr \<Rightarrow> sequence_status" where
  "isCompleteOscSequence data =
     (if \<not> prefix [ESC, 0x5D] data then Complete
      else if suffix [ESC, 0x5C] data \<or> suffix [BEL] data then Complete
      else Incomplete)"

definition isCompleteDcsSequence :: "jstr \<Rightarrow> sequence_status" where
  "isCompleteDcsSequence data =
     (if \<not> prefix [ESC, 0x50] data then Complete
      else if suffix [ESC, 0x5C] data then Complete
      else Incomplete)"

definition isCompleteApcSequence :: "jstr \<Rightarrow> sequence_status" where
  "isCompleteApcSequence data =
     (if \<not> prefix [ESC, 0x5F] data then Complete
      else if suffix [ESC, 0x5C] data then Complete
      else Incomplete)"

definition isCompleteSequence :: "jstr \<Rightarrow> sequence_status" where
  "isCompleteSequence data =
     (if \<not> prefix [ESC] data then Not_escape
      else if length data = 1 then Incomplete
      else
        (let afterEsc = drop 1 data in
         if prefix [0x5B] afterEsc
         then
           (if prefix [0x5B, 0x4D] afterEsc
            then (if length data \<ge> 6 then Complete else Incomplete)
            else isCompleteCsiSequence data)
         else if prefix [0x5D] afterEsc then isCompleteOscSequence data
         else if prefix [0x50] afterEsc then isCompleteDcsSequence data
         else if prefix [0x5F] afterEsc then isCompleteApcSequence data
         else if prefix [0x4F] afterEsc then (if length afterEsc \<ge> 2 then Complete else Incomplete)
         else if length afterEsc = 1 then Complete
         else Complete))"

text \<open>\<^verbatim>\<open>/^\x1b\[(\d+)(?::\d*)?(?::\d+)?u$/\<close>: after the number, what the two optional groups can leave before the final \<^verbatim>\<open>u\<close>.\<close>

definition kitty_tail :: "jstr \<Rightarrow> bool" where
  "kitty_tail r \<longleftrightarrow>
     r = [0x75]
     \<or> prefix [0x3A] r
        \<and> (let r2 = dropWhile is_digit_unit (tl r) in
           r2 = [0x75]
           \<or> prefix [0x3A] r2 \<and> leading_digits (tl r2) \<noteq> [] \<and> dropWhile is_digit_unit (tl r2) = [0x75])"

definition parseUnmodifiedKittyPrintableCodepoint :: "jstr \<Rightarrow> nat option" where
  "parseUnmodifiedKittyPrintableCodepoint sequence =
     (if \<not> prefix [ESC, 0x5B] sequence then None
      else
        (let digits = leading_digits (drop 2 sequence) in
         if digits \<noteq> [] \<and> kitty_tail (dropWhile is_digit_unit (drop 2 sequence))
         then (let codepoint = digits_value digits in if codepoint \<ge> 32 then Some codepoint else None)
         else None))"

section \<open>Cutting a text into sequences\<close>

text \<open>The inner loop: the length of the first candidate that is not incomplete.\<close>

function seq_end :: "jstr \<Rightarrow> nat \<Rightarrow> nat option" where
  "seq_end remaining n =
     (if n \<le> length remaining then
        (case isCompleteSequence (take n remaining) of
           Incomplete \<Rightarrow> seq_end remaining (Suc n)
         | _ \<Rightarrow> Some n)
      else None)"
  by pat_completeness auto

termination by (relation "measure (\<lambda>(remaining, n). Suc (length remaining) - n)") auto

declare seq_end.simps [simp del]

lemma seq_end_bounds: "seq_end r n = Some m \<Longrightarrow> n \<le> m \<and> m \<le> length r"
proof (induction r n rule: seq_end.induct)
  case (1 r n)
  then show ?case
    by (cases "isCompleteSequence (take n r)") (auto simp: seq_end.simps [of r n] split: if_splits)
qed

text \<open>The outer loop at the position where \<open>remaining\<close> begins.\<close>

function extractCompleteSequences :: "jstr \<Rightarrow> jstr list \<times> jstr" where
  "extractCompleteSequences remaining =
     (if remaining = [] then ([], [])
      else if prefix [ESC] remaining
      then
        (case seq_end remaining 1 of
           None \<Rightarrow> ([], remaining)
         | Some n \<Rightarrow>
             (let (sequences, remainder) = extractCompleteSequences (drop n remaining)
              in (take n remaining # sequences, remainder)))
      else
        (let (sequences, remainder) = extractCompleteSequences (drop 1 remaining)
         in ([hd remaining] # sequences, remainder)))"
  by pat_completeness auto

termination
  by (relation "measure length") (auto dest: seq_end_bounds)

declare extractCompleteSequences.simps [simp del]

section \<open>The buffer\<close>

record stdin_buffer =
  sb_buffer :: jstr
  sb_timeout :: bool
  sb_pasteMode :: bool
  sb_pasteBuffer :: jstr
  sb_pendingKittyPrintableCodepoint :: "nat option"

definition new_stdin_buffer :: stdin_buffer where
  "new_stdin_buffer =
     \<lparr>sb_buffer = [], sb_timeout = False, sb_pasteMode = False, sb_pasteBuffer = [],
      sb_pendingKittyPrintableCodepoint = None\<rparr>"

text \<open>What \<^verbatim>\<open>emit\<close> hands to the listeners.\<close>

datatype input_event = Data jstr | Paste jstr

definition emitDataSequence :: "stdin_buffer \<Rightarrow> jstr \<Rightarrow> stdin_buffer \<times> input_event list" where
  "emitDataSequence st sequence =
     (let rawCodepoint = (if length sequence = 1 then Some (unat (hd sequence)) else None) in
      if rawCodepoint \<noteq> None \<and> rawCodepoint = sb_pendingKittyPrintableCodepoint st
      then (st\<lparr>sb_pendingKittyPrintableCodepoint := None\<rparr>, [])
      else (st\<lparr>sb_pendingKittyPrintableCodepoint := parseUnmodifiedKittyPrintableCodepoint sequence\<rparr>,
            [Data sequence]))"

fun emit_sequences :: "stdin_buffer \<Rightarrow> jstr list \<Rightarrow> stdin_buffer \<times> input_event list" where
  "emit_sequences st [] = (st, [])"
| "emit_sequences st (s # ss) =
     (let (st1, es) = emitDataSequence st s; (st2, fs) = emit_sequences st1 ss in (st2, es @ fs))"

definition flush :: "stdin_buffer \<Rightarrow> stdin_buffer \<times> jstr list" where
  "flush st =
     (let st = st\<lparr>sb_timeout := False\<rparr> in
      if sb_buffer st = [] then (st, [])
      else (st\<lparr>sb_buffer := [], sb_pendingKittyPrintableCodepoint := None\<rparr>, [sb_buffer st]))"

text \<open>The callback of the timer. It does nothing when no timer is set.\<close>

definition timer_fires :: "stdin_buffer \<Rightarrow> stdin_buffer \<times> input_event list" where
  "timer_fires st =
     (if sb_timeout st then (let (st, flushed) = flush st in emit_sequences st flushed) else (st, []))"

definition clear_buffer :: "stdin_buffer \<Rightarrow> stdin_buffer" where
  "clear_buffer st =
     st\<lparr>sb_timeout := False, sb_buffer := [], sb_pasteMode := False, sb_pasteBuffer := [],
        sb_pendingKittyPrintableCodepoint := None\<rparr>"

text \<open>
  The two places that look for the end of a paste share \<open>close_paste\<close>: the new state, the pasted
  text if it is complete, and the rest of the input, which is processed in turn.
\<close>

definition close_paste :: "stdin_buffer \<Rightarrow> stdin_buffer \<times> (jstr \<times> jstr) option" where
  "close_paste st =
     (case index_of (sb_pasteBuffer st) BRACKETED_PASTE_END of
        None \<Rightarrow> (st, None)
      | Some endIndex \<Rightarrow>
          (st\<lparr>sb_pasteMode := False, sb_pasteBuffer := [], sb_pendingKittyPrintableCodepoint := None\<rparr>,
           Some (take endIndex (sb_pasteBuffer st), drop (endIndex + length BRACKETED_PASTE_END) (sb_pasteBuffer st))))"

definition open_paste :: "stdin_buffer \<Rightarrow> nat \<Rightarrow> stdin_buffer \<times> input_event list" where
  "open_paste st startIndex =
     (let (st, es) =
        (if startIndex > 0 then emit_sequences st (fst (extractCompleteSequences (take startIndex (sb_buffer st))))
         else (st, []))
      in (st\<lparr>sb_pendingKittyPrintableCodepoint := None,
             sb_pasteMode := True,
             sb_pasteBuffer := drop (startIndex + length BRACKETED_PASTE_START) (sb_buffer st),
             sb_buffer := []\<rparr>, es))"

lemma length_paste_markers [simp]:
  "length BRACKETED_PASTE_START = 6" "length BRACKETED_PASTE_END = 6"
  by (simp_all add: BRACKETED_PASTE_START_def BRACKETED_PASTE_END_def)

text \<open>
  What is delivered for a list of sequences after a pending code point: a single unit that repeats
  the code point of the sequence before it is dropped.
\<close>

fun delivered :: "nat option \<Rightarrow> jstr list \<Rightarrow> nat option \<times> input_event list" where
  "delivered pending [] = (pending, [])"
| "delivered pending (s # ss) =
     (if length s = 1 \<and> pending = Some (unat (hd s)) then delivered None ss
      else (let (p, es) = delivered (parseUnmodifiedKittyPrintableCodepoint s) ss in (p, Data s # es)))"

abbreviation with_pending :: "stdin_buffer \<Rightarrow> nat option \<Rightarrow> stdin_buffer" where
  "with_pending st p \<equiv> st\<lparr>sb_pendingKittyPrintableCodepoint := p\<rparr>"

lemma emit_sequences_delivered:
  "emit_sequences st ss =
    (with_pending st (fst (delivered (sb_pendingKittyPrintableCodepoint st) ss)),
     snd (delivered (sb_pendingKittyPrintableCodepoint st) ss))"
  by (induction ss arbitrary: st) (auto simp: emitDataSequence_def Let_def split: prod.splits)

lemma emit_sequences_buffers [simp]:
  "sb_buffer (fst (emit_sequences st ss)) = sb_buffer st"
  "sb_pasteBuffer (fst (emit_sequences st ss)) = sb_pasteBuffer st"
  "sb_pasteMode (fst (emit_sequences st ss)) = sb_pasteMode st"
  "sb_timeout (fst (emit_sequences st ss)) = sb_timeout st"
  by (simp_all add: emit_sequences_delivered)

lemma close_paste_shrinks:
  assumes "close_paste st = (st', Some (pasted, remaining))"
  shows "length (sb_pasteBuffer st') + length (sb_buffer st') + length remaining
    < length (sb_pasteBuffer st) + length (sb_buffer st)"
proof -
  from assms obtain i where i: "index_of (sb_pasteBuffer st) BRACKETED_PASTE_END = Some i"
    and "remaining = drop (i + 6) (sb_pasteBuffer st)"
    and "sb_pasteBuffer st' = []" and "sb_buffer st' = sb_buffer st"
    by (auto simp: close_paste_def split: option.splits)
  moreover from index_of_SomeD [OF i] have "i + 6 \<le> length (sb_pasteBuffer st)" by simp
  ultimately show ?thesis by simp
qed

lemma open_paste_shrinks:
  assumes "open_paste st i = (st', es)"
  shows "length (sb_pasteBuffer st') + length (sb_buffer st') \<le> length (sb_buffer st)"
  using assms by (auto simp: open_paste_def emit_sequences_delivered Let_def split: if_splits)

text \<open>\<open>process_str\<close> is \<^verbatim>\<open>process\<close> for a string.\<close>

function process_str :: "stdin_buffer \<Rightarrow> jstr \<Rightarrow> stdin_buffer \<times> input_event list" where
  "process_str st0 str =
     (let st = st0\<lparr>sb_timeout := False\<rparr> in
      if str = [] \<and> sb_buffer st = [] then emitDataSequence st []
      else
        (let st = st\<lparr>sb_buffer := sb_buffer st @ str\<rparr> in
         if sb_pasteMode st
         then
           (case close_paste (st\<lparr>sb_pasteBuffer := sb_pasteBuffer st @ sb_buffer st, sb_buffer := []\<rparr>) of
              (st, None) \<Rightarrow> (st, [])
            | (st, Some (pasted, remaining)) \<Rightarrow>
                (if remaining = [] then (st, [Paste pasted])
                 else (let (st, es) = process_str st remaining in (st, Paste pasted # es))))
         else
           (case index_of (sb_buffer st) BRACKETED_PASTE_START of
              Some startIndex \<Rightarrow>
                (case open_paste st startIndex of
                   (st, es) \<Rightarrow>
                     (case close_paste st of
                        (st, None) \<Rightarrow> (st, es)
                      | (st, Some (pasted, remaining)) \<Rightarrow>
                          (if remaining = [] then (st, es @ [Paste pasted])
                           else (let (st, fs) = process_str st remaining in (st, es @ Paste pasted # fs)))))
            | None \<Rightarrow>
                (let (sequences, remainder) = extractCompleteSequences (sb_buffer st);
                     (st, es) = emit_sequences (st\<lparr>sb_buffer := remainder\<rparr>) sequences
                 in (if remainder \<noteq> [] then st\<lparr>sb_timeout := True\<rparr> else st, es)))))"
  by pat_completeness auto

termination
proof (relation "measure (\<lambda>(st, str). length (sb_pasteBuffer st) + length (sb_buffer st) + length str)", goal_cases)
  case 1
  show ?case by simp
next
  case 2
  then show ?case by (auto dest!: close_paste_shrinks [OF sym])
next
  case 3
  then show ?case by (auto dest!: close_paste_shrinks [OF sym] open_paste_shrinks [OF sym])
qed

declare process_str.simps [simp del]

text \<open>
  \<^verbatim>\<open>process\<close> for what the terminal sends, a string or bytes. A single byte above 127 stands for the
  escape and the byte without its high bit; \<open>to_string\<close> is the decoding of other bytes.
\<close>

datatype input_data = Text jstr | Bytes "nat list"

definition process_input :: "(nat list \<Rightarrow> jstr) \<Rightarrow> stdin_buffer \<Rightarrow> input_data \<Rightarrow> stdin_buffer \<times> input_event list" where
  "process_input to_string st data =
     process_str st
       (case data of
          Bytes bs \<Rightarrow> (if length bs = 1 \<and> hd bs > 127 then [ESC, of_nat (hd bs - 128)] else to_string bs)
        | Text s \<Rightarrow> s)"

section \<open>Extraction depends on prefixes only\<close>

lemma index_of_append: "index_of s p = Some i \<Longrightarrow> p \<noteq> [] \<Longrightarrow> index_of (s @ x) p = Some i"
proof (induction s arbitrary: i)
  case (Cons a s)
  show ?case
  proof (cases "prefix p (a # s)")
    case True
    then have "prefix p ((a # s) @ x)" by (rule prefix_prefix) 
    with True Cons.prems show ?thesis by simp
  next
    case False
    with Cons.prems obtain k where k: "index_of s p = Some k" "i = Suc k" by auto
    from index_of_SomeD [OF k(1)] have "length p \<le> length (a # s)" by simp
    with False have "\<not> prefix p ((a # s) @ x)" using prefix_length_prefix [of p "(a # s) @ x" "a # s"] by auto
    with False k Cons show ?thesis by simp
  qed
qed (simp split: if_splits)

lemma seq_end_append: "seq_end r n = Some m \<Longrightarrow> seq_end (r @ x) n = Some m"
proof (induction r n arbitrary: m rule: seq_end.induct)
  case (1 r n)
  then have "n \<le> length r" by (auto simp: seq_end.simps [of r n] split: if_splits)
  with 1 show ?case
    by (cases "isCompleteSequence (take n r)") (auto simp: seq_end.simps [of r n] seq_end.simps [of "r @ x" n] seq_end.simps [of "r @ x" m])
qed

lemma seq_end_complete:
  "seq_end r n = Some m \<Longrightarrow> isCompleteSequence (take m r) \<noteq> Incomplete"
proof (induction r n rule: seq_end.induct)
  case (1 r n)
  then show ?case
    by (cases "isCompleteSequence (take n r)") (auto simp: seq_end.simps [of r n] split: if_splits)
qed

lemma seq_end_least:
  "n \<le> k \<Longrightarrow> k \<le> length r \<Longrightarrow> isCompleteSequence (take k r) \<noteq> Incomplete \<Longrightarrow> \<exists>m\<le>k. seq_end r n = Some m"
proof (induction r n rule: seq_end.induct)
  case (1 r n)
  show ?case
  proof (cases "isCompleteSequence (take n r) = Incomplete")
    case True
    with 1 have "Suc n \<le> k" by (cases "n = k") auto
    with 1 True show ?thesis by (auto simp: seq_end.simps [of r n])
  next
    case False
    with 1 show ?thesis
      by (cases "isCompleteSequence (take n r)") (auto simp: seq_end.simps [of r n])
  qed
qed

text \<open>Extraction loses nothing and reorders nothing.\<close>

lemma sequences_and_remainder: "concat (fst (extractCompleteSequences r)) @ snd (extractCompleteSequences r) = r"
proof (induction r rule: extractCompleteSequences.induct)
  case (1 r)
  show ?case
  proof (cases r)
    case Nil
    then show ?thesis by (simp add: extractCompleteSequences.simps)
  next
    case (Cons c cs)
    show ?thesis
    proof (cases "seq_end r 1")
      case None
      with 1(2) Cons show ?thesis
        by (auto simp: extractCompleteSequences.simps [of "c # cs"] Let_def split: prod.split)
    next
      case (Some n)
      with 1 Cons show ?thesis
        by (auto simp: extractCompleteSequences.simps [of "c # cs"] Let_def split: prod.split)
    qed
  qed
qed

section \<open>Keys and pastes\<close>

text \<open>
  What a terminal sends: complete key sequences, and pasted texts between their markers. A key is
  cut as one sequence, is not the marker of a paste, and holds an escape after its first unit only
  in the closing \<^verbatim>\<open>ESC \\<close>; a pasted text does not hold the end marker.
\<close>

datatype input_token = Key jstr | Pasted jstr

fun token_text :: "input_token \<Rightarrow> jstr" where
  "token_text (Key s) = s"
| "token_text (Pasted t) = BRACKETED_PASTE_START @ t @ BRACKETED_PASTE_END"

fun escapes_close :: "jstr \<Rightarrow> bool" where
  "escapes_close [] = True"
| "escapes_close (c # s) = ((c = ESC \<longrightarrow> s \<noteq> [] \<and> hd s = 0x5C) \<and> escapes_close s)"

fun valid_token :: "input_token \<Rightarrow> bool" where
  "valid_token (Key s) \<longleftrightarrow>
     extractCompleteSequences s = ([s], []) \<and> s \<noteq> BRACKETED_PASTE_START \<and> escapes_close (tl s)"
| "valid_token (Pasted t) \<longleftrightarrow> index_of (t @ BRACKETED_PASTE_END) BRACKETED_PASTE_END = Some (length t)"

text \<open>What they should deliver: the rule for repeated code points is that of single sequences.\<close>

fun deliver_tokens :: "nat option \<Rightarrow> input_token list \<Rightarrow> nat option \<times> input_event list" where
  "deliver_tokens pending [] = (pending, [])"
| "deliver_tokens pending (Key s # ts) =
     (let (p, es) = delivered pending [s]; (q, fs) = deliver_tokens p ts in (q, es @ fs))"
| "deliver_tokens pending (Pasted t # ts) =
     (let (q, fs) = deliver_tokens None ts in (q, Paste t # fs))"

fun feed :: "stdin_buffer \<Rightarrow> jstr list \<Rightarrow> stdin_buffer \<times> input_event list" where
  "feed st [] = (st, [])"
| "feed st (c # cs) =
     (let (st1, es) = process_str st c; (st2, fs) = feed st1 cs in (st2, es @ fs))"

abbreviation clean :: "nat option \<Rightarrow> stdin_buffer" where
  "clean k \<equiv> with_pending new_stdin_buffer k"

lemma paste_start_units: "BRACKETED_PASTE_START = [ESC, 0x5B, 0x32, 0x30, 0x30, 0x7E]"
  by (simp add: BRACKETED_PASTE_START_def js_def js_char_def)

lemma escapes_close_no_start:
  "escapes_close t \<Longrightarrow>
   index_of (t @ x) BRACKETED_PASTE_START = map_option ((+) (length t)) (index_of x BRACKETED_PASTE_START)"
proof (induction t)
  case Nil
  show ?case by (cases "index_of x BRACKETED_PASTE_START") simp_all
next
  case (Cons c t)
  have "\<not> prefix BRACKETED_PASTE_START ((c # t) @ x)"
  proof
    assume "prefix BRACKETED_PASTE_START ((c # t) @ x)"
    with Cons.prems show False by (cases t) (auto simp: paste_start_units)
  qed
  with Cons show ?case by (cases "index_of x BRACKETED_PASTE_START") simp_all
qed

lemma csi_digits_incomplete:
  assumes "list_all is_digit_unit ds"
  shows "isCompleteSequence (ESC # 0x5B # ds) = Incomplete"
proof (cases ds rule: rev_cases)
  case Nil
  then show ?thesis by (simp add: isCompleteSequence_def isCompleteCsiSequence_def Let_def)
next
  case (snoc ds' d)
  with assms have digits: "list_all is_digit_unit ds'" "is_digit_unit d" by simp_all
  then have "\<not> 0x40 \<le> d" by (auto simp: is_digit_unit_def word_le_nat_alt)
  moreover have "\<not> prefix [0x5B, 0x4D] (0x5B # ds)"
    using assms by (cases ds) (auto simp: is_digit_unit_def word_le_nat_alt)
  ultimately show ?thesis using snoc
    by (auto simp: isCompleteSequence_def isCompleteCsiSequence_def Let_def)
qed

lemma start_incomplete:
  assumes "prefix p BRACKETED_PASTE_START" and "p \<noteq> BRACKETED_PASTE_START" and "p \<noteq> []"
  shows "isCompleteSequence p = Incomplete"
proof -
  from assms have "p = [ESC] \<or> (\<exists>ds. p = ESC # 0x5B # ds \<and> prefix ds [0x32, 0x30, 0x30])"
    by (auto simp: paste_start_units prefix_Cons)
  then show ?thesis
  proof
    assume "p = [ESC]"
    then show ?thesis by (simp add: isCompleteSequence_def)
  next
    assume "\<exists>ds. p = ESC # 0x5B # ds \<and> prefix ds [0x32, 0x30, 0x30]"
    then obtain ds where "p = ESC # 0x5B # ds" "prefix ds [0x32, 0x30, 0x30]" by blast
    moreover from this(2) have "list_all is_digit_unit ds"
      by (auto simp: prefix_Cons is_digit_unit_def word_le_nat_alt)
    ultimately show ?thesis by (simp add: csi_digits_incomplete)
  qed
qed

lemma start_complete: "isCompleteSequence BRACKETED_PASTE_START = Complete"
  by (simp add: paste_start_units isCompleteSequence_def isCompleteCsiSequence_def Let_def ESC_def word_le_nat_alt)

lemma key_shape:
  assumes "extractCompleteSequences s = ([s], [])"
  shows "s \<noteq> [] \<and> (hd s = ESC \<longrightarrow> seq_end s 1 = Some (length s)) \<and> (hd s \<noteq> ESC \<longrightarrow> length s = 1)"
proof (cases s)
  case Nil
  with assms show ?thesis by (simp add: extractCompleteSequences.simps)
next
  case (Cons c cs)
  show ?thesis
  proof (cases "c = ESC")
    case True
    with assms Cons obtain n where n: "seq_end s 1 = Some n" "take n s = s"
      by (auto simp: extractCompleteSequences.simps [of "ESC # cs"] Let_def split: option.splits prod.splits)
    with seq_end_bounds [OF n(1)] have "n = length s" by (metis length_take min.absorb2)
    with n Cons True show ?thesis by simp
  next
    case False
    with assms Cons show ?thesis
      by (auto simp: extractCompleteSequences.simps [of "c # cs"] Let_def split: prod.splits)
  qed
qed

lemma key_no_start:
  assumes "valid_token (Key s)"
  shows "index_of (s @ x) BRACKETED_PASTE_START = map_option ((+) (length s)) (index_of x BRACKETED_PASTE_START)"
proof -
  from assms have key: "s \<noteq> []" "hd s = ESC \<longrightarrow> seq_end s 1 = Some (length s)"
    using key_shape by auto
  have "\<not> prefix BRACKETED_PASTE_START (s @ x)"
  proof
    assume pre: "prefix BRACKETED_PASTE_START (s @ x)"
    with key(1) have "hd s = ESC" by (cases s) (auto simp: paste_start_units)
    with key have least: "seq_end s 1 = Some (length s)" by simp
    from index_of_prefix [OF pre] show False
    proof
      assume "prefix BRACKETED_PASTE_START s"
      then obtain y where y: "s = BRACKETED_PASTE_START @ y" by (auto simp: prefix_def)
      with assms have "y \<noteq> []" by auto
      from seq_end_least [of 1 6 s] y start_complete obtain m where "m \<le> 6" "seq_end s 1 = Some m" by auto
      with least y \<open>y \<noteq> []\<close> show False by (cases y) auto
    next
      assume "prefix s BRACKETED_PASTE_START"
      with assms key(1) have "isCompleteSequence s = Incomplete" by (intro start_incomplete) auto
      with seq_end_complete [OF least] show False by simp
    qed
  qed
  moreover from key(1) obtain c cs where s: "s = c # cs" by (cases s) auto
  ultimately have "index_of (s @ x) BRACKETED_PASTE_START = map_option Suc (index_of (cs @ x) BRACKETED_PASTE_START)"
    by simp
  also have "\<dots> = map_option ((+) (length s)) (index_of x BRACKETED_PASTE_START)"
    using assms s escapes_close_no_start [of cs x] by (cases "index_of x BRACKETED_PASTE_START") simp_all
  finally show ?thesis .
qed

lemma extract_key:
  assumes "extractCompleteSequences s = ([s], [])"
  shows "extractCompleteSequences (s @ x) = (s # fst (extractCompleteSequences x), snd (extractCompleteSequences x))"
proof (cases "hd s = ESC")
  case True
  with key_shape [OF assms] have "s \<noteq> []" "seq_end (s @ x) 1 = Some (length s)" "prefix [ESC] (s @ x)"
    by (auto intro: seq_end_append simp: neq_Nil_conv)
  then show ?thesis by (simp add: extractCompleteSequences.simps [of "s @ x"] Let_def split: prod.split)
next
  case False
  with key_shape [OF assms] obtain c where "s = [c]" "c \<noteq> ESC" by (cases s) auto
  then show ?thesis by (simp add: extractCompleteSequences.simps [of "c # x"] Let_def split: prod.split)
qed

section \<open>Processing keys and pastes\<close>

lemma delivered_append:
  "delivered k (ss @ ts) =
    (let (p, es) = delivered k ss; (q, fs) = delivered p ts in (q, es @ fs))"
  by (induction k ss rule: delivered.induct) (auto simp: Let_def split: prod.splits)

text \<open>Outside a paste the buffer is a prefix of the input that has not been processed.\<close>

lemma process_buffered:
  assumes "\<not> sb_pasteMode st" and "str \<noteq> []"
  shows "process_str st str = process_str (st\<lparr>sb_timeout := False, sb_buffer := []\<rparr>) (sb_buffer st @ str)"
  using assms
  by (cases st, subst (1 2) process_str.simps, cases "index_of (sb_buffer st @ str) BRACKETED_PASTE_START")
    (simp_all add: Let_def)

lemma process_clean:
  "x \<noteq> [] \<Longrightarrow> index_of x BRACKETED_PASTE_START = None \<Longrightarrow>
   process_str (clean k) x =
     (let (ss, r) = extractCompleteSequences x; (k', es) = delivered k ss
      in ((clean k')\<lparr>sb_buffer := r, sb_timeout := r \<noteq> []\<rparr>, es))"
  by (subst process_str.simps) (auto simp: Let_def emit_sequences_delivered new_stdin_buffer_def split: prod.splits)

lemma clean_reset [simp]: "(clean k)\<lparr>sb_buffer := [], sb_timeout := False\<rparr> = clean k"
  by (simp add: new_stdin_buffer_def)

text \<open>The state in a paste, and what follows its start.\<close>

definition pasting :: "jstr \<Rightarrow> stdin_buffer" where
  "pasting q = (clean None)\<lparr>sb_pasteMode := True, sb_pasteBuffer := q\<rparr>"

definition after_paste :: "jstr \<Rightarrow> stdin_buffer \<times> input_event list" where
  "after_paste q =
     (case index_of q BRACKETED_PASTE_END of
        None \<Rightarrow> (pasting q, [])
      | Some i \<Rightarrow>
          (let r = drop (i + 6) q; (st, es) = (if r = [] then (clean None, []) else process_str (clean None) r)
           in (st, Paste (take i q) # es)))"

lemma process_start:
  assumes "index_of x BRACKETED_PASTE_START = Some i"
  shows "process_str (clean k) x =
    (let es = (if i > 0 then snd (delivered k (fst (extractCompleteSequences (take i x)))) else []);
         (st, fs) = after_paste (drop (i + 6) x)
     in (st, es @ fs))"
proof -
  from assms have "x \<noteq> []" by (auto simp: paste_start_units)
  with assms show ?thesis
    by (subst process_str.simps)
      (simp add: Let_def open_paste_def emit_sequences_delivered close_paste_def after_paste_def pasting_def
        new_stdin_buffer_def split: prod.split option.split)
qed

lemma process_pasting:
  "s \<noteq> [] \<Longrightarrow> process_str (pasting q) s = after_paste (q @ s)"
  by (subst process_str.simps)
    (auto simp: Let_def close_paste_def after_paste_def pasting_def new_stdin_buffer_def split: prod.split option.split)

lemma process_key:
  assumes key: "valid_token (Key s)"
  shows "process_str (clean k) (s @ x) =
    (let (k', es) = delivered k [s];
         (st, fs) = (if x = [] then (clean k', []) else process_str (clean k') x)
     in (st, es @ fs))"
proof -
  have s: "s \<noteq> []" "extractCompleteSequences s = ([s], [])" using key key_shape by auto
  show ?thesis
  proof (cases "index_of x BRACKETED_PASTE_START")
    case None
    with key_no_start [OF key, of x] s(1) process_clean [of "s @ x" k] extract_key [OF s(2), of x]
    show ?thesis
      by (cases "x = []")
        (auto simp: process_clean extractCompleteSequences.simps [of "[]"] Let_def split: prod.splits if_splits)
  next
    case (Some i)
    with key_no_start [OF key, of x] have "index_of (s @ x) BRACKETED_PASTE_START = Some (length s + i)" by simp
    from process_start [OF this, of k] process_start [OF Some] s(1) Some extract_key [OF s(2), of "take i x"]
    show ?thesis
      by (auto simp: Let_def extractCompleteSequences.simps [of "[]"] paste_start_units split: prod.splits if_splits)
  qed
qed

lemma process_pasted:
  assumes "valid_token (Pasted t)"
  shows "process_str (clean k) (token_text (Pasted t) @ x) =
    (let (st, fs) = (if x = [] then (clean None, []) else process_str (clean None) x) in (st, Paste t # fs))"
proof -
  have start: "index_of (token_text (Pasted t) @ x) BRACKETED_PASTE_START = Some 0"
    by (simp add: paste_start_units)
  have "index_of ((t @ BRACKETED_PASTE_END) @ x) BRACKETED_PASTE_END = Some (length t)"
    by (rule index_of_append) (use assms in simp, simp add: BRACKETED_PASTE_END_def)
  then show ?thesis
    using process_start [OF start, of k] by (auto simp: after_paste_def split: prod.splits)
qed

section \<open>Input in pieces\<close>

text \<open>A state that has taken in the beginning \<open>p\<close> of a key or a paste.\<close>

definition awaits :: "stdin_buffer \<Rightarrow> nat option \<Rightarrow> jstr \<Rightarrow> bool" where
  "awaits st k p \<longleftrightarrow>
     (p = [] \<longrightarrow> st = clean k) \<and> (\<forall>s. s \<noteq> [] \<longrightarrow> process_str st s = process_str (clean k) (p @ s))"

lemma awaits_nothing: "awaits (clean k) k []"
  by (simp add: awaits_def)

lemma awaits_process: "awaits st k p \<Longrightarrow> s \<noteq> [] \<Longrightarrow> process_str st s = process_str (clean k) (p @ s)"
  unfolding awaits_def by blast

lemma awaits_clean: "awaits st k [] \<Longrightarrow> st = clean k"
  unfolding awaits_def by blast

lemma process_held:
  assumes "p \<noteq> []" and "extractCompleteSequences p = ([], p)" and "index_of p BRACKETED_PASTE_START = None"
  shows "\<exists>st. process_str (clean k) p = (st, []) \<and> awaits st k p"
proof -
  let ?st = "(clean k)\<lparr>sb_buffer := p, sb_timeout := True\<rparr>"
  have "process_str (clean k) p = (?st, [])" using assms by (simp add: process_clean)
  moreover have "process_str ?st s = process_str (clean k) (p @ s)" if "s \<noteq> []" for s
    using process_buffered [of ?st s] that by (simp add: new_stdin_buffer_def)
  ultimately show ?thesis using assms(1) by (auto simp: awaits_def)
qed

lemma process_key_part:
  assumes key: "valid_token (Key (p @ q))" and "p \<noteq> []" and "q \<noteq> []"
  shows "\<exists>st. process_str (clean k) p = (st, []) \<and> awaits st k p"
proof (rule process_held [OF assms(2)])
  from key have shape: "hd (p @ q) = ESC \<longrightarrow> seq_end (p @ q) 1 = Some (length (p @ q))"
    "hd (p @ q) \<noteq> ESC \<longrightarrow> length (p @ q) = 1"
    using key_shape [of "p @ q"] by auto
  with assms(2,3) have esc: "hd p = ESC" "seq_end (p @ q) 1 = Some (length (p @ q))" by (cases p; cases q; auto)+
  have "seq_end p 1 = None"
  proof (cases "seq_end p 1")
    case (Some m)
    from seq_end_append [OF Some, of q] esc(2) seq_end_bounds [OF Some] assms(3) show ?thesis by simp
  qed
  with esc(1) assms(2) show "extractCompleteSequences p = ([], p)"
    by (cases p) (simp_all add: extractCompleteSequences.simps)
  have "index_of (p @ q) BRACKETED_PASTE_START = None"
    using key_no_start [OF key, of "[]"] by (simp add: paste_start_units)
  then show "index_of p BRACKETED_PASTE_START = None"
    using index_of_append [of p BRACKETED_PASTE_START _ q] by (cases "index_of p BRACKETED_PASTE_START") (auto simp: paste_start_units)
qed

lemma process_start_part:
  assumes "prefix p BRACKETED_PASTE_START" and "p \<noteq> BRACKETED_PASTE_START" and "p \<noteq> []"
  shows "\<exists>st. process_str (clean k) p = (st, []) \<and> awaits st k p"
proof (rule process_held [OF assms(3)])
  have len: "length p < 6"
    using assms(1,2) prefix_length_less [of p BRACKETED_PASTE_START] by (simp add: strict_prefix_def)
  have "seq_end p 1 = None"
  proof (cases "seq_end p 1")
    case (Some m)
    with seq_end_bounds [OF Some] have "take m p \<noteq> []" "prefix (take m p) p" by (auto simp: take_is_prefix)
    moreover from this len have "take m p \<noteq> BRACKETED_PASTE_START" using prefix_length_le by fastforce
    ultimately have "isCompleteSequence (take m p) = Incomplete"
      using assms(1) start_incomplete prefix_order.trans by blast
    with seq_end_complete [OF Some] show ?thesis by simp
  qed
  with assms(1,3) show "extractCompleteSequences p = ([], p)"
    by (cases p) (auto simp: extractCompleteSequences.simps [of p] extractCompleteSequences.simps [of "ESC # _"] paste_start_units)
  show "index_of p BRACKETED_PASTE_START = None"
    using len index_of_SomeD [of p BRACKETED_PASTE_START] by (cases "index_of p BRACKETED_PASTE_START") auto
qed

lemma process_paste_part:
  assumes paste: "valid_token (Pasted t)" and "t @ BRACKETED_PASTE_END = q @ r" and "r \<noteq> []"
  shows "\<exists>st. process_str (clean k) (BRACKETED_PASTE_START @ q) = (st, []) \<and> awaits st k (BRACKETED_PASTE_START @ q)"
proof -
  have open_end: "index_of q BRACKETED_PASTE_END = None"
  proof (cases "index_of q BRACKETED_PASTE_END")
    case (Some i)
    then have "index_of (q @ r) BRACKETED_PASTE_END = Some i" by (rule index_of_append) (simp add: BRACKETED_PASTE_END_def)
    with paste assms(2) have "i = length t" by simp
    moreover from index_of_SomeD [OF Some] have "i + 6 \<le> length q" by simp
    moreover from assms(2) have "length t + 6 = length q + length r" by (metis length_append length_paste_markers(2))
    ultimately show ?thesis using assms(3) by (cases r) auto
  qed
  have start: "index_of (BRACKETED_PASTE_START @ x) BRACKETED_PASTE_START = Some 0" for x
    by (simp add: paste_start_units)
  have step: "process_str (clean k) (BRACKETED_PASTE_START @ x) = after_paste x" for x
    by (simp add: process_start [OF start] split: prod.split)
  from open_end have "after_paste q = (pasting q, [])" by (simp add: after_paste_def)
  with step have "process_str (clean k) (BRACKETED_PASTE_START @ q) = (pasting q, [])" by simp
  moreover have "process_str (pasting q) s = process_str (clean k) ((BRACKETED_PASTE_START @ q) @ s)" if "s \<noteq> []" for s
    using that step [of "q @ s"] by (simp add: process_pasting)
  ultimately show ?thesis by (auto simp: awaits_def paste_start_units)
qed

text \<open>A proper beginning of a token is held.\<close>

lemma process_token_part:
  assumes valid: "valid_token t" and txt_t: "token_text t = p @ q" and "p \<noteq> []" and "q \<noteq> []"
  shows "\<exists>st. process_str (clean k) p = (st, []) \<and> awaits st k p"
proof (cases t)
  case (Key s)
  with process_key_part [of p q k] assms show ?thesis by simp
next
  case (Pasted u)
  with txt_t have "prefix p (BRACKETED_PASTE_START @ u @ BRACKETED_PASTE_END)" by simp
  then consider "prefix p BRACKETED_PASTE_START" "p \<noteq> BRACKETED_PASTE_START" | y where "p = BRACKETED_PASTE_START @ y"
    by (metis append_Nil2 prefix_append)
  then show ?thesis
  proof cases
    case 1
    with process_start_part [of p k] assms(3) show ?thesis by simp
  next
    case (2 y)
    with txt_t Pasted have "u @ BRACKETED_PASTE_END = y @ q" by simp
    with process_paste_part [of u y q k] valid Pasted assms(4) 2 show ?thesis by simp
  qed
qed

definition token_stream :: "input_token list \<Rightarrow> jstr" where
  "token_stream ts = concat (map token_text ts)"

lemma process_token:
  assumes "valid_token t"
  shows "process_str (clean k) (token_text t @ x) =
    (let (k', es) = deliver_tokens k [t];
         (st, fs) = (if x = [] then (clean k', []) else process_str (clean k') x)
     in (st, es @ fs))"
  using assms process_key [of _ k x] process_pasted [of _ k x] by (cases t) (auto simp: Let_def split: prod.splits)

lemma deliver_tokens_append:
  "deliver_tokens k (us @ vs) =
    (let (k', es) = deliver_tokens k us; (q, fs) = deliver_tokens k' vs in (q, es @ fs))"
  by (induction k us rule: deliver_tokens.induct) (auto simp: Let_def split: prod.splits)

text \<open>\<open>p\<close> is a beginning of the first token, but not all of it.\<close>

definition begins :: "jstr \<Rightarrow> input_token list \<Rightarrow> bool" where
  "begins p ts \<longleftrightarrow> p = [] \<or> (\<exists>t us q. ts = t # us \<and> q \<noteq> [] \<and> token_text t = p @ q)"

definition processed_part :: "nat option \<Rightarrow> jstr \<Rightarrow> input_token list \<Rightarrow> input_token list \<Rightarrow> jstr \<Rightarrow> stdin_buffer \<Rightarrow> bool" where
  "processed_part k w us vs p st \<longleftrightarrow>
     w = token_stream us @ p \<and> begins p vs
   \<and> process_str (clean k) w = (st, snd (deliver_tokens k us)) \<and> awaits st (fst (deliver_tokens k us)) p"

lemma process_stream_part:
  assumes "list_all valid_token ts" and "w \<noteq> []" and "token_stream ts = w @ z"
  shows "\<exists>us vs p st. ts = us @ vs \<and> processed_part k w us vs p st"
  using assms
proof (induction ts arbitrary: w k)
  case Nil
  then show ?case by (simp add: token_stream_def)
next
  case (Cons t ts)
  then have valid: "valid_token t" "list_all valid_token ts" by simp_all
  from Cons.prems(3) have "token_text t @ token_stream ts = w @ z" by (simp add: token_stream_def)
  then obtain u where u: "token_text t = w @ u \<and> u @ token_stream ts = z \<or> token_text t @ u = w \<and> token_stream ts = u @ z"
    unfolding append_eq_append_conv2 by blast
  then consider q where "token_text t = w @ q" "q \<noteq> []" | x where "w = token_text t @ x" "token_stream ts = x @ z"
    by (cases "u = []") auto
  then show ?case
  proof cases
    case (1 q)
    from process_token_part [OF valid(1) 1(1) Cons.prems(2) 1(2), of k] obtain st
      where "process_str (clean k) w = (st, [])" "awaits st k w" by blast
    with 1 have "processed_part k w [] (t # ts) w st" by (simp add: processed_part_def begins_def token_stream_def)
    then show ?thesis by (metis append_Nil)
  next
    case (2 x)
    obtain k1 es where k1: "deliver_tokens k [t] = (k1, es)" by (cases "deliver_tokens k [t]")
    show ?thesis
    proof (cases "x = []")
      case True
      with process_token [OF valid(1), of k x] k1 2 awaits_nothing [of k1]
      have "processed_part k w [t] ts [] (clean k1)" by (simp add: processed_part_def begins_def token_stream_def)
      then show ?thesis by (metis append_Cons append_Nil)
    next
      case False
      from Cons.IH [OF valid(2) False 2(2), of k1] obtain us vs p st
        where part: "ts = us @ vs" "processed_part k1 x us vs p st" by blast
      with process_token [OF valid(1), of k x] False k1 2(1) deliver_tokens_append [of k "[t]" us]
      have "processed_part k w (t # us) vs p st"
        by (auto simp: processed_part_def token_stream_def Let_def simp del: deliver_tokens.simps(2,3) split: prod.splits)
      with part(1) show ?thesis by (metis append_Cons)
    qed
  qed
qed

lemma token_text_not_Nil: "valid_token t \<Longrightarrow> token_text t \<noteq> []"
  using key_shape by (cases t) (auto simp: paste_start_units)

lemma feed_stream:
  assumes "awaits st k p" and "list_all valid_token ts" and "[] \<notin> set chunks"
    and "p @ concat chunks = token_stream ts" and "begins p ts"
  shows "feed st chunks = (clean (fst (deliver_tokens k ts)), snd (deliver_tokens k ts))"
  using assms
proof (induction chunks arbitrary: st k p ts)
  case Nil
  have "ts = []"
  proof (cases ts)
    case (Cons t us)
    with Nil(2,4,5) token_text_not_Nil [of t] show ?thesis by (auto simp: token_stream_def begins_def)
  qed simp
  with Nil(4) have "p = []" by (simp add: token_stream_def)
  with Nil(1) awaits_clean have "st = clean k" by blast
  with \<open>ts = []\<close> show ?case by simp
next
  case (Cons c cs)
  from Cons.prems(3) have "c \<noteq> []" by auto
  with awaits_process [OF Cons.prems(1)] have c: "c \<noteq> []" "process_str st c = process_str (clean k) (p @ c)" by blast+
  have "p @ c \<noteq> []" "token_stream ts = (p @ c) @ concat cs" using c(1) Cons.prems(4) by simp_all
  from process_stream_part [OF Cons.prems(2) this, of k] obtain us vs p' st'
    where ts: "ts = us @ vs" and part: "processed_part k (p @ c) us vs p' st'" by blast
  from part have "p @ c = token_stream us @ p'" by (simp add: processed_part_def)
  moreover have "(p @ c) @ concat cs = token_stream us @ token_stream vs"
    using Cons.prems(4) ts by (simp add: token_stream_def)
  ultimately have "token_stream vs = p' @ concat cs" by simp
  moreover from part have "awaits st' (fst (deliver_tokens k us)) p'" "begins p' vs"
    by (simp_all add: processed_part_def)
  ultimately have "feed st' cs = (clean (fst (deliver_tokens (fst (deliver_tokens k us)) vs)),
      snd (deliver_tokens (fst (deliver_tokens k us)) vs))"
    using Cons.prems(2,3) ts by (intro Cons.IH) simp_all
  moreover from part have "process_str (clean k) (p @ c) = (st', snd (deliver_tokens k us))"
    unfolding processed_part_def by blast
  ultimately show ?case using c(2) ts by (simp add: deliver_tokens_append Let_def split: prod.split)
qed

text \<open>
  C37: Whatever the chunks in which the terminal's input arrives, keys and pasted texts arrive whole
  and in order: feeding the text of complete keys and pastes to a new buffer, cut into nonempty
  chunks at any places, emits exactly these keys and pastes (a single unit that repeats the code
  point reported just before it by the Kitty protocol is dropped) and leaves nothing buffered and no timer.
\<close>

theorem input_arrives_whole:
  assumes "list_all valid_token ts"
    and "concat chunks = token_stream ts"
    and "[] \<notin> set chunks"
  shows "feed new_stdin_buffer chunks =
    (clean (fst (deliver_tokens None ts)), snd (deliver_tokens None ts))"
proof -
  have "clean None = new_stdin_buffer" by (simp add: new_stdin_buffer_def)
  with feed_stream [OF awaits_nothing [of None] assms(1,3)] assms(2) show ?thesis by (simp add: begins_def)
qed

text \<open>An arrow key, a letter and a paste of two lines, cut inside the key and inside both markers.\<close>

definition sample_tokens :: "input_token list" where
  "sample_tokens = [Key [ESC, 0x5B, 0x41], Key [0x61], Pasted [0x62, LF, 0x63]]"

lemma sample_tokens_valid: "list_all valid_token sample_tokens"
  by (simp add: sample_tokens_def extractCompleteSequences.simps [of "_ # _"] extractCompleteSequences.simps [of "[]"]
    seq_end.simps isCompleteSequence_def isCompleteCsiSequence_def ESC_def Let_def word_le_nat_alt
    BRACKETED_PASTE_START_def BRACKETED_PASTE_END_def js_def js_char_def LF_def)

theorem input_arrives_whole_witness:
  "snd (feed new_stdin_buffer
     [[ESC], [0x5B, 0x41, 0x61, ESC], js ''[20'', js ''0~b'', LF # js ''c'' @ [ESC], js ''[201~''])
   = [Data [ESC, 0x5B, 0x41], Data [0x61], Paste [0x62, LF, 0x63]]"
proof -
  have "concat [[ESC], [0x5B, 0x41, 0x61, ESC], js ''[20'', js ''0~b'', LF # js ''c'' @ [ESC], js ''[201~'']
      = token_stream sample_tokens"
    by (simp add: token_stream_def sample_tokens_def BRACKETED_PASTE_START_def BRACKETED_PASTE_END_def js_def js_char_def)
  from input_arrives_whole [OF sample_tokens_valid this] show ?thesis
    by (simp add: sample_tokens_def Let_def parseUnmodifiedKittyPrintableCodepoint_def leading_digits_def
      is_digit_unit_def word_le_nat_alt ESC_def)
qed

text \<open>An escape pressed just before a paste is lost: what is left over before the start marker is dropped.\<close>

lemma escape_before_paste_lost:
  assumes "valid_token (Pasted t)"
  shows "snd (feed new_stdin_buffer [[ESC], BRACKETED_PASTE_START @ t @ BRACKETED_PASTE_END]) = [Paste t]"
proof -
  have clean: "clean None = new_stdin_buffer" by (simp add: new_stdin_buffer_def)
  obtain st where st: "process_str (clean None) [ESC] = (st, [])" "awaits st None [ESC]"
    using process_start_part [of "[ESC]" None] by (auto simp: paste_start_units)
  let ?p = "BRACKETED_PASTE_START @ t @ BRACKETED_PASTE_END"
  have start: "index_of (ESC # ?p) BRACKETED_PASTE_START = Some 1" by (simp add: paste_start_units ESC_def)
  have "process_str st ?p = process_str (clean None) (ESC # ?p)" using awaits_process [OF st(2), of ?p]
    by (simp add: BRACKETED_PASTE_START_def)
  moreover have "extractCompleteSequences [ESC] = ([], [ESC])"
    by (simp add: extractCompleteSequences.simps [of "[ESC]"] seq_end.simps isCompleteSequence_def)
  ultimately show ?thesis
    using assms st(1) process_start [OF start, of None] by (simp add: clean Let_def after_paste_def)
qed

end
