(* ===== verification/File_System.thy ===== *)
theory File_System
  imports Js_Strings
begin

text \<open>
  The file system that the harness works on: the interface \<^verbatim>\<open>FileSystem\<close> and \<^verbatim>\<open>FileError\<close> of
  \<^verbatim>\<open>packages/agent/src/harness/types.ts\<close>, and its implementation by Node in
  \<^verbatim>\<open>packages/agent/src/harness/env/nodejs.ts\<close>.

  Node's own calls (\<^verbatim>\<open>readFile\<close>, \<^verbatim>\<open>appendFile\<close>, \<^verbatim>\<open>mkdir\<close>, \<^verbatim>\<open>lstat\<close> and so on) work on a disk of files and directories
  without links. Any of them may also fail for a reason of its own, which the disk holds as the faults to come; a call
  that fails changes nothing. A text file is a list of lines of any type \<open>'l\<close>, each ended by a line feed. Paths are
  strings, and the functions of \<^verbatim>\<open>node:path\<close> are parameters. Calls without an abort signal are modelled, as the
  session code makes them; sizes and times of files are left out.
\<close>

section \<open>Errors and the interface\<close>

datatype file_error_code =
  FE_aborted | FE_not_found | FE_permission_denied | FE_not_directory | FE_is_directory | FE_invalid
  | FE_not_supported | FE_unknown

record file_error =
  fe_code :: file_error_code
  fe_message :: jstr
  fe_path :: "jstr option"

datatype file_kind = FileKind | DirectoryKind

record file_info =
  fi_name :: jstr
  fi_path :: jstr
  fi_kind :: file_kind

type_synonym ('f, 'a) file_op = "'f \<Rightarrow> (file_error + 'a) \<times> 'f"

record ('f, 'l) file_system =
  fs_absolutePath :: "jstr \<Rightarrow> file_error + jstr"
  fs_joinPath :: "jstr list \<Rightarrow> file_error + jstr"
  fs_readTextFile :: "jstr \<Rightarrow> ('f, 'l list) file_op"
  fs_readTextLines :: "jstr \<Rightarrow> nat option \<Rightarrow> ('f, 'l list) file_op"
  fs_writeFile :: "jstr \<Rightarrow> 'l list \<Rightarrow> ('f, unit) file_op"
  fs_appendFile :: "jstr \<Rightarrow> 'l \<Rightarrow> ('f, unit) file_op"
  fs_fileInfo :: "jstr \<Rightarrow> ('f, file_info) file_op"
  fs_listDir :: "jstr \<Rightarrow> ('f, file_info list) file_op"
  fs_exists :: "jstr \<Rightarrow> ('f, bool) file_op"
  fs_createDir :: "jstr \<Rightarrow> bool option \<Rightarrow> ('f, unit) file_op"
  fs_remove :: "jstr \<Rightarrow> bool option \<Rightarrow> bool option \<Rightarrow> ('f, unit) file_op"

text \<open>
  What the code that keeps its data in text files relies on: \<open>contents\<close> is what reading a file gives, and only writing to
  it changes it, by what was written, or not at all if the operation fails.
\<close>

locale text_files =
  fixes fs :: "('f, 'l) file_system" and contents :: "'f \<Rightarrow> jstr \<Rightarrow> 'l list option"
  assumes reads: "fs_readTextFile fs p f = (r, f') \<Longrightarrow>
      contents f' = contents f \<and> (case r of Inl e \<Rightarrow> True | Inr ls \<Rightarrow> contents f p = Some ls)"
    and reads_lines: "fs_readTextLines fs p (Some n) f = (r, f') \<Longrightarrow>
      contents f' = contents f
      \<and> (case r of Inl e \<Rightarrow> True | Inr ls \<Rightarrow> n = 0 \<and> ls = [] \<or> map_option (take n) (contents f p) = Some ls)"
    and writes: "fs_writeFile fs p ls f = (w, f') \<Longrightarrow>
      (case w of Inl e \<Rightarrow> contents f' = contents f | Inr u \<Rightarrow> contents f' p = Some ls)"
    and appends: "fs_appendFile fs p l f = (w, f') \<Longrightarrow>
      (case w of Inl e \<Rightarrow> contents f' = contents f
       | Inr u \<Rightarrow> contents f' p = Some (nullish (contents f p) [] @ [l]))"
begin

lemma append_twice:
  assumes "fs_appendFile fs p k f = (Inr u, f1)" and "fs_appendFile fs p l f1 = (Inr v, f2)"
    and "contents f p = Some ls"
  shows "contents f2 p = Some (ls @ [k, l])"
  using appends [OF assms(1)] appends [OF assms(2)] assms(3) by simp

end

section \<open>Node's file operations on a disk\<close>

datatype node_error_code = ABORT_ERR | ENOENT | EACCES | EPERM | ENOTDIR | EISDIR | EINVAL | EEXIST | OtherCode jstr | NoCode

record node_error =
  ne_code :: node_error_code
  ne_message :: jstr

datatype 'l disk_node = DiskFile "'l list" | DiskDir

record 'l file_disk =
  dk_nodes :: "(jstr \<times> 'l disk_node) list"
  dk_faults :: "nat \<Rightarrow> node_error option"
  dk_calls :: nat

text \<open>\<open>np_parent p\<close> is \<^verbatim>\<open>resolve(p, "..")\<close>; \<open>np_above p\<close> are the directories above \<open>p\<close>, from the root on.\<close>

record node_paths =
  np_isAbsolute :: "jstr \<Rightarrow> bool"
  np_resolve :: "jstr \<Rightarrow> jstr \<Rightarrow> jstr"
  np_join :: "jstr list \<Rightarrow> jstr"
  np_parent :: "jstr \<Rightarrow> jstr"
  np_above :: "jstr \<Rightarrow> jstr list"
  np_basename :: "jstr \<Rightarrow> jstr"

type_synonym ('l, 'a) disk_op = "'l file_disk \<Rightarrow> (node_error + 'a) \<times> 'l file_disk"

definition disk_call :: "('l, 'a) disk_op \<Rightarrow> ('l, 'a) disk_op" where
  "disk_call act d =
     (let d' = d\<lparr>dk_calls := Suc (dk_calls d)\<rparr> in
      case dk_faults d (dk_calls d) of Some e \<Rightarrow> (Inl e, d') | None \<Rightarrow> act d')"

definition disk_error :: "node_error_code \<Rightarrow> string \<Rightarrow> node_error + 'a" where
  "disk_error c m = Inl \<lparr>ne_code = c, ne_message = js m\<rparr>"

definition node_at :: "'l file_disk \<Rightarrow> jstr \<Rightarrow> 'l disk_node option" where
  "node_at d p = map_of (dk_nodes d) p"

definition set_node :: "jstr \<Rightarrow> 'l disk_node \<Rightarrow> 'l file_disk \<Rightarrow> 'l file_disk" where
  "set_node p n d = d\<lparr>dk_nodes := map_set p n (dk_nodes d)\<rparr>"

definition node_readFile :: "jstr \<Rightarrow> ('l, 'l list) disk_op" where
  "node_readFile p = disk_call (\<lambda>d.
     case node_at d p of
       None \<Rightarrow> (disk_error ENOENT ''ENOENT: no such file or directory'', d)
     | Some DiskDir \<Rightarrow> (disk_error EISDIR ''EISDIR: illegal operation on a directory'', d)
     | Some (DiskFile ls) \<Rightarrow> (Inr ls, d))"

text \<open>\<open>update\<close> makes the new lines of the file from the old ones.\<close>

definition node_update :: "node_paths \<Rightarrow> jstr \<Rightarrow> ('l list \<Rightarrow> 'l list) \<Rightarrow> ('l, unit) disk_op" where
  "node_update np p update = disk_call (\<lambda>d.
     case node_at d p of
       Some DiskDir \<Rightarrow> (disk_error EISDIR ''EISDIR: illegal operation on a directory'', d)
     | Some (DiskFile ls) \<Rightarrow> (Inr (), set_node p (DiskFile (update ls)) d)
     | None \<Rightarrow>
         (case node_at d (np_parent np p) of
            None \<Rightarrow> (disk_error ENOENT ''ENOENT: no such file or directory'', d)
          | Some (DiskFile ls) \<Rightarrow> (disk_error ENOTDIR ''ENOTDIR: not a directory'', d)
          | Some DiskDir \<Rightarrow> (Inr (), set_node p (DiskFile (update [])) d)))"

definition node_writeFile :: "node_paths \<Rightarrow> jstr \<Rightarrow> 'l list \<Rightarrow> ('l, unit) disk_op" where
  "node_writeFile np p ls = node_update np p (\<lambda>old. ls)"

definition node_appendFile :: "node_paths \<Rightarrow> jstr \<Rightarrow> 'l \<Rightarrow> ('l, unit) disk_op" where
  "node_appendFile np p l = node_update np p (\<lambda>old. old @ [l])"

definition is_disk_file :: "'l disk_node option \<Rightarrow> bool" where
  "is_disk_file n \<longleftrightarrow> (case n of Some (DiskFile ls) \<Rightarrow> True | _ \<Rightarrow> False)"

definition add_dir :: "jstr \<Rightarrow> 'l file_disk \<Rightarrow> 'l file_disk" where
  "add_dir p d = (if node_at d p = None then set_node p DiskDir d else d)"

definition node_mkdir :: "node_paths \<Rightarrow> jstr \<Rightarrow> bool \<Rightarrow> ('l, unit) disk_op" where
  "node_mkdir np p recursive = disk_call (\<lambda>d.
     if recursive
     then
       (if is_disk_file (node_at d p) then (disk_error EEXIST ''EEXIST: file already exists'', d)
        else if list_ex (\<lambda>q. is_disk_file (node_at d q)) (np_above np p)
        then (disk_error ENOTDIR ''ENOTDIR: not a directory'', d)
        else (Inr (), add_dir p (foldl (\<lambda>d q. add_dir q d) d (np_above np p))))
     else if node_at d p \<noteq> None then (disk_error EEXIST ''EEXIST: file already exists'', d)
     else
       (case node_at d (np_parent np p) of
          Some DiskDir \<Rightarrow> (Inr (), set_node p DiskDir d)
        | Some (DiskFile ls) \<Rightarrow> (disk_error ENOTDIR ''ENOTDIR: not a directory'', d)
        | None \<Rightarrow> (disk_error ENOENT ''ENOENT: no such file or directory'', d)))"

definition node_lstat :: "jstr \<Rightarrow> ('l, file_kind) disk_op" where
  "node_lstat p = disk_call (\<lambda>d.
     case node_at d p of
       None \<Rightarrow> (disk_error ENOENT ''ENOENT: no such file or directory'', d)
     | Some n \<Rightarrow> (Inr (if is_disk_file (Some n) then FileKind else DirectoryKind), d))"

definition children :: "node_paths \<Rightarrow> jstr \<Rightarrow> 'l file_disk \<Rightarrow> jstr list" where
  "children np p d = filter (\<lambda>q. q \<noteq> p \<and> np_parent np q = p) (map fst (dk_nodes d))"

definition node_readdir :: "node_paths \<Rightarrow> jstr \<Rightarrow> ('l, jstr list) disk_op" where
  "node_readdir np p = disk_call (\<lambda>d.
     case node_at d p of
       None \<Rightarrow> (disk_error ENOENT ''ENOENT: no such file or directory'', d)
     | Some (DiskFile ls) \<Rightarrow> (disk_error ENOTDIR ''ENOTDIR: not a directory'', d)
     | Some DiskDir \<Rightarrow> (Inr (map (np_basename np) (children np p d)), d))"

definition node_rm :: "node_paths \<Rightarrow> jstr \<Rightarrow> bool \<Rightarrow> bool \<Rightarrow> ('l, unit) disk_op" where
  "node_rm np p recursive force = disk_call (\<lambda>d.
     case node_at d p of
       None \<Rightarrow> (if force then Inr () else disk_error ENOENT ''ENOENT: no such file or directory'', d)
     | Some (DiskFile ls) \<Rightarrow> (Inr (), d\<lparr>dk_nodes := map_delete p (dk_nodes d)\<rparr>)
     | Some DiskDir \<Rightarrow>
         (if recursive
          then (Inr (), d\<lparr>dk_nodes := filter (\<lambda>(q, n). q \<noteq> p \<and> p \<notin> set (np_above np q)) (dk_nodes d)\<rparr>)
          else (disk_error EISDIR ''Path is a directory'', d)))"

section \<open>The environment of Node\<close>

record node_env =
  nv_cwd :: jstr
  nv_paths :: node_paths

definition resolvePath :: "node_env \<Rightarrow> jstr \<Rightarrow> jstr" where
  "resolvePath env p =
     (if np_isAbsolute (nv_paths env) p then p else np_resolve (nv_paths env) (nv_cwd env) p)"

definition toFileError :: "node_error \<Rightarrow> jstr option \<Rightarrow> file_error" where
  "toFileError e path =
     \<lparr>fe_code =
        (case ne_code e of
           ABORT_ERR \<Rightarrow> FE_aborted
         | ENOENT \<Rightarrow> FE_not_found
         | EACCES \<Rightarrow> FE_permission_denied
         | EPERM \<Rightarrow> FE_permission_denied
         | ENOTDIR \<Rightarrow> FE_not_directory
         | EISDIR \<Rightarrow> FE_is_directory
         | EINVAL \<Rightarrow> FE_invalid
         | _ \<Rightarrow> FE_unknown),
      fe_message = ne_message e, fe_path = path\<rparr>"

text \<open>\<^verbatim>\<open>try { return ok(await act) } catch (error) { return err(toFileError(error, p)) }\<close>\<close>

definition try_disk :: "jstr \<Rightarrow> ('l, 'a) disk_op \<Rightarrow> ('l file_disk, 'a) file_op" where
  "try_disk p act d = (case act d of (r, d') \<Rightarrow> (map_sum (\<lambda>e. toFileError e (Some p)) id r, d'))"

definition env_readTextFile :: "node_env \<Rightarrow> jstr \<Rightarrow> ('l file_disk, 'l list) file_op" where
  "env_readTextFile env p = (let resolved = resolvePath env p in try_disk resolved (node_readFile resolved))"

text \<open>The reader stops after \<open>maxLines\<close> lines.\<close>

definition env_readTextLines :: "node_env \<Rightarrow> jstr \<Rightarrow> nat option \<Rightarrow> ('l file_disk, 'l list) file_op" where
  "env_readTextLines env p maxLines d =
     (let resolved = resolvePath env p in
      if maxLines = Some 0 then (Inr [], d)
      else
        (case try_disk resolved (node_readFile resolved) d of
           (Inl e, d') \<Rightarrow> (Inl e, d')
         | (Inr ls, d') \<Rightarrow> (Inr (case maxLines of None \<Rightarrow> ls | Some n \<Rightarrow> take n ls), d')))"

text \<open>\<^verbatim>\<open>writeFile\<close> and \<^verbatim>\<open>appendFile\<close> make the directory first.\<close>

definition in_made_dir :: "node_env \<Rightarrow> jstr \<Rightarrow> ('l, unit) disk_op \<Rightarrow> ('l file_disk, unit) file_op" where
  "in_made_dir env resolved act =
     try_disk resolved (\<lambda>d.
       case node_mkdir (nv_paths env) (np_parent (nv_paths env) resolved) True d of
         (Inl e, d') \<Rightarrow> (Inl e, d')
       | (Inr u, d') \<Rightarrow> act d')"

definition env_writeFile :: "node_env \<Rightarrow> jstr \<Rightarrow> 'l list \<Rightarrow> ('l file_disk, unit) file_op" where
  "env_writeFile env p content =
     (let resolved = resolvePath env p in in_made_dir env resolved (node_writeFile (nv_paths env) resolved content))"

definition env_appendFile :: "node_env \<Rightarrow> jstr \<Rightarrow> 'l \<Rightarrow> ('l file_disk, unit) file_op" where
  "env_appendFile env p line =
     (let resolved = resolvePath env p in in_made_dir env resolved (node_appendFile (nv_paths env) resolved line))"

definition info_of :: "node_paths \<Rightarrow> jstr \<Rightarrow> file_kind \<Rightarrow> file_info" where
  "info_of np p k = \<lparr>fi_name = np_basename np p, fi_path = p, fi_kind = k\<rparr>"

definition env_fileInfo :: "node_env \<Rightarrow> jstr \<Rightarrow> ('l file_disk, file_info) file_op" where
  "env_fileInfo env p d =
     (let resolved = resolvePath env p in
      case try_disk resolved (node_lstat resolved) d of
        (Inl e, d') \<Rightarrow> (Inl e, d')
      | (Inr k, d') \<Rightarrow> (Inr (info_of (nv_paths env) resolved k), d'))"

fun list_infos :: "node_env \<Rightarrow> jstr list \<Rightarrow> ('l file_disk, file_info list) file_op" where
  "list_infos env [] d = (Inr [], d)"
| "list_infos env (p # ps) d =
     (case try_disk p (node_lstat p) d of
        (Inl e, d1) \<Rightarrow> (Inl e, d1)
      | (Inr k, d1) \<Rightarrow>
          (case list_infos env ps d1 of
             (Inl e, d2) \<Rightarrow> (Inl e, d2)
           | (Inr is, d2) \<Rightarrow> (Inr (info_of (nv_paths env) p k # is), d2)))"

definition env_listDir :: "node_env \<Rightarrow> jstr \<Rightarrow> ('l file_disk, file_info list) file_op" where
  "env_listDir env p d =
     (let resolved = resolvePath env p in
      case try_disk resolved (node_readdir (nv_paths env) resolved) d of
        (Inl e, d1) \<Rightarrow> (Inl e, d1)
      | (Inr names, d1) \<Rightarrow> list_infos env (map (np_resolve (nv_paths env) resolved) names) d1)"

definition env_exists :: "node_env \<Rightarrow> jstr \<Rightarrow> ('l file_disk, bool) file_op" where
  "env_exists env p d =
     (case env_fileInfo env p d of
        (Inr i, d') \<Rightarrow> (Inr True, d')
      | (Inl e, d') \<Rightarrow> (if fe_code e = FE_not_found then Inr False else Inl e, d'))"

definition env_createDir :: "node_env \<Rightarrow> jstr \<Rightarrow> bool option \<Rightarrow> ('l file_disk, unit) file_op" where
  "env_createDir env p recursive =
     (let resolved = resolvePath env p in
      try_disk resolved (node_mkdir (nv_paths env) resolved (nullish recursive True)))"

definition env_remove :: "node_env \<Rightarrow> jstr \<Rightarrow> bool option \<Rightarrow> bool option \<Rightarrow> ('l file_disk, unit) file_op" where
  "env_remove env p recursive force =
     (let resolved = resolvePath env p in
      try_disk resolved (node_rm (nv_paths env) resolved (nullish recursive False) (nullish force False)))"

definition node_file_system :: "node_env \<Rightarrow> ('l file_disk, 'l) file_system" where
  "node_file_system env =
     \<lparr>fs_absolutePath = \<lambda>p. Inr (resolvePath env p), fs_joinPath = \<lambda>ps. Inr (np_join (nv_paths env) ps),
      fs_readTextFile = env_readTextFile env, fs_readTextLines = env_readTextLines env,
      fs_writeFile = env_writeFile env, fs_appendFile = env_appendFile env, fs_fileInfo = env_fileInfo env,
      fs_listDir = env_listDir env, fs_exists = env_exists env, fs_createDir = env_createDir env,
      fs_remove = env_remove env\<rparr>"

section \<open>The environment keeps text files\<close>

lemma map_sum_Inr_iff [simp]: "map_sum f id r = Inr x \<longleftrightarrow> r = Inr x"
  by (cases r) simp_all

text \<open>The lines of the file at a path.\<close>

definition lines_at :: "'l file_disk \<Rightarrow> jstr \<Rightarrow> 'l list option" where
  "lines_at d p = (case node_at d p of Some (DiskFile ls) \<Rightarrow> Some ls | _ \<Rightarrow> None)"

definition disk_contents :: "node_env \<Rightarrow> 'l file_disk \<Rightarrow> jstr \<Rightarrow> 'l list option" where
  "disk_contents env d p = lines_at d (resolvePath env p)"

lemma node_at_simps [simp]:
  "node_at (d\<lparr>dk_calls := n\<rparr>) p = node_at d p"
  "node_at (set_node p x d) q = (if q = p then Some x else node_at d q)"
  by (simp_all add: node_at_def set_node_def map_of_map_set)

lemma lines_at_calls [simp]: "lines_at (d\<lparr>dk_calls := n\<rparr>) = lines_at d"
  by (simp add: lines_at_def fun_eq_iff)

lemma is_disk_file_simps [simp]:
  "\<not> is_disk_file None" "\<not> is_disk_file (Some DiskDir)" "is_disk_file (Some (DiskFile ls))"
  by (simp_all add: is_disk_file_def)

lemma lines_at_add_dir [simp]: "lines_at (add_dir p d) = lines_at d"
  by (auto simp: lines_at_def add_dir_def fun_eq_iff)

lemma lines_at_add_dirs [simp]: "lines_at (foldl (\<lambda>d q. add_dir q d) d ps) = lines_at d"
  by (induction ps arbitrary: d) simp_all

lemma node_mkdir_lines: "node_mkdir np p True d = (r, d') \<Longrightarrow> lines_at d' = lines_at d"
  by (auto simp: node_mkdir_def disk_call_def Let_def split: option.splits if_splits)

lemma node_readFile_lines:
  "node_readFile p d = (r, d') \<Longrightarrow> lines_at d' = lines_at d \<and> (\<forall>ls. r = Inr ls \<longrightarrow> lines_at d p = Some ls)"
  by (auto simp: node_readFile_def disk_call_def disk_error_def lines_at_def Let_def fun_eq_iff
    split: option.splits disk_node.splits)

lemma node_update_lines:
  "node_update np p upd d = (r, d') \<Longrightarrow>
    (case r of Inl e \<Rightarrow> lines_at d' = lines_at d | Inr u \<Rightarrow> lines_at d' p = Some (upd (nullish (lines_at d p) [])))"
  by (auto simp: node_update_def disk_call_def disk_error_def lines_at_def Let_def fun_eq_iff
    split: option.splits disk_node.splits)

lemma in_made_dir_lines:
  assumes "in_made_dir env resolved (node_update (nv_paths env) resolved upd) d = (r, d')"
  shows "case r of Inl e \<Rightarrow> lines_at d' = lines_at d
    | Inr u \<Rightarrow> lines_at d' resolved = Some (upd (nullish (lines_at d resolved) []))"
proof -
  let ?mk = "node_mkdir (nv_paths env) (np_parent (nv_paths env) resolved) True d"
  obtain r1 d1 where mk: "?mk = (r1, d1)" by fastforce
  obtain r2 d2 where up: "node_update (nv_paths env) resolved upd d1 = (r2, d2)" by fastforce
  from node_mkdir_lines [OF mk] node_update_lines [OF up] assms mk up show ?thesis
    by (auto simp: in_made_dir_def try_disk_def split: sum.splits)
qed

interpretation node_files: text_files "node_file_system env" "disk_contents env" for env
proof (unfold_locales, goal_cases)
  case (1 p f r f')
  then show ?case
    using node_readFile_lines [of "resolvePath env p" f _ f']
    by (auto simp: node_file_system_def env_readTextFile_def try_disk_def Let_def disk_contents_def fun_eq_iff
      split: prod.splits sum.splits)
next
  case (2 p n f r f')
  then show ?case
    using node_readFile_lines [of "resolvePath env p" f _ f']
    by (auto simp: node_file_system_def env_readTextLines_def try_disk_def Let_def disk_contents_def fun_eq_iff
      split: prod.splits sum.splits if_splits)
next
  case (3 p ls f r f')
  then show ?case
    using in_made_dir_lines [of env "resolvePath env p" "\<lambda>old. ls" f r f']
    by (auto simp: node_file_system_def env_writeFile_def node_writeFile_def Let_def disk_contents_def fun_eq_iff split: sum.splits)
next
  case (4 p l f r f')
  then show ?case
    using in_made_dir_lines [of env "resolvePath env p" "\<lambda>old. old @ [l]" f r f']
    by (auto simp: node_file_system_def env_appendFile_def node_appendFile_def Let_def disk_contents_def fun_eq_iff
      split: sum.splits)
qed

end
