(* ===== verification/Session_Entries.thy ===== *)
theory Session_Entries
  imports Messages Js_Strings "HOL-Library.Sublist"
begin

text \<open>
  Session entries, the tree they form through their parent ids, and the messages that a path of entries stands
  for: the entry types of \<^verbatim>\<open>packages/agent/src/harness/types.ts\<close> (which
  \<^verbatim>\<open>coding-agent/src/core/session-manager.ts\<close> repeats), entry ids, walking from an entry
  to the root, and \<^verbatim>\<open>buildSessionContext\<close> of \<^verbatim>\<open>harness/session/session.ts\<close>.

  A timestamp is the ISO text that the code stores; turning it into a number is a parameter of the host.
\<close>

section \<open>Entries\<close>

record compaction_data =
  cd_summary :: jstr
  cd_firstKeptEntryId :: jstr
  cd_tokensBefore :: int
  cd_details :: "json option"
  cd_fromHook :: "bool option"
  cd_firstKeptEntryIndex :: "nat option"

text \<open>
  \<open>cd_firstKeptEntryIndex\<close> is the field that compaction entries of version 1 have instead of
  the id.
\<close>

datatype entry_kind =
    MessageEntry agent_message
  | ThinkingLevelChangeEntry jstr
  | ModelChangeEntry jstr jstr
  | CompactionEntry compaction_data
  | BranchSummaryEntry jstr jstr "json option" "bool option"
  | CustomEntry jstr "json option"
  | CustomMessageEntry jstr message_content "json option" bool
  | LabelEntry jstr "jstr option"
  | SessionInfoEntry "jstr option"
  | LeafEntry "jstr option"

record entry =
  en_id :: jstr
  en_parentId :: "jstr option"
  en_timestamp :: jstr
  en_kind :: entry_kind

record model_ref =
  mr_provider :: jstr
  mr_modelId :: jstr

record session_context =
  sc_messages :: "agent_message list"
  sc_thinkingLevel :: jstr
  sc_model :: "model_ref option"

definition is_label :: "entry \<Rightarrow> bool" where
  "is_label e = (case en_kind e of LabelEntry t l \<Rightarrow> True | _ \<Rightarrow> False)"

section \<open>Entry ids\<close>

text \<open>
  \<^verbatim>\<open>generateEntryId\<close> and \<^verbatim>\<open>generateId\<close>: up to 100 times the first eight characters of a
  fresh UUID, then a whole one. The UUIDs are a source \<open>src\<close>, the \<open>k\<close>-th of which comes next; the
  result has the index of the one after.
\<close>

fun try_ids :: "nat \<Rightarrow> (jstr \<Rightarrow> bool) \<Rightarrow> (nat \<Rightarrow> jstr) \<Rightarrow> nat \<Rightarrow> jstr \<times> nat" where
  "try_ids 0 has src k = (src k, Suc k)"
| "try_ids (Suc n) has src k =
     (let i = take 8 (src k) in if \<not> has i then (i, Suc k) else try_ids n has src (Suc k))"

definition generate_id :: "(jstr \<Rightarrow> bool) \<Rightarrow> (nat \<Rightarrow> jstr) \<Rightarrow> nat \<Rightarrow> jstr \<times> nat" where
  "generate_id has src k = try_ids 100 has src k"

text \<open>
  What is asked of the host: the next \<open>n\<close> UUIDs have 36 characters, are distinct, and are none of the ids
  \<open>I\<close> in use.
\<close>

definition uuid_supply :: "(nat \<Rightarrow> jstr) \<Rightarrow> nat \<Rightarrow> nat \<Rightarrow> jstr set \<Rightarrow> bool" where
  "uuid_supply src k n I \<longleftrightarrow>
     inj_on src {k..<k + n} \<and> (\<forall>j\<in>{k..<k + n}. length (src j) = 36 \<and> src j \<notin> I)"

lemma uuid_supply_less: "uuid_supply src k n I \<Longrightarrow> k \<le> k' \<Longrightarrow> k' + n' \<le> k + n \<Longrightarrow> uuid_supply src k' n' I"
  unfolding uuid_supply_def by (auto intro: inj_on_subset)

lemma uuid_supply_take:
  assumes "uuid_supply src k (Suc n) I"
  shows "src k \<notin> I" and "uuid_supply src (Suc k) n (insert (src k) I)"
  using assms unfolding uuid_supply_def
  by (auto intro: inj_on_subset) (metis atLeastLessThan_iff inj_on_def le_add1 le_refl not_less_eq_eq
    Suc_leD add_Suc_right less_Suc_eq_le)

lemma uuid_supply_short:
  "uuid_supply src k n I \<Longrightarrow> length i \<noteq> 36 \<Longrightarrow> uuid_supply src k n (insert i I)"
  by (auto simp: uuid_supply_def)

lemma try_ids_fresh:
  assumes "uuid_supply src k (Suc n + m) I" and "\<And>i. has i \<longleftrightarrow> i \<in> I"
    and "try_ids n has src k = (i, k')"
  shows "i \<notin> I \<and> i \<noteq> [] \<and> uuid_supply src k' m (insert i I)"
  using assms(1,3)
proof (induction n arbitrary: k)
  case 0
  then have "i = src k" "k' = Suc k" by auto
  moreover from "0.prems"(1) have "length (src k) = 36" by (simp add: uuid_supply_def)
  ultimately show ?case using uuid_supply_take [of src k m I] "0.prems"(1) by fastforce
next
  case (Suc n)
  from Suc.prems(1) have next_ids: "uuid_supply src (Suc k) (Suc n + m) I"
    by (rule uuid_supply_less) auto
  show ?case
  proof (cases "has (take 8 (src k))")
    case True
    with Suc.prems(2) have "try_ids n has src (Suc k) = (i, k')" by (simp add: Let_def)
    from Suc.IH [OF next_ids this] show ?thesis .
  next
    case False
    with Suc.prems(2) have i: "i = take 8 (src k)" "k' = Suc k" by (auto simp: Let_def)
    have len: "length i = 8" using Suc.prems(1) by (simp add: i uuid_supply_def)
    have "uuid_supply src (Suc k) m I" using next_ids by (rule uuid_supply_less) auto
    with len have "uuid_supply src k' m (insert i I)" unfolding i(2) by (intro uuid_supply_short) auto
    moreover have "i \<notin> I" using False i by (simp add: assms(2))
    ultimately show ?thesis using len by auto
  qed
qed

text \<open>So an id is fresh, given 101 UUIDs, and what is left of the supply still is one.\<close>

lemma generate_id_fresh:
  assumes "uuid_supply src k (101 + m) I" and "\<And>i. has i \<longleftrightarrow> i \<in> I"
    and "generate_id has src k = (i, k')"
  shows "i \<notin> I \<and> i \<noteq> [] \<and> uuid_supply src k' m (insert i I)"
  using try_ids_fresh [of src k 100 m I has i k'] assms by (simp add: generate_id_def)

text \<open>A source of 65536 UUIDs, for examples.\<close>

definition counting_uuid :: "nat \<Rightarrow> jstr" where
  "counting_uuid k = replicate 36 (of_nat k)"

lemma counting_uuid_supply:
  assumes "k + n \<le> 65536" and "\<forall>i\<in>I. length i < 36"
  shows "uuid_supply counting_uuid k n I"
proof -
  have "inj_on counting_uuid {k..<k + n}"
  proof (rule inj_onI)
    fix x y assume "x \<in> {k..<k + n}" "y \<in> {k..<k + n}" "counting_uuid x = counting_uuid y"
    then have "x < 65536" "y < 65536" and eq: "(of_nat x :: code_unit) = of_nat y"
      using assms(1) by (auto simp: counting_uuid_def)
    have unat: "unat (of_nat z :: code_unit) = z" if "z < 65536" for z
      using that by (simp add: unat_of_nat)
    from eq have "unat (of_nat x :: code_unit) = unat (of_nat y :: code_unit)" by simp
    with unat [OF \<open>x < 65536\<close>] unat [OF \<open>y < 65536\<close>] show "x = y" by linarith
  qed
  moreover have "counting_uuid j \<notin> I" for j using assms(2) by (auto simp: counting_uuid_def)
  ultimately show ?thesis by (auto simp: uuid_supply_def counting_uuid_def)
qed

section \<open>Paths to the root\<close>

text \<open>
  The walk from an entry to the root that \<^verbatim>\<open>getBranch\<close> and \<^verbatim>\<open>buildSessionContext\<close> of the
  session manager make: an unknown parent ends it, as does an empty parent id. The fuel counts entries;
  \<open>None\<close> stands for a loop that does not end, since a walk longer than the number of entries visits one twice.
\<close>

fun walk :: "nat \<Rightarrow> (jstr \<rightharpoonup> entry) \<Rightarrow> entry option \<Rightarrow> entry list \<Rightarrow> entry list option" where
  "walk n byId None path = Some path"
| "walk 0 byId (Some e) path = None"
| "walk (Suc n) byId (Some e) path =
     walk n byId (if truthy_str (en_parentId e) then byId (the (en_parentId e)) else None) (e # path)"

text \<open>A well-formed list of entries: ids are distinct, and a parent comes before its children.\<close>

definition parent_before :: "entry list \<Rightarrow> bool" where
  "parent_before es \<longleftrightarrow>
     (\<forall>i<length es. \<forall>p. en_parentId (es ! i) = Some p \<longrightarrow> p \<in> en_id ` set (take i es))"

definition tree_ok :: "entry list \<Rightarrow> bool" where
  "tree_ok es \<longleftrightarrow> distinct (map en_id es) \<and> parent_before es \<and> [] \<notin> en_id ` set es"

lemma tree_ok_Nil [simp]: "tree_ok []"
  by (simp add: tree_ok_def parent_before_def)

lemma parent_before_snoc:
  "parent_before (es @ [e]) \<longleftrightarrow>
     parent_before es \<and> (\<forall>p. en_parentId e = Some p \<longrightarrow> p \<in> en_id ` set es)"
  unfolding parent_before_def
  by (auto simp: less_Suc_eq nth_append)

lemma tree_ok_snoc:
  "tree_ok (es @ [e]) \<longleftrightarrow>
     tree_ok es \<and> en_id e \<notin> en_id ` set es \<and> en_id e \<noteq> []
   \<and> (\<forall>p. en_parentId e = Some p \<longrightarrow> p \<in> en_id ` set es)"
  by (auto simp: tree_ok_def parent_before_snoc)

text \<open>\<open>is_path es p\<close>: the list \<open>p\<close> runs from a root of \<open>es\<close> to its last entry, parent by parent.\<close>

definition is_path :: "entry list \<Rightarrow> entry list \<Rightarrow> bool" where
  "is_path es p \<longleftrightarrow> set p \<subseteq> set es
     \<and> (p \<noteq> [] \<longrightarrow> en_parentId (hd p) = None)
     \<and> (\<forall>i. Suc i < length p \<longrightarrow> en_parentId (p ! Suc i) = Some (en_id (p ! i)))"

lemma is_path_Nil [simp]: "is_path es []"
  by (simp add: is_path_def)

lemma is_path_snoc:
  "is_path es (p @ [e]) \<longleftrightarrow>
     is_path es p \<and> e \<in> set es \<and> en_parentId e = (if p = [] then None else Some (en_id (last p)))"
proof (cases p rule: rev_cases)
  case Nil
  then show ?thesis by (auto simp: is_path_def)
next
  case (snoc q f)
  then show ?thesis
    by (auto simp: is_path_def nth_append less_Suc_eq hd_append split: if_splits)
qed

lemma is_path_single [simp]: "is_path es [e] \<longleftrightarrow> e \<in> set es \<and> en_parentId e = None"
  using is_path_snoc [of es "[]" e] by simp

lemma is_path_snoc2 [simp]:
  "is_path es (p @ [f, e]) \<longleftrightarrow> is_path es (p @ [f]) \<and> e \<in> set es \<and> en_parentId e = Some (en_id f)"
  using is_path_snoc [of es "p @ [f]" e] by simp

lemma is_path_prefix: "is_path es (p @ q) \<Longrightarrow> is_path es p"
proof (induction q rule: rev_induct)
  case (snoc e q)
  then have "is_path es ((p @ q) @ [e])" by simp
  with snoc.IH show ?case unfolding is_path_snoc by blast
qed simp

lemma is_path_mono: "is_path es p \<Longrightarrow> set es \<subseteq> set es' \<Longrightarrow> is_path es' p"
  by (auto simp: is_path_def)

text \<open>In a well-formed list there is exactly one path to each entry, and the walk finds it.\<close>

lemma index_by_tree:
  "tree_ok es \<Longrightarrow> e \<in> set es \<Longrightarrow> index_by en_id es (en_id e) = Some e"
  by (simp add: tree_ok_def index_by_distinct)

lemma tree_ok_parent:
  assumes "tree_ok es" and "e \<in> set es" and "en_parentId e = Some p"
  obtains f where "f \<in> set es" and "index_by en_id es p = Some f" and "p = en_id f" and "p \<noteq> []"
proof -
  from assms(2) obtain i where "i < length es" "e = es ! i" by (auto simp: in_set_conv_nth)
  with assms(1,3) have "p \<in> en_id ` set (take i es)" by (auto simp: tree_ok_def parent_before_def)
  then obtain f where "f \<in> set es" "p = en_id f" by (auto dest: in_set_takeD)
  with assms(1) that [of f] index_by_tree [of es f] show thesis by (auto simp: tree_ok_def image_iff)
qed

lemma walk_path:
  assumes "tree_ok es" and "index_by en_id es = byId"
  shows "e \<in> set (take m es) \<Longrightarrow> m \<le> length es \<Longrightarrow> m \<le> n \<Longrightarrow>
    \<exists>p. walk n byId (Some e) acc = Some (p @ e # acc) \<and> is_path es (p @ [e]) \<and> length p < m"
proof (induction m arbitrary: e n acc rule: less_induct)
  case (less m)
  then obtain i where i: "i < m" "i < length es" "e = es ! i" by (auto simp: in_set_conv_nth)
  with less.prems(3) obtain k where k: "n = Suc k" by (cases n) auto
  have e: "e \<in> set es" using i by simp
  show ?case
  proof (cases "en_parentId e")
    case None
    with k e i show ?thesis by (intro exI [of _ "[]"]) (simp add: is_path_def)
  next
    case (Some q)
    with assms(1) i have "q \<in> en_id ` set (take i es)" by (simp add: tree_ok_def parent_before_def)
    then obtain f where f: "f \<in> set (take i es)" "q = en_id f" by blast
    then have "f \<in> set es" by (meson in_set_takeD)
    then have "byId q = Some f" using assms(2) f(2) index_by_tree [OF assms(1)] by auto
    moreover have "q \<noteq> []"
      using assms(1) f(2) \<open>f \<in> set es\<close> unfolding tree_ok_def by (metis image_eqI)
    ultimately have byId: "byId q = Some f" "q \<noteq> []" by blast+
    from byId Some k have step: "walk n byId (Some e) acc = walk k byId (Some f) (e # acc)" by simp
    from less.IH [OF i(1) f(1), of k "e # acc"] i less.prems(2,3) k obtain p where
      p: "walk k byId (Some f) (e # acc) = Some (p @ f # e # acc)" "is_path es (p @ [f])" "length p < i"
      by auto
    with step e Some f(2) i(1) show ?thesis
      by (intro exI [of _ "p @ [f]"]) (auto simp: is_path_snoc [of _ "p @ [f]"])
  qed
qed

lemma is_path_unique:
  assumes "tree_ok es"
  shows "is_path es p \<Longrightarrow> is_path es q \<Longrightarrow> p \<noteq> [] \<Longrightarrow> q \<noteq> [] \<Longrightarrow> last p = last q \<Longrightarrow> p = q"
proof (induction p arbitrary: q rule: rev_induct)
  case Nil
  then show ?case by simp
next
  case (snoc e p)
  from snoc.prems(4,5) obtain q' where q: "q = q' @ [e]" by (cases q rule: rev_cases) auto
  show ?case
  proof (cases p rule: rev_cases)
    case Nil
    with snoc.prems q show ?thesis by (cases q' rule: rev_cases) (auto simp: is_path_snoc)
  next
    case (snoc p0 f)
    with snoc.prems(1) have "en_parentId e = Some (en_id f)" by (simp add: is_path_snoc)
    with snoc.prems(2) q obtain q0 g where g: "q' = q0 @ [g]" "en_id g = en_id f"
      by (cases q' rule: rev_cases) (auto simp: is_path_snoc)
    from snoc.prems(1,2) q g snoc have "g \<in> set es" "f \<in> set es" by (auto simp: is_path_def)
    with g(2) assms have "g = f" by (metis index_by_tree option.inject)
    with snoc.IH [of q'] snoc.prems(1,2) q g snoc show ?thesis by (auto simp: is_path_snoc)
  qed
qed

end
