(* ===== verification/Session_Context.thy ===== *)
theory Session_Context
  imports Session_Entries
begin

text \<open>
  The context that a path of session entries stands for: \<^verbatim>\<open>buildSessionContext\<close> of
  \<^verbatim>\<open>packages/agent/src/harness/session/session.ts\<close>. The last compaction entry on the path
  replaces what comes before the first entry it kept by its summary.
\<close>

record path_settings =
  pt_thinkingLevel :: jstr
  pt_model :: "model_ref option"
  pt_compaction :: "(entry \<times> compaction_data) option"

definition initial_settings :: path_settings where
  "initial_settings = \<lparr>pt_thinkingLevel = js ''off'', pt_model = None, pt_compaction = None\<rparr>"

definition scan_entry :: "path_settings \<Rightarrow> entry \<Rightarrow> path_settings" where
  "scan_entry s e =
     (case en_kind e of
        ThinkingLevelChangeEntry l \<Rightarrow> s\<lparr>pt_thinkingLevel := l\<rparr>
      | ModelChangeEntry p m \<Rightarrow> s\<lparr>pt_model := Some \<lparr>mr_provider = p, mr_modelId = m\<rparr>\<rparr>
      | MessageEntry m \<Rightarrow>
          (case m of
             Llm (AssistantM a) \<Rightarrow>
               s\<lparr>pt_model := Some \<lparr>mr_provider = am_provider a, mr_modelId = am_model a\<rparr>\<rparr>
           | _ \<Rightarrow> s)
      | CompactionEntry d \<Rightarrow> s\<lparr>pt_compaction := Some (e, d)\<rparr>
      | _ \<Rightarrow> s)"

definition scan_path :: "entry list \<Rightarrow> path_settings" where
  "scan_path path = foldl scan_entry initial_settings path"

text \<open>The messages of one entry: none or one.\<close>

definition append_message :: "(jstr \<Rightarrow> jtime) \<Rightarrow> entry \<Rightarrow> agent_message list" where
  "append_message get_time e =
     (case en_kind e of
        MessageEntry m \<Rightarrow> [m]
      | CustomMessageEntry t c d display \<Rightarrow>
          [CustomMsg (createCustomMessage get_time t c display d (en_timestamp e))]
      | BranchSummaryEntry from_id summary d h \<Rightarrow>
          (if summary \<noteq> [] then [BranchSummary (createBranchSummaryMessage get_time summary from_id (en_timestamp e))]
           else [])
      | _ \<Rightarrow> [])"

definition is_compaction :: "entry \<Rightarrow> bool" where
  "is_compaction e = (case en_kind e of CompactionEntry d \<Rightarrow> True | _ \<Rightarrow> False)"

text \<open>The loop over the entries before the compaction, with \<^verbatim>\<open>foundFirstKept\<close>.\<close>

fun kept_messages :: "(jstr \<Rightarrow> jtime) \<Rightarrow> jstr \<Rightarrow> bool \<Rightarrow> entry list \<Rightarrow> agent_message list" where
  "kept_messages get_time firstKept found [] = []"
| "kept_messages get_time firstKept found (e # es) =
     (let found' = (found \<or> en_id e = firstKept) in
      (if found' then append_message get_time e else []) @ kept_messages get_time firstKept found' es)"

definition path_messages :: "(jstr \<Rightarrow> jtime) \<Rightarrow> entry list \<Rightarrow> agent_message list" where
  "path_messages get_time path =
     (case pt_compaction (scan_path path) of
        Some (c, d) \<Rightarrow>
          (let idx = (case find_index (\<lambda>e. is_compaction e \<and> en_id e = en_id c) path of
                        None \<Rightarrow> length path | Some i \<Rightarrow> i) in
           CompactionSummary (createCompactionSummaryMessage get_time (cd_summary d) (cd_tokensBefore d) (en_timestamp c))
           # kept_messages get_time (cd_firstKeptEntryId d) False (take idx path)
           @ concat (map (append_message get_time) (drop (idx + 1) path)))
      | None \<Rightarrow> concat (map (append_message get_time) path))"

definition buildSessionContext :: "(jstr \<Rightarrow> jtime) \<Rightarrow> entry list \<Rightarrow> session_context" where
  "buildSessionContext get_time path =
     \<lparr>sc_messages = path_messages get_time path,
      sc_thinkingLevel = pt_thinkingLevel (scan_path path), sc_model = pt_model (scan_path path)\<rparr>"

section \<open>The context of a path\<close>

lemma kept_messages_dropWhile:
  "kept_messages t k found es =
     concat (map (append_message t) (if found then es else dropWhile (\<lambda>e. en_id e \<noteq> k) es))"
  by (induction es arbitrary: found) (auto simp: Let_def)

lemma scan_path_snoc: "scan_path (p @ [e]) = scan_entry (scan_path p) e"
  by (simp add: scan_path_def)

lemma scan_entry_compaction:
  "pt_compaction (scan_entry s e) =
     (case en_kind e of CompactionEntry d \<Rightarrow> Some (e, d) | _ \<Rightarrow> pt_compaction s)"
  by (auto simp: scan_entry_def split: entry_kind.splits agent_message.splits message.splits)

lemma scan_path_compaction_in:
  "pt_compaction (scan_path p) = Some (c, d) \<Longrightarrow> c \<in> set p \<and> en_kind c = CompactionEntry d"
proof (induction p rule: rev_induct)
  case Nil
  then show ?case by (simp add: scan_path_def initial_settings_def)
next
  case (snoc e p)
  then show ?case by (auto simp: scan_path_snoc scan_entry_compaction split: entry_kind.splits)
qed

lemma scan_path_no_compaction:
  "\<forall>e\<in>set post. \<not> is_compaction e \<Longrightarrow> pt_compaction (scan_path (pre @ post)) = pt_compaction (scan_path pre)"
proof (induction post rule: rev_induct)
  case Nil
  show ?case by simp
next
  case (snoc e post)
  then have "pt_compaction (scan_path ((pre @ post) @ [e])) = pt_compaction (scan_path (pre @ post))"
    unfolding scan_path_snoc scan_entry_compaction
    by (auto simp: is_compaction_def split: entry_kind.splits)
  with snoc show ?case by simp
qed

lemma find_compaction:
  assumes "distinct (map en_id (pre @ c # post))" and "is_compaction c"
  shows "find_index (\<lambda>e. is_compaction e \<and> en_id e = en_id c) (pre @ c # post) = Some (length pre)"
proof -
  have "\<forall>e\<in>set pre. en_id e \<noteq> en_id c" using assms(1) by (auto simp: image_iff)
  then have "find_index (\<lambda>e. is_compaction e \<and> en_id e = en_id c) pre = None"
    by (auto simp: find_index_None_iff)
  with assms(2) show ?thesis by (simp add: find_index_append)
qed

lemma path_messages_compaction:
  assumes "distinct (map en_id (pre @ c # post))" and "en_kind c = CompactionEntry d"
    and "\<forall>e\<in>set post. \<not> is_compaction e"
  shows "path_messages t (pre @ c # post) =
     CompactionSummary (createCompactionSummaryMessage t (cd_summary d) (cd_tokensBefore d) (en_timestamp c))
     # concat (map (append_message t) (dropWhile (\<lambda>e. en_id e \<noteq> cd_firstKeptEntryId d) pre))
     @ concat (map (append_message t) post)"
proof -
  have "pt_compaction (scan_path ((pre @ [c]) @ post)) = Some (c, d)"
    unfolding scan_path_no_compaction [OF assms(3)] scan_path_snoc scan_entry_compaction
    using assms(2) by simp
  then have "pt_compaction (scan_path (pre @ c # post)) = Some (c, d)" by simp
  moreover have "is_compaction c" using assms(2) by (simp add: is_compaction_def)
  ultimately show ?thesis
    by (simp add: path_messages_def find_compaction [OF assms(1)] kept_messages_dropWhile)
qed

lemma path_messages_plain:
  assumes "\<forall>e\<in>set path. \<not> is_compaction e"
  shows "path_messages t path = concat (map (append_message t) path)"
  using scan_path_no_compaction [OF assms, of "[]"]
  by (simp add: path_messages_def scan_path_def initial_settings_def)

text \<open>Splitting a path at its last compaction.\<close>

lemma last_compaction_split:
  obtains "\<forall>e\<in>set path. \<not> is_compaction e"
  | pre c d post where "path = pre @ c # post" and "en_kind c = CompactionEntry d"
      and "\<forall>e\<in>set post. \<not> is_compaction e"
proof (cases "\<exists>e\<in>set path. is_compaction e")
  case True
  then obtain pre c post where "path = pre @ c # post" "is_compaction c" "\<forall>e\<in>set post. \<not> is_compaction e"
    using split_list_last_prop [of path is_compaction] by blast
  with that(2) show thesis by (auto simp: is_compaction_def split: entry_kind.splits)
next
  case False
  with that(1) show thesis by blast
qed

lemma path_messages_snoc:
  assumes "distinct (map en_id (path @ [e]))" and "\<not> is_compaction e"
  shows "path_messages t (path @ [e]) = path_messages t path @ append_message t e"
proof (cases path rule: last_compaction_split)
  case 1
  with assms(2) show ?thesis by (simp add: path_messages_plain)
next
  case (2 pre c d post)
  have ids: "distinct (map en_id (pre @ c # post))" "distinct (map en_id (pre @ c # (post @ [e])))"
    using assms(1) 2(1) by auto
  have "\<forall>x\<in>set (post @ [e]). \<not> is_compaction x" using assms(2) 2(3) by auto
  from path_messages_compaction [OF ids(2) 2(2) this, of t] path_messages_compaction [OF ids(1) 2(2,3), of t]
  show ?thesis by (simp add: 2(1))
qed

lemma scan_entry_same:
  assumes "pt_thinkingLevel s = pt_thinkingLevel s'" and "pt_model s = pt_model s'"
  shows "pt_thinkingLevel (scan_entry s e) = pt_thinkingLevel (scan_entry s' e)
    \<and> pt_model (scan_entry s e) = pt_model (scan_entry s' e)"
proof (cases "en_kind e")
  case (MessageEntry m)
  with assms show ?thesis by (simp add: scan_entry_def split: agent_message.split message.split)
qed (use assms in \<open>simp_all add: scan_entry_def\<close>)

lemma scan_same:
  assumes "pt_thinkingLevel s = pt_thinkingLevel s'" and "pt_model s = pt_model s'"
  shows "pt_thinkingLevel (foldl scan_entry s es) = pt_thinkingLevel (foldl scan_entry s' es)
    \<and> pt_model (foldl scan_entry s es) = pt_model (foldl scan_entry s' es)"
  using assms
proof (induction es arbitrary: s s')
  case Nil
  then show ?case by simp
next
  case (Cons e es)
  have step: "pt_thinkingLevel (scan_entry s e) = pt_thinkingLevel (scan_entry s' e)"
    "pt_model (scan_entry s e) = pt_model (scan_entry s' e)"
    using scan_entry_same [OF Cons.prems, of e] by blast+
  show ?case unfolding foldl_Cons by (rule Cons.IH [OF step])
qed

lemma scan_path_drop_compaction:
  assumes "en_kind c = CompactionEntry d"
  shows "pt_thinkingLevel (scan_path (pre @ c # post)) = pt_thinkingLevel (scan_path (pre @ post))"
    and "pt_model (scan_path (pre @ c # post)) = pt_model (scan_path (pre @ post))"
proof -
  have "pt_thinkingLevel (scan_entry s c) = pt_thinkingLevel s" "pt_model (scan_entry s c) = pt_model s" for s
    using assms by (simp_all add: scan_entry_def)
  then have same: "pt_thinkingLevel (scan_entry (scan_path pre) c) = pt_thinkingLevel (scan_path pre)"
    "pt_model (scan_entry (scan_path pre) c) = pt_model (scan_path pre)" by blast+
  have "scan_path (pre @ c # post) = foldl scan_entry (scan_entry (scan_path pre) c) post"
    "scan_path (pre @ post) = foldl scan_entry (scan_path pre) post"
    by (simp_all add: scan_path_def)
  with scan_same [OF same, of post] show
    "pt_thinkingLevel (scan_path (pre @ c # post)) = pt_thinkingLevel (scan_path (pre @ post))"
    "pt_model (scan_path (pre @ c # post)) = pt_model (scan_path (pre @ post))"
    by auto
qed

text \<open>
  C11: The context of a path with a compaction is the summary of the last one, then the messages from
  the first kept entry up to that compaction, then the messages after it; without a compaction it is every message of
  the path. Model and thinking level are not affected by compaction.
\<close>

theorem context_of_compacted_path:
  assumes "distinct (map en_id (pre @ c # post))" and "en_kind c = CompactionEntry d"
    and "\<forall>e\<in>set post. \<not> is_compaction e"
  shows "sc_messages (buildSessionContext t (pre @ c # post)) =
     CompactionSummary (createCompactionSummaryMessage t (cd_summary d) (cd_tokensBefore d) (en_timestamp c))
     # concat (map (append_message t) (dropWhile (\<lambda>e. en_id e \<noteq> cd_firstKeptEntryId d) pre))
     @ concat (map (append_message t) post)
   \<and> sc_thinkingLevel (buildSessionContext t (pre @ c # post))
     = sc_thinkingLevel (buildSessionContext t (pre @ post))
   \<and> sc_model (buildSessionContext t (pre @ c # post)) = sc_model (buildSessionContext t (pre @ post))"
  using path_messages_compaction [OF assms, of t] scan_path_drop_compaction [OF assms(2), of pre post]
  unfolding buildSessionContext_def by simp

definition sample_entry :: "string \<Rightarrow> string option \<Rightarrow> entry_kind \<Rightarrow> entry" where
  "sample_entry i p k = \<lparr>en_id = js i, en_parentId = map_option js p, en_timestamp = js ''t'', en_kind = k\<rparr>"

definition sample_compaction :: "string \<Rightarrow> compaction_data" where
  "sample_compaction first = \<lparr>cd_summary = js ''sum'', cd_firstKeptEntryId = js first, cd_tokensBefore = 9,
     cd_details = None, cd_fromHook = None, cd_firstKeptEntryIndex = None\<rparr>"

theorem context_of_compacted_path_witness:
  "let a = sample_entry ''a'' None (MessageEntry (Llm (sample_user ''one'')));
       b = sample_entry ''b'' (Some ''a'') (MessageEntry (Llm (sample_user ''two'')));
       c = sample_entry ''c'' (Some ''b'') (CompactionEntry (sample_compaction ''b''));
       e = sample_entry ''e'' (Some ''c'') (MessageEntry (Llm (sample_user ''three'')))
   in sc_messages (buildSessionContext (\<lambda>t. None) ([a, b] @ c # [e])) =
      [CompactionSummary \<lparr>cs_summary = js ''sum'', cs_tokensBefore = 9, cs_timestamp = None\<rparr>,
       Llm (sample_user ''two''), Llm (sample_user ''three'')]"
proof -
  let ?a = "sample_entry ''a'' None (MessageEntry (Llm (sample_user ''one'')))"
  let ?b = "sample_entry ''b'' (Some ''a'') (MessageEntry (Llm (sample_user ''two'')))"
  let ?c = "sample_entry ''c'' (Some ''b'') (CompactionEntry (sample_compaction ''b''))"
  let ?e = "sample_entry ''e'' (Some ''c'') (MessageEntry (Llm (sample_user ''three'')))"
  have "distinct (map en_id ([?a, ?b] @ ?c # [?e]))" by (simp add: sample_entry_def)
  moreover have "en_kind ?c = CompactionEntry (sample_compaction ''b'')" by (simp add: sample_entry_def)
  moreover have "\<forall>e\<in>set [?e]. \<not> is_compaction e" by (simp add: is_compaction_def sample_entry_def)
  ultimately show ?thesis
    using context_of_compacted_path [of "[?a, ?b]" ?c "[?e]" "sample_compaction ''b''" "\<lambda>t. None"]
    by (simp add: sample_entry_def append_message_def sample_compaction_def createCompactionSummaryMessage_def)
qed

end
