(* ===== verification/Session_Storage.thy ===== *)
theory Session_Storage
  imports Session_Context
begin

text \<open>
  The storage interface of harness sessions (\<^verbatim>\<open>SessionStorage\<close> of
  \<^verbatim>\<open>packages/agent/src/harness/types.ts\<close>), its contract, and the storage in memory
  (\<^verbatim>\<open>harness/session/memory-storage.ts\<close>).

  An operation takes the storage and the host, whose UUIDs and clock it consumes, and returns its result, an error or
  a value, with both updated. The operations are asynchronous only in form: each is one step here, as its code
  reads and changes the state without waiting (the file storage waits for the file system first).
\<close>

section \<open>Errors and the host\<close>

datatype session_error_code =
  SE_not_found | SE_invalid_session | SE_invalid_entry | SE_invalid_fork_target | SE_storage | SE_unknown

record session_error =
  se_code :: session_error_code
  se_message :: jstr

definition entry_error :: "session_error_code \<Rightarrow> jstr \<Rightarrow> session_error" where
  "entry_error c i = \<lparr>se_code = c, se_message = js ''Entry '' @ i @ js '' not found''\<rparr>"

record host =
  ho_uuid :: "nat \<Rightarrow> jstr"
  ho_next :: nat
  ho_clock :: "nat \<Rightarrow> jstr"
  ho_ticks :: nat

text \<open>\<^verbatim>\<open>new Date().toISOString()\<close>, and the next UUID.\<close>

definition time_now :: "host \<Rightarrow> jstr \<times> host" where
  "time_now h = (ho_clock h (ho_ticks h), h\<lparr>ho_ticks := Suc (ho_ticks h)\<rparr>)"

definition next_uuid :: "host \<Rightarrow> jstr \<times> host" where
  "next_uuid h = (ho_uuid h (ho_next h), h\<lparr>ho_next := Suc (ho_next h)\<rparr>)"

definition generateEntryId :: "(jstr \<rightharpoonup> entry) \<Rightarrow> host \<Rightarrow> jstr \<times> host" where
  "generateEntryId byId h =
     (case generate_id (\<lambda>i. byId i \<noteq> None) (ho_uuid h) (ho_next h) of
        (i, k) \<Rightarrow> (i, h\<lparr>ho_next := k\<rparr>))"

text \<open>What the host has to offer \<open>n\<close> more draws of an id that is none of \<open>I\<close>.\<close>

definition host_ids :: "host \<Rightarrow> nat \<Rightarrow> jstr set \<Rightarrow> bool" where
  "host_ids h n I \<longleftrightarrow> uuid_supply (ho_uuid h) (ho_next h) (101 * n) I"

type_synonym ('s, 'a) session_op = "'s \<Rightarrow> host \<Rightarrow> (session_error + 'a) \<times> 's \<times> host"

section \<open>Labels, leaves and paths\<close>

definition updateLabelCache :: "(jstr \<rightharpoonup> jstr) \<Rightarrow> entry \<Rightarrow> (jstr \<rightharpoonup> jstr)" where
  "updateLabelCache labelsById e =
     (case en_kind e of
        LabelEntry t l \<Rightarrow>
          (let label = map_option js_trim l in
           if truthy_str label then labelsById(t := label) else labelsById(t := None))
      | _ \<Rightarrow> labelsById)"

definition buildLabelsById :: "entry list \<Rightarrow> (jstr \<rightharpoonup> jstr)" where
  "buildLabelsById entries = foldl updateLabelCache Map.empty entries"

definition leafIdAfterEntry :: "entry \<Rightarrow> jstr option" where
  "leafIdAfterEntry e = (case en_kind e of LeafEntry t \<Rightarrow> t | _ \<Rightarrow> Some (en_id e))"

definition leaf_after :: "entry list \<Rightarrow> jstr option" where
  "leaf_after entries = foldl (\<lambda>l e. leafIdAfterEntry e) None entries"

text \<open>
  The loop of \<^verbatim>\<open>getPathToRoot\<close> from an entry on. The fuel is the number of entries; \<open>None\<close>
  stands for a loop that goes round in a cycle for ever.
\<close>

fun path_from :: "nat \<Rightarrow> (jstr \<rightharpoonup> entry) \<Rightarrow> entry \<Rightarrow> entry list \<Rightarrow> (session_error + entry list) option" where
  "path_from n byId e path =
     (if \<not> truthy_str (en_parentId e) then Some (Inr (e # path))
      else
        (case byId (the (en_parentId e)) of
           None \<Rightarrow> Some (Inl (entry_error SE_invalid_session (the (en_parentId e))))
         | Some p \<Rightarrow> (case n of 0 \<Rightarrow> None | Suc k \<Rightarrow> path_from k byId p (e # path))))"

declare path_from.simps [simp del]

definition path_to_root ::
  "entry list \<Rightarrow> (jstr \<rightharpoonup> entry) \<Rightarrow> jstr option \<Rightarrow> (session_error + entry list) option" where
  "path_to_root entries byId leafId =
     (case leafId of
        None \<Rightarrow> Some (Inr [])
      | Some i \<Rightarrow>
          (case byId i of
             None \<Rightarrow> Some (Inl (entry_error SE_not_found i))
           | Some e \<Rightarrow> path_from (length entries) byId e []))"

lemma leaf_after_simps [simp]:
  "leaf_after [] = None"
  "leaf_after (es @ [e]) = leafIdAfterEntry e"
  by (simp_all add: leaf_after_def)

lemma buildLabelsById_simps [simp]:
  "buildLabelsById [] = Map.empty"
  "buildLabelsById (es @ [e]) = updateLabelCache (buildLabelsById es) e"
  by (simp_all add: buildLabelsById_def)

lemma path_from_walk:
  assumes "tree_ok es" and "byId = index_by en_id es"
  shows "e \<in> set es \<Longrightarrow> path_from n byId e acc = map_option Inr (walk (Suc n) byId (Some e) acc)"
proof (induction n arbitrary: e acc)
  case (0 e acc)
  show ?case
  proof (cases "truthy_str (en_parentId e)")
    case True
    then obtain p where "en_parentId e = Some p" by (auto elim: truthy_strE)
    with tree_ok_parent [OF assms(1) 0] assms(2) obtain f where "byId p = Some f" by blast
    with True \<open>en_parentId e = Some p\<close> show ?thesis by (simp add: path_from.simps)
  qed (simp add: path_from.simps)
next
  case (Suc n e acc)
  show ?case
  proof (cases "truthy_str (en_parentId e)")
    case True
    then obtain p where p: "en_parentId e = Some p" by (auto elim: truthy_strE)
    with tree_ok_parent [OF assms(1) Suc.prems] assms(2) obtain f where f: "byId p = Some f" "f \<in> set es" by blast
    with True p Suc.IH [OF f(2)] show ?thesis by (simp add: path_from.simps [of "Suc n"])
  qed (simp add: path_from.simps)
qed

section \<open>Well-formed sessions\<close>

abbreviation entry_ids :: "entry list \<Rightarrow> jstr set" where
  "entry_ids es \<equiv> en_id ` set es"

definition leaf_ok :: "entry list \<Rightarrow> jstr option \<Rightarrow> bool" where
  "leaf_ok es l \<longleftrightarrow> (case l of None \<Rightarrow> True | Some i \<Rightarrow> i \<in> entry_ids es)"

definition session_ok :: "entry list \<Rightarrow> bool" where
  "session_ok es \<longleftrightarrow> tree_ok es \<and> leaf_ok es (leaf_after es)"

text \<open>The path to an entry of the session, or no entry.\<close>

definition branch_of :: "entry list \<Rightarrow> jstr option \<Rightarrow> entry list" where
  "branch_of es l =
     (case path_to_root es (index_by en_id es) l of Some (Inr p) \<Rightarrow> p | _ \<Rightarrow> [])"

lemma leaf_ok_simps [simp]:
  "leaf_ok es None"
  "leaf_ok es (Some i) \<longleftrightarrow> i \<in> entry_ids es"
  by (simp_all add: leaf_ok_def)

lemma session_ok_Nil [simp]: "session_ok []"
  by (simp add: session_ok_def)

lemma leaf_ok_mono: "leaf_ok es l \<Longrightarrow> set es \<subseteq> set es' \<Longrightarrow> leaf_ok es' l"
  by (auto simp: leaf_ok_def split: option.splits)

lemma walk_to_root:
  assumes "tree_ok es" and "e \<in> set es"
  obtains p where "path_from (length es) (index_by en_id es) e [] = Some (Inr (p @ [e]))"
    and "is_path es (p @ [e])"
proof -
  from walk_path [OF assms(1) refl, of e "length es" "Suc (length es)" "[]"] assms(2)
  obtain p where "walk (Suc (length es)) (index_by en_id es) (Some e) [] = Some (p @ [e])"
    and p: "is_path es (p @ [e])" by auto
  with path_from_walk [OF assms(1) refl assms(2), of "length es" "[]"] that [OF _ p] show thesis by simp
qed

lemma branch_of_None [simp]: "branch_of es None = []"
  by (simp add: branch_of_def path_to_root_def)

lemma path_to_root_entry:
  assumes "tree_ok es" and "e \<in> set es"
  shows "path_to_root es (index_by en_id es) (Some (en_id e)) = path_from (length es) (index_by en_id es) e []"
  by (simp add: path_to_root_def index_by_tree [OF assms])

lemma branch_of_path:
  assumes "tree_ok es" and "e \<in> set es"
  obtains p where "path_to_root es (index_by en_id es) (Some (en_id e)) = Some (Inr (p @ [e]))"
    and "branch_of es (Some (en_id e)) = p @ [e]" and "is_path es (p @ [e])"
proof -
  from walk_to_root [OF assms] obtain p
    where p: "path_from (length es) (index_by en_id es) e [] = Some (Inr (p @ [e]))" "is_path es (p @ [e])" .
  show thesis
  proof (rule that [OF _ _ p(2)])
    show "path_to_root es (index_by en_id es) (Some (en_id e)) = Some (Inr (p @ [e]))"
      using p(1) by (simp only: path_to_root_entry [OF assms])
    then show "branch_of es (Some (en_id e)) = p @ [e]" by (simp add: branch_of_def)
  qed
qed

lemma leaf_okE:
  assumes "leaf_ok es l"
  obtains "l = None" | e where "e \<in> set es" and "l = Some (en_id e)"
  using assms that by (cases l) auto

lemma path_to_root_branch:
  assumes "tree_ok es" and "leaf_ok es l"
  shows "path_to_root es (index_by en_id es) l = Some (Inr (branch_of es l))"
  using assms(2)
proof (cases rule: leaf_okE)
  case 1
  then show ?thesis by (simp add: path_to_root_def)
next
  case (2 e)
  from branch_of_path [OF assms(1) 2(1)] show ?thesis unfolding 2(2) by metis
qed

lemma branch_of_is_path:
  assumes "tree_ok es" and "leaf_ok es l"
  shows "is_path es (branch_of es l)"
  using assms(2)
proof (cases rule: leaf_okE)
  case (2 e)
  from branch_of_path [OF assms(1) 2(1)] show ?thesis unfolding 2(2) by metis
qed simp

lemma branch_of_unique:
  assumes "tree_ok es" and "is_path es (p @ [e])"
  shows "branch_of es (Some (en_id e)) = p @ [e]"
proof -
  from assms(2) have "e \<in> set es" by (simp add: is_path_snoc)
  from branch_of_path [OF assms(1) this] obtain q
    where q: "branch_of es (Some (en_id e)) = q @ [e]" "is_path es (q @ [e])" by metis
  have "q @ [e] = p @ [e]" by (rule is_path_unique [OF assms(1) q(2) assms(2)]) simp_all
  with q(1) show ?thesis by (simp only:)
qed

lemma branch_of_mono:
  assumes "tree_ok es" and "tree_ok (es @ ext)" and "leaf_ok es l"
  shows "branch_of (es @ ext) l = branch_of es l"
  using assms(3)
proof (cases rule: leaf_okE)
  case (2 e)
  from branch_of_path [OF assms(1) 2(1)] obtain p
    where p: "branch_of es l = p @ [e]" "is_path es (p @ [e])" unfolding 2(2) by metis
  from p(2) have "is_path (es @ ext) (p @ [e])" by (rule is_path_mono) simp
  from branch_of_unique [OF assms(2) this] p(1) 2(2) show ?thesis by (simp only:)
qed simp

text \<open>A new entry extends the branch of its parent.\<close>

lemma branch_of_last:
  assumes "tree_ok es" and "leaf_ok es l"
  shows "l = (if branch_of es l = [] then None else Some (en_id (last (branch_of es l))))"
  using assms(2)
proof (cases rule: leaf_okE)
  case (2 e)
  from branch_of_path [OF assms(1) 2(1)] obtain p where "branch_of es l = p @ [e]" unfolding 2(2) by metis
  with 2(2) show ?thesis by simp
qed simp

lemma branch_of_snoc:
  assumes "tree_ok (es @ [e])"
  shows "branch_of (es @ [e]) (Some (en_id e)) = branch_of es (en_parentId e) @ [e]"
proof -
  have es: "tree_ok es" "leaf_ok es (en_parentId e)"
    using assms by (auto simp: tree_ok_snoc leaf_ok_def split: option.splits)
  from branch_of_is_path [OF es] have "is_path (es @ [e]) (branch_of es (en_parentId e))"
    by (rule is_path_mono) auto
  with branch_of_last [OF es] have "is_path (es @ [e]) (branch_of es (en_parentId e) @ [e])"
    unfolding is_path_snoc by simp
  from branch_of_unique [OF assms this] show ?thesis .
qed

lemma is_path_subset: "is_path es p \<Longrightarrow> set p \<subseteq> set es"
  unfolding is_path_def by blast

lemma distinct_path:
  assumes "tree_ok es" and "is_path es p"
  shows "distinct (map en_id p)"
  using assms(2)
proof (induction p rule: rev_induct)
  case Nil
  show ?case by simp
next
  case (snoc e p)
  from snoc.prems have p: "is_path es p" "e \<in> set es" unfolding is_path_snoc by blast+
  have "en_id e \<notin> en_id ` set p"
  proof
    assume "en_id e \<in> en_id ` set p"
    then obtain f where f: "f \<in> set p" "en_id f = en_id e" by auto
    from is_path_subset [OF p(1)] f(1) have "f \<in> set es" by blast
    from index_by_tree [OF assms(1) this] index_by_tree [OF assms(1) p(2)] f(2)
    have "f = e" by (metis option.inject)
    from split_list [OF f(1)] obtain a b where "p = a @ f # b" by blast
    then have ab: "p = (a @ [e]) @ b" unfolding \<open>f = e\<close> by simp
    from p(1) have pre: "is_path es (a @ [e])" unfolding ab by (rule is_path_prefix)
    have "a @ [e] = p @ [e]" by (rule is_path_unique [OF assms(1) pre snoc.prems]) simp_all
    then have "a = p" by (simp only: append_same_eq)
    then have "length a = length p" by (simp only:)
    moreover have "length p = length a + 1 + length b" unfolding ab by simp
    ultimately show False by linarith
  qed
  with snoc.IH [OF p(1)] show ?case by simp
qed

text \<open>Appending to a well-formed session.\<close>

lemma session_ok_snoc:
  "session_ok (es @ [e]) \<longleftrightarrow> tree_ok es \<and> en_id e \<notin> entry_ids es \<and> en_id e \<noteq> []
     \<and> leaf_ok es (en_parentId e) \<and> leaf_ok (es @ [e]) (leafIdAfterEntry e)"
  unfolding session_ok_def tree_ok_snoc leaf_after_simps by (auto simp: leaf_ok_def split: option.splits)

lemma session_okD: "session_ok es \<Longrightarrow> tree_ok es" "session_ok es \<Longrightarrow> leaf_ok es (leaf_after es)"
  by (simp_all add: session_ok_def)

section \<open>The interface\<close>

datatype entry_type =
  ET_message | ET_thinking_level_change | ET_model_change | ET_compaction | ET_branch_summary
  | ET_custom | ET_custom_message | ET_label | ET_session_info | ET_leaf

fun kind_type :: "entry_kind \<Rightarrow> entry_type" where
  "kind_type (MessageEntry m) = ET_message"
| "kind_type (ThinkingLevelChangeEntry l) = ET_thinking_level_change"
| "kind_type (ModelChangeEntry p m) = ET_model_change"
| "kind_type (CompactionEntry d) = ET_compaction"
| "kind_type (BranchSummaryEntry f s d h) = ET_branch_summary"
| "kind_type (CustomEntry t d) = ET_custom"
| "kind_type (CustomMessageEntry t c d display) = ET_custom_message"
| "kind_type (LabelEntry t l) = ET_label"
| "kind_type (SessionInfoEntry n) = ET_session_info"
| "kind_type (LeafEntry t) = ET_leaf"

record 's storage_ops =
  op_getLeafId :: "'s \<Rightarrow> session_error + jstr option"
  op_setLeafId :: "jstr option \<Rightarrow> ('s, unit) session_op"
  op_createEntryId :: "'s \<Rightarrow> host \<Rightarrow> jstr \<times> host"
  op_appendEntry :: "entry \<Rightarrow> ('s, unit) session_op"
  op_getEntry :: "'s \<Rightarrow> jstr \<Rightarrow> entry option"
  op_findEntries :: "'s \<Rightarrow> entry_type \<Rightarrow> entry list"
  op_getLabel :: "'s \<Rightarrow> jstr \<Rightarrow> jstr option"
  op_getPathToRoot :: "'s \<Rightarrow> jstr option \<Rightarrow> (session_error + entry list) option"
  op_getEntries :: "'s \<Rightarrow> entry list"

text \<open>
  The contract. The entries are all there is to a storage: every reading operation is a function of them, appending adds one,
  or fails and adds none, and moving the leaf appends an entry that says so.
\<close>

locale session_storage =
  fixes ops :: "'s storage_ops" and good :: "'s \<Rightarrow> bool"
  assumes entries_ok: "good s \<Longrightarrow> session_ok (op_getEntries ops s)"
    and getLeafId: "good s \<Longrightarrow> op_getLeafId ops s = Inr (leaf_after (op_getEntries ops s))"
    and getEntry: "good s \<Longrightarrow> op_getEntry ops s = index_by en_id (op_getEntries ops s)"
    and findEntries: "good s \<Longrightarrow>
      op_findEntries ops s t = filter (\<lambda>e. kind_type (en_kind e) = t) (op_getEntries ops s)"
    and getLabel: "good s \<Longrightarrow> op_getLabel ops s = buildLabelsById (op_getEntries ops s)"
    and getPathToRoot: "good s \<Longrightarrow> op_getPathToRoot ops s l =
      path_to_root (op_getEntries ops s) (index_by en_id (op_getEntries ops s)) l"
    and createEntryId: "good s \<Longrightarrow> host_ids h (Suc n) (entry_ids (op_getEntries ops s)) \<Longrightarrow>
      op_createEntryId ops s h = (i, h') \<Longrightarrow>
      i \<notin> entry_ids (op_getEntries ops s) \<and> i \<noteq> [] \<and> host_ids h' n (insert i (entry_ids (op_getEntries ops s)))"
    and appendEntry: "good s \<Longrightarrow> session_ok (op_getEntries ops s @ [e]) \<Longrightarrow>
      op_appendEntry ops e s h = (r, s', h') \<Longrightarrow>
      good s' \<and> h' = h
      \<and> op_getEntries ops s' = (case r of Inl x \<Rightarrow> op_getEntries ops s | Inr u \<Rightarrow> op_getEntries ops s @ [e])"
    and setLeafId_missing: "good s \<Longrightarrow> i \<notin> entry_ids (op_getEntries ops s) \<Longrightarrow>
      op_setLeafId ops (Some i) s h = (Inl (entry_error SE_not_found i), s, h)"
    and setLeafId: "good s \<Longrightarrow> leaf_ok (op_getEntries ops s) l \<Longrightarrow>
      host_ids h (Suc n) (entry_ids (op_getEntries ops s)) \<Longrightarrow>
      op_setLeafId ops l s h = (r, s', h') \<Longrightarrow>
      good s' \<and> host_ids h' n (entry_ids (op_getEntries ops s'))
      \<and> (case r of Inl x \<Rightarrow> op_getEntries ops s' = op_getEntries ops s
         | Inr u \<Rightarrow> \<exists>e. op_getEntries ops s' = op_getEntries ops s @ [e] \<and> en_kind e = LeafEntry l)"

text \<open>A storage that nothing can fail.\<close>

locale reliable_storage = session_storage +
  assumes append_succeeds: "good s \<Longrightarrow> \<exists>s'. op_appendEntry ops e s h = (Inr (), s', h)"
    and setLeaf_succeeds: "good s \<Longrightarrow> leaf_ok (op_getEntries ops s) l \<Longrightarrow>
      \<exists>s' h'. op_setLeafId ops l s h = (Inr (), s', h')"

section \<open>The storage in memory\<close>

record session_metadata =
  sm_id :: jstr
  sm_createdAt :: jstr

record mem_storage =
  ms_metadata :: session_metadata
  ms_entries :: "entry list"
  ms_byId :: "jstr \<rightharpoonup> entry"
  ms_labelsById :: "jstr \<rightharpoonup> jstr"
  ms_leafId :: "jstr option"

definition has_leaf :: "(jstr \<rightharpoonup> entry) \<Rightarrow> jstr option \<Rightarrow> bool" where
  "has_leaf byId l \<longleftrightarrow> (case l of None \<Rightarrow> True | Some i \<Rightarrow> byId i \<noteq> None)"

definition mem_new ::
  "entry list option \<Rightarrow> session_metadata option \<Rightarrow> host \<Rightarrow> (session_error + mem_storage) \<times> host" where
  "mem_new entries metadata h =
     (let es = nullish entries [];
          byId = index_by en_id es;
          leaf = leaf_after es
      in if \<not> has_leaf byId leaf then (Inl (entry_error SE_invalid_session (the leaf)), h)
         else
           (let (m, h') =
              (case metadata of
                 Some m \<Rightarrow> (m, h)
               | None \<Rightarrow>
                   (let (i, h1) = next_uuid h; (t, h2) = time_now h1 in
                    (\<lparr>sm_id = i, sm_createdAt = t\<rparr>, h2)))
            in (Inr \<lparr>ms_metadata = m, ms_entries = es, ms_byId = byId, ms_labelsById = buildLabelsById es,
                  ms_leafId = leaf\<rparr>, h')))"

definition mem_getLeafId :: "mem_storage \<Rightarrow> session_error + jstr option" where
  "mem_getLeafId s =
     (if \<not> has_leaf (ms_byId s) (ms_leafId s) then Inl (entry_error SE_invalid_session (the (ms_leafId s)))
      else Inr (ms_leafId s))"

definition mem_setLeafId :: "jstr option \<Rightarrow> (mem_storage, unit) session_op" where
  "mem_setLeafId leafId s h =
     (if \<not> has_leaf (ms_byId s) leafId then (Inl (entry_error SE_not_found (the leafId)), s, h)
      else
        (let (i, h1) = generateEntryId (ms_byId s) h;
             (t, h2) = time_now h1;
             entry = \<lparr>en_id = i, en_parentId = ms_leafId s, en_timestamp = t, en_kind = LeafEntry leafId\<rparr>
         in (Inr (),
             s\<lparr>ms_entries := ms_entries s @ [entry], ms_byId := (ms_byId s)(i \<mapsto> entry), ms_leafId := leafId\<rparr>, h2)))"

definition mem_createEntryId :: "mem_storage \<Rightarrow> host \<Rightarrow> jstr \<times> host" where
  "mem_createEntryId s h = generateEntryId (ms_byId s) h"

definition mem_appendEntry :: "entry \<Rightarrow> (mem_storage, unit) session_op" where
  "mem_appendEntry e s h =
     (Inr (),
      s\<lparr>ms_entries := ms_entries s @ [e], ms_byId := (ms_byId s)(en_id e \<mapsto> e),
        ms_labelsById := updateLabelCache (ms_labelsById s) e, ms_leafId := leafIdAfterEntry e\<rparr>, h)"

definition mem_findEntries :: "mem_storage \<Rightarrow> entry_type \<Rightarrow> entry list" where
  "mem_findEntries s t = filter (\<lambda>e. kind_type (en_kind e) = t) (ms_entries s)"

definition mem_getPathToRoot :: "mem_storage \<Rightarrow> jstr option \<Rightarrow> (session_error + entry list) option" where
  "mem_getPathToRoot s leafId = path_to_root (ms_entries s) (ms_byId s) leafId"

definition mem_ops :: "mem_storage storage_ops" where
  "mem_ops = \<lparr>op_getLeafId = mem_getLeafId, op_setLeafId = mem_setLeafId, op_createEntryId = mem_createEntryId,
     op_appendEntry = mem_appendEntry, op_getEntry = ms_byId, op_findEntries = mem_findEntries,
     op_getLabel = ms_labelsById, op_getPathToRoot = mem_getPathToRoot, op_getEntries = ms_entries\<rparr>"

text \<open>The fields agree with the entries.\<close>

definition mem_good :: "mem_storage \<Rightarrow> bool" where
  "mem_good s \<longleftrightarrow> session_ok (ms_entries s) \<and> ms_byId s = index_by en_id (ms_entries s)
     \<and> ms_labelsById s = buildLabelsById (ms_entries s) \<and> ms_leafId s = leaf_after (ms_entries s)"

lemma mem_ops_simps [simp]:
  "op_getLeafId mem_ops = mem_getLeafId" "op_setLeafId mem_ops = mem_setLeafId"
  "op_createEntryId mem_ops = mem_createEntryId" "op_appendEntry mem_ops = mem_appendEntry"
  "op_getEntry mem_ops = ms_byId" "op_findEntries mem_ops = mem_findEntries"
  "op_getLabel mem_ops = ms_labelsById" "op_getPathToRoot mem_ops = mem_getPathToRoot"
  "op_getEntries mem_ops = ms_entries"
  by (simp_all add: mem_ops_def)

lemma has_leaf_index: "has_leaf (index_by en_id es) l = leaf_ok es l"
  by (auto simp: has_leaf_def leaf_ok_def index_by_None_iff split: option.splits)

lemma generateEntryId_fresh:
  assumes "host_ids h (Suc n) (entry_ids es)" and "generateEntryId (index_by en_id es) h = (i, h')"
  shows "i \<notin> entry_ids es \<and> i \<noteq> [] \<and> host_ids h' n (insert i (entry_ids es))"
proof -
  from assms(2) obtain k where k: "generate_id (\<lambda>i. index_by en_id es i \<noteq> None) (ho_uuid h) (ho_next h) = (i, k)"
    "h' = h\<lparr>ho_next := k\<rparr>" by (auto simp: generateEntryId_def split: prod.splits)
  have "uuid_supply (ho_uuid h) (ho_next h) (101 + 101 * n) (entry_ids es)"
    using assms(1) by (simp add: host_ids_def)
  from generate_id_fresh [OF this _ k(1)] k(2) show ?thesis
    by (auto simp: host_ids_def index_by_None_iff)
qed

lemma leaf_entry_ok:
  assumes "session_ok es" and "leaf_ok es l" and "i \<notin> entry_ids es" and "i \<noteq> []"
  shows "session_ok (es @ [\<lparr>en_id = i, en_parentId = leaf_after es, en_timestamp = t, en_kind = LeafEntry l\<rparr>])"
  unfolding session_ok_snoc
  using assms session_okD [OF assms(1)] by (auto simp: leafIdAfterEntry_def intro: leaf_ok_mono [OF assms(2)])

lemma time_now_host_ids: "time_now h = (t, h') \<Longrightarrow> host_ids h' n I = host_ids h n I"
  by (auto simp: time_now_def host_ids_def)

lemma less_host_ids: "host_ids h (Suc n) I \<Longrightarrow> host_ids h n I"
  unfolding host_ids_def by (erule uuid_supply_less) auto

lemma mem_setLeafId_ok:
  assumes "mem_good s" and "leaf_ok (ms_entries s) l" and "host_ids h (Suc n) (entry_ids (ms_entries s))"
    and "mem_setLeafId l s h = (r, s', h')"
  shows "mem_good s' \<and> host_ids h' n (entry_ids (ms_entries s'))
    \<and> (\<exists>e. r = Inr () \<and> ms_entries s' = ms_entries s @ [e] \<and> en_kind e = LeafEntry l)"
proof -
  obtain i h1 where i: "generateEntryId (ms_byId s) h = (i, h1)" by fastforce
  obtain t h2 where t: "time_now h1 = (t, h2)" by fastforce
  let ?e = "\<lparr>en_id = i, en_parentId = ms_leafId s, en_timestamp = t, en_kind = LeafEntry l\<rparr>"
  have s: "session_ok (ms_entries s)" "ms_byId s = index_by en_id (ms_entries s)"
    "ms_leafId s = leaf_after (ms_entries s)" "ms_labelsById s = buildLabelsById (ms_entries s)"
    using assms(1) by (simp_all add: mem_good_def)
  have fresh: "i \<notin> entry_ids (ms_entries s)" "i \<noteq> []" "host_ids h1 n (insert i (entry_ids (ms_entries s)))"
    using generateEntryId_fresh [OF assms(3)] i s(2) by auto
  have r: "r = Inr ()" "h' = h2"
    "s' = s\<lparr>ms_entries := ms_entries s @ [?e], ms_byId := (ms_byId s)(i \<mapsto> ?e), ms_leafId := l\<rparr>"
    using assms(2,4) i t unfolding s(2) by (simp_all add: mem_setLeafId_def s(2) has_leaf_index Let_def)
  have "session_ok (ms_entries s @ [?e])" using leaf_entry_ok [OF s(1) assms(2) fresh(1,2)] s(3) by simp
  then have "mem_good s'"
    by (simp add: mem_good_def r s updateLabelCache_def leafIdAfterEntry_def)
  moreover have "host_ids h2 n (entry_ids (ms_entries s'))"
    using fresh(3) time_now_host_ids [OF t] by (simp add: r)
  ultimately show ?thesis by (simp add: r)
qed

lemma mem_appendEntry_ok:
  assumes "mem_good s" and "session_ok (ms_entries s @ [e])"
  shows "\<exists>s'. mem_appendEntry e s h = (Inr (), s', h) \<and> mem_good s' \<and> ms_entries s' = ms_entries s @ [e]"
  using assms by (simp add: mem_appendEntry_def mem_good_def)

interpretation mem: reliable_storage mem_ops mem_good
proof (unfold_locales, goal_cases)
  case (2 s)
  then show ?case by (auto simp: mem_getLeafId_def mem_good_def has_leaf_index session_ok_def)
next
  case (8 s e h r s' h')
  then show ?case using mem_appendEntry_ok [of s e h] by auto
next
  case (9 s i h)
  then show ?case
    by (simp add: mem_setLeafId_def mem_good_def has_leaf_def index_by_None_iff split: option.splits)
next
  case (10 s l h n r s' h')
  then show ?case using mem_setLeafId_ok [of s l h n r s' h'] by auto
next
  case (12 s l h)
  then show ?case
    by (auto simp: mem_setLeafId_def mem_good_def has_leaf_index Let_def split: prod.splits)
qed (auto simp: mem_good_def mem_findEntries_def mem_getPathToRoot_def mem_createEntryId_def mem_appendEntry_def
  dest: generateEntryId_fresh)

end
