(* ===== verification/Harness_Session.thy ===== *)
theory Harness_Session
  imports Session_Storage
begin

text \<open>
  The class \<^verbatim>\<open>Session\<close> of \<^verbatim>\<open>packages/agent/src/harness/session/session.ts\<close> over any
  storage, and what it promises for every storage that keeps the contract. The operations of one session are taken one
  after the other: an append awaits the storage three times, and two appends that overlap there are not modelled.
\<close>

section \<open>The operations\<close>

definition session_getBranch :: "'s storage_ops \<Rightarrow> jstr option \<Rightarrow> 's \<Rightarrow> (session_error + entry list) option" where
  "session_getBranch ops fromId s =
     (case fromId of
        Some i \<Rightarrow> op_getPathToRoot ops s (Some i)
      | None \<Rightarrow>
          (case op_getLeafId ops s of
             Inl e \<Rightarrow> Some (Inl e)
           | Inr leafId \<Rightarrow> op_getPathToRoot ops s leafId))"

definition session_buildContext ::
  "(jstr \<Rightarrow> jtime) \<Rightarrow> 's storage_ops \<Rightarrow> 's \<Rightarrow> (session_error + session_context) option" where
  "session_buildContext get_time ops s =
     map_option (map_sum id (buildSessionContext get_time)) (session_getBranch ops None s)"

definition session_getSessionName :: "'s storage_ops \<Rightarrow> 's \<Rightarrow> jstr option" where
  "session_getSessionName ops s =
     (case last_opt (op_findEntries ops s ET_session_info) of
        None \<Rightarrow> None
      | Some e \<Rightarrow>
          (case en_kind e of
             SessionInfoEntry name \<Rightarrow> or_undefined (map_option js_trim name)
           | _ \<Rightarrow> None))"

definition appendTypedEntry :: "'s storage_ops \<Rightarrow> entry \<Rightarrow> ('s, jstr) session_op" where
  "appendTypedEntry ops e s h =
     (case op_appendEntry ops e s h of
        (Inl x, s', h') \<Rightarrow> (Inl x, s', h')
      | (Inr u, s', h') \<Rightarrow> (Inr (en_id e), s', h'))"

text \<open>The entry that the append operations build: a fresh id, the leaf as parent, the present time.\<close>

definition append_at_leaf :: "'s storage_ops \<Rightarrow> entry_kind \<Rightarrow> ('s, jstr) session_op" where
  "append_at_leaf ops kind s h =
     (let (i, h1) = op_createEntryId ops s h in
      case op_getLeafId ops s of
        Inl x \<Rightarrow> (Inl x, s, h1)
      | Inr parent \<Rightarrow>
          (let (t, h2) = time_now h1 in
           appendTypedEntry ops \<lparr>en_id = i, en_parentId = parent, en_timestamp = t, en_kind = kind\<rparr> s h2))"

definition session_appendMessage :: "'s storage_ops \<Rightarrow> agent_message \<Rightarrow> ('s, jstr) session_op" where
  "session_appendMessage ops m = append_at_leaf ops (MessageEntry m)"

definition session_appendThinkingLevelChange :: "'s storage_ops \<Rightarrow> jstr \<Rightarrow> ('s, jstr) session_op" where
  "session_appendThinkingLevelChange ops level = append_at_leaf ops (ThinkingLevelChangeEntry level)"

definition session_appendModelChange :: "'s storage_ops \<Rightarrow> jstr \<Rightarrow> jstr \<Rightarrow> ('s, jstr) session_op" where
  "session_appendModelChange ops provider modelId = append_at_leaf ops (ModelChangeEntry provider modelId)"

definition session_appendCompaction ::
  "'s storage_ops \<Rightarrow> jstr \<Rightarrow> jstr \<Rightarrow> int \<Rightarrow> json option \<Rightarrow> bool option \<Rightarrow> ('s, jstr) session_op" where
  "session_appendCompaction ops summary firstKeptEntryId tokensBefore details fromHook =
     append_at_leaf ops (CompactionEntry \<lparr>cd_summary = summary, cd_firstKeptEntryId = firstKeptEntryId,
       cd_tokensBefore = tokensBefore, cd_details = details, cd_fromHook = fromHook, cd_firstKeptEntryIndex = None\<rparr>)"

definition session_appendCustomEntry :: "'s storage_ops \<Rightarrow> jstr \<Rightarrow> json option \<Rightarrow> ('s, jstr) session_op" where
  "session_appendCustomEntry ops customType data = append_at_leaf ops (CustomEntry customType data)"

definition session_appendCustomMessageEntry ::
  "'s storage_ops \<Rightarrow> jstr \<Rightarrow> message_content \<Rightarrow> bool \<Rightarrow> json option \<Rightarrow> ('s, jstr) session_op" where
  "session_appendCustomMessageEntry ops customType content display details =
     append_at_leaf ops (CustomMessageEntry customType content details display)"

definition session_appendLabel :: "'s storage_ops \<Rightarrow> jstr \<Rightarrow> jstr option \<Rightarrow> ('s, jstr) session_op" where
  "session_appendLabel ops targetId label s h =
     (if op_getEntry ops s targetId = None then (Inl (entry_error SE_not_found targetId), s, h)
      else append_at_leaf ops (LabelEntry targetId label) s h)"

definition session_appendSessionName :: "'s storage_ops \<Rightarrow> jstr \<Rightarrow> ('s, jstr) session_op" where
  "session_appendSessionName ops name = append_at_leaf ops (SessionInfoEntry (Some (js_trim name)))"

record summary_input =
  si_summary :: jstr
  si_details :: "json option"
  si_fromHook :: "bool option"

definition session_moveTo ::
  "'s storage_ops \<Rightarrow> jstr option \<Rightarrow> summary_input option \<Rightarrow> ('s, jstr option) session_op" where
  "session_moveTo ops entryId summary s h =
     (if entryId \<noteq> None \<and> op_getEntry ops s (the entryId) = None
      then (Inl (entry_error SE_not_found (the entryId)), s, h)
      else
        (case op_setLeafId ops entryId s h of
           (Inl x, s1, h1) \<Rightarrow> (Inl x, s1, h1)
         | (Inr u, s1, h1) \<Rightarrow>
             (case summary of
                None \<Rightarrow> (Inr None, s1, h1)
              | Some su \<Rightarrow>
                  (let (i, h2) = op_createEntryId ops s1 h1;
                       (t, h3) = time_now h2;
                       e = \<lparr>en_id = i, en_parentId = entryId, en_timestamp = t,
                            en_kind = BranchSummaryEntry (nullish entryId (js ''root'')) (si_summary su)
                              (si_details su) (si_fromHook su)\<rparr>
                   in case appendTypedEntry ops e s1 h3 of
                        (Inl x, s2, h4) \<Rightarrow> (Inl x, s2, h4)
                      | (Inr j, s2, h4) \<Rightarrow> (Inr (Some j), s2, h4)))))"

section \<open>What a session promises\<close>

definition moves_leaf :: "entry_kind \<Rightarrow> bool" where
  "moves_leaf k = (case k of LeafEntry t \<Rightarrow> True | _ \<Rightarrow> False)"

lemma leafId_of_other: "\<not> moves_leaf (en_kind e) \<Longrightarrow> leafIdAfterEntry e = Some (en_id e)"
  by (auto simp: moves_leaf_def leafIdAfterEntry_def split: entry_kind.splits)

context session_storage
begin

abbreviation (input) entries :: "'s \<Rightarrow> entry list" where
  "entries s \<equiv> op_getEntries ops s"

lemma tree: "good s \<Longrightarrow> tree_ok (entries s)" and leaf: "good s \<Longrightarrow> leaf_ok (entries s) (leaf_after (entries s))"
  using entries_ok by (auto dest: session_okD)

text \<open>The branch and the context of a session always exist; in particular the walk to the root ends.\<close>

lemma getBranch_leaf:
  "good s \<Longrightarrow> session_getBranch ops None s = Some (Inr (branch_of (entries s) (leaf_after (entries s))))"
  by (simp add: session_getBranch_def getLeafId getPathToRoot path_to_root_branch tree leaf)

lemma getBranch_entry:
  "good s \<Longrightarrow> i \<in> entry_ids (entries s) \<Longrightarrow>
   session_getBranch ops (Some i) s = Some (Inr (branch_of (entries s) (Some i)))"
  by (simp add: session_getBranch_def getPathToRoot path_to_root_branch tree)

lemma buildContext:
  "good s \<Longrightarrow> session_buildContext t ops s =
    Some (Inr (buildSessionContext t (branch_of (entries s) (leaf_after (entries s)))))"
  by (simp add: session_buildContext_def getBranch_leaf)

lemma appendTypedEntry_ok:
  assumes "good s" and "session_ok (entries s @ [e])" and "appendTypedEntry ops e s h = (r, s', h')"
  shows "good s' \<and> h' = h \<and> (case r of Inl x \<Rightarrow> entries s' = entries s
    | Inr i \<Rightarrow> i = en_id e \<and> entries s' = entries s @ [e])"
proof -
  obtain r1 s1 h1 where a: "op_appendEntry ops e s h = (r1, s1, h1)" by (metis prod_cases3)
  from appendEntry [OF assms(1,2) a] assms(3) a show ?thesis
    by (auto simp: appendTypedEntry_def split: sum.splits)
qed

text \<open>An append fails without a trace, or adds one entry below the leaf, which it becomes.\<close>

lemma append_at_leaf_ok:
  assumes "good s" and "\<not> moves_leaf kind" and "host_ids h (Suc n) (entry_ids (entries s))"
    and "append_at_leaf ops kind s h = (r, s', h')"
  shows "good s' \<and> (case r of Inl x \<Rightarrow> entries s' = entries s
    | Inr i \<Rightarrow> \<exists>e. entries s' = entries s @ [e] \<and> en_id e = i \<and> en_kind e = kind
        \<and> en_parentId e = leaf_after (entries s) \<and> host_ids h' n (entry_ids (entries s')))"
proof -
  obtain i h1 where i: "op_createEntryId ops s h = (i, h1)" by fastforce
  obtain t h2 where t: "time_now h1 = (t, h2)" by fastforce
  let ?e = "\<lparr>en_id = i, en_parentId = leaf_after (entries s), en_timestamp = t, en_kind = kind\<rparr>"
  from createEntryId [OF assms(1,3) i] have fresh: "i \<notin> entry_ids (entries s)" "i \<noteq> []"
    "host_ids h1 n (insert i (entry_ids (entries s)))" by auto
  have leaf_id: "leafIdAfterEntry ?e = Some i" using leafId_of_other [of ?e] assms(2) by simp
  have ok: "session_ok (entries s @ [?e])"
    unfolding session_ok_snoc using fresh tree [OF assms(1)] leaf [OF assms(1)] leaf_id by simp
  have "appendTypedEntry ops ?e s h2 = (r, s', h')"
    using assms(4) i t getLeafId [OF assms(1)] by (simp add: append_at_leaf_def)
  from appendTypedEntry_ok [OF assms(1) ok this] fresh(3) time_now_host_ids [OF t, of n]
  show ?thesis by (auto split: sum.splits)
qed

text \<open>So the branch grows by the entry, and the context by its message.\<close>

lemma branch_after_append:
  assumes "good s" and "good s'" and "\<not> moves_leaf (en_kind e)"
    and "entries s' = entries s @ [e]" and "en_parentId e = leaf_after (entries s)"
  shows "branch_of (entries s') (leaf_after (entries s')) = branch_of (entries s) (leaf_after (entries s)) @ [e]"
  using branch_of_snoc [of "entries s" e] tree [OF assms(2)] assms(3-5) leafId_of_other [OF assms(3)] by simp

lemma context_after_append:
  assumes "good s" and "\<not> moves_leaf kind" and "\<And>d. kind \<noteq> CompactionEntry d"
    and "host_ids h (Suc n) (entry_ids (entries s))"
    and "append_at_leaf ops kind s h = (Inr i, s', h')"
  obtains e where "en_kind e = kind" and "en_id e = i"
    and "session_buildContext t ops s = Some (Inr (buildSessionContext t (branch_of (entries s) (leaf_after (entries s)))))"
    and "session_buildContext t ops s' =
      Some (Inr (buildSessionContext t (branch_of (entries s) (leaf_after (entries s)) @ [e])))"
    and "path_messages t (branch_of (entries s) (leaf_after (entries s)) @ [e]) =
      path_messages t (branch_of (entries s) (leaf_after (entries s))) @ append_message t e"
proof -
  from append_at_leaf_ok [OF assms(1,2,4,5)] obtain e where e: "good s'" "entries s' = entries s @ [e]" "en_id e = i"
    "en_kind e = kind" "en_parentId e = leaf_after (entries s)" by auto
  have branch: "branch_of (entries s') (leaf_after (entries s')) = branch_of (entries s) (leaf_after (entries s)) @ [e]"
    using branch_after_append [OF assms(1) e(1) _ e(2,5)] assms(2) e(4) by simp
  have "is_path (entries s') (branch_of (entries s) (leaf_after (entries s)) @ [e])"
    using branch_of_is_path [OF tree [OF e(1)] leaf [OF e(1)]] branch by simp
  from distinct_path [OF tree [OF e(1)] this]
  have "distinct (map en_id (branch_of (entries s) (leaf_after (entries s)) @ [e]))" .
  moreover have "\<not> is_compaction e" using assms(3) e(4) by (auto simp: is_compaction_def split: entry_kind.splits)
  ultimately have "path_messages t (branch_of (entries s) (leaf_after (entries s)) @ [e]) =
      path_messages t (branch_of (entries s) (leaf_after (entries s))) @ append_message t e"
    by (rule path_messages_snoc)
  with that [OF e(4,3)] buildContext [OF assms(1)] buildContext [OF e(1)] branch show thesis by simp
qed

end

text \<open>With a storage that nothing can fail, appends succeed.\<close>

context reliable_storage
begin

lemma append_at_leaf_succeeds:
  assumes "good s"
  shows "\<exists>i s' h'. append_at_leaf ops kind s h = (Inr i, s', h')"
proof -
  obtain i h1 where i: "op_createEntryId ops s h = (i, h1)" by fastforce
  obtain t h2 where t: "time_now h1 = (t, h2)" by fastforce
  from append_succeeds [OF assms, of "\<lparr>en_id = i, en_parentId = leaf_after (op_getEntries ops s), en_timestamp = t,
      en_kind = kind\<rparr>" h2] i t getLeafId [OF assms]
  show ?thesis by (auto simp: append_at_leaf_def appendTypedEntry_def)
qed

text \<open>Moving to an entry: nothing is lost, and the branch is that of the entry, with the summary if there is one.\<close>

lemma moveTo_succeeds:
  assumes "good s" and "leaf_ok (op_getEntries ops s) l"
    and "host_ids h (Suc (Suc n)) (entry_ids (op_getEntries ops s))"
  obtains j s' h' ext where "session_moveTo ops l su s h = (Inr j, s', h')" and "good s'"
    and "op_getEntries ops s' = op_getEntries ops s @ ext"
    and "host_ids h' n (entry_ids (op_getEntries ops s'))"
    and "case su of
        None \<Rightarrow> j = None \<and> branch_of (op_getEntries ops s') (leaf_after (op_getEntries ops s')) = branch_of (op_getEntries ops s) l
      | Some u \<Rightarrow> \<exists>e. branch_of (op_getEntries ops s') (leaf_after (op_getEntries ops s'))
            = branch_of (op_getEntries ops s) l @ [e] \<and> j = Some (en_id e)
          \<and> en_kind e = BranchSummaryEntry (nullish l (js ''root'')) (si_summary u) (si_details u) (si_fromHook u)"
proof -
  have l: "\<not> (l \<noteq> None \<and> op_getEntry ops s (the l) = None)"
    using assms(2) by (cases rule: leaf_okE) (auto simp: getEntry [OF assms(1)] index_by_None_iff)
  obtain s1 h1 where set: "op_setLeafId ops l s h = (Inr (), s1, h1)"
    using setLeaf_succeeds [OF assms(1,2)] by blast
  from setLeafId [OF assms(1,2,3) set] obtain e1 where s1: "good s1"
    "op_getEntries ops s1 = op_getEntries ops s @ [e1]" "en_kind e1 = LeafEntry l"
    "host_ids h1 (Suc n) (entry_ids (op_getEntries ops s1))" by auto
  have leaf1: "leaf_after (op_getEntries ops s1) = l" using s1(2,3) by (simp add: leafIdAfterEntry_def)
  have branch1: "branch_of (op_getEntries ops s1) l = branch_of (op_getEntries ops s) l"
    using branch_of_mono [of "op_getEntries ops s" "[e1]" l] tree [OF assms(1)] tree [OF s1(1)] s1(2) assms(2) by simp
  show thesis
  proof (cases su)
    case None
    with that [of None s1 h1 "[e1]"] s1 set l leaf1 branch1 less_host_ids [OF s1(4)]
    show thesis by (simp add: session_moveTo_def)
  next
    case (Some u)
    obtain i h2 where i: "op_createEntryId ops s1 h1 = (i, h2)" by fastforce
    obtain t h3 where t: "time_now h2 = (t, h3)" by fastforce
    let ?e = "\<lparr>en_id = i, en_parentId = l, en_timestamp = t, en_kind = BranchSummaryEntry (nullish l (js ''root''))
      (si_summary u) (si_details u) (si_fromHook u)\<rparr>"
    from createEntryId [OF s1(1,4) i] have fresh: "i \<notin> entry_ids (op_getEntries ops s1)" "i \<noteq> []"
      "host_ids h2 n (insert i (entry_ids (op_getEntries ops s1)))" by auto
    have leaf_id: "leafIdAfterEntry ?e = Some i" by (simp add: leafIdAfterEntry_def)
    have "leaf_ok (op_getEntries ops s1) l" using leaf [OF s1(1)] leaf1 by simp
    then have ok: "session_ok (op_getEntries ops s1 @ [?e])"
      unfolding session_ok_snoc using fresh tree [OF s1(1)] leaf_id by simp
    obtain s2 where s2: "op_appendEntry ops ?e s1 h3 = (Inr (), s2, h3)" using append_succeeds [OF s1(1)] by blast
    from appendEntry [OF s1(1) ok s2] have g2: "good s2" "op_getEntries ops s2 = op_getEntries ops s1 @ [?e]" by auto
    have branch2: "branch_of (op_getEntries ops s2) (leaf_after (op_getEntries ops s2)) = branch_of (op_getEntries ops s) l @ [?e]"
      using branch_of_snoc [of "op_getEntries ops s1" ?e] tree [OF g2(1)] leaf_id branch1 by (simp add: g2(2))
    have res: "session_moveTo ops l su s h = (Inr (Some i), s2, h3)"
      using l set i t s2 by (simp add: session_moveTo_def Some appendTypedEntry_def)
    have "host_ids h3 n (entry_ids (op_getEntries ops s2))"
      using fresh(3) time_now_host_ids [OF t] by (simp add: g2(2))
    with that [OF res g2(1), of "[e1, ?e]"] branch2 g2(2) s1(2) show thesis by (simp add: Some)
  qed
qed

end

text \<open>
  C12: For a well-formed session in memory and a host with an id left, appending a message always succeeds,
  the session stays well-formed, and its context gains exactly that message at the end.
\<close>

theorem append_message_extends_context:
  assumes "mem_good s" and "host_ids h (Suc n) (entry_ids (ms_entries s))"
  shows "\<exists>i s' h' c c'. session_appendMessage mem_ops m s h = (Inr i, s', h')
    \<and> mem_good s' \<and> host_ids h' n (entry_ids (ms_entries s'))
    \<and> session_buildContext t mem_ops s = Some (Inr c) \<and> session_buildContext t mem_ops s' = Some (Inr c')
    \<and> sc_messages c' = sc_messages c @ [m]"
proof -
  obtain i s' h' where a: "append_at_leaf mem_ops (MessageEntry m) s h = (Inr i, s', h')"
    using mem.append_at_leaf_succeeds [OF assms(1)] by blast
  have ids: "host_ids h (Suc n) (entry_ids (op_getEntries mem_ops s))" using assms(2) by simp
  have "\<not> moves_leaf (MessageEntry m)" by (simp add: moves_leaf_def)
  note kind = this
  from mem.append_at_leaf_ok [OF assms(1) kind ids a]
  have ok: "mem_good s'" "host_ids h' n (entry_ids (ms_entries s'))" by auto
  have plain: "MessageEntry m \<noteq> CompactionEntry d" for d by simp
  obtain e where e: "en_kind e = MessageEntry m"
    "session_buildContext t mem_ops s =
      Some (Inr (buildSessionContext t (branch_of (ms_entries s) (leaf_after (ms_entries s)))))"
    "session_buildContext t mem_ops s' =
      Some (Inr (buildSessionContext t (branch_of (ms_entries s) (leaf_after (ms_entries s)) @ [e])))"
    "path_messages t (branch_of (ms_entries s) (leaf_after (ms_entries s)) @ [e]) =
      path_messages t (branch_of (ms_entries s) (leaf_after (ms_entries s))) @ append_message t e"
    using mem.context_after_append [OF assms(1) kind plain ids a, of t] unfolding mem_ops_simps by metis
  have "session_appendMessage mem_ops m s h = (Inr i, s', h')" by (simp add: session_appendMessage_def a)
  moreover have "sc_messages (buildSessionContext t (branch_of (ms_entries s) (leaf_after (ms_entries s)) @ [e])) =
      sc_messages (buildSessionContext t (branch_of (ms_entries s) (leaf_after (ms_entries s)))) @ [m]"
    using e(1,4) by (simp add: buildSessionContext_def append_message_def)
  ultimately show ?thesis using ok e(2,3) by blast
qed

text \<open>
  Moving the leaf of a session in memory to one of its entries, or before the first one, always succeeds and
  loses no entry; the context then is that of the branch of the entry, followed by the summary of the branch left
  when one is given and not empty.
\<close>

theorem move_to_restores_context:
  assumes "mem_good s" and "leaf_ok (ms_entries s) l" and "host_ids h 2 (entry_ids (ms_entries s))"
  shows "\<exists>j s' h' ext c. session_moveTo mem_ops l su s h = (Inr j, s', h') \<and> mem_good s'
    \<and> ms_entries s' = ms_entries s @ ext \<and> session_buildContext t mem_ops s' = Some (Inr c)
    \<and> (case su of
         None \<Rightarrow> c = buildSessionContext t (branch_of (ms_entries s) l)
       | Some u \<Rightarrow> \<exists>ts. sc_messages c = path_messages t (branch_of (ms_entries s) l)
          @ (if si_summary u = [] then []
             else [BranchSummary (createBranchSummaryMessage t (si_summary u) (nullish l (js ''root'')) ts)]))"
proof -
  have good: "mem_good s" "leaf_ok (op_getEntries mem_ops s) l"
    "host_ids h (Suc (Suc 0)) (entry_ids (op_getEntries mem_ops s))"
    using assms by (simp_all add: numeral_2_eq_2)
  obtain j s' h' ext where res: "session_moveTo mem_ops l su s h = (Inr j, s', h')" "mem_good s'"
    "ms_entries s' = ms_entries s @ ext"
    and branch: "case su of
        None \<Rightarrow> j = None \<and> branch_of (ms_entries s') (leaf_after (ms_entries s')) = branch_of (ms_entries s) l
      | Some u \<Rightarrow> \<exists>e. branch_of (ms_entries s') (leaf_after (ms_entries s')) = branch_of (ms_entries s) l @ [e]
          \<and> j = Some (en_id e) \<and> en_kind e = BranchSummaryEntry (nullish l (js ''root'')) (si_summary u) (si_details u) (si_fromHook u)"
    by (rule mem.moveTo_succeeds [OF good, of su]) (simp only: mem_ops_simps)
  have ctx: "session_buildContext t mem_ops s' =
      Some (Inr (buildSessionContext t (branch_of (ms_entries s') (leaf_after (ms_entries s')))))"
    using mem.buildContext [OF res(2)] by simp
  show ?thesis
  proof (cases su)
    case None
    with res ctx branch show ?thesis by auto
  next
    case (Some u)
    with branch obtain e where e: "branch_of (ms_entries s') (leaf_after (ms_entries s')) = branch_of (ms_entries s) l @ [e]"
      "en_kind e = BranchSummaryEntry (nullish l (js ''root'')) (si_summary u) (si_details u) (si_fromHook u)" by auto
    have path: "is_path (ms_entries s') (branch_of (ms_entries s) l @ [e])"
      using branch_of_is_path [of "ms_entries s'" "leaf_after (ms_entries s')"] mem.tree [OF res(2)] mem.leaf [OF res(2)] e(1)
      by simp
    have "tree_ok (ms_entries s')" using mem.tree [OF res(2)] by simp
    then have "distinct (map en_id (branch_of (ms_entries s) l @ [e]))" using path by (rule distinct_path)
    moreover have "\<not> is_compaction e" using e(2) by (simp add: is_compaction_def)
    ultimately have "path_messages t (branch_of (ms_entries s) l @ [e])
        = path_messages t (branch_of (ms_entries s) l) @ append_message t e"
      by (rule path_messages_snoc)
    moreover have "append_message t e = (if si_summary u = [] then []
        else [BranchSummary (createBranchSummaryMessage t (si_summary u) (nullish l (js ''root'')) (en_timestamp e))])"
      using e(2) by (simp add: append_message_def)
    ultimately show ?thesis using res ctx e(1) Some by (auto simp: buildSessionContext_def)
  qed
qed

text \<open>A session of two messages in memory, and a host that counts.\<close>

definition sample_host :: host where
  "sample_host = \<lparr>ho_uuid = counting_uuid, ho_next = 0, ho_clock = (\<lambda>n. js ''t''), ho_ticks = 0\<rparr>"

definition sample_entries :: "entry list" where
  "sample_entries = [sample_entry ''a'' None (MessageEntry (Llm (sample_user ''one''))),
     sample_entry ''b'' (Some ''a'') (MessageEntry (Llm (sample_user ''two'')))]"

definition sample_storage :: mem_storage where
  "sample_storage = \<lparr>ms_metadata = \<lparr>sm_id = js ''s'', sm_createdAt = js ''t''\<rparr>, ms_entries = sample_entries,
     ms_byId = index_by en_id sample_entries, ms_labelsById = buildLabelsById sample_entries,
     ms_leafId = leaf_after sample_entries\<rparr>"

lemma sample_session_ok: "session_ok sample_entries"
  by (simp add: sample_entries_def session_ok_def tree_ok_def parent_before_def leaf_after_def sample_entry_def
    leafIdAfterEntry_def less_Suc_eq)

lemma sample_storage_good: "mem_good sample_storage"
  by (simp add: mem_good_def sample_storage_def sample_session_ok)

lemma sample_host_ids: "host_ids sample_host 2 (entry_ids (ms_entries sample_storage))"
  unfolding host_ids_def sample_host_def host.simps
  by (rule counting_uuid_supply)
    (simp_all add: sample_storage_def sample_entries_def sample_entry_def)

theorem append_message_extends_context_witness:
  "\<exists>i s' h' c c'. session_appendMessage mem_ops (Llm (sample_user ''x'')) sample_storage sample_host = (Inr i, s', h')
    \<and> mem_good s' \<and> host_ids h' 1 (entry_ids (ms_entries s'))
    \<and> session_buildContext (\<lambda>t. None) mem_ops sample_storage = Some (Inr c)
    \<and> session_buildContext (\<lambda>t. None) mem_ops s' = Some (Inr c')
    \<and> sc_messages c' = sc_messages c @ [Llm (sample_user ''x'')]"
  by (rule append_message_extends_context [OF sample_storage_good])
    (use sample_host_ids in \<open>simp add: numeral_2_eq_2\<close>)

theorem move_to_restores_context_witness:
  "\<exists>j s' h' ext c. session_moveTo mem_ops (Some (js ''a'')) None sample_storage sample_host = (Inr j, s', h')
    \<and> mem_good s' \<and> ms_entries s' = ms_entries sample_storage @ ext
    \<and> session_buildContext (\<lambda>t. None) mem_ops s' = Some (Inr c)
    \<and> c = buildSessionContext (\<lambda>t. None) (branch_of (ms_entries sample_storage) (Some (js ''a'')))"
proof -
  have "leaf_ok (ms_entries sample_storage) (Some (js ''a''))"
    by (simp add: sample_storage_def sample_entries_def sample_entry_def)
  from move_to_restores_context [OF sample_storage_good this sample_host_ids, of None "\<lambda>t. None"]
  show ?thesis by simp
qed

end
