(* ===== verification/Jsonl_Storage.thy ===== *)
theory Jsonl_Storage
  imports File_System Harness_Session
begin

text \<open>
  Sessions in files of one JSON value per line (\<^verbatim>\<open>packages/agent/src/harness/session/jsonl-storage.ts\<close>) over any
  \<^verbatim>\<open>FileSystem\<close>.

  A line is what \<^verbatim>\<open>JSON.parse\<close> makes of it, reduced to what the code looks at: whether it is blank, no
  JSON or no object, and otherwise the fields that the checks read. \<open>lo_payload\<close> is the rest of the object as the program
  sees it through the cast to an entry of its type. That \<^verbatim>\<open>JSON.stringify\<close> writes an entry as one line that
  is not blank and reads back with the same fields is taken from the language.
\<close>

section \<open>Lines\<close>

datatype json_field = Undefined | Null | Text jstr | Number int | OtherValue

record line_object =
  lo_type :: json_field
  lo_version :: json_field
  lo_id :: json_field
  lo_timestamp :: json_field
  lo_cwd :: json_field
  lo_parentSession :: json_field
  lo_parentId :: json_field
  lo_targetId :: json_field
  lo_payload :: entry_kind

datatype jsonl_line = BlankText | NotJson | NotObject | ObjectLine line_object

record jsonl_header =
  jh_id :: jstr
  jh_timestamp :: jstr
  jh_cwd :: jstr
  jh_parentSession :: "jstr option"

record jsonl_metadata =
  jm_id :: jstr
  jm_createdAt :: jstr
  jm_cwd :: jstr
  jm_path :: jstr
  jm_parentSessionPath :: "jstr option"

fun type_text :: "entry_kind \<Rightarrow> jstr" where
  "type_text (MessageEntry m) = js ''message''"
| "type_text (ThinkingLevelChangeEntry l) = js ''thinking_level_change''"
| "type_text (ModelChangeEntry p m) = js ''model_change''"
| "type_text (CompactionEntry d) = js ''compaction''"
| "type_text (BranchSummaryEntry f s d h) = js ''branch_summary''"
| "type_text (CustomEntry t d) = js ''custom''"
| "type_text (CustomMessageEntry t c d display) = js ''custom_message''"
| "type_text (LabelEntry t l) = js ''label''"
| "type_text (SessionInfoEntry n) = js ''session_info''"
| "type_text (LeafEntry t) = js ''leaf''"

definition null_field :: "jstr option \<Rightarrow> json_field" where
  "null_field x = (case x of None \<Rightarrow> Null | Some s \<Rightarrow> Text s)"

definition opt_field :: "jstr option \<Rightarrow> json_field" where
  "opt_field x = (case x of None \<Rightarrow> Undefined | Some s \<Rightarrow> Text s)"

text \<open>\<^verbatim>\<open>JSON.stringify\<close> of a header and of an entry.\<close>

definition header_line :: "jsonl_header \<Rightarrow> jsonl_line" where
  "header_line h = ObjectLine
     \<lparr>lo_type = Text (js ''session''), lo_version = Number 3, lo_id = Text (jh_id h), lo_timestamp = Text (jh_timestamp h),
      lo_cwd = Text (jh_cwd h), lo_parentSession = opt_field (jh_parentSession h), lo_parentId = Undefined,
      lo_targetId = Undefined, lo_payload = SessionInfoEntry None\<rparr>"

definition entry_line :: "entry \<Rightarrow> jsonl_line" where
  "entry_line e = ObjectLine
     \<lparr>lo_type = Text (type_text (en_kind e)), lo_version = Undefined, lo_id = Text (en_id e),
      lo_timestamp = Text (en_timestamp e), lo_cwd = Undefined, lo_parentSession = Undefined,
      lo_parentId = null_field (en_parentId e),
      lo_targetId = (case en_kind e of LeafEntry t \<Rightarrow> null_field t | LabelEntry t l \<Rightarrow> Text t | _ \<Rightarrow> Undefined),
      lo_payload = en_kind e\<rparr>"

section \<open>Reading\<close>

definition invalidSession :: "jstr \<Rightarrow> string \<Rightarrow> session_error" where
  "invalidSession path m =
     \<lparr>se_code = SE_invalid_session, se_message = js ''Invalid JSONL session file '' @ path @ js '': '' @ js m\<rparr>"

definition invalidEntry :: "jstr \<Rightarrow> nat \<Rightarrow> string \<Rightarrow> session_error" where
  "invalidEntry path n m =
     \<lparr>se_code = SE_invalid_entry,
      se_message = js ''Invalid JSONL session file '' @ path @ js '': line '' @ nat_text n @ js '' '' @ js m\<rparr>"

definition nonempty_text :: "json_field \<Rightarrow> bool" where
  "nonempty_text x \<longleftrightarrow> (case x of Text s \<Rightarrow> s \<noteq> [] | _ \<Rightarrow> False)"

definition text_of :: "json_field \<Rightarrow> jstr" where
  "text_of x = (case x of Text s \<Rightarrow> s | _ \<Rightarrow> [])"

definition opt_text :: "json_field \<Rightarrow> jstr option" where
  "opt_text x = (case x of Text s \<Rightarrow> Some s | _ \<Rightarrow> None)"

definition is_text :: "json_field \<Rightarrow> bool" where
  "is_text x \<longleftrightarrow> (case x of Text s \<Rightarrow> True | _ \<Rightarrow> False)"

definition parseHeaderLine :: "jsonl_line \<Rightarrow> jstr \<Rightarrow> session_error + jsonl_header" where
  "parseHeaderLine line path =
     (case line of
        ObjectLine p \<Rightarrow>
          (if lo_type p \<noteq> Text (js ''session'') then Inl (invalidSession path ''first line is not a valid session header'')
           else if lo_version p \<noteq> Number 3 then Inl (invalidSession path ''unsupported session version'')
           else if \<not> nonempty_text (lo_id p) then Inl (invalidSession path ''session header is missing id'')
           else if \<not> nonempty_text (lo_timestamp p) then Inl (invalidSession path ''session header is missing timestamp'')
           else if \<not> nonempty_text (lo_cwd p) then Inl (invalidSession path ''session header is missing cwd'')
           else if lo_parentSession p \<noteq> Undefined \<and> \<not> is_text (lo_parentSession p)
           then Inl (invalidSession path ''session header parentSession must be a string'')
           else Inr \<lparr>jh_id = text_of (lo_id p), jh_timestamp = text_of (lo_timestamp p), jh_cwd = text_of (lo_cwd p),
                  jh_parentSession = opt_text (lo_parentSession p)\<rparr>)
      | _ \<Rightarrow> Inl (invalidSession path ''first line is not a valid session header''))"

definition object_entry :: "line_object \<Rightarrow> entry" where
  "object_entry p =
     \<lparr>en_id = text_of (lo_id p), en_parentId = opt_text (lo_parentId p), en_timestamp = text_of (lo_timestamp p),
      en_kind = (if lo_type p = Text (js ''leaf'') then LeafEntry (opt_text (lo_targetId p)) else lo_payload p)\<rparr>"

definition parseEntryLine :: "jsonl_line \<Rightarrow> jstr \<Rightarrow> nat \<Rightarrow> session_error + entry" where
  "parseEntryLine line path n =
     (case line of
        ObjectLine p \<Rightarrow>
          (if \<not> is_text (lo_type p) then Inl (invalidEntry path n ''is missing entry type'')
           else if \<not> nonempty_text (lo_id p) then Inl (invalidEntry path n ''is missing entry id'')
           else if lo_parentId p \<noteq> Null \<and> \<not> is_text (lo_parentId p)
           then Inl (invalidEntry path n ''has invalid parentId'')
           else if \<not> nonempty_text (lo_timestamp p) then Inl (invalidEntry path n ''is missing timestamp'')
           else if lo_type p = Text (js ''leaf'') \<and> lo_targetId p \<noteq> Null \<and> \<not> is_text (lo_targetId p)
           then Inl (invalidEntry path n ''has invalid targetId'')
           else Inr (object_entry p))
      | NotObject \<Rightarrow> Inl (invalidEntry path n ''is not a valid session entry'')
      | _ \<Rightarrow> Inl (invalidEntry path n ''is not valid JSON''))"

definition headerToSessionMetadata :: "jsonl_header \<Rightarrow> jstr \<Rightarrow> jsonl_metadata" where
  "headerToSessionMetadata h path =
     \<lparr>jm_id = jh_id h, jm_createdAt = jh_timestamp h, jm_cwd = jh_cwd h, jm_path = path,
      jm_parentSessionPath = jh_parentSession h\<rparr>"

definition getFileSystemResultOrThrow :: "file_error + 'a \<Rightarrow> jstr \<Rightarrow> session_error + 'a" where
  "getFileSystemResultOrThrow r m =
     (case r of
        Inl e \<Rightarrow>
          Inl \<lparr>se_code = (if fe_code e = FE_not_found then SE_not_found else SE_storage),
               se_message = m @ js '': '' @ fe_message e\<rparr>
      | Inr v \<Rightarrow> Inr v)"

type_synonym 'f jsonl_fs = "('f, jsonl_line) file_system"

definition loadJsonlSessionMetadata ::
  "'f jsonl_fs \<Rightarrow> jstr \<Rightarrow> 'f \<Rightarrow> (session_error + jsonl_metadata) \<times> 'f" where
  "loadJsonlSessionMetadata fs path f =
     (let (r, f') = fs_readTextLines fs path (Some 1) f in
      (case getFileSystemResultOrThrow r (js ''Failed to read session header '' @ path) of
         Inl e \<Rightarrow> Inl e
       | Inr ls \<Rightarrow>
           (case ls of
              l # _ \<Rightarrow>
                (if l \<noteq> BlankText then map_sum id (\<lambda>h. headerToSessionMetadata h path) (parseHeaderLine l path)
                 else Inl (invalidSession path ''missing session header''))
            | [] \<Rightarrow> Inl (invalidSession path ''missing session header'')), f'))"

text \<open>The loop over the lines after the header: \<open>n\<close> is the number of the line.\<close>

fun parse_entry_lines ::
  "jstr \<Rightarrow> nat \<Rightarrow> jsonl_line list \<Rightarrow> entry list \<Rightarrow> jstr option \<Rightarrow> session_error + entry list \<times> jstr option" where
  "parse_entry_lines path n [] entries leafId = Inr (entries, leafId)"
| "parse_entry_lines path n (l # ls) entries leafId =
     (case parseEntryLine l path n of
        Inl e \<Rightarrow> Inl e
      | Inr entry \<Rightarrow> parse_entry_lines path (Suc n) ls (entries @ [entry]) (leafIdAfterEntry entry))"

definition loadJsonlStorage ::
  "'f jsonl_fs \<Rightarrow> jstr \<Rightarrow> 'f \<Rightarrow> (session_error + jsonl_header \<times> entry list \<times> jstr option) \<times> 'f" where
  "loadJsonlStorage fs path f =
     (let (r, f') = fs_readTextFile fs path f in
      (case getFileSystemResultOrThrow r (js ''Failed to read session '' @ path) of
         Inl e \<Rightarrow> Inl e
       | Inr content \<Rightarrow>
           (case filter (\<lambda>l. l \<noteq> BlankText) content of
              [] \<Rightarrow> Inl (invalidSession path ''missing session header'')
            | l # ls \<Rightarrow>
                (case parseHeaderLine l path of
                   Inl e \<Rightarrow> Inl e
                 | Inr header \<Rightarrow> map_sum id (\<lambda>p. (header, p)) (parse_entry_lines path 2 ls [] None))), f'))"

section \<open>The storage\<close>

record 'f jsonl_storage =
  jl_fs :: 'f
  jl_filePath :: jstr
  jl_metadata :: jsonl_metadata
  jl_entries :: "entry list"
  jl_byId :: "jstr \<rightharpoonup> entry"
  jl_labelsById :: "jstr \<rightharpoonup> jstr"
  jl_currentLeafId :: "jstr option"

definition jsonl_storage_of :: "'f \<Rightarrow> jstr \<Rightarrow> jsonl_header \<Rightarrow> entry list \<Rightarrow> jstr option \<Rightarrow> 'f jsonl_storage" where
  "jsonl_storage_of f path header entries leafId =
     \<lparr>jl_fs = f, jl_filePath = path, jl_metadata = headerToSessionMetadata header path, jl_entries = entries,
      jl_byId = index_by en_id entries, jl_labelsById = buildLabelsById entries, jl_currentLeafId = leafId\<rparr>"

definition jsonl_open :: "'f jsonl_fs \<Rightarrow> jstr \<Rightarrow> 'f \<Rightarrow> (session_error + 'f jsonl_storage) \<times> 'f" where
  "jsonl_open fs path f =
     (case loadJsonlStorage fs path f of
        (Inl e, f') \<Rightarrow> (Inl e, f')
      | (Inr (header, entries, leafId), f') \<Rightarrow> (Inr (jsonl_storage_of f' path header entries leafId), f'))"

record jsonl_create_options =
  jo_cwd :: jstr
  jo_sessionId :: jstr
  jo_parentSessionPath :: "jstr option"

definition jsonl_create ::
  "'f jsonl_fs \<Rightarrow> jstr \<Rightarrow> jsonl_create_options \<Rightarrow> 'f \<Rightarrow> host \<Rightarrow> (session_error + 'f jsonl_storage) \<times> 'f \<times> host" where
  "jsonl_create fs path opts f h =
     (let (t, h1) = time_now h;
          header = \<lparr>jh_id = jo_sessionId opts, jh_timestamp = t, jh_cwd = jo_cwd opts,
            jh_parentSession = jo_parentSessionPath opts\<rparr>;
          (r, f1) = fs_writeFile fs path [header_line header] f
      in (case getFileSystemResultOrThrow r (js ''Failed to create session '' @ path) of
            Inl e \<Rightarrow> Inl e
          | Inr u \<Rightarrow> Inr (jsonl_storage_of f1 path header [] None), f1, h1))"

definition jsonl_getLeafId :: "'f jsonl_storage \<Rightarrow> session_error + jstr option" where
  "jsonl_getLeafId s =
     (if \<not> has_leaf (jl_byId s) (jl_currentLeafId s)
      then Inl (entry_error SE_invalid_session (the (jl_currentLeafId s)))
      else Inr (jl_currentLeafId s))"

definition jsonl_setLeafId :: "'f jsonl_fs \<Rightarrow> jstr option \<Rightarrow> ('f jsonl_storage, unit) session_op" where
  "jsonl_setLeafId fs leafId s h =
     (if \<not> has_leaf (jl_byId s) leafId then (Inl (entry_error SE_not_found (the leafId)), s, h)
      else
        (let (i, h1) = generateEntryId (jl_byId s) h;
             (t, h2) = time_now h1;
             entry = \<lparr>en_id = i, en_parentId = jl_currentLeafId s, en_timestamp = t, en_kind = LeafEntry leafId\<rparr>;
             (r, f) = fs_appendFile fs (jl_filePath s) (entry_line entry) (jl_fs s);
             s1 = s\<lparr>jl_fs := f\<rparr>
         in case getFileSystemResultOrThrow r (js ''Failed to append session leaf '' @ i) of
              Inl e \<Rightarrow> (Inl e, s1, h2)
            | Inr u \<Rightarrow>
                (Inr (), s1\<lparr>jl_entries := jl_entries s @ [entry], jl_byId := (jl_byId s)(i \<mapsto> entry),
                   jl_currentLeafId := leafId\<rparr>, h2)))"

definition jsonl_createEntryId :: "'f jsonl_storage \<Rightarrow> host \<Rightarrow> jstr \<times> host" where
  "jsonl_createEntryId s h = generateEntryId (jl_byId s) h"

definition jsonl_appendEntry :: "'f jsonl_fs \<Rightarrow> entry \<Rightarrow> ('f jsonl_storage, unit) session_op" where
  "jsonl_appendEntry fs e s h =
     (let (r, f) = fs_appendFile fs (jl_filePath s) (entry_line e) (jl_fs s); s1 = s\<lparr>jl_fs := f\<rparr> in
      case getFileSystemResultOrThrow r (js ''Failed to append session entry '' @ en_id e) of
        Inl x \<Rightarrow> (Inl x, s1, h)
      | Inr u \<Rightarrow>
          (Inr (), s1\<lparr>jl_entries := jl_entries s @ [e], jl_byId := (jl_byId s)(en_id e \<mapsto> e),
             jl_labelsById := updateLabelCache (jl_labelsById s) e, jl_currentLeafId := leafIdAfterEntry e\<rparr>, h))"

definition jsonl_findEntries :: "'f jsonl_storage \<Rightarrow> entry_type \<Rightarrow> entry list" where
  "jsonl_findEntries s t = filter (\<lambda>e. kind_type (en_kind e) = t) (jl_entries s)"

definition jsonl_getPathToRoot :: "'f jsonl_storage \<Rightarrow> jstr option \<Rightarrow> (session_error + entry list) option" where
  "jsonl_getPathToRoot s leafId = path_to_root (jl_entries s) (jl_byId s) leafId"

definition jsonl_ops :: "'f jsonl_fs \<Rightarrow> 'f jsonl_storage storage_ops" where
  "jsonl_ops fs =
     \<lparr>op_getLeafId = jsonl_getLeafId, op_setLeafId = jsonl_setLeafId fs, op_createEntryId = jsonl_createEntryId,
      op_appendEntry = jsonl_appendEntry fs, op_getEntry = jl_byId, op_findEntries = jsonl_findEntries,
      op_getLabel = jl_labelsById, op_getPathToRoot = jsonl_getPathToRoot, op_getEntries = jl_entries\<rparr>"

section \<open>It refines the storage in memory\<close>

text \<open>The storage without its file.\<close>

definition mem_of :: "'f jsonl_storage \<Rightarrow> mem_storage" where
  "mem_of s =
     \<lparr>ms_metadata = \<lparr>sm_id = jm_id (jl_metadata s), sm_createdAt = jm_createdAt (jl_metadata s)\<rparr>,
      ms_entries = jl_entries s, ms_byId = jl_byId s, ms_labelsById = jl_labelsById s, ms_leafId = jl_currentLeafId s\<rparr>"

definition jsonl_good :: "'f jsonl_storage \<Rightarrow> bool" where
  "jsonl_good s \<longleftrightarrow> mem_good (mem_of s)"

lemma mem_of_simps [simp]:
  "ms_entries (mem_of s) = jl_entries s" "ms_byId (mem_of s) = jl_byId s"
  "ms_labelsById (mem_of s) = jl_labelsById s" "ms_leafId (mem_of s) = jl_currentLeafId s"
  "mem_of (s\<lparr>jl_fs := f\<rparr>) = mem_of s"
  by (simp_all add: mem_of_def)

lemma jsonl_reads:
  "jsonl_getLeafId s = mem_getLeafId (mem_of s)"
  "jsonl_createEntryId s h = mem_createEntryId (mem_of s) h"
  "jsonl_findEntries s t = mem_findEntries (mem_of s) t"
  "jsonl_getPathToRoot s l = mem_getPathToRoot (mem_of s) l"
  by (simp_all add: jsonl_getLeafId_def mem_getLeafId_def jsonl_createEntryId_def mem_createEntryId_def
    jsonl_findEntries_def mem_findEntries_def jsonl_getPathToRoot_def mem_getPathToRoot_def)

lemma getFileSystemResultOrThrow_simps [simp]:
  "getFileSystemResultOrThrow (Inr v) m = Inr v"
  "getFileSystemResultOrThrow r m = Inr v \<longleftrightarrow> r = Inr v"
  by (auto simp: getFileSystemResultOrThrow_def split: sum.splits)

lemma jsonl_append_refines:
  assumes "jsonl_appendEntry fs e s h = (r, s', h')"
  shows "case r of Inl x \<Rightarrow> mem_of s' = mem_of s \<and> h' = h
    | Inr u \<Rightarrow> mem_appendEntry e (mem_of s) h = (Inr (), mem_of s', h')"
  using assms
  by (auto simp: jsonl_appendEntry_def mem_appendEntry_def mem_of_def Let_def split: prod.splits sum.splits)

lemma jsonl_setLeaf_refines:
  assumes "jsonl_setLeafId fs l s h = (r, s', h')"
  shows "case r of Inl x \<Rightarrow> mem_of s' = mem_of s \<and> h' \<in> {h, snd (time_now (snd (generateEntryId (jl_byId s) h)))}
    | Inr u \<Rightarrow> mem_setLeafId l (mem_of s) h = (Inr (), mem_of s', h')"
  using assms
  by (auto simp: jsonl_setLeafId_def mem_setLeafId_def mem_of_def Let_def split: prod.splits sum.splits if_splits)

lemma jsonl_ops_simps [simp]:
  "op_getLeafId (jsonl_ops fs) = jsonl_getLeafId" "op_setLeafId (jsonl_ops fs) = jsonl_setLeafId fs"
  "op_createEntryId (jsonl_ops fs) = jsonl_createEntryId" "op_appendEntry (jsonl_ops fs) = jsonl_appendEntry fs"
  "op_getEntry (jsonl_ops fs) = jl_byId" "op_findEntries (jsonl_ops fs) = jsonl_findEntries"
  "op_getLabel (jsonl_ops fs) = jl_labelsById" "op_getPathToRoot (jsonl_ops fs) = jsonl_getPathToRoot"
  "op_getEntries (jsonl_ops fs) = jl_entries"
  by (simp_all add: jsonl_ops_def)

lemma host_ids_mono: "host_ids h n I \<Longrightarrow> J \<subseteq> I \<Longrightarrow> host_ids h n J"
  unfolding host_ids_def uuid_supply_def by blast

lemma jsonl_setLeafId_ok:
  assumes "jsonl_good s" and "leaf_ok (jl_entries s) l" and "host_ids h (Suc n) (entry_ids (jl_entries s))"
    and "jsonl_setLeafId fs l s h = (r, s', h')"
  shows "jsonl_good s' \<and> host_ids h' n (entry_ids (jl_entries s'))
    \<and> (case r of Inl x \<Rightarrow> jl_entries s' = jl_entries s
       | Inr u \<Rightarrow> \<exists>e. jl_entries s' = jl_entries s @ [e] \<and> en_kind e = LeafEntry l)"
proof (cases r)
  case (Inl x)
  have by_id: "jl_byId s = index_by en_id (jl_entries s)" using assms(1) by (simp add: jsonl_good_def mem_good_def)
  obtain i h1 where i: "generateEntryId (jl_byId s) h = (i, h1)" by fastforce
  obtain t h2 where t: "time_now h1 = (t, h2)" by fastforce
  have "host_ids h1 n (insert i (entry_ids (jl_entries s)))"
    using generateEntryId_fresh [OF assms(3)] i by_id by auto
  then have "host_ids h2 n (entry_ids (jl_entries s))"
    using time_now_host_ids [OF t] by (auto intro: host_ids_mono)
  moreover from jsonl_setLeaf_refines [OF assms(4)] Inl have mem: "mem_of s' = mem_of s" and "h' = h2 \<or> h' = h"
    by (auto simp: i t)
  moreover from mem have "jl_entries s' = jl_entries s" by (metis mem_of_simps(1))
  ultimately show ?thesis using Inl assms(1) less_host_ids [OF assms(3)] by (auto simp: jsonl_good_def)
next
  case (Inr u)
  with jsonl_setLeaf_refines [OF assms(4)] have "mem_setLeafId l (mem_of s) h = (Inr (), mem_of s', h')" by simp
  from mem_setLeafId_ok [OF _ _ _ this, of n] assms(1-3) Inr show ?thesis by (simp add: jsonl_good_def)
qed

interpretation jsonl: session_storage "jsonl_ops fs" jsonl_good for fs :: "'f jsonl_fs"
proof (unfold_locales, goal_cases)
  case (2 s)
  then show ?case using mem.getLeafId [of "mem_of s"] by (simp add: jsonl_good_def jsonl_reads)
next
  case (8 s e h r s' h')
  then show ?case using jsonl_append_refines [of fs e s h r s' h'] mem.appendEntry [of "mem_of s" e h r "mem_of s'" h']
    by (auto simp: jsonl_good_def split: sum.splits) (metis mem_of_simps(1))+
next
  case (9 s i h)
  then show ?case
    by (simp add: jsonl_setLeafId_def jsonl_good_def mem_good_def has_leaf_def index_by_None_iff split: option.splits)
next
  case (10 s l h n r s' h')
  then show ?case using jsonl_setLeafId_ok [of s l h n fs r s' h'] by (cases r) auto
qed (auto simp: jsonl_good_def mem_good_def jsonl_reads mem_findEntries_def mem_getPathToRoot_def mem_createEntryId_def
  dest: generateEntryId_fresh)

section \<open>Using a session\<close>

text \<open>The appending and moving operations of a session as steps, each of which may fail.\<close>

datatype session_step = StepAppend entry_kind | StepMove "jstr option" "summary_input option"

definition session_step_on :: "'s storage_ops \<Rightarrow> session_step \<Rightarrow> 's \<times> host \<Rightarrow> 's \<times> host" where
  "session_step_on ops st c =
     (case st of
        StepAppend k \<Rightarrow> snd (append_at_leaf ops k (fst c) (snd c))
      | StepMove l su \<Rightarrow> snd (session_moveTo ops l su (fst c) (snd c)))"

fun session_steps :: "'s storage_ops \<Rightarrow> session_step list \<Rightarrow> 's \<times> host \<Rightarrow> 's \<times> host" where
  "session_steps ops [] c = c"
| "session_steps ops (st # sts) c = session_steps ops sts (session_step_on ops st c)"

definition plain_step :: "session_step \<Rightarrow> bool" where
  "plain_step st \<longleftrightarrow> (case st of StepAppend k \<Rightarrow> \<not> moves_leaf k | StepMove l su \<Rightarrow> True)"

text \<open>Every storage operation that a step is made of keeps \<open>I\<close>.\<close>

locale storage_invariant = session_storage ops good for ops :: "'s storage_ops" and good +
  fixes I :: "'s \<Rightarrow> bool"
  assumes append_keeps: "good s \<Longrightarrow> I s \<Longrightarrow> session_ok (op_getEntries ops s @ [e]) \<Longrightarrow> en_timestamp e \<noteq> [] \<Longrightarrow>
      op_appendEntry ops e s h = (r, s', h') \<Longrightarrow> I s'"
    and setLeaf_keeps: "good s \<Longrightarrow> I s \<Longrightarrow> leaf_ok (op_getEntries ops s) l \<Longrightarrow> ho_clock h = clock \<Longrightarrow> [] \<notin> range clock \<Longrightarrow>
      host_ids h (Suc n) (entry_ids (op_getEntries ops s)) \<Longrightarrow> op_setLeafId ops l s h = (r, s', h') \<Longrightarrow> I s' \<and> ho_clock h' = clock"
    and createEntryId_clock: "op_createEntryId ops s h = (i, h') \<Longrightarrow> ho_clock h' = ho_clock h"
begin

definition ready :: "nat \<Rightarrow> 's \<times> host \<Rightarrow> bool" where
  "ready n c \<longleftrightarrow> good (fst c) \<and> I (fst c) \<and> [] \<notin> range (ho_clock (snd c))
     \<and> host_ids (snd c) n (entry_ids (op_getEntries ops (fst c)))"

text \<open>An entry with a fresh id, a present time and a parent in the session.\<close>

lemma append_ready:
  assumes "ready (Suc n) (s, h)" and "op_createEntryId ops s h = (i, h1)" and "time_now h1 = (t, h2)"
    and "leaf_ok (op_getEntries ops s) p" and "\<not> moves_leaf k"
    and "op_appendEntry ops \<lparr>en_id = i, en_parentId = p, en_timestamp = t, en_kind = k\<rparr> s h2 = (r, s', h')"
  shows "ready n (s', h')"
proof -
  let ?e = "\<lparr>en_id = i, en_parentId = p, en_timestamp = t, en_kind = k\<rparr>"
  from assms(1) have s: "good s" "I s" "[] \<notin> range (ho_clock h)" "host_ids h (Suc n) (entry_ids (op_getEntries ops s))"
    by (simp_all add: ready_def)
  from createEntryId [OF s(1,4) assms(2)] have fresh: "i \<notin> entry_ids (op_getEntries ops s)" "i \<noteq> []"
    "host_ids h1 n (insert i (entry_ids (op_getEntries ops s)))" by auto
  have "leafIdAfterEntry ?e = Some i" using leafId_of_other [of ?e] assms(5) by simp
  then have ok: "session_ok (op_getEntries ops s @ [?e])"
    unfolding session_ok_snoc using fresh tree [OF s(1)] assms(4) by simp
  have clock: "ho_clock h2 = ho_clock h" "t \<noteq> []"
    using assms(3) createEntryId_clock [OF assms(2)] s(3) by (auto simp: time_now_def) (metis rangeI)
  have ids: "host_ids h2 n (insert i (entry_ids (op_getEntries ops s)))" using fresh(3) time_now_host_ids [OF assms(3)] by simp
  from appendEntry [OF s(1) ok assms(6)] append_keeps [OF s(1,2) ok _ assms(6)] clock s(3) ids host_ids_mono [OF ids]
  show ?thesis by (auto simp: ready_def split: sum.splits)
qed

lemma ready_less: "ready (Suc n) c \<Longrightarrow> ready n c"
  by (auto simp: ready_def dest: less_host_ids)

lemma append_at_leaf_ready:
  assumes "ready (Suc n) (s, h)" and "\<not> moves_leaf k"
  shows "ready n (snd (append_at_leaf ops k s h))"
proof -
  from assms(1) have good: "good s" by (simp add: ready_def)
  obtain i h1 where i: "op_createEntryId ops s h = (i, h1)" by fastforce
  obtain t h2 where t: "time_now h1 = (t, h2)" by fastforce
  let ?e = "\<lparr>en_id = i, en_parentId = leaf_after (op_getEntries ops s), en_timestamp = t, en_kind = k\<rparr>"
  obtain r s' h' where a: "op_appendEntry ops ?e s h2 = (r, s', h')" by (metis prod_cases3)
  have "snd (append_at_leaf ops k s h) = (s', h')"
    using i t a getLeafId [OF good] by (simp add: append_at_leaf_def appendTypedEntry_def split: sum.split)
  with append_ready [OF assms(1) i t leaf [OF good] assms(2) a] show ?thesis by simp
qed

lemma moveTo_ready:
  assumes "ready (Suc (Suc n)) (s, h)"
  shows "ready n (snd (session_moveTo ops l su s h))"
proof (cases "leaf_ok (op_getEntries ops s) l")
  case False
  then have "l \<noteq> None \<and> op_getEntry ops s (the l) = None"
    using assms getEntry [of s] by (cases l) (auto simp: ready_def index_by_None_iff)
  then have "session_moveTo ops l su s h = (Inl (entry_error SE_not_found (the l)), s, h)"
    unfolding session_moveTo_def by (rule if_P)
  with ready_less [OF ready_less [OF assms]] show ?thesis by simp
next
  case True
  from assms have s: "good s" "I s" "[] \<notin> range (ho_clock h)" "host_ids h (Suc (Suc n)) (entry_ids (op_getEntries ops s))"
    by (simp_all add: ready_def)
  have found: "\<not> (l \<noteq> None \<and> op_getEntry ops s (the l) = None)"
    using True by (cases rule: leaf_okE) (auto simp: getEntry [OF s(1)] index_by_None_iff)
  obtain r s1 h1 where set: "op_setLeafId ops l s h = (r, s1, h1)" by (metis prod_cases3)
  from setLeafId [OF s(1) True s(4) set] setLeaf_keeps [OF s(1,2) True refl s(3,4) set] s(3)
  have s1: "ready (Suc n) (s1, h1)" and ext: "\<exists>ext. op_getEntries ops s1 = op_getEntries ops s @ ext"
    by (auto simp: ready_def split: sum.splits)
  from ext True have l1: "leaf_ok (op_getEntries ops s1) l" by (auto intro: leaf_ok_mono)
  show ?thesis
  proof (cases "su = None \<or> isl r")
    case True
    then have "snd (session_moveTo ops l su s h) = (s1, h1)"
      using found set by (cases r) (auto simp: session_moveTo_def)
    with ready_less [OF s1] show ?thesis by simp
  next
    case False
    then obtain u where u: "su = Some u" by auto
    obtain i h2 where i: "op_createEntryId ops s1 h1 = (i, h2)" by fastforce
    obtain t h3 where t: "time_now h2 = (t, h3)" by fastforce
    let ?k = "BranchSummaryEntry (nullish l (js ''root'')) (si_summary u) (si_details u) (si_fromHook u)"
    obtain r2 s2 h4 where a: "op_appendEntry ops \<lparr>en_id = i, en_parentId = l, en_timestamp = t, en_kind = ?k\<rparr> s1 h3 = (r2, s2, h4)"
      by (metis prod_cases3)
    have "snd (session_moveTo ops l su s h) = (s2, h4)"
      using False found set i t a u by (cases r) (auto simp: session_moveTo_def appendTypedEntry_def split: sum.split)
    moreover have "\<not> moves_leaf ?k" by (simp add: moves_leaf_def)
    ultimately show ?thesis using append_ready [OF s1 i t l1 _ a] by simp
  qed
qed

lemma steps_ready:
  "list_all plain_step sts \<Longrightarrow> ready (2 * length sts + n) c \<Longrightarrow> ready n (session_steps ops sts c)"
proof (induction sts arbitrary: c)
  case (Cons st sts)
  obtain s h where c: "c = (s, h)" by (cases c)
  have "ready (2 * length sts + n) (session_step_on ops st c)"
  proof (cases st)
    case (StepAppend k)
    from Cons.prems c have "ready (Suc (2 * length sts + n)) (s, h)" using ready_less by simp
    with append_at_leaf_ready [of _ s h k] StepAppend Cons.prems(1) c show ?thesis
      by (simp add: session_step_on_def plain_step_def)
  next
    case (StepMove l su)
    with moveTo_ready [of "2 * length sts + n" s h l su] Cons.prems(2) c show ?thesis by (simp add: session_step_on_def)
  qed
  with Cons show ?case by simp
qed simp

end

section \<open>The file keeps up\<close>

text \<open>The file holds the header and the entries, one per line.\<close>

definition in_sync :: "('f \<Rightarrow> jstr \<Rightarrow> jsonl_line list option) \<Rightarrow> 'f jsonl_storage \<Rightarrow> bool" where
  "in_sync contents s \<longleftrightarrow>
     (\<exists>hdr. jh_id hdr \<noteq> [] \<and> jh_timestamp hdr \<noteq> [] \<and> jh_cwd hdr \<noteq> []
        \<and> jl_metadata s = headerToSessionMetadata hdr (jl_filePath s)
        \<and> contents (jl_fs s) (jl_filePath s) = Some (header_line hdr # map entry_line (jl_entries s)))
   \<and> [] \<notin> en_timestamp ` set (jl_entries s)"

lemma parse_header_line:
  "jh_id hdr \<noteq> [] \<Longrightarrow> jh_timestamp hdr \<noteq> [] \<Longrightarrow> jh_cwd hdr \<noteq> [] \<Longrightarrow> parseHeaderLine (header_line hdr) path = Inr hdr"
  by (cases "jh_parentSession hdr")
    (simp_all add: parseHeaderLine_def header_line_def nonempty_text_def text_of_def opt_text_def opt_field_def is_text_def)

lemma type_text_leaf: "type_text k = js ''leaf'' \<longleftrightarrow> (\<exists>t. k = LeafEntry t)"
  by (cases k) simp_all

lemma opt_text_null_field [simp]: "opt_text (null_field x) = x" "null_field x = Null \<or> is_text (null_field x)"
  by (cases x; simp add: opt_text_def null_field_def is_text_def)+

lemma parse_entry_line:
  assumes "en_id e \<noteq> []" and "en_timestamp e \<noteq> []"
  shows "parseEntryLine (entry_line e) path n = Inr e"
proof (cases "\<exists>t. en_kind e = LeafEntry t")
  case True
  then obtain t where "en_kind e = LeafEntry t" by blast
  with assms opt_text_null_field(2) [of t] opt_text_null_field(2) [of "en_parentId e"] show ?thesis
    by (auto simp: parseEntryLine_def entry_line_def object_entry_def nonempty_text_def text_of_def is_text_def)
next
  case False
  with assms opt_text_null_field(2) [of "en_parentId e"] show ?thesis
    by (auto simp: parseEntryLine_def entry_line_def object_entry_def nonempty_text_def text_of_def is_text_def type_text_leaf)
qed

lemma parse_entry_lines:
  assumes "[] \<notin> entry_ids es" and "[] \<notin> en_timestamp ` set es"
  shows "parse_entry_lines path n (map entry_line es) pre l =
    Inr (pre @ es, if es = [] then l else leafIdAfterEntry (last es))"
  using assms
proof (induction es arbitrary: n pre l)
  case (Cons e es)
  then have "parseEntryLine (entry_line e) path n = Inr e" by (intro parse_entry_line) auto
  with Cons show ?case by simp
qed simp

lemma leaf_after_last: "leaf_after es = (if es = [] then None else leafIdAfterEntry (last es))"
  by (cases es rule: rev_cases) simp_all

text \<open>Over a file system that keeps text files, every step keeps the file in step with the session.\<close>

locale jsonl_files = text_files fs contents for fs :: "'f jsonl_fs" and contents
begin

lemma append_in_sync:
  assumes "in_sync contents s" and "en_timestamp e \<noteq> []" and "jsonl_appendEntry fs e s h = (r, s', h')"
  shows "in_sync contents s'"
proof -
  obtain q f where q: "fs_appendFile fs (jl_filePath s) (entry_line e) (jl_fs s) = (q, f)" by fastforce
  from appends [OF q] assms q show ?thesis
    by (auto simp: in_sync_def jsonl_appendEntry_def Let_def getFileSystemResultOrThrow_def split: sum.splits)
qed

lemma setLeaf_in_sync:
  assumes "in_sync contents s" and "[] \<notin> range (ho_clock h)" and "jsonl_setLeafId fs l s h = (r, s', h')"
  shows "in_sync contents s' \<and> ho_clock h' = ho_clock h"
proof (cases "has_leaf (jl_byId s) l")
  case True
  obtain i h1 where i: "generateEntryId (jl_byId s) h = (i, h1)" by fastforce
  then have clock: "ho_clock h1 = ho_clock h" by (auto simp: generateEntryId_def split: prod.splits)
  obtain t h2 where t: "time_now h1 = (t, h2)" by fastforce
  with clock assms(2) have h2: "ho_clock h2 = ho_clock h" "t \<noteq> []" by (auto simp: time_now_def) (metis rangeI)
  let ?e = "\<lparr>en_id = i, en_parentId = jl_currentLeafId s, en_timestamp = t, en_kind = LeafEntry l\<rparr>"
  obtain q f where q: "fs_appendFile fs (jl_filePath s) (entry_line ?e) (jl_fs s) = (q, f)" by fastforce
  from appends [OF q] assms q i t h2 True show ?thesis
    by (auto simp: in_sync_def jsonl_setLeafId_def Let_def getFileSystemResultOrThrow_def split: sum.splits)
qed (use assms in \<open>simp add: jsonl_setLeafId_def\<close>)

lemma create_in_sync:
  assumes "jsonl_create fs path opts f h = (Inr s, f', h')" and "[] \<notin> range (ho_clock h)"
    and "jo_sessionId opts \<noteq> []" and "jo_cwd opts \<noteq> []"
  shows "in_sync contents s \<and> jsonl_good s \<and> ho_clock h' = ho_clock h \<and> ho_uuid h' = ho_uuid h \<and> ho_next h' = ho_next h
    \<and> jl_entries s = [] \<and> jl_filePath s = path"
proof -
  obtain t h1 where t: "time_now h = (t, h1)" by fastforce
  with assms(2) have h1: "t \<noteq> []" "ho_clock h1 = ho_clock h" "ho_uuid h1 = ho_uuid h" "ho_next h1 = ho_next h"
    by (auto simp: time_now_def) (metis rangeI)
  let ?hdr = "\<lparr>jh_id = jo_sessionId opts, jh_timestamp = t, jh_cwd = jo_cwd opts, jh_parentSession = jo_parentSessionPath opts\<rparr>"
  obtain q f1 where q: "fs_writeFile fs path [header_line ?hdr] f = (q, f1)" by fastforce
  from assms(1) t q have "q = Inr ()" "s = jsonl_storage_of f1 path ?hdr [] None" "h' = h1"
    by (auto simp: jsonl_create_def Let_def getFileSystemResultOrThrow_def split: sum.splits)
  moreover from this(1) writes [OF q] have "contents f1 path = Some [header_line ?hdr]" by simp
  ultimately show ?thesis using h1 assms(3,4)
    by (auto simp: in_sync_def jsonl_storage_of_def jsonl_good_def mem_good_def intro!: exI [of _ ?hdr])
qed

text \<open>Reading the file again, if that does not fail, gives the same storage.\<close>

lemma open_in_sync:
  assumes "in_sync contents s" and "jsonl_good s" and "fs_readTextFile fs (jl_filePath s) (jl_fs s) = (Inr ls, f')"
  shows "jsonl_open fs (jl_filePath s) (jl_fs s) = (Inr (s\<lparr>jl_fs := f'\<rparr>), f')"
proof -
  from assms(1) obtain hdr where hdr: "jh_id hdr \<noteq> []" "jh_timestamp hdr \<noteq> []" "jh_cwd hdr \<noteq> []"
    "jl_metadata s = headerToSessionMetadata hdr (jl_filePath s)"
    "contents (jl_fs s) (jl_filePath s) = Some (header_line hdr # map entry_line (jl_entries s))"
    and times: "[] \<notin> en_timestamp ` set (jl_entries s)" by (auto simp: in_sync_def)
  from reads [OF assms(3)] hdr(5) have ls: "ls = header_line hdr # map entry_line (jl_entries s)" by simp
  have "filter (\<lambda>l. l \<noteq> BlankText) ls = ls" unfolding ls by (auto simp: header_line_def entry_line_def)
  moreover from assms(2) have good: "session_ok (jl_entries s)" "jl_byId s = index_by en_id (jl_entries s)"
    "jl_labelsById s = buildLabelsById (jl_entries s)" "jl_currentLeafId s = leaf_after (jl_entries s)"
    by (simp_all add: jsonl_good_def mem_good_def)
  from good(1) have "[] \<notin> entry_ids (jl_entries s)" unfolding session_ok_def tree_ok_def by blast
  ultimately have "loadJsonlStorage fs (jl_filePath s) (jl_fs s) = (Inr (hdr, jl_entries s, leaf_after (jl_entries s)), f')"
    using assms(3) times hdr(1-3)
    by (simp add: loadJsonlStorage_def ls parse_header_line parse_entry_lines leaf_after_last)
  then show ?thesis using good hdr(4) by (simp add: jsonl_open_def jsonl_storage_of_def)
qed

lemma path_kept:
  "jsonl_appendEntry fs e s h = (r, s', h') \<Longrightarrow> jl_filePath s' = jl_filePath s"
  "jsonl_setLeafId fs l s h = (r, s', h') \<Longrightarrow> jl_filePath s' = jl_filePath s"
  by (auto simp: jsonl_appendEntry_def jsonl_setLeafId_def Let_def split: prod.splits sum.splits if_splits)

sublocale kept: storage_invariant "jsonl_ops fs" jsonl_good "\<lambda>s. in_sync contents s \<and> jl_filePath s = path" for path
  by unfold_locales
    (auto dest: append_in_sync setLeaf_in_sync path_kept simp: jsonl_createEntryId_def generateEntryId_def
      split: prod.splits)

text \<open>So a new session, used in any way, reads back as it is.\<close>

lemma steps_reopen:
  assumes "jsonl_create fs path opts f h = (Inr s0, f0, h0)" and "[] \<notin> range (ho_clock h)"
    and "jo_sessionId opts \<noteq> []" and "jo_cwd opts \<noteq> []"
    and "list_all plain_step sts" and "host_ids h (2 * length sts) {}"
    and "session_steps (jsonl_ops fs) sts (s0, h0) = (s, h')"
  shows "jsonl_good s \<and> (case fs_readTextFile fs path (jl_fs s) of
      (Inl e, f') \<Rightarrow> isl (fst (jsonl_open fs path (jl_fs s)))
    | (Inr ls, f') \<Rightarrow> jsonl_open fs path (jl_fs s) = (Inr (s\<lparr>jl_fs := f'\<rparr>), f'))"
proof -
  from create_in_sync [OF assms(1-4)] assms(2,6) have "kept.ready path (2 * length sts + 0) (s0, h0)"
    by (simp add: kept.ready_def host_ids_def)
  from kept.steps_ready [OF assms(5) this] assms(7) have s: "jsonl_good s" "in_sync contents s" "jl_filePath s = path"
    by (simp_all add: kept.ready_def)
  obtain r f' where r: "fs_readTextFile fs path (jl_fs s) = (r, f')" by fastforce
  show ?thesis
  proof (cases r)
    case (Inl e)
    with r s(1) show ?thesis by (simp add: jsonl_open_def loadJsonlStorage_def getFileSystemResultOrThrow_def)
  next
    case (Inr ls)
    with open_in_sync [OF s(2,1)] r s(1,3) show ?thesis by simp
  qed
qed

end

interpretation node_jsonl: jsonl_files "node_file_system env" "disk_contents env" for env
  by unfold_locales

text \<open>
  C38: A session kept in a file survives: create a session file in Node's environment, append and move in any way,
  with some of the operations failing because the disk does, and open the file again. Unless reading it fails, the storage
  is the same: its metadata, entries in order, labels and leaf.
\<close>

theorem jsonl_session_survives:
  assumes "jsonl_create (node_file_system env) path opts d h = (Inr s0, d0, h0)"
    and "jo_sessionId opts \<noteq> []" and "jo_cwd opts \<noteq> []" and "[] \<notin> range (ho_clock h)"
    and "list_all plain_step sts" and "host_ids h (2 * length sts) {}"
    and "session_steps (jsonl_ops (node_file_system env)) sts (s0, h0) = (s, h')"
  shows "jsonl_good s \<and> (case fs_readTextFile (node_file_system env) path (jl_fs s) of
      (Inl e, d') \<Rightarrow> isl (fst (jsonl_open (node_file_system env) path (jl_fs s)))
    | (Inr ls, d') \<Rightarrow> jsonl_open (node_file_system env) path (jl_fs s) = (Inr (s\<lparr>jl_fs := d'\<rparr>), d'))"
  by (rule node_jsonl.steps_reopen [OF assms(1,4,2,3,5-7)])

text \<open>A disk with its root, whose fourth call fails: the first message is not appended, the second is, then the session moves to the root.\<close>

definition sample_env :: node_env where
  "sample_env =
     \<lparr>nv_cwd = js ''/'',
      nv_paths = \<lparr>np_isAbsolute = \<lambda>p. True, np_resolve = \<lambda>a p. p, np_join = concat, np_parent = \<lambda>p. js ''/'',
        np_above = \<lambda>p. [js ''/''], np_basename = tl\<rparr>\<rparr>"

definition sample_disk :: "jsonl_line file_disk" where
  "sample_disk =
     \<lparr>dk_nodes = [(js ''/'', DiskDir)],
      dk_faults = \<lambda>n. if n = 3 then Some \<lparr>ne_code = EACCES, ne_message = js ''EACCES''\<rparr> else None, dk_calls = 0\<rparr>"

definition sample_steps :: "session_step list" where
  "sample_steps =
     [StepAppend (MessageEntry (Llm (sample_user ''one''))), StepAppend (MessageEntry (Llm (sample_user ''two''))),
      StepMove None None]"

lemma sample_create:
  "\<exists>s0 d0 h0. jsonl_create (node_file_system sample_env) (js ''/s'') \<lparr>jo_cwd = js ''/'', jo_sessionId = js ''x'', jo_parentSessionPath = None\<rparr>
      sample_disk sample_host = (Inr s0, d0, h0)"
  by (simp add: jsonl_create_def time_now_def node_file_system_def env_writeFile_def in_made_dir_def try_disk_def
    node_mkdir_def node_writeFile_def node_update_def disk_call_def sample_env_def sample_disk_def resolvePath_def add_dir_def
    node_at_def set_node_def Let_def)

theorem jsonl_session_survives_witness:
  "\<exists>s0 d0 h0 s h'. jsonl_create (node_file_system sample_env) (js ''/s'')
        \<lparr>jo_cwd = js ''/'', jo_sessionId = js ''x'', jo_parentSessionPath = None\<rparr> sample_disk sample_host = (Inr s0, d0, h0)
    \<and> session_steps (jsonl_ops (node_file_system sample_env)) sample_steps (s0, h0) = (s, h')
    \<and> jsonl_good s \<and> (case fs_readTextFile (node_file_system sample_env) (js ''/s'') (jl_fs s) of
      (Inl e, d') \<Rightarrow> isl (fst (jsonl_open (node_file_system sample_env) (js ''/s'') (jl_fs s)))
    | (Inr ls, d') \<Rightarrow> jsonl_open (node_file_system sample_env) (js ''/s'') (jl_fs s) = (Inr (s\<lparr>jl_fs := d'\<rparr>), d'))"
proof -
  obtain s0 d0 h0 where create: "jsonl_create (node_file_system sample_env) (js ''/s'')
        \<lparr>jo_cwd = js ''/'', jo_sessionId = js ''x'', jo_parentSessionPath = None\<rparr> sample_disk sample_host = (Inr s0, d0, h0)"
    using sample_create by blast
  obtain s h' where steps: "session_steps (jsonl_ops (node_file_system sample_env)) sample_steps (s0, h0) = (s, h')" by fastforce
  have ids: "host_ids sample_host (2 * length sample_steps) {}"
    unfolding host_ids_def sample_host_def host.simps by (rule counting_uuid_supply) (simp_all add: sample_steps_def)
  have plain: "list_all plain_step sample_steps" by (simp add: sample_steps_def plain_step_def moves_leaf_def)
  have clock: "[] \<notin> range (ho_clock sample_host)" by (simp add: sample_host_def image_iff)
  from jsonl_session_survives [OF create _ _ clock plain ids steps] create steps show ?thesis by auto
qed

text \<open>
  C39: The storage in a file refines the storage in memory: its reads are those of the storage in memory with the same entries, a
  write that succeeds does what the write in memory does, and a write that the file system refuses changes nothing.
\<close>

theorem jsonl_refines_memory:
  "jsonl_getLeafId s = mem_getLeafId (mem_of s)
   \<and> jsonl_createEntryId s h = mem_createEntryId (mem_of s) h
   \<and> jsonl_findEntries s t = mem_findEntries (mem_of s) t
   \<and> jsonl_getPathToRoot s l = mem_getPathToRoot (mem_of s) l
   \<and> (case jsonl_appendEntry fs e s h of
        (Inl x, s', h') \<Rightarrow> mem_of s' = mem_of s \<and> h' = h
      | (Inr u, s', h') \<Rightarrow> mem_appendEntry e (mem_of s) h = (Inr u, mem_of s', h'))
   \<and> (case jsonl_setLeafId fs l s h of
        (Inl x, s', h') \<Rightarrow> mem_of s' = mem_of s
      | (Inr u, s', h') \<Rightarrow> mem_setLeafId l (mem_of s) h = (Inr u, mem_of s', h'))"
  using jsonl_append_refines [of fs e s h] jsonl_setLeaf_refines [of fs l s h]
  by (auto simp: jsonl_reads split: prod.splits sum.splits)

end
