(* ===== verification/Session_Repo.thy ===== *)
theory Session_Repo
  imports Harness_Session
begin

text \<open>
  Forking a session (\<^verbatim>\<open>getEntriesToFork\<close> of \<^verbatim>\<open>harness/session/repo-utils.ts\<close>) and the
  repository of sessions in memory (\<^verbatim>\<open>harness/session/memory-repo.ts\<close>). A session handle is the id under which the
  repository holds the storage, so that operations through a handle are seen by everyone who opened the session.
\<close>

section \<open>Forking\<close>

datatype fork_position = ForkBefore | ForkAt

record fork_options =
  fo_entryId :: "jstr option"
  fo_position :: "fork_position option"
  fo_id :: "jstr option"

definition is_user_entry :: "entry \<Rightarrow> bool" where
  "is_user_entry e =
     (case en_kind e of MessageEntry m \<Rightarrow> (case m of Llm (UserM u) \<Rightarrow> True | _ \<Rightarrow> False) | _ \<Rightarrow> False)"

definition getEntriesToFork ::
  "'s storage_ops \<Rightarrow> fork_options \<Rightarrow> 's \<Rightarrow> (session_error + entry list) option" where
  "getEntriesToFork ops opts s =
     (if \<not> truthy_str (fo_entryId opts) then Some (Inr (op_getEntries ops s))
      else
        (let i = the (fo_entryId opts) in
         case op_getEntry ops s i of
           None \<Rightarrow> Some (Inl (entry_error SE_invalid_fork_target i))
         | Some target \<Rightarrow>
             if nullish (fo_position opts) ForkBefore = ForkAt
             then op_getPathToRoot ops s (Some (en_id target))
             else if \<not> is_user_entry target
             then Some (Inl \<lparr>se_code = SE_invalid_fork_target,
                    se_message = js ''Entry '' @ i @ js '' is not a user message''\<rparr>)
             else op_getPathToRoot ops s (en_parentId target)))"

section \<open>The repository\<close>

record mem_repo =
  mr_sessions :: "(jstr \<times> mem_storage) list"

definition repo_metadata :: "jstr option \<Rightarrow> host \<Rightarrow> session_metadata \<times> host" where
  "repo_metadata i h =
     (let (i', h1) = (case i of Some x \<Rightarrow> (x, h) | None \<Rightarrow> next_uuid h);
          (t, h2) = time_now h1
      in (\<lparr>sm_id = i', sm_createdAt = t\<rparr>, h2))"

definition repo_create :: "jstr option \<Rightarrow> (mem_repo, jstr) session_op" where
  "repo_create i r h =
     (let (m, h1) = repo_metadata i h in
      case mem_new None (Some m) h1 of
        (Inl e, h2) \<Rightarrow> (Inl e, r, h2)
      | (Inr st, h2) \<Rightarrow> (Inr (sm_id m), r\<lparr>mr_sessions := map_set (sm_id m) st (mr_sessions r)\<rparr>, h2))"

definition repo_open :: "session_metadata \<Rightarrow> mem_repo \<Rightarrow> session_error + mem_storage" where
  "repo_open m r =
     (case map_of (mr_sessions r) (sm_id m) of
        None \<Rightarrow> Inl \<lparr>se_code = SE_not_found, se_message = js ''Session not found: '' @ sm_id m\<rparr>
      | Some st \<Rightarrow> Inr st)"

definition repo_list :: "mem_repo \<Rightarrow> session_metadata list" where
  "repo_list r = map (\<lambda>(i, st). ms_metadata st) (mr_sessions r)"

definition repo_delete :: "session_metadata \<Rightarrow> mem_repo \<Rightarrow> mem_repo" where
  "repo_delete m r = r\<lparr>mr_sessions := map_delete (sm_id m) (mr_sessions r)\<rparr>"

text \<open>\<open>None\<close> stands for a fork that never returns, which a cycle of parents would cause.\<close>

definition repo_fork ::
  "session_metadata \<Rightarrow> fork_options \<Rightarrow> mem_repo \<Rightarrow> host \<Rightarrow> ((session_error + jstr) \<times> mem_repo \<times> host) option" where
  "repo_fork source opts r h =
     (case repo_open source r of
        Inl e \<Rightarrow> Some (Inl e, r, h)
      | Inr st \<Rightarrow>
          (case getEntriesToFork mem_ops opts st of
             None \<Rightarrow> None
           | Some (Inl e) \<Rightarrow> Some (Inl e, r, h)
           | Some (Inr forked) \<Rightarrow>
               (let (m, h1) = repo_metadata (fo_id opts) h in
                Some (case mem_new (Some forked) (Some m) h1 of
                  (Inl e, h2) \<Rightarrow> (Inl e, r, h2)
                | (Inr st', h2) \<Rightarrow>
                    (Inr (sm_id m), r\<lparr>mr_sessions := map_set (sm_id m) st' (mr_sessions r)\<rparr>, h2)))))"

section \<open>A path is a session of its own\<close>

lemma tree_ok_path:
  assumes "tree_ok es" and "is_path es p"
  shows "tree_ok p"
  using assms(2)
proof (induction p rule: rev_induct)
  case (snoc e p)
  then have p: "is_path es p" "e \<in> set es"
    "en_parentId e = (if p = [] then None else Some (en_id (last p)))" unfolding is_path_snoc by blast+
  have "distinct (map en_id (p @ [e]))" using assms(1) snoc.prems by (rule distinct_path)
  then have "en_id e \<notin> entry_ids p" by simp
  moreover have "en_id e \<noteq> []" using assms(1) p(2) unfolding tree_ok_def by (metis image_eqI)
  moreover have "x \<in> entry_ids p" if "en_parentId e = Some x" for x using that p(3) by (auto split: if_splits)
  ultimately show ?case using snoc.IH [OF p(1)] unfolding tree_ok_snoc by blast
qed simp

lemma is_path_self:
  assumes "is_path es p"
  shows "is_path p p"
  using assms by (simp add: is_path_def)

lemma branch_of_self:
  assumes "tree_ok es" and "is_path es (p @ [e])"
  shows "branch_of (p @ [e]) (Some (en_id e)) = p @ [e]"
  using branch_of_unique [OF tree_ok_path [OF assms] is_path_self [OF assms(2)]] .

text \<open>
  A session made of a path whose last entry does not move the leaf is well-formed and has the path as its branch.
\<close>

lemma mem_new_path:
  assumes "tree_ok es" and "is_path es p" and "p \<noteq> [] \<Longrightarrow> \<not> moves_leaf (en_kind (last p))"
  obtains st where "mem_new (Some p) (Some m) h = (Inr st, h)" and "mem_good st" and "ms_entries st = p"
    and "branch_of p (leaf_after p) = p"
proof -
  have leaf: "leaf_ok p (leaf_after p) \<and> branch_of p (leaf_after p) = p"
  proof (cases p rule: rev_cases)
    case (snoc q e)
    with assms(3) leafId_of_other [of e] branch_of_self [of es q e] assms(1,2) show ?thesis by simp
  qed simp
  have "session_ok p" using tree_ok_path [OF assms(1,2)] leaf by (simp add: session_ok_def)
  moreover from leaf obtain st where "mem_new (Some p) (Some m) h = (Inr st, h)"
    "st = \<lparr>ms_metadata = m, ms_entries = p, ms_byId = index_by en_id p, ms_labelsById = buildLabelsById p,
       ms_leafId = leaf_after p\<rparr>"
    by (simp add: mem_new_def has_leaf_index)
  ultimately show thesis using that leaf by (simp add: mem_good_def)
qed

text \<open>
  Forking a session in memory before one of its user messages always succeeds, provided the entry
  before that message is not itself a leaf record: the new session is well-formed, holds exactly the branch that led to the message, and
  its context is the context of that branch. Every other session of the repository is untouched.
\<close>

theorem fork_before_message:
  assumes "map_of (mr_sessions r) (sm_id source) = Some st" and "mem_good st"
    and "target \<in> set (ms_entries st)" and "is_user_entry target"
    and "fo_entryId opts = Some (en_id target)" and "fo_position opts \<noteq> Some ForkAt"
    and "\<not> list_ex (\<lambda>e. moves_leaf (en_kind e)) (branch_of (ms_entries st) (en_parentId target))"
  shows "\<exists>i st' r' h'. repo_fork source opts r h = Some (Inr i, r', h') \<and> mem_good st'
    \<and> ms_entries st' = branch_of (ms_entries st) (en_parentId target)
    \<and> session_buildContext t mem_ops st'
        = Some (Inr (buildSessionContext t (branch_of (ms_entries st) (en_parentId target))))
    \<and> map_of (mr_sessions r') = (map_of (mr_sessions r))(i \<mapsto> st')"
proof -
  let ?es = "ms_entries st" and ?p = "branch_of (ms_entries st) (en_parentId target)"
  have tree: "tree_ok ?es" using mem.tree [OF assms(2)] by simp
  have leaf: "leaf_ok ?es (en_parentId target)"
  proof (cases "en_parentId target")
    case (Some q)
    with tree_ok_parent [OF tree assms(3) Some] show ?thesis by auto
  qed simp
  have path: "is_path ?es ?p" using tree leaf by (rule branch_of_is_path)
  have entry: "op_getEntry mem_ops st (en_id target) = Some target"
    using mem.getEntry [OF assms(2)] index_by_tree [OF tree assms(3)] by simp
  have "en_id target \<noteq> []" using tree assms(3) unfolding tree_ok_def by (metis image_eqI)
  moreover have "nullish (fo_position opts) ForkBefore \<noteq> ForkAt" using assms(6) by (cases "fo_position opts") auto
  ultimately have forked: "getEntriesToFork mem_ops opts st = Some (Inr ?p)"
    using entry assms(4,5) mem.getPathToRoot [OF assms(2)] path_to_root_branch [OF tree leaf]
    by (simp add: getEntriesToFork_def)
  obtain m h1 where m: "repo_metadata (fo_id opts) h = (m, h1)" by fastforce
  have "?p \<noteq> [] \<Longrightarrow> \<not> moves_leaf (en_kind (last ?p))"
    using assms(7) last_in_set [of ?p] by (auto simp: list_ex_iff)
  from mem_new_path [OF tree path this, of m h1] obtain st' where st': "mem_new (Some ?p) (Some m) h1 = (Inr st', h1)"
    "mem_good st'" "ms_entries st' = ?p" "branch_of ?p (leaf_after ?p) = ?p" by metis
  have "repo_fork source opts r h = Some (Inr (sm_id m), r\<lparr>mr_sessions := map_set (sm_id m) st' (mr_sessions r)\<rparr>, h1)"
    using assms(1) forked m st'(1) by (simp add: repo_fork_def repo_open_def)
  moreover have "session_buildContext t mem_ops st' = Some (Inr (buildSessionContext t ?p))"
    using mem.buildContext [OF st'(2), of t] st'(3,4) by simp
  ultimately show ?thesis using st'(2,3) map_of_map_set
    by (intro exI [of _ "sm_id m"] exI [of _ st']) auto
qed

theorem fork_before_message_witness:
  "\<exists>i st' r' h'. repo_fork \<lparr>sm_id = js ''s'', sm_createdAt = js ''t''\<rparr>
      \<lparr>fo_entryId = Some (js ''b''), fo_position = None, fo_id = Some (js ''f'')\<rparr>
      \<lparr>mr_sessions = [(js ''s'', sample_storage)]\<rparr> sample_host = Some (Inr i, r', h')
    \<and> mem_good st' \<and> ms_entries st' = branch_of (ms_entries sample_storage) (Some (js ''a''))
    \<and> session_buildContext (\<lambda>t. None) mem_ops st'
        = Some (Inr (buildSessionContext (\<lambda>t. None) (branch_of (ms_entries sample_storage) (Some (js ''a'')))))
    \<and> map_of (mr_sessions r') = (map_of [(js ''s'', sample_storage)])(i \<mapsto> st')"
proof -
  let ?b = "sample_entry ''b'' (Some ''a'') (MessageEntry (Llm (sample_user ''two'')))"
  let ?r = "\<lparr>mr_sessions = [(js ''s'', sample_storage)]\<rparr>" and ?m = "\<lparr>sm_id = js ''s'', sm_createdAt = js ''t''\<rparr>"
    and ?o = "\<lparr>fo_entryId = Some (js ''b''), fo_position = None, fo_id = Some (js ''f'')\<rparr>"
  have branch: "branch_of (ms_entries sample_storage) (Some (js ''a'')) =
      [sample_entry ''a'' None (MessageEntry (Llm (sample_user ''one'')))]"
    by (simp add: branch_of_def path_to_root_def sample_storage_def sample_entries_def sample_entry_def
      index_by_def path_from.simps)
  have b: "?b \<in> set (ms_entries sample_storage)" "is_user_entry ?b" "en_id ?b = js ''b''"
    "en_parentId ?b = Some (js ''a'')"
    by (simp_all add: sample_storage_def sample_entries_def is_user_entry_def sample_user_def sample_entry_def)
  have "\<not> list_ex (\<lambda>e. moves_leaf (en_kind e)) (branch_of (ms_entries sample_storage) (en_parentId ?b))"
    unfolding b(4) branch by (simp add: moves_leaf_def sample_entry_def)
  from fork_before_message [of ?r ?m sample_storage ?b ?o sample_host "\<lambda>t. None", OF _ sample_storage_good b(1,2) _ _ this]
  show ?thesis unfolding b(3,4) by simp
qed

end
