(* ===== verification/Jsonl_Repo.thy ===== *)
theory Jsonl_Repo
  imports Jsonl_Storage Session_Repo
begin

text \<open>
  The repository of session files (\<^verbatim>\<open>packages/agent/src/harness/session/jsonl-repo.ts\<close>): a directory per working
  directory under the sessions root, with one file per session. The state is that of the repository and of the file system. A
  session that is opened or created takes the file system as it is then. Creation times parse as dates; turning them
  into numbers is a parameter.
\<close>

section \<open>Paths\<close>

record 'f jsonl_repo =
  jr_sessionsRootInput :: jstr
  jr_sessionsRoot :: "jstr option"
  jr_fs :: 'f

definition is_slash :: "code_unit \<Rightarrow> bool" where
  "is_slash c \<longleftrightarrow> c = 0x2F \<or> c = 0x5C"

text \<open>\<^verbatim>\<open>cwd.replace(/^[/\\]/, "").replace(/[/\\:]/g, "-")\<close>\<close>

definition encodeCwd :: "jstr \<Rightarrow> jstr" where
  "encodeCwd cwd =
     js ''--''
     @ map (\<lambda>c. if is_slash c \<or> c = 0x3A then 0x2D else c) (case cwd of c # cs \<Rightarrow> if is_slash c then cs else cwd | [] \<Rightarrow> [])
     @ js ''--''"

definition getSessionsRoot :: "'f jsonl_fs \<Rightarrow> 'f jsonl_repo \<Rightarrow> (session_error + jstr) \<times> 'f jsonl_repo" where
  "getSessionsRoot fs r =
     (if truthy_str (jr_sessionsRoot r) then (Inr (the (jr_sessionsRoot r)), r)
      else
        (case getFileSystemResultOrThrow (fs_absolutePath fs (jr_sessionsRootInput r))
            (js ''Failed to resolve sessions root '' @ jr_sessionsRootInput r) of
           Inl e \<Rightarrow> (Inl e, r)
         | Inr sroot \<Rightarrow> (Inr sroot, r\<lparr>jr_sessionsRoot := Some sroot\<rparr>)))"

definition getSessionDir :: "'f jsonl_fs \<Rightarrow> jstr \<Rightarrow> 'f jsonl_repo \<Rightarrow> (session_error + jstr) \<times> 'f jsonl_repo" where
  "getSessionDir fs cwd r =
     (case getSessionsRoot fs r of
        (Inl e, r') \<Rightarrow> (Inl e, r')
      | (Inr sroot, r') \<Rightarrow>
          (getFileSystemResultOrThrow (fs_joinPath fs [sroot, encodeCwd cwd])
             (js ''Failed to resolve session directory for '' @ cwd), r'))"

definition createSessionFilePath ::
  "'f jsonl_fs \<Rightarrow> jstr \<Rightarrow> jstr \<Rightarrow> jstr \<Rightarrow> 'f jsonl_repo \<Rightarrow> (session_error + jstr) \<times> 'f jsonl_repo" where
  "createSessionFilePath fs cwd sessionId timestamp r =
     (case getSessionDir fs cwd r of
        (Inl e, r') \<Rightarrow> (Inl e, r')
      | (Inr dir, r') \<Rightarrow>
          (getFileSystemResultOrThrow
             (fs_joinPath fs
                [dir, map (\<lambda>c. if c = 0x3A \<or> c = 0x2E then 0x2D else c) timestamp @ js ''_'' @ sessionId @ js ''.jsonl''])
             (js ''Failed to resolve session file path for '' @ sessionId), r'))"

section \<open>Operations\<close>

record repo_create_options =
  rc_id :: "jstr option"
  rc_cwd :: jstr
  rc_parentSessionPath :: "jstr option"

text \<open>What \<^verbatim>\<open>create\<close> and \<^verbatim>\<open>fork\<close> share: id, time, directory, path and the new file.\<close>

definition new_session_file ::
  "'f jsonl_fs \<Rightarrow> repo_create_options \<Rightarrow> ('f jsonl_repo, 'f jsonl_storage) session_op" where
  "new_session_file fs opts r h =
     (let (i, h1) = (case rc_id opts of Some x \<Rightarrow> (x, h) | None \<Rightarrow> next_uuid h);
          (createdAt, h2) = time_now h1
      in case getSessionDir fs (rc_cwd opts) r of
           (Inl e, r1) \<Rightarrow> (Inl e, r1, h2)
         | (Inr dir, r1) \<Rightarrow>
             (case fs_createDir fs dir (Some True) (jr_fs r1) of
                (made, f1) \<Rightarrow>
                  (case getFileSystemResultOrThrow made (js ''Failed to create session directory '' @ dir) of
                     Inl e \<Rightarrow> (Inl e, r1\<lparr>jr_fs := f1\<rparr>, h2)
                   | Inr u \<Rightarrow>
                       (case createSessionFilePath fs (rc_cwd opts) i createdAt (r1\<lparr>jr_fs := f1\<rparr>) of
                          (Inl e, r2) \<Rightarrow> (Inl e, r2, h2)
                        | (Inr path, r2) \<Rightarrow>
                            (case jsonl_create fs path
                                \<lparr>jo_cwd = rc_cwd opts, jo_sessionId = i, jo_parentSessionPath = rc_parentSessionPath opts\<rparr>
                                (jr_fs r2) h2 of
                               (s, f2, h3) \<Rightarrow> (s, r2\<lparr>jr_fs := f2\<rparr>, h3))))))"

definition jsonl_repo_create ::
  "'f jsonl_fs \<Rightarrow> repo_create_options \<Rightarrow> ('f jsonl_repo, 'f jsonl_storage) session_op" where
  "jsonl_repo_create fs opts = new_session_file fs opts"

definition jsonl_repo_open :: "'f jsonl_fs \<Rightarrow> jsonl_metadata \<Rightarrow> 'f jsonl_repo \<Rightarrow> (session_error + 'f jsonl_storage) \<times> 'f jsonl_repo" where
  "jsonl_repo_open fs m r =
     (case fs_exists fs (jm_path m) (jr_fs r) of
        (found, f1) \<Rightarrow>
          (case getFileSystemResultOrThrow found (js ''Failed to check session '' @ jm_path m) of
             Inl e \<Rightarrow> (Inl e, r\<lparr>jr_fs := f1\<rparr>)
           | Inr b \<Rightarrow>
               (if \<not> b
                then (Inl \<lparr>se_code = SE_not_found, se_message = js ''Session not found: '' @ jm_path m\<rparr>, r\<lparr>jr_fs := f1\<rparr>)
                else (case jsonl_open fs (jm_path m) f1 of (s, f2) \<Rightarrow> (s, r\<lparr>jr_fs := f2\<rparr>)))))"

definition jsonl_repo_delete :: "'f jsonl_fs \<Rightarrow> jsonl_metadata \<Rightarrow> 'f jsonl_repo \<Rightarrow> (session_error + unit) \<times> 'f jsonl_repo" where
  "jsonl_repo_delete fs m r =
     (case fs_remove fs (jm_path m) None (Some True) (jr_fs r) of
        (res, f1) \<Rightarrow>
          (getFileSystemResultOrThrow res (js ''Failed to delete session '' @ jm_path m), r\<lparr>jr_fs := f1\<rparr>))"

text \<open>The loop over the files of a directory: a file whose header is not that of a session is left out.\<close>

fun load_metadata_of ::
  "'f jsonl_fs \<Rightarrow> file_info list \<Rightarrow> 'f \<Rightarrow> (session_error + jsonl_metadata list) \<times> 'f" where
  "load_metadata_of fs [] f = (Inr [], f)"
| "load_metadata_of fs (i # is) f =
     (case loadJsonlSessionMetadata fs (fi_path i) f of
        (Inl e, f1) \<Rightarrow>
          (if se_code e \<noteq> SE_invalid_session then (Inl e, f1) else load_metadata_of fs is f1)
      | (Inr m, f1) \<Rightarrow>
          (case load_metadata_of fs is f1 of (Inl e, f2) \<Rightarrow> (Inl e, f2) | (Inr ms, f2) \<Rightarrow> (Inr (m # ms), f2)))"

definition is_session_file :: "file_info \<Rightarrow> bool" where
  "is_session_file i \<longleftrightarrow> fi_kind i \<noteq> DirectoryKind \<and> suffix (js ''.jsonl'') (fi_name i)"

fun load_dirs ::
  "'f jsonl_fs \<Rightarrow> jstr list \<Rightarrow> 'f \<Rightarrow> (session_error + jsonl_metadata list) \<times> 'f" where
  "load_dirs fs [] f = (Inr [], f)"
| "load_dirs fs (dir # dirs) f =
     (case fs_exists fs dir f of
        (found, f1) \<Rightarrow>
          (case getFileSystemResultOrThrow found (js ''Failed to check session directory '' @ dir) of
             Inl e \<Rightarrow> (Inl e, f1)
           | Inr b \<Rightarrow>
               (if \<not> b then load_dirs fs dirs f1
                else
                  (case fs_listDir fs dir f1 of
                     (listed, f2) \<Rightarrow>
                       (case getFileSystemResultOrThrow listed (js ''Failed to list sessions in '' @ dir) of
                          Inl e \<Rightarrow> (Inl e, f2)
                        | Inr infos \<Rightarrow>
                            (case load_metadata_of fs (filter is_session_file infos) f2 of
                               (Inl e, f3) \<Rightarrow> (Inl e, f3)
                             | (Inr ms, f3) \<Rightarrow>
                                 (case load_dirs fs dirs f3 of
                                    (Inl e, f4) \<Rightarrow> (Inl e, f4)
                                  | (Inr ns, f4) \<Rightarrow> (Inr (ms @ ns), f4))))))))"

definition listSessionDirs :: "'f jsonl_fs \<Rightarrow> 'f jsonl_repo \<Rightarrow> (session_error + jstr list) \<times> 'f jsonl_repo" where
  "listSessionDirs fs r =
     (case getSessionsRoot fs r of
        (Inl e, r1) \<Rightarrow> (Inl e, r1)
      | (Inr sroot, r1) \<Rightarrow>
          (case fs_exists fs sroot (jr_fs r1) of
             (found, f1) \<Rightarrow>
               (case getFileSystemResultOrThrow found (js ''Failed to check sessions root '' @ sroot) of
                  Inl e \<Rightarrow> (Inl e, r1\<lparr>jr_fs := f1\<rparr>)
                | Inr b \<Rightarrow>
                    (if \<not> b then (Inr [], r1\<lparr>jr_fs := f1\<rparr>)
                     else
                       (case fs_listDir fs sroot f1 of
                          (listed, f2) \<Rightarrow>
                            (map_sum id (\<lambda>infos. map fi_path (filter (\<lambda>i. fi_kind i = DirectoryKind) infos))
                               (getFileSystemResultOrThrow listed (js ''Failed to list sessions root '' @ sroot)),
                             r1\<lparr>jr_fs := f2\<rparr>))))))"

definition jsonl_repo_list ::
  "'f jsonl_fs \<Rightarrow> (jstr \<Rightarrow> int) \<Rightarrow> jstr option \<Rightarrow> 'f jsonl_repo \<Rightarrow> (session_error + jsonl_metadata list) \<times> 'f jsonl_repo" where
  "jsonl_repo_list fs get_time cwd r =
     (case (if truthy_str cwd
            then (case getSessionDir fs (the cwd) r of (Inl e, r1) \<Rightarrow> (Inl e, r1) | (Inr dir, r1) \<Rightarrow> (Inr [dir], r1))
            else listSessionDirs fs r) of
        (Inl e, r1) \<Rightarrow> (Inl e, r1)
      | (Inr dirs, r1) \<Rightarrow>
          (case load_dirs fs dirs (jr_fs r1) of
             (ms, f) \<Rightarrow> (map_sum id (sort_key (\<lambda>m. - get_time (jm_createdAt m))) ms, r1\<lparr>jr_fs := f\<rparr>)))"

text \<open>The entries of a fork are appended one by one; a failure leaves those before it in the new file.\<close>

fun append_entries :: "'s storage_ops \<Rightarrow> entry list \<Rightarrow> ('s, unit) session_op" where
  "append_entries ops [] s h = (Inr (), s, h)"
| "append_entries ops (e # es) s h =
     (case op_appendEntry ops e s h of
        (Inl x, s1, h1) \<Rightarrow> (Inl x, s1, h1)
      | (Inr u, s1, h1) \<Rightarrow> append_entries ops es s1 h1)"

definition jsonl_repo_fork ::
  "'f jsonl_fs \<Rightarrow> jsonl_metadata \<Rightarrow> fork_options \<Rightarrow> repo_create_options \<Rightarrow> 'f jsonl_repo \<Rightarrow> host \<Rightarrow>
   ((session_error + 'f jsonl_storage) \<times> 'f jsonl_repo \<times> host) option" where
  "jsonl_repo_fork fs source fork opts r h =
     (case jsonl_repo_open fs source r of
        (Inl e, r1) \<Rightarrow> Some (Inl e, r1, h)
      | (Inr st, r1) \<Rightarrow>
          (case getEntriesToFork (jsonl_ops fs) fork st of
             None \<Rightarrow> None
           | Some (Inl e) \<Rightarrow> Some (Inl e, r1, h)
           | Some (Inr forked) \<Rightarrow>
               Some
                 (case new_session_file fs
                     (opts\<lparr>rc_parentSessionPath := Some (nullish (rc_parentSessionPath opts) (jm_path source))\<rparr>) r1 h of
                    (Inl e, r2, h2) \<Rightarrow> (Inl e, r2, h2)
                  | (Inr s, r2, h2) \<Rightarrow>
                      (case append_entries (jsonl_ops fs) forked s h2 of
                         (Inl e, s', h3) \<Rightarrow> (Inl e, r2\<lparr>jr_fs := jl_fs s'\<rparr>, h3)
                       | (Inr u, s', h3) \<Rightarrow> (Inr s', r2\<lparr>jr_fs := jl_fs s'\<rparr>, h3)))))"

section \<open>A fork holds the branch\<close>

lemma path_prefix_ok:
  assumes "tree_ok es" and "is_path es (q @ e # p)" and "\<not> moves_leaf (en_kind e)"
  shows "session_ok (q @ [e])"
proof -
  from is_path_prefix [of es "q @ [e]" p] assms(2) have "is_path es (q @ [e])" by simp
  from tree_ok_path [OF assms(1) this] leafId_of_other [OF assms(3)] show ?thesis by (simp add: session_ok_def)
qed

context jsonl_files
begin

lemma append_entries_path:
  assumes "tree_ok es" and "is_path es (q @ p)" and "\<not> list_ex (\<lambda>e. moves_leaf (en_kind e)) p" and "[] \<notin> en_timestamp ` set p"
    and "jsonl_good s" and "in_sync contents s" and "jl_entries s = q"
    and "append_entries (jsonl_ops fs) p s h = (Inr u, s', h')"
  shows "jsonl_good s' \<and> in_sync contents s' \<and> jl_entries s' = q @ p"
  using assms(2-)
proof (induction p arbitrary: q s h)
  case (Cons e p)
  obtain r s1 h1 where a: "jsonl_appendEntry fs e s h = (r, s1, h1)" by (metis prod_cases3)
  with Cons.prems(7) have r: "r = Inr ()" "append_entries (jsonl_ops fs) p s1 h1 = (Inr u, s', h')"
    by (auto split: sum.splits)
  have ok: "session_ok (op_getEntries (jsonl_ops fs) s @ [e])"
    using path_prefix_ok [OF assms(1) Cons.prems(1)] Cons.prems(2,6) by simp
  have "op_appendEntry (jsonl_ops fs) e s h = (r, s1, h1)" using a by simp
  from jsonl.appendEntry [OF Cons.prems(4) ok this] r(1) have s1: "jsonl_good s1" "jl_entries s1 = q @ [e]" using Cons.prems(6) by auto
  have "in_sync contents s1" using append_in_sync [OF Cons.prems(5) _ a] Cons.prems(3) by auto
  from Cons.IH [OF _ _ _ s1(1) this s1(2) r(2)] Cons.prems(1-3) show ?case by simp
qed simp

lemma new_session_file_in_sync:
  assumes "new_session_file fs opts r h = (Inr s, r', h')" and "[] \<notin> range (ho_clock h)"
    and "rc_cwd opts \<noteq> []" and "rc_id opts = Some i" and "i \<noteq> []"
  shows "jsonl_good s \<and> in_sync contents s \<and> jl_entries s = []"
proof -
  obtain t h2 where t: "time_now h = (t, h2)" by fastforce
  with assms(2) have clock: "[] \<notin> range (ho_clock h2)" by (auto simp: time_now_def)
  from assms(1,4) t obtain path f f2 where
    "jsonl_create fs path \<lparr>jo_cwd = rc_cwd opts, jo_sessionId = i, jo_parentSessionPath = rc_parentSessionPath opts\<rparr> f h2
      = (Inr s, f2, h')"
    by (auto simp: new_session_file_def Let_def split: prod.splits sum.splits)
  from create_in_sync [OF this clock] assms(3,5) show ?thesis by simp
qed

text \<open>
  Forking a session file before one of its user messages: the new session holds exactly the branch up to it, is well-formed,
  and its file is in step with it.
\<close>

lemma fork_file_keeps_branch:
  assumes "jsonl_repo_fork fs source fork opts r h = Some (Inr s, r', h')"
    and "jsonl_repo_open fs source r = (Inr st, r1)" and "jsonl_good st" and "in_sync contents st"
    and "target \<in> set (jl_entries st)" and "is_user_entry target"
    and "fo_entryId fork = Some (en_id target)" and "fo_position fork \<noteq> Some ForkAt"
    and "\<not> list_ex (\<lambda>e. moves_leaf (en_kind e)) (branch_of (jl_entries st) (en_parentId target))"
    and "[] \<notin> range (ho_clock h)" and "rc_cwd opts \<noteq> []" and "rc_id opts = Some i" and "i \<noteq> []"
  shows "jsonl_good s \<and> in_sync contents s \<and> jl_entries s = branch_of (jl_entries st) (en_parentId target)"
proof -
  let ?es = "jl_entries st" and ?p = "branch_of (jl_entries st) (en_parentId target)"
  have tree: "tree_ok ?es" using jsonl.tree [OF assms(3)] by simp
  have leaf: "leaf_ok ?es (en_parentId target)"
  proof (cases "en_parentId target")
    case (Some q)
    with tree_ok_parent [OF tree assms(5) Some] show ?thesis by auto
  qed simp
  have path: "is_path ?es ?p" using tree leaf by (rule branch_of_is_path)
  have entry: "op_getEntry (jsonl_ops fs) st (en_id target) = Some target"
    using jsonl.getEntry [OF assms(3)] index_by_tree [OF tree assms(5)] by simp
  have "en_id target \<noteq> []" using tree assms(5) unfolding tree_ok_def by (metis image_eqI)
  moreover have "nullish (fo_position fork) ForkBefore \<noteq> ForkAt" using assms(8) by (cases "fo_position fork") auto
  ultimately have forked: "getEntriesToFork (jsonl_ops fs) fork st = Some (Inr ?p)"
    using entry assms(6,7) jsonl.getPathToRoot [OF assms(3)] path_to_root_branch [OF tree leaf]
    by (simp add: getEntriesToFork_def)
  let ?opts = "opts\<lparr>rc_parentSessionPath := Some (nullish (rc_parentSessionPath opts) (jm_path source))\<rparr>"
  obtain q s0 r2 h2 where new: "new_session_file fs ?opts r1 h = (q, r2, h2)" by (metis prod_cases3)
  from assms(1,2) forked new obtain s0 h3 where q: "q = Inr s0" "append_entries (jsonl_ops fs) ?p s0 h2 = (Inr (), s, h3)"
    by (auto simp: jsonl_repo_fork_def split: sum.splits prod.splits)
  have s0: "jsonl_good s0" "in_sync contents s0" "jl_entries s0 = []"
    using new_session_file_in_sync [of ?opts r1 h s0 r2 h2 i] new q(1) assms(10-13) by simp_all
  have "[] \<notin> en_timestamp ` set ?p"
    using assms(4) is_path_subset [OF path] by (auto simp: in_sync_def)
  from append_entries_path [of ?es "[]" ?p, OF tree _ assms(9) this s0 q(2)] path show ?thesis by simp
qed

end

end
