(* ===== verification/Effects.thy ===== *)
theory Effects
  imports Prelude
begin

text \<open>
  Effectful TypeScript code. An \<^verbatim>\<open>async\<close> function of the agent packages reads and
  writes state outside the model (listeners, tools, hooks, the provider) and emits events. Such a
  function becomes an action: it takes the runtime state, the events emitted so far and a world of
  any type, and returns a value or a thrown error with the next state. Callbacks the
  code receives are functions on the world; awaiting one is \<open>call\<close>.

  \<open>runs m R\<close> is the specification of an action used by the proofs: started anywhere, \<open>m\<close>
  extends the event trace by some \<open>ts\<close> that \<open>R\<close> relates to its result.
\<close>

section \<open>Actions\<close>

record ('e, 'w) rt =
  emitted :: "'e list"
  world :: 'w

type_synonym ('w, 'a) callback = "'w \<Rightarrow> (jerror + 'a) \<times> 'w"
type_synonym ('e, 'w, 'a) act = "('e, 'w) rt \<Rightarrow> (jerror + 'a) \<times> ('e, 'w) rt"

definition ret :: "'a \<Rightarrow> ('e, 'w, 'a) act" where
  "ret a = (\<lambda>s. (Inr a, s))"

definition throw :: "jerror \<Rightarrow> ('e, 'w, 'a) act" where
  "throw e = (\<lambda>s. (Inl e, s))"

definition and_then :: "('e, 'w, 'a) act \<Rightarrow> ('a \<Rightarrow> ('e, 'w, 'b) act) \<Rightarrow> ('e, 'w, 'b) act" where
  "and_then m f = (\<lambda>s. case m s of (Inl e, s') \<Rightarrow> (Inl e, s') | (Inr a, s') \<Rightarrow> f a s')"

definition try_catch :: "('e, 'w, 'a) act \<Rightarrow> (jerror \<Rightarrow> ('e, 'w, 'a) act) \<Rightarrow> ('e, 'w, 'a) act" where
  "try_catch m h = (\<lambda>s. case m s of (Inl e, s') \<Rightarrow> h e s' | (Inr a, s') \<Rightarrow> (Inr a, s'))"

text \<open>Awaiting a callback of the host, which may throw and may change the world.\<close>

definition call :: "('w, 'a) callback \<Rightarrow> ('e, 'w, 'a) act" where
  "call f = (\<lambda>s. case f (world s) of (r, w) \<Rightarrow> (r, s\<lparr>world := w\<rparr>))"

text \<open>Reading the world.\<close>

definition asks :: "('w \<Rightarrow> 'a) \<Rightarrow> ('e, 'w, 'a) act" where
  "asks f = (\<lambda>s. (Inr (f (world s)), s))"

text \<open>An optional callback: \<^verbatim>\<open>await config.f?.(x)\<close>.\<close>

definition call_opt :: "('w, 'a option) callback option \<Rightarrow> ('e, 'w, 'a option) act" where
  "call_opt f = (case f of None \<Rightarrow> ret None | Some g \<Rightarrow> call g)"

text \<open>Emitting an event: it reaches the sink, whose rejection is thrown at the emitter.\<close>

definition emit :: "('e \<Rightarrow> ('w, unit) callback) \<Rightarrow> 'e \<Rightarrow> ('e, 'w, unit) act" where
  "emit sink e =
     (\<lambda>s. case sink e (world s) of (r, w) \<Rightarrow> (r, s\<lparr>emitted := emitted s @ [e], world := w\<rparr>))"

fun for_each :: "'x list \<Rightarrow> ('x \<Rightarrow> ('e, 'w, unit) act) \<Rightarrow> ('e, 'w, unit) act" where
  "for_each [] f = ret ()"
| "for_each (x # xs) f = and_then (f x) (\<lambda>_. for_each xs f)"

fun map_act :: "('x \<Rightarrow> ('e, 'w, 'a) act) \<Rightarrow> 'x list \<Rightarrow> ('e, 'w, 'a list) act" where
  "map_act f [] = ret []"
| "map_act f (x # xs) = and_then (f x) (\<lambda>a. and_then (map_act f xs) (\<lambda>as. ret (a # as)))"

lemma and_then_ret [simp]: "and_then (ret a) f = f a"
  by (simp add: and_then_def ret_def)

lemma and_then_ret_right [simp]: "and_then m ret = m"
  by (rule ext) (simp add: and_then_def ret_def split: prod.splits sum.splits)

lemma and_then_throw [simp]: "and_then (throw e) f = throw e"
  by (simp add: and_then_def throw_def)

lemma and_then_assoc: "and_then (and_then m f) g = and_then m (\<lambda>a. and_then (f a) g)"
  by (rule ext) (simp add: and_then_def split: prod.splits sum.splits)

lemma try_catch_ret [simp]: "try_catch (ret a) h = ret a"
  by (simp add: try_catch_def ret_def)

lemma and_then_asks: "and_then (asks f) g s = g (f (world s)) s"
  by (simp add: and_then_def asks_def)

lemma emitted_emit: "emit sink e s = (r, s') \<Longrightarrow> emitted s' = emitted s @ [e]"
  by (auto simp: emit_def split: prod.splits)

lemma and_then_InrE:
  assumes "and_then m f s = (Inr b, s')"
  obtains a s1 where "m s = (Inr a, s1)" and "f a s1 = (Inr b, s')"
  using assms by (auto simp: and_then_def split: prod.splits sum.splits)

lemma ret_InrD: "ret a s = (Inr b, s') \<Longrightarrow> b = a \<and> s' = s"
  by (simp add: ret_def)

lemma call_InrE:
  assumes "call f s = (Inr a, s')"
  obtains w where "f (world s) = (Inr a, w)" and "s' = s\<lparr>world := w\<rparr>"
  using assms by (auto simp: call_def split: prod.splits)

section \<open>Trace specifications\<close>

definition runs :: "('e, 'w, 'a) act \<Rightarrow> (jerror + 'a \<Rightarrow> 'e list \<Rightarrow> bool) \<Rightarrow> bool" where
  "runs m R \<longleftrightarrow> (\<forall>s. \<exists>ts. emitted (snd (m s)) = emitted s @ ts \<and> R (fst (m s)) ts)"

named_theorems runs_intros \<open>trace specifications of actions\<close>

lemma runsI:
  "(\<And>s. \<exists>ts. emitted (snd (m s)) = emitted s @ ts \<and> R (fst (m s)) ts) \<Longrightarrow> runs m R"
  by (simp add: runs_def)

lemma runsD:
  assumes "runs m R" and "m s = (r, s')"
  shows "\<exists>ts. emitted s' = emitted s @ ts \<and> R r ts"
  using assms by (metis fst_conv runs_def snd_conv)

lemma runs_mono: "runs m R \<Longrightarrow> (\<And>r ts. R r ts \<Longrightarrow> R' r ts) \<Longrightarrow> runs m R'"
  unfolding runs_def by metis

lemma runs_ret: "R (Inr a) [] \<Longrightarrow> runs (ret a) R"
  by (simp add: runs_def ret_def)

lemma runs_throw: "R (Inl e) [] \<Longrightarrow> runs (throw e) R"
  by (simp add: runs_def throw_def)

lemma runs_call: "(\<And>r. R r []) \<Longrightarrow> runs (call f) R"
  by (simp add: runs_def call_def split: prod.splits)

lemma runs_asks: "(\<And>a. R (Inr a) []) \<Longrightarrow> runs (asks f) R"
  by (simp add: runs_def asks_def)

lemma runs_call_opt: "(\<And>r. R r []) \<Longrightarrow> runs (call_opt f) R"
  by (cases f) (auto simp: call_opt_def intro: runs_ret runs_call)

lemma runs_emit: "(\<And>r. R r [e]) \<Longrightarrow> runs (emit sink e) R"
  by (simp add: runs_def emit_def split: prod.splits)

lemma runs_and_then:
  assumes m: "runs m P"
    and err: "\<And>e ts. P (Inl e) ts \<Longrightarrow> R (Inl e) ts"
    and ok: "\<And>a ts. P (Inr a) ts \<Longrightarrow> runs (f a) (\<lambda>r us. R r (ts @ us))"
  shows "runs (and_then m f) R"
proof (rule runsI)
  fix s
  obtain r s1 where ms: "m s = (r, s1)" by fastforce
  with m obtain ts where ts: "emitted s1 = emitted s @ ts" "P r ts"
    by (blast dest: runsD)
  show "\<exists>ts. emitted (snd (and_then m f s)) = emitted s @ ts \<and> R (fst (and_then m f s)) ts"
  proof (cases r)
    case (Inl e)
    with ms ts err show ?thesis by (auto simp: and_then_def)
  next
    case (Inr a)
    obtain r2 s2 where fs: "f a s1 = (r2, s2)" by fastforce
    from ok [of a ts] ts Inr have "runs (f a) (\<lambda>r us. R r (ts @ us))" by simp
    from runsD [OF this fs] obtain us where "emitted s2 = emitted s1 @ us" "R r2 (ts @ us)"
      by blast
    with ms ts fs Inr show ?thesis by (auto simp: and_then_def)
  qed
qed

lemma runs_try_catch:
  assumes m: "runs m P"
    and err: "\<And>e ts. P (Inl e) ts \<Longrightarrow> runs (h e) (\<lambda>r us. R r (ts @ us))"
    and ok: "\<And>a ts. P (Inr a) ts \<Longrightarrow> R (Inr a) ts"
  shows "runs (try_catch m h) R"
proof (rule runsI)
  fix s
  obtain r s1 where ms: "m s = (r, s1)" by fastforce
  with m obtain ts where ts: "emitted s1 = emitted s @ ts" "P r ts"
    by (blast dest: runsD)
  show "\<exists>ts. emitted (snd (try_catch m h s)) = emitted s @ ts \<and> R (fst (try_catch m h s)) ts"
  proof (cases r)
    case (Inr a)
    with ms ts ok show ?thesis by (auto simp: try_catch_def)
  next
    case (Inl e)
    obtain r2 s2 where hs: "h e s1 = (r2, s2)" by fastforce
    from err [of e ts] ts Inl have "runs (h e) (\<lambda>r us. R r (ts @ us))" by simp
    from runsD [OF this hs] obtain us where "emitted s2 = emitted s1 @ us" "R r2 (ts @ us)"
      by blast
    with ms ts hs Inl show ?thesis by (auto simp: try_catch_def)
  qed
qed

section \<open>Acceptors\<close>

text \<open>
  An acceptor says which event sequences are in order: its step gives the next phase, or
  \<open>None\<close> for an event that is out of place. \<open>phased \<delta> p m Q\<close>: from phase \<open>p\<close>, no event of
  \<open>m\<close> is out of place, also when \<open>m\<close> throws, and when \<open>m\<close> returns \<open>a\<close> the phase \<open>q\<close> reached
  satisfies \<open>Q a q\<close>.
\<close>

fun accepts :: "('p \<Rightarrow> 'e \<Rightarrow> 'p option) \<Rightarrow> 'p \<Rightarrow> 'e list \<Rightarrow> 'p option" where
  "accepts \<delta> p [] = Some p"
| "accepts \<delta> p (e # es) = (case \<delta> p e of None \<Rightarrow> None | Some q \<Rightarrow> accepts \<delta> q es)"

definition phased ::
    "('p \<Rightarrow> 'e \<Rightarrow> 'p option) \<Rightarrow> 'p \<Rightarrow> ('e, 'w, 'a) act \<Rightarrow> ('a \<Rightarrow> 'p \<Rightarrow> bool) \<Rightarrow> bool" where
  "phased \<delta> p m Q \<longleftrightarrow>
     runs m (\<lambda>r ts. case r of
        Inl _ \<Rightarrow> accepts \<delta> p ts \<noteq> None
      | Inr a \<Rightarrow> \<exists>q. accepts \<delta> p ts = Some q \<and> Q a q)"

lemma accepts_append:
  "accepts \<delta> p (xs @ ys) = (case accepts \<delta> p xs of None \<Rightarrow> None | Some q \<Rightarrow> accepts \<delta> q ys)"
  by (induction xs arbitrary: p) (auto split: option.splits)

lemma accepts_prefix: "accepts \<delta> p (xs @ ys) \<noteq> None \<Longrightarrow> accepts \<delta> p xs \<noteq> None"
  by (auto simp: accepts_append split: option.splits)

lemma phased_mono: "phased \<delta> p m Q \<Longrightarrow> (\<And>a q. Q a q \<Longrightarrow> Q' a q) \<Longrightarrow> phased \<delta> p m Q'"
  unfolding phased_def by (erule runs_mono) (auto split: sum.splits)

lemma phased_okD:
  assumes "phased \<delta> p m Q" and "m s = (Inr a, s')"
  shows "\<exists>ts q. emitted s' = emitted s @ ts \<and> accepts \<delta> p ts = Some q \<and> Q a q"
  using runsD [OF assms(1) [unfolded phased_def] assms(2)] by auto

lemma phased_errD:
  assumes "phased \<delta> p m Q" and "m s = (Inl e, s')"
  shows "\<exists>ts q. emitted s' = emitted s @ ts \<and> accepts \<delta> p ts = Some q"
  using runsD [OF assms(1) [unfolded phased_def] assms(2)] by auto

text \<open>The same from its two cases, for actions that are not built from the combinators.\<close>

lemma phasedI:
  assumes "\<And>s e s'. m s = (Inl e, s') \<Longrightarrow> \<exists>ts q. emitted s' = emitted s @ ts \<and> accepts \<delta> p ts = Some q"
    and "\<And>s a s'. m s = (Inr a, s') \<Longrightarrow> \<exists>ts q. emitted s' = emitted s @ ts \<and> accepts \<delta> p ts = Some q \<and> Q a q"
  shows "phased \<delta> p m Q"
  unfolding phased_def
proof (rule runsI)
  fix s
  obtain r s' where m: "m s = (r, s')" by fastforce
  show "\<exists>ts. emitted (snd (m s)) = emitted s @ ts \<and>
     (case fst (m s) of Inl _ \<Rightarrow> accepts \<delta> p ts \<noteq> None
      | Inr a \<Rightarrow> \<exists>q. accepts \<delta> p ts = Some q \<and> Q a q)"
  proof (cases r)
    case (Inl e)
    with assms(1) [of s e s'] m show ?thesis by auto
  next
    case (Inr a)
    with assms(2) [of s a s'] m show ?thesis by auto
  qed
qed

lemma phased_shift:
  assumes "accepts \<delta> p ts = Some q" and "phased \<delta> q m Q"
  shows "runs m (\<lambda>r us. case r of
     Inl _ \<Rightarrow> accepts \<delta> p (ts @ us) \<noteq> None
   | Inr a \<Rightarrow> \<exists>q. accepts \<delta> p (ts @ us) = Some q \<and> Q a q)"
  using assms(2) unfolding phased_def
  by (rule runs_mono) (use assms(1) in \<open>auto simp: accepts_append split: sum.splits\<close>)

lemma phased_and_then:
  assumes "phased \<delta> p m Q" and "\<And>a q. Q a q \<Longrightarrow> phased \<delta> q (f a) R"
  shows "phased \<delta> p (and_then m f) R"
  unfolding phased_def
  by (rule runs_and_then [OF assms(1) [unfolded phased_def]])
    (auto intro: phased_shift assms(2))

lemma phased_try_catch:
  assumes "phased \<delta> p m Q" and "\<And>e q. phased \<delta> q (h e) Q"
  shows "phased \<delta> p (try_catch m h) Q"
  unfolding phased_def
  by (rule runs_try_catch [OF assms(1) [unfolded phased_def]])
    (auto intro: phased_shift assms(2))

lemma phased_ret: "Q a p \<Longrightarrow> phased \<delta> p (ret a) Q"
  by (simp add: phased_def runs_ret)

lemma phased_throw: "phased \<delta> p (throw e) Q"
  by (simp add: phased_def runs_throw)

lemma phased_call: "(\<And>a. Q a p) \<Longrightarrow> phased \<delta> p (call f) Q"
  unfolding phased_def by (rule runs_call) (simp split: sum.splits)

lemma phased_call_opt: "(\<And>a. Q a p) \<Longrightarrow> phased \<delta> p (call_opt f) Q"
  unfolding phased_def by (rule runs_call_opt) (simp split: sum.splits)

lemma phased_asks: "(\<And>w. Q (f w) p) \<Longrightarrow> phased \<delta> p (asks f) Q"
  by (rule phasedI) (auto simp: asks_def intro: exI [of _ "[]"])

lemma phased_emit: "\<delta> p e = Some q \<Longrightarrow> Q () q \<Longrightarrow> phased \<delta> p (emit sink e) Q"
  unfolding phased_def by (rule runs_emit) (simp split: sum.splits)

text \<open>
  Loops over a list. The phase before the remaining elements is described by a family indexed
  by the elements done.
\<close>

lemma phased_for_each:
  assumes "I [] p"
    and "\<And>ds x es q. xs = ds @ x # es \<Longrightarrow> I ds q \<Longrightarrow> phased \<delta> q (f x) (\<lambda>_. I (ds @ [x]))"
  shows "phased \<delta> p (for_each xs f) (\<lambda>_. I xs)"
proof -
  have "phased \<delta> q (for_each es f) (\<lambda>_. I xs)" if "xs = ds @ es" and "I ds q" for ds es q
    using that
  proof (induction es arbitrary: ds q)
    case Nil
    then show ?case by (simp add: phased_ret)
  next
    case (Cons x es)
    show ?case
      unfolding for_each.simps
    proof (rule phased_and_then [OF assms(2) [OF Cons.prems]])
      fix u q' assume "I (ds @ [x]) q'"
      with Cons.prems(1) show "phased \<delta> q' (for_each es f) (\<lambda>_. I xs)"
        by (intro Cons.IH [of "ds @ [x]"]) simp_all
    qed
  qed
  from this [of "[]" xs p] assms(1) show ?thesis by simp
qed

lemma phased_map_act:
  assumes "I [] [] p"
    and "\<And>ds x es as q. xs = ds @ x # es \<Longrightarrow> I ds as q \<Longrightarrow>
           phased \<delta> q (f x) (\<lambda>a. I (ds @ [x]) (as @ [a]))"
  shows "phased \<delta> p (map_act f xs) (I xs)"
proof -
  have "phased \<delta> q (map_act f es) (\<lambda>bs. I xs (as @ bs))"
    if "xs = ds @ es" and "I ds as q" for ds es as q
    using that
  proof (induction es arbitrary: ds as q)
    case Nil
    then show ?case by (simp add: phased_ret)
  next
    case (Cons x es)
    show ?case
      unfolding map_act.simps
    proof (rule phased_and_then [OF assms(2) [OF Cons.prems]])
      fix a q' assume "I (ds @ [x]) (as @ [a]) q'"
      with Cons.prems(1) have "phased \<delta> q' (map_act f es) (\<lambda>bs. I xs ((as @ [a]) @ bs))"
        by (intro Cons.IH [of "ds @ [x]"]) simp_all
      then show "phased \<delta> q' (and_then (map_act f es) (\<lambda>as. ret (a # as))) (\<lambda>bs. I xs (as @ bs))"
        by (rule phased_and_then) (simp add: phased_ret)
    qed
  qed
  from this [of "[]" xs "[]" p] assms(1) show ?thesis by simp
qed

section \<open>Silent actions\<close>

definition silent :: "('e, 'w, 'a) act \<Rightarrow> bool" where
  "silent m \<longleftrightarrow> (\<forall>s. emitted (snd (m s)) = emitted s)"

lemma silent_ret [simp]: "silent (ret a)" and silent_throw [simp]: "silent (throw e)"
  and silent_call [simp]: "silent (call f)" and silent_asks [simp]: "silent (asks g)"
  by (auto simp: silent_def ret_def throw_def call_def asks_def split: prod.splits)

lemma silentD: "silent m \<Longrightarrow> m s = (r, s') \<Longrightarrow> emitted s' = emitted s"
  unfolding silent_def by (metis snd_conv)

lemma silent_and_then:
  assumes "silent m" and "\<And>a. silent (f a)" shows "silent (and_then m f)"
  unfolding silent_def
proof
  fix s
  obtain r s' where m: "m s = (r, s')" by fastforce
  from silentD [OF assms(1) m] assms(2) m show "emitted (snd (and_then m f s)) = emitted s"
    by (auto simp: and_then_def silent_def split: sum.splits)
qed

lemma silent_phased: "silent m \<Longrightarrow> (\<And>a. Q a p) \<Longrightarrow> phased \<delta> p m Q"
  unfolding phased_def runs_def silent_def by (auto split: sum.splits)

text \<open>A handler of a silent action starts in the phase the action started in.\<close>

lemma phased_try_silent:
  assumes "silent m" and "phased \<delta> p m Q" and "\<And>e. phased \<delta> p (h e) Q"
  shows "phased \<delta> p (try_catch m h) Q"
proof (rule phasedI)
  fix s e s' assume t: "try_catch m h s = (Inl e, s')"
  then obtain e1 s1 where m: "m s = (Inl e1, s1)" and h: "h e1 s1 = (Inl e, s')"
    by (auto simp: try_catch_def split: prod.splits sum.splits)
  from phased_errD [OF assms(3) h] silentD [OF assms(1) m]
  show "\<exists>ts q. emitted s' = emitted s @ ts \<and> accepts \<delta> p ts = Some q" by auto
next
  fix s a s' assume t: "try_catch m h s = (Inr a, s')"
  show "\<exists>ts q. emitted s' = emitted s @ ts \<and> accepts \<delta> p ts = Some q \<and> Q a q"
  proof (cases "m s")
    case (Pair r s1)
    show ?thesis
    proof (cases r)
      case (Inr b)
      with t Pair have "m s = (Inr a, s')" by (simp add: try_catch_def)
      from phased_okD [OF assms(2) this] show ?thesis .
    next
      case (Inl e1)
      with t Pair have h: "h e1 s1 = (Inr a, s')" by (simp add: try_catch_def)
      from phased_okD [OF assms(3) h] silentD [OF assms(1) Pair] show ?thesis by auto
    qed
  qed
qed

section \<open>Laws of the world\<close>

text \<open>
  A law relates a world, the events emitted meanwhile and the world after; it holds of a run that
  does nothing and of one run after another. An action obeys a law when every run of it does. The
  combinators preserve laws, so a whole component obeys a law as soon as its
  callbacks do. A measure that never grows is such a law, and so is a state that the event sink keeps.
\<close>

definition obeys :: "('w \<Rightarrow> 'e list \<Rightarrow> 'w \<Rightarrow> bool) \<Rightarrow> ('e, 'w, 'a) act \<Rightarrow> bool" where
  "obeys P m \<longleftrightarrow>
     (\<forall>s. \<exists>ts. emitted (snd (m s)) = emitted s @ ts \<and> P (world s) ts (world (snd (m s))))"

definition callback_obeys :: "('w \<Rightarrow> 'e list \<Rightarrow> 'w \<Rightarrow> bool) \<Rightarrow> ('w, 'a) callback \<Rightarrow> bool" where
  "callback_obeys P f \<longleftrightarrow> (\<forall>w. P w [] (snd (f w)))"

definition sink_obeys ::
    "('w \<Rightarrow> 'e list \<Rightarrow> 'w \<Rightarrow> bool) \<Rightarrow> ('e \<Rightarrow> ('w, unit) callback) \<Rightarrow> bool" where
  "sink_obeys P sink \<longleftrightarrow> (\<forall>e w. P w [e] (snd (sink e w)))"

lemma obeysD: "obeys P m \<Longrightarrow> m s = (r, s') \<Longrightarrow>
   \<exists>ts. emitted s' = emitted s @ ts \<and> P (world s) ts (world s')"
  unfolding obeys_def by (metis snd_conv)

locale world_law =
  fixes P :: "'w \<Rightarrow> 'e list \<Rightarrow> 'w \<Rightarrow> bool"
  assumes idle: "P w [] w"
    and run_on: "P w ts w' \<Longrightarrow> P w' us w'' \<Longrightarrow> P w (ts @ us) w''"
begin

lemma obeys_ret: "obeys P (ret a)"
  by (simp add: obeys_def ret_def idle)

lemma obeys_throw: "obeys P (throw e)"
  by (simp add: obeys_def throw_def idle)

lemma obeys_asks: "obeys P (asks f)"
  by (simp add: obeys_def asks_def idle)

lemma obeys_call: "callback_obeys P f \<Longrightarrow> obeys P (call f)"
  unfolding obeys_def callback_obeys_def call_def
  by (auto split: prod.splits) (metis snd_conv)

lemma obeys_emit: "sink_obeys P sink \<Longrightarrow> obeys P (emit sink e)"
  unfolding obeys_def sink_obeys_def emit_def
  by (auto split: prod.splits) (metis snd_conv)

lemma obeys_and_then:
  assumes "obeys P m" and "\<And>a. obeys P (f a)"
  shows "obeys P (and_then m f)"
  unfolding obeys_def
proof
  fix s
  obtain r s1 where m: "m s = (r, s1)" by fastforce
  from obeysD [OF assms(1) m] obtain ts where
    ts: "emitted s1 = emitted s @ ts" "P (world s) ts (world s1)" by blast
  show "\<exists>ts. emitted (snd (and_then m f s)) = emitted s @ ts
      \<and> P (world s) ts (world (snd (and_then m f s)))"
  proof (cases r)
    case (Inl e)
    with m ts show ?thesis by (auto simp: and_then_def)
  next
    case (Inr a)
    obtain r2 s2 where f: "f a s1 = (r2, s2)" by fastforce
    from obeysD [OF assms(2) f] ts run_on m f Inr show ?thesis by (auto simp: and_then_def)
  qed
qed

lemma obeys_try_catch:
  assumes "obeys P m" and "\<And>e. obeys P (h e)"
  shows "obeys P (try_catch m h)"
  unfolding obeys_def
proof
  fix s
  obtain r s1 where m: "m s = (r, s1)" by fastforce
  from obeysD [OF assms(1) m] obtain ts where
    ts: "emitted s1 = emitted s @ ts" "P (world s) ts (world s1)" by blast
  show "\<exists>ts. emitted (snd (try_catch m h s)) = emitted s @ ts
      \<and> P (world s) ts (world (snd (try_catch m h s)))"
  proof (cases r)
    case (Inr a)
    with m ts show ?thesis by (auto simp: try_catch_def)
  next
    case (Inl e)
    obtain r2 s2 where h: "h e s1 = (r2, s2)" by fastforce
    from obeysD [OF assms(2) h] ts run_on m h Inl show ?thesis by (auto simp: try_catch_def)
  qed
qed

lemma obeys_for_each: "(\<And>x. obeys P (f x)) \<Longrightarrow> obeys P (for_each xs f)"
  by (induction xs) (auto intro: obeys_ret obeys_and_then)

lemma obeys_map_act: "(\<And>x. x \<in> set xs \<Longrightarrow> obeys P (f x)) \<Longrightarrow> obeys P (map_act f xs)"
  by (induction xs) (auto intro: obeys_ret obeys_and_then)

lemmas obeys_intros = obeys_ret obeys_throw obeys_asks obeys_call obeys_emit obeys_and_then
  obeys_try_catch obeys_for_each obeys_map_act

end

text \<open>The laws of the development: a measure that never grows, and a state the sink keeps.\<close>

definition shrinks :: "('w \<Rightarrow> nat) \<Rightarrow> 'w \<Rightarrow> 'e list \<Rightarrow> 'w \<Rightarrow> bool" where
  "shrinks f w ts w' \<longleftrightarrow> f w' \<le> f w"

definition follows :: "('w \<Rightarrow> 'v) \<Rightarrow> ('v \<Rightarrow> 'e \<Rightarrow> 'v) \<Rightarrow> 'w \<Rightarrow> 'e list \<Rightarrow> 'w \<Rightarrow> bool" where
  "follows g \<delta> w ts w' \<longleftrightarrow> g w' = foldl \<delta> (g w) ts"

interpretation shrinking: world_law "shrinks f" for f :: "'w \<Rightarrow> nat"
  by unfold_locales (auto simp: shrinks_def)

interpretation following: world_law "follows g \<delta>" for g :: "'w \<Rightarrow> 'v" and \<delta> :: "'v \<Rightarrow> 'e \<Rightarrow> 'v"
  by unfold_locales (auto simp: follows_def)

end
