(* ===== verification/Agent_Protocol.thy ===== *)
theory Agent_Protocol
  imports Effects Messages "HOL-Library.Multiset" "HOL-Library.Sublist"
begin

text \<open>
  The abstract specification of the agent's event stream (\<^verbatim>\<open>AgentEvent\<close> in
  \<^verbatim>\<open>packages/agent/src/types.ts\<close>) as an acceptor. A run is \<open>agent_start\<close>, then turns, then
  \<open>agent_end\<close>; within a turn, messages start, are updated and end one at a time, and tool executions
  open and close. The acceptor also remembers the tool call ids that are open, those that were started, and the
  messages that have ended, so that it can check what the events carry: a turn
  ends with the assistant message and the tool results that ended last, and the run ends with
  all messages of the run.

  \<open>Agent_Loop\<close> shows that the loop's trace is accepted, from which the properties of
  the trace follow; \<open>Agent\<close> relates the phases to the state that the class \<^verbatim>\<open>Agent\<close> keeps.
\<close>

datatype life = Fresh | Between | InTurn | InMessage | Over

record protocol =
  pr_life :: life
  pr_open :: "jstr multiset"
  pr_started :: "jstr list"
  pr_log :: "agent_message list"

definition protocol_start :: protocol where
  "protocol_start = \<lparr>pr_life = Fresh, pr_open = {#}, pr_started = [], pr_log = []\<rparr>"

fun protocol_step :: "protocol \<Rightarrow> agent_event \<Rightarrow> protocol option" where
  "protocol_step p Agent_start =
     (if pr_life p = Fresh then Some (p\<lparr>pr_life := Between\<rparr>) else None)"
| "protocol_step p Turn_start =
     (if pr_life p = Between then Some (p\<lparr>pr_life := InTurn\<rparr>) else None)"
| "protocol_step p (Message_start m) =
     (if pr_life p = InTurn \<or> pr_life p = InMessage then Some (p\<lparr>pr_life := InMessage\<rparr>) else None)"
| "protocol_step p (Message_update m e) = (if pr_life p = InMessage then Some p else None)"
| "protocol_step p (Message_end m) =
     (if pr_life p = InMessage
      then Some (p\<lparr>pr_life := InTurn, pr_log := pr_log p @ [m]\<rparr>) else None)"
| "protocol_step p (Tool_execution_start i n a) =
     (if pr_life p = InTurn 
      then Some (p\<lparr>pr_open := add_mset i (pr_open p), pr_started := pr_started p @ [i]\<rparr>) else None)"
| "protocol_step p (Tool_execution_update i n a r) =
     (if pr_life p = InTurn \<and> i \<in># pr_open p then Some p else None)"
| "protocol_step p (Tool_execution_end i n r e) =
     (if pr_life p = InTurn \<and> i \<in># pr_open p
      then Some (p\<lparr>pr_open := pr_open p - {#i#}\<rparr>) else None)"
| "protocol_step p (Turn_end m rs) =
     (if pr_life p = InTurn \<and> pr_open p = {#}
         \<and> suffix (m # map (\<lambda>r. Llm (ToolResultM r)) rs) (pr_log p)
      then Some (p\<lparr>pr_life := Between\<rparr>) else None)"
| "protocol_step p (Agent_end ms) =
     (if pr_life p = Between \<and> ms = pr_log p then Some (p\<lparr>pr_life := Over\<rparr>) else None)"

text \<open>The messages that a trace ends, and the ids of tool executions it starts and ends.\<close>

fun message_ends :: "agent_event list \<Rightarrow> agent_message list" where
  "message_ends [] = []"
| "message_ends (Message_end m # es) = m # message_ends es"
| "message_ends (_ # es) = message_ends es"

fun starts :: "agent_event list \<Rightarrow> jstr list" where
  "starts [] = []"
| "starts (Tool_execution_start i n a # es) = i # starts es"
| "starts (_ # es) = starts es"

fun ends :: "agent_event list \<Rightarrow> jstr list" where
  "ends [] = []"
| "ends (Tool_execution_end i n r e # es) = i # ends es"
| "ends (_ # es) = ends es"

lemma protocol_step_log:
  "protocol_step p e = Some q \<Longrightarrow> pr_log q = pr_log p @ message_ends [e]"
  by (cases e) (auto split: if_splits)

lemma message_ends_Cons: "message_ends (e # es) = message_ends [e] @ message_ends es"
  by (cases e) simp_all

lemma starts_Cons: "starts (e # es) = starts [e] @ starts es"
  by (cases e) simp_all

lemma ends_Cons: "ends (e # es) = ends [e] @ ends es"
  by (cases e) simp_all

lemma message_ends_append: "message_ends (xs @ ys) = message_ends xs @ message_ends ys"
proof (induction xs)
  case Nil
  show ?case by simp
next
  case (Cons x xs)
  then show ?case by (cases x) simp_all
qed

lemma starts_append: "starts (xs @ ys) = starts xs @ starts ys"
proof (induction xs)
  case Nil
  show ?case by simp
next
  case (Cons x xs)
  then show ?case by (cases x) simp_all
qed

lemma ends_append: "ends (xs @ ys) = ends xs @ ends ys"
proof (induction xs)
  case Nil
  show ?case by simp
next
  case (Cons x xs)
  then show ?case by (cases x) simp_all
qed

lemma accepts_log:
  "accepts protocol_step p ts = Some q \<Longrightarrow> pr_log q = pr_log p @ message_ends ts"
proof (induction ts arbitrary: p)
  case Nil
  then show ?case by simp
next
  case (Cons e es)
  then obtain p' where p': "protocol_step p e = Some p'" "accepts protocol_step p' es = Some q"
    by (auto split: option.splits)
  then show ?case
    using Cons.IH protocol_step_log [OF p'(1)] by (simp add: message_ends_Cons [of e es])
qed

lemma protocol_step_started:
  "protocol_step p e = Some q \<Longrightarrow> pr_started q = pr_started p @ starts [e]"
  by (cases e) (auto split: if_splits)

lemma accepts_started:
  "accepts protocol_step p ts = Some q \<Longrightarrow> pr_started q = pr_started p @ starts ts"
proof (induction ts arbitrary: p)
  case Nil
  then show ?case by simp
next
  case (Cons e es)
  then obtain p' where p': "protocol_step p e = Some p'" "accepts protocol_step p' es = Some q"
    by (auto split: option.splits)
  have "starts (e # es) = starts [e] @ starts es" by (rule starts_Cons)
  with p' Cons.IH protocol_step_started [OF p'(1)] show ?case by simp
qed

lemma protocol_step_open:
  "protocol_step p e = Some q \<Longrightarrow> pr_open q + mset (ends [e]) = pr_open p + mset (starts [e])"
  by (cases e) (auto split: if_splits)

lemma mset_starts_Cons: "mset (starts (e # es)) = mset (starts [e]) + mset (starts es)"
  by (subst starts_Cons) (rule mset_append)

lemma mset_ends_Cons: "mset (ends (e # es)) = mset (ends [e]) + mset (ends es)"
  by (subst ends_Cons) (rule mset_append)

lemma accepts_open:
  "accepts protocol_step p ts = Some q \<Longrightarrow> pr_open q + mset (ends ts) = pr_open p + mset (starts ts)"
proof (induction ts arbitrary: p)
  case Nil
  then show ?case by simp
next
  case (Cons e es)
  then obtain p' where p': "protocol_step p e = Some p'" "accepts protocol_step p' es = Some q"
    by (auto split: option.splits)
  have "pr_open q + mset (ends (e # es)) = (pr_open q + mset (ends es)) + mset (ends [e])"
    unfolding mset_ends_Cons [of e es] by (simp only: ac_simps)
  also have "\<dots> = (pr_open p' + mset (starts es)) + mset (ends [e])"
    unfolding Cons.IH [OF p'(2)] ..
  also have "\<dots> = (pr_open p' + mset (ends [e])) + mset (starts es)"
    by (simp only: ac_simps)
  also have "\<dots> = (pr_open p + mset (starts [e])) + mset (starts es)"
    unfolding protocol_step_open [OF p'(1)] ..
  also have "\<dots> = pr_open p + mset (starts (e # es))"
    unfolding mset_starts_Cons [of e es] by (simp only: ac_simps)
  finally show ?case .
qed

text \<open>A tool execution never ends before it starts, at any point of an accepted trace.\<close>

lemma accepts_balanced:
  assumes "accepts protocol_step p (xs @ ys) \<noteq> None" and "pr_open p = {#}"
  shows "mset (ends xs) \<subseteq># mset (starts xs)"
proof -
  obtain q where "accepts protocol_step p xs = Some q"
    using accepts_prefix [OF assms(1)] by blast
  from accepts_open [OF this] assms(2) show ?thesis
    by (metis add.commute add_0 mset_subset_eq_add_left)
qed

text \<open>\<open>agent_end\<close> is the last event of a run.\<close>

lemma accepts_over:
  assumes "pr_life p = Over" and "accepts protocol_step p ts \<noteq> None"
  shows "ts = []"
proof (cases ts)
  case Nil
  then show ?thesis .
next
  case (Cons e es)
  with assms show ?thesis by (cases e) (simp_all split: if_splits)
qed

lemma agent_end_last:
  assumes "accepts protocol_step p (xs @ Agent_end ms # ys) \<noteq> None"
  shows "ys = []"
  using assms by (auto simp: accepts_append split: option.splits if_splits intro!: accepts_over)

end
