(* ===== verification/Tool_Calls.thy ===== *)
theory Tool_Calls
  imports Agent_Protocol
begin

text \<open>
  Tool execution of the agent loop: lines 373 to 718 of \<^verbatim>\<open>packages/agent/src/agent-loop.ts\<close>
  with the interfaces of \<^verbatim>\<open>packages/agent/src/types.ts\<close> that they use.

  A tool, a hook and the event sink are callbacks on a world \<open>'w\<close>. The abort signal is part of the
  world, since every callback receives the same one. Batches run one call after
  the other, or prepare the calls in order and run the prepared ones concurrently. For
  the concurrent case a prepared call is a task of three steps (run the tool,
  finalize, emit the end event), and a scheduler, which is a parameter, chooses the next task to
  move before each step.

  The lemmas show for both modes that the result messages come in the order of
  the calls whatever the completion order, that every call is started once and ended once, and
  that an end event never precedes its start event.
\<close>

section \<open>Interfaces\<close>

text \<open>
  \<open>tool_execute\<close> gives the partial results the tool streams through \<^verbatim>\<open>onUpdate\<close> and its outcome.
\<close>

record 'w agent_tool =
  tool_name :: jstr
  tool_description :: jstr
  tool_parameters :: json
  tool_label :: jstr
  tool_prepareArguments :: "(json \<Rightarrow> jerror + json) option"
  tool_execute :: "jstr \<Rightarrow> json \<Rightarrow> 'w \<Rightarrow> (tool_result list \<times> (jerror + tool_result)) \<times> 'w"
  tool_executionMode :: "tool_execution_mode option"

record 'w agent_context =
  ctx_systemPrompt :: jstr
  ctx_messages :: "agent_message list"
  ctx_tools :: "'w agent_tool list option"

record before_tool_call_result =
  btc_block :: "bool option"
  btc_reason :: "jstr option"

record after_tool_call_result =
  atc_content :: "content_block list option"
  atc_details :: "json option"
  atc_isError :: "bool option"
  atc_terminate :: "bool option"

record 'w before_tool_call_context =
  btx_assistantMessage :: assistant_message
  btx_toolCall :: tool_call
  btx_args :: json
  btx_context :: "'w agent_context"

record 'w after_tool_call_context =
  atx_assistantMessage :: assistant_message
  atx_toolCall :: tool_call
  atx_args :: json
  atx_result :: tool_result
  atx_isError :: bool
  atx_context :: "'w agent_context"

text \<open>The part of the loop's configuration that tool execution reads.\<close>

record 'w tool_config =
  cfg_toolExecution :: "tool_execution_mode option"
  cfg_beforeToolCall ::
    "('w before_tool_call_context \<Rightarrow> ('w, before_tool_call_result option) callback) option"
  cfg_afterToolCall ::
    "('w after_tool_call_context \<Rightarrow> ('w, after_tool_call_result option) callback) option"

text \<open>
  What the functions of the module take from outside: the sink, the validation of arguments
  against a schema, the clock, and the scheduler of concurrent tool executions, which sees
  the world and the indices of the unfinished calls.
\<close>

record 'w tool_env =
  env_emit :: "agent_event \<Rightarrow> ('w, unit) callback"
  env_validateToolArguments :: "'w agent_tool \<Rightarrow> tool_call \<Rightarrow> jerror + json"
  env_now :: "'w \<Rightarrow> int"
  env_schedule :: "'w \<Rightarrow> nat list \<Rightarrow> nat"

record 'w prepared_call =
  prep_toolCall :: tool_call
  prep_tool :: "'w agent_tool"
  prep_args :: json

datatype 'w preparation =
    Prepared "'w prepared_call"
  | Immediate tool_result bool

record executed_outcome =
  exec_result :: tool_result
  exec_isError :: bool

record finalized_outcome =
  fin_toolCall :: tool_call
  fin_result :: tool_result
  fin_isError :: bool

record tool_batch =
  batch_messages :: "tool_result_message list"
  batch_terminate :: bool

section \<open>One tool call\<close>

definition createErrorToolResult :: "jstr \<Rightarrow> tool_result" where
  "createErrorToolResult msg =
     \<lparr>res_content = [text_block msg], res_details = Some (JObj []), res_terminate = None\<rparr>"

definition find_tool :: "'w agent_context \<Rightarrow> jstr \<Rightarrow> 'w agent_tool option" where
  "find_tool ctx n =
     (case ctx_tools ctx of None \<Rightarrow> None | Some ts \<Rightarrow> find (\<lambda>t. tool_name t = n) ts)"

definition prepareToolCallArguments :: "'w agent_tool \<Rightarrow> tool_call \<Rightarrow> jerror + tool_call" where
  "prepareToolCallArguments tool c =
     (case tool_prepareArguments tool of
        None \<Rightarrow> Inr c
      | Some prepare \<Rightarrow>
          (case prepare (call_arguments c) of
             Inl e \<Rightarrow> Inl e
           | Inr args \<Rightarrow> if args = call_arguments c then Inr c else Inr (c\<lparr>call_arguments := args\<rparr>)))"

definition prepareToolCall ::
    "'w tool_env \<Rightarrow> 'w tool_config \<Rightarrow> 'w agent_context \<Rightarrow> assistant_message \<Rightarrow> tool_call \<Rightarrow>
     (agent_event, 'w, 'w preparation) act" where
  "prepareToolCall env cfg ctx am c =
     (case find_tool ctx (call_name c) of
        None \<Rightarrow> ret (Immediate
          (createErrorToolResult (js ''Tool '' @ call_name c @ js '' not found'')) True)
      | Some tool \<Rightarrow>
          try_catch
            (case prepareToolCallArguments tool c of
               Inl e \<Rightarrow> throw e
             | Inr pc \<Rightarrow>
                 (case env_validateToolArguments env tool pc of
                    Inl e \<Rightarrow> throw e
                  | Inr args \<Rightarrow>
                      (let prepared =
                         Prepared \<lparr>prep_toolCall = c, prep_tool = tool, prep_args = args\<rparr>
                       in case cfg_beforeToolCall cfg of
                            None \<Rightarrow> ret prepared
                          | Some hook \<Rightarrow>
                              and_then
                                (call (hook \<lparr>btx_assistantMessage = am, btx_toolCall = c,
                                             btx_args = args, btx_context = ctx\<rparr>))
                                (\<lambda>r. case r of
                                   Some b \<Rightarrow>
                                     if btc_block b = Some True then
                                       ret (Immediate (createErrorToolResult
                                         (or_str (btc_reason b) (js ''Tool execution was blocked'')))
                                         True)
                                     else ret prepared
                                 | None \<Rightarrow> ret prepared))))
            (\<lambda>e. ret (Immediate (createErrorToolResult e) True)))"

text \<open>
  The update events of a run are all emitted; a rejected emission is thrown when the run is over,
  from the \<^verbatim>\<open>catch\<close> block's \<^verbatim>\<open>Promise.all\<close>, past the error result.
\<close>

fun emit_all ::
    "('e \<Rightarrow> ('w, unit) callback) \<Rightarrow> 'e list \<Rightarrow> jerror option \<Rightarrow> ('e, 'w, unit) act" where
  "emit_all sink [] None = ret ()"
| "emit_all sink [] (Some e) = throw e"
| "emit_all sink (x # xs) err =
     (\<lambda>s. case emit sink x s of
        (Inl e, s') \<Rightarrow> emit_all sink xs (Some (nullish err e)) s'
      | (Inr _, s') \<Rightarrow> emit_all sink xs err s')"

definition executePreparedToolCall ::
    "'w tool_env \<Rightarrow> 'w prepared_call \<Rightarrow> (agent_event, 'w, executed_outcome) act" where
  "executePreparedToolCall env p =
     (let c = prep_toolCall p in
      and_then
        (call (\<lambda>w. case tool_execute (prep_tool p) (call_id c) (prep_args p) w of
                     (run, w') \<Rightarrow> (Inr run, w')))
        (\<lambda>(updates, outcome).
           and_then
             (emit_all (env_emit env)
                (map (Tool_execution_update (call_id c) (call_name c) (call_arguments c)) updates)
                None)
             (\<lambda>_. case outcome of
                Inr r \<Rightarrow> ret \<lparr>exec_result = r, exec_isError = False\<rparr>
              | Inl e \<Rightarrow> ret \<lparr>exec_result = createErrorToolResult e, exec_isError = True\<rparr>)))"

definition finalizeExecutedToolCall ::
    "'w tool_config \<Rightarrow> 'w agent_context \<Rightarrow> assistant_message \<Rightarrow> 'w prepared_call \<Rightarrow>
     executed_outcome \<Rightarrow> (agent_event, 'w, finalized_outcome) act" where
  "finalizeExecutedToolCall cfg ctx am p x =
     (let done = (\<lambda>r err. \<lparr>fin_toolCall = prep_toolCall p, fin_result = r, fin_isError = err\<rparr>) in
      case cfg_afterToolCall cfg of
        None \<Rightarrow> ret (done (exec_result x) (exec_isError x))
      | Some hook \<Rightarrow>
          try_catch
            (and_then
               (call (hook \<lparr>atx_assistantMessage = am, atx_toolCall = prep_toolCall p,
                            atx_args = prep_args p, atx_result = exec_result x,
                            atx_isError = exec_isError x, atx_context = ctx\<rparr>))
               (\<lambda>r. case r of
                  None \<Rightarrow> ret (done (exec_result x) (exec_isError x))
                | Some a \<Rightarrow>
                    ret (done
                      \<lparr>res_content = nullish (atc_content a) (res_content (exec_result x)),
                       res_details = nullish_opt (atc_details a) (res_details (exec_result x)),
                       res_terminate = nullish_opt (atc_terminate a) (res_terminate (exec_result x))\<rparr>
                      (nullish (atc_isError a) (exec_isError x)))))
            (\<lambda>e. ret (done (createErrorToolResult e) True)))"

definition emitToolExecutionEnd ::
    "'w tool_env \<Rightarrow> finalized_outcome \<Rightarrow> (agent_event, 'w, unit) act" where
  "emitToolExecutionEnd env f =
     emit (env_emit env)
       (Tool_execution_end (call_id (fin_toolCall f)) (call_name (fin_toolCall f))
          (fin_result f) (fin_isError f))"

definition emitToolExecutionStart ::
    "'w tool_env \<Rightarrow> tool_call \<Rightarrow> (agent_event, 'w, unit) act" where
  "emitToolExecutionStart env c =
     emit (env_emit env) (Tool_execution_start (call_id c) (call_name c) (call_arguments c))"

definition createToolResultMessage ::
    "'w tool_env \<Rightarrow> finalized_outcome \<Rightarrow> (agent_event, 'w, tool_result_message) act" where
  "createToolResultMessage env f =
     asks (\<lambda>w. \<lparr>tr_toolCallId = call_id (fin_toolCall f),
                 tr_toolName = call_name (fin_toolCall f),
                 tr_content = res_content (fin_result f),
                 tr_details = res_details (fin_result f),
                 tr_isError = fin_isError f,
                 tr_timestamp = Some (env_now env w)\<rparr>)"

definition tool_result_agent_message :: "tool_result_message \<Rightarrow> agent_message" where
  "tool_result_agent_message m = Llm (ToolResultM m)"

definition emitToolResultMessage ::
    "'w tool_env \<Rightarrow> tool_result_message \<Rightarrow> (agent_event, 'w, unit) act" where
  "emitToolResultMessage env m =
     and_then (emit (env_emit env) (Message_start (tool_result_agent_message m)))
       (\<lambda>_. emit (env_emit env) (Message_end (tool_result_agent_message m)))"

definition shouldTerminateToolBatch :: "finalized_outcome list \<Rightarrow> bool" where
  "shouldTerminateToolBatch fs \<longleftrightarrow>
     length fs > 0 \<and> list_all (\<lambda>f. res_terminate (fin_result f) = Some True) fs"

section \<open>Sequential batches\<close>

definition run_one_call ::
    "'w tool_env \<Rightarrow> 'w tool_config \<Rightarrow> 'w agent_context \<Rightarrow> assistant_message \<Rightarrow> tool_call \<Rightarrow>
     (agent_event, 'w, finalized_outcome \<times> tool_result_message) act" where
  "run_one_call env cfg ctx am c =
     and_then (emitToolExecutionStart env c) (\<lambda>_.
     and_then (prepareToolCall env cfg ctx am c) (\<lambda>prep.
     and_then
       (case prep of
          Immediate r err \<Rightarrow> ret \<lparr>fin_toolCall = c, fin_result = r, fin_isError = err\<rparr>
        | Prepared p \<Rightarrow>
            and_then (executePreparedToolCall env p) (finalizeExecutedToolCall cfg ctx am p))
       (\<lambda>f.
     and_then (emitToolExecutionEnd env f) (\<lambda>_.
     and_then (createToolResultMessage env f) (\<lambda>m.
     and_then (emitToolResultMessage env m) (\<lambda>_.
     ret (f, m)))))))"

definition executeToolCallsSequential ::
    "'w tool_env \<Rightarrow> 'w tool_config \<Rightarrow> 'w agent_context \<Rightarrow> assistant_message \<Rightarrow> tool_call list \<Rightarrow>
     (agent_event, 'w, tool_batch) act" where
  "executeToolCallsSequential env cfg ctx am cs =
     and_then (map_act (run_one_call env cfg ctx am) cs) (\<lambda>done.
     ret \<lparr>batch_messages = map snd done,
          batch_terminate = shouldTerminateToolBatch (map fst done)\<rparr>)"

section \<open>Concurrent batches\<close>

text \<open>
  An entry of \<^verbatim>\<open>finalizedCalls\<close>: settled at once, or a task.
\<close>

datatype 'w task =
    Todo "'w prepared_call"
  | Ran "'w prepared_call" executed_outcome
  | Closing finalized_outcome
  | Settled finalized_outcome

fun task_rank :: "'w task \<Rightarrow> nat" where
  "task_rank (Todo p) = 3"
| "task_rank (Ran p x) = 2"
| "task_rank (Closing f) = 1"
| "task_rank (Settled f) = 0"

fun task_call :: "'w task \<Rightarrow> tool_call" where
  "task_call (Todo p) = prep_toolCall p"
| "task_call (Ran p x) = prep_toolCall p"
| "task_call (Closing f) = fin_toolCall f"
| "task_call (Settled f) = fin_toolCall f"

fun task_step ::
    "'w tool_env \<Rightarrow> 'w tool_config \<Rightarrow> 'w agent_context \<Rightarrow> assistant_message \<Rightarrow> 'w task \<Rightarrow>
     (agent_event, 'w, 'w task) act" where
  "task_step env cfg ctx am (Todo p) =
     and_then (executePreparedToolCall env p) (\<lambda>x. ret (Ran p x))"
| "task_step env cfg ctx am (Ran p x) =
     and_then (finalizeExecutedToolCall cfg ctx am p x) (\<lambda>f. ret (Closing f))"
| "task_step env cfg ctx am (Closing f) =
     and_then (emitToolExecutionEnd env f) (\<lambda>_. ret (Settled f))"
| "task_step env cfg ctx am (Settled f) = ret (Settled f)"

text \<open>The first pass of the code: start, prepare, and end the calls that do not run.\<close>

definition start_call ::
    "'w tool_env \<Rightarrow> 'w tool_config \<Rightarrow> 'w agent_context \<Rightarrow> assistant_message \<Rightarrow> tool_call \<Rightarrow>
     (agent_event, 'w, 'w task) act" where
  "start_call env cfg ctx am c =
     and_then (emitToolExecutionStart env c) (\<lambda>_.
     and_then (prepareToolCall env cfg ctx am c) (\<lambda>prep.
     case prep of
       Immediate r err \<Rightarrow>
         (let f = \<lparr>fin_toolCall = c, fin_result = r, fin_isError = err\<rparr> in
          and_then (emitToolExecutionEnd env f) (\<lambda>_. ret (Settled f)))
     | Prepared p \<Rightarrow> ret (Todo p)))"

definition unsettled :: "'w task list \<Rightarrow> nat list" where
  "unsettled ts = filter (\<lambda>i. task_rank (ts ! i) > 0) [0..<length ts]"

definition scheduled :: "'w tool_env \<Rightarrow> 'w task list \<Rightarrow> 'w \<Rightarrow> nat" where
  "scheduled env ts w = unsettled ts ! (env_schedule env w (unsettled ts) mod length (unsettled ts))"

lemma scheduled_unsettled:
  "unsettled ts \<noteq> [] \<Longrightarrow> scheduled env ts w < length ts \<and> 0 < task_rank (ts ! scheduled env ts w)"
proof -
  assume "unsettled ts \<noteq> []"
  then have "scheduled env ts w \<in> set (unsettled ts)"
    unfolding scheduled_def by (intro nth_mem mod_less_divisor) simp
  then show ?thesis by (simp add: unsettled_def)
qed

lemma task_step_rank:
  "task_step env cfg ctx am t s = (Inr t', s') \<Longrightarrow> 0 < task_rank t \<Longrightarrow> task_rank t' < task_rank t"
  by (cases t) (auto simp: and_then_def ret_def split: prod.splits sum.splits)

lemma rank_update_less:
  "i < length ts \<Longrightarrow> task_rank t < task_rank (ts ! i) \<Longrightarrow>
   sum_list (map task_rank (ts[i := t])) < sum_list (map task_rank ts)"
proof (induction ts arbitrary: i)
  case Nil
  then show ?case by simp
next
  case (Cons u ts)
  then show ?case by (cases i) auto
qed

text \<open>
  \<^verbatim>\<open>Promise.all\<close> over the entries. It rejects as soon as a task throws; what the tasks
  still running do after that is not followed.
\<close>

function run_tasks ::
    "'w tool_env \<Rightarrow> 'w tool_config \<Rightarrow> 'w agent_context \<Rightarrow> assistant_message \<Rightarrow> 'w task list \<Rightarrow>
     (agent_event, 'w) rt \<Rightarrow> (jerror + 'w task list) \<times> (agent_event, 'w) rt" where
  "run_tasks env cfg ctx am ts s =
     (if unsettled ts = [] then (Inr ts, s)
      else let i = scheduled env ts (world s) in
        (case task_step env cfg ctx am (ts ! i) s of
           (Inl e, s') \<Rightarrow> (Inl e, s')
         | (Inr t, s') \<Rightarrow> run_tasks env cfg ctx am (ts[i := t]) s'))"
  by pat_completeness auto
termination
  by (relation "measure (\<lambda>(env, cfg, ctx, am, ts, s). sum_list (map task_rank ts))")
    (auto simp: scheduled_unsettled intro!: rank_update_less task_step_rank [OF sym])

declare run_tasks.simps [simp del]

fun task_outcome :: "'w task \<Rightarrow> finalized_outcome list" where
  "task_outcome (Settled f) = [f]"
| "task_outcome _ = []"

definition executeToolCallsParallel ::
    "'w tool_env \<Rightarrow> 'w tool_config \<Rightarrow> 'w agent_context \<Rightarrow> assistant_message \<Rightarrow> tool_call list \<Rightarrow>
     (agent_event, 'w, tool_batch) act" where
  "executeToolCallsParallel env cfg ctx am cs =
     and_then (map_act (start_call env cfg ctx am) cs) (\<lambda>ts.
     and_then (run_tasks env cfg ctx am ts) (\<lambda>ts'.
     let fs = concat (map task_outcome ts') in
     and_then
       (map_act (\<lambda>f.
          and_then (createToolResultMessage env f) (\<lambda>m.
          and_then (emitToolResultMessage env m) (\<lambda>_. ret m))) fs) (\<lambda>ms.
     ret \<lparr>batch_messages = ms, batch_terminate = shouldTerminateToolBatch fs\<rparr>)))"

section \<open>The batch of an assistant message\<close>

definition has_sequential_call :: "'w agent_context \<Rightarrow> tool_call list \<Rightarrow> bool" where
  "has_sequential_call ctx cs \<longleftrightarrow>
     list_ex (\<lambda>c. case find_tool ctx (call_name c) of
        None \<Rightarrow> False | Some t \<Rightarrow> tool_executionMode t = Some Mode_sequential) cs"

definition executeToolCalls ::
    "'w tool_env \<Rightarrow> 'w tool_config \<Rightarrow> 'w agent_context \<Rightarrow> assistant_message \<Rightarrow>
     (agent_event, 'w, tool_batch) act" where
  "executeToolCalls env cfg ctx am =
     (let cs = tool_calls_of (am_content am) in
      if cfg_toolExecution cfg = Some Mode_sequential \<or> has_sequential_call ctx cs
      then executeToolCallsSequential env cfg ctx am cs
      else executeToolCallsParallel env cfg ctx am cs)"

section \<open>The protocol of tool execution\<close>

abbreviation in_turn :: "jstr multiset \<Rightarrow> jstr list \<Rightarrow> agent_message list \<Rightarrow> protocol" where
  "in_turn M S L \<equiv> \<lparr>pr_life = InTurn, pr_open = M, pr_started = S, pr_log = L\<rparr>"

lemma prepareToolCall_silent: "silent (prepareToolCall env cfg ctx am c)"
  unfolding prepareToolCall_def silent_def
  by (auto simp: try_catch_def ret_def throw_def and_then_def call_def Let_def
      split: option.splits sum.splits prod.splits)

lemma phased_prepareToolCall:
  "phased \<delta> p (prepareToolCall env cfg ctx am c)
     (\<lambda>prep q. q = p \<and> (case prep of Prepared x \<Rightarrow> prep_toolCall x = c | Immediate r e \<Rightarrow> True))"
proof (rule phasedI)
  fix s e s' assume "prepareToolCall env cfg ctx am c s = (Inl e, s')"
  from silentD [OF prepareToolCall_silent this]
  show "\<exists>ts q. emitted s' = emitted s @ ts \<and> accepts \<delta> p ts = Some q"
    by (intro exI [of _ "[]"]) simp
next
  fix s a s' assume run: "prepareToolCall env cfg ctx am c s = (Inr a, s')"
  then have "case a of Prepared x \<Rightarrow> prep_toolCall x = c | Immediate r e \<Rightarrow> True"
    unfolding prepareToolCall_def
    by (auto simp: try_catch_def ret_def throw_def and_then_def call_def Let_def
        split: option.splits sum.splits prod.splits if_splits)
  with silentD [OF prepareToolCall_silent run]
  show "\<exists>ts q. emitted s' = emitted s @ ts \<and> accepts \<delta> p ts = Some q \<and> q = p
      \<and> (case a of Prepared x \<Rightarrow> prep_toolCall x = c | Immediate r e \<Rightarrow> True)"
    by (intro exI [of _ "[]"]) simp
qed

lemma emitted_emit_all: "emitted (snd (emit_all sink xs err s)) = emitted s @ xs"
proof (induction xs arbitrary: err s)
  case Nil
  show ?case by (cases err) (simp_all add: ret_def throw_def)
next
  case (Cons x xs)
  then show ?case by (auto simp: emit_def split: prod.splits sum.splits)
qed

lemma accepts_stay: "\<forall>x\<in>set xs. \<delta> p x = Some p \<Longrightarrow> accepts \<delta> p xs = Some p"
  by (induction xs) auto

lemma phased_emit_all:
  assumes "\<forall>x\<in>set xs. \<delta> p x = Some p"
  shows "phased \<delta> p (emit_all sink xs err) (\<lambda>_ q. q = p)"
  using accepts_stay [of xs \<delta> p] assms emitted_emit_all [of sink xs err]
  by (intro phasedI) (metis snd_conv)+

lemma phased_executePreparedToolCall:
  assumes "call_id (prep_toolCall x) \<in># M"
  shows "phased protocol_step (in_turn M S L) (executePreparedToolCall env x) (\<lambda>_ q. q = in_turn M S L)"
  unfolding executePreparedToolCall_def Let_def
proof (rule phased_and_then [where Q = "\<lambda>_ q. q = in_turn M S L"])
  show "phased protocol_step (in_turn M S L)
      (call (\<lambda>w. case tool_execute (prep_tool x) (call_id (prep_toolCall x)) (prep_args x) w of
         (run, w') \<Rightarrow> (Inr run, w'))) (\<lambda>_ q. q = in_turn M S L)"
    by (rule phased_call) simp
qed (auto intro!: phased_and_then [OF phased_emit_all] phased_ret simp: assms split: sum.splits)

lemma finalize_silent: "silent (finalizeExecutedToolCall cfg ctx am x e)"
  unfolding finalizeExecutedToolCall_def silent_def
  by (auto simp: try_catch_def ret_def and_then_def call_def Let_def
      split: option.splits sum.splits prod.splits)

lemma phased_finalize:
  "phased \<delta> p (finalizeExecutedToolCall cfg ctx am x e)
     (\<lambda>f q. q = p \<and> fin_toolCall f = prep_toolCall x)"
proof (rule phasedI)
  fix s err s' assume "finalizeExecutedToolCall cfg ctx am x e s = (Inl err, s')"
  from silentD [OF finalize_silent this]
  show "\<exists>ts q. emitted s' = emitted s @ ts \<and> accepts \<delta> p ts = Some q"
    by (intro exI [of _ "[]"]) simp
next
  fix s f s' assume run: "finalizeExecutedToolCall cfg ctx am x e s = (Inr f, s')"
  then have "fin_toolCall f = prep_toolCall x"
    unfolding finalizeExecutedToolCall_def
    by (auto simp: try_catch_def ret_def and_then_def call_def Let_def
        split: option.splits sum.splits prod.splits)
  with silentD [OF finalize_silent run]
  show "\<exists>ts q. emitted s' = emitted s @ ts \<and> accepts \<delta> p ts = Some q \<and> q = p
      \<and> fin_toolCall f = prep_toolCall x"
    by (intro exI [of _ "[]"]) simp
qed

lemma phased_start:
  "phased protocol_step (in_turn M S L) (emitToolExecutionStart env c)
     (\<lambda>_ q. q = in_turn (add_mset (call_id c) M) (S @ [call_id c]) L)"
  unfolding emitToolExecutionStart_def by (rule phased_emit) simp_all

lemma phased_end:
  "phased protocol_step (in_turn (add_mset (call_id (fin_toolCall f)) M) S L)
     (emitToolExecutionEnd env f) (\<lambda>_ q. q = in_turn M S L)"
  unfolding emitToolExecutionEnd_def by (rule phased_emit) simp_all

lemma phased_createToolResultMessage:
  "phased \<delta> p (createToolResultMessage env f)
     (\<lambda>m q. q = p \<and> tr_toolCallId m = call_id (fin_toolCall f)
            \<and> tr_toolName m = call_name (fin_toolCall f)
            \<and> tr_content m = res_content (fin_result f) \<and> tr_isError m = fin_isError f)"
  unfolding createToolResultMessage_def by (rule phased_asks) simp

lemma phased_emitToolResultMessage:
  "phased protocol_step (in_turn M S L) (emitToolResultMessage env m)
     (\<lambda>_ q. q = in_turn M S (L @ [tool_result_agent_message m]))"
  unfolding emitToolResultMessage_def
  by (rule phased_and_then [OF phased_emit [where q = "\<lparr>pr_life = InMessage, pr_open = M, pr_started = S, pr_log = L\<rparr>"
        and Q = "\<lambda>_ q. q = \<lparr>pr_life = InMessage, pr_open = M, pr_started = S, pr_log = L\<rparr>"]])
    (auto intro!: phased_emit)

text \<open>What the message of a finalized call says.\<close>

definition result_of_call :: "tool_call \<Rightarrow> tool_result_message \<Rightarrow> bool" where
  "result_of_call c m \<longleftrightarrow> tr_toolCallId m = call_id c \<and> tr_toolName m = call_name c"

lemma phased_run_one_call:
  fixes env :: "'w tool_env"
  shows "phased protocol_step (in_turn M S L) (run_one_call env cfg ctx am c)
     (\<lambda>(f, m) q. q = in_turn M (S @ [call_id c]) (L @ [tool_result_agent_message m]) \<and> result_of_call c m)"
  unfolding run_one_call_def
proof (rule phased_and_then [OF phased_start], rule phased_and_then [OF phased_prepareToolCall],
    rule phased_and_then [where Q = "\<lambda>f q. q = in_turn (add_mset (call_id c) M) (S @ [call_id c]) L \<and> fin_toolCall f = c"])
  fix u q q' and prep :: "'w preparation"
  assume q: "q = in_turn (add_mset (call_id c) M) (S @ [call_id c]) L"
    and q': "q' = q \<and> (case prep of Prepared x \<Rightarrow> prep_toolCall x = c | Immediate r e \<Rightarrow> True)"
  show "phased protocol_step q'
      (case prep of
         Immediate r err \<Rightarrow> ret \<lparr>fin_toolCall = c, fin_result = r, fin_isError = err\<rparr>
       | Prepared x \<Rightarrow> and_then (executePreparedToolCall env x) (finalizeExecutedToolCall cfg ctx am x))
      (\<lambda>f q. q = in_turn (add_mset (call_id c) M) (S @ [call_id c]) L \<and> fin_toolCall f = c)"
  proof (cases prep)
    case (Immediate r err)
    with q q' show ?thesis by (auto intro: phased_ret)
  next
    case (Prepared x)
    with q q' have "phased protocol_step q' (executePreparedToolCall env x) (\<lambda>_ r. r = q')"
      by (auto intro: phased_executePreparedToolCall)
    then have "phased protocol_step q'
        (and_then (executePreparedToolCall env x) (finalizeExecutedToolCall cfg ctx am x))
        (\<lambda>f r. r = q' \<and> fin_toolCall f = prep_toolCall x)"
      by (rule phased_and_then) (auto intro: phased_finalize)
    with Prepared q q' show ?thesis by simp
  qed
next
  fix f :: finalized_outcome and q assume "q = in_turn (add_mset (call_id c) M) (S @ [call_id c]) L \<and> fin_toolCall f = c"
  then have "phased protocol_step q (emitToolExecutionEnd env f) (\<lambda>_ q. q = in_turn M (S @ [call_id c]) L)"
    and c: "fin_toolCall f = c" using phased_end by auto
  from this(1) show "phased protocol_step q
      (and_then (emitToolExecutionEnd env f) (\<lambda>_. and_then (createToolResultMessage env f)
         (\<lambda>m. and_then (emitToolResultMessage env m) (\<lambda>_. ret (f, m)))))
      (\<lambda>(f, m) q. q = in_turn M (S @ [call_id c]) (L @ [tool_result_agent_message m]) \<and> result_of_call c m)"
    by (rule phased_and_then, intro phased_and_then [OF phased_createToolResultMessage])
      (auto intro!: phased_and_then [OF phased_emitToolResultMessage] phased_ret
        simp: c result_of_call_def)
qed

lemma phased_executeToolCallsSequential:
  "phased protocol_step (in_turn M S L) (executeToolCallsSequential env cfg ctx am cs)
     (\<lambda>b q. q = in_turn M (S @ map call_id cs) (L @ map tool_result_agent_message (batch_messages b))
            \<and> list_all2 result_of_call cs (batch_messages b))"
  unfolding executeToolCallsSequential_def
proof (rule phased_and_then)
  let ?I = "\<lambda>ds as q. q = in_turn M (S @ map call_id ds) (L @ map tool_result_agent_message (map snd as))
       \<and> list_all2 result_of_call ds (map snd as)"
  show "phased protocol_step (in_turn M S L) (map_act (run_one_call env cfg ctx am) cs) (?I cs)"
    by (rule phased_map_act [where I = ?I])
      (auto intro!: phased_mono [OF phased_run_one_call] list_all2_appendI)
qed (auto intro: phased_ret)

section \<open>The protocol of concurrent execution\<close>

definition open_ids :: "'w task \<Rightarrow> jstr multiset" where
  "open_ids t = (if 0 < task_rank t then {#call_id (task_call t)#} else {#})"

lemma phased_task_step:
  "phased protocol_step (in_turn (M + open_ids t) S L) (task_step env cfg ctx am t)
     (\<lambda>t' q. q = in_turn (M + open_ids t') S L \<and> task_call t' = task_call t)"
proof (cases t)
  case (Todo x)
  then show ?thesis
    by (auto intro!: phased_and_then [OF phased_executePreparedToolCall] phased_ret simp: open_ids_def)
next
  case (Ran x e)
  then show ?thesis
    by (auto intro!: phased_and_then [OF phased_finalize] phased_ret simp: open_ids_def)
next
  case (Closing f)
  then show ?thesis
    by (auto intro!: phased_and_then [OF phased_end] phased_ret simp: open_ids_def)
next
  case (Settled f)
  then show ?thesis by (auto intro!: phased_ret simp: open_ids_def)
qed

lemma open_ids_split:
  assumes "i < length ts"
  obtains R where "sum_list (map open_ids ts) = R + open_ids (ts ! i)"
    and "\<And>t. sum_list (map open_ids (ts[i := t])) = R + open_ids t"
proof
  let ?R = "sum_list (map open_ids (take i ts)) + sum_list (map open_ids (drop (Suc i) ts))"
  have update: "sum_list (map open_ids (ts[i := t])) = ?R + open_ids t" for t
    using assms by (simp add: upd_conv_take_nth_drop ac_simps)
  then show "\<And>t. sum_list (map open_ids (ts[i := t])) = ?R + open_ids t" .
  from update [of "ts ! i"] show "sum_list (map open_ids ts) = ?R + open_ids (ts ! i)" by simp
qed

lemma unsettled_open: "unsettled ts = [] \<Longrightarrow> sum_list (map open_ids ts) = {#}"
proof -
  assume "unsettled ts = []"
  then have "\<forall>i<length ts. open_ids (ts ! i) = {#}"
    by (auto simp: unsettled_def filter_empty_conv open_ids_def)
  then have "\<forall>t\<in>set ts. open_ids t = {#}" by (auto simp: in_set_conv_nth)
  then show ?thesis by (induction ts) auto
qed

lemma map_task_call_update:
  "i < length ts \<Longrightarrow> task_call t = task_call (ts ! i) \<Longrightarrow> map task_call (ts[i := t]) = map task_call ts"
  by (simp add: map_update list_update_same_conv)

lemma run_tasks_protocol:
  "\<exists>evs. emitted (snd (run_tasks env cfg ctx am ts s)) = emitted s @ evs \<and>
     (case fst (run_tasks env cfg ctx am ts s) of
        Inl _ \<Rightarrow> accepts protocol_step (in_turn (M + sum_list (map open_ids ts)) S L) evs \<noteq> None
      | Inr ts' \<Rightarrow> accepts protocol_step (in_turn (M + sum_list (map open_ids ts)) S L) evs
                     = Some (in_turn M S L)
                 \<and> map task_call ts' = map task_call ts \<and> unsettled ts' = [])"
proof (induction env cfg ctx am ts s rule: run_tasks.induct)
  case (1 env cfg ctx am ts s)
  show ?case
  proof (cases "unsettled ts = []")
    case True
    with unsettled_open [OF True] show ?thesis
      by (subst (1 2) run_tasks.simps) simp
  next
    case False
    define i where "i = scheduled env ts (world s)"
    from scheduled_unsettled [OF False, of env "world s"] have i: "i < length ts"
      by (simp add: i_def)
    obtain R where R: "sum_list (map open_ids ts) = R + open_ids (ts ! i)"
      "\<And>t. sum_list (map open_ids (ts[i := t])) = R + open_ids t"
      by (rule open_ids_split [OF i]) blast
    let ?N = "M + R"
    have start: "in_turn (M + sum_list (map open_ids ts)) S L = in_turn (?N + open_ids (ts ! i)) S L"
      by (simp add: R(1) union_assoc)
    have step: "phased protocol_step (in_turn (M + sum_list (map open_ids ts)) S L)
        (task_step env cfg ctx am (ts ! i))
        (\<lambda>t' q. q = in_turn (?N + open_ids t') S L \<and> task_call t' = task_call (ts ! i))"
      unfolding start by (rule phased_task_step)
    obtain r s1 where run: "task_step env cfg ctx am (ts ! i) s = (r, s1)" by fastforce
    show ?thesis
    proof (cases r)
      case (Inl e)
      with False run phased_errD [OF step run [unfolded Inl]] show ?thesis
        by (subst (1 2) run_tasks.simps) (auto simp: Let_def i_def)
    next
      case (Inr t)
      from phased_okD [OF step run [unfolded Inr]] obtain us where
        us: "emitted s1 = emitted s @ us"
          "accepts protocol_step (in_turn (M + sum_list (map open_ids ts)) S L) us
             = Some (in_turn (?N + open_ids t) S L)" "task_call t = task_call (ts ! i)" by auto
      have sum: "?N + open_ids t = M + sum_list (map open_ids (ts[i := t]))"
        by (simp add: R(2) union_assoc)
      have unfold: "run_tasks env cfg ctx am ts s = run_tasks env cfg ctx am (ts[i := t]) s1"
        using False run Inr by (subst run_tasks.simps) (simp add: Let_def i_def)
      note IH = "1.IH"
      from IH [OF False i_def run [symmetric] Inr]
      obtain vs where vs: "emitted (snd (run_tasks env cfg ctx am (ts[i := t]) s1)) = emitted s1 @ vs"
        "case fst (run_tasks env cfg ctx am (ts[i := t]) s1) of
           Inl _ \<Rightarrow> accepts protocol_step (in_turn (M + sum_list (map open_ids (ts[i := t]))) S L) vs \<noteq> None
         | Inr ts' \<Rightarrow> accepts protocol_step (in_turn (M + sum_list (map open_ids (ts[i := t]))) S L) vs
                     = Some (in_turn M S L)
                 \<and> map task_call ts' = map task_call (ts[i := t]) \<and> unsettled ts' = []"
        by auto
      show ?thesis
        unfolding unfold
        by (rule exI [of _ "us @ vs"])
          (use us vs sum map_task_call_update [OF i us(3)] in
            \<open>auto simp: accepts_append split: sum.splits\<close>)
    qed
  qed
qed

lemma phased_run_tasks:
  "phased protocol_step (in_turn (M + sum_list (map open_ids ts)) S L) (run_tasks env cfg ctx am ts)
     (\<lambda>ts' q. q = in_turn M S L \<and> map task_call ts' = map task_call ts \<and> unsettled ts' = [])"
proof (rule phasedI)
  fix s e s' assume "run_tasks env cfg ctx am ts s = (Inl e, s')"
  with run_tasks_protocol [of env cfg ctx am ts s M S L]
  show "\<exists>evs q. emitted s' = emitted s @ evs
      \<and> accepts protocol_step (in_turn (M + sum_list (map open_ids ts)) S L) evs = Some q" by auto
next
  fix s ts' s' assume "run_tasks env cfg ctx am ts s = (Inr ts', s')"
  with run_tasks_protocol [of env cfg ctx am ts s M S L]
  show "\<exists>evs q. emitted s' = emitted s @ evs
      \<and> accepts protocol_step (in_turn (M + sum_list (map open_ids ts)) S L) evs = Some q
      \<and> q = in_turn M S L \<and> map task_call ts' = map task_call ts \<and> unsettled ts' = []" by auto
qed

lemma phased_start_call:
  fixes env :: "'w tool_env"
  shows "phased protocol_step (in_turn M S L) (start_call env cfg ctx am c)
     (\<lambda>t q. q = in_turn (M + open_ids t) (S @ [call_id c]) L \<and> task_call t = c)"
  unfolding start_call_def
proof (rule phased_and_then [OF phased_start], rule phased_and_then [OF phased_prepareToolCall])
  fix u q q' and prep :: "'w preparation"
  assume q: "q = in_turn (add_mset (call_id c) M) (S @ [call_id c]) L"
    and q': "q' = q \<and> (case prep of Prepared x \<Rightarrow> prep_toolCall x = c | Immediate r e \<Rightarrow> True)"
  show "phased protocol_step q'
      (case prep of
         Immediate r err \<Rightarrow>
           (let f = \<lparr>fin_toolCall = c, fin_result = r, fin_isError = err\<rparr> in
            and_then (emitToolExecutionEnd env f) (\<lambda>_. ret (Settled f)))
       | Prepared p \<Rightarrow> ret (Todo p))
      (\<lambda>t q. q = in_turn (M + open_ids t) (S @ [call_id c]) L \<and> task_call t = c)"
  proof (cases prep)
    case (Immediate r err)
    let ?f = "\<lparr>fin_toolCall = c, fin_result = r, fin_isError = err\<rparr>"
    from q q' phased_end [of ?f M "S @ [call_id c]" L env]
    have "phased protocol_step q' (emitToolExecutionEnd env ?f) (\<lambda>_ q. q = in_turn M (S @ [call_id c]) L)" by simp
    then show ?thesis
      unfolding Immediate Let_def preparation.case
      by (rule phased_and_then) (auto intro!: phased_ret simp: open_ids_def)
  next
    case (Prepared x)
    with q q' show ?thesis by (auto intro!: phased_ret simp: open_ids_def)
  qed
qed

lemma all_settled:
  "unsettled ts = [] \<Longrightarrow> map fin_toolCall (concat (map task_outcome ts)) = map task_call ts"
proof -
  assume "unsettled ts = []"
  then have "\<forall>t\<in>set ts. task_rank t = 0"
    by (auto simp: unsettled_def filter_empty_conv in_set_conv_nth)
  then show ?thesis
  proof (induction ts)
    case Nil
    show ?case by simp
  next
    case (Cons t ts)
    then show ?case by (cases t) auto
  qed
qed

lemma phased_result_messages:
  fixes env :: "'w tool_env"
  shows "phased protocol_step (in_turn M S L)
     (map_act (\<lambda>f. and_then (createToolResultMessage env f) (\<lambda>m.
          and_then (emitToolResultMessage env m) (\<lambda>_. ret m))) fs)
     (\<lambda>ms q. q = in_turn M S (L @ map tool_result_agent_message ms)
           \<and> list_all2 result_of_call (map fin_toolCall fs) ms)"
proof (rule phased_map_act [where I = "\<lambda>ds ms q. q = in_turn M S (L @ map tool_result_agent_message ms)
           \<and> list_all2 result_of_call (map fin_toolCall ds) ms"])
  fix ds es :: "finalized_outcome list" and ms q and f :: finalized_outcome
  assume I: "q = in_turn M S (L @ map tool_result_agent_message ms)
      \<and> list_all2 result_of_call (map fin_toolCall ds) ms"
  show "phased protocol_step q
      (and_then (createToolResultMessage env f) (\<lambda>m. and_then (emitToolResultMessage env m) (\<lambda>_. ret m)))
      (\<lambda>m q. q = in_turn M S (L @ map tool_result_agent_message (ms @ [m]))
           \<and> list_all2 result_of_call (map fin_toolCall (ds @ [f])) (ms @ [m]))"
    by (rule phased_and_then [OF phased_createToolResultMessage])
      (use I in \<open>auto intro!: phased_and_then [OF phased_emitToolResultMessage] phased_ret list_all2_appendI
        simp: result_of_call_def\<close>)
qed simp_all

lemma phased_executeToolCallsParallel:
  fixes env :: "'w tool_env"
  shows "phased protocol_step (in_turn M S L) (executeToolCallsParallel env cfg ctx am cs)
     (\<lambda>b q. q = in_turn M (S @ map call_id cs) (L @ map tool_result_agent_message (batch_messages b))
            \<and> list_all2 result_of_call cs (batch_messages b))"
  unfolding executeToolCallsParallel_def
proof (rule phased_and_then)
  let ?I = "\<lambda>ds ts q. q = in_turn (M + sum_list (map open_ids ts)) (S @ map call_id ds) L \<and> map task_call ts = ds"
  show "phased protocol_step (in_turn M S L) (map_act (start_call env cfg ctx am) cs) (?I cs)"
    by (rule phased_map_act [where I = ?I])
      (auto intro!: phased_mono [OF phased_start_call] simp: union_assoc)
next
  fix ts :: "'w task list" and q
  assume q: "q = in_turn (M + sum_list (map open_ids ts)) (S @ map call_id cs) L \<and> map task_call ts = cs"
  show "phased protocol_step q (and_then (run_tasks env cfg ctx am ts)
      (\<lambda>ts'. let fs = concat (map task_outcome ts') in
        and_then (map_act (\<lambda>f. and_then (createToolResultMessage env f) (\<lambda>m.
            and_then (emitToolResultMessage env m) (\<lambda>_. ret m))) fs)
          (\<lambda>ms. ret \<lparr>batch_messages = ms, batch_terminate = shouldTerminateToolBatch fs\<rparr>)))
     (\<lambda>b q. q = in_turn M (S @ map call_id cs) (L @ map tool_result_agent_message (batch_messages b))
            \<and> list_all2 result_of_call cs (batch_messages b))"
    unfolding q [THEN conjunct1] Let_def
    by (rule phased_and_then [OF phased_run_tasks])
      (use q in \<open>auto intro!: phased_and_then [OF phased_result_messages] phased_ret simp: all_settled\<close>)
qed

text \<open>
  Both modes: within a turn, the batch of an assistant message leaves no execution open, ends one
  message per call in the order of the calls, and returns those messages.
\<close>

lemma phased_executeToolCalls:
  "phased protocol_step (in_turn M S L) (executeToolCalls env cfg ctx am)
     (\<lambda>b q. q = in_turn M (S @ map call_id (tool_calls_of (am_content am))) (L @ map tool_result_agent_message (batch_messages b))
            \<and> list_all2 result_of_call (tool_calls_of (am_content am)) (batch_messages b))"
proof (cases "cfg_toolExecution cfg = Some Mode_sequential
    \<or> has_sequential_call ctx (tool_calls_of (am_content am))")
  case True
  then show ?thesis
    unfolding executeToolCalls_def Let_def if_P [OF True]
    by (intro phased_executeToolCallsSequential)
next
  case False
  then show ?thesis
    unfolding executeToolCalls_def Let_def if_not_P [OF False]
    by (intro phased_executeToolCallsParallel)
qed

section \<open>Failures stay inside the batch\<close>

text \<open>
  \<open>sure m\<close>: the action returns, whatever the state. Tools and hooks may throw; only the event
  sink can make a batch throw.
\<close>

definition sure :: "('e, 'w, 'a) act \<Rightarrow> bool" where
  "sure m \<longleftrightarrow> (\<forall>s. \<exists>a s'. m s = (Inr a, s'))"

definition reliable_sink :: "('e \<Rightarrow> ('w, unit) callback) \<Rightarrow> bool" where
  "reliable_sink sink \<longleftrightarrow> (\<forall>e w. fst (sink e w) = Inr ())"

lemma sureD: "sure m \<Longrightarrow> \<exists>a s'. m s = (Inr a, s')"
  by (simp add: sure_def)

lemma sure_ret: "sure (ret a)"
  by (simp add: sure_def ret_def)

lemma sure_asks: "sure (asks f)"
  by (simp add: sure_def asks_def)

lemma sure_and_then: "sure m \<Longrightarrow> (\<And>a. sure (f a)) \<Longrightarrow> sure (and_then m f)"
  unfolding sure_def and_then_def by (metis (mono_tags, lifting) case_prod_conv sum.simps(6))

lemma sure_try_catch: "(\<And>e. sure (h e)) \<Longrightarrow> sure (try_catch m h)"
  unfolding sure_def try_catch_def by (auto split: prod.splits sum.splits)

lemma sure_emit: "reliable_sink sink \<Longrightarrow> sure (emit sink e)"
  unfolding sure_def emit_def reliable_sink_def
  by (auto split: prod.splits) (metis fst_conv)

lemma sure_map_act: "(\<And>x. sure (f x)) \<Longrightarrow> sure (map_act f xs)"
  by (induction xs) (auto intro: sure_ret sure_and_then)

lemma sure_emit_all:
  assumes "reliable_sink sink"
  shows "sure (emit_all sink xs None)"
proof (induction xs)
  case Nil
  show ?case by (simp add: sure_ret)
next
  case (Cons x xs)
  show ?case
    unfolding sure_def
  proof
    fix s
    from sureD [OF sure_emit [OF assms], of x s] obtain a s1 where "emit sink x s = (Inr a, s1)"
      by blast
    with sureD [OF Cons.IH, of s1] show "\<exists>a s'. emit_all sink (x # xs) None s = (Inr a, s')"
      by simp
  qed
qed

lemmas sure_intros =
  sure_ret sure_asks sure_and_then sure_try_catch sure_emit sure_map_act sure_emit_all

lemma sure_prepareToolCall: "sure (prepareToolCall env cfg ctx am c)"
  unfolding prepareToolCall_def by (auto intro!: sure_intros split: option.splits)

lemma sure_call: "(\<And>w. \<exists>a w'. f w = (Inr a, w')) \<Longrightarrow> sure (call f)"
  unfolding sure_def call_def by (metis (mono_tags, lifting) case_prod_conv)

lemma sure_executePreparedToolCall:
  "reliable_sink (env_emit env) \<Longrightarrow> sure (executePreparedToolCall env p)"
  unfolding executePreparedToolCall_def Let_def
  by (intro sure_and_then sure_call)
    (auto intro!: sure_and_then sure_emit_all sure_ret split: prod.splits sum.splits)

lemma sure_finalize: "sure (finalizeExecutedToolCall cfg ctx am p x)"
  unfolding finalizeExecutedToolCall_def Let_def
  by (auto intro!: sure_intros split: option.splits)

lemma sure_end: "reliable_sink (env_emit env) \<Longrightarrow> sure (emitToolExecutionEnd env f)"
  unfolding emitToolExecutionEnd_def by (rule sure_emit)

lemma sure_result_message:
  "reliable_sink (env_emit env) \<Longrightarrow> sure (emitToolResultMessage env m)"
  unfolding emitToolResultMessage_def by (auto intro!: sure_intros)

lemma sure_createToolResultMessage: "sure (createToolResultMessage env f)"
  unfolding createToolResultMessage_def by (rule sure_asks)

lemma sure_start: "reliable_sink (env_emit env) \<Longrightarrow> sure (emitToolExecutionStart env c)"
  unfolding emitToolExecutionStart_def by (rule sure_emit)

lemmas sure_call_parts = sure_prepareToolCall sure_executePreparedToolCall sure_finalize sure_end
  sure_result_message sure_createToolResultMessage sure_start

lemma sure_run_one_call:
  "reliable_sink (env_emit env) \<Longrightarrow> sure (run_one_call env cfg ctx am c)"
  unfolding run_one_call_def
  by (intro sure_and_then sure_call_parts sure_ret)
    (auto intro!: sure_and_then sure_call_parts sure_ret split: preparation.splits)

lemma sure_start_call:
  "reliable_sink (env_emit env) \<Longrightarrow> sure (start_call env cfg ctx am c)"
  unfolding start_call_def Let_def
  by (intro sure_and_then sure_call_parts)
    (auto intro!: sure_and_then sure_call_parts sure_ret split: preparation.splits)

lemma sure_task_step:
  "reliable_sink (env_emit env) \<Longrightarrow> sure (task_step env cfg ctx am t)"
  by (cases t) (auto intro!: sure_and_then sure_call_parts sure_ret)

lemma run_tasks_returns:
  "reliable_sink (env_emit env) \<Longrightarrow> \<exists>ts' s'. run_tasks env cfg ctx am ts s = (Inr ts', s')"
proof (induction env cfg ctx am ts s rule: run_tasks.induct)
  case (1 env cfg ctx am ts s)
  show ?case
  proof (cases "unsettled ts = []")
    case True
    then show ?thesis by (subst run_tasks.simps) simp
  next
    case False
    define i where "i = scheduled env ts (world s)"
    from sureD [OF sure_task_step [OF "1.prems"]] obtain t s1 where
      run: "task_step env cfg ctx am (ts ! i) s = (Inr t, s1)" by blast
    from "1.IH" [OF False i_def run [symmetric] refl "1.prems"] run False show ?thesis
      by (subst run_tasks.simps) (simp add: Let_def i_def)
  qed
qed

lemma sure_executeToolCalls:
  fixes env :: "'w tool_env"
  assumes "reliable_sink (env_emit env)"
  shows "sure (executeToolCalls env cfg ctx am)"
proof -
  have "sure (run_tasks env cfg ctx am ts)" for ts :: "'w task list"
    using run_tasks_returns [OF assms] by (simp add: sure_def)
  then show ?thesis
    using assms unfolding executeToolCalls_def Let_def executeToolCallsSequential_def
      executeToolCallsParallel_def
    by (auto intro!: sure_and_then sure_map_act sure_call_parts sure_ret sure_run_one_call sure_start_call)
qed

section \<open>Laws of the world in tool execution\<close>

definition tools_obey :: "('w \<Rightarrow> agent_event list \<Rightarrow> 'w \<Rightarrow> bool) \<Rightarrow> 'w agent_context \<Rightarrow> bool" where
  "tools_obey P ctx \<longleftrightarrow>
     (\<forall>ts t i a w. ctx_tools ctx = Some ts \<longrightarrow> t \<in> set ts \<longrightarrow> P w [] (snd (tool_execute t i a w)))"

definition tool_config_obeys ::
    "('w \<Rightarrow> agent_event list \<Rightarrow> 'w \<Rightarrow> bool) \<Rightarrow> 'w tool_config \<Rightarrow> bool" where
  "tool_config_obeys P cfg \<longleftrightarrow>
     (\<forall>f x. cfg_beforeToolCall cfg = Some f \<longrightarrow> callback_obeys P (f x))
   \<and> (\<forall>f x. cfg_afterToolCall cfg = Some f \<longrightarrow> callback_obeys P (f x))"

lemma find_tool_in: "find_tool ctx n = Some t \<Longrightarrow> \<exists>ts. ctx_tools ctx = Some ts \<and> t \<in> set ts"
  by (auto simp: find_tool_def find_Some_iff split: option.splits)

text \<open>The tool of a prepared call is one of the context.\<close>

lemma prepared_tool:
  "prepareToolCall env cfg ctx am c s = (Inr (Prepared p), s') \<Longrightarrow>
   find_tool ctx (call_name c) = Some (prep_tool p)"
  unfolding prepareToolCall_def
  by (auto simp: try_catch_def ret_def throw_def and_then_def call_def Let_def
      split: option.splits sum.splits prod.splits if_splits)

fun task_obeys :: "('w \<Rightarrow> agent_event list \<Rightarrow> 'w \<Rightarrow> bool) \<Rightarrow> 'w task \<Rightarrow> bool" where
  "task_obeys P (Todo p) = (\<forall>i a w. P w [] (snd (tool_execute (prep_tool p) i a w)))"
| "task_obeys P _ = True"

locale agent_law = world_law P for P :: "'w \<Rightarrow> agent_event list \<Rightarrow> 'w \<Rightarrow> bool"
begin

text \<open>An action that obeys the law, and whose results a condition holds for.\<close>

lemma obeys_and_then_res:
  assumes "obeys P m" and "\<And>s a s'. m s = (Inr a, s') \<Longrightarrow> obeys P (f a)"
  shows "obeys P (and_then m f)"
  unfolding obeys_def
proof
  fix s
  obtain r s1 where m: "m s = (r, s1)" by fastforce
  from obeysD [OF assms(1) m] obtain ts where
    ts: "emitted s1 = emitted s @ ts" "P (world s) ts (world s1)" by blast
  show "\<exists>ts. emitted (snd (and_then m f s)) = emitted s @ ts
      \<and> P (world s) ts (world (snd (and_then m f s)))"
  proof (cases r)
    case (Inl e)
    with m ts show ?thesis by (auto simp: and_then_def)
  next
    case (Inr a)
    obtain r2 s2 where f: "f a s1 = (r2, s2)" by fastforce
    from obeysD [OF assms(2) [OF m [unfolded Inr]] f] ts run_on m f Inr
    show ?thesis by (auto simp: and_then_def)
  qed
qed

lemma obeys_prepareToolCall:
  "tool_config_obeys P cfg \<Longrightarrow> obeys P (prepareToolCall env cfg ctx am c)"
  unfolding prepareToolCall_def tool_config_obeys_def Let_def
  by (auto intro!: obeys_intros split: option.splits sum.splits)

lemma obeys_emit_all: "sink_obeys P sink \<Longrightarrow> obeys P (emit_all sink xs err)"
proof (induction xs arbitrary: err)
  case Nil
  show ?case by (cases err) (simp_all add: obeys_ret obeys_throw)
next
  case (Cons x xs)
  show ?case
    unfolding obeys_def
  proof
    fix s
    obtain r s1 where e: "emit sink x s = (r, s1)" by fastforce
    from obeysD [OF obeys_emit [OF Cons.prems] e] obtain ts where
      ts: "emitted s1 = emitted s @ ts" "P (world s) ts (world s1)" by blast
    have "\<exists>us. emitted (snd (emit_all sink xs err' s1)) = emitted s1 @ us
        \<and> P (world s1) us (world (snd (emit_all sink xs err' s1)))" for err'
      using Cons.IH [OF Cons.prems] by (simp add: obeys_def)
    then obtain us where "emitted (snd (emit_all sink (x # xs) err s)) = emitted s1 @ us"
      "P (world s1) us (world (snd (emit_all sink (x # xs) err s)))"
      using e by (cases r) auto
    with ts run_on show "\<exists>ts. emitted (snd (emit_all sink (x # xs) err s)) = emitted s @ ts
        \<and> P (world s) ts (world (snd (emit_all sink (x # xs) err s)))" by auto
  qed
qed

lemma obeys_executePrepared:
  assumes "sink_obeys P (env_emit env)" and "\<And>i a w. P w [] (snd (tool_execute (prep_tool p) i a w))"
  shows "obeys P (executePreparedToolCall env p)"
  unfolding executePreparedToolCall_def Let_def
  by (intro obeys_and_then obeys_call)
    (use assms in \<open>auto simp: callback_obeys_def
      intro!: obeys_and_then obeys_emit_all obeys_ret split: prod.splits sum.splits\<close>,
     metis snd_conv)

lemma obeys_finalize:
  "tool_config_obeys P cfg \<Longrightarrow> obeys P (finalizeExecutedToolCall cfg ctx am p x)"
  unfolding finalizeExecutedToolCall_def tool_config_obeys_def Let_def
  by (auto intro!: obeys_intros split: option.splits)

lemma obeys_emissions:
  assumes "sink_obeys P (env_emit env)"
  shows "obeys P (emitToolExecutionStart env c)" "obeys P (emitToolExecutionEnd env f)"
    "obeys P (emitToolResultMessage env m)" "obeys P (createToolResultMessage env f)"
  using assms unfolding emitToolExecutionStart_def emitToolExecutionEnd_def
    emitToolResultMessage_def createToolResultMessage_def
  by (auto intro!: obeys_intros)

lemma prepared_tool_obeys:
  assumes "tools_obey P ctx" and "prepareToolCall env cfg ctx am c s = (Inr (Prepared p), s')"
  shows "P w [] (snd (tool_execute (prep_tool p) i a w))"
  using assms(1) find_tool_in [OF prepared_tool [OF assms(2)]] by (auto simp: tools_obey_def)

lemma obeys_run_one_call:
  assumes "sink_obeys P (env_emit env)" "tool_config_obeys P cfg" "tools_obey P ctx"
  shows "obeys P (run_one_call env cfg ctx am c)"
  unfolding run_one_call_def
proof (rule obeys_and_then [OF obeys_emissions(1) [OF assms(1)]],
    rule obeys_and_then_res [OF obeys_prepareToolCall [OF assms(2)]],
    intro obeys_and_then obeys_emissions obeys_ret assms(1))
  fix s prep s' assume run: "prepareToolCall env cfg ctx am c s = (Inr prep, s')"
  show "obeys P (case prep of
      Immediate r err \<Rightarrow> ret \<lparr>fin_toolCall = c, fin_result = r, fin_isError = err\<rparr>
    | Prepared p \<Rightarrow> and_then (executePreparedToolCall env p) (finalizeExecutedToolCall cfg ctx am p))"
    using run assms
    by (cases prep) (auto intro!: obeys_and_then obeys_executePrepared obeys_finalize obeys_ret
        intro: prepared_tool_obeys)
qed

lemma start_call_task_obeys:
  assumes "tools_obey P ctx" and "start_call env cfg ctx am c s = (Inr t, s')"
  shows "task_obeys P t"
  using assms unfolding start_call_def
  by (auto simp: and_then_def ret_def Let_def
      split: prod.splits sum.splits preparation.splits intro: prepared_tool_obeys)

lemma obeys_start_call:
  assumes "sink_obeys P (env_emit env)" "tool_config_obeys P cfg"
  shows "obeys P (start_call env cfg ctx am c)"
  unfolding start_call_def Let_def
  by (intro obeys_and_then obeys_emissions obeys_prepareToolCall assms)
    (auto intro!: obeys_and_then obeys_emissions obeys_ret assms split: preparation.splits)

lemma obeys_task_step:
  assumes "sink_obeys P (env_emit env)" "tool_config_obeys P cfg" "task_obeys P t"
  shows "obeys P (task_step env cfg ctx am t)"
  using assms
  by (cases t) (auto intro!: obeys_and_then obeys_executePrepared obeys_finalize obeys_emissions obeys_ret)

lemma task_step_obeys:
  "task_step env cfg ctx am t s = (Inr t', s') \<Longrightarrow> task_obeys P t'"
  by (cases t) (auto simp: and_then_def ret_def split: prod.splits sum.splits)

lemma obeys_run_tasks:
  assumes "sink_obeys P (env_emit env)" "tool_config_obeys P cfg" "\<forall>t\<in>set ts. task_obeys P t"
  shows "obeys P (run_tasks env cfg ctx am ts)"
proof -
  have "\<exists>us. emitted (snd (run_tasks env cfg ctx am ts s)) = emitted s @ us
      \<and> P (world s) us (world (snd (run_tasks env cfg ctx am ts s)))" for s
    using assms
  proof (induction env cfg ctx am ts s rule: run_tasks.induct)
    case (1 env cfg ctx am ts s)
    show ?case
    proof (cases "unsettled ts = []")
      case True
      then show ?thesis by (subst (1 2) run_tasks.simps) (simp add: idle)
    next
      case False
      define i where "i = scheduled env ts (world s)"
      from scheduled_unsettled [OF False, of env "world s"] have i: "i < length ts"
        by (simp add: i_def)
      obtain r s1 where run: "task_step env cfg ctx am (ts ! i) s = (r, s1)" by fastforce
      from i "1.prems" have "task_obeys P (ts ! i)" by simp
      from obeysD [OF obeys_task_step [OF "1.prems"(1,2) this] run] obtain us where
        us: "emitted s1 = emitted s @ us" "P (world s) us (world s1)" by blast
      show ?thesis
      proof (cases r)
        case (Inl e)
        with False run us show ?thesis
          by (subst (1 2) run_tasks.simps) (auto simp: Let_def i_def)
      next
        case (Inr t)
        have "\<forall>t\<in>set (ts[i := t]). task_obeys P t"
          using "1.prems"(3) task_step_obeys [OF run [unfolded Inr]] set_update_subset_insert by fastforce
        from "1.IH" [OF False i_def run [symmetric] Inr "1.prems"(1,2) this] obtain vs where
          vs: "emitted (snd (run_tasks env cfg ctx am (ts[i := t]) s1)) = emitted s1 @ vs"
            "P (world s1) vs (world (snd (run_tasks env cfg ctx am (ts[i := t]) s1)))" by blast
        have "run_tasks env cfg ctx am ts s = run_tasks env cfg ctx am (ts[i := t]) s1"
          using False run Inr by (subst run_tasks.simps) (simp add: Let_def i_def)
        with us vs run_on show ?thesis by auto
      qed
    qed
  qed
  then show ?thesis by (simp add: obeys_def)
qed

lemma map_act_results:
  "map_act f xs s = (Inr ys, s') \<Longrightarrow> y \<in> set ys \<Longrightarrow> \<exists>x\<in>set xs. \<exists>s s'. f x s = (Inr y, s')"
proof (induction xs arbitrary: s ys s')
  case Nil
  then show ?case by (simp add: ret_def)
next
  case (Cons x xs)
  from Cons.prems(1) obtain a s1 as s2 where
    "f x s = (Inr a, s1)" "map_act f xs s1 = (Inr as, s2)" "ys = a # as"
    by (auto simp: and_then_def ret_def split: prod.splits sum.splits)
  with Cons.IH [of s1 as s2] Cons.prems(2) show ?case by (cases "y = a") auto
qed

lemma start_calls_obey:
  assumes "tools_obey P ctx" "map_act (start_call env cfg ctx am) cs s = (Inr ts, s')"
  shows "\<forall>t\<in>set ts. task_obeys P t"
  using map_act_results [OF assms(2)] start_call_task_obeys [OF assms(1)] by blast

lemma obeys_executeToolCalls:
  assumes "sink_obeys P (env_emit env)" "tool_config_obeys P cfg" "tools_obey P ctx"
  shows "obeys P (executeToolCalls env cfg ctx am)"
proof -
  have "obeys P (executeToolCallsSequential env cfg ctx am cs)" for cs
    unfolding executeToolCallsSequential_def
    by (intro obeys_and_then obeys_map_act obeys_run_one_call obeys_ret assms)
  moreover have "obeys P (executeToolCallsParallel env cfg ctx am cs)" for cs
    unfolding executeToolCallsParallel_def Let_def
    by (rule obeys_and_then_res [OF obeys_map_act [OF obeys_start_call [OF assms(1,2)]]])
      (intro obeys_and_then obeys_run_tasks obeys_map_act obeys_emissions obeys_ret assms
        start_calls_obey [OF assms(3)], assumption)
  ultimately show ?thesis unfolding executeToolCalls_def Let_def by simp
qed

end

interpretation agent_shrinking: agent_law "shrinks f" for f :: "'w \<Rightarrow> nat"
  by unfold_locales

interpretation agent_following: agent_law "follows g \<delta>"
  for g :: "'w \<Rightarrow> 'v" and \<delta> :: "'v \<Rightarrow> agent_event \<Rightarrow> 'v"
  by unfold_locales

section \<open>Properties\<close>

text \<open>A concrete setting: the world is a number no callback here changes, one tool answers, one throws, one hook
  blocks the calls of the tool \<open>rm\<close>, and the scheduler moves the last unfinished call first.\<close>

definition demo_tool :: "string \<Rightarrow> (jerror + tool_result) \<Rightarrow> nat agent_tool" where
  "demo_tool n r = \<lparr>tool_name = js n, tool_description = [], tool_parameters = JObj [],
     tool_label = js n, tool_prepareArguments = None,
     tool_execute = (\<lambda>i a w. (([], r), w)), tool_executionMode = None\<rparr>"

definition demo_result :: tool_result where
  "demo_result = \<lparr>res_content = [text_block (js ''ok'')], res_details = None, res_terminate = None\<rparr>"

definition demo_tools :: "nat agent_tool list" where
  "demo_tools = [demo_tool ''read'' (Inr demo_result), demo_tool ''fail'' (Inl (js ''boom'')),
     demo_tool ''rm'' (Inr demo_result)]"

definition demo_context :: "nat agent_context" where
  "demo_context = \<lparr>ctx_systemPrompt = [], ctx_messages = [], ctx_tools = Some demo_tools\<rparr>"

definition demo_block ::
    "nat before_tool_call_context \<Rightarrow> (nat, before_tool_call_result option) callback" where
  "demo_block c = (\<lambda>w.
     (Inr (if call_name (btx_toolCall c) = js ''rm''
           then Some \<lparr>btc_block = Some True, btc_reason = None\<rparr> else None), w))"

definition demo_config :: "nat tool_config" where
  "demo_config = \<lparr>cfg_toolExecution = None, cfg_beforeToolCall = Some demo_block,
     cfg_afterToolCall = None\<rparr>"

definition demo_env :: "nat tool_env" where
  "demo_env = \<lparr>env_emit = (\<lambda>e w. (Inr (), w)),
     env_validateToolArguments = (\<lambda>t c. Inr (call_arguments c)),
     env_now = int, env_schedule = (\<lambda>w is. length is - 1)\<rparr>"

definition demo_assistant :: assistant_message where
  "demo_assistant = sample_assistant
     [AToolCall (sample_call ''a'' ''read''), AToolCall (sample_call ''b'' ''rm''),
      AToolCall (sample_call ''c'' ''fail''), AToolCall (sample_call ''d'' ''gone'')] SR_toolUse"

definition demo_state :: "(agent_event, nat) rt" where
  "demo_state = \<lparr>emitted = [], world = 0\<rparr>"

lemma demo_reliable: "reliable_sink (env_emit demo_env)"
  by (simp add: reliable_sink_def demo_env_def)

lemma demo_calls:
  "tool_calls_of (am_content demo_assistant) =
     [sample_call ''a'' ''read'', sample_call ''b'' ''rm'', sample_call ''c'' ''fail'',
      sample_call ''d'' ''gone'']"
  by (simp add: demo_assistant_def sample_assistant_def)

lemma demo_batch:
  obtains b s' where
    "executeToolCalls demo_env demo_config demo_context demo_assistant demo_state = (Inr b, s')"
  using sureD [OF sure_executeToolCalls [OF demo_reliable]] by blast

text \<open>
  C3: In both execution modes and for every scheduling of concurrent calls, a batch that completes
  returns exactly one result message per tool call of the assistant message, in the order the assistant
  message has them, each with the id and the name of its call.
\<close>

theorem batch_results_in_call_order:
  assumes "executeToolCalls env cfg ctx am s = (Inr b, s')"
  shows "map (\<lambda>m. (tr_toolCallId m, tr_toolName m)) (batch_messages b)
       = map (\<lambda>c. (call_id c, call_name c)) (tool_calls_of (am_content am))"
proof -
  from phased_okD [OF phased_executeToolCalls assms]
  have "list_all2 result_of_call (tool_calls_of (am_content am)) (batch_messages b)" by blast
  then show ?thesis
    by (induction rule: list_all2_induct) (auto simp: result_of_call_def)
qed

theorem batch_results_in_call_order_witness:
  "\<exists>b s'. executeToolCalls demo_env demo_config demo_context demo_assistant demo_state = (Inr b, s')
     \<and> map (\<lambda>m. (tr_toolCallId m, tr_toolName m)) (batch_messages b)
       = [(js ''a'', js ''read''), (js ''b'', js ''rm''), (js ''c'', js ''fail''), (js ''d'', js ''gone'')]"
proof -
  obtain b s' where
    run: "executeToolCalls demo_env demo_config demo_context demo_assistant demo_state = (Inr b, s')"
    by (rule demo_batch)
  from batch_results_in_call_order [OF run] run show ?thesis
    by (intro exI [of _ b] exI [of _ s']) (simp add: demo_calls sample_call_def)
qed

text \<open>
  The events of a batch that completes within a turn start every tool call once, in the order of the calls,
  end every call once, in some order, and end one message per result, in the order of the calls.
\<close>

theorem batch_events:
  assumes "executeToolCalls env cfg ctx am s = (Inr b, s')"
  shows "\<exists>ts. emitted s' = emitted s @ ts
     \<and> starts ts = map call_id (tool_calls_of (am_content am))
     \<and> mset (ends ts) = mset (starts ts)
     \<and> message_ends ts = map tool_result_agent_message (batch_messages b)"
proof -
  from phased_okD [OF phased_executeToolCalls [where M = "{#}" and S = "[]" and L = "[]"] assms]
  obtain ts q where ts: "emitted s' = emitted s @ ts"
    and acc: "accepts protocol_step (in_turn {#} [] []) ts = Some q"
    and q: "q = in_turn {#} (map call_id (tool_calls_of (am_content am)))
              (map tool_result_agent_message (batch_messages b))" by auto
  from accepts_started [OF acc] accepts_open [OF acc] accepts_log [OF acc] ts q show ?thesis
    by (intro exI [of _ ts]) simp
qed

theorem batch_events_witness:
  "\<exists>b s'. executeToolCalls demo_env demo_config demo_context demo_assistant demo_state = (Inr b, s')
     \<and> starts (emitted s') = [js ''a'', js ''b'', js ''c'', js ''d'']
     \<and> mset (ends (emitted s')) = {#js ''a'', js ''b'', js ''c'', js ''d''#}"
proof -
  obtain b s' where
    run: "executeToolCalls demo_env demo_config demo_context demo_assistant demo_state = (Inr b, s')"
    by (rule demo_batch)
  from batch_events [OF run] run show ?thesis
    by (intro exI [of _ b] exI [of _ s']) (simp add: demo_calls sample_call_def demo_state_def)
qed

text \<open>
  However a batch goes, also when it is cut off by an event sink that throws, at no point of its
  trace has a tool call ended more often than it was started.
\<close>

theorem batch_ends_follow_starts:
  "\<exists>ts. emitted (snd (executeToolCalls env cfg ctx am s)) = emitted s @ ts
     \<and> (\<forall>n. mset (ends (take n ts)) \<subseteq># mset (starts (take n ts)))"
proof -
  obtain r s' where run: "executeToolCalls env cfg ctx am s = (r, s')" by fastforce
  obtain ts where ts: "emitted s' = emitted s @ ts"
    and acc: "accepts protocol_step (in_turn {#} [] []) ts \<noteq> None"
  proof (cases r)
    case (Inl e)
    from phased_errD [OF phased_executeToolCalls run [unfolded Inl]] that show ?thesis by blast
  next
    case (Inr b)
    from phased_okD [OF phased_executeToolCalls run [unfolded Inr]] that show ?thesis by blast
  qed
  have "mset (ends (take n ts)) \<subseteq># mset (starts (take n ts))" for n
    by (rule accepts_balanced [of "in_turn {#} [] []" _ "drop n ts"]) (use acc in simp_all)
  with run ts show ?thesis by auto
qed

text \<open>
  C4: With an event sink that does not throw, a batch always completes, whatever tools are missing,
  refuse their arguments, are blocked or throw, and whatever the hooks throw: every failure has become a
  result message.
\<close>

theorem batch_always_completes:
  assumes "reliable_sink (env_emit env)"
  shows "\<exists>b s'. executeToolCalls env cfg ctx am s = (Inr b, s')
     \<and> length (batch_messages b) = length (tool_calls_of (am_content am))"
proof -
  from sureD [OF sure_executeToolCalls [OF assms]] obtain b s' where
    run: "executeToolCalls env cfg ctx am s = (Inr b, s')" by blast
  from phased_okD [OF phased_executeToolCalls run]
  have "list_all2 result_of_call (tool_calls_of (am_content am)) (batch_messages b)" by blast
  with run show ?thesis by (auto dest: list_all2_lengthD)
qed

theorem batch_always_completes_witness:
  "\<exists>b s'. executeToolCalls demo_env demo_config demo_context demo_assistant demo_state = (Inr b, s')
     \<and> length (batch_messages b) = 4"
proof -
  from batch_always_completes [OF demo_reliable, of demo_config demo_context demo_assistant demo_state]
  show ?thesis by (simp add: demo_calls eval_nat_numeral)
qed

text \<open>
  A tool is prepared for execution only if a tool of that name is in the context, its
  arguments passed validation, and the hook before tool calls, if any, was asked about exactly these arguments and
  neither threw nor blocked the call.
\<close>

theorem tool_runs_only_when_cleared:
  assumes "prepareToolCall env cfg ctx am c s = (Inr (Prepared p), s')"
  shows "find_tool ctx (call_name c) = Some (prep_tool p)
     \<and> prep_toolCall p = c
     \<and> (\<exists>pc. prepareToolCallArguments (prep_tool p) c = Inr pc
           \<and> env_validateToolArguments env (prep_tool p) pc = Inr (prep_args p))
     \<and> (\<forall>hook. cfg_beforeToolCall cfg = Some hook \<longrightarrow>
           (\<exists>r w. hook \<lparr>btx_assistantMessage = am, btx_toolCall = c, btx_args = prep_args p,
                       btx_context = ctx\<rparr> (world s) = (Inr r, w)
                \<and> (\<forall>b. r = Some b \<longrightarrow> btc_block b \<noteq> Some True)))"
  using assms unfolding prepareToolCall_def
  by (auto simp: try_catch_def ret_def throw_def and_then_def call_def Let_def
      split: option.splits sum.splits prod.splits if_splits)

theorem tool_runs_only_when_cleared_witness:
  "\<exists>p s'. prepareToolCall demo_env demo_config demo_context demo_assistant
       (sample_call ''a'' ''read'') demo_state = (Inr (Prepared p), s')
     \<and> find_tool demo_context (js ''read'') = Some (prep_tool p)"
proof -
  obtain p s' where run: "prepareToolCall demo_env demo_config demo_context demo_assistant
       (sample_call ''a'' ''read'') demo_state = (Inr (Prepared p), s')"
    by (simp add: prepareToolCall_def find_tool_def demo_context_def demo_tools_def demo_tool_def
        demo_env_def demo_config_def demo_block_def sample_call_def prepareToolCallArguments_def
        try_catch_def and_then_def call_def ret_def)
  from tool_runs_only_when_cleared [OF run] run show ?thesis
    by (intro exI [of _ p] exI [of _ s']) (simp add: sample_call_def)
qed

end
