(* ===== verification/Event_Stream.thy ===== *)
theory Event_Stream
  imports Messages
begin

text \<open>
  \<^verbatim>\<open>packages/ai/src/utils/event-stream.ts\<close>: the queue between a provider (or the
  agent loop), which pushes events, and the consumer that iterates over them.

  \<open>es_push\<close>, \<open>es_end\<close> and \<open>es_next\<close> are the three operations on the fields of the class; a
  resolved waiter is a notice. \<open>es_step\<close> runs them against one consumer, the
  \<^verbatim>\<open>for await\<close> loop of the code, which asks for the next event only when it has
  handled the last one. The lemmas show that the consumer receives exactly the accepted
  events in order, that the final result is the first one settled, and that a stream that is done
  lets its consumer finish.
\<close>

section \<open>The stream\<close>

record ('t, 'r) event_stream =
  es_queue :: "'t list"
  es_waiting :: "nat list"
  es_done :: bool
  es_final :: "'r option"

datatype 't notice = Value nat 't | Finished nat

definition es_new :: "('t, 'r) event_stream" where
  "es_new = \<lparr>es_queue = [], es_waiting = [], es_done = False, es_final = None\<rparr>"

text \<open>A promise settles once: later calls of its resolve function do nothing.\<close>

definition settle :: "'r option \<Rightarrow> 'r \<Rightarrow> 'r option" where
  "settle old r = (case old of None \<Rightarrow> Some r | Some x \<Rightarrow> Some x)"

definition es_deliver :: "'t \<Rightarrow> ('t, 'r) event_stream \<Rightarrow> 't notice list \<times> ('t, 'r) event_stream" where
  "es_deliver e s =
     (case es_waiting s of
        w # ws \<Rightarrow> ([Value w e], s\<lparr>es_waiting := ws\<rparr>)
      | [] \<Rightarrow> ([], s\<lparr>es_queue := es_queue s @ [e]\<rparr>))"

definition es_push ::
    "('t \<Rightarrow> bool) \<Rightarrow> ('t \<Rightarrow> jerror + 'r) \<Rightarrow> 't \<Rightarrow> ('t, 'r) event_stream \<Rightarrow>
     (jerror + 't notice list) \<times> ('t, 'r) event_stream" where
  "es_push isComplete extractResult e s =
     (if es_done s then (Inr [], s)
      else if isComplete e then
        (case extractResult e of
           Inl err \<Rightarrow> (Inl err, s\<lparr>es_done := True\<rparr>)
         | Inr r \<Rightarrow>
             (case es_deliver e (s\<lparr>es_done := True, es_final := settle (es_final s) r\<rparr>) of
                (ns, s') \<Rightarrow> (Inr ns, s')))
      else (case es_deliver e s of (ns, s') \<Rightarrow> (Inr ns, s')))"

definition es_end :: "'r option \<Rightarrow> ('t, 'r) event_stream \<Rightarrow> 't notice list \<times> ('t, 'r) event_stream" where
  "es_end r s =
     (map Finished (es_waiting s),
      s\<lparr>es_done := True,
        es_final := (case r of None \<Rightarrow> es_final s | Some v \<Rightarrow> settle (es_final s) v),
        es_waiting := []\<rparr>)"

text \<open>
  One turn of the iterator's loop for consumer \<open>i\<close>: it yields an event, returns, or waits.
\<close>

datatype 't turn = Yield 't | Return | Wait

definition es_next :: "nat \<Rightarrow> ('t, 'r) event_stream \<Rightarrow> 't turn \<times> ('t, 'r) event_stream" where
  "es_next i s =
     (case es_queue s of
        e # es \<Rightarrow> (Yield e, s\<lparr>es_queue := es\<rparr>)
      | [] \<Rightarrow> if es_done s then (Return, s) else (Wait, s\<lparr>es_waiting := es_waiting s @ [i]\<rparr>))"

section \<open>The stream of assistant events\<close>

fun assistant_is_complete :: "assistant_event \<Rightarrow> bool" where
  "assistant_is_complete (Ev_done r m) = True"
| "assistant_is_complete (Ev_error r m) = True"
| "assistant_is_complete _ = False"

fun assistant_extract :: "assistant_event \<Rightarrow> jerror + assistant_message" where
  "assistant_extract (Ev_done r m) = Inr m"
| "assistant_extract (Ev_error r m) = Inr m"
| "assistant_extract _ = Inl (js ''Unexpected event type for final result'')"

lemma assistant_extract_complete:
  "assistant_is_complete e \<Longrightarrow> \<exists>m. assistant_extract e = Inr m"
  by (cases e) simp_all

section \<open>One consumer\<close>

datatype consumer = Ready | Blocked | Ended

datatype ('t, 'r) stream_op = Push 't | End "'r option" | Next

record ('t, 'r) stream_run =
  run_stream :: "('t, 'r) event_stream"
  run_consumer :: consumer
  run_received :: "'t list"

definition run_new :: "('t, 'r) stream_run" where
  "run_new = \<lparr>run_stream = es_new, run_consumer = Ready, run_received = []\<rparr>"

text \<open>A notice wakes the consumer, which yields the event to its loop body or returns.\<close>

fun notify :: "('t, 'r) stream_run \<Rightarrow> 't notice \<Rightarrow> ('t, 'r) stream_run" where
  "notify c (Value i e) = c\<lparr>run_consumer := Ready, run_received := run_received c @ [e]\<rparr>"
| "notify c (Finished i) = c\<lparr>run_consumer := Ended\<rparr>"

fun es_step ::
    "('t \<Rightarrow> bool) \<Rightarrow> ('t \<Rightarrow> jerror + 'r) \<Rightarrow> ('t, 'r) stream_run \<Rightarrow> ('t, 'r) stream_op \<Rightarrow> ('t, 'r) stream_run" where
  "es_step isC ext c (Push e) =
     (case es_push isC ext e (run_stream c) of
        (Inl err, s) \<Rightarrow> c\<lparr>run_stream := s\<rparr>
      | (Inr ns, s) \<Rightarrow> foldl notify (c\<lparr>run_stream := s\<rparr>) ns)"
| "es_step isC ext c (End r) =
     (case es_end r (run_stream c) of (ns, s) \<Rightarrow> foldl notify (c\<lparr>run_stream := s\<rparr>) ns)"
| "es_step isC ext c Next =
     (case run_consumer c of
        Ready \<Rightarrow>
          (case es_next 0 (run_stream c) of
             (Yield e, s) \<Rightarrow> c\<lparr>run_stream := s, run_received := run_received c @ [e]\<rparr>
           | (Return, s) \<Rightarrow> c\<lparr>run_stream := s, run_consumer := Ended\<rparr>
           | (Wait, s) \<Rightarrow> c\<lparr>run_stream := s, run_consumer := Blocked\<rparr>)
      | Blocked \<Rightarrow> c
      | Ended \<Rightarrow> c)"

definition es_run ::
    "('t \<Rightarrow> bool) \<Rightarrow> ('t \<Rightarrow> jerror + 'r) \<Rightarrow> ('t, 'r) stream_run \<Rightarrow> ('t, 'r) stream_op list \<Rightarrow> ('t, 'r) stream_run" where
  "es_run isC ext c ops = foldl (es_step isC ext) c ops"

lemma es_run_simps [simp]:
  "es_run isC ext c [] = c"
  "es_run isC ext c (x # xs) = es_run isC ext (es_step isC ext c x) xs"
  by (simp_all add: es_run_def)

text \<open>The extraction of a completing event does not throw.\<close>

definition extract_total :: "('t \<Rightarrow> bool) \<Rightarrow> ('t \<Rightarrow> jerror + 'r) \<Rightarrow> bool" where
  "extract_total isC ext \<longleftrightarrow> (\<forall>e. isC e \<longrightarrow> (\<exists>r. ext e = Inr r))"

lemma assistant_extract_total: "extract_total assistant_is_complete assistant_extract"
  by (simp add: extract_total_def assistant_extract_complete)

text \<open>
  The invariant of one consumer: a waiter and a queued event never coexist, a stream that is done
  has no waiter, and the consumer is blocked exactly when it is the one waiter.
\<close>

definition stream_inv :: "('t, 'r) stream_run \<Rightarrow> bool" where
  "stream_inv c \<longleftrightarrow>
     (case es_waiting (run_stream c) of
        [] \<Rightarrow> run_consumer c \<noteq> Blocked
      | w # ws \<Rightarrow> ws = [] \<and> w = 0 \<and> run_consumer c = Blocked
                \<and> es_queue (run_stream c) = [] \<and> \<not> es_done (run_stream c))
     \<and> (run_consumer c = Ended \<longrightarrow> es_done (run_stream c) \<and> es_queue (run_stream c) = [])"

lemmas stream_defs =
  es_push_def es_deliver_def es_end_def es_next_def settle_def stream_inv_def

lemma stream_inv_new [inv_intros]: "stream_inv run_new"
  by (simp add: stream_inv_def run_new_def es_new_def)

lemma stream_inv_step [inv_intros]:
  assumes "extract_total isC ext" and "stream_inv c"
  shows "stream_inv (es_step isC ext c x)"
proof (cases x)
  case (Push e)
  with assms show ?thesis
    by (cases "isC e"; cases "ext e"; cases "es_waiting (run_stream c)")
      (auto simp: stream_defs extract_total_def)
next
  case (End r)
  with assms show ?thesis
    by (cases "es_waiting (run_stream c)") (auto simp: stream_defs)
next
  case Next
  with assms show ?thesis
    by (cases "run_consumer c"; cases "es_queue (run_stream c)"; cases "es_waiting (run_stream c)")
      (auto simp: stream_defs)
qed

lemma stream_inv_run [inv_intros]:
  "extract_total isC ext \<Longrightarrow> stream_inv c \<Longrightarrow> stream_inv (es_run isC ext c ops)"
  by (induction ops arbitrary: c) (auto intro: stream_inv_step)

section \<open>What the consumer receives\<close>

text \<open>
  The events the stream accepts: those pushed before it is done, the completing one included.
\<close>

fun accepted :: "('t \<Rightarrow> bool) \<Rightarrow> bool \<Rightarrow> ('t, 'r) stream_op list \<Rightarrow> 't list" where
  "accepted isC d [] = []"
| "accepted isC d (Push e # ops) =
     (if d then accepted isC d ops else e # accepted isC (isC e) ops)"
| "accepted isC d (End r # ops) = accepted isC True ops"
| "accepted isC d (Next # ops) = accepted isC d ops"

text \<open>The results offered to the final promise, in order.\<close>

fun offered :: "('t \<Rightarrow> bool) \<Rightarrow> ('t \<Rightarrow> jerror + 'r) \<Rightarrow> bool \<Rightarrow> ('t, 'r) stream_op list \<Rightarrow> 'r list" where
  "offered isC ext d [] = []"
| "offered isC ext d (Push e # ops) =
     (if d then offered isC ext d ops
      else if isC e then
        (case ext e of Inl _ \<Rightarrow> [] | Inr r \<Rightarrow> [r]) @ offered isC ext True ops
      else offered isC ext d ops)"
| "offered isC ext d (End r # ops) =
     (case r of None \<Rightarrow> [] | Some v \<Rightarrow> [v]) @ offered isC ext True ops"
| "offered isC ext d (Next # ops) = offered isC ext d ops"

definition seen :: "('t, 'r) stream_run \<Rightarrow> 't list" where
  "seen c = run_received c @ es_queue (run_stream c)"

lemma es_step_seen:
  assumes "extract_total isC ext" and "stream_inv c"
  shows "seen (es_step isC ext c x) = seen c @ accepted isC (es_done (run_stream c)) [x]"
proof (cases x)
  case (Push e)
  with assms show ?thesis
    by (cases "isC e"; cases "ext e"; cases "es_waiting (run_stream c)")
      (auto simp: stream_defs extract_total_def seen_def)
next
  case (End r)
  with assms show ?thesis
    by (cases "es_waiting (run_stream c)") (auto simp: stream_defs seen_def)
next
  case Next
  with assms show ?thesis
    by (cases "run_consumer c"; cases "es_queue (run_stream c)") (auto simp: stream_defs seen_def)
qed

lemma foldl_notify_stream [simp]: "run_stream (foldl notify c ns) = run_stream c"
proof (induction ns arbitrary: c)
  case Nil
  show ?case by simp
next
  case (Cons n ns)
  then show ?case by (cases n) simp_all
qed

lemma es_step_done:
  assumes "extract_total isC ext"
  shows "es_done (run_stream (es_step isC ext c x)) \<longleftrightarrow>
    es_done (run_stream c) \<or> (case x of Push e \<Rightarrow> isC e | End r \<Rightarrow> True | Next \<Rightarrow> False)"
proof (cases x)
  case (Push e)
  with assms show ?thesis
    by (cases "isC e"; cases "ext e"; cases "es_waiting (run_stream c)")
      (auto simp: stream_defs extract_total_def split: sum.splits prod.splits)
next
  case (End r)
  then show ?thesis by (simp add: es_end_def)
next
  case Next
  then show ?thesis
    by (cases "run_consumer c"; cases "es_queue (run_stream c)") (auto simp: es_next_def)
qed

lemma accepted_Cons:
  "accepted isC d (x # xs) = accepted isC d [x]
     @ accepted isC (d \<or> (case x of Push e \<Rightarrow> isC e | End r \<Rightarrow> True | Next \<Rightarrow> False)) xs"
  by (cases x) auto

lemma es_run_seen:
  assumes "extract_total isC ext" and "stream_inv c"
  shows "seen (es_run isC ext c ops) = seen c @ accepted isC (es_done (run_stream c)) ops"
  using assms(2)
proof (induction ops arbitrary: c)
  case Nil
  show ?case by simp
next
  case (Cons x xs)
  from assms(1) Cons.prems have "stream_inv (es_step isC ext c x)"
    by (rule stream_inv_step)
  then have "seen (es_run isC ext (es_step isC ext c x) xs)
      = seen (es_step isC ext c x) @ accepted isC (es_done (run_stream (es_step isC ext c x))) xs"
    by (rule Cons.IH)
  also have "\<dots> = seen c @ accepted isC (es_done (run_stream c)) (x # xs)"
    unfolding accepted_Cons [of isC _ x xs] es_step_done [OF assms(1)]
    by (simp add: es_step_seen [OF assms(1) Cons.prems])
  finally show ?case by simp
qed

text \<open>
  Whatever the interleaving of producer and consumer, what the consumer has received,
  followed by what is still queued, is exactly the list of accepted events: none is lost,
  duplicated or reordered, and nothing pushed after the completing event is seen.
\<close>

theorem stream_fifo:
  assumes "extract_total isC ext"
  shows "run_received (es_run isC ext run_new ops) @ es_queue (run_stream (es_run isC ext run_new ops))
         = accepted isC False ops"
  using es_run_seen [OF assms stream_inv_new, of ops]
  by (simp add: seen_def run_new_def es_new_def)

theorem stream_fifo_witness:
  "run_received (es_run assistant_is_complete assistant_extract run_new
      [Next, Push (Ev_start (sample_assistant [] SR_stop)),
       Push (Ev_done SR_stop (sample_assistant [] SR_stop)),
       Push (Ev_start (sample_assistant [] SR_error)), Next])
   = [Ev_start (sample_assistant [] SR_stop), Ev_done SR_stop (sample_assistant [] SR_stop)]"
  using stream_fifo [OF assistant_extract_total,
      of "[Next, Push (Ev_start (sample_assistant [] SR_stop)),
       Push (Ev_done SR_stop (sample_assistant [] SR_stop)),
       Push (Ev_start (sample_assistant [] SR_error)), Next]"]
  by (simp add: stream_defs run_new_def es_new_def)

section \<open>The final result\<close>

definition settled :: "'r option \<Rightarrow> 'r list \<Rightarrow> 'r option" where
  "settled old rs = (case old of Some r \<Rightarrow> Some r | None \<Rightarrow> (case rs of [] \<Rightarrow> None | r # _ \<Rightarrow> Some r))"

lemma es_step_final:
  assumes "extract_total isC ext"
  shows "es_final (run_stream (es_step isC ext c x))
    = settled (es_final (run_stream c)) (offered isC ext (es_done (run_stream c)) [x])"
proof (cases x)
  case (Push e)
  with assms show ?thesis
    by (cases "isC e"; cases "ext e"; cases "es_waiting (run_stream c)")
      (auto simp: stream_defs extract_total_def settled_def split: option.splits)
next
  case (End r)
  then show ?thesis
    by (cases r) (auto simp: es_end_def settle_def settled_def split: option.splits)
next
  case Next
  then show ?thesis
    by (cases "run_consumer c"; cases "es_queue (run_stream c)")
      (auto simp: es_next_def settled_def split: option.splits)
qed

lemma offered_Cons:
  "offered isC ext d (x # xs) = offered isC ext d [x]
     @ offered isC ext (d \<or> (case x of Push e \<Rightarrow> isC e | End r \<Rightarrow> True | Next \<Rightarrow> False)) xs"
  by (cases x) (auto split: sum.splits option.splits)

lemma settled_append: "settled (settled old rs) qs = settled old (rs @ qs)"
  by (auto simp: settled_def split: option.splits list.splits)

lemma es_run_final:
  assumes "extract_total isC ext"
  shows "es_final (run_stream (es_run isC ext c ops))
    = settled (es_final (run_stream c)) (offered isC ext (es_done (run_stream c)) ops)"
proof (induction ops arbitrary: c)
  case Nil
  show ?case by (simp add: settled_def split: option.splits)
next
  case (Cons x xs)
  have "es_final (run_stream (es_run isC ext (es_step isC ext c x) xs))
      = settled (es_final (run_stream (es_step isC ext c x)))
          (offered isC ext (es_done (run_stream (es_step isC ext c x))) xs)"
    by (rule Cons.IH)
  then show ?case
    unfolding offered_Cons [of isC ext _ x xs] es_step_done [OF assms] es_step_final [OF assms]
    by (simp add: settled_append)
qed

text \<open>
  The final result is the first one offered: that of the first completing event, or of an
  earlier \<^verbatim>\<open>end(result)\<close>. A later \<^verbatim>\<open>end(result)\<close>, such as the one \<^verbatim>\<open>agentLoop\<close>
  makes after pushing \<^verbatim>\<open>agent_end\<close>, does not change it.
\<close>

theorem stream_result_first:
  assumes "extract_total isC ext"
  shows "es_final (run_stream (es_run isC ext run_new ops))
         = (case offered isC ext False ops of [] \<Rightarrow> None | r # _ \<Rightarrow> Some r)"
  using es_run_final [OF assms, of run_new ops]
  by (simp add: settled_def run_new_def es_new_def)

theorem stream_result_first_witness:
  "es_final (run_stream (es_run assistant_is_complete assistant_extract run_new
      [Push (Ev_done SR_stop (sample_assistant [] SR_stop)), End (Some (sample_assistant [] SR_error))]))
   = Some (sample_assistant [] SR_stop)"
  using stream_result_first [OF assistant_extract_total,
      of "[Push (Ev_done SR_stop (sample_assistant [] SR_stop)), End (Some (sample_assistant [] SR_error))]"]
  by simp

section \<open>The consumer finishes\<close>

lemma es_run_drain:
  assumes "es_done (run_stream c)" and "run_consumer c = Ready"
  shows "es_run isC ext c (replicate (Suc (length (es_queue (run_stream c)))) Next)
    = c\<lparr>run_stream := (run_stream c)\<lparr>es_queue := []\<rparr>, run_consumer := Ended,
        run_received := run_received c @ es_queue (run_stream c)\<rparr>"
  using assms
proof (induction "es_queue (run_stream c)" arbitrary: c)
  case Nil
  then show ?case by (cases "run_stream c") (simp add: es_next_def)
next
  case (Cons e es)
  let ?c = "c\<lparr>run_stream := (run_stream c)\<lparr>es_queue := es\<rparr>, run_received := run_received c @ [e]\<rparr>"
  from Cons.hyps(2) have queue: "es_queue (run_stream c) = e # es" by simp
  with Cons.prems have step: "es_step isC ext c Next = ?c"
    by (simp add: es_next_def)
  have "es_run isC ext ?c (replicate (Suc (length (es_queue (run_stream ?c)))) Next)
    = ?c\<lparr>run_stream := (run_stream ?c)\<lparr>es_queue := []\<rparr>, run_consumer := Ended,
        run_received := run_received ?c @ es_queue (run_stream ?c)\<rparr>"
    by (rule Cons.hyps(1)) (use Cons.prems in simp_all)
  with step queue show ?case by (simp del: es_step.simps)
qed

text \<open>
  The loop over a stream that is done ends. After any run that completes the stream, the
  consumer has either ended already or ends after reading the events that are queued, having
  received every accepted event; it is never left waiting.
\<close>

theorem stream_consumer_finishes:
  assumes "extract_total isC ext"
    and "es_done (run_stream (es_run isC ext run_new ops))"
  shows "\<exists>n. run_consumer (es_run isC ext run_new (ops @ replicate n Next)) = Ended
           \<and> run_received (es_run isC ext run_new (ops @ replicate n Next)) = accepted isC False ops"
proof -
  let ?c = "es_run isC ext run_new ops"
  have inv: "stream_inv ?c" by (rule stream_inv_run [OF assms(1) stream_inv_new])
  have seen: "run_received ?c @ es_queue (run_stream ?c) = accepted isC False ops"
    using es_run_seen [OF assms(1) stream_inv_new, of ops]
    by (simp add: seen_def run_new_def es_new_def)
  have run: "es_run isC ext run_new (ops @ replicate n Next) = es_run isC ext ?c (replicate n Next)" for n
    by (simp add: es_run_def)
  show ?thesis
  proof (cases "run_consumer ?c")
    case Ready
    from es_run_drain [OF assms(2) Ready, of isC ext] show ?thesis
      by (intro exI [of _ "Suc (length (es_queue (run_stream ?c)))"]) (simp add: run seen del: replicate_Suc)
  next
    case Blocked
    with inv assms(2) show ?thesis by (auto simp: stream_inv_def split: list.splits)
  next
    case Ended
    with inv seen have "run_received ?c = accepted isC False ops" by (auto simp: stream_inv_def)
    with Ended show ?thesis by (intro exI [of _ 0]) (simp add: run)
  qed
qed

theorem stream_consumer_finishes_witness:
  "\<exists>n. run_consumer (es_run assistant_is_complete assistant_extract run_new
      ([Next, Push (Ev_done SR_stop (sample_assistant [] SR_stop))] @ replicate n Next)) = Ended"
proof -
  have "es_done (run_stream (es_run assistant_is_complete assistant_extract run_new
      [Next, Push (Ev_done SR_stop (sample_assistant [] SR_stop))]))"
    by (simp add: stream_defs run_new_def es_new_def)
  from stream_consumer_finishes [OF assistant_extract_total this] show ?thesis by blast
qed

end
