(* ===== verification/Agent_Loop.thy ===== *)
theory Agent_Loop
  imports Tool_Calls Event_Stream
begin

text \<open>
  The loop of \<^verbatim>\<open>packages/agent/src/agent-loop.ts\<close> (lines 31 to 368): streaming one assistant
  response, the turn, the inner loop over tool calls and steering messages, the outer loop over
  follow-up messages, and the entry points \<^verbatim>\<open>runAgentLoop\<close>, \<^verbatim>\<open>runAgentLoopContinue\<close>,
  \<^verbatim>\<open>agentLoop\<close> and \<^verbatim>\<open>agentLoopContinue\<close>.

  The provider is a parameter: calling the stream function gives the events it delivers and the
  outcome of \<^verbatim>\<open>response.result()\<close>. The loop may run forever, so \<open>run_loop\<close> has fuel, one
  unit per turn or follow-up poll, and \<open>None\<close> means that the fuel ran out. The trace lemmas
  relate every finished or aborted run to the acceptor of \<open>Agent_Protocol\<close>.
\<close>

section \<open>Configuration\<close>

record 'w llm_context =
  llm_systemPrompt :: jstr
  llm_messages :: "message list"
  llm_tools :: "'w agent_tool list option"

record 'w turn_update =
  upd_context :: "'w agent_context option"
  upd_model :: "llm_model option"
  upd_thinkingLevel :: "thinking_level option"

record 'w turn_context =
  tcx_message :: assistant_message
  tcx_toolResults :: "tool_result_message list"
  tcx_context :: "'w agent_context"
  tcx_newMessages :: "agent_message list"

text \<open>\<open>lc_tools\<close> is the part that tool execution reads.\<close>

record 'w loop_config =
  lc_model :: llm_model
  lc_reasoning :: "thinking_level option"
  lc_apiKey :: "jstr option"
  lc_tools :: "'w tool_config"
  lc_convertToLlm :: "agent_message list \<Rightarrow> ('w, message list) callback"
  lc_transformContext :: "(agent_message list \<Rightarrow> ('w, agent_message list) callback) option"
  lc_getApiKey :: "(jstr \<Rightarrow> ('w, jstr option) callback) option"
  lc_shouldStopAfterTurn :: "('w turn_context \<Rightarrow> ('w, bool) callback) option"
  lc_prepareNextTurn :: "('w turn_context \<Rightarrow> ('w, 'w turn_update option) callback) option"
  lc_getSteeringMessages :: "('w, agent_message list) callback option"
  lc_getFollowUpMessages :: "('w, agent_message list) callback option"

record response =
  resp_events :: "assistant_event list"
  resp_result :: "jerror + assistant_message"

type_synonym 'w stream_fn =
  "llm_model \<Rightarrow> 'w llm_context \<Rightarrow> 'w loop_config \<Rightarrow> ('w, response) callback"

section \<open>Streaming one response\<close>

definition assistant_agent_message :: "assistant_message \<Rightarrow> agent_message" where
  "assistant_agent_message m = Llm (AssistantM m)"

text \<open>\<^verbatim>\<open>messages[messages.length - 1] = m\<close>.\<close>

definition replace_last :: "'a list \<Rightarrow> 'a \<Rightarrow> 'a list" where
  "replace_last xs m = butlast xs @ [m]"

text \<open>The final message: the code of the \<^verbatim>\<open>done\<close> and \<^verbatim>\<open>error\<close> cases, and after the loop.\<close>

definition finish_response ::
    "'w tool_env \<Rightarrow> jerror + assistant_message \<Rightarrow> agent_message list \<Rightarrow> bool \<Rightarrow>
     (agent_event, 'w, agent_message list \<times> assistant_message) act" where
  "finish_response env result msgs addedPartial =
     (case result of
        Inl e \<Rightarrow> throw e
      | Inr final \<Rightarrow>
          (let fm = assistant_agent_message final;
               msgs' = (if addedPartial then replace_last msgs fm else msgs @ [fm]) in
           and_then (if addedPartial then ret () else emit (env_emit env) (Message_start fm)) (\<lambda>_.
           and_then (emit (env_emit env) (Message_end fm)) (\<lambda>_.
           ret (msgs', final)))))"

text \<open>The \<^verbatim>\<open>for await\<close> loop, with \<^verbatim>\<open>partialMessage\<close> and \<^verbatim>\<open>addedPartial\<close>.\<close>

fun consume_events ::
    "'w tool_env \<Rightarrow> jerror + assistant_message \<Rightarrow> assistant_event list \<Rightarrow> agent_message list \<Rightarrow>
     assistant_message option \<Rightarrow> bool \<Rightarrow>
     (agent_event, 'w, agent_message list \<times> assistant_message) act" where
  "consume_events env result [] msgs partial added = finish_response env result msgs added"
| "consume_events env result (ev # evs) msgs partial added =
     (case ev of
        Ev_start p \<Rightarrow>
          and_then (emit (env_emit env) (Message_start (assistant_agent_message p))) (\<lambda>_.
          consume_events env result evs (msgs @ [assistant_agent_message p]) (Some p) True)
      | Ev_done r m \<Rightarrow> finish_response env result msgs added
      | Ev_error r m \<Rightarrow> finish_response env result msgs added
      | _ \<Rightarrow>
          (case partial of
             None \<Rightarrow> consume_events env result evs msgs partial added
           | Some _ \<Rightarrow>
               (let p = ev_partial ev in
                and_then (emit (env_emit env) (Message_update (assistant_agent_message p) ev)) (\<lambda>_.
                consume_events env result evs (replace_last msgs (assistant_agent_message p))
                  (Some p) added))))"

definition resolve_api_key ::
    "'w loop_config \<Rightarrow> (agent_event, 'w, jstr option) act" where
  "resolve_api_key cfg =
     and_then (case lc_getApiKey cfg of
                 None \<Rightarrow> ret None
               | Some f \<Rightarrow> call (f (model_provider (lc_model cfg))))
       (\<lambda>k. ret (if truthy_str k then k else lc_apiKey cfg))"

definition streamAssistantResponse ::
    "'w tool_env \<Rightarrow> 'w stream_fn \<Rightarrow> 'w agent_context \<Rightarrow> 'w loop_config \<Rightarrow>
     (agent_event, 'w, 'w agent_context \<times> assistant_message) act" where
  "streamAssistantResponse env streamFn ctx cfg =
     and_then (case lc_transformContext cfg of
                 None \<Rightarrow> ret (ctx_messages ctx)
               | Some f \<Rightarrow> call (f (ctx_messages ctx))) (\<lambda>messages.
     and_then (call (lc_convertToLlm cfg messages)) (\<lambda>llmMessages.
     let llmContext = \<lparr>llm_systemPrompt = ctx_systemPrompt ctx, llm_messages = llmMessages,
                       llm_tools = ctx_tools ctx\<rparr> in
     and_then (resolve_api_key cfg) (\<lambda>key.
     and_then (call (streamFn (lc_model cfg) llmContext (cfg\<lparr>lc_apiKey := key\<rparr>))) (\<lambda>response.
     and_then (consume_events env (resp_result response) (resp_events response)
                 (ctx_messages ctx) None False) (\<lambda>(msgs, final).
     ret (ctx\<lparr>ctx_messages := msgs\<rparr>, final))))))"

section \<open>The loop\<close>

record 'w loop_state =
  ls_context :: "'w agent_context"
  ls_config :: "'w loop_config"
  ls_new :: "agent_message list"
  ls_pending :: "agent_message list"
  ls_first :: bool
  ls_more :: bool

datatype 'w turn_outcome = Finish "agent_message list" | Next_turn "'w loop_state"

text \<open>\<^verbatim>\<open>(await poll?.()) || []\<close>.\<close>

definition poll :: "('w, agent_message list) callback option \<Rightarrow> (agent_event, 'w, agent_message list) act" where
  "poll f = (case f of None \<Rightarrow> ret [] | Some g \<Rightarrow> call g)"

definition announce :: "'w tool_env \<Rightarrow> agent_message \<Rightarrow> (agent_event, 'w, unit) act" where
  "announce env m =
     and_then (emit (env_emit env) (Message_start m)) (\<lambda>_. emit (env_emit env) (Message_end m))"

definition end_agent ::
    "'w tool_env \<Rightarrow> agent_message list \<Rightarrow> (agent_event, 'w, agent_message list) act" where
  "end_agent env ms = and_then (emit (env_emit env) (Agent_end ms)) (\<lambda>_. ret ms)"

text \<open>The snapshot of \<^verbatim>\<open>prepareNextTurn\<close> applied to the context and the configuration.\<close>

definition next_reasoning :: "thinking_level option \<Rightarrow> thinking_level option \<Rightarrow> thinking_level option" where
  "next_reasoning new old =
     (case new of None \<Rightarrow> old | Some l \<Rightarrow> if l = TL_off then None else Some l)"

definition apply_update ::
    "'w turn_update option \<Rightarrow> 'w agent_context \<Rightarrow> 'w loop_config \<Rightarrow>
     'w agent_context \<times> 'w loop_config" where
  "apply_update u ctx cfg =
     (case u of
        None \<Rightarrow> (ctx, cfg)
      | Some x \<Rightarrow>
          (nullish (upd_context x) ctx,
           cfg\<lparr>lc_model := nullish (upd_model x) (lc_model cfg),
               lc_reasoning := next_reasoning (upd_thinkingLevel x) (lc_reasoning cfg)\<rparr>))"

text \<open>A turn from the response on: its tool calls, \<^verbatim>\<open>turn_end\<close>, and the hooks between turns.\<close>

definition after_response ::
    "'w tool_env \<Rightarrow> 'w agent_context \<Rightarrow> 'w loop_config \<Rightarrow> agent_message list \<Rightarrow>
     assistant_message \<Rightarrow> (agent_event, 'w, 'w turn_outcome) act" where
  "after_response env ctx cfg newMessages message =
     (if am_stopReason message = SR_error \<or> am_stopReason message = SR_aborted then
        and_then (emit (env_emit env) (Turn_end (assistant_agent_message message) [])) (\<lambda>_.
        and_then (end_agent env newMessages) (\<lambda>ms. ret (Finish ms)))
      else
        and_then
          (if tool_calls_of (am_content message) = [] then ret ([], False)
           else and_then (executeToolCalls env (lc_tools cfg) ctx message) (\<lambda>batch.
                ret (batch_messages batch, \<not> batch_terminate batch)))
          (\<lambda>(results, more).
        let rs = map tool_result_agent_message results;
            ctx' = ctx\<lparr>ctx_messages := ctx_messages ctx @ rs\<rparr>;
            new' = newMessages @ rs in
        and_then (emit (env_emit env) (Turn_end (assistant_agent_message message) results)) (\<lambda>_.
        and_then (case lc_prepareNextTurn cfg of
                    None \<Rightarrow> ret None
                  | Some f \<Rightarrow> call (f \<lparr>tcx_message = message, tcx_toolResults = results,
                                       tcx_context = ctx', tcx_newMessages = new'\<rparr>)) (\<lambda>u.
        case apply_update u ctx' cfg of (ctx2, cfg2) \<Rightarrow>
        and_then (case lc_shouldStopAfterTurn cfg2 of
                    None \<Rightarrow> ret False
                  | Some f \<Rightarrow> call (f \<lparr>tcx_message = message, tcx_toolResults = results,
                                       tcx_context = ctx2, tcx_newMessages = new'\<rparr>)) (\<lambda>stop.
        if stop then and_then (end_agent env new') (\<lambda>ms. ret (Finish ms))
        else and_then (poll (lc_getSteeringMessages cfg2)) (\<lambda>pending.
          ret (Next_turn \<lparr>ls_context = ctx2, ls_config = cfg2, ls_new = new', ls_pending = pending,
                          ls_first = False, ls_more = more\<rparr>)))))))"

definition loop_turn ::
    "'w tool_env \<Rightarrow> 'w stream_fn \<Rightarrow> 'w loop_state \<Rightarrow> (agent_event, 'w, 'w turn_outcome) act" where
  "loop_turn env streamFn st =
     and_then (if ls_first st then ret () else emit (env_emit env) Turn_start) (\<lambda>_.
     and_then (for_each (ls_pending st) (announce env)) (\<lambda>_.
     let ctx = (ls_context st)\<lparr>ctx_messages := ctx_messages (ls_context st) @ ls_pending st\<rparr>;
         new = ls_new st @ ls_pending st in
     and_then (streamAssistantResponse env streamFn ctx (ls_config st)) (\<lambda>(ctx', message).
     after_response env ctx' (ls_config st) (new @ [assistant_agent_message message]) message)))"

text \<open>What remains of an iteration of the outer loop once the inner loop has ended.\<close>

definition loop_follow_up ::
    "'w tool_env \<Rightarrow> 'w loop_state \<Rightarrow> (agent_event, 'w, 'w turn_outcome) act" where
  "loop_follow_up env st =
     and_then (poll (lc_getFollowUpMessages (ls_config st))) (\<lambda>followUps.
     if followUps \<noteq> [] then ret (Next_turn (st\<lparr>ls_pending := followUps, ls_more := True\<rparr>))
     else and_then (end_agent env (ls_new st)) (\<lambda>ms. ret (Finish ms)))"

definition loop_step ::
    "'w tool_env \<Rightarrow> 'w stream_fn \<Rightarrow> 'w loop_state \<Rightarrow> (agent_event, 'w, 'w turn_outcome) act" where
  "loop_step env streamFn st =
     (if ls_more st \<or> ls_pending st \<noteq> [] then loop_turn env streamFn st else loop_follow_up env st)"

fun run_loop ::
    "nat \<Rightarrow> 'w tool_env \<Rightarrow> 'w stream_fn \<Rightarrow> 'w loop_state \<Rightarrow> (agent_event, 'w) rt \<Rightarrow>
     ((jerror + agent_message list) \<times> (agent_event, 'w) rt) option" where
  "run_loop 0 env streamFn st s = None"
| "run_loop (Suc n) env streamFn st s =
     (case loop_step env streamFn st s of
        (Inl e, s') \<Rightarrow> Some (Inl e, s')
      | (Inr (Finish ms), s') \<Rightarrow> Some (Inr ms, s')
      | (Inr (Next_turn st'), s') \<Rightarrow> run_loop n env streamFn st' s')"

text \<open>\<^verbatim>\<open>runLoop\<close>: the initial steering poll, then the loop. It returns \<^verbatim>\<open>newMessages\<close>.\<close>

definition runLoop ::
    "nat \<Rightarrow> 'w tool_env \<Rightarrow> 'w stream_fn \<Rightarrow> 'w agent_context \<Rightarrow> agent_message list \<Rightarrow> 'w loop_config \<Rightarrow>
     (agent_event, 'w) rt \<Rightarrow> ((jerror + agent_message list) \<times> (agent_event, 'w) rt) option" where
  "runLoop n env streamFn ctx newMessages cfg s =
     (case poll (lc_getSteeringMessages cfg) s of
        (Inl e, s') \<Rightarrow> Some (Inl e, s')
      | (Inr pending, s') \<Rightarrow>
          run_loop n env streamFn \<lparr>ls_context = ctx, ls_config = cfg, ls_new = newMessages,
             ls_pending = pending, ls_first = True, ls_more = True\<rparr> s')"

text \<open>The events before the loop.\<close>

definition open_run :: "'w tool_env \<Rightarrow> agent_message list \<Rightarrow> (agent_event, 'w, unit) act" where
  "open_run env prompts =
     and_then (emit (env_emit env) Agent_start) (\<lambda>_.
     and_then (emit (env_emit env) Turn_start) (\<lambda>_.
     for_each prompts (announce env)))"

definition runAgentLoop ::
    "nat \<Rightarrow> 'w tool_env \<Rightarrow> 'w stream_fn \<Rightarrow> agent_message list \<Rightarrow> 'w agent_context \<Rightarrow> 'w loop_config \<Rightarrow>
     (agent_event, 'w) rt \<Rightarrow> ((jerror + agent_message list) \<times> (agent_event, 'w) rt) option" where
  "runAgentLoop n env streamFn prompts ctx cfg s =
     (let current = ctx\<lparr>ctx_messages := ctx_messages ctx @ prompts\<rparr> in
      case open_run env prompts s of
        (Inl e, s') \<Rightarrow> Some (Inl e, s')
      | (Inr _, s') \<Rightarrow> runLoop n env streamFn current prompts cfg s')"

fun is_assistant :: "agent_message \<Rightarrow> bool" where
  "is_assistant (Llm (AssistantM m)) = True"
| "is_assistant _ = False"

text \<open>The guards of both continuation entry points.\<close>

definition check_continue :: "'w agent_context \<Rightarrow> jerror option" where
  "check_continue ctx =
     (case last_opt (ctx_messages ctx) of
        None \<Rightarrow> Some (js ''Cannot continue: no messages in context'')
      | Some m \<Rightarrow>
          if is_assistant m then Some (js ''Cannot continue from message role: assistant'') else None)"

definition runAgentLoopContinue ::
    "nat \<Rightarrow> 'w tool_env \<Rightarrow> 'w stream_fn \<Rightarrow> 'w agent_context \<Rightarrow> 'w loop_config \<Rightarrow>
     (agent_event, 'w) rt \<Rightarrow> ((jerror + agent_message list) \<times> (agent_event, 'w) rt) option" where
  "runAgentLoopContinue n env streamFn ctx cfg s =
     (case check_continue ctx of
        Some e \<Rightarrow> Some (Inl e, s)
      | None \<Rightarrow>
          (case open_run env [] s of
             (Inl e, s') \<Rightarrow> Some (Inl e, s')
           | (Inr _, s') \<Rightarrow> runLoop n env streamFn ctx [] cfg s'))"

section \<open>The trace of the loop\<close>

definition at_phase :: "life \<Rightarrow> agent_message list \<Rightarrow> protocol \<Rightarrow> bool" where
  "at_phase l L q \<longleftrightarrow> pr_life q = l \<and> pr_open q = {#} \<and> pr_log q = L"

lemma phased_poll: "(\<And>a. Q a q) \<Longrightarrow> phased \<delta> q (poll f) Q"
  unfolding poll_def by (auto intro: phased_ret phased_call split: option.splits)

lemma phased_announce:
  "at_phase InTurn L q \<Longrightarrow>
   phased protocol_step q (announce env m) (\<lambda>_. at_phase InTurn (L @ [m]))"
  unfolding announce_def at_phase_def
  by (rule phased_and_then [OF phased_emit [where q = "q\<lparr>pr_life := InMessage\<rparr>"
        and Q = "\<lambda>_ r. r = q\<lparr>pr_life := InMessage\<rparr>"]])
    (auto intro!: phased_emit)

lemma phased_announce_all:
  "at_phase InTurn L q \<Longrightarrow>
   phased protocol_step q (for_each ms (announce env)) (\<lambda>_. at_phase InTurn (L @ ms))"
  by (rule phased_for_each [where I = "\<lambda>ds. at_phase InTurn (L @ ds)"])
    (auto intro: phased_mono [OF phased_announce])

lemma phased_end_agent:
  "at_phase Between L q \<Longrightarrow>
   phased protocol_step q (end_agent env L) (\<lambda>ms r. ms = L \<and> at_phase Over L r)"
  unfolding end_agent_def at_phase_def
  by (rule phased_and_then [OF phased_emit [where q = "q\<lparr>pr_life := Over\<rparr>"
        and Q = "\<lambda>_ r. r = q\<lparr>pr_life := Over\<rparr>"]])
    (auto intro: phased_ret)

lemma phased_finish_response:
  assumes "at_phase (if added then InMessage else InTurn) L q"
  shows "phased protocol_step q (finish_response env result msgs added)
    (\<lambda>(ms, final). at_phase InTurn (L @ [assistant_agent_message final]))"
proof (cases result)
  case (Inl e)
  then show ?thesis by (simp add: finish_response_def phased_throw)
next
  case (Inr final)
  let ?fm = "assistant_agent_message final"
  have start: "phased protocol_step q
      (if added then ret () else emit (env_emit env) (Message_start ?fm)) (\<lambda>_. at_phase InMessage L)"
    using assms by (auto simp: at_phase_def intro!: phased_ret phased_emit)
  have stop: "at_phase InMessage L r \<Longrightarrow>
      phased protocol_step r (emit (env_emit env) (Message_end ?fm)) (\<lambda>_. at_phase InTurn (L @ [?fm]))" for r
    by (auto simp: at_phase_def intro!: phased_emit)
  show ?thesis
    unfolding finish_response_def Inr sum.case Let_def
    by (intro phased_and_then [OF start] phased_and_then [OF stop]) (auto intro: phased_ret)
qed

lemma phased_consume_events:
  assumes "at_phase (if added then InMessage else InTurn) L q" and "added \<longleftrightarrow> partial \<noteq> None"
  shows "phased protocol_step q (consume_events env result evs msgs partial added)
    (\<lambda>(ms, final). at_phase InTurn (L @ [assistant_agent_message final]))"
  using assms
proof (induction evs arbitrary: q msgs partial added)
  case Nil
  then show ?case by (simp add: phased_finish_response)
next
  case (Cons ev evs)
  show ?case
  proof (cases "assistant_is_complete ev")
    case True
    with Cons.prems show ?thesis by (cases ev) (simp_all add: phased_finish_response)
  next
    case inc: False
    show ?thesis
    proof (cases "\<exists>p. ev = Ev_start p")
      case True
      then obtain p where ev: "ev = Ev_start p" by blast
      show ?thesis
        unfolding ev consume_events.simps assistant_event.case
      proof (rule phased_and_then [where Q = "\<lambda>_. at_phase InMessage L"])
        show "phased protocol_step q (emit (env_emit env) (Message_start (assistant_agent_message p)))
            (\<lambda>_. at_phase InMessage L)"
          using Cons.prems by (auto simp: at_phase_def intro!: phased_emit split: if_splits)
      qed (simp add: Cons.IH)
    next
      case False
      have shape: "consume_events env result (ev # evs) msgs partial added =
          (case partial of
             None \<Rightarrow> consume_events env result evs msgs partial added
           | Some _ \<Rightarrow>
               and_then (emit (env_emit env)
                   (Message_update (assistant_agent_message (ev_partial ev)) ev)) (\<lambda>_.
                 consume_events env result evs
                   (replace_last msgs (assistant_agent_message (ev_partial ev))) (Some (ev_partial ev)) added))"
        using inc False by (cases partial; cases ev) (simp_all add: Let_def)
      show ?thesis
      proof (cases partial)
        case None
        with Cons.prems shape show ?thesis by (simp add: Cons.IH)
      next
        case (Some x)
        show ?thesis
          unfolding shape unfolding Some option.case
        proof (rule phased_and_then [where Q = "\<lambda>_. at_phase InMessage L"])
          show "phased protocol_step q (emit (env_emit env)
              (Message_update (assistant_agent_message (ev_partial ev)) ev)) (\<lambda>_. at_phase InMessage L)"
            using Cons.prems Some by (auto simp: at_phase_def intro!: phased_emit)
        qed (use Cons.prems Some in \<open>simp add: Cons.IH\<close>)
      qed
    qed
  qed
qed

lemma phased_resolve_api_key: "(\<And>k. Q k q) \<Longrightarrow> phased \<delta> q (resolve_api_key cfg) Q"
  unfolding resolve_api_key_def
  by (rule phased_and_then [where Q = "\<lambda>_ r. r = q"])
    (auto intro: phased_ret phased_call split: option.splits)

lemma phased_streamAssistantResponse:
  assumes "at_phase InTurn L q"
  shows "phased protocol_step q (streamAssistantResponse env sf ctx cfg)
    (\<lambda>(ctx', final). at_phase InTurn (L @ [assistant_agent_message final]))"
  unfolding streamAssistantResponse_def Let_def
proof (rule phased_and_then [where Q = "\<lambda>_ r. r = q"])
  show "phased protocol_step q (case lc_transformContext cfg of None \<Rightarrow> ret (ctx_messages ctx)
      | Some f \<Rightarrow> call (f (ctx_messages ctx))) (\<lambda>_ r. r = q)"
    by (auto intro: phased_ret phased_call split: option.splits)
next
  fix messages r assume r: "r = q"
  have consume: "phased protocol_step q
      (and_then (consume_events env (resp_result x) (resp_events x) (ctx_messages ctx) None False)
         (\<lambda>(msgs, final). ret (ctx\<lparr>ctx_messages := msgs\<rparr>, final)))
      (\<lambda>(ctx', final). at_phase InTurn (L @ [assistant_agent_message final]))" for x
    by (rule phased_and_then [OF phased_consume_events [where L = L]])
      (use assms in \<open>auto intro!: phased_ret\<close>)
  show "phased protocol_step r (and_then (call (lc_convertToLlm cfg messages)) (\<lambda>llmMessages.
       and_then (resolve_api_key cfg) (\<lambda>key.
       and_then (call (sf (lc_model cfg) \<lparr>llm_systemPrompt = ctx_systemPrompt ctx,
           llm_messages = llmMessages, llm_tools = ctx_tools ctx\<rparr> (cfg\<lparr>lc_apiKey := key\<rparr>))) (\<lambda>response.
       and_then (consume_events env (resp_result response) (resp_events response) (ctx_messages ctx) None False)
         (\<lambda>(msgs, final). ret (ctx\<lparr>ctx_messages := msgs\<rparr>, final))))))
     (\<lambda>(ctx', final). at_phase InTurn (L @ [assistant_agent_message final]))"
    unfolding r
    by (rule phased_and_then [OF phased_call [where Q = "\<lambda>_ r. r = q"]], simp,
        rule phased_and_then [OF phased_resolve_api_key [where Q = "\<lambda>_ r. r = q"]], simp,
        rule phased_and_then [OF phased_call [where Q = "\<lambda>_ r. r = q"]], simp) (simp add: consume)
qed

text \<open>The phase of a loop state: where its next event is in order.\<close>

definition loop_phase :: "'w loop_state \<Rightarrow> protocol \<Rightarrow> bool" where
  "loop_phase st q \<longleftrightarrow>
     at_phase (if ls_first st then InTurn else Between) (ls_new st) q \<and> (ls_first st \<longrightarrow> ls_more st)"

definition outcome_phase :: "'w turn_outcome \<Rightarrow> protocol \<Rightarrow> bool" where
  "outcome_phase r q =
     (case r of Finish ms \<Rightarrow> at_phase Over ms q | Next_turn st \<Rightarrow> loop_phase st q)"

lemma phased_finish:
  "at_phase Between L q \<Longrightarrow>
   phased protocol_step q (and_then (end_agent env L) (\<lambda>ms. ret (Finish ms))) outcome_phase"
  by (rule phased_and_then [OF phased_end_agent])
    (auto intro!: phased_ret simp: outcome_phase_def)

lemma phased_turn_end:
  "at_phase InTurn (L @ m # map (\<lambda>r. Llm (ToolResultM r)) rs) q \<Longrightarrow>
   phased protocol_step q (emit sink (Turn_end m rs))
     (\<lambda>_. at_phase Between (L @ m # map (\<lambda>r. Llm (ToolResultM r)) rs))"
  by (rule phased_emit [where q = "q\<lparr>pr_life := Between\<rparr>"]) (auto simp: at_phase_def suffix_def)

lemma phased_results:
  assumes "at_phase InTurn L q"
  shows "phased protocol_step q
     (if tool_calls_of (am_content message) = [] then ret ([], False)
      else and_then (executeToolCalls env cfg ctx message) (\<lambda>batch.
           ret (batch_messages batch, \<not> batch_terminate batch)))
     (\<lambda>(results, more). at_phase InTurn (L @ map tool_result_agent_message results))"
proof (cases "tool_calls_of (am_content message) = []")
  case True
  with assms show ?thesis by (simp add: phased_ret)
next
  case False
  from assms have q: "q = in_turn {#} (pr_started q) L" by (simp add: at_phase_def)
  have "phased protocol_step q
     (and_then (executeToolCalls env cfg ctx message) (\<lambda>batch.
        ret (batch_messages batch, \<not> batch_terminate batch)))
     (\<lambda>(results, more). at_phase InTurn (L @ map tool_result_agent_message results))"
    by (subst q, rule phased_and_then [OF phased_executeToolCalls])
      (auto intro!: phased_ret simp: at_phase_def)
  with False show ?thesis by simp
qed

lemma phased_hook:
  "phased \<delta> q (case f of None \<Rightarrow> ret d | Some g \<Rightarrow> call (g x)) (\<lambda>_ r. r = q)"
  by (auto intro: phased_ret phased_call split: option.splits)

lemma tool_result_map: "map tool_result_agent_message rs = map (\<lambda>r. Llm (ToolResultM r)) rs"
  by (simp add: tool_result_agent_message_def)

lemma phased_after_response:
  assumes "at_phase InTurn (L @ [assistant_agent_message message]) q"
  shows "phased protocol_step q
    (after_response env ctx cfg (L @ [assistant_agent_message message]) message) outcome_phase"
proof (cases "am_stopReason message = SR_error \<or> am_stopReason message = SR_aborted")
  case True
  from phased_turn_end [of L "assistant_agent_message message" "[]" q "env_emit env"] assms
  have "phased protocol_step q (emit (env_emit env) (Turn_end (assistant_agent_message message) []))
      (\<lambda>_. at_phase Between (L @ [assistant_agent_message message]))" by simp
  then show ?thesis
    unfolding after_response_def if_P [OF True]
    by (rule phased_and_then) (auto intro: phased_finish)
next
  case False
  let ?m = "assistant_agent_message message"
  show ?thesis
    unfolding after_response_def if_not_P [OF False]
  proof (rule phased_and_then [OF phased_results [OF assms]], clarsimp simp: Let_def simp del: append_assoc)
    fix results more r
    let ?new = "(L @ [?m]) @ map tool_result_agent_message results"
    assume "at_phase InTurn ?new r"
    then have turn_end: "phased protocol_step r (emit (env_emit env) (Turn_end ?m results))
        (\<lambda>_. at_phase Between ?new)"
      using phased_turn_end [of L ?m results r "env_emit env"] by (simp add: tool_result_map)
    let ?ctx = "ctx\<lparr>ctx_messages := ctx_messages ctx @ map tool_result_agent_message results\<rparr>"
    show "phased protocol_step r
      (and_then (emit (env_emit env) (Turn_end ?m results)) (\<lambda>_.
       and_then (case lc_prepareNextTurn cfg of None \<Rightarrow> ret None
         | Some f \<Rightarrow> call (f \<lparr>tcx_message = message, tcx_toolResults = results,
              tcx_context = ?ctx, tcx_newMessages = ?new\<rparr>)) (\<lambda>u.
       case apply_update u ?ctx cfg of (ctx2, cfg2) \<Rightarrow>
       and_then (case lc_shouldStopAfterTurn cfg2 of None \<Rightarrow> ret False
         | Some f \<Rightarrow> call (f \<lparr>tcx_message = message, tcx_toolResults = results,
              tcx_context = ctx2, tcx_newMessages = ?new\<rparr>)) (\<lambda>stop.
       if stop then and_then (end_agent env ?new) (\<lambda>ms. ret (Finish ms))
       else and_then (poll (lc_getSteeringMessages cfg2)) (\<lambda>pending.
          ret (Next_turn \<lparr>ls_context = ctx2, ls_config = cfg2, ls_new = ?new, ls_pending = pending,
                          ls_first = False, ls_more = more\<rparr>))))))
      outcome_phase"
    proof (rule phased_and_then [OF turn_end], rule phased_and_then [OF phased_hook], clarsimp split: prod.splits simp del: append_assoc)
      fix p ctx2 cfg2 assume p: "at_phase Between ?new p"
      show "phased protocol_step p
        (and_then (case lc_shouldStopAfterTurn cfg2 of None \<Rightarrow> ret False
         | Some f \<Rightarrow> call (f \<lparr>tcx_message = message, tcx_toolResults = results,
              tcx_context = ctx2, tcx_newMessages = ?new\<rparr>)) (\<lambda>stop.
        if stop then and_then (end_agent env ?new) (\<lambda>ms. ret (Finish ms))
        else and_then (poll (lc_getSteeringMessages cfg2)) (\<lambda>pending.
          ret (Next_turn \<lparr>ls_context = ctx2, ls_config = cfg2, ls_new = ?new, ls_pending = pending,
                          ls_first = False, ls_more = more\<rparr>))))
        outcome_phase"
        by (rule phased_and_then [OF phased_hook])
          (use p in \<open>auto simp del: append_assoc intro!: phased_finish
             phased_and_then [OF phased_poll [where Q = "\<lambda>_ r. r = p"]] phased_ret
             simp: outcome_phase_def loop_phase_def\<close>)
    qed
  qed
qed

lemma phased_loop_turn:
  assumes "loop_phase st q"
  shows "phased protocol_step q (loop_turn env sf st) outcome_phase"
  unfolding loop_turn_def Let_def
proof (rule phased_and_then [where Q = "\<lambda>_. at_phase InTurn (ls_new st)"])
  show "phased protocol_step q (if ls_first st then ret () else emit (env_emit env) Turn_start)
      (\<lambda>_. at_phase InTurn (ls_new st))"
    using assms by (auto simp: loop_phase_def at_phase_def intro!: phased_ret phased_emit)
next
  fix u r assume r: "at_phase InTurn (ls_new st) r"
  show "phased protocol_step r (and_then (for_each (ls_pending st) (announce env)) (\<lambda>_.
      and_then (streamAssistantResponse env sf ((ls_context st)
          \<lparr>ctx_messages := ctx_messages (ls_context st) @ ls_pending st\<rparr>) (ls_config st)) (\<lambda>(ctx', message).
        after_response env ctx' (ls_config st)
          ((ls_new st @ ls_pending st) @ [assistant_agent_message message]) message))) outcome_phase"
    by (rule phased_and_then [OF phased_announce_all [OF r]],
        rule phased_and_then [OF phased_streamAssistantResponse])
      (auto simp del: append_assoc intro: phased_after_response)
qed

lemma phased_loop_follow_up:
  assumes "loop_phase st q" and "\<not> ls_more st"
  shows "phased protocol_step q (loop_follow_up env st) outcome_phase"
  unfolding loop_follow_up_def
  by (rule phased_and_then [OF phased_poll [where Q = "\<lambda>_ r. r = q"]])
    (use assms in \<open>auto intro!: phased_finish phased_ret simp: outcome_phase_def loop_phase_def\<close>)

lemma phased_loop_step:
  "loop_phase st q \<Longrightarrow> phased protocol_step q (loop_step env sf st) outcome_phase"
  unfolding loop_step_def by (auto intro: phased_loop_turn phased_loop_follow_up)

text \<open>
  \<open>traced\<close> is \<open>phased\<close> for a computation that may run out of fuel, given by its outcome.
\<close>

definition traced ::
    "protocol \<Rightarrow> (agent_event, 'w) rt \<Rightarrow> ((jerror + agent_message list) \<times> (agent_event, 'w) rt) option \<Rightarrow> bool" where
  "traced p s out \<longleftrightarrow>
     (case out of None \<Rightarrow> True
      | Some (r, s') \<Rightarrow> \<exists>ts q. emitted s' = emitted s @ ts \<and> accepts protocol_step p ts = Some q
          \<and> (case r of Inl _ \<Rightarrow> True | Inr ms \<Rightarrow> at_phase Over ms q))"

lemma traced_step:
  assumes "emitted s1 = emitted s @ us" and "accepts protocol_step p us = Some q"
    and "traced q s1 out"
  shows "traced p s out"
  using assms unfolding traced_def
  by (cases out) (force simp: accepts_append)+

lemma traced_stop:
  assumes "emitted s1 = emitted s @ us" and "accepts protocol_step p us = Some q"
  shows "traced p s (Some (Inl e, s1))"
  using assms by (auto simp: traced_def)

lemma traced_run_loop: "loop_phase st q \<Longrightarrow> traced q s (run_loop n env sf st s)"
proof (induction n arbitrary: st q s)
  case 0
  show ?case by (simp add: traced_def)
next
  case (Suc n)
  note step = phased_loop_step [OF Suc.prems, of env sf]
  obtain r s1 where run: "loop_step env sf st s = (r, s1)" by fastforce
  show ?case
  proof (cases r)
    case (Inl e)
    with phased_errD [OF step run [unfolded Inl]] run show ?thesis by (auto intro: traced_stop)
  next
    case (Inr x)
    from phased_okD [OF step run [unfolded Inr]] obtain us q' where
      us: "emitted s1 = emitted s @ us" "accepts protocol_step q us = Some q'" "outcome_phase x q'"
      by blast
    with run Inr show ?thesis
      by (cases x) (auto simp: outcome_phase_def traced_def
          intro: traced_step [OF us(1,2), unfolded traced_def] dest: Suc.IH [unfolded traced_def])
  qed
qed

lemma traced_runLoop:
  assumes "at_phase InTurn newMessages q"
  shows "traced q s (runLoop n env sf ctx newMessages cfg s)"
proof -
  obtain r s1 where run: "poll (lc_getSteeringMessages cfg) s = (r, s1)" by fastforce
  have silent: "phased protocol_step q (poll (lc_getSteeringMessages cfg)) (\<lambda>_ r. r = q)"
    by (rule phased_poll) simp
  show ?thesis
  proof (cases r)
    case (Inl e)
    with phased_errD [OF silent run [unfolded Inl]] run show ?thesis
      by (auto simp: runLoop_def intro: traced_stop)
  next
    case (Inr pending)
    from phased_okD [OF silent run [unfolded Inr]] obtain us where
      us: "emitted s1 = emitted s @ us" "accepts protocol_step q us = Some q" by blast
    have "loop_phase \<lparr>ls_context = ctx, ls_config = cfg, ls_new = newMessages,
             ls_pending = pending, ls_first = True, ls_more = True\<rparr> q"
      using assms by (simp add: loop_phase_def)
    from traced_step [OF us traced_run_loop [OF this]] run Inr show ?thesis
      by (simp add: runLoop_def)
  qed
qed

lemma phased_open_run:
  "phased protocol_step protocol_start (open_run env prompts) (\<lambda>_. at_phase InTurn prompts)"
  unfolding open_run_def
  by (rule phased_and_then [where Q = "\<lambda>_. at_phase Between []"],
      simp add: phased_emit protocol_start_def at_phase_def,
      rule phased_and_then [where Q = "\<lambda>_. at_phase InTurn []"])
    (auto simp: at_phase_def intro!: phased_emit
      phased_mono [OF phased_announce_all [of "[]", simplified]])

text \<open>Opening a run and going on with the loop.\<close>

lemma traced_open:
  assumes "\<And>s' q. at_phase InTurn prompts q \<Longrightarrow> traced q s' (rest s')"
  shows "traced protocol_start s
    (case open_run env prompts s of (Inl e, s') \<Rightarrow> Some (Inl e, s') | (Inr _, s') \<Rightarrow> rest s')"
proof -
  obtain r s1 where run: "open_run env prompts s = (r, s1)" by fastforce
  show ?thesis
  proof (cases r)
    case (Inl e)
    with phased_errD [OF phased_open_run run [unfolded Inl]] run show ?thesis
      by (auto intro: traced_stop)
  next
    case (Inr u)
    from phased_okD [OF phased_open_run run [unfolded Inr]] assms run Inr show ?thesis
      by (auto intro: traced_step)
  qed
qed

lemma traced_runAgentLoop:
  "traced protocol_start s (runAgentLoop n env sf prompts ctx cfg s)"
  unfolding runAgentLoop_def Let_def by (rule traced_open) (rule traced_runLoop)

lemma traced_runAgentLoopContinue:
  "traced protocol_start s (runAgentLoopContinue n env sf ctx cfg s)"
proof (cases "check_continue ctx")
  case None
  then show ?thesis
    unfolding runAgentLoopContinue_def None option.case by (intro traced_open traced_runLoop)
next
  case (Some e)
  then show ?thesis by (simp add: runAgentLoopContinue_def traced_def)
qed

section \<open>Laws of the world in the loop\<close>

definition poll_obeys ::
    "('w \<Rightarrow> agent_event list \<Rightarrow> 'w \<Rightarrow> bool) \<Rightarrow> ('w, 'a) callback option \<Rightarrow> bool" where
  "poll_obeys P f \<longleftrightarrow> (\<forall>g. f = Some g \<longrightarrow> callback_obeys P g)"

definition hook_obeys ::
    "('w \<Rightarrow> agent_event list \<Rightarrow> 'w \<Rightarrow> bool) \<Rightarrow> ('x \<Rightarrow> ('w, 'a) callback) option \<Rightarrow> bool" where
  "hook_obeys P f \<longleftrightarrow> (\<forall>g x. f = Some g \<longrightarrow> callback_obeys P (g x))"

definition loop_config_obeys ::
    "('w \<Rightarrow> agent_event list \<Rightarrow> 'w \<Rightarrow> bool) \<Rightarrow> 'w loop_config \<Rightarrow> bool" where
  "loop_config_obeys P cfg \<longleftrightarrow>
     tool_config_obeys P (lc_tools cfg)
   \<and> (\<forall>ms. callback_obeys P (lc_convertToLlm cfg ms))
   \<and> hook_obeys P (lc_transformContext cfg)
   \<and> hook_obeys P (lc_getApiKey cfg)
   \<and> hook_obeys P (lc_shouldStopAfterTurn cfg)
   \<and> hook_obeys P (lc_prepareNextTurn cfg)
   \<and> (\<forall>f x w u w' c. lc_prepareNextTurn cfg = Some f \<longrightarrow> f x w = (Inr (Some u), w') \<longrightarrow>
        upd_context u = Some c \<longrightarrow> tools_obey P c)
   \<and> poll_obeys P (lc_getSteeringMessages cfg)
   \<and> poll_obeys P (lc_getFollowUpMessages cfg)"

definition stream_fn_obeys ::
    "('w \<Rightarrow> agent_event list \<Rightarrow> 'w \<Rightarrow> bool) \<Rightarrow> 'w stream_fn \<Rightarrow> bool" where
  "stream_fn_obeys P sf \<longleftrightarrow> (\<forall>md c cfg. callback_obeys P (sf md c cfg))"

definition loop_state_obeys ::
    "('w \<Rightarrow> agent_event list \<Rightarrow> 'w \<Rightarrow> bool) \<Rightarrow> 'w loop_state \<Rightarrow> bool" where
  "loop_state_obeys P st \<longleftrightarrow> loop_config_obeys P (ls_config st) \<and> tools_obey P (ls_context st)"

lemma tools_obey_messages [simp]: "tools_obey P (c\<lparr>ctx_messages := ms\<rparr>) = tools_obey P c"
  by (simp add: tools_obey_def)

lemma loop_config_obeys_update [simp]:
  "loop_config_obeys P (cfg\<lparr>lc_model := m, lc_reasoning := r\<rparr>) = loop_config_obeys P cfg"
  by (simp add: loop_config_obeys_def)

lemma apply_update_config:
  assumes "apply_update u ctx cfg = (ctx', cfg')"
  shows "\<exists>m r. cfg' = cfg\<lparr>lc_model := m, lc_reasoning := r\<rparr>"
proof (cases u)
  case None
  with assms have "cfg' = cfg\<lparr>lc_model := lc_model cfg, lc_reasoning := lc_reasoning cfg\<rparr>"
    by (simp add: apply_update_def)
  then show ?thesis by blast
next
  case (Some x)
  with assms show ?thesis by (auto simp: apply_update_def)
qed

lemma apply_update_context:
  assumes "apply_update u ctx cfg = (ctx', cfg')"
  obtains "ctx' = ctx" | x where "u = Some x" and "upd_context x = Some ctx'"
proof (cases u)
  case None
  with assms that(1) show thesis by (simp add: apply_update_def)
next
  case (Some x)
  with assms that show thesis by (cases "upd_context x") (auto simp: apply_update_def)
qed

text \<open>How a turn that is not the last goes after the response.\<close>

lemma after_response_NextE:
  assumes "after_response env ctx cfg new m s = (Inr (Next_turn st), s')"
  obtains results more s1 s2 u s3 ctx2 cfg2 s4 pending where
    "am_stopReason m \<noteq> SR_error" and "am_stopReason m \<noteq> SR_aborted"
    and "(if tool_calls_of (am_content m) = [] then ret ([], False)
       else and_then (executeToolCalls env (lc_tools cfg) ctx m) (\<lambda>batch.
         ret (batch_messages batch, \<not> batch_terminate batch))) s = (Inr (results, more), s1)"
    and "emit (env_emit env) (Turn_end (assistant_agent_message m) results) s1 = (Inr (), s2)"
    and "(case lc_prepareNextTurn cfg of None \<Rightarrow> ret None
         | Some f \<Rightarrow> call (f \<lparr>tcx_message = m, tcx_toolResults = results,
             tcx_context = ctx\<lparr>ctx_messages := ctx_messages ctx @ map tool_result_agent_message results\<rparr>,
             tcx_newMessages = new @ map tool_result_agent_message results\<rparr>)) s2 = (Inr u, s3)"
    and "apply_update u (ctx\<lparr>ctx_messages := ctx_messages ctx @ map tool_result_agent_message results\<rparr>) cfg
          = (ctx2, cfg2)"
    and "(case lc_shouldStopAfterTurn cfg2 of None \<Rightarrow> ret False
         | Some f \<Rightarrow> call (f \<lparr>tcx_message = m, tcx_toolResults = results, tcx_context = ctx2,
             tcx_newMessages = new @ map tool_result_agent_message results\<rparr>)) s3 = (Inr False, s4)"
    and "poll (lc_getSteeringMessages cfg2) s4 = (Inr pending, s')"
    and "st = \<lparr>ls_context = ctx2, ls_config = cfg2, ls_new = new @ map tool_result_agent_message results,
          ls_pending = pending, ls_first = False, ls_more = more\<rparr>"
proof (cases "am_stopReason m = SR_error \<or> am_stopReason m = SR_aborted")
  case True
  with assms show thesis
    unfolding after_response_def if_P [OF True] by (elim and_then_InrE) (auto dest!: ret_InrD)
next
  case False
  note run = assms [unfolded after_response_def if_not_P [OF False] Let_def]
  from run show thesis
  proof (elim and_then_InrE, goal_cases)
    case (1 a s1)
    obtain results more where a: "a = (results, more)" by fastforce
    from 1(2) [unfolded a prod.case] show ?case
    proof (elim and_then_InrE, goal_cases)
      case (1 v s2 u s3)
      obtain ctx2 cfg2 where u: "apply_update u (ctx\<lparr>ctx_messages :=
          ctx_messages ctx @ map tool_result_agent_message results\<rparr>) cfg = (ctx2, cfg2)" by fastforce
      from 1(3) [unfolded u prod.case] show ?case
      proof (elim and_then_InrE, goal_cases)
        case (1 stop s4)
        show ?case
        proof (cases stop)
          case True
          with 1(2) show ?thesis by (auto elim!: and_then_InrE dest!: ret_InrD)
        next
          case no: False
          then have no': "stop = False" by simp
          from 1(2) [unfolded no' if_False] show ?thesis
            by (rule and_then_InrE)
              (use that False \<open>_ = (Inr a, s1)\<close> a \<open>_ = (Inr v, s2)\<close> \<open>_ = (Inr u, s3)\<close> u 1(1) no'
                in \<open>auto dest!: ret_InrD\<close>)
        qed
      qed
    qed
  qed
qed

lemma streamAssistantResponse_tools:
  "streamAssistantResponse env sf ctx cfg s = (Inr (ctx', m), s') \<Longrightarrow> \<exists>ms. ctx' = ctx\<lparr>ctx_messages := ms\<rparr>"
  unfolding streamAssistantResponse_def Let_def
  by (elim and_then_InrE) (auto dest!: ret_InrD split: prod.splits)

lemma loop_turn_NextE:
  assumes "loop_turn env sf st s = (Inr (Next_turn st'), s')"
  obtains s0 s1 s2 ctx' m where
    "(if ls_first st then ret () else emit (env_emit env) Turn_start) s = (Inr (), s0)"
    and "for_each (ls_pending st) (announce env) s0 = (Inr (), s1)"
    and "streamAssistantResponse env sf ((ls_context st)\<lparr>ctx_messages :=
       ctx_messages (ls_context st) @ ls_pending st\<rparr>) (ls_config st) s1 = (Inr (ctx', m), s2)"
    and "after_response env ctx' (ls_config st)
       ((ls_new st @ ls_pending st) @ [assistant_agent_message m]) m s2 = (Inr (Next_turn st'), s')"
  using assms that unfolding loop_turn_def Let_def
  by (elim and_then_InrE) (auto simp del: append_assoc split: prod.splits)

context agent_law
begin

lemma obeys_poll: "poll_obeys P f \<Longrightarrow> obeys P (poll f)"
  unfolding poll_def poll_obeys_def by (auto intro: obeys_ret obeys_call split: option.splits)

lemma obeys_hook: "hook_obeys P f \<Longrightarrow> obeys P (case f of None \<Rightarrow> ret d | Some g \<Rightarrow> call (g x))"
  unfolding hook_obeys_def by (auto intro: obeys_ret obeys_call split: option.splits)

lemma obeys_announce: "sink_obeys P (env_emit env) \<Longrightarrow> obeys P (announce env m)"
  unfolding announce_def by (auto intro!: obeys_intros)

lemma obeys_end_agent: "sink_obeys P (env_emit env) \<Longrightarrow> obeys P (end_agent env ms)"
  unfolding end_agent_def by (auto intro!: obeys_intros)

lemma obeys_finish_response:
  "sink_obeys P (env_emit env) \<Longrightarrow> obeys P (finish_response env result msgs added)"
  unfolding finish_response_def Let_def by (auto intro!: obeys_intros split: sum.splits)

lemma obeys_consume_events:
  "sink_obeys P (env_emit env) \<Longrightarrow> obeys P (consume_events env result evs msgs partial added)"
proof (induction evs arbitrary: msgs partial added)
  case Nil
  then show ?case by (simp add: obeys_finish_response)
next
  case (Cons ev evs)
  then show ?case
    by (cases ev; cases partial)
      (simp_all add: Let_def obeys_finish_response obeys_and_then obeys_emit)
qed

lemma obeys_streamAssistantResponse:
  assumes "sink_obeys P (env_emit env)" "loop_config_obeys P cfg" "stream_fn_obeys P sf"
  shows "obeys P (streamAssistantResponse env sf ctx cfg)"
  unfolding streamAssistantResponse_def resolve_api_key_def Let_def
  using assms unfolding loop_config_obeys_def stream_fn_obeys_def
  by (intro obeys_and_then obeys_hook) (auto intro!: obeys_and_then obeys_hook obeys_call obeys_ret obeys_consume_events)

lemma obeys_after_response:
  assumes "sink_obeys P (env_emit env)" "loop_config_obeys P cfg" "tools_obey P ctx"
  shows "obeys P (after_response env ctx cfg new m)"
proof -
  have hooks: "hook_obeys P (lc_prepareNextTurn cfg)"
    using assms(2) by (simp add: loop_config_obeys_def)
  have upd: "hook_obeys P (lc_shouldStopAfterTurn cfg') \<and> poll_obeys P (lc_getSteeringMessages cfg')"
    if "apply_update u c cfg = (c', cfg')" for u c c' cfg'
    using apply_update_config [OF that] assms(2) by (auto simp: loop_config_obeys_def)
  have calls: "obeys P (executeToolCalls env (lc_tools cfg) ctx m)"
    using assms by (intro obeys_executeToolCalls) (simp_all add: loop_config_obeys_def)
  show ?thesis
    unfolding after_response_def Let_def
    using assms(1) upd
    by (auto intro!: obeys_and_then obeys_emit obeys_end_agent obeys_ret obeys_poll obeys_hook hooks calls
        simp del: append_assoc split: prod.splits)
qed

lemma obeys_loop_step:
  assumes "sink_obeys P (env_emit env)" "stream_fn_obeys P sf" "loop_state_obeys P st"
  shows "obeys P (loop_step env sf st)"
proof -
  have follow: "obeys P (loop_follow_up env st)"
    unfolding loop_follow_up_def using assms
    by (auto simp: loop_state_obeys_def loop_config_obeys_def
        intro!: obeys_and_then obeys_poll obeys_end_agent obeys_ret)
  let ?ctx = "(ls_context st)\<lparr>ctx_messages := ctx_messages (ls_context st) @ ls_pending st\<rparr>"
  have respond: "obeys P (and_then (streamAssistantResponse env sf ?ctx (ls_config st)) (\<lambda>(ctx', message).
      after_response env ctx' (ls_config st)
        ((ls_new st @ ls_pending st) @ [assistant_agent_message message]) message))"
    by (rule obeys_and_then_res [OF obeys_streamAssistantResponse])
      (use assms in \<open>auto simp: loop_state_obeys_def simp del: append_assoc
        dest!: streamAssistantResponse_tools intro!: obeys_after_response\<close>)
  have "obeys P (loop_turn env sf st)"
    unfolding loop_turn_def Let_def
    by (intro obeys_and_then obeys_for_each obeys_announce respond assms(1))
      (auto intro: obeys_ret obeys_emit assms(1))
  with follow show ?thesis by (simp add: loop_step_def)
qed

lemma after_response_state:
  assumes "loop_config_obeys P cfg" "tools_obey P ctx"
    and "after_response env ctx cfg new m s = (Inr (Next_turn st), s')"
  shows "loop_state_obeys P st"
  using assms(3)
proof (rule after_response_NextE)
  fix results more s1 s2 u s3 ctx2 cfg2 s4 pending
  let ?ctx = "ctx\<lparr>ctx_messages := ctx_messages ctx @ map tool_result_agent_message results\<rparr>"
  assume hook: "(case lc_prepareNextTurn cfg of None \<Rightarrow> ret None
       | Some f \<Rightarrow> call (f \<lparr>tcx_message = m, tcx_toolResults = results, tcx_context = ?ctx,
           tcx_newMessages = new @ map tool_result_agent_message results\<rparr>)) s2 = (Inr u, s3)"
    and upd: "apply_update u ?ctx cfg = (ctx2, cfg2)"
    and st: "st = \<lparr>ls_context = ctx2, ls_config = cfg2,
          ls_new = new @ map tool_result_agent_message results,
          ls_pending = pending, ls_first = False, ls_more = more\<rparr>"
  have "tools_obey P ctx2"
    using upd
  proof (rule apply_update_context)
    assume "ctx2 = ?ctx"
    with assms(2) show ?thesis by simp
  next
    fix x assume x: "u = Some x" "upd_context x = Some ctx2"
    with hook obtain f y w where f: "lc_prepareNextTurn cfg = Some f" "f y (world s2) = (Inr (Some x), w)"
      by (cases "lc_prepareNextTurn cfg") (auto dest: ret_InrD elim!: call_InrE)
    have "\<forall>f x w u w' c. lc_prepareNextTurn cfg = Some f \<longrightarrow> f x w = (Inr (Some u), w') \<longrightarrow>
        upd_context u = Some c \<longrightarrow> tools_obey P c"
      using assms(1) unfolding loop_config_obeys_def by blast
    with f x show ?thesis by blast
  qed
  with apply_update_config [OF upd] assms(1) st show ?thesis
    by (auto simp: loop_state_obeys_def)
qed

lemma loop_step_state:
  assumes "loop_state_obeys P st" and "loop_step env sf st s = (Inr (Next_turn st'), s')"
  shows "loop_state_obeys P st'"
proof (cases "ls_more st \<or> ls_pending st \<noteq> []")
  case True
  with assms(2) have "loop_turn env sf st s = (Inr (Next_turn st'), s')" by (simp add: loop_step_def)
  then show ?thesis
  proof (rule loop_turn_NextE)
    fix s0 s1 s2 ctx' m
    assume stream: "streamAssistantResponse env sf ((ls_context st)\<lparr>ctx_messages :=
       ctx_messages (ls_context st) @ ls_pending st\<rparr>) (ls_config st) s1 = (Inr (ctx', m), s2)"
      and after: "after_response env ctx' (ls_config st)
       ((ls_new st @ ls_pending st) @ [assistant_agent_message m]) m s2 = (Inr (Next_turn st'), s')"
    from stream assms(1) have "tools_obey P ctx'"
      by (auto simp: loop_state_obeys_def dest!: streamAssistantResponse_tools)
    moreover from assms(1) have "loop_config_obeys P (ls_config st)"
      by (simp add: loop_state_obeys_def)
    ultimately show ?thesis by (intro after_response_state [OF _ _ after])
  qed
next
  case False
  with assms show ?thesis
    by (auto simp: loop_step_def loop_follow_up_def loop_state_obeys_def
        elim!: and_then_InrE dest!: ret_InrD split: if_splits)
qed

lemma run_loop_obeys:
  assumes "sink_obeys P (env_emit env)" "stream_fn_obeys P sf" "loop_state_obeys P st"
    and "run_loop n env sf st s = Some (r, s')"
  shows "\<exists>ts. emitted s' = emitted s @ ts \<and> P (world s) ts (world s')"
  using assms(3,4)
proof (induction n arbitrary: st s)
  case 0
  then show ?case by simp
next
  case (Suc n)
  obtain x s1 where run: "loop_step env sf st s = (x, s1)" by fastforce
  from obeysD [OF obeys_loop_step [OF assms(1,2) Suc.prems(1)] run] obtain us where
    us: "emitted s1 = emitted s @ us" "P (world s) us (world s1)" by blast
  show ?case
  proof (cases "\<exists>st'. x = Inr (Next_turn st')")
    case True
    then obtain st' where x: "x = Inr (Next_turn st')" by blast
    from Suc.prems(2) run x have "run_loop n env sf st' s1 = Some (r, s')" by simp
    from Suc.IH [OF loop_step_state [OF Suc.prems(1) run [unfolded x]] this] us run_on show ?thesis
      by fastforce
  next
    case False
    with Suc.prems(2) run us show ?thesis by (auto split: sum.splits turn_outcome.splits)
  qed
qed

lemma obeys_open_run: "sink_obeys P (env_emit env) \<Longrightarrow> obeys P (open_run env prompts)"
  unfolding open_run_def by (auto intro!: obeys_and_then obeys_emit obeys_for_each obeys_announce)

lemma runLoop_obeys:
  assumes "sink_obeys P (env_emit env)" "stream_fn_obeys P sf" "loop_config_obeys P cfg"
    "tools_obey P ctx" and run: "runLoop n env sf ctx new cfg s = Some (r, s')"
  shows "\<exists>ts. emitted s' = emitted s @ ts \<and> P (world s) ts (world s')"
proof -
  obtain x s1 where p: "poll (lc_getSteeringMessages cfg) s = (x, s1)" by fastforce
  have "obeys P (poll (lc_getSteeringMessages cfg))"
    using assms(3) by (intro obeys_poll) (simp add: loop_config_obeys_def)
  from obeysD [OF this p] obtain us where
    us: "emitted s1 = emitted s @ us" "P (world s) us (world s1)" by blast
  show ?thesis
  proof (cases x)
    case (Inl e)
    with run p us show ?thesis by (auto simp: runLoop_def)
  next
    case (Inr pending)
    let ?st = "\<lparr>ls_context = ctx, ls_config = cfg, ls_new = new, ls_pending = pending,
      ls_first = True, ls_more = True\<rparr>"
    have "loop_state_obeys P ?st" using assms(3,4) by (simp add: loop_state_obeys_def)
    from run_loop_obeys [OF assms(1,2) this] run p Inr us run_on show ?thesis
      by (fastforce simp: runLoop_def)
  qed
qed

lemma runAgentLoop_obeys:
  assumes "sink_obeys P (env_emit env)" "stream_fn_obeys P sf" "loop_config_obeys P cfg"
    "tools_obey P ctx" and run: "runAgentLoop n env sf prompts ctx cfg s = Some (r, s')"
  shows "\<exists>ts. emitted s' = emitted s @ ts \<and> P (world s) ts (world s')"
proof -
  obtain x s1 where o: "open_run env prompts s = (x, s1)" by fastforce
  from obeysD [OF obeys_open_run [OF assms(1)] o] obtain us where
    us: "emitted s1 = emitted s @ us" "P (world s) us (world s1)" by blast
  show ?thesis
  proof (cases x)
    case (Inl e)
    with run o us show ?thesis by (auto simp: runAgentLoop_def)
  next
    case (Inr u)
    with run o have "runLoop n env sf (ctx\<lparr>ctx_messages := ctx_messages ctx @ prompts\<rparr>) prompts cfg s1
        = Some (r, s')" by (simp add: runAgentLoop_def)
    from runLoop_obeys [OF assms(1-3) _ this] assms(4) us run_on show ?thesis by fastforce
  qed
qed

lemma runAgentLoopContinue_obeys:
  assumes "sink_obeys P (env_emit env)" "stream_fn_obeys P sf" "loop_config_obeys P cfg"
    "tools_obey P ctx" and run: "runAgentLoopContinue n env sf ctx cfg s = Some (r, s')"
  shows "\<exists>ts. emitted s' = emitted s @ ts \<and> P (world s) ts (world s')"
proof (cases "check_continue ctx")
  case (Some e)
  with run idle show ?thesis by (auto simp: runAgentLoopContinue_def)
next
  case None
  obtain x s1 where o: "open_run env [] s = (x, s1)" by fastforce
  from obeysD [OF obeys_open_run [OF assms(1)] o] obtain us where
    us: "emitted s1 = emitted s @ us" "P (world s) us (world s1)" by blast
  show ?thesis
  proof (cases x)
    case (Inl e)
    with run None o us show ?thesis by (auto simp: runAgentLoopContinue_def)
  next
    case (Inr u)
    with run None o have "runLoop n env sf ctx [] cfg s1 = Some (r, s')"
      by (simp add: runAgentLoopContinue_def)
    from runLoop_obeys [OF assms(1-4) this] us run_on show ?thesis by fastforce
  qed
qed

end

section \<open>The loop returns\<close>

text \<open>
  \<open>dries_up f\<close>: the measure \<open>f\<close> of the world decreases whenever a poll returns a message
  and whenever the provider answers with a tool call.
\<close>

definition dries_up :: "('w \<Rightarrow> nat) \<Rightarrow> 'w loop_config \<Rightarrow> 'w stream_fn \<Rightarrow> bool" where
  "dries_up f cfg sf \<longleftrightarrow>
     (\<forall>g w ms w'. (lc_getSteeringMessages cfg = Some g \<or> lc_getFollowUpMessages cfg = Some g) \<longrightarrow>
        g w = (Inr ms, w') \<longrightarrow> ms \<noteq> [] \<longrightarrow> f w' < f w)
   \<and> (\<forall>md c cf w r w' m. sf md c cf w = (Inr r, w') \<longrightarrow> resp_result r = Inr m \<longrightarrow>
        tool_calls_of (am_content m) \<noteq> [] \<longrightarrow> f w' < f w)"

lemma dries_up_update [simp]:
  "dries_up f (cfg\<lparr>lc_model := m, lc_reasoning := r\<rparr>) sf = dries_up f cfg sf"
  by (simp add: dries_up_def)

lemma shrinks_le: "obeys (shrinks f) m \<Longrightarrow> m s = (r, s') \<Longrightarrow> f (world s') \<le> f (world s)"
  by (drule (1) obeysD) (auto simp: shrinks_def)

lemma poll_dries:
  assumes "dries_up f cfg sf" "poll g s = (Inr ms, s')" "ms \<noteq> []"
    "g = lc_getSteeringMessages cfg \<or> g = lc_getFollowUpMessages cfg"
  shows "f (world s') < f (world s)"
proof (cases g)
  case None
  with assms(2,3) show ?thesis by (auto simp: poll_def dest: ret_InrD)
next
  case (Some h)
  with assms(2) have "call h s = (Inr ms, s')" by (simp add: poll_def)
  then show ?thesis
  proof (rule call_InrE)
    fix w assume w: "h (world s) = (Inr ms, w)" "s' = s\<lparr>world := w\<rparr>"
    have h: "lc_getSteeringMessages cfg = Some h \<or> lc_getFollowUpMessages cfg = Some h"
      using assms(4) Some by metis
    from assms(1) have "f w < f (world s)"
      unfolding dries_up_def using h w(1) assms(3) by blast
    with w(2) show ?thesis by simp
  qed
qed

text \<open>The final message is the one the response settled with.\<close>

lemma finish_response_result:
  "finish_response env result msgs added s = (Inr (ms, final), s') \<Longrightarrow> result = Inr final"
  unfolding finish_response_def Let_def
  by (auto simp: throw_def elim!: and_then_InrE dest!: ret_InrD split: sum.splits)

lemma consume_events_result:
  "consume_events env result evs msgs partial added s = (Inr (ms, final), s') \<Longrightarrow> result = Inr final"
proof (induction evs arbitrary: msgs partial added s)
  case Nil
  then show ?case by (simp add: finish_response_result)
next
  case (Cons ev evs)
  then show ?case
    by (cases ev; cases partial) (auto simp: Let_def elim!: and_then_InrE dest: finish_response_result)
qed

lemma streamAssistantResponse_dries:
  fixes f :: "'w \<Rightarrow> nat"
  assumes "dries_up f cfg' sf" "sink_obeys (shrinks f) (env_emit env)" "loop_config_obeys (shrinks f) cfg"
    and run: "streamAssistantResponse env sf ctx cfg s = (Inr (ctx', m), s')"
    and calls: "tool_calls_of (am_content m) \<noteq> []"
  shows "f (world s') < f (world s)"
  using run unfolding streamAssistantResponse_def Let_def
proof (elim and_then_InrE, goal_cases)
  case (1 messages s1 llm s2 key s3 response s4 res s5)
  have ok: "hook_obeys (shrinks f) (lc_transformContext cfg)" "hook_obeys (shrinks f) (lc_getApiKey cfg)"
    "callback_obeys (shrinks f :: 'w \<Rightarrow> agent_event list \<Rightarrow> 'w \<Rightarrow> bool) (lc_convertToLlm cfg messages)"
    using assms(3) by (simp_all add: loop_config_obeys_def)
  have key: "obeys (shrinks f) (resolve_api_key cfg)"
    unfolding resolve_api_key_def
    by (intro shrinking.obeys_and_then agent_shrinking.obeys_hook ok shrinking.obeys_ret)
  obtain msgs final where res: "res = (msgs, final)" by fastforce
  with 1(6) have m: "final = m" and s5: "s5 = s'" by (auto dest: ret_InrD)
  have "resp_result response = Inr m"
    using consume_events_result 1(5) res m by blast
  with 1(4) calls assms(1) have "f (world s4) < f (world s3)"
    by (auto simp: dries_up_def elim!: call_InrE)
  moreover have "f (world s3) \<le> f (world s)"
    using shrinks_le [OF agent_shrinking.obeys_hook [OF ok(1)] 1(1)]
      shrinks_le [OF shrinking.obeys_call [OF ok(3)] 1(2)] shrinks_le [OF key 1(3)] by linarith
  moreover have "f (world s5) \<le> f (world s4)"
    using shrinks_le [OF agent_shrinking.obeys_consume_events [OF assms(2)] 1(5)] .
  ultimately show ?case unfolding s5 by linarith
qed

definition loop_active :: "'w loop_state \<Rightarrow> bool" where
  "loop_active st \<longleftrightarrow> ls_more st \<or> ls_pending st \<noteq> []"

definition loop_rank :: "('w \<Rightarrow> nat) \<Rightarrow> 'w loop_state \<Rightarrow> 'w \<Rightarrow> nat" where
  "loop_rank f st w = 2 * f w + (if loop_active st then 1 else 0)"

lemma after_response_dries:
  assumes "dries_up f cfg sf" "sink_obeys (shrinks f) (env_emit env)"
    "loop_config_obeys (shrinks f) cfg" "tools_obey (shrinks f) ctx"
    and "after_response env ctx cfg new m s = (Inr (Next_turn st), s')"
  shows "dries_up f (ls_config st) sf \<and> f (world s') \<le> f (world s)
    \<and> (loop_active st \<longrightarrow> tool_calls_of (am_content m) \<noteq> [] \<or> f (world s') < f (world s))"
  using assms(5)
proof (rule after_response_NextE)
  fix results more s1 s2 u s3 ctx2 cfg2 s4 pending
  let ?ctx = "ctx\<lparr>ctx_messages := ctx_messages ctx @ map tool_result_agent_message results\<rparr>"
  let ?new = "new @ map tool_result_agent_message results"
  assume batch: "(if tool_calls_of (am_content m) = [] then ret ([], False)
       else and_then (executeToolCalls env (lc_tools cfg) ctx m) (\<lambda>batch.
         ret (batch_messages batch, \<not> batch_terminate batch))) s = (Inr (results, more), s1)"
    and turn_end: "emit (env_emit env) (Turn_end (assistant_agent_message m) results) s1 = (Inr (), s2)"
    and prepare: "(case lc_prepareNextTurn cfg of None \<Rightarrow> ret None
         | Some f \<Rightarrow> call (f \<lparr>tcx_message = m, tcx_toolResults = results,
             tcx_context = ?ctx, tcx_newMessages = ?new\<rparr>)) s2 = (Inr u, s3)"
    and upd: "apply_update u ?ctx cfg = (ctx2, cfg2)"
    and stop: "(case lc_shouldStopAfterTurn cfg2 of None \<Rightarrow> ret False
         | Some f \<Rightarrow> call (f \<lparr>tcx_message = m, tcx_toolResults = results, tcx_context = ctx2,
             tcx_newMessages = ?new\<rparr>)) s3 = (Inr False, s4)"
    and poll: "poll (lc_getSteeringMessages cfg2) s4 = (Inr pending, s')"
    and st: "st = \<lparr>ls_context = ctx2, ls_config = cfg2, ls_new = ?new,
          ls_pending = pending, ls_first = False, ls_more = more\<rparr>"
  from apply_update_config [OF upd] obtain md r where cfg2: "cfg2 = cfg\<lparr>lc_model := md, lc_reasoning := r\<rparr>"
    by blast
  have ok: "tool_config_obeys (shrinks f) (lc_tools cfg)" "hook_obeys (shrinks f) (lc_prepareNextTurn cfg)"
    "hook_obeys (shrinks f) (lc_shouldStopAfterTurn cfg2)" "poll_obeys (shrinks f) (lc_getSteeringMessages cfg2)"
    using assms(3) cfg2 by (auto simp: loop_config_obeys_def)
  have "obeys (shrinks f) (if tool_calls_of (am_content m) = [] then ret ([], False)
       else and_then (executeToolCalls env (lc_tools cfg) ctx m) (\<lambda>batch.
         ret (batch_messages batch, \<not> batch_terminate batch)))"
    using assms(2,4) ok(1)
    by (auto intro!: shrinking.obeys_ret shrinking.obeys_and_then
        agent_shrinking.obeys_executeToolCalls)
  note le = shrinks_le [OF this batch]
    shrinks_le [OF shrinking.obeys_emit [OF assms(2)] turn_end]
    shrinks_le [OF agent_shrinking.obeys_hook [OF ok(2)] prepare]
    shrinks_le [OF agent_shrinking.obeys_hook [OF ok(3)] stop]
    shrinks_le [OF agent_shrinking.obeys_poll [OF ok(4)] poll]
  have dry: "dries_up f cfg2 sf" using assms(1) cfg2 by simp
  have "f (world s') < f (world s4)" if "pending \<noteq> []"
    using poll_dries [OF dry poll that] by simp
  moreover have "tool_calls_of (am_content m) \<noteq> []" if more
    using batch that by (auto dest: ret_InrD split: if_splits)
  ultimately show ?thesis
    using le dry st by (auto simp: loop_active_def)
qed

lemma loop_step_dries:
  assumes "dries_up f (ls_config st) sf" "sink_obeys (shrinks f) (env_emit env)"
    "stream_fn_obeys (shrinks f) sf" "loop_state_obeys (shrinks f) st"
    and step: "loop_step env sf st s = (Inr (Next_turn st'), s')"
  shows "dries_up f (ls_config st') sf \<and> loop_rank f st' (world s') < loop_rank f st (world s)"
proof (cases "ls_more st \<or> ls_pending st \<noteq> []")
  case True
  with step have "loop_turn env sf st s = (Inr (Next_turn st'), s')" by (simp add: loop_step_def)
  then show ?thesis
  proof (rule loop_turn_NextE)
    fix s0 s1 s2 ctx' m
    let ?ctx = "(ls_context st)\<lparr>ctx_messages := ctx_messages (ls_context st) @ ls_pending st\<rparr>"
    assume start: "(if ls_first st then ret () else emit (env_emit env) Turn_start) s = (Inr (), s0)"
      and ann: "for_each (ls_pending st) (announce env) s0 = (Inr (), s1)"
      and stream: "streamAssistantResponse env sf ?ctx (ls_config st) s1 = (Inr (ctx', m), s2)"
      and after: "after_response env ctx' (ls_config st)
         ((ls_new st @ ls_pending st) @ [assistant_agent_message m]) m s2 = (Inr (Next_turn st'), s')"
    from assms(4) have ok: "loop_config_obeys (shrinks f) (ls_config st)" "tools_obey (shrinks f) ?ctx"
      by (simp_all add: loop_state_obeys_def)
    have "obeys (shrinks f) (if ls_first st then ret () else emit (env_emit env) Turn_start)"
      using assms(2) by (simp add: shrinking.obeys_ret shrinking.obeys_emit)
    note le = shrinks_le [OF this start]
      shrinks_le [OF shrinking.obeys_for_each [OF agent_shrinking.obeys_announce [OF assms(2)]] ann]
      shrinks_le [OF agent_shrinking.obeys_streamAssistantResponse [OF assms(2) ok(1) assms(3)] stream]
    from streamAssistantResponse_tools [OF stream] ok(2) have "tools_obey (shrinks f) ctx'" by auto
    from after_response_dries [OF assms(1,2) ok(1) this after]
      streamAssistantResponse_dries [OF assms(1,2) ok(1) stream] le True
    show ?thesis by (auto simp: loop_rank_def loop_active_def split: if_splits)
  qed
next
  case False
  with step obtain ms s1 where p: "poll (lc_getFollowUpMessages (ls_config st)) s = (Inr ms, s')"
    and ms: "ms \<noteq> []" and st': "st' = st\<lparr>ls_pending := ms, ls_more := True\<rparr>"
    by (auto simp: loop_step_def loop_follow_up_def elim!: and_then_InrE dest!: ret_InrD split: if_splits)
  from poll_dries [OF assms(1) p ms] False st' assms(1) show ?thesis
    by (auto simp: loop_rank_def loop_active_def)
qed

lemma run_loop_returns:
  assumes "dries_up f (ls_config st) sf" "sink_obeys (shrinks f) (env_emit env)"
    "stream_fn_obeys (shrinks f) sf" "loop_state_obeys (shrinks f) st"
    and "loop_rank f st (world s) < n"
  shows "run_loop n env sf st s \<noteq> None"
  using assms(1,4,5)
proof (induction n arbitrary: st s)
  case 0
  then show ?case by simp
next
  case (Suc n)
  show ?case
  proof (cases "\<exists>st' s'. loop_step env sf st s = (Inr (Next_turn st'), s')")
    case True
    then obtain st' s' where step: "loop_step env sf st s = (Inr (Next_turn st'), s')" by blast
    from loop_step_dries [OF Suc.prems(1) assms(2,3) Suc.prems(2) step] Suc.prems(3)
      agent_shrinking.loop_step_state [OF Suc.prems(2) step] step Suc.IH [of st' s']
    show ?thesis by simp
  next
    case False
    then show ?thesis by (auto split: prod.splits sum.splits turn_outcome.splits)
  qed
qed

section \<open>Event streams of runs\<close>

text \<open>
  \<^verbatim>\<open>createAgentStream\<close> and the functions that return a stream. The stream is the first part of the
  world; the sink pushes every event to it, and the run's result ends it. A run that rejects leaves it open.
\<close>

fun agent_is_complete :: "agent_event \<Rightarrow> bool" where
  "agent_is_complete (Agent_end ms) = True"
| "agent_is_complete _ = False"

fun agent_extract :: "agent_event \<Rightarrow> jerror + agent_message list" where
  "agent_extract (Agent_end ms) = Inr ms"
| "agent_extract _ = Inr []"

type_synonym agent_stream = "(agent_event, agent_message list) event_stream"

definition stream_sink :: "agent_event \<Rightarrow> (agent_stream \<times> 'v, unit) callback" where
  "stream_sink e = (\<lambda>(st, v).
     case es_push agent_is_complete agent_extract e st of
       (Inl err, st') \<Rightarrow> (Inl err, (st', v))
     | (Inr _, st') \<Rightarrow> (Inr (), (st', v)))"

definition end_stream ::
    "((jerror + agent_message list) \<times> (agent_event, agent_stream \<times> 'v) rt) option \<Rightarrow>
     (agent_event, agent_stream \<times> 'v) rt option" where
  "end_stream out =
     map_option (\<lambda>(r, s). case r of
       Inl e \<Rightarrow> s
     | Inr ms \<Rightarrow> s\<lparr>world := (snd (es_end (Some ms) (fst (world s))), snd (world s))\<rparr>) out"

definition agentLoop ::
    "nat \<Rightarrow> (agent_stream \<times> 'v) tool_env \<Rightarrow> (agent_stream \<times> 'v) stream_fn \<Rightarrow> agent_message list \<Rightarrow>
     (agent_stream \<times> 'v) agent_context \<Rightarrow> (agent_stream \<times> 'v) loop_config \<Rightarrow> 'v \<Rightarrow>
     (agent_event, agent_stream \<times> 'v) rt option" where
  "agentLoop n env sf prompts ctx cfg v =
     end_stream (runAgentLoop n (env\<lparr>env_emit := stream_sink\<rparr>) sf prompts ctx cfg
       \<lparr>emitted = [], world = (es_new, v)\<rparr>)"

text \<open>The guards of \<^verbatim>\<open>agentLoopContinue\<close> throw before a stream exists.\<close>

definition agentLoopContinue ::
    "nat \<Rightarrow> (agent_stream \<times> 'v) tool_env \<Rightarrow> (agent_stream \<times> 'v) stream_fn \<Rightarrow>
     (agent_stream \<times> 'v) agent_context \<Rightarrow> (agent_stream \<times> 'v) loop_config \<Rightarrow> 'v \<Rightarrow>
     jerror + (agent_event, agent_stream \<times> 'v) rt option" where
  "agentLoopContinue n env sf ctx cfg v =
     (case check_continue ctx of
        Some e \<Rightarrow> Inl e
      | None \<Rightarrow> Inr (end_stream (runAgentLoopContinue n (env\<lparr>env_emit := stream_sink\<rparr>) sf ctx cfg
          \<lparr>emitted = [], world = (es_new, v)\<rparr>)))"

lemma agent_extract_total: "extract_total agent_is_complete agent_extract"
proof -
  have "\<exists>r. agent_extract e = Inr r" for e by (cases e) simp_all
  then show ?thesis by (simp add: extract_total_def)
qed

definition push_event :: "agent_stream \<Rightarrow> agent_event \<Rightarrow> agent_stream" where
  "push_event st e = snd (es_push agent_is_complete agent_extract e st)"

lemma stream_sink_follows: "sink_obeys (follows fst push_event) stream_sink"
  by (auto simp: sink_obeys_def follows_def stream_sink_def push_event_def split: prod.splits sum.splits)

lemma push_open:
  "\<not> agent_is_complete e \<Longrightarrow> \<not> es_done st \<Longrightarrow> es_waiting st = [] \<Longrightarrow>
   push_event st e = st\<lparr>es_queue := es_queue st @ [e]\<rparr>"
  by (simp add: push_event_def es_push_def es_deliver_def)

lemma push_all:
  assumes "\<forall>e\<in>set ts. \<not> agent_is_complete e"
  shows "\<not> es_done st \<Longrightarrow> es_waiting st = [] \<Longrightarrow>
    foldl push_event st ts = st\<lparr>es_queue := es_queue st @ ts\<rparr>"
  using assms by (induction ts arbitrary: st) (auto simp: push_open)

text \<open>A finished run ends with its \<open>agent_end\<close>, the only one.\<close>

lemma over_ends:
  assumes "accepts protocol_step p ts = Some q" and "pr_life q = Over" and "pr_life p \<noteq> Over"
  shows "\<exists>us. ts = us @ [Agent_end (pr_log q)] \<and> (\<forall>e\<in>set us. \<not> agent_is_complete e)"
proof (cases ts rule: rev_cases)
  case Nil
  with assms show ?thesis by simp
next
  case (snoc us e)
  with assms(1) obtain p' where p': "accepts protocol_step p us = Some p'" "protocol_step p' e = Some q"
    by (auto simp: accepts_append split: option.splits)
  have "\<not> agent_is_complete x" if x: "x \<in> set us" for x
  proof
    assume "agent_is_complete x"
    then obtain ms where ms: "x = Agent_end ms" by (cases x) simp_all
    from x obtain vs ws where "us = vs @ x # ws" by (meson split_list)
    with ms snoc agent_end_last [of p vs ms "ws @ [e]"] assms(1) show False by simp
  qed
  moreover have "e = Agent_end (pr_log q)"
    using p'(2) assms(2) accepts_over [of p' "[e]"] by (cases e) (auto split: if_splits)
  ultimately show ?thesis using snoc by blast
qed

lemma runAgentLoop_openE:
  assumes "runAgentLoop n env sf prompts ctx cfg s = Some (Inr ms, s')"
  obtains s1 where "open_run env prompts s = (Inr (), s1)"
    and "runLoop n env sf (ctx\<lparr>ctx_messages := ctx_messages ctx @ prompts\<rparr>) prompts cfg s1 = Some (Inr ms, s')"
  using assms by (auto simp: runAgentLoop_def split: prod.splits sum.splits)

lemma runLoop_prefix:
  assumes "runLoop n env sf ctx new cfg s = Some (Inr ms, s')"
  shows "prefix new ms"
proof -
  let ?q = "in_turn {#} [] new"
  have "at_phase InTurn new ?q" by (simp add: at_phase_def)
  from traced_runLoop [OF this, of s n env sf ctx cfg] assms obtain ts q where
    "accepts protocol_step ?q ts = Some q" "at_phase Over ms q" by (auto simp: traced_def)
  with accepts_log show ?thesis by (fastforce simp: at_phase_def)
qed

section \<open>The context of the next request\<close>

fun is_start :: "assistant_event \<Rightarrow> bool" where
  "is_start (Ev_start p) = True"
| "is_start _ = False"

definition one_start :: "'w stream_fn \<Rightarrow> bool" where
  "one_start sf \<longleftrightarrow>
     (\<forall>md c cf w r w'. sf md c cf w = (Inr r, w') \<longrightarrow> length (filter is_start (resp_events r)) \<le> 1)"

text \<open>The states the loop passes through.\<close>

inductive loop_reachable ::
    "'w tool_env \<Rightarrow> 'w stream_fn \<Rightarrow> 'w loop_state \<Rightarrow> 'w loop_state \<Rightarrow> bool"
  for env sf st0 where
  reach_start: "loop_reachable env sf st0 st0"
| reach_step: "loop_reachable env sf st0 st \<Longrightarrow>
    loop_step env sf st s = (Inr (Next_turn st'), s') \<Longrightarrow> loop_reachable env sf st0 st'"

lemma finish_response_messages:
  assumes "finish_response env result msgs added s = (Inr (ms, final), s')"
    and "msgs = (if added then base @ [x] else base)"
  shows "ms = base @ [assistant_agent_message final]"
  using assms unfolding finish_response_def Let_def
  by (auto simp: throw_def replace_last_def elim!: and_then_InrE dest!: ret_InrD split: sum.splits if_splits)

lemma consume_events_messages:
  assumes "consume_events env result evs msgs partial added s = (Inr (ms, final), s')"
    and "length (filter is_start evs) + (if added then 1 else 0) \<le> 1"
    and "msgs = (if added then base @ [x] else base)"
    and "added \<longleftrightarrow> partial \<noteq> None"
  shows "ms = base @ [assistant_agent_message final]"
  using assms
proof (induction evs arbitrary: msgs partial added s x)
  case Nil
  from Nil.prems(1) show ?case
    unfolding consume_events.simps by (rule finish_response_messages) (rule Nil.prems(3))
next
  case (Cons ev evs)
  consider (fin) "assistant_is_complete ev" | (start) "is_start ev" | (upd) "\<not> assistant_is_complete ev" "\<not> is_start ev"
    by blast
  then show ?case
  proof cases
    case fin
    with Cons.prems(1) have "finish_response env result msgs added s = (Inr (ms, final), s')"
      by (cases ev) simp_all
    then show ?thesis by (rule finish_response_messages) (rule Cons.prems(3))
  next
    case start
    then obtain p where ev: "ev = Ev_start p" by (cases ev) simp_all
    with Cons.prems(2,3) have added: "\<not> added" "msgs = base" "filter is_start evs = []"
      by (auto split: if_splits)
    from Cons.prems(1)[unfolded ev consume_events.simps assistant_event.case] obtain s1 where
      "consume_events env result evs (msgs @ [assistant_agent_message p]) (Some p) True s1
         = (Inr (ms, final), s')" by (rule and_then_InrE)
    from Cons.IH [OF this, of "assistant_agent_message p"] added show ?thesis by simp
  next
    case upd
    show ?thesis
    proof (cases partial)
      case None
      with upd Cons.prems(1) have "consume_events env result evs msgs partial added s = (Inr (ms, final), s')"
        by (cases ev) simp_all
      from Cons.IH [OF this _ Cons.prems(3)] upd Cons.prems(2,4) show ?thesis by simp
    next
      case (Some y)
      with upd Cons.prems(1) obtain s1 where run: "consume_events env result evs
          (replace_last msgs (assistant_agent_message (ev_partial ev))) (Some (ev_partial ev)) added s1
            = (Inr (ms, final), s')"
        by (cases ev) (auto simp: Let_def elim!: and_then_InrE)
      with Some Cons.prems upd show ?thesis
        by (intro Cons.IH [OF run, of "assistant_agent_message (ev_partial ev)"]) (simp_all add: replace_last_def)
    qed
  qed
qed

lemma streamAssistantResponse_messages:
  assumes "one_start sf" and "streamAssistantResponse env sf ctx cfg s = (Inr (ctx', m), s')"
  shows "ctx_messages ctx' = ctx_messages ctx @ [assistant_agent_message m]"
  using assms(2) unfolding streamAssistantResponse_def Let_def
proof (elim and_then_InrE, goal_cases)
  case (1 messages s1 llm s2 key s3 response s4 res s5)
  obtain msgs final where res: "res = (msgs, final)" by fastforce
  from 1(4) assms(1) have "length (filter is_start (resp_events response)) \<le> 1"
    unfolding one_start_def by (elim call_InrE) blast
  with consume_events_messages [OF 1(5) [unfolded res], of "ctx_messages ctx"] 1(6) res show ?case
    by (auto dest!: ret_InrD)
qed

lemma loop_step_messages:
  assumes "one_start sf" and "lc_prepareNextTurn (ls_config st) = None"
    and "ctx_messages (ls_context st) = base @ ls_new st"
    and "loop_step env sf st s = (Inr (Next_turn st'), s')"
  shows "lc_prepareNextTurn (ls_config st') = None \<and> ctx_messages (ls_context st') = base @ ls_new st'"
proof (cases "ls_more st \<or> ls_pending st \<noteq> []")
  case True
  with assms(4) have "loop_turn env sf st s = (Inr (Next_turn st'), s')" by (simp add: loop_step_def)
  then show ?thesis
  proof (rule loop_turn_NextE, elim after_response_NextE, goal_cases)
    case (1 s0 s1 s2 ctx' m results more t1 t2 u t3 ctx2 cfg2 t4 pending)
    from streamAssistantResponse_messages [OF assms(1) 1(3)] 1(9,10,13) assms(2,3) show ?case
      by (auto simp: apply_update_def dest!: ret_InrD)
  qed
next
  case False
  with assms show ?thesis
    by (auto simp: loop_step_def loop_follow_up_def elim!: and_then_InrE dest!: ret_InrD split: if_splits)
qed

section \<open>Runs that do not throw\<close>

definition answers :: "('w, 'a) callback \<Rightarrow> bool" where
  "answers f \<longleftrightarrow> (\<forall>w. \<exists>a w'. f w = (Inr a, w'))"

definition hook_answers :: "('x \<Rightarrow> ('w, 'a) callback) option \<Rightarrow> bool" where
  "hook_answers f \<longleftrightarrow> (\<forall>g x. f = Some g \<longrightarrow> answers (g x))"

definition poll_answers :: "('w, 'a) callback option \<Rightarrow> bool" where
  "poll_answers f \<longleftrightarrow> (\<forall>g. f = Some g \<longrightarrow> answers g)"

text \<open>The contract that \<^verbatim>\<open>types.ts\<close> states for the callbacks of a configuration: no throw.\<close>

definition config_answers :: "'w loop_config \<Rightarrow> bool" where
  "config_answers cfg \<longleftrightarrow>
     (\<forall>ms. answers (lc_convertToLlm cfg ms)) \<and> hook_answers (lc_transformContext cfg)
   \<and> hook_answers (lc_getApiKey cfg) \<and> hook_answers (lc_shouldStopAfterTurn cfg)
   \<and> hook_answers (lc_prepareNextTurn cfg) \<and> poll_answers (lc_getSteeringMessages cfg)
   \<and> poll_answers (lc_getFollowUpMessages cfg)"

definition stream_answers :: "'w stream_fn \<Rightarrow> bool" where
  "stream_answers sf \<longleftrightarrow>
     (\<forall>md c cf w. \<exists>r w' m. sf md c cf w = (Inr r, w') \<and> resp_result r = Inr m)"

lemma sure_answers: "answers f \<Longrightarrow> sure (call f)"
  unfolding answers_def by (rule sure_call) blast

lemma sure_hook: "hook_answers f \<Longrightarrow> sure (case f of None \<Rightarrow> ret d | Some g \<Rightarrow> call (g x))"
  by (auto simp: hook_answers_def intro: sure_ret sure_answers split: option.splits)

lemma sure_poll: "poll_answers f \<Longrightarrow> sure (poll f)"
  by (auto simp: poll_answers_def poll_def intro: sure_ret sure_answers split: option.splits)

lemma sure_and_then_res:
  assumes "sure m" and "\<And>s a s'. m s = (Inr a, s') \<Longrightarrow> sure (f a)"
  shows "sure (and_then m f)"
  unfolding sure_def
proof
  fix s
  from sureD [OF assms(1)] obtain a s1 where m: "m s = (Inr a, s1)" by blast
  from sureD [OF assms(2) [OF m]] obtain b s2 where "f a s1 = (Inr b, s2)" by blast
  with m show "\<exists>a s'. and_then m f s = (Inr a, s')" by (simp add: and_then_def)
qed

lemma sure_announce: "reliable_sink (env_emit env) \<Longrightarrow> sure (announce env m)"
  unfolding announce_def by (auto intro!: sure_and_then sure_emit)

lemma sure_for_each: "(\<And>x. sure (f x)) \<Longrightarrow> sure (for_each xs f)"
  by (induction xs) (auto intro: sure_ret sure_and_then)

lemma sure_end_agent: "reliable_sink (env_emit env) \<Longrightarrow> sure (end_agent env ms)"
  unfolding end_agent_def by (auto intro!: sure_and_then sure_emit sure_ret)

lemma sure_finish_response:
  "reliable_sink (env_emit env) \<Longrightarrow> sure (finish_response env (Inr m) msgs added)"
  unfolding finish_response_def Let_def by (auto intro!: sure_and_then sure_emit sure_ret)

lemma sure_consume_events:
  "reliable_sink (env_emit env) \<Longrightarrow> sure (consume_events env (Inr m) evs msgs partial added)"
proof (induction evs arbitrary: msgs partial added)
  case Nil
  then show ?case by (simp add: sure_finish_response)
next
  case (Cons ev evs)
  then show ?case
    by (cases ev; cases partial) (simp_all add: Let_def sure_finish_response sure_and_then sure_emit)
qed

lemma sure_streamAssistantResponse:
  assumes "reliable_sink (env_emit env)" "config_answers cfg" "stream_answers sf"
  shows "sure (streamAssistantResponse env sf ctx cfg)"
proof -
  have key: "sure (resolve_api_key cfg)"
    using assms(2) unfolding resolve_api_key_def config_answers_def
    by (intro sure_and_then sure_hook) (auto intro: sure_ret)
  have request: "sure (and_then (call (sf md c cf)) (\<lambda>response.
     and_then (consume_events env (resp_result response) (resp_events response)
                 (ctx_messages ctx) None False) (\<lambda>(msgs, final).
     ret (ctx\<lparr>ctx_messages := msgs\<rparr>, final))))" for md c cf
  proof (rule sure_and_then_res)
    show "sure (call (sf md c cf))"
      using assms(3) by (intro sure_answers) (auto simp: stream_answers_def answers_def, metis)
  next
    fix s response s' assume "call (sf md c cf) s = (Inr response, s')"
    then obtain m where "resp_result response = Inr m"
      using assms(3) unfolding stream_answers_def by (elim call_InrE) (metis Inr_inject prod.inject)
    then show "sure (and_then (consume_events env (resp_result response) (resp_events response)
                 (ctx_messages ctx) None False) (\<lambda>(msgs, final).
       ret (ctx\<lparr>ctx_messages := msgs\<rparr>, final)))"
      using assms(1) by (auto intro!: sure_and_then sure_consume_events sure_ret split: prod.splits)
  qed
  show ?thesis
    unfolding streamAssistantResponse_def Let_def
    using assms(2) unfolding config_answers_def
    by (intro sure_and_then sure_hook key request sure_answers) auto
qed

lemma config_answers_update [simp]:
  "config_answers (cfg\<lparr>lc_model := m, lc_reasoning := r\<rparr>) = config_answers cfg"
  by (simp add: config_answers_def)

lemma sure_after_response:
  assumes "reliable_sink (env_emit env)" "config_answers cfg"
  shows "sure (after_response env ctx cfg new m)"
proof -
  have upd: "hook_answers (lc_shouldStopAfterTurn cfg') \<and> poll_answers (lc_getSteeringMessages cfg')"
    if "apply_update u c cfg = (c', cfg')" for u c c' cfg'
    using apply_update_config [OF that] assms(2) by (auto simp: config_answers_def)
  have "hook_answers (lc_prepareNextTurn cfg)" using assms(2) by (simp add: config_answers_def)
  then show ?thesis
    unfolding after_response_def Let_def
    using assms(1) upd
    by (auto intro!: sure_and_then sure_emit sure_end_agent sure_ret sure_poll sure_hook
        sure_executeToolCalls simp del: append_assoc split: prod.splits)
qed

lemma sure_loop_step:
  assumes "reliable_sink (env_emit env)" "config_answers (ls_config st)" "stream_answers sf"
  shows "sure (loop_step env sf st)"
proof -
  have "sure (loop_follow_up env st)"
    unfolding loop_follow_up_def using assms
    by (auto simp: config_answers_def intro!: sure_and_then sure_poll sure_end_agent sure_ret)
  moreover have "sure (loop_turn env sf st)"
    unfolding loop_turn_def Let_def
    by (intro sure_and_then sure_for_each sure_announce sure_streamAssistantResponse assms)
      (use assms in \<open>auto intro!: sure_ret sure_emit sure_after_response simp del: append_assoc\<close>)
  ultimately show ?thesis by (simp add: loop_step_def)
qed

lemma loop_step_answers:
  assumes "config_answers (ls_config st)" "loop_step env sf st s = (Inr (Next_turn st'), s')"
  shows "config_answers (ls_config st')"
proof (cases "ls_more st \<or> ls_pending st \<noteq> []")
  case True
  with assms(2) have "loop_turn env sf st s = (Inr (Next_turn st'), s')" by (simp add: loop_step_def)
  then show ?thesis
    by (rule loop_turn_NextE, elim after_response_NextE)
      (use assms(1) in \<open>auto dest!: apply_update_config\<close>)
next
  case False
  with assms show ?thesis
    by (auto simp: loop_step_def loop_follow_up_def elim!: and_then_InrE dest!: ret_InrD split: if_splits)
qed

lemma run_loop_value:
  assumes "reliable_sink (env_emit env)" "stream_answers sf"
  shows "config_answers (ls_config st) \<Longrightarrow> run_loop n env sf st s = Some (r, s') \<Longrightarrow> \<exists>ms. r = Inr ms"
proof (induction n arbitrary: st s)
  case 0
  then show ?case by simp
next
  case (Suc n)
  from sureD [OF sure_loop_step [OF assms(1) Suc.prems(1) assms(2)]] obtain x s1 where
    step: "loop_step env sf st s = (Inr x, s1)" by blast
  show ?case
  proof (cases x)
    case (Finish ms)
    with step Suc.prems(2) show ?thesis by auto
  next
    case (Next_turn st')
    with step Suc.prems(2) have "run_loop n env sf st' s1 = Some (r, s')" by simp
    then show ?thesis
      by (rule Suc.IH [OF loop_step_answers [OF Suc.prems(1) step [unfolded Next_turn]]])
  qed
qed

section \<open>Properties\<close>

text \<open>A concrete provider: it asks for tools as long as the world, a number, is positive.\<close>

definition demo_stop :: assistant_message where
  "demo_stop = sample_assistant [] SR_stop"

definition demo_stream :: "nat stream_fn" where
  "demo_stream md c cfg = (\<lambda>w.
     let m = (if w = 0 then demo_stop else demo_assistant) in
     (Inr \<lparr>resp_events = [Ev_start m, Ev_done SR_stop m], resp_result = Inr m\<rparr>, w - 1))"

definition demo_model :: llm_model where
  "demo_model = \<lparr>model_id = js ''m'', model_name = js ''m'', model_api = js ''a'',
     model_provider = js ''p'', model_baseUrl = [], model_reasoning = False,
     model_thinkingLevelMap = None, model_input = [],
     model_cost = \<lparr>mc_input = 0, mc_output = 0, mc_cacheRead = 0, mc_cacheWrite = 0\<rparr>,
     model_contextWindow = 0, model_maxTokens = 0, model_headers = None, model_compat = None\<rparr>"

definition demo_loop_config :: "nat loop_config" where
  "demo_loop_config = \<lparr>lc_model = demo_model, lc_reasoning = None, lc_apiKey = None,
     lc_tools = demo_config, lc_convertToLlm = (\<lambda>ms w. (Inr (convertToLlm ms), w)),
     lc_transformContext = None, lc_getApiKey = None, lc_shouldStopAfterTurn = None,
     lc_prepareNextTurn = None, lc_getSteeringMessages = None, lc_getFollowUpMessages = None\<rparr>"

definition demo_prompt :: agent_message where
  "demo_prompt = Llm (sample_user ''hi'')"

definition demo_start :: "(agent_event, nat) rt" where
  "demo_start = \<lparr>emitted = [], world = 1\<rparr>"

lemma demo_obeys:
  "sink_obeys (shrinks id) (env_emit demo_env)" "stream_fn_obeys (shrinks id) demo_stream"
  "loop_config_obeys (shrinks id) demo_loop_config" "tools_obey (shrinks id) demo_context"
  by (auto simp: sink_obeys_def shrinks_def demo_env_def stream_fn_obeys_def callback_obeys_def
      demo_stream_def Let_def loop_config_obeys_def demo_loop_config_def tool_config_obeys_def
      demo_config_def demo_block_def hook_obeys_def poll_obeys_def tools_obey_def demo_context_def
      demo_tools_def demo_tool_def)

lemma demo_dries_up: "dries_up id demo_loop_config demo_stream"
  by (auto simp: dries_up_def demo_loop_config_def demo_stream_def Let_def demo_stop_def
      sample_assistant_def split: if_splits)

lemma demo_answers: "config_answers demo_loop_config" "stream_answers demo_stream"
  by (auto simp: config_answers_def demo_loop_config_def answers_def hook_answers_def poll_answers_def
      stream_answers_def demo_stream_def Let_def)

lemma runAgentLoop_returns:
  assumes "sink_obeys (shrinks f) (env_emit env)" "stream_fn_obeys (shrinks f) sf"
    and "loop_config_obeys (shrinks f) cfg" "tools_obey (shrinks f) ctx" "dries_up f cfg sf"
    and "2 * f (world s) + 1 < n"
  shows "runAgentLoop n env sf prompts ctx cfg s \<noteq> None"
proof -
  obtain x s1 where o: "open_run env prompts s = (x, s1)" by fastforce
  obtain y s2 where p: "poll (lc_getSteeringMessages cfg) s1 = (y, s2)" by fastforce
  have le: "f (world s1) \<le> f (world s)"
    by (rule shrinks_le [OF agent_shrinking.obeys_open_run [OF assms(1)] o])
  have le': "f (world s2) \<le> f (world s1)"
    using assms(3) by (intro shrinks_le [OF agent_shrinking.obeys_poll p]) (simp add: loop_config_obeys_def)
  show ?thesis
  proof (cases "\<exists>u ms. x = Inr u \<and> y = Inr ms")
    case True
    then obtain u ms where xy: "x = Inr u" "y = Inr ms" by blast
    let ?st = "\<lparr>ls_context = ctx\<lparr>ctx_messages := ctx_messages ctx @ prompts\<rparr>, ls_config = cfg,
      ls_new = prompts, ls_pending = ms, ls_first = True, ls_more = True\<rparr>"
    have st: "loop_state_obeys (shrinks f) ?st" using assms(3,4) by (simp add: loop_state_obeys_def)
    have "loop_rank f ?st (world s2) < n"
      using assms(6) le le' by (simp add: loop_rank_def loop_active_def)
    with run_loop_returns [OF _ assms(1,2) st, of s2 n] assms(5) o p xy show ?thesis
      by (simp add: runAgentLoop_def runLoop_def Let_def)
  next
    case False
    with o p show ?thesis
      by (auto simp: runAgentLoop_def runLoop_def Let_def split: sum.splits)
  qed
qed

lemma demo_reliable_sink: "reliable_sink (env_emit demo_env)"
  by (rule demo_reliable)

lemma runAgentLoop_completes:
  assumes "reliable_sink (env_emit env)" "config_answers cfg" "stream_answers sf"
    and "sink_obeys (shrinks f) (env_emit env)" "stream_fn_obeys (shrinks f) sf"
    and "loop_config_obeys (shrinks f) cfg" "tools_obey (shrinks f) ctx" "dries_up f cfg sf"
    and "2 * f (world s) + 1 < n"
  shows "\<exists>ms s'. runAgentLoop n env sf prompts ctx cfg s = Some (Inr ms, s')"
proof -
  have "sure (open_run env prompts)"
    using assms(1) unfolding open_run_def
    by (auto intro!: sure_and_then sure_emit sure_for_each sure_announce)
  from sureD [OF this] obtain s1 where o: "open_run env prompts s = (Inr (), s1)" by force
  have "sure (poll (lc_getSteeringMessages cfg))"
    using assms(2) by (intro sure_poll) (simp add: config_answers_def)
  from sureD [OF this] obtain ms s2 where p: "poll (lc_getSteeringMessages cfg) s1 = (Inr ms, s2)" by blast
  let ?st = "\<lparr>ls_context = ctx\<lparr>ctx_messages := ctx_messages ctx @ prompts\<rparr>, ls_config = cfg,
    ls_new = prompts, ls_pending = ms, ls_first = True, ls_more = True\<rparr>"
  have st: "loop_state_obeys (shrinks f) ?st" using assms(6,7) by (simp add: loop_state_obeys_def)
  have "f (world s1) \<le> f (world s)"
    by (rule shrinks_le [OF agent_shrinking.obeys_open_run [OF assms(4)] o])
  moreover have "f (world s2) \<le> f (world s1)"
    using assms(6) by (intro shrinks_le [OF agent_shrinking.obeys_poll p]) (simp add: loop_config_obeys_def)
  ultimately have "loop_rank f ?st (world s2) < n"
    using assms(9) by (simp add: loop_rank_def loop_active_def)
  with run_loop_returns [OF _ assms(4,5) st, of s2 n] assms(8) obtain r s' where
    run: "run_loop n env sf ?st s2 = Some (r, s')" by auto
  from run_loop_value [OF assms(1,3) _ run] assms(2) obtain out where "r = Inr out" by auto
  with run o p show ?thesis by (simp add: runAgentLoop_def runLoop_def Let_def)
qed

lemma demo_run:
  obtains ms s' where "runAgentLoop 4 demo_env demo_stream [demo_prompt] demo_context demo_loop_config demo_start
    = Some (Inr ms, s')"
proof -
  have "2 * id (world demo_start) + 1 < (4::nat)" by (simp add: demo_start_def)
  from runAgentLoop_completes [OF demo_reliable_sink demo_answers demo_obeys demo_dries_up this] that
  show thesis by blast
qed

text \<open>
  C1: Every run of the loop, for any provider, tools, hooks and scheduling, emits its events in the order
  of the protocol, also when a callback throws. A run that returns has ended exactly the messages it
  returns, beginning with the prompts, has closed every tool execution, and its last event is
  \<open>agent_end\<close> with these messages.
\<close>

theorem agent_run_follows_protocol:
  assumes "runAgentLoop n env sf prompts ctx cfg s = Some (r, s')"
  shows "\<exists>ts. emitted s' = emitted s @ ts \<and> accepts protocol_step protocol_start ts \<noteq> None
    \<and> (\<forall>ms. r = Inr ms \<longrightarrow> message_ends ts = ms \<and> prefix prompts ms
         \<and> mset (ends ts) = mset (starts ts) \<and> (\<exists>us. ts = us @ [Agent_end ms]))"
proof -
  from traced_runAgentLoop [of s n env sf prompts ctx cfg] assms obtain ts q where
    ts: "emitted s' = emitted s @ ts" and acc: "accepts protocol_step protocol_start ts = Some q"
    and r: "case r of Inl _ \<Rightarrow> True | Inr ms \<Rightarrow> at_phase Over ms q" by (auto simp: traced_def)
  have "message_ends ts = ms \<and> prefix prompts ms
      \<and> mset (ends ts) = mset (starts ts) \<and> (\<exists>us. ts = us @ [Agent_end ms])" if ms: "r = Inr ms" for ms
  proof -
    from r ms have q: "at_phase Over ms q" by simp
    from assms ms have "prefix prompts ms" by (auto elim!: runAgentLoop_openE intro: runLoop_prefix)
    moreover from accepts_log [OF acc] accepts_open [OF acc] q
    have "message_ends ts = ms \<and> mset (ends ts) = mset (starts ts)"
      by (simp add: at_phase_def protocol_start_def)
    moreover from over_ends [OF acc] q have "\<exists>us. ts = us @ [Agent_end ms]"
      by (auto simp: at_phase_def protocol_start_def)
    ultimately show ?thesis by blast
  qed
  with ts acc show ?thesis by blast
qed

theorem agent_run_follows_protocol_witness:
  "\<exists>ms s'. runAgentLoop 4 demo_env demo_stream [demo_prompt] demo_context demo_loop_config demo_start
       = Some (Inr ms, s')
     \<and> message_ends (emitted s') = ms \<and> prefix [demo_prompt] ms
     \<and> mset (ends (emitted s')) = mset (starts (emitted s'))"
proof -
  obtain ms s' where run: "runAgentLoop 4 demo_env demo_stream [demo_prompt] demo_context
    demo_loop_config demo_start = Some (Inr ms, s')" by (rule demo_run)
  from agent_run_follows_protocol [OF run] run show ?thesis
    by (intro exI [of _ ms] exI [of _ s']) (auto simp: demo_start_def)
qed

text \<open>
  C2: The loop returns. When no callback throws and some measure of the world never grows and
  decreases with every queued message that is polled and every answer that asks for tools,
  fuel of twice the measure and two is enough, and the run returns its messages.
\<close>

theorem agent_run_returns:
  assumes "reliable_sink (env_emit env)" "config_answers cfg" "stream_answers sf"
    and "sink_obeys (shrinks f) (env_emit env)" "stream_fn_obeys (shrinks f) sf"
    and "loop_config_obeys (shrinks f) cfg" "tools_obey (shrinks f) ctx" "dries_up f cfg sf"
    and "2 * f (world s) + 2 \<le> n"
  shows "\<exists>ms s'. runAgentLoop n env sf prompts ctx cfg s = Some (Inr ms, s')"
  by (rule runAgentLoop_completes [OF assms(1-8)]) (use assms(9) in simp)

theorem agent_run_returns_witness:
  "\<exists>ms s'. runAgentLoop 4 demo_env demo_stream [demo_prompt] demo_context demo_loop_config demo_start
       = Some (Inr ms, s')"
  by (rule agent_run_returns [OF demo_reliable_sink demo_answers demo_obeys demo_dries_up])
    (simp add: demo_start_def)

text \<open>
  With a provider that starts each response at most once and no hook that swaps the context, the
  context of every turn is the initial one followed by the new messages of the run, in their order:
  what the model sees and what the run returns never diverge.
\<close>

theorem loop_context_in_step:
  assumes "one_start sf" and "lc_prepareNextTurn (ls_config st0) = None"
    and "ctx_messages (ls_context st0) = base @ ls_new st0"
    and "loop_reachable env sf st0 st"
  shows "ctx_messages (ls_context st) = base @ ls_new st"
proof -
  from assms(4) have "lc_prepareNextTurn (ls_config st) = None
      \<and> ctx_messages (ls_context st) = base @ ls_new st"
    by (induction rule: loop_reachable.induct)
      (use assms(1-3) in \<open>auto dest: loop_step_messages\<close>)
  then show ?thesis ..
qed

definition demo_loop_state :: "nat loop_state" where
  "demo_loop_state = \<lparr>ls_context = demo_context\<lparr>ctx_messages := [demo_prompt]\<rparr>,
     ls_config = demo_loop_config\<lparr>lc_getFollowUpMessages := Some (\<lambda>w. (Inr [demo_prompt], w))\<rparr>,
     ls_new = [demo_prompt], ls_pending = [], ls_first = False, ls_more = False\<rparr>"

theorem loop_context_in_step_witness:
  "loop_reachable demo_env demo_stream demo_loop_state
       (demo_loop_state\<lparr>ls_pending := [demo_prompt], ls_more := True\<rparr>)
     \<and> ctx_messages (ls_context (demo_loop_state\<lparr>ls_pending := [demo_prompt], ls_more := True\<rparr>))
       = [] @ ls_new (demo_loop_state\<lparr>ls_pending := [demo_prompt], ls_more := True\<rparr>)"
proof -
  have "loop_step demo_env demo_stream demo_loop_state demo_start
      = (Inr (Next_turn (demo_loop_state\<lparr>ls_pending := [demo_prompt], ls_more := True\<rparr>)), demo_start)"
    by (simp add: loop_step_def loop_follow_up_def demo_loop_state_def poll_def and_then_def call_def ret_def)
  from reach_step [OF reach_start this]
  have reach: "loop_reachable demo_env demo_stream demo_loop_state
       (demo_loop_state\<lparr>ls_pending := [demo_prompt], ls_more := True\<rparr>)" .
  have "one_start demo_stream" by (auto simp: one_start_def demo_stream_def Let_def)
  from loop_context_in_step [OF this _ _ reach, of "[]"] reach show ?thesis
    by (auto simp: demo_loop_state_def demo_loop_config_def)
qed

text \<open>
  \<^verbatim>\<open>agentLoop\<close>: when the callbacks leave the stream alone, the stream of a run that
  returns is done, its queue holds every event of the run in order, and its result is the run's messages.
\<close>

theorem agent_loop_stream:
  assumes "agentLoop n env sf prompts ctx cfg v = Some s'"
    and "runAgentLoop n (env\<lparr>env_emit := stream_sink\<rparr>) sf prompts ctx cfg
           \<lparr>emitted = [], world = (es_new, v)\<rparr> = Some (Inr ms, s1)"
    and "stream_fn_obeys (follows fst push_event) sf" "loop_config_obeys (follows fst push_event) cfg"
    and "tools_obey (follows fst push_event) ctx"
  shows "es_done (fst (world s')) \<and> es_final (fst (world s')) = Some ms
    \<and> es_queue (fst (world s')) = emitted s'"
proof -
  let ?env = "env\<lparr>env_emit := stream_sink\<rparr>" and ?s = "\<lparr>emitted = [], world = (es_new, v)\<rparr>"
  have sink: "sink_obeys (follows fst push_event) (env_emit ?env)" by (simp add: stream_sink_follows)
  from agent_following.runAgentLoop_obeys [OF sink assms(3-5) assms(2)]
  have st: "fst (world s1) = foldl push_event es_new (emitted s1)" by (auto simp: follows_def)
  from traced_runAgentLoop [of ?s n ?env sf prompts ctx cfg] assms(2) obtain q where
    acc: "accepts protocol_step protocol_start (emitted s1) = Some q" and q: "at_phase Over ms q"
    by (auto simp: traced_def)
  from over_ends [OF acc] q obtain us where
    us: "emitted s1 = us @ [Agent_end ms]" "\<forall>e\<in>set us. \<not> agent_is_complete e"
    by (auto simp: at_phase_def protocol_start_def)
  from push_all [OF us(2), of es_new] us(1) st
  have "fst (world s1) = \<lparr>es_queue = us @ [Agent_end ms], es_waiting = [], es_done = True, es_final = Some ms\<rparr>"
    by (simp add: es_new_def push_event_def es_push_def es_deliver_def settle_def)
  with assms(1,2) us(1) show ?thesis
    by (simp add: agentLoop_def end_stream_def es_end_def settle_def) (auto simp: settle_def)
qed

text \<open>A provider that answers at once, on a world that holds the stream.\<close>

definition calm_env :: "(agent_stream \<times> unit) tool_env" where
  "calm_env = \<lparr>env_emit = stream_sink, env_validateToolArguments = (\<lambda>t c. Inr (call_arguments c)),
     env_now = (\<lambda>w. 0), env_schedule = (\<lambda>w is. 0)\<rparr>"

definition calm_stream :: "(agent_stream \<times> unit) stream_fn" where
  "calm_stream md c cfg = (\<lambda>w. (Inr \<lparr>resp_events = [Ev_done SR_stop demo_stop], resp_result = Inr demo_stop\<rparr>, w))"

definition calm_context :: "(agent_stream \<times> unit) agent_context" where
  "calm_context = \<lparr>ctx_systemPrompt = [], ctx_messages = [], ctx_tools = None\<rparr>"

definition calm_config :: "(agent_stream \<times> unit) loop_config" where
  "calm_config = \<lparr>lc_model = demo_model, lc_reasoning = None, lc_apiKey = None,
     lc_tools = \<lparr>cfg_toolExecution = None, cfg_beforeToolCall = None, cfg_afterToolCall = None\<rparr>,
     lc_convertToLlm = (\<lambda>ms w. (Inr (convertToLlm ms), w)),
     lc_transformContext = None, lc_getApiKey = None, lc_shouldStopAfterTurn = None,
     lc_prepareNextTurn = None, lc_getSteeringMessages = None, lc_getFollowUpMessages = None\<rparr>"

lemma stream_sink_reliable: "reliable_sink stream_sink"
  by (auto simp: reliable_sink_def stream_sink_def es_push_def es_deliver_def
      split: prod.splits sum.splits list.splits if_splits elim: agent_extract.elims)

lemma calm_obeys:
  assumes "\<And>w. P w [] w"
  shows "stream_fn_obeys P calm_stream" "loop_config_obeys P calm_config" "tools_obey P calm_context"
  using assms by (auto simp: stream_fn_obeys_def callback_obeys_def calm_stream_def loop_config_obeys_def
      calm_config_def tool_config_obeys_def hook_obeys_def poll_obeys_def tools_obey_def calm_context_def)

lemma calm_answers: "config_answers calm_config" "stream_answers calm_stream"
  by (auto simp: config_answers_def calm_config_def answers_def hook_answers_def poll_answers_def
      stream_answers_def calm_stream_def)

lemma calm_run:
  obtains ms s1 where "runAgentLoop 2 (calm_env\<lparr>env_emit := stream_sink\<rparr>) calm_stream [demo_prompt]
    calm_context calm_config \<lparr>emitted = [], world = (es_new, ())\<rparr> = Some (Inr ms, s1)"
proof -
  let ?f = "\<lambda>w :: agent_stream \<times> unit. 0 :: nat"
  let ?s = "\<lparr>emitted = [] :: agent_event list, world = (es_new :: agent_stream, ())\<rparr>"
  have sink: "sink_obeys (shrinks ?f) (env_emit (calm_env\<lparr>env_emit := stream_sink\<rparr>))"
    by (simp add: sink_obeys_def shrinks_def)
  have dry: "dries_up ?f calm_config calm_stream"
    by (auto simp: dries_up_def calm_config_def calm_stream_def demo_stop_def sample_assistant_def)
  have rel: "reliable_sink (env_emit (calm_env\<lparr>env_emit := stream_sink\<rparr>))"
    by (simp add: stream_sink_reliable)
  have "\<exists>ms s1. runAgentLoop 2 (calm_env\<lparr>env_emit := stream_sink\<rparr>) calm_stream [demo_prompt]
    calm_context calm_config ?s = Some (Inr ms, s1)"
    by (rule runAgentLoop_completes [OF rel calm_answers sink calm_obeys dry])
      (simp_all add: shrinks_def)
  with that show thesis by blast
qed

theorem agent_loop_stream_witness:
  "\<exists>s' ms. agentLoop 2 calm_env calm_stream [demo_prompt] calm_context calm_config () = Some s'
     \<and> es_final (fst (world s')) = Some ms \<and> es_queue (fst (world s')) = emitted s'"
proof -
  obtain ms s1 where run: "runAgentLoop 2 (calm_env\<lparr>env_emit := stream_sink\<rparr>) calm_stream [demo_prompt]
    calm_context calm_config \<lparr>emitted = [], world = (es_new, ())\<rparr> = Some (Inr ms, s1)" by (rule calm_run)
  then obtain s' where "agentLoop 2 calm_env calm_stream [demo_prompt] calm_context calm_config () = Some s'"
    by (simp add: agentLoop_def end_stream_def)
  from agent_loop_stream [OF this run calm_obeys] this show ?thesis
    by (auto simp: follows_def)
qed

end
