(* ===== verification/Loop_Stop.thy ===== *)
theory Loop_Stop
  imports Agent_Loop
begin

text \<open>
  What the loop does after a response that failed or was aborted, over whole runs of
  \<^verbatim>\<open>runAgentLoop\<close> and \<^verbatim>\<open>runAgentLoopContinue\<close>. A second acceptor reads the trace: a turn
  that ends with a failed response must end right after that response, without tool results,
  and nothing but \<open>agent_end\<close> may follow.
\<close>

section \<open>The acceptor\<close>

fun failed_message :: "agent_message \<Rightarrow> bool" where
  "failed_message (Llm (AssistantM m)) = (am_stopReason m = SR_error \<or> am_stopReason m = SR_aborted)"
| "failed_message _ = False"

text \<open>\<open>Going e\<close> remembers the last event; \<open>Stopping\<close> follows the end of a failed turn.\<close>

datatype stop_phase = Going "agent_event option" | Stopping | Stopped

fun stop_step :: "stop_phase \<Rightarrow> agent_event \<Rightarrow> stop_phase option" where
  "stop_step (Going e) (Turn_end m rs) =
     (if failed_message m
      then if rs = [] \<and> e = Some (Message_end m) then Some Stopping else None
      else Some (Going (Some (Turn_end m rs))))"
| "stop_step (Going e) x = Some (Going (Some x))"
| "stop_step Stopping (Agent_end ms) = Some Stopped"
| "stop_step Stopping _ = None"
| "stop_step Stopped _ = None"

fun ends_turn :: "agent_event \<Rightarrow> bool" where
  "ends_turn (Turn_end m rs) = True"
| "ends_turn _ = False"

definition going :: "stop_phase \<Rightarrow> bool" where
  "going q \<longleftrightarrow> (\<exists>e. q = Going e)"

lemma going_Going [simp]: "going (Going e)"
  by (simp add: going_def)

lemma goingE: "going q \<Longrightarrow> (\<And>e. q = Going e \<Longrightarrow> P) \<Longrightarrow> P"
  by (auto simp: going_def)

lemma stop_step_going: "\<not> ends_turn x \<Longrightarrow> stop_step (Going e) x = Some (Going (Some x))"
  by (cases x) simp_all

lemma accepts_going:
  "\<forall>x\<in>set xs. \<not> ends_turn x \<Longrightarrow> \<exists>e'. accepts stop_step (Going e) xs = Some (Going e')"
  by (induction xs arbitrary: e) (auto simp: stop_step_going)

lemma accepts_stopped: "accepts stop_step Stopped xs = Some q \<Longrightarrow> xs = []"
  by (cases xs) auto

lemma accepts_stopping:
  "accepts stop_step Stopping xs \<noteq> None \<Longrightarrow> xs = [] \<or> (\<exists>ms. xs = [Agent_end ms])"
proof (cases xs)
  case (Cons x ys)
  assume "accepts stop_step Stopping xs \<noteq> None"
  with Cons show ?thesis by (cases x) (auto dest: accepts_stopped)
qed simp

lemma accepts_last:
  "accepts stop_step (Going e) xs = Some (Going (Some x)) \<Longrightarrow> xs \<noteq> [] \<Longrightarrow> \<exists>ys. xs = ys @ [x]"
proof (induction xs rule: rev_induct)
  case (snoc y ys)
  from snoc.prems(1) obtain q where q: "stop_step q y = Some (Going (Some x))"
    by (auto simp: accepts_append split: option.splits)
  have "y = x" using q by (cases "(q, y)" rule: stop_step.cases) (auto split: if_splits)
  then show ?case by blast
qed simp

text \<open>What acceptance says of a failed turn.\<close>

lemma accepted_failed_turn:
  assumes "accepts stop_step (Going None) (pre @ Turn_end m rs # rest) \<noteq> None" and "failed_message m"
  shows "rs = [] \<and> (\<exists>before. pre = before @ [Message_end m]) \<and> (rest = [] \<or> (\<exists>ms. rest = [Agent_end ms]))"
proof -
  from assms(1) obtain q where pre: "accepts stop_step (Going None) pre = Some q"
    and rest: "accepts stop_step q (Turn_end m rs # rest) \<noteq> None"
    by (auto simp: accepts_append split: option.splits)
  from rest assms(2) have q: "q = Going (Some (Message_end m))" and rs: "rs = []"
    and stopping: "accepts stop_step Stopping rest \<noteq> None"
    by (cases q; auto split: if_splits)+
  from pre q have "pre \<noteq> []" by auto
  with accepts_last [OF pre [unfolded q]] rs accepts_stopping [OF stopping] show ?thesis by blast
qed

section \<open>The batch of a message ends no turn\<close>

lemma open_stays:
  assumes "accepts protocol_step p ts \<noteq> None" and "x \<in># pr_open p" and "x \<notin> set (ends ts)"
  shows "\<forall>e\<in>set ts. \<not> ends_turn e"
  using assms
proof (induction ts arbitrary: p)
  case (Cons e ts)
  from Cons.prems(1) obtain q where q: "protocol_step p e = Some q" "accepts protocol_step q ts \<noteq> None"
    by (auto split: option.splits)
  have rest: "x \<notin> set (ends ts)" and fresh: "x \<notin> set (ends [e])"
    using Cons.prems(3) by (simp_all add: ends_Cons [of e ts])
  have "x \<in># pr_open q + mset (ends [e])"
    unfolding protocol_step_open [OF q(1)] using Cons.prems(2) by simp
  with fresh have x: "x \<in># pr_open q" by auto
  have "\<not> ends_turn e"
    using q(1) Cons.prems(2) by (cases e) (auto split: if_splits)
  with Cons.IH [OF q(2) x rest] show ?case by simp
qed simp

text \<open>The batch runs in any phase of a turn, so also beside an execution with an id it never ends.\<close>

lemma executeToolCalls_quiet:
  assumes "executeToolCalls env cfg ctx m s = (r, s')"
  obtains ts where "emitted s' = emitted s @ ts" and "\<forall>e\<in>set ts. \<not> ends_turn e"
proof -
  note batch = phased_executeToolCalls [of _ "[]" "[]" env cfg ctx m]
  have acc: "\<exists>ts. emitted s' = emitted s @ ts \<and> accepts protocol_step (in_turn M [] []) ts \<noteq> None" for M
    using phased_errD [OF batch, of s _ s' M] phased_okD [OF batch, of s _ s' M] assms
    by (cases r) (fastforce simp del: accepts.simps)+
  then obtain ts where ts: "emitted s' = emitted s @ ts" by blast
  obtain x :: jstr where x: "x \<notin> set (ends ts)"
    using ex_new_if_finite [of "set (ends ts)"] infinite_UNIV_listI by blast
  from acc [of "{#x#}"] ts have "accepts protocol_step (in_turn {#x#} [] []) ts \<noteq> None" by auto
  from open_stays [OF this _ x] have "\<forall>e\<in>set ts. \<not> ends_turn e" by simp
  with ts that show thesis by blast
qed

lemma stop_executeToolCalls:
  "phased stop_step (Going e) (executeToolCalls env cfg ctx m) (\<lambda>_. going)"
  by (rule phasedI; erule executeToolCalls_quiet)
    (use accepts_going in \<open>fastforce simp: going_def\<close>)+

section \<open>The loop\<close>

lemma stop_emit:
  "\<not> ends_turn x \<Longrightarrow> phased stop_step (Going e) (emit sink x) (\<lambda>_ q. q = Going (Some x))"
  by (rule phased_emit) (simp_all add: stop_step_going)

lemma stop_announce: "phased stop_step (Going e) (announce env m) (\<lambda>_. going)"
  unfolding announce_def
  by (rule phased_and_then [OF stop_emit]) (auto intro: phased_mono [OF stop_emit])

lemma stop_announce_all: "going q \<Longrightarrow> phased stop_step q (for_each ms (announce env)) (\<lambda>_. going)"
  by (rule phased_for_each [where I = "\<lambda>_. going"]) (auto elim!: goingE intro: stop_announce)

lemma stop_finish_response:
  "phased stop_step (Going e) (finish_response env result msgs added)
     (\<lambda>(ms, final) q. q = Going (Some (Message_end (assistant_agent_message final))))"
proof (cases result)
  case (Inl x)
  then show ?thesis by (simp add: finish_response_def phased_throw)
next
  case (Inr final)
  let ?fm = "assistant_agent_message final"
  have start: "phased stop_step (Going e)
      (if added then ret () else emit (env_emit env) (Message_start ?fm)) (\<lambda>_. going)"
    by (auto intro!: phased_ret phased_mono [OF stop_emit])
  have stop: "phased stop_step (Going d) (emit (env_emit env) (Message_end ?fm))
      (\<lambda>_ q. q = Going (Some (Message_end ?fm)))" for d
    by (rule stop_emit) simp
  show ?thesis
    unfolding finish_response_def Inr sum.case Let_def
    by (rule phased_and_then [OF start], unfold going_def, erule exE, hypsubst,
        rule phased_and_then [OF stop]) (simp add: phased_ret)
qed

lemma stop_consume_events:
  "phased stop_step (Going e) (consume_events env result evs msgs partial added)
     (\<lambda>(ms, final) q. q = Going (Some (Message_end (assistant_agent_message final))))"
proof (induction evs arbitrary: e msgs partial added)
  case Nil
  show ?case by (simp add: stop_finish_response)
next
  case (Cons ev evs)
  show ?case
    by (cases ev; cases partial)
      (auto simp: stop_finish_response Let_def Cons.IH intro!: phased_and_then [OF stop_emit])
qed

lemma stop_silent: "phased \<delta> q (call f) (\<lambda>_ r. r = q)"
  by (rule phased_call) simp

lemma stop_streamAssistantResponse:
  "phased stop_step (Going e) (streamAssistantResponse env sf ctx cfg)
     (\<lambda>(ctx', final) q. q = Going (Some (Message_end (assistant_agent_message final))))"
  unfolding streamAssistantResponse_def Let_def
  by (rule phased_and_then [OF phased_hook], simp only:,
      rule phased_and_then [OF stop_silent], simp only:,
      rule phased_and_then [OF phased_resolve_api_key [where Q = "\<lambda>_ r. r = Going e"]], simp, simp only:,
      rule phased_and_then [OF stop_silent], simp only:,
      rule phased_and_then [OF stop_consume_events]) (auto intro: phased_ret)

definition stop_outcome :: "'w turn_outcome \<Rightarrow> stop_phase \<Rightarrow> bool" where
  "stop_outcome r q = (case r of Finish ms \<Rightarrow> True | Next_turn st \<Rightarrow> going q)"

lemma stop_end_agent:
  "phased stop_step (Going e) (and_then (end_agent env L) (\<lambda>ms. ret (Finish ms))) stop_outcome"
  unfolding end_agent_def and_then_assoc
  by (rule phased_and_then [OF stop_emit]) (auto simp: stop_outcome_def intro: phased_ret)

lemma stop_results:
  "phased stop_step (Going e)
     (if tool_calls_of (am_content message) = [] then ret ([], False)
      else and_then (executeToolCalls env cfg ctx message) (\<lambda>batch.
           ret (batch_messages batch, \<not> batch_terminate batch)))
     (\<lambda>_. going)"
  by (auto intro!: phased_ret phased_and_then [OF stop_executeToolCalls])

lemma stop_turn_end:
  "\<not> failed_message m \<Longrightarrow>
   phased stop_step (Going e) (emit sink (Turn_end m rs)) (\<lambda>_ q. q = Going (Some (Turn_end m rs)))"
  by (rule phased_emit) simp_all

lemma stop_after_response:
  "phased stop_step (Going (Some (Message_end (assistant_agent_message message))))
     (after_response env ctx cfg new message) stop_outcome"
proof (cases "am_stopReason message = SR_error \<or> am_stopReason message = SR_aborted")
  case True
  then have "failed_message (assistant_agent_message message)"
    by (simp add: assistant_agent_message_def)
  then have closed: "phased stop_step (Going (Some (Message_end (assistant_agent_message message))))
      (emit (env_emit env) (Turn_end (assistant_agent_message message) [])) (\<lambda>_ q. q = Stopping)"
    by (intro phased_emit) simp_all
  show ?thesis
    unfolding after_response_def if_P [OF True] end_agent_def and_then_assoc
    by (rule phased_and_then [OF closed], simp only:, rule phased_and_then [OF phased_emit [where q = Stopped and Q = "\<lambda>_ _. True"]])
      (auto simp: stop_outcome_def intro: phased_ret)
next
  case False
  then have ok: "\<not> failed_message (assistant_agent_message message)"
    by (simp add: assistant_agent_message_def)
  show ?thesis
    unfolding after_response_def if_not_P [OF False] Let_def
    apply (rule phased_and_then [OF stop_results], erule goingE, clarsimp)
    apply (rule phased_and_then [OF stop_turn_end [OF ok]], clarsimp)
    apply (rule phased_and_then [OF phased_hook], clarsimp split: prod.splits)
    apply (rule phased_and_then [OF phased_hook], clarsimp)
    apply (auto intro!: stop_end_agent phased_and_then [OF phased_poll [where Q = "\<lambda>_. going"]] phased_ret
        simp: stop_outcome_def)
    done
qed

lemma stop_loop_turn: "phased stop_step (Going e) (loop_turn env sf st) stop_outcome"
  unfolding loop_turn_def Let_def
proof (rule phased_and_then [where Q = "\<lambda>_. going"])
  show "phased stop_step (Going e) (if ls_first st then ret () else emit (env_emit env) Turn_start) (\<lambda>_. going)"
    by (auto intro!: phased_ret phased_mono [OF stop_emit])
next
  fix u q assume "going q"
  from stop_announce_all [OF this]
  show "phased stop_step q (and_then (for_each (ls_pending st) (announce env)) (\<lambda>_.
      and_then (streamAssistantResponse env sf ((ls_context st)
          \<lparr>ctx_messages := ctx_messages (ls_context st) @ ls_pending st\<rparr>) (ls_config st)) (\<lambda>(ctx', message).
        after_response env ctx' (ls_config st)
          ((ls_new st @ ls_pending st) @ [assistant_agent_message message]) message))) stop_outcome"
    by (rule phased_and_then)
      (auto elim!: goingE intro!: phased_and_then [OF stop_streamAssistantResponse] stop_after_response)
qed

lemma stop_loop_step: "going q \<Longrightarrow> phased stop_step q (loop_step env sf st) stop_outcome"
  unfolding loop_step_def loop_follow_up_def
  by (auto elim!: goingE intro!: stop_loop_turn stop_end_agent phased_ret
      phased_and_then [OF phased_poll [where Q = "\<lambda>_. going"]] simp: stop_outcome_def)

text \<open>A computation with fuel, given by its outcome, has an accepted trace.\<close>

definition stops :: "stop_phase \<Rightarrow> (agent_event, 'w) rt \<Rightarrow> ('r \<times> (agent_event, 'w) rt) option \<Rightarrow> bool" where
  "stops q s out \<longleftrightarrow>
     (\<forall>r s'. out = Some (r, s') \<longrightarrow> (\<exists>ts. emitted s' = emitted s @ ts \<and> accepts stop_step q ts \<noteq> None))"

lemma stops_step:
  assumes "emitted s1 = emitted s @ us" and "accepts stop_step p us = Some q" and "stops q s1 out"
  shows "stops p s out"
  using assms unfolding stops_def by (force simp: accepts_append)

lemma stops_here:
  "emitted s1 = emitted s @ us \<Longrightarrow> accepts stop_step p us = Some q \<Longrightarrow> stops p s (Some (r, s1))"
  by (auto simp: stops_def)

lemma stops_and_then:
  assumes "phased stop_step q m Q"
    and "\<And>a s' q'. Q a q' \<Longrightarrow> stops q' s' (rest a s')"
  shows "stops q s (case m s of (Inl e, s') \<Rightarrow> Some (Inl e, s') | (Inr a, s') \<Rightarrow> rest a s')"
proof -
  obtain r s1 where run: "m s = (r, s1)" by fastforce
  show ?thesis
  proof (cases r)
    case (Inl e)
    with phased_errD [OF assms(1) run [unfolded Inl]] run show ?thesis by (auto intro: stops_here)
  next
    case (Inr a)
    with phased_okD [OF assms(1) run [unfolded Inr]] assms(2) run show ?thesis
      by (auto intro: stops_step)
  qed
qed

lemma stops_run_loop: "going q \<Longrightarrow> stops q s (run_loop n env sf st s)"
proof (induction n arbitrary: st q s)
  case 0
  show ?case by (simp add: stops_def)
next
  case (Suc n)
  have shape: "run_loop (Suc n) env sf st s =
      (case loop_step env sf st s of (Inl e, s') \<Rightarrow> Some (Inl e, s')
        | (Inr a, s') \<Rightarrow> (case a of Finish ms \<Rightarrow> Some (Inr ms, s') | Next_turn st' \<Rightarrow> run_loop n env sf st' s'))"
    by (auto split: prod.splits sum.splits turn_outcome.splits)
  show ?case
    unfolding shape
    by (rule stops_and_then [OF stop_loop_step [OF Suc.prems]])
      (auto simp: stop_outcome_def intro: Suc.IH stops_here [of _ _ "[]"] split: turn_outcome.splits)
qed

lemma stops_runLoop: "going q \<Longrightarrow> stops q s (runLoop n env sf ctx new cfg s)"
  unfolding runLoop_def
  by (rule stops_and_then [OF phased_poll [where Q = "\<lambda>_. going"]]) (auto intro: stops_run_loop)

lemma stop_open_run: "phased stop_step (Going e) (open_run env prompts) (\<lambda>_. going)"
  unfolding open_run_def
  by (rule phased_and_then [OF stop_emit], simp, simp only:, rule phased_and_then [OF stop_emit])
    (auto intro: stop_announce_all)

lemma stops_runAgentLoop: "stops (Going e) s (runAgentLoop n env sf prompts ctx cfg s)"
  unfolding runAgentLoop_def Let_def
  by (rule stops_and_then [OF stop_open_run]) (rule stops_runLoop)

lemma stops_runAgentLoopContinue: "stops (Going e) s (runAgentLoopContinue n env sf ctx cfg s)"
  unfolding runAgentLoopContinue_def
  by (cases "check_continue ctx")
    (auto intro: stops_here [of _ _ "[]"] stops_runLoop stops_and_then [OF stop_open_run])

text \<open>A run that returns ends with \<open>agent_end\<close>, carrying the messages it returns.\<close>

lemma returned_run_over:
  assumes "traced protocol_start s (Some (Inr ms, s'))" and "emitted s' = emitted s @ ts"
  shows "message_ends ts = ms \<and> (\<exists>us. ts = us @ [Agent_end ms])"
proof -
  from assms obtain q where acc: "accepts protocol_step protocol_start ts = Some q" and q: "at_phase Over ms q"
    by (auto simp: traced_def)
  from accepts_log [OF acc] q over_ends [OF acc] show ?thesis
    by (auto simp: at_phase_def protocol_start_def)
qed

lemma failed_turn_last:
  assumes "traced protocol_start s (Some (r, s'))" and "stops (Going None) s (Some (r, s'))"
    and trace: "emitted s' = emitted s @ pre @ Turn_end m rs # rest" and "failed_message m"
  shows "rs = [] \<and> (\<exists>before. pre = before @ [Message_end m])
    \<and> (case r of Inl e \<Rightarrow> rest = [] \<or> (\<exists>ms. rest = [Agent_end ms])
       | Inr ms \<Rightarrow> rest = [Agent_end ms] \<and> ms = message_ends pre)"
proof -
  from assms(2) trace have "accepts stop_step (Going None) (pre @ Turn_end m rs # rest) \<noteq> None"
    by (auto simp: stops_def)
  note turn = accepted_failed_turn [OF this assms(4)]
  have "rest = [Agent_end ms] \<and> ms = message_ends pre" if r: "r = Inr ms" for ms
  proof -
    from returned_run_over [OF assms(1) [unfolded r] trace] obtain us where
      log: "message_ends (pre @ Turn_end m rs # rest) = ms"
      and over: "pre @ Turn_end m rs # rest = us @ [Agent_end ms]" by blast
    from turn over have "rest = [Agent_end ms]" by (cases rest rule: rev_cases) auto
    with log show ?thesis by (simp add: message_ends_append)
  qed
  with turn show ?thesis by (auto split: sum.splits)
qed

section \<open>Properties\<close>

text \<open>A provider whose response is aborted after it asked for a tool.\<close>

definition aborted_response :: assistant_message where
  "aborted_response = sample_assistant [AToolCall (sample_call ''a'' ''read'')] SR_aborted"

definition aborting_stream :: "nat stream_fn" where
  "aborting_stream md c cfg = (\<lambda>w.
     (Inr \<lparr>resp_events = [Ev_start aborted_response, Ev_done SR_stop aborted_response],
           resp_result = Inr aborted_response\<rparr>, w))"

lemma aborted_run:
  "\<exists>ms s'. runAgentLoop 1 demo_env aborting_stream [demo_prompt] demo_context demo_loop_config demo_start
       = Some (Inr ms, s')
     \<and> emitted s' = emitted demo_start @
         [Agent_start, Turn_start, Message_start demo_prompt, Message_end demo_prompt,
          Message_start (assistant_agent_message aborted_response),
          Message_end (assistant_agent_message aborted_response)]
         @ Turn_end (assistant_agent_message aborted_response) [] # [Agent_end ms]"
  by (simp add: runAgentLoop_def runLoop_def loop_step_def loop_turn_def open_run_def announce_def
      after_response_def end_agent_def streamAssistantResponse_def resolve_api_key_def poll_def
      finish_response_def aborting_stream_def aborted_response_def sample_assistant_def demo_env_def
      demo_start_def demo_loop_config_def and_then_def emit_def ret_def call_def Let_def)

text \<open>
  C5: A response that failed or was aborted stops the run. In the trace of any run, begun or
  continued, with any provider, tools, hooks and queues: a turn that ends with such a response ends
  directly after the response itself, with no tool execution in between and no tool results, and the only
  event that may follow is \<open>agent_end\<close>: no further turn, no further request. A run that
  returns does emit it, and returns the messages that had ended by then.
\<close>

theorem failed_response_stops:
  assumes "runAgentLoop n env sf prompts ctx cfg s = Some (r, s')
      \<or> runAgentLoopContinue n env sf ctx cfg s = Some (r, s')"
    and "emitted s' = emitted s @ pre @ Turn_end (assistant_agent_message m) rs # rest"
    and "am_stopReason m = SR_error \<or> am_stopReason m = SR_aborted"
  shows "rs = [] \<and> (\<exists>before. pre = before @ [Message_end (assistant_agent_message m)])
    \<and> (case r of Inl e \<Rightarrow> rest = [] \<or> (\<exists>ms. rest = [Agent_end ms])
       | Inr ms \<Rightarrow> rest = [Agent_end ms] \<and> ms = message_ends pre)"
proof (rule failed_turn_last [OF _ _ assms(2)])
  show "traced protocol_start s (Some (r, s'))" "stops (Going None) s (Some (r, s'))"
    using assms(1) by (metis traced_runAgentLoop traced_runAgentLoopContinue,
      metis stops_runAgentLoop stops_runAgentLoopContinue)
  show "failed_message (assistant_agent_message m)"
    using assms(3) by (simp add: assistant_agent_message_def)
qed

theorem failed_response_stops_witness:
  "\<exists>ms s' pre. runAgentLoop 1 demo_env aborting_stream [demo_prompt] demo_context demo_loop_config demo_start
       = Some (Inr ms, s')
     \<and> emitted s' = pre @ [Message_end (assistant_agent_message aborted_response),
         Turn_end (assistant_agent_message aborted_response) [], Agent_end ms]
     \<and> ms = [demo_prompt, assistant_agent_message aborted_response]"
proof -
  from aborted_run obtain ms s' pre where
    run: "runAgentLoop 1 demo_env aborting_stream [demo_prompt] demo_context demo_loop_config demo_start
       = Some (Inr ms, s')"
    and trace: "emitted s' = emitted demo_start @ pre
       @ Turn_end (assistant_agent_message aborted_response) [] # [Agent_end ms]"
    and log: "message_ends pre = [demo_prompt, assistant_agent_message aborted_response]" by fastforce
  have "am_stopReason aborted_response = SR_error \<or> am_stopReason aborted_response = SR_aborted"
    by (simp add: aborted_response_def sample_assistant_def)
  from failed_response_stops [OF disjI1 [OF run] trace this] run trace log show ?thesis
    by (auto simp: demo_start_def)
qed

end
