(* ===== verification/Message_Queue.thy ===== *)
theory Message_Queue
  imports Messages
begin

text \<open>
  The queue of steering and follow-up messages: class \<^verbatim>\<open>PendingMessageQueue\<close> of
  \<^verbatim>\<open>packages/agent/src/agent.ts\<close>, which drains either everything or one message at a time.

  The agent relies on three laws, which the locale \<open>drain_queue\<close> states: an enqueued
  message goes to the end, a drain takes a prefix, and a drain of a queue with messages takes at
  least one. Its lemmas say that a queue with these laws delivers every message once, in order.
\<close>

section \<open>The interface\<close>

datatype 'm queue_op = Put 'm | Take

fun puts :: "'m queue_op list \<Rightarrow> 'm list" where
  "puts [] = []"
| "puts (Put m # ops) = m # puts ops"
| "puts (Take # ops) = puts ops"

text \<open>Running operations on a queue, collecting what the drains give.\<close>

fun queue_run ::
    "('m \<Rightarrow> 'q \<Rightarrow> 'q) \<Rightarrow> ('q \<Rightarrow> 'm list \<times> 'q) \<Rightarrow> 'q \<Rightarrow> 'm queue_op list \<Rightarrow> 'm list \<times> 'q" where
  "queue_run put drain q [] = ([], q)"
| "queue_run put drain q (Put m # ops) = queue_run put drain (put m q) ops"
| "queue_run put drain q (Take # ops) =
     (case drain q of (ms, q') \<Rightarrow>
        (case queue_run put drain q' ops of (ns, q'') \<Rightarrow> (ms @ ns, q'')))"

locale drain_queue =
  fixes put :: "'m \<Rightarrow> 'q \<Rightarrow> 'q" and drain :: "'q \<Rightarrow> 'm list \<times> 'q" and content :: "'q \<Rightarrow> 'm list"
  assumes put_last: "content (put m q) = content q @ [m]"
    and drain_prefix: "drain q = (ms, q') \<Longrightarrow> ms @ content q' = content q"
    and drain_some: "drain q = (ms, q') \<Longrightarrow> content q \<noteq> [] \<Longrightarrow> ms \<noteq> []"
begin

lemma delivers_in_order:
  "queue_run put drain q ops = (ms, q') \<Longrightarrow> ms @ content q' = content q @ puts ops"
proof (induction ops arbitrary: q ms q' rule: puts.induct)
  case 1
  then show ?case by simp
next
  case (2 m ops)
  then show ?case by (fastforce simp: put_last)
next
  case (3 ops)
  obtain as p where d: "drain q = (as, p)" by fastforce
  with "3.prems" obtain bs where "queue_run put drain p ops = (bs, q')" "ms = as @ bs"
    by (auto split: prod.splits)
  then have "as @ bs @ content q' = as @ content p @ puts ops" using "3.IH" by simp
  also have "\<dots> = content q @ puts ops" using drain_prefix [OF d] by (metis append_assoc)
  finally show ?case using \<open>ms = as @ bs\<close> by simp
qed

lemma drain_shrinks:
  "drain q = (ms, q') \<Longrightarrow> ms \<noteq> [] \<Longrightarrow> length (content q') < length (content q)"
  using drain_prefix by (metis length_append length_greater_0_conv less_add_same_cancel2)

lemma drain_never_grows: "drain q = (ms, q') \<Longrightarrow> length (content q') \<le> length (content q)"
  using drain_prefix by (metis length_append le_add2)

lemma drains_empty:
  "length (content q) \<le> n \<Longrightarrow>
   queue_run put drain q (replicate n Take) = (ms, q') \<Longrightarrow> content q' = [] \<and> ms = content q"
proof (induction n arbitrary: q ms)
  case 0
  then show ?case by simp
next
  case (Suc n)
  obtain as p where d: "drain q = (as, p)" by fastforce
  with Suc.prems obtain bs where run: "queue_run put drain p (replicate n Take) = (bs, q')"
    and ms: "ms = as @ bs"
    by (auto split: prod.splits)
  have "length (content p) \<le> n"
    using drain_shrinks [OF d] drain_some [OF d] drain_prefix [OF d] Suc.prems(1)
    by (cases "content q = []") auto
  from Suc.IH [OF this run] ms drain_prefix [OF d] show ?case by simp
qed

end

section \<open>The queue of the agent\<close>

record pending_queue =
  pq_messages :: "agent_message list"
  pq_mode :: queue_mode

definition new_queue :: "queue_mode \<Rightarrow> pending_queue" where
  "new_queue mode = \<lparr>pq_messages = [], pq_mode = mode\<rparr>"

definition enqueue :: "agent_message \<Rightarrow> pending_queue \<Rightarrow> pending_queue" where
  "enqueue m q = q\<lparr>pq_messages := pq_messages q @ [m]\<rparr>"

definition hasItems :: "pending_queue \<Rightarrow> bool" where
  "hasItems q \<longleftrightarrow> length (pq_messages q) > 0"

definition drain_pending :: "pending_queue \<Rightarrow> agent_message list \<times> pending_queue" where
  "drain_pending q =
     (if pq_mode q = Queue_all then (pq_messages q, q\<lparr>pq_messages := []\<rparr>)
      else (case nth_opt (pq_messages q) 0 of
              None \<Rightarrow> ([], q)
            | Some first \<Rightarrow> ([first], q\<lparr>pq_messages := drop 1 (pq_messages q)\<rparr>)))"

definition clear_queue :: "pending_queue \<Rightarrow> pending_queue" where
  "clear_queue q = q\<lparr>pq_messages := []\<rparr>"

interpretation pending: drain_queue enqueue drain_pending pq_messages
proof
  fix m q show "pq_messages (enqueue m q) = pq_messages q @ [m]" by (simp add: enqueue_def)
next
  fix q ms q' assume "drain_pending q = (ms, q')"
  then show "ms @ pq_messages q' = pq_messages q"
    by (cases "pq_messages q") (auto simp: drain_pending_def nth_opt_def split: if_splits)
next
  fix q ms q' assume "drain_pending q = (ms, q')" and "pq_messages q \<noteq> []"
  then show "ms \<noteq> []"
    by (cases "pq_messages q") (auto simp: drain_pending_def nth_opt_def split: if_splits)
qed

lemma drain_one: "pq_mode q = Queue_one_at_a_time \<Longrightarrow> drain_pending q = (ms, q') \<Longrightarrow> length ms \<le> 1"
  by (auto simp: drain_pending_def split: option.splits)

text \<open>
  In both modes, whatever the interleaving of messages queued and drains, the messages drained so far
  followed by those still queued are the messages queued, in order; as many drains
  as there are messages empty the queue.
\<close>

theorem queue_delivers_everything:
  assumes "queue_run enqueue drain_pending (new_queue mode) ops = (ms, q)"
  shows "ms @ pq_messages q = puts ops
    \<and> (\<forall>n ns q'. length (pq_messages q) \<le> n \<longrightarrow>
         queue_run enqueue drain_pending q (replicate n Take) = (ns, q') \<longrightarrow>
         ns = pq_messages q \<and> pq_messages q' = [])"
proof (intro conjI allI impI)
  show "ms @ pq_messages q = puts ops"
    using pending.delivers_in_order [OF assms] by (simp add: new_queue_def)
next
  fix n ns q' assume n: "length (pq_messages q) \<le> n"
    and run: "queue_run enqueue drain_pending q (replicate n Take) = (ns, q')"
  from pending.drains_empty [OF n run] show "ns = pq_messages q" "pq_messages q' = []" by simp_all
qed

theorem queue_delivers_everything_witness:
  "let a = Llm (sample_user ''a''); b = Llm (sample_user ''b''); c = Llm (sample_user ''c'');
       r = queue_run enqueue drain_pending (new_queue Queue_one_at_a_time) [Put a, Put b, Take, Put c, Take]
   in r = ([a, b], \<lparr>pq_messages = [c], pq_mode = Queue_one_at_a_time\<rparr>) \<and> fst r @ [c] = [a, b, c]"
proof -
  let ?a = "Llm (sample_user ''a'')" and ?b = "Llm (sample_user ''b'')" and ?c = "Llm (sample_user ''c'')"
  have "queue_run enqueue drain_pending (new_queue Queue_one_at_a_time) [Put ?a, Put ?b, Take, Put ?c, Take]
      = ([?a, ?b], \<lparr>pq_messages = [?c], pq_mode = Queue_one_at_a_time\<rparr>)"
    by (simp add: new_queue_def enqueue_def drain_pending_def nth_opt_def)
  from queue_delivers_everything [OF this] this show ?thesis by (simp add: Let_def)
qed

end
