(* ===== verification/Agent.thy ===== *)
theory Agent
  imports Agent_Loop Message_Queue
begin

text \<open>
  The class \<^verbatim>\<open>Agent\<close> of \<^verbatim>\<open>packages/agent/src/agent.ts\<close>: its state, the
  reducer that folds loop events into it, the life cycle of a run with its failure path, prompting
  and continuing, and the two message queues (\<open>Message_Queue\<close>).

  The world of the loop is the agent itself with a host component of any type, so that
  tools, hooks and listeners may call back into the agent. Tools are kept in the state by handles, which a
  parameter maps to tools, since a tool acts on the world that holds it. The options given to the
  constructor and the subscribed listeners are parameters (\<open>agent_deps\<close>); options that are only passed on to
  the provider (session id, transport, budgets) are part of the stream function.
\<close>

section \<open>State\<close>

record 't agent_state =
  as_systemPrompt :: jstr
  as_model :: llm_model
  as_thinkingLevel :: thinking_level
  as_tools :: "'t list"
  as_messages :: "agent_message list"
  as_isStreaming :: bool
  as_streamingMessage :: "agent_message option"
  as_pendingToolCalls :: "jstr set"
  as_errorMessage :: "jstr option"

text \<open>
  \<open>ag_active\<close> is \<^verbatim>\<open>activeRun\<close> with the state of its abort signal, and \<open>ag_skipPoll\<close> the
  variable \<^verbatim>\<open>skipInitialSteeringPoll\<close> that the closures of the current loop configuration share.
\<close>

record ('t, 'x) agent =
  ag_state :: "'t agent_state"
  ag_steering :: pending_queue
  ag_followUp :: pending_queue
  ag_active :: "bool option"
  ag_skipPoll :: bool
  ag_host :: 'x

record ('t, 'w) agent_deps =
  dep_convertToLlm :: "agent_message list \<Rightarrow> ('w, message list) callback"
  dep_transformContext :: "(agent_message list \<Rightarrow> ('w, agent_message list) callback) option"
  dep_streamFn :: "'w stream_fn"
  dep_getApiKey :: "(jstr \<Rightarrow> ('w, jstr option) callback) option"
  dep_toolConfig :: "'w tool_config"
  dep_prepareNextTurn :: "('w, 'w turn_update option) callback option"
  dep_listeners :: "(agent_event \<Rightarrow> ('w, unit) callback) list"
  dep_tool :: "'t \<Rightarrow> 'w agent_tool"
  dep_validateToolArguments :: "'w agent_tool \<Rightarrow> tool_call \<Rightarrow> jerror + json"
  dep_now :: "'w \<Rightarrow> int"
  dep_schedule :: "'w \<Rightarrow> nat list \<Rightarrow> nat"

type_synonym ('t, 'x, 'a) agent_act = "(agent_event, ('t, 'x) agent, 'a) act"
type_synonym ('t, 'x) run_state = "(agent_event, ('t, 'x) agent) rt"

definition EMPTY_USAGE :: usage where
  "EMPTY_USAGE = \<lparr>us_input = 0, us_output = 0, us_cacheRead = 0, us_cacheWrite = 0, us_totalTokens = 0,
     us_cost = \<lparr>cost_input = 0, cost_output = 0, cost_cacheRead = 0, cost_cacheWrite = 0, cost_total = 0\<rparr>\<rparr>"

definition DEFAULT_MODEL :: llm_model where
  "DEFAULT_MODEL = \<lparr>model_id = js ''unknown'', model_name = js ''unknown'', model_api = js ''unknown'',
     model_provider = js ''unknown'', model_baseUrl = [], model_reasoning = False,
     model_thinkingLevelMap = None, model_input = [],
     model_cost = \<lparr>mc_input = 0, mc_output = 0, mc_cacheRead = 0, mc_cacheWrite = 0\<rparr>,
     model_contextWindow = 0, model_maxTokens = 0, model_headers = None, model_compat = None\<rparr>"

fun defaultConvertToLlm :: "agent_message list \<Rightarrow> message list" where
  "defaultConvertToLlm [] = []"
| "defaultConvertToLlm (Llm m # ms) = m # defaultConvertToLlm ms"
| "defaultConvertToLlm (_ # ms) = defaultConvertToLlm ms"

record 't initial_state =
  init_systemPrompt :: "jstr option"
  init_model :: "llm_model option"
  init_thinkingLevel :: "thinking_level option"
  init_tools :: "'t list option"
  init_messages :: "agent_message list option"

definition createMutableAgentState :: "'t initial_state \<Rightarrow> 't agent_state" where
  "createMutableAgentState i =
     \<lparr>as_systemPrompt = nullish (init_systemPrompt i) [], as_model = nullish (init_model i) DEFAULT_MODEL,
      as_thinkingLevel = nullish (init_thinkingLevel i) TL_off, as_tools = nullish (init_tools i) [],
      as_messages = nullish (init_messages i) [], as_isStreaming = False, as_streamingMessage = None,
      as_pendingToolCalls = {}, as_errorMessage = None\<rparr>"

definition new_agent ::
    "'t initial_state \<Rightarrow> queue_mode option \<Rightarrow> queue_mode option \<Rightarrow> 'x \<Rightarrow> ('t, 'x) agent" where
  "new_agent i steeringMode followUpMode host =
     \<lparr>ag_state = createMutableAgentState i,
      ag_steering = new_queue (nullish steeringMode Queue_one_at_a_time),
      ag_followUp = new_queue (nullish followUpMode Queue_one_at_a_time),
      ag_active = None, ag_skipPoll = False, ag_host = host\<rparr>"

section \<open>The reducer\<close>

fun reduce_event :: "'t agent_state \<Rightarrow> agent_event \<Rightarrow> 't agent_state" where
  "reduce_event st (Message_start m) = st\<lparr>as_streamingMessage := Some m\<rparr>"
| "reduce_event st (Message_update m e) = st\<lparr>as_streamingMessage := Some m\<rparr>"
| "reduce_event st (Message_end m) =
     st\<lparr>as_streamingMessage := None, as_messages := as_messages st @ [m]\<rparr>"
| "reduce_event st (Tool_execution_start i n a) =
     st\<lparr>as_pendingToolCalls := insert i (as_pendingToolCalls st)\<rparr>"
| "reduce_event st (Tool_execution_end i n r e) =
     st\<lparr>as_pendingToolCalls := as_pendingToolCalls st - {i}\<rparr>"
| "reduce_event st (Turn_end m rs) =
     (case m of
        Llm (AssistantM a) \<Rightarrow>
          if truthy_str (am_errorMessage a) then st\<lparr>as_errorMessage := am_errorMessage a\<rparr> else st
      | _ \<Rightarrow> st)"
| "reduce_event st (Agent_end ms) = st\<lparr>as_streamingMessage := None\<rparr>"
| "reduce_event st _ = st"

fun notify_listeners ::
    "(agent_event \<Rightarrow> ('w, unit) callback) list \<Rightarrow> agent_event \<Rightarrow> ('w, unit) callback" where
  "notify_listeners [] e w = (Inr (), w)"
| "notify_listeners (l # ls) e w =
     (case l e w of (Inl err, w') \<Rightarrow> (Inl err, w') | (Inr _, w') \<Rightarrow> notify_listeners ls e w')"

definition processEvents ::
    "('t, ('t, 'x) agent) agent_deps \<Rightarrow> agent_event \<Rightarrow> (('t, 'x) agent, unit) callback" where
  "processEvents d e w =
     (let w' = w\<lparr>ag_state := reduce_event (ag_state w) e\<rparr> in
      case ag_active w' of
        None \<Rightarrow> (Inl (js ''Agent listener invoked outside active run''), w')
      | Some _ \<Rightarrow> notify_listeners (dep_listeners d) e w')"

section \<open>The loop's inputs\<close>

definition createContextSnapshot ::
    "('t, ('t, 'x) agent) agent_deps \<Rightarrow> ('t, 'x) agent \<Rightarrow> ('t, 'x) agent agent_context" where
  "createContextSnapshot d a =
     \<lparr>ctx_systemPrompt = as_systemPrompt (ag_state a), ctx_messages = as_messages (ag_state a),
      ctx_tools = Some (map (dep_tool d) (as_tools (ag_state a)))\<rparr>"

definition pollSteering :: "(('t, 'x) agent, agent_message list) callback" where
  "pollSteering w =
     (if ag_skipPoll w then (Inr [], w\<lparr>ag_skipPoll := False\<rparr>)
      else case drain_pending (ag_steering w) of (ms, q) \<Rightarrow> (Inr ms, w\<lparr>ag_steering := q\<rparr>))"

definition pollFollowUp :: "(('t, 'x) agent, agent_message list) callback" where
  "pollFollowUp w =
     (case drain_pending (ag_followUp w) of (ms, q) \<Rightarrow> (Inr ms, w\<lparr>ag_followUp := q\<rparr>))"

definition createLoopConfig ::
    "('t, ('t, 'x) agent) agent_deps \<Rightarrow> ('t, 'x) agent \<Rightarrow> ('t, 'x) agent loop_config" where
  "createLoopConfig d a =
     \<lparr>lc_model = as_model (ag_state a),
      lc_reasoning = (if as_thinkingLevel (ag_state a) = TL_off then None
                      else Some (as_thinkingLevel (ag_state a))),
      lc_apiKey = None, lc_tools = dep_toolConfig d, lc_convertToLlm = dep_convertToLlm d,
      lc_transformContext = dep_transformContext d, lc_getApiKey = dep_getApiKey d,
      lc_shouldStopAfterTurn = None,
      lc_prepareNextTurn = map_option (\<lambda>f x. f) (dep_prepareNextTurn d),
      lc_getSteeringMessages = Some pollSteering, lc_getFollowUpMessages = Some pollFollowUp\<rparr>"

definition loop_env :: "('t, ('t, 'x) agent) agent_deps \<Rightarrow> ('t, 'x) agent tool_env" where
  "loop_env d = \<lparr>env_emit = processEvents d, env_validateToolArguments = dep_validateToolArguments d,
     env_now = dep_now d, env_schedule = dep_schedule d\<rparr>"

section \<open>The life cycle of a run\<close>

definition update_world :: "('w \<Rightarrow> 'w) \<Rightarrow> (agent_event, 'w) rt \<Rightarrow> (agent_event, 'w) rt" where
  "update_world f s = s\<lparr>world := f (world s)\<rparr>"

lemma update_world_simps [simp]:
  "emitted (update_world f s) = emitted s"
  "world (update_world f s) = f (world s)"
  by (simp_all add: update_world_def)

definition begin_run :: "('t, 'x) agent \<Rightarrow> ('t, 'x) agent" where
  "begin_run a = a\<lparr>ag_active := Some False,
     ag_state := (ag_state a)\<lparr>as_isStreaming := True, as_streamingMessage := None, as_errorMessage := None\<rparr>\<rparr>"

definition finishRun :: "('t, 'x) agent \<Rightarrow> ('t, 'x) agent" where
  "finishRun a = a\<lparr>ag_state := (ag_state a)\<lparr>as_isStreaming := False, as_streamingMessage := None,
     as_pendingToolCalls := {}\<rparr>, ag_active := None\<rparr>"

definition failure_message :: "('t, 'x) agent \<Rightarrow> int \<Rightarrow> jerror \<Rightarrow> bool \<Rightarrow> assistant_message" where
  "failure_message a now err aborted =
     \<lparr>am_content = [AText \<lparr>tc_text = [], tc_textSignature = None\<rparr>],
      am_api = model_api (as_model (ag_state a)), am_provider = model_provider (as_model (ag_state a)),
      am_model = model_id (as_model (ag_state a)), am_responseModel = None, am_responseId = None,
      am_diagnostics = None, am_usage = EMPTY_USAGE,
      am_stopReason = (if aborted then SR_aborted else SR_error), am_errorMessage = Some err,
      am_timestamp = Some now\<rparr>"

definition handleRunFailure ::
    "('t, ('t, 'x) agent) agent_deps \<Rightarrow> jerror \<Rightarrow> ('t, 'x, unit) agent_act" where
  "handleRunFailure d err =
     and_then (asks (\<lambda>w. failure_message w (dep_now d w) err (ag_active w = Some True))) (\<lambda>f.
     let m = assistant_agent_message f in
     for_each [Message_start m, Message_end m, Turn_end m [], Agent_end [m]] (emit (processEvents d)))"

definition runWithLifecycle ::
    "('t, ('t, 'x) agent) agent_deps \<Rightarrow>
     (('t, 'x) run_state \<Rightarrow> ((jerror + agent_message list) \<times> ('t, 'x) run_state) option) \<Rightarrow>
     ('t, 'x) run_state \<Rightarrow> ((jerror + unit) \<times> ('t, 'x) run_state) option" where
  "runWithLifecycle d executor s =
     (if ag_active (world s) \<noteq> None then Some (Inl (js ''Agent is already processing.''), s)
      else
        (case executor (update_world begin_run s) of
           None \<Rightarrow> None
         | Some (Inr _, s') \<Rightarrow> Some (Inr (), update_world finishRun s')
         | Some (Inl err, s') \<Rightarrow>
             (case handleRunFailure d err s' of
                (r, s'') \<Rightarrow> Some (r, update_world finishRun s''))))"

definition runPromptMessages ::
    "nat \<Rightarrow> ('t, ('t, 'x) agent) agent_deps \<Rightarrow> agent_message list \<Rightarrow> bool \<Rightarrow> ('t, 'x) run_state \<Rightarrow>
     ((jerror + unit) \<times> ('t, 'x) run_state) option" where
  "runPromptMessages n d messages skip s =
     runWithLifecycle d (\<lambda>s.
       let s1 = update_world (\<lambda>w. w\<lparr>ag_skipPoll := skip\<rparr>) s in
       runAgentLoop n (loop_env d) (dep_streamFn d) messages
         (createContextSnapshot d (world s1)) (createLoopConfig d (world s1)) s1) s"

definition runContinuation ::
    "nat \<Rightarrow> ('t, ('t, 'x) agent) agent_deps \<Rightarrow> ('t, 'x) run_state \<Rightarrow>
     ((jerror + unit) \<times> ('t, 'x) run_state) option" where
  "runContinuation n d s =
     runWithLifecycle d (\<lambda>s.
       let s1 = update_world (\<lambda>w. w\<lparr>ag_skipPoll := False\<rparr>) s in
       runAgentLoopContinue n (loop_env d) (dep_streamFn d)
         (createContextSnapshot d (world s1)) (createLoopConfig d (world s1)) s1) s"

section \<open>Prompting and continuing\<close>

datatype prompt_input = Prompt_text jstr "image_content list" | Prompt_message agent_message
  | Prompt_messages "agent_message list"

fun normalizePromptInput :: "int \<Rightarrow> prompt_input \<Rightarrow> agent_message list" where
  "normalizePromptInput now (Prompt_messages ms) = ms"
| "normalizePromptInput now (Prompt_message m) = [m]"
| "normalizePromptInput now (Prompt_text t images) =
     [Llm (UserM \<lparr>um_content = Blocks (text_block t # map ImageBlock images), um_timestamp = Some now\<rparr>)]"

definition prompt ::
    "nat \<Rightarrow> ('t, ('t, 'x) agent) agent_deps \<Rightarrow> prompt_input \<Rightarrow> ('t, 'x) run_state \<Rightarrow>
     ((jerror + unit) \<times> ('t, 'x) run_state) option" where
  "prompt n d input s =
     (if ag_active (world s) \<noteq> None then
        Some (Inl (js ''Agent is already processing a prompt. Use steer() or followUp() to queue messages, or wait for completion.''), s)
      else runPromptMessages n d (normalizePromptInput (dep_now d (world s)) input) False s)"

definition continue_run ::
    "nat \<Rightarrow> ('t, ('t, 'x) agent) agent_deps \<Rightarrow> ('t, 'x) run_state \<Rightarrow>
     ((jerror + unit) \<times> ('t, 'x) run_state) option" where
  "continue_run n d s =
     (if ag_active (world s) \<noteq> None then
        Some (Inl (js ''Agent is already processing. Wait for completion before continuing.''), s)
      else
        (case last_opt (as_messages (ag_state (world s))) of
           None \<Rightarrow> Some (Inl (js ''No messages to continue from''), s)
         | Some m \<Rightarrow>
             if is_assistant m then
               (case drain_pending (ag_steering (world s)) of (queuedSteering, q) \<Rightarrow>
                  let s1 = update_world (\<lambda>w. w\<lparr>ag_steering := q\<rparr>) s in
                  if queuedSteering \<noteq> [] then runPromptMessages n d queuedSteering True s1
                  else
                    (case drain_pending (ag_followUp (world s1)) of (queuedFollowUps, q) \<Rightarrow>
                       let s2 = update_world (\<lambda>w. w\<lparr>ag_followUp := q\<rparr>) s1 in
                       if queuedFollowUps \<noteq> [] then runPromptMessages n d queuedFollowUps False s2
                       else Some (Inl (js ''Cannot continue from message role: assistant''), s2)))
             else runContinuation n d s))"

section \<open>The other operations\<close>

definition steer :: "agent_message \<Rightarrow> ('t, 'x) agent \<Rightarrow> ('t, 'x) agent" where
  "steer m a = a\<lparr>ag_steering := enqueue m (ag_steering a)\<rparr>"

definition followUp :: "agent_message \<Rightarrow> ('t, 'x) agent \<Rightarrow> ('t, 'x) agent" where
  "followUp m a = a\<lparr>ag_followUp := enqueue m (ag_followUp a)\<rparr>"

definition clearSteeringQueue :: "('t, 'x) agent \<Rightarrow> ('t, 'x) agent" where
  "clearSteeringQueue a = a\<lparr>ag_steering := clear_queue (ag_steering a)\<rparr>"

definition clearFollowUpQueue :: "('t, 'x) agent \<Rightarrow> ('t, 'x) agent" where
  "clearFollowUpQueue a = a\<lparr>ag_followUp := clear_queue (ag_followUp a)\<rparr>"

definition clearAllQueues :: "('t, 'x) agent \<Rightarrow> ('t, 'x) agent" where
  "clearAllQueues a = clearFollowUpQueue (clearSteeringQueue a)"

definition hasQueuedMessages :: "('t, 'x) agent \<Rightarrow> bool" where
  "hasQueuedMessages a \<longleftrightarrow> hasItems (ag_steering a) \<or> hasItems (ag_followUp a)"

definition set_steeringMode :: "queue_mode \<Rightarrow> ('t, 'x) agent \<Rightarrow> ('t, 'x) agent" where
  "set_steeringMode mode a = a\<lparr>ag_steering := (ag_steering a)\<lparr>pq_mode := mode\<rparr>\<rparr>"

definition set_followUpMode :: "queue_mode \<Rightarrow> ('t, 'x) agent \<Rightarrow> ('t, 'x) agent" where
  "set_followUpMode mode a = a\<lparr>ag_followUp := (ag_followUp a)\<lparr>pq_mode := mode\<rparr>\<rparr>"

definition abort_run :: "('t, 'x) agent \<Rightarrow> ('t, 'x) agent" where
  "abort_run a = (case ag_active a of None \<Rightarrow> a | Some _ \<Rightarrow> a\<lparr>ag_active := Some True\<rparr>)"

definition reset_agent :: "('t, 'x) agent \<Rightarrow> ('t, 'x) agent" where
  "reset_agent a = clearSteeringQueue (clearFollowUpQueue (a\<lparr>ag_state := (ag_state a)
     \<lparr>as_messages := [], as_isStreaming := False, as_streamingMessage := None,
      as_pendingToolCalls := {}, as_errorMessage := None\<rparr>\<rparr>))"

section \<open>The state against the protocol\<close>

lemma reduce_messages: "as_messages (foldl reduce_event st ts) = as_messages st @ message_ends ts"
proof (induction ts arbitrary: st)
  case Nil
  show ?case by simp
next
  case (Cons e ts)
  then show ?case by (cases e) (auto split: agent_message.splits message.splits)
qed

definition reflects :: "protocol \<Rightarrow> 't agent_state \<Rightarrow> bool" where
  "reflects q st \<longleftrightarrow>
     (as_streamingMessage st \<noteq> None \<longleftrightarrow> pr_life q = InMessage)
   \<and> (distinct (pr_started q) \<longrightarrow> as_pendingToolCalls st = set_mset (pr_open q)
        \<and> (\<forall>i. count (pr_open q) i \<le> 1) \<and> set_mset (pr_open q) \<subseteq> set (pr_started q))"

lemma reflects_step:
  assumes "reflects p st" and "protocol_step p e = Some q"
  shows "reflects q (reduce_event st e)"
proof (cases e)
  case (Tool_execution_start i n a)
  with assms show ?thesis
    by (auto simp: reflects_def not_in_iff split: if_splits)
next
  case (Tool_execution_end i n r x)
  from assms Tool_execution_end have q: "q = p\<lparr>pr_open := pr_open p - {#i#}\<rparr>" "i \<in># pr_open p" "pr_life p = InTurn"
    by (auto split: if_splits)
  show ?thesis
  proof (cases "distinct (pr_started p)")
    case True
    with assms(1) have one: "count (pr_open p) j \<le> 1" for j by (simp add: reflects_def)
    have "set_mset (pr_open p - {#i#}) = set_mset (pr_open p) - {i}"
    proof
      show "set_mset (pr_open p - {#i#}) \<subseteq> set_mset (pr_open p) - {i}"
        using one [of i] by (auto dest: in_diffD simp: in_diff_count)
      show "set_mset (pr_open p) - {i} \<subseteq> set_mset (pr_open p - {#i#})"
        by (auto simp: in_diff_count split: if_splits)
    qed
    with assms(1) q True one Tool_execution_end show ?thesis
      by (auto simp: reflects_def intro: le_trans [OF diff_le_self])
  next
    case False
    with assms(1) q Tool_execution_end show ?thesis by (auto simp: reflects_def)
  qed
next
  case (Turn_end m rs)
  with assms show ?thesis
    by (auto simp: reflects_def split: if_splits agent_message.splits message.splits)
qed (use assms in \<open>auto simp: reflects_def split: if_splits\<close>)

lemma reflects_run:
  "accepts protocol_step p ts = Some q \<Longrightarrow> reflects p st \<Longrightarrow> reflects q (foldl reduce_event st ts)"
  by (induction ts arbitrary: p st) (auto split: option.splits dest: reflects_step)

definition idle_state :: "unit agent_state" where
  "idle_state = createMutableAgentState \<lparr>init_systemPrompt = None, init_model = None,
     init_thinkingLevel = None, init_tools = None, init_messages = None\<rparr>"

section \<open>Callbacks that leave the agent's state alone\<close>

abbreviation state_law :: "('t, 'x) agent \<Rightarrow> agent_event list \<Rightarrow> ('t, 'x) agent \<Rightarrow> bool" where
  "state_law \<equiv> follows ag_state reduce_event"

text \<open>\<open>deps_obey P d\<close>: every callback given to the agent obeys the law \<open>P\<close>.\<close>

definition deps_obey ::
    "(('t, 'x) agent \<Rightarrow> agent_event list \<Rightarrow> ('t, 'x) agent \<Rightarrow> bool) \<Rightarrow>
     ('t, ('t, 'x) agent) agent_deps \<Rightarrow> bool" where
  "deps_obey P d \<longleftrightarrow>
     (\<forall>ms. callback_obeys P (dep_convertToLlm d ms)) \<and> hook_obeys P (dep_transformContext d)
   \<and> stream_fn_obeys P (dep_streamFn d) \<and> hook_obeys P (dep_getApiKey d)
   \<and> tool_config_obeys P (dep_toolConfig d) \<and> poll_obeys P (dep_prepareNextTurn d)
   \<and> (\<forall>f w u w' c. dep_prepareNextTurn d = Some f \<longrightarrow> f w = (Inr (Some u), w') \<longrightarrow>
        upd_context u = Some c \<longrightarrow> tools_obey P c)
   \<and> (\<forall>l\<in>set (dep_listeners d). \<forall>e. callback_obeys P (l e))
   \<and> (\<forall>t i a w. P w [] (snd (tool_execute (dep_tool d t) i a w)))"

lemma deps_obey_config:
  assumes "deps_obey P d" "callback_obeys P pollSteering" "callback_obeys P pollFollowUp"
  shows "loop_config_obeys P (createLoopConfig d a)"
  using assms by (auto simp: deps_obey_def loop_config_obeys_def createLoopConfig_def hook_obeys_def
      poll_obeys_def) blast

lemma deps_obey_tools: "deps_obey P d \<Longrightarrow> tools_obey P (createContextSnapshot d a)"
  by (auto simp: deps_obey_def tools_obey_def createContextSnapshot_def)

lemma polls_keep_state:
  "callback_obeys state_law (pollSteering :: (('t, 'x) agent, agent_message list) callback)"
  "callback_obeys state_law (pollFollowUp :: (('t, 'x) agent, agent_message list) callback)"
  by (auto simp: callback_obeys_def follows_def pollSteering_def pollFollowUp_def split: prod.splits)

lemma notify_keeps_state:
  "\<forall>l\<in>set ls. \<forall>e. callback_obeys state_law (l e) \<Longrightarrow>
   ag_state (snd (notify_listeners ls e w)) = ag_state w"
proof (induction ls arbitrary: w)
  case Nil
  show ?case by simp
next
  case (Cons l ls)
  from Cons.prems have "ag_state (snd (l e w)) = ag_state w"
    by (auto simp: callback_obeys_def follows_def)
  with Cons show ?case by (auto split: prod.splits sum.splits)
qed

lemma processEvents_follows:
  "deps_obey state_law d \<Longrightarrow> sink_obeys state_law (processEvents d)"
proof -
  assume "deps_obey state_law d"
  then have "\<forall>l\<in>set (dep_listeners d). \<forall>e. callback_obeys state_law (l e)" by (simp add: deps_obey_def)
  from notify_keeps_state [OF this] show ?thesis
    by (simp add: sink_obeys_def follows_def processEvents_def Let_def split: option.splits)
qed

lemma prompt_run_follows:
  fixes d :: "('t, ('t, 'x) agent) agent_deps"
  assumes "deps_obey state_law d"
    and "runAgentLoop n (loop_env d) (dep_streamFn d) ms (createContextSnapshot d a) (createLoopConfig d a') s
         = Some (r, s')"
  shows "\<exists>ts. emitted s' = emitted s @ ts \<and> ag_state (world s') = foldl reduce_event (ag_state (world s)) ts"
proof -
  have "sink_obeys state_law (env_emit (loop_env d))"
    using processEvents_follows [OF assms(1)] by (simp add: loop_env_def)
  moreover have "stream_fn_obeys state_law (dep_streamFn d)" using assms(1) by (simp add: deps_obey_def)
  ultimately show ?thesis
    using agent_following.runAgentLoop_obeys [OF _ _ deps_obey_config [OF assms(1) polls_keep_state]
        deps_obey_tools [OF assms(1)] assms(2)]
    by (simp add: follows_def)
qed

lemma failure_follows:
  assumes "deps_obey state_law d" and "handleRunFailure d e s = (r, s')"
  shows "\<exists>ts. emitted s' = emitted s @ ts \<and> ag_state (world s') = foldl reduce_event (ag_state (world s)) ts"
proof -
  have "obeys state_law (handleRunFailure d e)"
    unfolding handleRunFailure_def Let_def
    using processEvents_follows [OF assms(1)]
    by (auto intro!: following.obeys_and_then following.obeys_asks following.obeys_for_each
        following.obeys_emit following.obeys_ret)
  from obeysD [OF this assms(2)] show ?thesis by (simp add: follows_def)
qed

section \<open>Runs of the agent\<close>

definition agent_idle :: "('t, 'x) agent \<Rightarrow> bool" where
  "agent_idle a \<longleftrightarrow> ag_active a = None \<and> \<not> as_isStreaming (ag_state a)
     \<and> as_streamingMessage (ag_state a) = None \<and> as_pendingToolCalls (ag_state a) = {}"

lemma finishRun_idle: "agent_idle (finishRun a)"
  by (simp add: agent_idle_def finishRun_def)

lemma runWithLifecycle_idle:
  "agent_idle (world s) \<Longrightarrow> runWithLifecycle d ex s = Some (r, s') \<Longrightarrow> agent_idle (world s')"
  unfolding runWithLifecycle_def
  by (auto simp: finishRun_idle split: if_splits option.splits prod.splits sum.splits)

text \<open>
  C7: Every operation that runs the agent leaves it idle: whatever the provider, tools, hooks and listeners do or throw,
  once \<^verbatim>\<open>prompt\<close> or \<^verbatim>\<open>continue\<close> has settled, no run is active,
  no message is streaming and no tool call is pending.
\<close>

theorem agent_idle_after_run:
  assumes "agent_idle (world s)"
    and "prompt n d input s = Some (r, s') \<or> continue_run n d s = Some (r, s')"
  shows "agent_idle (world s')"
proof -
  have run: "agent_idle (world t) \<Longrightarrow> runPromptMessages n d ms skip t = Some (r, s') \<Longrightarrow> agent_idle (world s')"
    for ms skip t unfolding runPromptMessages_def by (rule runWithLifecycle_idle)
  have "agent_idle (world s)" by (fact assms(1))
  from assms(2) show ?thesis
  proof
    assume "prompt n d input s = Some (r, s')"
    with assms(1) run show ?thesis by (auto simp: prompt_def split: if_splits)
  next
    assume "continue_run n d s = Some (r, s')"
    with assms(1) show ?thesis
      by (auto simp: continue_run_def Let_def runContinuation_def agent_idle_def
          split: if_splits option.splits prod.splits
          dest!: run [unfolded agent_idle_def, rotated] runWithLifecycle_idle [unfolded agent_idle_def, rotated])
  qed
qed

lemma emit_all_events:
  "for_each es (emit sink) s = (Inr u, s') \<Longrightarrow> emitted s' = emitted s @ es"
proof (induction es arbitrary: s)
  case Nil
  then show ?case by (simp add: ret_def)
next
  case (Cons e es)
  from Cons.prems obtain s1 where "emit sink e s = (Inr (), s1)" "for_each es (emit sink) s1 = (Inr u, s')"
    by (auto elim!: and_then_InrE)
  with Cons.IH [of s1] show ?case by (simp add: emitted_emit)
qed

lemma failure_events:
  assumes "handleRunFailure d e s = (Inr u, s')"
  shows "emitted s' = emitted s @ (let m = assistant_agent_message (failure_message (world s)
      (dep_now d (world s)) e (ag_active (world s) = Some True))
    in [Message_start m, Message_end m, Turn_end m [], Agent_end [m]])"
  using assms unfolding handleRunFailure_def Let_def
  by (auto simp: and_then_asks simp del: for_each.simps dest!: emit_all_events)

text \<open>
  With callbacks that leave the agent's state alone, a prompt has appended to the
  transcript exactly the messages that its events ended, in order, and nothing else, whether the run went through
  or failed on the way; when it resolves, its last event is \<open>agent_end\<close>.
\<close>

theorem agent_transcript:
  assumes "deps_obey state_law d" and "prompt n d input s = Some (x, s')"
  shows "\<exists>ts. emitted s' = emitted s @ ts
    \<and> as_messages (ag_state (world s')) = as_messages (ag_state (world s)) @ message_ends ts
    \<and> (x = Inr () \<longrightarrow> (\<exists>us ms. ts = us @ [Agent_end ms]))"
proof (cases "ag_active (world s) = None")
  case False
  with assms(2) show ?thesis by (auto simp: prompt_def)
next
  case idle: True
  let ?ms = "normalizePromptInput (dep_now d (world s)) input"
  let ?s0 = "update_world (\<lambda>w. w\<lparr>ag_skipPoll := False\<rparr>) (update_world begin_run s)"
  define out where "out = runAgentLoop n (loop_env d) (dep_streamFn d) ?ms
    (createContextSnapshot d (world ?s0)) (createLoopConfig d (world ?s0)) ?s0"
  from assms(2) idle have life: "runWithLifecycle d (\<lambda>s.
       let s1 = update_world (\<lambda>w. w\<lparr>ag_skipPoll := False\<rparr>) s in
       runAgentLoop n (loop_env d) (dep_streamFn d) ?ms
         (createContextSnapshot d (world s1)) (createLoopConfig d (world s1)) s1) s = Some (x, s')"
    by (auto simp: prompt_def runPromptMessages_def split: if_splits)
  from life idle obtain r s1 where out: "out = Some (r, s1)"
    by (cases out) (auto simp: runWithLifecycle_def out_def Let_def)
  from prompt_run_follows [OF assms(1) out [unfolded out_def]] obtain ts where
    ts: "emitted s1 = emitted s @ ts" "ag_state (world s1) = foldl reduce_event (ag_state (world ?s0)) ts"
    by auto
  show ?thesis
  proof (cases r)
    case (Inr ms)
    with life idle out have s': "s' = update_world finishRun s1"
      by (auto simp: runWithLifecycle_def out_def Let_def)
    have "traced protocol_start ?s0 out" unfolding out_def by (rule traced_runAgentLoop)
    with out Inr ts(1) obtain q where
      acc: "accepts protocol_step protocol_start ts = Some q" and q: "at_phase Over ms q"
      by (auto simp: traced_def)
    from over_ends [OF acc] q have "\<exists>us. ts = us @ [Agent_end ms]"
      by (auto simp: at_phase_def protocol_start_def)
    with s' ts show ?thesis
      by (auto simp: finishRun_def reduce_messages begin_run_def)
  next
    case (Inl e)
    with life idle out obtain s2 where f: "handleRunFailure d e s1 = (x, s2)"
      and s': "s' = update_world finishRun s2"
      by (cases "handleRunFailure d e s1") (auto simp: runWithLifecycle_def out_def Let_def)
    from failure_follows [OF assms(1) f] obtain us where
      us: "emitted s2 = emitted s1 @ us" "ag_state (world s2) = foldl reduce_event (ag_state (world s1)) us"
      by blast
    have "\<exists>vs ms. us = vs @ [Agent_end ms]" 
      if "x = Inr ()"
    proof -
      from failure_events [OF f [unfolded that]] us(1) have "us = butlast us @ [Agent_end [assistant_agent_message
          (failure_message (world s1) (dep_now d (world s1)) e (ag_active (world s1) = Some True))]]"
        by (simp add: Let_def)
      then show ?thesis by blast
    qed
    then have last: "x = Inr () \<longrightarrow> (\<exists>vs ms. ts @ us = vs @ [Agent_end ms])" by (metis append_assoc)
    have "ag_state (world s2) = foldl reduce_event (ag_state (world ?s0)) (ts @ us)"
      using us(2) ts(2) by simp
    then have "as_messages (ag_state (world s2)) = as_messages (ag_state (world s)) @ message_ends (ts @ us)"
      by (simp only: reduce_messages) (simp add: begin_run_def)
    with last us(1) ts(1) s' show ?thesis
      by (intro exI [of _ "ts @ us"]) (simp add: finishRun_def)
  qed
qed

section \<open>Failures\<close>

definition mild_listener :: "(agent_event \<Rightarrow> (('t, 'x) agent, unit) callback) \<Rightarrow> bool" where
  "mild_listener l \<longleftrightarrow>
     (\<forall>e w. fst (l e w) = Inr () \<and> ag_state (snd (l e w)) = ag_state w
        \<and> ag_active (snd (l e w)) = ag_active w)"

lemma mild_notify:
  assumes "\<forall>l\<in>set ls. mild_listener l"
  shows "\<exists>w'. notify_listeners ls e w = (Inr (), w') \<and> ag_state w' = ag_state w \<and> ag_active w' = ag_active w"
  using assms
proof (induction ls arbitrary: w)
  case Nil
  show ?case by simp
next
  case (Cons l ls)
  then have "fst (l e w) = Inr ()" "ag_state (snd (l e w)) = ag_state w" "ag_active (snd (l e w)) = ag_active w"
    by (auto simp: mild_listener_def)
  with Cons.IH [of "snd (l e w)"] Cons.prems show ?case by (cases "l e w") auto
qed

lemma mild_emit:
  assumes "\<forall>l\<in>set (dep_listeners d). mild_listener l" and "ag_active (world s) \<noteq> None"
  shows "\<exists>s'. emit (processEvents d) e s = (Inr (), s')
    \<and> ag_state (world s') = reduce_event (ag_state (world s)) e \<and> ag_active (world s') = ag_active (world s)"
proof -
  from mild_notify [OF assms(1), of e "(world s)\<lparr>ag_state := reduce_event (ag_state (world s)) e\<rparr>"] assms(2)
  show ?thesis by (auto simp: emit_def processEvents_def Let_def)
qed

lemma mild_emits:
  assumes "\<forall>l\<in>set (dep_listeners d). mild_listener l" and "ag_active (world s) \<noteq> None"
  shows "\<exists>s'. for_each es (emit (processEvents d)) s = (Inr (), s')
    \<and> ag_state (world s') = foldl reduce_event (ag_state (world s)) es"
  using assms(2)
proof (induction es arbitrary: s)
  case Nil
  show ?case by (simp add: ret_def)
next
  case (Cons e es)
  from mild_emit [OF assms(1) Cons.prems, of e] obtain s1 where
    "emit (processEvents d) e s = (Inr (), s1)" "ag_state (world s1) = reduce_event (ag_state (world s)) e"
    "ag_active (world s1) = ag_active (world s)" by blast
  with Cons.IH [of s1] Cons.prems show ?case by (auto simp: and_then_def)
qed

text \<open>
  When a run throws and the listeners do not, the operation still resolves: the transcript ends with an assistant
  message that carries the error text and the stop reason \<open>aborted\<close> or \<open>error\<close> according to the abort
  signal, and a non-empty error text is the agent's error message.
\<close>

theorem run_failure_recorded:
  assumes "ag_active (world s) = None"
    and "executor (update_world begin_run s) = Some (Inl err, s1)" and "ag_active (world s1) \<noteq> None"
    and "\<forall>l\<in>set (dep_listeners d). mild_listener l"
  shows "\<exists>s' m. runWithLifecycle d executor s = Some (Inr (), s')
    \<and> as_messages (ag_state (world s')) = as_messages (ag_state (world s1)) @ [assistant_agent_message m]
    \<and> am_errorMessage m = Some err
    \<and> am_stopReason m = (if ag_active (world s1) = Some True then SR_aborted else SR_error)
    \<and> (err \<noteq> [] \<longrightarrow> as_errorMessage (ag_state (world s')) = Some err)"
proof -
  let ?f = "failure_message (world s1) (dep_now d (world s1)) err (ag_active (world s1) = Some True)"
  let ?m = "assistant_agent_message ?f"
  from mild_emits [OF assms(4,3), of "[Message_start ?m, Message_end ?m, Turn_end ?m [], Agent_end [?m]]"]
  obtain s2 where s2: "for_each [Message_start ?m, Message_end ?m, Turn_end ?m [], Agent_end [?m]]
      (emit (processEvents d)) s1 = (Inr (), s2)"
    "ag_state (world s2) = foldl reduce_event (ag_state (world s1))
      [Message_start ?m, Message_end ?m, Turn_end ?m [], Agent_end [?m]]" by blast
  from s2(1) have "handleRunFailure d err s1 = (Inr (), s2)"
    by (simp add: handleRunFailure_def Let_def and_then_asks del: for_each.simps)
  with assms(1,2) have "runWithLifecycle d executor s = Some (Inr (), update_world finishRun s2)"
    by (simp add: runWithLifecycle_def)
  with s2(2) show ?thesis
    by (intro exI [of _ "update_world finishRun s2"] exI [of _ ?f])
      (auto simp: finishRun_def assistant_agent_message_def failure_message_def)
qed

section \<open>Runs return\<close>

definition agent_rank :: "('x \<Rightarrow> nat) \<Rightarrow> ('t, 'x) agent \<Rightarrow> nat" where
  "agent_rank g w = length (pq_messages (ag_steering w)) + length (pq_messages (ag_followUp w)) + g (ag_host w)"

abbreviation rank_law :: "('x \<Rightarrow> nat) \<Rightarrow> ('t, 'x) agent \<Rightarrow> agent_event list \<Rightarrow> ('t, 'x) agent \<Rightarrow> bool" where
  "rank_law g \<equiv> shrinks (agent_rank g)"

lemma notify_shrinks:
  "\<forall>l\<in>set ls. \<forall>e. callback_obeys (rank_law g) (l e) \<Longrightarrow>
   agent_rank g (snd (notify_listeners ls e w)) \<le> agent_rank g w"
proof (induction ls arbitrary: w)
  case Nil
  show ?case by simp
next
  case (Cons l ls)
  obtain r w1 where l: "l e w = (r, w1)" by fastforce
  from Cons.prems have "agent_rank g (snd (l e w)) \<le> agent_rank g w" unfolding callback_obeys_def shrinks_def by simp
  moreover from Cons have "agent_rank g (snd (notify_listeners ls e w1)) \<le> agent_rank g w1" by simp
  ultimately show ?case using l by (cases r) auto
qed

lemma polls_shrink:
  "callback_obeys (rank_law g) pollSteering"
  "callback_obeys (rank_law g) pollFollowUp"
  by (auto simp: callback_obeys_def shrinks_def agent_rank_def pollSteering_def pollFollowUp_def
      split: prod.splits dest: pending.drain_never_grows)

lemma processEvents_shrinks:
  assumes "deps_obey (rank_law g) d"
  shows "sink_obeys (rank_law g) (processEvents d)"
proof -
  have ls: "\<forall>l\<in>set (dep_listeners d). \<forall>e. callback_obeys (rank_law g) (l e)"
    using assms by (simp add: deps_obey_def)
  have "agent_rank g (snd (processEvents d e w)) \<le> agent_rank g w" for e w
    using notify_shrinks [OF ls, of e "w\<lparr>ag_state := reduce_event (ag_state w) e\<rparr>"]
    by (auto simp: processEvents_def Let_def agent_rank_def split: option.splits)
  then show ?thesis by (simp add: sink_obeys_def shrinks_def)
qed

lemma polls_dry_up:
  assumes "\<forall>md c cf w r w' m. dep_streamFn d md c cf w = (Inr r, w') \<longrightarrow> resp_result r = Inr m \<longrightarrow>
      tool_calls_of (am_content m) \<noteq> [] \<longrightarrow> agent_rank g w' < agent_rank g w"
  shows "dries_up (agent_rank g) (createLoopConfig d a) (dep_streamFn d)"
proof -
  have "agent_rank g w' < agent_rank g w" if "pollSteering w = (Inr ms, w')" "ms \<noteq> []" for w ms w'
    using that by (auto simp: pollSteering_def agent_rank_def split: if_splits prod.splits
        dest: pending.drain_shrinks)
  moreover have "agent_rank g w' < agent_rank g w" if "pollFollowUp w = (Inr ms, w')" "ms \<noteq> []" for w ms w'
    using that by (auto simp: pollFollowUp_def agent_rank_def split: prod.splits dest: pending.drain_shrinks)
  ultimately show ?thesis
    unfolding dries_up_def createLoopConfig_def using assms by (simp, blast)
qed

lemma prompt_completes:
  assumes "deps_obey (rank_law g) d"
    and "\<forall>md c cf w r w' m. dep_streamFn d md c cf w = (Inr r, w') \<longrightarrow> resp_result r = Inr m \<longrightarrow>
      tool_calls_of (am_content m) \<noteq> [] \<longrightarrow> agent_rank g w' < agent_rank g w"
    and "2 * agent_rank g (world s) + 1 < n"
  shows "\<exists>r s'. prompt n d input s = Some (r, s')"
proof (cases "ag_active (world s) = None")
  case False
  then show ?thesis by (auto simp: prompt_def)
next
  case True
  let ?s0 = "update_world (\<lambda>w. w\<lparr>ag_skipPoll := False\<rparr>) (update_world begin_run s)"
  have rank: "agent_rank g (world ?s0) = agent_rank g (world s)"
    by (simp add: agent_rank_def begin_run_def)
  have sink: "sink_obeys (rank_law g) (env_emit (loop_env d))"
    using processEvents_shrinks [OF assms(1)] by (simp add: loop_env_def)
  have stream: "stream_fn_obeys (rank_law g) (dep_streamFn d)"
    using assms(1) by (simp add: deps_obey_def)
  from runAgentLoop_returns [OF sink stream deps_obey_config [OF assms(1) polls_shrink]
      deps_obey_tools [OF assms(1)] polls_dry_up [OF assms(2)]] assms(3) rank
  obtain r s1 where "runAgentLoop n (loop_env d) (dep_streamFn d)
      (normalizePromptInput (dep_now d (world s)) input)
      (createContextSnapshot d (world ?s0)) (createLoopConfig d (world ?s0)) ?s0 = Some (r, s1)"
    by (metis not_Some_eq old.prod.exhaust)
  with True show ?thesis
    by (cases r; cases "handleRunFailure d (projl r) s1")
      (auto simp: prompt_def runPromptMessages_def runWithLifecycle_def Let_def)
qed

text \<open>
  A prompt settles. When the callbacks queue no messages and every answer of the provider that asks for tools uses up some of a
  budget of the host, fuel of twice the queued messages plus the budget, and two, is enough,
  even when callbacks throw.
\<close>

theorem prompt_settles:
  assumes "deps_obey (rank_law g) d"
    and "\<forall>md c cf w r w' m. dep_streamFn d md c cf w = (Inr r, w') \<longrightarrow> resp_result r = Inr m \<longrightarrow>
      tool_calls_of (am_content m) \<noteq> [] \<longrightarrow> agent_rank g w' < agent_rank g w"
    and "2 * agent_rank g (world s) + 2 \<le> n"
  shows "\<exists>r s'. prompt n d input s = Some (r, s')"
  by (rule prompt_completes [OF assms(1,2)]) (use assms(3) in simp)

section \<open>A concrete agent\<close>

text \<open>The provider answers at once; the one listener does nothing; the tool is never called.\<close>

type_synonym demo_agent = "(unit, nat) agent"

definition demo_deps :: "(unit, demo_agent) agent_deps" where
  "demo_deps = \<lparr>dep_convertToLlm = (\<lambda>ms w. (Inr (defaultConvertToLlm ms), w)),
     dep_transformContext = None,
     dep_streamFn = (\<lambda>md c cf w. (Inr \<lparr>resp_events = [Ev_start demo_stop, Ev_done SR_stop demo_stop],
        resp_result = Inr demo_stop\<rparr>, w)),
     dep_getApiKey = None,
     dep_toolConfig = \<lparr>cfg_toolExecution = Some Mode_parallel, cfg_beforeToolCall = None, cfg_afterToolCall = None\<rparr>,
     dep_prepareNextTurn = None, dep_listeners = [\<lambda>e w. (Inr (), w)],
     dep_tool = (\<lambda>t. \<lparr>tool_name = js ''read'', tool_description = [], tool_parameters = JObj [],
        tool_label = [], tool_prepareArguments = None,
        tool_execute = (\<lambda>i a w. (([], Inr demo_result), w)), tool_executionMode = None\<rparr>),
     dep_validateToolArguments = (\<lambda>t c. Inr (call_arguments c)),
     dep_now = (\<lambda>w. 0), dep_schedule = (\<lambda>w is. 0)\<rparr>"

definition demo_agent_state :: "(unit, nat) run_state" where
  "demo_agent_state = \<lparr>emitted = [], world = \<lparr>ag_state = idle_state, ag_steering = new_queue Queue_all,
     ag_followUp = new_queue Queue_all, ag_active = None, ag_skipPoll = False, ag_host = 0\<rparr>\<rparr>"

lemma demo_deps_obey:
  assumes "\<And>w. P w [] w"
  shows "deps_obey P demo_deps"
  using assms by (auto simp: deps_obey_def demo_deps_def callback_obeys_def hook_obeys_def
      stream_fn_obeys_def tool_config_obeys_def poll_obeys_def)

lemma demo_deps_dry:
  "\<forall>md c cf w r w' m. dep_streamFn demo_deps md c cf w = (Inr r, w') \<longrightarrow> resp_result r = Inr m \<longrightarrow>
      tool_calls_of (am_content m) \<noteq> [] \<longrightarrow> agent_rank id w' < agent_rank id w"
  by (auto simp: demo_deps_def demo_stop_def sample_assistant_def)

lemma demo_rank: "agent_rank id (world demo_agent_state) = 0"
  by (simp add: agent_rank_def demo_agent_state_def new_queue_def)

lemma demo_listeners: "\<forall>l\<in>set (dep_listeners demo_deps). mild_listener l"
  by (simp add: demo_deps_def mild_listener_def)

lemma demo_prompt_run:
  obtains r s' where "prompt 2 demo_deps (Prompt_text (js ''hi'') []) demo_agent_state = Some (r, s')"
proof -
  have "2 * agent_rank id (world demo_agent_state) + 1 < 2" by (simp add: demo_rank)
  from prompt_completes [OF demo_deps_obey demo_deps_dry this, of "Prompt_text (js ''hi'') []"] that
  show thesis by (auto simp: shrinks_def)
qed

lemma demo_state_idle: "agent_idle (world demo_agent_state)"
  by (simp add: demo_agent_state_def agent_idle_def idle_state_def createMutableAgentState_def)

theorem agent_idle_after_run_witness:
  "\<exists>r s'. prompt 2 demo_deps (Prompt_text (js ''hi'') []) demo_agent_state = Some (r, s')
     \<and> agent_idle (world s')"
proof -
  obtain r s' where run: "prompt 2 demo_deps (Prompt_text (js ''hi'') []) demo_agent_state = Some (r, s')"
    by (rule demo_prompt_run)
  from agent_idle_after_run [OF demo_state_idle disjI1 [OF run]] run show ?thesis by blast
qed

theorem agent_transcript_witness:
  "\<exists>r s'. prompt 2 demo_deps (Prompt_text (js ''hi'') []) demo_agent_state = Some (r, s')
     \<and> as_messages (ag_state (world s')) = message_ends (emitted s')"
proof -
  obtain r s' where run: "prompt 2 demo_deps (Prompt_text (js ''hi'') []) demo_agent_state = Some (r, s')"
    by (rule demo_prompt_run)
  have "deps_obey state_law demo_deps" by (rule demo_deps_obey) (simp add: follows_def)
  from agent_transcript [OF this run] run show ?thesis
    by (intro exI [of _ r] exI [of _ s'])
      (auto simp: demo_agent_state_def idle_state_def createMutableAgentState_def)
qed

theorem run_failure_recorded_witness:
  "\<exists>s'. runWithLifecycle demo_deps (\<lambda>s. Some (Inl (js ''boom''), s)) demo_agent_state = Some (Inr (), s')
     \<and> as_errorMessage (ag_state (world s')) = Some (js ''boom'')"
proof -
  let ?s1 = "update_world begin_run demo_agent_state"
  have "ag_active (world demo_agent_state) = None" by (simp add: demo_agent_state_def)
  moreover have "ag_active (world ?s1) \<noteq> None" by (simp add: begin_run_def)
  ultimately obtain s' where
    "runWithLifecycle demo_deps (\<lambda>s. Some (Inl (js ''boom''), s)) demo_agent_state = Some (Inr (), s')"
    "js ''boom'' \<noteq> [] \<longrightarrow> as_errorMessage (ag_state (world s')) = Some (js ''boom'')"
    using run_failure_recorded [of demo_agent_state "\<lambda>s. Some (Inl (js ''boom''), s)" "js ''boom''" ?s1 demo_deps]
      demo_listeners by blast
  then show ?thesis by auto
qed

theorem prompt_settles_witness:
  "\<exists>r s'. prompt 2 demo_deps (Prompt_text (js ''hi'') []) demo_agent_state = Some (r, s')"
proof -
  have "2 * agent_rank id (world demo_agent_state) + 2 \<le> 2" by (simp add: demo_rank)
  from prompt_settles [OF demo_deps_obey demo_deps_dry this] show ?thesis by (simp add: shrinks_def)
qed

end
