(* ===== verification/Agent_Observed.thy ===== *)
theory Agent_Observed
  imports Agent
begin

text \<open>
  What a subscriber of the class \<^verbatim>\<open>Agent\<close> sees. The listener \<open>watch\<close> notes, for every event it
  receives, the event and the agent's state at that moment; the state is compared with the phase of
  \<open>Agent_Protocol\<close> that the events so far have reached, through whole runs of \<^verbatim>\<open>prompt\<close> and
  \<^verbatim>\<open>continue\<close>, those that fail included.
\<close>

section \<open>The watching listener\<close>

type_synonym 't sightings = "(agent_event \<times> 't agent_state) list"

definition watch :: "agent_event \<Rightarrow> (('t, 't sightings \<times> 'y) agent, unit) callback" where
  "watch e w = (Inr (), w\<lparr>ag_host := (fst (ag_host w) @ [(e, ag_state w)], snd (ag_host w))\<rparr>)"

definition noted :: "('t, 't sightings \<times> 'y) agent \<Rightarrow> 't sightings" where
  "noted w = fst (ag_host w)"

text \<open>The sightings of a sequence of events.\<close>

fun sightings :: "'t agent_state \<Rightarrow> agent_event list \<Rightarrow> 't sightings" where
  "sightings st [] = []"
| "sightings st (e # es) = (e, reduce_event st e) # sightings (reduce_event st e) es"

lemma sightings_append: "sightings st (xs @ ys) = sightings st xs @ sightings (foldl reduce_event st xs) ys"
  by (induction xs arbitrary: st) simp_all

lemma map_fst_sightings [simp]: "map fst (sightings st es) = es"
  by (induction es arbitrary: st) simp_all

lemma length_sightings [simp]: "length (sightings st es) = length es"
  by (induction es arbitrary: st) simp_all

lemma sightings_nth:
  "i < length es \<Longrightarrow> sightings st es ! i = (es ! i, foldl reduce_event st (take (Suc i) es))"
  by (induction es arbitrary: st i) (auto simp: nth_Cons take_Suc_conv_app_nth split: nat.splits)

text \<open>The law: the reducer moves the state, and \<open>watch\<close> notes it while a run is active.\<close>

type_synonym 't view = "'t agent_state \<times> 't sightings \<times> bool"

definition view :: "('t, 't sightings \<times> 'y) agent \<Rightarrow> 't view" where
  "view w = (ag_state w, noted w, ag_active w \<noteq> None)"

fun see :: "'t view \<Rightarrow> agent_event \<Rightarrow> 't view" where
  "see (st, h, a) e = (reduce_event st e, if a then h @ [(e, reduce_event st e)] else h, a)"

abbreviation watch_law ::
    "('t, 't sightings \<times> 'y) agent \<Rightarrow> agent_event list \<Rightarrow> ('t, 't sightings \<times> 'y) agent \<Rightarrow> bool" where
  "watch_law \<equiv> follows view see"

text \<open>
  \<open>watched d ls\<close>: \<open>watch\<close> is the first listener and \<open>ls\<close> the others; no other callback touches the
  agent's state, the notes, or whether a run is active.
\<close>

definition watched ::
    "('t, ('t, 't sightings \<times> 'y) agent) agent_deps \<Rightarrow> bool" where
  "watched d \<longleftrightarrow> (\<exists>ls. dep_listeners d = watch # ls \<and> deps_obey watch_law (d\<lparr>dep_listeners := ls\<rparr>))"

lemma foldl_see: "foldl see (st, h, True) es = (foldl reduce_event st es, h @ sightings st es, True)"
  by (induction es arbitrary: st h) simp_all

lemma notify_keeps_view:
  "\<forall>l\<in>set ls. \<forall>e. callback_obeys watch_law (l e) \<Longrightarrow> view (snd (notify_listeners ls e w)) = view w"
proof (induction ls arbitrary: w)
  case Nil
  show ?case by simp
next
  case (Cons l ls)
  from Cons.prems have "view (snd (l e w)) = view w"
    by (auto simp: callback_obeys_def follows_def)
  with Cons show ?case by (auto split: prod.splits sum.splits)
qed

lemma view_watch: "view (snd (watch e w)) = (ag_state w, noted w @ [(e, ag_state w)], ag_active w \<noteq> None)"
  by (simp add: watch_def view_def noted_def)

lemma processEvents_watched:
  assumes "watched d"
  shows "sink_obeys watch_law (processEvents d)"
proof -
  from assms obtain ls where d: "dep_listeners d = watch # ls"
    and ls: "\<forall>l\<in>set ls. \<forall>e. callback_obeys watch_law (l e)"
    by (auto simp: watched_def deps_obey_def)
  have "view (snd (processEvents d e w)) = see (view w) e" for e w
  proof (cases "ag_active w")
    case None
    then show ?thesis by (simp add: processEvents_def view_def noted_def)
  next
    case (Some a)
    let ?w = "w\<lparr>ag_state := reduce_event (ag_state w) e\<rparr>"
    have "view (snd (processEvents d e w)) = view (snd (watch e ?w))"
      using notify_keeps_view [OF ls, of e "snd (watch e ?w)"] Some d
      by (simp add: processEvents_def watch_def)
    with Some show ?thesis by (simp add: view_watch) (simp add: view_def noted_def)
  qed
  then show ?thesis by (simp add: sink_obeys_def follows_def)
qed

lemma polls_keep_view: "callback_obeys watch_law pollSteering" "callback_obeys watch_law pollFollowUp"
  by (auto simp: callback_obeys_def follows_def view_def noted_def pollSteering_def pollFollowUp_def
      split: prod.splits)

lemma watched_parts:
  assumes "watched d"
  shows "sink_obeys watch_law (env_emit (loop_env d))" and "stream_fn_obeys watch_law (dep_streamFn d)"
    and "loop_config_obeys watch_law (createLoopConfig d a)"
    and "tools_obey watch_law (createContextSnapshot d a)"
proof -
  from assms obtain ls where ls: "deps_obey watch_law (d\<lparr>dep_listeners := ls\<rparr>)" by (auto simp: watched_def)
  from deps_obey_config [OF ls polls_keep_view] show "loop_config_obeys watch_law (createLoopConfig d a)"
    by (simp add: createLoopConfig_def)
  from deps_obey_tools [OF ls] show "tools_obey watch_law (createContextSnapshot d a)"
    by (simp add: createContextSnapshot_def)
  from ls show "stream_fn_obeys watch_law (dep_streamFn d)" by (simp add: deps_obey_def)
  show "sink_obeys watch_law (env_emit (loop_env d))"
    using processEvents_watched [OF assms] by (simp add: loop_env_def)
qed

section \<open>Runs\<close>

text \<open>What a protocol phase says of the agent's state, relative to the transcript before the run.\<close>

definition shows_phase :: "agent_message list \<Rightarrow> protocol \<Rightarrow> 't agent_state \<Rightarrow> bool" where
  "shows_phase before q st \<longleftrightarrow>
     as_messages st = before @ pr_log q
   \<and> (as_streamingMessage st \<noteq> None \<longleftrightarrow> pr_life q = InMessage)
   \<and> (distinct (pr_started q) \<longrightarrow> as_pendingToolCalls st = set_mset (pr_open q))"

lemma reflects_shows:
  assumes "reflects protocol_start st" and "accepts protocol_step protocol_start ts = Some q"
  shows "shows_phase (as_messages st) q (foldl reduce_event st ts)"
  using reflects_run [OF assms(2,1)] accepts_log [OF assms(2)]
  by (simp add: shows_phase_def reflects_def reduce_messages protocol_start_def)

text \<open>A run of the loop, observed: \<open>sight\<close> are the new notes.\<close>

definition seen_in_order ::
    "agent_message list \<Rightarrow> agent_event list \<Rightarrow> 't sightings \<Rightarrow> bool" where
  "seen_in_order before ts sight \<longleftrightarrow>
     map fst sight = ts \<and>
     (\<forall>i<length ts. \<exists>q. accepts protocol_step protocol_start (take (Suc i) ts) = Some q
        \<and> shows_phase before q (snd (sight ! i)))"

lemma sightings_in_order:
  assumes "reflects protocol_start st" and "accepts protocol_step protocol_start ts \<noteq> None"
  shows "seen_in_order (as_messages st) ts (sightings st ts)"
  unfolding seen_in_order_def
proof (intro conjI allI impI)
  fix i assume i: "i < length ts"
  from assms(2) accepts_prefix [of protocol_step protocol_start "take (Suc i) ts" "drop (Suc i) ts"]
  obtain q where q: "accepts protocol_step protocol_start (take (Suc i) ts) = Some q" by auto
  with reflects_shows [OF assms(1) q] i
  show "\<exists>q. accepts protocol_step protocol_start (take (Suc i) ts) = Some q
      \<and> shows_phase (as_messages st) q (snd (sightings st ts ! i))"
    by (simp add: sightings_nth)
qed simp

lemma for_each_emit_prefix:
  "for_each es (emit sink) s = (r, s') \<Longrightarrow> \<exists>us. emitted s' = emitted s @ us \<and> prefix us es"
proof (induction es arbitrary: s)
  case Nil
  then show ?case by (simp add: ret_def)
next
  case (Cons e es)
  obtain r1 s1 where e: "emit sink e s = (r1, s1)" by fastforce
  show ?case
  proof (cases r1)
    case (Inl x)
    with Cons.prems e emitted_emit [OF e] show ?thesis
      by (intro exI [of _ "[e]"]) (auto simp: and_then_def)
  next
    case (Inr u)
    with Cons.prems e have "for_each es (emit sink) s1 = (r, s')" by (simp add: and_then_def)
    from Cons.IH [OF this] obtain us where "emitted s' = emitted s1 @ us" "prefix us es" by blast
    with emitted_emit [OF e] show ?thesis by (intro exI [of _ "e # us"]) simp
  qed
qed

definition failure_report :: "assistant_message \<Rightarrow> agent_event list" where
  "failure_report f = (let m = assistant_agent_message f in
     [Message_start m, Message_end m, Turn_end m [], Agent_end [m]])"

lemma failure_watched:
  assumes "watched d" and "handleRunFailure d e s = (r, s')"
  shows "\<exists>us f. emitted s' = emitted s @ us \<and> prefix us (failure_report f) \<and> view (world s') = foldl see (view (world s)) us"
proof -
  have "obeys watch_law (handleRunFailure d e)"
    unfolding handleRunFailure_def Let_def
    using processEvents_watched [OF assms(1)]
    by (auto intro!: following.obeys_and_then following.obeys_asks following.obeys_for_each
        following.obeys_emit following.obeys_ret)
  from obeysD [OF this assms(2)] obtain us where
    us: "emitted s' = emitted s @ us" "view (world s') = foldl see (view (world s)) us" by (auto simp: follows_def)
  from assms(2) obtain f where
    "for_each (failure_report f) (emit (processEvents d)) s = (r, s')"
    unfolding handleRunFailure_def and_then_asks failure_report_def Let_def by blast
  from for_each_emit_prefix [OF this] us show ?thesis by auto
qed

text \<open>What is observed of an operation that goes from \<open>s\<close> to \<open>s'\<close>.\<close>

definition observed :: "('t, 't sightings \<times> 'y) run_state \<Rightarrow> ('t, 't sightings \<times> 'y) run_state \<Rightarrow> bool" where
  "observed s s' \<longleftrightarrow> (\<exists>ts us f sight reported.
      emitted s' = emitted s @ ts @ us \<and> noted (world s') = noted (world s) @ sight @ reported
    \<and> seen_in_order (as_messages (ag_state (world s))) ts sight
    \<and> map fst reported = us \<and> prefix us (failure_report f)
    \<and> as_messages (ag_state (world s')) = as_messages (ag_state (world s)) @ message_ends (ts @ us))"

lemma observed_nothing: "noted (world s') = noted (world s) \<Longrightarrow> ag_state (world s') = ag_state (world s) \<Longrightarrow>
    emitted s' = emitted s \<Longrightarrow> observed s s'"
  unfolding observed_def
  by (intro exI [of _ "[]"] exI [of _ "failure_message (world s) 0 [] False"])
    (simp add: seen_in_order_def)

lemma lifecycle_observed:
  assumes d: "watched d" and idle: "agent_idle (world s)" and life: "runWithLifecycle d ex s = Some (x, s')"
    and ex: "\<And>r s1. ex (update_world begin_run s) = Some (r, s1) \<Longrightarrow>
        traced protocol_start s (Some (r, s1))
      \<and> (\<exists>ts. emitted s1 = emitted s @ ts \<and> view (world s1) = foldl see (view (begin_run (world s))) ts)"
  shows "observed s s'"
proof -
  let ?st = "ag_state (begin_run (world s))"
  have active: "ag_active (world s) = None" using idle by (simp add: agent_idle_def)
  have start: "view (begin_run (world s)) = (?st, noted (world s), True)"
    by (simp add: view_def noted_def begin_run_def)
  have reflects: "reflects protocol_start ?st" and before: "as_messages ?st = as_messages (ag_state (world s))"
    using idle by (simp_all add: agent_idle_def reflects_def protocol_start_def begin_run_def)
  from life active obtain r s1 where run: "ex (update_world begin_run s) = Some (r, s1)"
    by (auto simp: runWithLifecycle_def split: option.splits)
  from ex [OF run] obtain ts where ts: "emitted s1 = emitted s @ ts"
    and v: "view (world s1) = foldl see (view (begin_run (world s))) ts"
    and acc: "accepts protocol_step protocol_start ts \<noteq> None"
    by (auto simp: traced_def)
  note sight = sightings_in_order [OF reflects acc, unfolded before]
  have s1: "ag_state (world s1) = foldl reduce_event ?st ts"
    "noted (world s1) = noted (world s) @ sightings ?st ts" "ag_active (world s1) \<noteq> None"
    using v unfolding start foldl_see by (simp_all add: view_def)
  show ?thesis
  proof (cases r)
    case (Inr ms)
    with life active run have s': "s' = update_world finishRun s1" by (simp add: runWithLifecycle_def)
    have "prefix [] (failure_report (failure_message (world s) 0 [] False))" by simp
    with ts sight s1 show ?thesis
      unfolding observed_def s'
      by (intro exI [of _ ts] exI [of _ "[]"] exI [of _ "failure_message (world s) 0 [] False"] exI [of _ "sightings ?st ts"])
        (simp add: finishRun_def noted_def reduce_messages before)
  next
    case (Inl e)
    with life active run obtain s2 where f: "handleRunFailure d e s1 = (x, s2)"
      and s': "s' = update_world finishRun s2"
      by (cases "handleRunFailure d e s1") (auto simp: runWithLifecycle_def)
    from failure_watched [OF d f] obtain us f where us: "emitted s2 = emitted s1 @ us"
      "prefix us (failure_report f)" "view (world s2) = foldl see (view (world s1)) us" by blast
    have v1: "view (world s1) = (foldl reduce_event ?st ts, noted (world s) @ sightings ?st ts, True)"
      using s1 by (simp add: view_def)
    have s2: "ag_state (world s2) = foldl reduce_event ?st (ts @ us)"
      "noted (world s2) = noted (world s) @ sightings ?st ts @ sightings (foldl reduce_event ?st ts) us"
      using us(3) unfolding v1 foldl_see by (simp_all add: view_def)
    show ?thesis
      unfolding observed_def s'
      by (intro exI [of _ ts] exI [of _ us] exI [of _ f] exI [of _ "sightings ?st ts"]
          exI [of _ "sightings (foldl reduce_event ?st ts) us"])
        (use us s2 ts sight in \<open>simp add: finishRun_def noted_def reduce_messages before message_ends_append
          del: foldl_append\<close>)
  qed
qed

lemma loop_observed:
  assumes "watched d" and "world t = (begin_run (world s))\<lparr>ag_skipPoll := b\<rparr>" and "emitted t = emitted s"
    and "runAgentLoop n (loop_env d) (dep_streamFn d) ms (createContextSnapshot d a) (createLoopConfig d a) t = Some (r, s1)
       \<or> runAgentLoopContinue n (loop_env d) (dep_streamFn d) (createContextSnapshot d a) (createLoopConfig d a) t = Some (r, s1)"
  shows "traced protocol_start s (Some (r, s1))
    \<and> (\<exists>ts. emitted s1 = emitted s @ ts \<and> view (world s1) = foldl see (view (begin_run (world s))) ts)"
proof -
  have "traced protocol_start t (Some (r, s1))"
    using assms(4) by (metis traced_runAgentLoop traced_runAgentLoopContinue)
  then have "traced protocol_start s (Some (r, s1))" using assms(3) by (simp add: traced_def)
  moreover from assms(4) agent_following.runAgentLoop_obeys [OF watched_parts [OF assms(1)]]
    agent_following.runAgentLoopContinue_obeys [OF watched_parts [OF assms(1)]]
  obtain ts where "emitted s1 = emitted t @ ts" "follows view see (world t) ts (world s1)" by blast
  ultimately show ?thesis using assms(2,3) by (auto simp: follows_def view_def noted_def)
qed

lemma runPromptMessages_observed:
  assumes "watched d" and "agent_idle (world s)" and "runPromptMessages n d ms skip s = Some (x, s')"
  shows "observed s s'"
  by (rule lifecycle_observed [OF assms(1,2) assms(3) [unfolded runPromptMessages_def]])
    (rule loop_observed [OF assms(1), where s = s
        and t = "update_world (\<lambda>w. w\<lparr>ag_skipPoll := skip\<rparr>) (update_world begin_run s)"],
      auto simp: Let_def)

lemma runContinuation_observed:
  assumes "watched d" and "agent_idle (world s)" and "runContinuation n d s = Some (x, s')"
  shows "observed s s'"
  by (rule lifecycle_observed [OF assms(1,2) assms(3) [unfolded runContinuation_def]])
    (rule loop_observed [OF assms(1), where s = s
        and t = "update_world (\<lambda>w. w\<lparr>ag_skipPoll := False\<rparr>) (update_world begin_run s)"],
      auto simp: Let_def)

text \<open>\<^verbatim>\<open>continue\<close> may take queued messages before it runs.\<close>

lemma requeued_observed:
  assumes "watched d" and "runPromptMessages n d ms skip s1 = Some (x, s')" and "agent_idle (world s)"
    and "emitted s1 = emitted s" and "ag_state (world s1) = ag_state (world s)"
    and "ag_active (world s1) = ag_active (world s)" and "ag_host (world s1) = ag_host (world s)"
  shows "observed s s'"
  using runPromptMessages_observed [OF assms(1) _ assms(2)] assms(3-)
  by (simp add: observed_def noted_def agent_idle_def)

section \<open>Properties\<close>

lemma operation_observed:
  assumes "watched d" and "agent_idle (world s)"
    and "prompt n d input s = Some (x, s') \<or> continue_run n d s = Some (x, s')"
  shows "observed s s'"
  using assms(3)
proof
  assume "prompt n d input s = Some (x, s')"
  with assms(1,2) show ?thesis
    by (auto simp: prompt_def agent_idle_def [of "world s"] intro: runPromptMessages_observed)
next
  assume "continue_run n d s = Some (x, s')"
  with assms(2) show ?thesis
    by (auto simp: continue_run_def Let_def agent_idle_def noted_def observed_nothing
        split: option.splits if_splits prod.splits
        intro: runContinuation_observed [OF assms(1)]
        requeued_observed [OF assms(1), unfolded agent_idle_def])
qed

text \<open>
  C6: The agent's state follows the protocol through every run. Whatever the provider, tools,
  hooks and other listeners do, as long as they leave the agent's state to the agent, a \<^verbatim>\<open>prompt\<close> or
  \<^verbatim>\<open>continue\<close> shows a listener each event of the run in order, none skipped, together with a
  state that matches the protocol at that very event: the transcript has grown by exactly the messages that have ended, a
  streaming message is shown exactly while a message is open, and, when no tool call
  id is used twice, the pending tool calls are exactly the executions that are open. A run that
  failed adds at most the events of its failure message; in the end the transcript has grown by the messages that ended.
\<close>

theorem agent_state_refines_protocol:
  assumes "watched d" and "agent_idle (world s)"
    and "prompt n d input s = Some (x, s') \<or> continue_run n d s = Some (x, s')"
  shows "\<exists>ts us f sight reported.
      emitted s' = emitted s @ ts @ us
    \<and> noted (world s') = noted (world s) @ sight @ reported
    \<and> map fst sight = ts
    \<and> (\<forall>i<length ts. \<exists>q. accepts protocol_step protocol_start (take (Suc i) ts) = Some q
        \<and> as_messages (snd (sight ! i)) = as_messages (ag_state (world s)) @ pr_log q
        \<and> (as_streamingMessage (snd (sight ! i)) \<noteq> None \<longleftrightarrow> pr_life q = InMessage)
        \<and> (distinct (pr_started q) \<longrightarrow> as_pendingToolCalls (snd (sight ! i)) = set_mset (pr_open q)))
    \<and> map fst reported = us \<and> prefix us (failure_report f)
    \<and> as_messages (ag_state (world s')) = as_messages (ag_state (world s)) @ message_ends (ts @ us)"
  using operation_observed [OF assms]
  unfolding observed_def seen_in_order_def shows_phase_def by blast

text \<open>A concrete agent with the watching listener.\<close>

definition watched_deps :: "(unit, (unit, unit sightings \<times> nat) agent) agent_deps" where
  "watched_deps = \<lparr>dep_convertToLlm = (\<lambda>ms w. (Inr (defaultConvertToLlm ms), w)),
     dep_transformContext = None,
     dep_streamFn = (\<lambda>md c cf w. (Inr \<lparr>resp_events = [Ev_start demo_stop, Ev_done SR_stop demo_stop],
        resp_result = Inr demo_stop\<rparr>, w)),
     dep_getApiKey = None,
     dep_toolConfig = \<lparr>cfg_toolExecution = Some Mode_parallel, cfg_beforeToolCall = None, cfg_afterToolCall = None\<rparr>,
     dep_prepareNextTurn = None, dep_listeners = [watch],
     dep_tool = (\<lambda>t. \<lparr>tool_name = js ''read'', tool_description = [], tool_parameters = JObj [],
        tool_label = [], tool_prepareArguments = None,
        tool_execute = (\<lambda>i a w. (([], Inr demo_result), w)), tool_executionMode = None\<rparr>),
     dep_validateToolArguments = (\<lambda>t c. Inr (call_arguments c)),
     dep_now = (\<lambda>w. 0), dep_schedule = (\<lambda>w is. 0)\<rparr>"

definition watched_state :: "(unit, unit sightings \<times> nat) run_state" where
  "watched_state = \<lparr>emitted = [], world = \<lparr>ag_state = idle_state, ag_steering = new_queue Queue_all,
     ag_followUp = new_queue Queue_all, ag_active = None, ag_skipPoll = False, ag_host = ([], 0)\<rparr>\<rparr>"

lemma watched_deps_watched: "watched watched_deps"
  unfolding watched_def
  by (rule exI [of _ "[]"]) (simp add: watched_deps_def deps_obey_def callback_obeys_def hook_obeys_def
      stream_fn_obeys_def tool_config_obeys_def poll_obeys_def follows_def)

lemma watched_deps_shrink: "deps_obey (rank_law snd) watched_deps"
  by (simp add: watched_deps_def deps_obey_def callback_obeys_def hook_obeys_def
      stream_fn_obeys_def tool_config_obeys_def poll_obeys_def shrinks_def watch_def agent_rank_def)

lemma watched_run:
  obtains r s' where "prompt 2 watched_deps (Prompt_text (js ''hi'') []) watched_state = Some (r, s')"
proof -
  have "2 * agent_rank snd (world watched_state) + 1 < 2"
    by (simp add: agent_rank_def watched_state_def new_queue_def)
  moreover have "\<forall>md c cf w r w' m. dep_streamFn watched_deps md c cf w = (Inr r, w') \<longrightarrow> resp_result r = Inr m \<longrightarrow>
      tool_calls_of (am_content m) \<noteq> [] \<longrightarrow> agent_rank snd w' < agent_rank snd w"
    by (auto simp: watched_deps_def demo_stop_def sample_assistant_def)
  ultimately show thesis
    using prompt_completes [OF watched_deps_shrink] that by blast
qed

theorem agent_state_refines_protocol_witness:
  "\<exists>r s'. prompt 2 watched_deps (Prompt_text (js ''hi'') []) watched_state = Some (r, s')
     \<and> as_messages (ag_state (world s')) = message_ends (emitted s')
     \<and> map fst (noted (world s')) = emitted s'"
proof -
  obtain r s' where run: "prompt 2 watched_deps (Prompt_text (js ''hi'') []) watched_state = Some (r, s')"
    by (rule watched_run)
  have "agent_idle (world watched_state)"
    by (simp add: watched_state_def agent_idle_def idle_state_def createMutableAgentState_def)
  from agent_state_refines_protocol [OF watched_deps_watched this disjI1 [OF run]] run show ?thesis
    by (intro exI [of _ r] exI [of _ s'])
      (auto simp: watched_state_def noted_def idle_state_def createMutableAgentState_def)
qed

end
