(* ===== verification/Transform_Messages.thy ===== *)
theory Transform_Messages
  imports Messages Js_Strings
begin

text \<open>
  The message normalisation that every provider applies before a request:
  \<^verbatim>\<open>packages/ai/src/providers/transform-messages.ts\<close>. A first pass adapts messages that
  another model produced (images, thinking, tool call ids), a second one drops failed
  assistant messages and inserts a result for every tool call that has none.

  The provider's \<^verbatim>\<open>normalizeToolCallId\<close> is an argument, as in the code, and so is the clock; the
  normalisers of four providers are modelled here too.
\<close>

section \<open>Images\<close>

definition NON_VISION_USER_IMAGE_PLACEHOLDER :: jstr where
  "NON_VISION_USER_IMAGE_PLACEHOLDER = js ''(image omitted: model does not support images)''"

definition NON_VISION_TOOL_IMAGE_PLACEHOLDER :: jstr where
  "NON_VISION_TOOL_IMAGE_PLACEHOLDER = js ''(tool image omitted: model does not support images)''"

text \<open>The loop, with \<^verbatim>\<open>previousWasPlaceholder\<close>.\<close>

fun replace_images :: "jstr \<Rightarrow> bool \<Rightarrow> content_block list \<Rightarrow> content_block list" where
  "replace_images ph prev [] = []"
| "replace_images ph prev (ImageBlock i # bs) =
     (if prev then replace_images ph True bs else text_block ph # replace_images ph True bs)"
| "replace_images ph prev (TextBlock t # bs) =
     TextBlock t # replace_images ph (tc_text t = ph) bs"

definition replaceImagesWithPlaceholder :: "content_block list \<Rightarrow> jstr \<Rightarrow> content_block list" where
  "replaceImagesWithPlaceholder content ph = replace_images ph False content"

fun downgrade_message :: "message \<Rightarrow> message" where
  "downgrade_message (UserM u) =
     (case um_content u of
        Blocks bs \<Rightarrow>
          UserM (u\<lparr>um_content := Blocks (replaceImagesWithPlaceholder bs NON_VISION_USER_IMAGE_PLACEHOLDER)\<rparr>)
      | PlainText t \<Rightarrow> UserM u)"
| "downgrade_message (ToolResultM r) =
     ToolResultM (r\<lparr>tr_content := replaceImagesWithPlaceholder (tr_content r) NON_VISION_TOOL_IMAGE_PLACEHOLDER\<rparr>)"
| "downgrade_message (AssistantM a) = AssistantM a"

definition downgradeUnsupportedImages :: "message list \<Rightarrow> llm_model \<Rightarrow> message list" where
  "downgradeUnsupportedImages ms model =
     (if InImage \<in> set (model_input model) then ms else map downgrade_message ms)"

section \<open>The first pass\<close>

type_synonym id_map = "jstr \<rightharpoonup> jstr"
type_synonym id_normalizer = "jstr \<Rightarrow> llm_model \<Rightarrow> assistant_message \<Rightarrow> jstr"

definition is_same_model :: "assistant_message \<Rightarrow> llm_model \<Rightarrow> bool" where
  "is_same_model a model \<longleftrightarrow>
     am_provider a = model_provider model \<and> am_api a = model_api model \<and> am_model a = model_id model"

definition transform_thinking :: "bool \<Rightarrow> thinking_content \<Rightarrow> assistant_block list" where
  "transform_thinking same b =
     (if th_redacted b = Some True then (if same then [AThinking b] else [])
      else if same \<and> truthy_str (th_thinkingSignature b) then [AThinking b]
      else if th_thinking b = [] \<or> js_trim (th_thinking b) = [] then []
      else if same then [AThinking b]
      else [AText \<lparr>tc_text = th_thinking b, tc_textSignature = None\<rparr>])"

definition transform_call ::
    "llm_model \<Rightarrow> id_normalizer option \<Rightarrow> assistant_message \<Rightarrow> bool \<Rightarrow> tool_call \<Rightarrow> id_map \<Rightarrow>
     tool_call \<times> id_map" where
  "transform_call model nz a same c m =
     (let c1 = (if \<not> same \<and> truthy_str (call_thoughtSignature c)
                then c\<lparr>call_thoughtSignature := None\<rparr> else c) in
      case nz of
        Some f \<Rightarrow>
          (let i = f (call_id c) model a in
           if \<not> same \<and> i \<noteq> call_id c then (c1\<lparr>call_id := i\<rparr>, m(call_id c \<mapsto> i)) else (c1, m))
      | None \<Rightarrow> (c1, m))"

fun transform_blocks ::
    "llm_model \<Rightarrow> id_normalizer option \<Rightarrow> assistant_message \<Rightarrow> bool \<Rightarrow> assistant_block list \<Rightarrow> id_map \<Rightarrow>
     assistant_block list \<times> id_map" where
  "transform_blocks model nz a same [] m = ([], m)"
| "transform_blocks model nz a same (AThinking b # bs) m =
     (case transform_blocks model nz a same bs m of
        (bs', m') \<Rightarrow> (transform_thinking same b @ bs', m'))"
| "transform_blocks model nz a same (AText t # bs) m =
     (case transform_blocks model nz a same bs m of
        (bs', m') \<Rightarrow>
          (AText (if same then t else \<lparr>tc_text = tc_text t, tc_textSignature = None\<rparr>) # bs', m'))"
| "transform_blocks model nz a same (AToolCall c # bs) m =
     (case transform_call model nz a same c m of
        (c', m1) \<Rightarrow>
          (case transform_blocks model nz a same bs m1 of (bs', m') \<Rightarrow> (AToolCall c' # bs', m')))"

fun transform_message ::
    "llm_model \<Rightarrow> id_normalizer option \<Rightarrow> message \<Rightarrow> id_map \<Rightarrow> message \<times> id_map" where
  "transform_message model nz (UserM u) m = (UserM u, m)"
| "transform_message model nz (ToolResultM r) m =
     (case m (tr_toolCallId r) of
        Some i \<Rightarrow>
          (if i \<noteq> [] \<and> i \<noteq> tr_toolCallId r then (ToolResultM (r\<lparr>tr_toolCallId := i\<rparr>), m)
           else (ToolResultM r, m))
      | None \<Rightarrow> (ToolResultM r, m))"
| "transform_message model nz (AssistantM a) m =
     (case transform_blocks model nz a (is_same_model a model) (am_content a) m of
        (bs, m') \<Rightarrow> (AssistantM (a\<lparr>am_content := bs\<rparr>), m'))"

fun first_pass ::
    "llm_model \<Rightarrow> id_normalizer option \<Rightarrow> message list \<Rightarrow> id_map \<Rightarrow> message list" where
  "first_pass model nz [] m = []"
| "first_pass model nz (x # xs) m =
     (case transform_message model nz x m of (x', m') \<Rightarrow> x' # first_pass model nz xs m')"

section \<open>The second pass\<close>

text \<open>The state: the result so far, \<^verbatim>\<open>pendingToolCalls\<close> and \<^verbatim>\<open>existingToolResultIds\<close>.\<close>

record pass_state =
  ps_result :: "message list"
  ps_pending :: "tool_call list"
  ps_existing :: "jstr set"

definition synthetic_result :: "int \<Rightarrow> tool_call \<Rightarrow> message" where
  "synthetic_result now c =
     ToolResultM \<lparr>tr_toolCallId = call_id c, tr_toolName = call_name c,
       tr_content = [text_block (js ''No result provided'')], tr_details = None, tr_isError = True,
       tr_timestamp = Some now\<rparr>"

definition insertSyntheticToolResults :: "int \<Rightarrow> pass_state \<Rightarrow> pass_state" where
  "insertSyntheticToolResults now s =
     (if length (ps_pending s) > 0 then
        \<lparr>ps_result = ps_result s
           @ map (synthetic_result now) (filter (\<lambda>c. call_id c \<notin> ps_existing s) (ps_pending s)),
         ps_pending = [], ps_existing = {}\<rparr>
      else s)"

definition failed_assistant :: "assistant_message \<Rightarrow> bool" where
  "failed_assistant a \<longleftrightarrow> am_stopReason a = SR_error \<or> am_stopReason a = SR_aborted"

fun second_pass_step :: "int \<Rightarrow> pass_state \<Rightarrow> message \<Rightarrow> pass_state" where
  "second_pass_step now s (AssistantM a) =
     (let s1 = insertSyntheticToolResults now s in
      if failed_assistant a then s1
      else
        (let cs = tool_calls_of (am_content a);
             s2 = (if length cs > 0 then s1\<lparr>ps_pending := cs, ps_existing := {}\<rparr> else s1) in
         s2\<lparr>ps_result := ps_result s2 @ [AssistantM a]\<rparr>))"
| "second_pass_step now s (ToolResultM r) =
     s\<lparr>ps_existing := insert (tr_toolCallId r) (ps_existing s), ps_result := ps_result s @ [ToolResultM r]\<rparr>"
| "second_pass_step now s (UserM u) =
     (let s1 = insertSyntheticToolResults now s in s1\<lparr>ps_result := ps_result s1 @ [UserM u]\<rparr>)"

definition second_pass :: "int \<Rightarrow> message list \<Rightarrow> message list" where
  "second_pass now ms =
     ps_result (insertSyntheticToolResults now
       (foldl (second_pass_step now) \<lparr>ps_result = [], ps_pending = [], ps_existing = {}\<rparr> ms))"

definition transformMessages ::
    "int \<Rightarrow> message list \<Rightarrow> llm_model \<Rightarrow> id_normalizer option \<Rightarrow> message list" where
  "transformMessages now messages model nz =
     second_pass now (first_pass model nz (downgradeUnsupportedImages messages model) Map.empty)"

section \<open>The normalisers of the providers\<close>

text \<open>\<^verbatim>\<open>id.replace(/[^a-zA-Z0-9_-]/g, "_")\<close>.\<close>

definition id_char :: "code_unit \<Rightarrow> bool" where
  "id_char u \<longleftrightarrow> (0x61 \<le> u \<and> u \<le> 0x7A) \<or> (0x41 \<le> u \<and> u \<le> 0x5A) \<or> (0x30 \<le> u \<and> u \<le> 0x39)
     \<or> u = 0x5F \<or> u = 0x2D"

definition sanitize_id :: "jstr \<Rightarrow> jstr" where
  "sanitize_id i = map (\<lambda>u. if id_char u then u else 0x5F) i"

definition anthropic_normalizeToolCallId :: id_normalizer where
  "anthropic_normalizeToolCallId i model source = take 64 (sanitize_id i)"

definition bedrock_normalizeToolCallId :: id_normalizer where
  "bedrock_normalizeToolCallId i model source =
     (let sanitized = sanitize_id i in if length sanitized > 64 then take 64 sanitized else sanitized)"

definition requiresToolCallId :: "jstr \<Rightarrow> bool" where
  "requiresToolCallId modelId \<longleftrightarrow> prefix (js ''claude-'') modelId \<or> prefix (js ''gpt-oss-'') modelId"

definition google_normalizeToolCallId :: id_normalizer where
  "google_normalizeToolCallId i model source =
     (if \<not> requiresToolCallId (model_id model) then i else take 64 (sanitize_id i))"

definition completions_normalizeToolCallId :: id_normalizer where
  "completions_normalizeToolCallId i model source =
     (if 0x7C \<in> set i then take 40 (sanitize_id (hd (split_on 0x7C i)))
      else if model_provider model = js ''openai'' then (if length i > 40 then take 40 i else i)
      else i)"

section \<open>Answered tool calls\<close>

text \<open>
  \<open>answered out ms\<close>: with the calls \<open>out\<close> still to be answered, every tool call of an assistant
  message in \<open>ms\<close> gets a result before the next assistant or user message and before the end.
\<close>

fun answered :: "jstr set \<Rightarrow> message list \<Rightarrow> bool" where
  "answered out [] \<longleftrightarrow> out = {}"
| "answered out (UserM u # ms) \<longleftrightarrow> out = {} \<and> answered {} ms"
| "answered out (AssistantM a # ms) \<longleftrightarrow>
     out = {} \<and> answered (call_id ` set (tool_calls_of (am_content a))) ms"
| "answered out (ToolResultM r # ms) \<longleftrightarrow> answered (out - {tr_toolCallId r}) ms"

text \<open>The calls that are still open at the end of a list.\<close>

fun left_open :: "jstr set \<Rightarrow> message list \<Rightarrow> jstr set option" where
  "left_open out [] = Some out"
| "left_open out (UserM u # ms) = (if out = {} then left_open {} ms else None)"
| "left_open out (AssistantM a # ms) =
     (if out = {} then left_open (call_id ` set (tool_calls_of (am_content a))) ms else None)"
| "left_open out (ToolResultM r # ms) = left_open (out - {tr_toolCallId r}) ms"

lemma answered_left_open: "answered out ms \<longleftrightarrow> left_open out ms = Some {}"
  by (induction out ms rule: answered.induct) auto

lemma left_open_append:
  "left_open out (xs @ ys) = (case left_open out xs of None \<Rightarrow> None | Some o' \<Rightarrow> left_open o' ys)"
  by (induction out xs rule: left_open.induct) auto

lemma left_open_synthetic:
  "left_open out (map (synthetic_result now) cs) = Some (out - call_id ` set cs)"
proof (induction cs arbitrary: out)
  case Nil
  show ?case by simp
next
  case (Cons c cs)
  show ?case by (simp add: synthetic_result_def Cons.IH [unfolded synthetic_result_def]) blast
qed

definition pass_inv :: "pass_state \<Rightarrow> bool" where
  "pass_inv s \<longleftrightarrow> left_open {} (ps_result s) = Some (call_id ` set (ps_pending s) - ps_existing s)
     \<and> (\<forall>m a. m \<in> set (ps_result s) \<longrightarrow> m = AssistantM a \<longrightarrow> \<not> failed_assistant a)"

lemma insert_synthetic_inv:
  assumes "pass_inv s"
  shows "left_open {} (ps_result (insertSyntheticToolResults now s)) = Some {}
    \<and> ps_pending (insertSyntheticToolResults now s) = []
    \<and> pass_inv (insertSyntheticToolResults now s)"
proof (cases "ps_pending s = []")
  case True
  with assms show ?thesis by (simp add: insertSyntheticToolResults_def pass_inv_def)
next
  case False
  have "call_id ` set (ps_pending s) - ps_existing s
      - call_id ` set (filter (\<lambda>c. call_id c \<notin> ps_existing s) (ps_pending s)) = {}" by auto
  with False assms show ?thesis
    by (auto simp: insertSyntheticToolResults_def pass_inv_def left_open_append left_open_synthetic
        synthetic_result_def)
qed

lemma insert_synthetic_pending: "ps_pending (insertSyntheticToolResults now s) = []"
  by (simp add: insertSyntheticToolResults_def)

lemma second_pass_step_inv: "pass_inv s \<Longrightarrow> pass_inv (second_pass_step now s m)"
proof (cases m)
  case (UserM u)
  assume "pass_inv s"
  from insert_synthetic_inv [OF this, of now] UserM show ?thesis
    by (auto simp: Let_def pass_inv_def left_open_append)
next
  case (ToolResultM r)
  assume "pass_inv s"
  with ToolResultM show ?thesis by (auto simp: pass_inv_def left_open_append)
next
  case (AssistantM a)
  assume "pass_inv s"
  from insert_synthetic_inv [OF this, of now] AssistantM show ?thesis
    by (auto simp: Let_def pass_inv_def left_open_append)
qed

lemma second_pass_inv:
  "pass_inv (foldl (second_pass_step now) \<lparr>ps_result = [], ps_pending = [], ps_existing = {}\<rparr> ms)"
proof -
  have "pass_inv s \<Longrightarrow> pass_inv (foldl (second_pass_step now) s ms)" for s
    by (induction ms arbitrary: s) (auto intro: second_pass_step_inv)
  moreover have "pass_inv \<lparr>ps_result = [], ps_pending = [], ps_existing = {}\<rparr>"
    by (simp add: pass_inv_def)
  ultimately show ?thesis by blast
qed

text \<open>
  C8: Whatever the history, in the messages sent to a provider every tool call is answered by a
  tool result before the next user or assistant message, and no failed or aborted assistant message is left.
\<close>

theorem transformed_calls_answered:
  "answered {} (transformMessages now ms model nz)
   \<and> {a. AssistantM a \<in> set (transformMessages now ms model nz) \<and> failed_assistant a} = {}"
  using insert_synthetic_inv [OF second_pass_inv]
  by (auto simp add: transformMessages_def second_pass_def answered_left_open pass_inv_def)

section \<open>Results stay with their calls\<close>

text \<open>
  \<open>follow cur ms\<close> checks that every tool result carries the id of a call of the assistant message before it,
  where a failed assistant message offers none, and gives the ids that the next result may have.
\<close>

fun follow :: "jstr set \<Rightarrow> message list \<Rightarrow> jstr set option" where
  "follow cur [] = Some cur"
| "follow cur (UserM u # ms) = follow {} ms"
| "follow cur (AssistantM a # ms) =
     follow (if failed_assistant a then {} else call_id ` set (tool_calls_of (am_content a))) ms"
| "follow cur (ToolResultM r # ms) = (if tr_toolCallId r \<in> cur then follow cur ms else None)"

fun all_call_ids :: "message list \<Rightarrow> jstr list" where
  "all_call_ids [] = []"
| "all_call_ids (AssistantM a # ms) = map call_id (tool_calls_of (am_content a)) @ all_call_ids ms"
| "all_call_ids (_ # ms) = all_call_ids ms"

definition renamed :: "id_map \<Rightarrow> jstr \<Rightarrow> jstr" where
  "renamed m i = (case m i of None \<Rightarrow> i | Some j \<Rightarrow> if j \<noteq> [] \<and> j \<noteq> i then j else i)"

text \<open>The id under which a call of the message \<open>a\<close> is sent.\<close>

definition new_id :: "llm_model \<Rightarrow> id_normalizer option \<Rightarrow> assistant_message \<Rightarrow> tool_call \<Rightarrow> jstr" where
  "new_id model nz a c =
     (case nz of None \<Rightarrow> call_id c
      | Some f \<Rightarrow> if is_same_model a model then call_id c else f (call_id c) model a)"

text \<open>The normaliser gives no call of the message, or of the history, the empty id.\<close>

definition blocks_named :: "llm_model \<Rightarrow> id_normalizer option \<Rightarrow> assistant_message \<Rightarrow> assistant_block list \<Rightarrow> bool" where
  "blocks_named model nz a bs \<longleftrightarrow> (\<forall>c\<in>set (tool_calls_of bs). \<forall>f. nz = Some f \<longrightarrow> f (call_id c) model a \<noteq> [])"

fun calls_named :: "llm_model \<Rightarrow> id_normalizer option \<Rightarrow> message list \<Rightarrow> bool" where
  "calls_named model nz [] \<longleftrightarrow> True"
| "calls_named model nz (AssistantM a # ms) \<longleftrightarrow> blocks_named model nz a (am_content a) \<and> calls_named model nz ms"
| "calls_named model nz (_ # ms) \<longleftrightarrow> calls_named model nz ms"

lemma follow_append:
  "follow cur (xs @ ys) = (case follow cur xs of None \<Rightarrow> None | Some c \<Rightarrow> follow c ys)"
  by (induction cur xs rule: follow.induct) auto

lemma follow_mono:
  "follow cur ms = Some c \<Longrightarrow> cur \<subseteq> cur' \<Longrightarrow> \<exists>c'. follow cur' ms = Some c' \<and> c \<subseteq> c'"
  by (induction cur ms arbitrary: cur' rule: follow.induct) (auto split: if_splits)

lemma transform_call_renames:
  assumes "transform_call model nz a (is_same_model a model) c m = (c', m')" and "m (call_id c) = None"
    and "\<forall>f. nz = Some f \<longrightarrow> f (call_id c) model a \<noteq> []"
  shows "call_id c' = renamed m' (call_id c) \<and> renamed m' (call_id c) = new_id model nz a c
    \<and> call_name c' = call_name c \<and> call_arguments c' = call_arguments c
    \<and> (\<forall>x. x \<noteq> call_id c \<longrightarrow> m' x = m x)"
  using assms by (auto simp: transform_call_def renamed_def new_id_def Let_def split: option.splits if_splits)

text \<open>What a call says, with its id renamed.\<close>

definition call_outline :: "(jstr \<Rightarrow> jstr) \<Rightarrow> tool_call \<Rightarrow> jstr \<times> jstr \<times> json" where
  "call_outline \<rho> c = (\<rho> (call_id c), call_name c, call_arguments c)"

lemma transform_blocks_renames:
  assumes "transform_blocks model nz a same bs m = (bs', m')" and "same = is_same_model a model"
    and "distinct (map call_id (tool_calls_of bs))"
    and "\<forall>i\<in>call_id ` set (tool_calls_of bs). m i = None"
    and "blocks_named model nz a bs"
  shows "map (call_outline (\<lambda>i. i)) (tool_calls_of bs') = map (call_outline (renamed m')) (tool_calls_of bs)
    \<and> (\<forall>c\<in>set (tool_calls_of bs). renamed m' (call_id c) = new_id model nz a c)
    \<and> (\<forall>x. x \<notin> call_id ` set (tool_calls_of bs) \<longrightarrow> m' x = m x)"
  using assms
proof (induction model nz a same bs m arbitrary: bs' m' rule: transform_blocks.induct)
  case (4 model nz a same c bs m)
  obtain c1 m1 where c1: "transform_call model nz a same c m = (c1, m1)" by fastforce
  with "4.prems"(1) obtain bs1 where bs1: "transform_blocks model nz a same bs m1 = (bs1, m')"
    "bs' = AToolCall c1 # bs1" by (auto split: prod.splits)
  have "m (call_id c) = None" "\<forall>f. nz = Some f \<longrightarrow> f (call_id c) model a \<noteq> []"
    using "4.prems"(4,5) by (simp_all add: blocks_named_def)
  from transform_call_renames [OF c1 [unfolded "4.prems"(2)] this]
  have call: "call_outline (\<lambda>i. i) c1 = call_outline (renamed m1) c" "renamed m1 (call_id c) = new_id model nz a c"
    "\<forall>x. x \<noteq> call_id c \<longrightarrow> m1 x = m x" by (simp_all add: call_outline_def)
  have c: "call_id c \<notin> call_id ` set (tool_calls_of bs)" using "4.prems"(3) by simp
  have fresh: "\<forall>i\<in>call_id ` set (tool_calls_of bs). m1 i = None"
  proof
    fix i assume i: "i \<in> call_id ` set (tool_calls_of bs)"
    with c have "i \<noteq> call_id c" by blast
    moreover from "4.prems"(4) i have "m i = None" by auto
    ultimately show "m1 i = None" using call(3) by simp
  qed
  have named: "blocks_named model nz a bs" using "4.prems"(5) by (simp add: blocks_named_def)
  from "4.IH" [OF c1 [symmetric] bs1(1) "4.prems"(2) _ fresh named] "4.prems"(3)
  have rest: "map (call_outline (\<lambda>i. i)) (tool_calls_of bs1) = map (call_outline (renamed m')) (tool_calls_of bs)"
    "\<forall>c\<in>set (tool_calls_of bs). renamed m' (call_id c) = new_id model nz a c"
    "\<forall>x. x \<notin> call_id ` set (tool_calls_of bs) \<longrightarrow> m' x = m1 x" by simp_all
  from rest(3) c have "m' (call_id c) = m1 (call_id c)" by blast
  then have "renamed m' (call_id c) = renamed m1 (call_id c)" by (simp add: renamed_def)
  with call(1,2) have head: "call_outline (\<lambda>i. i) c1 = call_outline (renamed m') c"
    "renamed m' (call_id c) = new_id model nz a c" by (simp_all add: call_outline_def)
  from head rest call(3) bs1(2) show ?case by auto
qed (auto simp: transform_thinking_def blocks_named_def split: prod.splits if_splits)

text \<open>The map of ids at the end of the first pass.\<close>

fun final_ids :: "llm_model \<Rightarrow> id_normalizer option \<Rightarrow> message list \<Rightarrow> id_map \<Rightarrow> id_map" where
  "final_ids model nz [] m = m"
| "final_ids model nz (x # xs) m = final_ids model nz xs (snd (transform_message model nz x m))"

text \<open>
  The outline of a message: a user message, the calls of an assistant message, or a tool result, with the
  ids of calls renamed.
\<close>

datatype outline = User_said user_message | Model_called "(jstr \<times> jstr \<times> json) list"
  | Tool_said tool_result_message

fun outline_of :: "(jstr \<Rightarrow> jstr) \<Rightarrow> message \<Rightarrow> outline" where
  "outline_of \<rho> (UserM u) = User_said u"
| "outline_of \<rho> (AssistantM a) = Model_called (map (call_outline \<rho>) (tool_calls_of (am_content a)))"
| "outline_of \<rho> (ToolResultM r) = Tool_said (r\<lparr>tr_toolCallId := \<rho> (tr_toolCallId r)\<rparr>)"

fun kept :: "message \<Rightarrow> bool" where
  "kept (AssistantM a) \<longleftrightarrow> \<not> failed_assistant a"
| "kept _ \<longleftrightarrow> True"

text \<open>What an assistant message with fresh, distinct ids becomes.\<close>

lemma transform_assistant:
  assumes "distinct (all_call_ids (AssistantM a # xs))"
    and "\<forall>i\<in>set (all_call_ids (AssistantM a # xs)). m i = None"
    and "calls_named model nz (AssistantM a # xs)"
  obtains bs m' where "transform_message model nz (AssistantM a) m = (AssistantM (a\<lparr>am_content := bs\<rparr>), m')"
    and "map (call_outline (\<lambda>i. i)) (tool_calls_of bs) = map (call_outline (renamed m')) (tool_calls_of (am_content a))"
    and "\<forall>c\<in>set (tool_calls_of (am_content a)). renamed m' (call_id c) = new_id model nz a c"
    and "\<forall>x. x \<notin> call_id ` set (tool_calls_of (am_content a)) \<longrightarrow> m' x = m x"
    and "\<forall>i\<in>set (all_call_ids xs). m' i = None"
proof -
  obtain bs m' where bs: "transform_blocks model nz a (is_same_model a model) (am_content a) m = (bs, m')"
    by fastforce
  have "distinct (map call_id (tool_calls_of (am_content a)))"
    "\<forall>i\<in>call_id ` set (tool_calls_of (am_content a)). m i = None" "blocks_named model nz a (am_content a)"
    using assms by auto
  from transform_blocks_renames [OF bs refl this]
  have ren: "map (call_outline (\<lambda>i. i)) (tool_calls_of bs) = map (call_outline (renamed m')) (tool_calls_of (am_content a))"
    "\<forall>c\<in>set (tool_calls_of (am_content a)). renamed m' (call_id c) = new_id model nz a c"
    "\<forall>x. x \<notin> call_id ` set (tool_calls_of (am_content a)) \<longrightarrow> m' x = m x" by simp_all
  have "\<forall>i\<in>set (all_call_ids xs). m' i = None"
    using assms(1,2) ren(3) by fastforce
  with bs ren that show thesis by simp
qed

lemma final_ids_keeps:
  assumes "distinct (all_call_ids ms)" and "\<forall>i\<in>set (all_call_ids ms). m i = None" and "calls_named model nz ms"
    and "i \<notin> set (all_call_ids ms)"
  shows "final_ids model nz ms m i = m i"
  using assms
proof (induction ms arbitrary: m)
  case (Cons x xs)
  show ?case
  proof (cases x)
    case (AssistantM a)
    from transform_assistant [OF Cons.prems(1-3) [unfolded AssistantM]] obtain bs m' where
      run: "transform_message model nz (AssistantM a) m = (AssistantM (a\<lparr>am_content := bs\<rparr>), m')"
      and keep: "\<forall>x. x \<notin> call_id ` set (tool_calls_of (am_content a)) \<longrightarrow> m' x = m x"
      and fresh: "\<forall>i\<in>set (all_call_ids xs). m' i = None" by metis
    have "final_ids model nz xs m' i = m' i"
      using Cons.prems AssistantM by (intro Cons.IH fresh) auto
    moreover have "m' i = m i" using keep Cons.prems(4) AssistantM by auto
    ultimately show ?thesis using AssistantM run by simp
  next
    case (ToolResultM r)
    have "snd (transform_message model nz x m) = m" using ToolResultM by (auto split: option.splits)
    with Cons ToolResultM show ?thesis by simp
  qed (use Cons in simp)
qed simp

lemma final_ids_of_results:
  assumes "distinct (all_call_ids ms)" and "\<forall>i\<in>set (all_call_ids ms). m i = None" and "calls_named model nz ms"
    and "i \<notin> set (all_call_ids ms)"
  shows "renamed (final_ids model nz ms m) i = renamed m i"
  using final_ids_keeps [OF assms] by (simp add: renamed_def)

text \<open>The first pass renames the outline, call by call and result by result.\<close>

lemma first_pass_outline:
  assumes "follow cur ms = Some c" and "distinct (all_call_ids ms)"
    and "\<forall>i\<in>set (all_call_ids ms). m i = None" and "calls_named model nz ms"
    and "cur \<inter> set (all_call_ids ms) = {}"
  shows "map (outline_of (\<lambda>i. i)) (first_pass model nz ms m)
      = map (outline_of (renamed (final_ids model nz ms m))) ms
    \<and> map kept (first_pass model nz ms m) = map kept ms
    \<and> (\<forall>a c. AssistantM a \<in> set ms \<longrightarrow> c \<in> set (tool_calls_of (am_content a)) \<longrightarrow>
         renamed (final_ids model nz ms m) (call_id c) = new_id model nz a c)
    \<and> (\<exists>c'. follow (renamed m ` cur) (first_pass model nz ms m) = Some c')"
  using assms
proof (induction model nz ms m arbitrary: cur rule: first_pass.induct)
  case (1 model nz m)
  then show ?case by simp
next
  case (2 model nz x xs m)
  show ?case
  proof (cases x)
    case (UserM u)
    with "2.prems" "2.IH" [of x m "{}"] show ?thesis by simp
  next
    case (ToolResultM r)
    with "2.prems"(1) have r: "tr_toolCallId r \<in> cur" "follow cur xs = Some c" by (auto split: if_splits)
    have x: "transform_message model nz x m
        = (ToolResultM (r\<lparr>tr_toolCallId := renamed m (tr_toolCallId r)\<rparr>), m)"
      using ToolResultM by (auto simp: renamed_def split: option.splits)
    have notin: "tr_toolCallId r \<notin> set (all_call_ids xs)" using r(1) "2.prems"(5) ToolResultM by auto
    have "renamed (final_ids model nz xs m) (tr_toolCallId r) = renamed m (tr_toolCallId r)"
      using "2.prems" ToolResultM notin by (intro final_ids_of_results) auto
    with "2.IH" [OF x [symmetric] r(2)] "2.prems" ToolResultM r x show ?thesis by auto
  next
    case (AssistantM a)
    let ?cs = "tool_calls_of (am_content a)"
    from transform_assistant [OF "2.prems"(2-4) [unfolded AssistantM]] obtain bs m' where
      run: "transform_message model nz (AssistantM a) m = (AssistantM (a\<lparr>am_content := bs\<rparr>), m')"
      and ren: "map (call_outline (\<lambda>i. i)) (tool_calls_of bs) = map (call_outline (renamed m')) ?cs"
      and new: "\<forall>c\<in>set ?cs. renamed m' (call_id c) = new_id model nz a c"
      and fresh: "\<forall>i\<in>set (all_call_ids xs). m' i = None" by metis
    let ?cur = "if failed_assistant a then {} else call_id ` set ?cs"
    have prems: "follow ?cur xs = Some c" "distinct (all_call_ids xs)" "calls_named model nz xs"
      "call_id ` set ?cs \<inter> set (all_call_ids xs) = {}"
      using "2.prems" AssistantM by auto
    then have "?cur \<inter> set (all_call_ids xs) = {}" by auto
    from "2.IH" [OF run [folded AssistantM, symmetric] prems(1,2) fresh prems(3) this]
    have IH: "map (outline_of (\<lambda>i. i)) (first_pass model nz xs m')
        = map (outline_of (renamed (final_ids model nz xs m'))) xs"
      "map kept (first_pass model nz xs m') = map kept xs"
      "\<forall>a c. AssistantM a \<in> set xs \<longrightarrow> c \<in> set (tool_calls_of (am_content a)) \<longrightarrow>
         renamed (final_ids model nz xs m') (call_id c) = new_id model nz a c"
      "\<exists>c'. follow (renamed m' ` ?cur) (first_pass model nz xs m') = Some c'" by simp_all
    have final: "renamed (final_ids model nz xs m') (call_id c) = renamed m' (call_id c)" if "c \<in> set ?cs" for c
      using prems that by (intro final_ids_of_results [OF prems(2) fresh]) auto
    have "map (call_outline (\<lambda>i. i)) (tool_calls_of bs) = map (call_outline (renamed (final_ids model nz xs m'))) ?cs"
      unfolding ren using final by (simp add: call_outline_def)
    moreover have "call_id ` set (tool_calls_of bs) = renamed m' ` call_id ` set ?cs"
    proof -
      have "map call_id (tool_calls_of bs) = map (\<lambda>c. renamed m' (call_id c)) ?cs"
        using arg_cong [OF ren, of "map fst"] by (simp add: call_outline_def comp_def)
      from arg_cong [OF this, of set] show ?thesis by (simp add: image_comp comp_def)
    qed
    ultimately show ?thesis
      using run IH new final AssistantM by (auto simp: failed_assistant_def)
  qed
qed

text \<open>The second pass never takes a call away from a result.\<close>

lemma follow_synthetic:
  "call_id ` set cs \<subseteq> cur \<Longrightarrow> follow cur (map (synthetic_result now) cs) = Some cur"
  by (induction cs) (auto simp: synthetic_result_def)

definition pass_follows :: "jstr set \<Rightarrow> pass_state \<Rightarrow> bool" where
  "pass_follows cur s \<longleftrightarrow>
     (\<exists>c. follow {} (ps_result s) = Some c \<and> cur \<subseteq> c \<and> call_id ` set (ps_pending s) \<subseteq> c)"

lemma insert_follows:
  "pass_follows cur s \<Longrightarrow> pass_follows cur (insertSyntheticToolResults now s)"
proof -
  assume "pass_follows cur s"
  then obtain c where c: "follow {} (ps_result s) = Some c" "cur \<subseteq> c" "call_id ` set (ps_pending s) \<subseteq> c"
    by (auto simp: pass_follows_def)
  have "follow c (map (synthetic_result now) (filter (\<lambda>x. call_id x \<notin> ps_existing s) (ps_pending s))) = Some c"
    by (rule follow_synthetic) (use c(3) in auto)
  with c show ?thesis by (auto simp: pass_follows_def insertSyntheticToolResults_def follow_append)
qed

lemma pass_follows_empty: "pass_follows cur s \<Longrightarrow> pass_follows {} s"
  by (auto simp: pass_follows_def)

lemma second_pass_follows:
  "pass_follows cur s \<Longrightarrow> follow cur ms = Some c \<Longrightarrow>
   \<exists>cur'. pass_follows cur' (foldl (second_pass_step now) s ms)"
proof (induction cur ms arbitrary: s rule: follow.induct)
  case (1 cur)
  then show ?case by auto
next
  case (2 cur u ms)
  let ?s = "second_pass_step now s (UserM u)"
  have "pass_follows {} ?s"
    using insert_follows [OF "2.prems"(1), of now] insert_synthetic_pending [of now s]
    by (auto simp: Let_def pass_follows_def follow_append)
  with "2.IH" "2.prems"(2) show ?case by simp
next
  case (3 cur a ms)
  let ?cur = "if failed_assistant a then {} else call_id ` set (tool_calls_of (am_content a))"
  let ?s = "second_pass_step now s (AssistantM a)"
  have "pass_follows ?cur ?s"
    using insert_follows [OF "3.prems"(1), of now] insert_synthetic_pending [of now s]
    by (auto simp: Let_def pass_follows_def follow_append)
  with "3.IH" "3.prems"(2) show ?case by simp
next
  case (4 cur r ms)
  then have r: "tr_toolCallId r \<in> cur" "follow cur ms = Some c" by (auto split: if_splits)
  have "pass_follows cur (second_pass_step now s (ToolResultM r))"
    using "4.prems"(1) r by (auto simp: pass_follows_def follow_append)
  with "4.IH" [OF r(1) this r(2)] show ?case by simp
qed

lemma downgrade_follows: "follow cur (downgradeUnsupportedImages ms model) = follow cur ms"
proof -
  have "follow cur (map downgrade_message ms) = follow cur ms"
    by (induction cur ms rule: follow.induct) (auto split: message_content.splits)
  then show ?thesis by (simp add: downgradeUnsupportedImages_def)
qed

lemma downgrade_call_ids: "all_call_ids (downgradeUnsupportedImages ms model) = all_call_ids ms"
proof -
  have "all_call_ids (map downgrade_message ms) = all_call_ids ms"
    by (induction ms rule: all_call_ids.induct) (auto split: message_content.splits)
  then show ?thesis by (simp add: downgradeUnsupportedImages_def)
qed

text \<open>
  The second pass only drops the failed assistant messages and inserts synthetic results.
  \<open>fills P xs ys\<close>: \<open>ys\<close> is \<open>xs\<close> with elements inserted that satisfy \<open>P\<close>.
\<close>

inductive fills :: "('a \<Rightarrow> bool) \<Rightarrow> 'a list \<Rightarrow> 'a list \<Rightarrow> bool" for P where
  fills_Nil: "fills P [] []"
| fills_keep: "fills P xs ys \<Longrightarrow> fills P (x # xs) (x # ys)"
| fills_insert: "P y \<Longrightarrow> fills P xs ys \<Longrightarrow> fills P xs (y # ys)"

lemma fills_append: "fills P xs ys \<Longrightarrow> fills P us vs \<Longrightarrow> fills P (xs @ us) (ys @ vs)"
  by (induction rule: fills.induct) (auto intro: fills.intros)

lemma fills_inserted: "list_all P ys \<Longrightarrow> fills P [] ys"
  by (induction ys) (auto intro: fills.intros)

lemma fills_map:
  assumes "fills P xs ys" and "\<And>y. P y \<Longrightarrow> Q (f y)"
  shows "fills Q (map f xs) (map f ys)"
  using assms by (induction rule: fills.induct) (auto intro: fills.intros)

definition synthetic :: "int \<Rightarrow> message \<Rightarrow> bool" where
  "synthetic now m \<longleftrightarrow> (\<exists>c. m = synthetic_result now c)"

lemma insert_synthetic_fills:
  "\<exists>new. ps_result (insertSyntheticToolResults now s) = ps_result s @ new \<and> list_all (synthetic now) new"
  by (auto simp: insertSyntheticToolResults_def synthetic_def list_all_iff)

lemma second_pass_fills:
  "\<exists>new. ps_result (insertSyntheticToolResults now (foldl (second_pass_step now) s ms)) = ps_result s @ new
     \<and> fills (synthetic now) (filter kept ms) new"
proof (induction ms arbitrary: s)
  case Nil
  from insert_synthetic_fills [of now s] show ?case by (auto intro: fills_inserted)
next
  case (Cons x ms)
  let ?s = "second_pass_step now s x"
  have "\<exists>new. ps_result ?s = ps_result s @ new \<and> fills (synthetic now) (filter kept [x]) new"
  proof (cases x)
    case (ToolResultM r)
    then show ?thesis by (auto intro: fills.intros)
  next
    case (UserM u)
    from insert_synthetic_fills [of now s] obtain new where
      new: "ps_result (insertSyntheticToolResults now s) = ps_result s @ new" "list_all (synthetic now) new" by blast
    have "fills (synthetic now) ([] @ [UserM u]) (new @ [UserM u])"
      by (intro fills_append fills_inserted new fills_keep fills_Nil)
    with UserM new(1) show ?thesis by (auto simp: Let_def)
  next
    case (AssistantM a)
    from insert_synthetic_fills [of now s] obtain new where
      new: "ps_result (insertSyntheticToolResults now s) = ps_result s @ new" "list_all (synthetic now) new" by blast
    have "fills (synthetic now) ([] @ [AssistantM a]) (new @ [AssistantM a])"
      by (intro fills_append fills_inserted new fills_keep fills_Nil)
    with AssistantM new fills_inserted [OF new(2)] show ?thesis by (auto simp: Let_def)
  qed
  then obtain new where new: "ps_result ?s = ps_result s @ new" "fills (synthetic now) (filter kept [x]) new" by blast
  from Cons.IH [of ?s] obtain more where
    "ps_result (insertSyntheticToolResults now (foldl (second_pass_step now) ?s ms)) = ps_result ?s @ more"
    "fills (synthetic now) (filter kept ms) more" by blast
  with new fills_append [OF new(2)] show ?case
    by (intro exI [of _ "new @ more"]) (auto simp: append_eq_conv_conj)
qed

lemma downgrade_kept: "filter kept (map downgrade_message ms) = map downgrade_message (filter kept ms)"
proof (induction ms)
  case (Cons m ms)
  have "kept (downgrade_message m) = kept m" by (cases m) (auto split: message_content.splits)
  with Cons show ?case by simp
qed simp

lemma downgrade_assistants:
  "AssistantM a \<in> set (downgradeUnsupportedImages ms model) \<longleftrightarrow> AssistantM a \<in> set ms"
proof -
  have "AssistantM a = downgrade_message m \<longleftrightarrow> m = AssistantM a" for m
    by (cases m) (auto split: message_content.splits)
  then show ?thesis by (auto simp: downgradeUnsupportedImages_def image_iff)
qed

lemma downgrade_named: "calls_named model nz (downgradeUnsupportedImages ms md) = calls_named model nz ms"
proof -
  have "calls_named model nz (map downgrade_message ms) = calls_named model nz ms"
    by (induction ms rule: all_call_ids.induct) (auto split: message_content.splits)
  then show ?thesis by (simp add: downgradeUnsupportedImages_def)
qed

lemma filter_kept_outline:
  "map (outline_of \<rho>) xs = map (outline_of \<sigma>) ys \<Longrightarrow> map kept xs = map kept ys \<Longrightarrow>
   map (outline_of \<rho>) (filter kept xs) = map (outline_of \<sigma>) (filter kept ys)"
proof (induction xs arbitrary: ys)
  case (Cons x xs)
  then show ?case by (cases ys) auto
qed simp

text \<open>A synthetic result, seen as an outline.\<close>

definition synthetic_outline :: "int \<Rightarrow> outline \<Rightarrow> bool" where
  "synthetic_outline now p \<longleftrightarrow> (\<exists>c. p = outline_of (\<lambda>i. i) (synthetic_result now c))"

text \<open>
  C9: Consider a history with distinct tool call ids in which every tool result follows the assistant message of
  its call, and a normaliser that gives none of its calls the empty id. There is one
  renaming of ids under which what is sent is the history: the same calls with the
  same names and arguments in the same messages, and the same tool results at the same places, each
  with the id of its own call; failed assistant messages are left out and only synthetic results are
  inserted. The renaming gives each call of another model the normaliser's id and leaves the others alone, and every result sent,
  synthetic ones included, carries the id of a call of the assistant message before it.
\<close>

theorem transformed_results_match:
  assumes "follow {} ms = Some c" and "distinct (all_call_ids ms)" and "calls_named model nz ms"
  shows "\<exists>\<rho> c'.
      fills (synthetic_outline now)
        (map (outline_of \<rho>) (filter kept (downgradeUnsupportedImages ms model)))
        (map (outline_of (\<lambda>i. i)) (transformMessages now ms model nz))
    \<and> (\<forall>a c. AssistantM a \<in> set ms \<longrightarrow> c \<in> set (tool_calls_of (am_content a)) \<longrightarrow>
         \<rho> (call_id c) = new_id model nz a c)
    \<and> follow {} (transformMessages now ms model nz) = Some c'"
proof -
  let ?ms = "downgradeUnsupportedImages ms model"
  let ?out = "first_pass model nz ?ms Map.empty"
  let ?s = "\<lparr>ps_result = [], ps_pending = [], ps_existing = {}\<rparr>"
  from first_pass_outline [of "{}" ?ms c Map.empty model nz] assms obtain \<rho> c1 where
    outline: "map (outline_of (\<lambda>i. i)) ?out = map (outline_of \<rho>) ?ms" "map kept ?out = map kept ?ms"
    and ids: "\<forall>a c. AssistantM a \<in> set ?ms \<longrightarrow> c \<in> set (tool_calls_of (am_content a)) \<longrightarrow>
         \<rho> (call_id c) = new_id model nz a c"
    and c1: "follow {} ?out = Some c1"
    by (auto simp: downgrade_follows downgrade_call_ids downgrade_named)
  from second_pass_fills [of now ?s ?out] have "fills (synthetic now) (filter kept ?out) (transformMessages now ms model nz)"
    by (simp add: transformMessages_def second_pass_def)
  from fills_map [OF this, of "synthetic_outline now" "outline_of (\<lambda>i. i)"]
  have filled: "fills (synthetic_outline now) (map (outline_of \<rho>) (filter kept ?ms))
      (map (outline_of (\<lambda>i. i)) (transformMessages now ms model nz))"
    unfolding filter_kept_outline [OF outline] by (auto simp: synthetic_def synthetic_outline_def)
  have "pass_follows {} ?s" by (simp add: pass_follows_def)
  from second_pass_follows [OF this c1, of now] obtain cur where
    "pass_follows cur (insertSyntheticToolResults now (foldl (second_pass_step now) ?s ?out))"
    using insert_follows by blast
  then have "\<exists>c'. follow {} (transformMessages now ms model nz) = Some c'"
    by (auto simp: transformMessages_def second_pass_def pass_follows_def)
  with filled ids show ?thesis unfolding downgrade_assistants by blast
qed

text \<open>The normalisers of three providers give no call the empty id unless it has it already.\<close>

lemma sanitize_id_length [simp]: "length (sanitize_id i) = length i"
  by (simp add: sanitize_id_def)

lemma sanitize_id_Nil [simp]: "sanitize_id i = [] \<longleftrightarrow> i = []"
  by (simp add: sanitize_id_def)

lemma calls_namedI:
  assumes "\<And>i a. i \<in> set (all_call_ids ms) \<Longrightarrow> f i model a \<noteq> []"
  shows "calls_named model (Some f) ms"
  using assms by (induction ms rule: all_call_ids.induct) (simp_all add: blocks_named_def)

lemma normalizers_name_calls:
  assumes "f \<in> {anthropic_normalizeToolCallId, bedrock_normalizeToolCallId, google_normalizeToolCallId}"
    and "[] \<notin> set (all_call_ids ms)"
  shows "calls_named model (Some f) ms"
proof (rule calls_namedI)
  fix i a assume "i \<in> set (all_call_ids ms)"
  with assms(2) have "i \<noteq> []" by metis
  with assms(1) show "f i model a \<noteq> []"
    by (auto simp: anthropic_normalizeToolCallId_def bedrock_normalizeToolCallId_def
        google_normalizeToolCallId_def Let_def split: if_splits)
qed

text \<open>
  The normaliser of the completions provider cuts at the first bar, so an id that begins with one becomes
  empty: its result, left with the old id, is then orphaned.
\<close>

lemma completions_normalizer_names_calls:
  assumes "\<forall>i\<in>set (all_call_ids ms). i \<noteq> [] \<and> hd i \<noteq> 0x7C"
  shows "calls_named model (Some completions_normalizeToolCallId) ms"
proof (rule calls_namedI)
  fix i a assume "i \<in> set (all_call_ids ms)"
  with assms obtain u v where "i = u # v" "u \<noteq> 0x7C" by (metis list.collapse)
  then show "completions_normalizeToolCallId i model a \<noteq> []"
    by (auto simp: completions_normalizeToolCallId_def split: list.splits)
qed

text \<open>A history of two calls of another model, the second without a result.\<close>

definition sample_result :: "string \<Rightarrow> string \<Rightarrow> message" where
  "sample_result i n = ToolResultM \<lparr>tr_toolCallId = js i, tr_toolName = js n, tr_content = [],
     tr_details = None, tr_isError = False, tr_timestamp = Some 0\<rparr>"

definition sample_history :: "message list" where
  "sample_history = [sample_user ''hi'',
     AssistantM (sample_assistant [AToolCall (sample_call ''a|1'' ''read''),
       AToolCall (sample_call ''a|2'' ''ls'')] SR_toolUse),
     sample_result ''a|1'' ''read'', sample_user ''go on'']"

definition sample_model :: "input_kind list \<Rightarrow> string \<Rightarrow> llm_model" where
  "sample_model inp p = \<lparr>model_id = js ''m'', model_name = js ''m'', model_api = js ''anthropic-messages'',
     model_provider = js p, model_baseUrl = [], model_reasoning = False, model_thinkingLevelMap = None,
     model_input = inp, model_cost = \<lparr>mc_input = 0, mc_output = 0, mc_cacheRead = 0, mc_cacheWrite = 0\<rparr>,
     model_contextWindow = 0, model_maxTokens = 0, model_headers = None, model_compat = None\<rparr>"

lemma sample_history_facts:
  "follow {} sample_history = Some {}" "distinct (all_call_ids sample_history)" "[] \<notin> set (all_call_ids sample_history)"
  by (simp_all add: sample_history_def sample_user_def sample_result_def sample_assistant_def sample_call_def
      failed_assistant_def js_def js_char_def)

theorem transformed_results_match_witness:
  "\<exists>\<rho> c'. \<rho> (js ''a|1'') = js ''a_1'' \<and> \<rho> (js ''a|2'') = js ''a_2''
     \<and> fills (synthetic_outline 0)
        (map (outline_of \<rho>) (filter kept (downgradeUnsupportedImages sample_history (sample_model [InText] ''other''))))
        (map (outline_of (\<lambda>i. i)) (transformMessages 0 sample_history (sample_model [InText] ''other'')
           (Some anthropic_normalizeToolCallId)))
     \<and> follow {} (transformMessages 0 sample_history (sample_model [InText] ''other'')
         (Some anthropic_normalizeToolCallId)) = Some c'"
proof -
  let ?md = "sample_model [InText] ''other''"
  let ?a = "sample_assistant [AToolCall (sample_call ''a|1'' ''read''), AToolCall (sample_call ''a|2'' ''ls'')] SR_toolUse"
  have "calls_named ?md (Some anthropic_normalizeToolCallId) sample_history"
    using sample_history_facts(3) by (intro normalizers_name_calls) simp_all
  from transformed_results_match [OF sample_history_facts(1,2) this, of 0] obtain \<rho> c' where
    filled: "fills (synthetic_outline 0)
        (map (outline_of \<rho>) (filter kept (downgradeUnsupportedImages sample_history ?md)))
        (map (outline_of (\<lambda>i. i)) (transformMessages 0 sample_history ?md (Some anthropic_normalizeToolCallId)))"
    and ids: "\<And>a c. AssistantM a \<in> set sample_history \<Longrightarrow> c \<in> set (tool_calls_of (am_content a)) \<Longrightarrow>
        \<rho> (call_id c) = new_id ?md (Some anthropic_normalizeToolCallId) a c"
    and follows: "follow {} (transformMessages 0 sample_history ?md (Some anthropic_normalizeToolCallId)) = Some c'"
    by blast
  have a: "AssistantM ?a \<in> set sample_history" by (simp add: sample_history_def)
  have new: "new_id ?md (Some anthropic_normalizeToolCallId) ?a (sample_call ''a|1'' ''read'') = js ''a_1''"
    "new_id ?md (Some anthropic_normalizeToolCallId) ?a (sample_call ''a|2'' ''ls'') = js ''a_2''"
    by (simp_all add: new_id_def is_same_model_def sample_model_def sample_assistant_def sample_call_def
        anthropic_normalizeToolCallId_def sanitize_id_def id_char_def js_def js_char_def)
  have "\<rho> (js ''a|1'') = js ''a_1''" "\<rho> (js ''a|2'') = js ''a_2''"
    using ids [OF a, of "sample_call ''a|1'' ''read''"] ids [OF a, of "sample_call ''a|2'' ''ls''"] new
    by (simp_all add: sample_assistant_def sample_call_def)
  with filled follows show ?thesis by blast
qed

lemma empty_id_orphans_result:
  "follow {} (transformMessages 0
     [AssistantM (sample_assistant [AToolCall (sample_call ''|1'' ''read'')] SR_toolUse), sample_result ''|1'' ''read'']
     (sample_model [InText] ''other'') (Some completions_normalizeToolCallId)) = None"
  by (simp add: transformMessages_def second_pass_def downgradeUnsupportedImages_def sample_model_def
      sample_assistant_def sample_call_def sample_result_def is_same_model_def transform_call_def
      completions_normalizeToolCallId_def sanitize_id_def insertSyntheticToolResults_def synthetic_result_def failed_assistant_def
      js_def js_char_def replaceImagesWithPlaceholder_def Let_def)

section \<open>What a model is never sent\<close>

fun has_image :: "content_block list \<Rightarrow> bool" where
  "has_image [] = False"
| "has_image (ImageBlock i # bs) = True"
| "has_image (TextBlock t # bs) = has_image bs"

fun message_has_image :: "message \<Rightarrow> bool" where
  "message_has_image (UserM u) =
     (case um_content u of PlainText t \<Rightarrow> False | Blocks bs \<Rightarrow> has_image bs)"
| "message_has_image (ToolResultM r) = has_image (tr_content r)"
| "message_has_image (AssistantM a) = False"

lemma replace_images_none: "\<not> has_image (replace_images ph prev bs)"
  by (induction ph prev bs rule: replace_images.induct) (simp_all add: text_block_def)

lemma downgrade_no_image: "\<not> message_has_image (downgrade_message m)"
  by (cases m) (auto simp: replaceImagesWithPlaceholder_def replace_images_none split: message_content.splits)

lemma set_first_pass:
  "y \<in> set (first_pass model nz ms m) \<Longrightarrow>
   \<exists>x\<in>set ms. \<exists>m m'. transform_message model nz x m = (y, m')"
proof (induction ms arbitrary: m)
  case Nil
  then show ?case by simp
next
  case (Cons x xs)
  obtain x' m' where x': "transform_message model nz x m = (x', m')" by fastforce
  with Cons.prems have "y = x' \<or> y \<in> set (first_pass model nz xs m')" by simp
  with Cons.IH [of m'] x' show ?case by auto
qed

lemma insert_synthetic_set:
  "m \<in> set (ps_result (insertSyntheticToolResults now s)) \<Longrightarrow>
   m \<in> set (ps_result s) \<or> (\<exists>c. m = synthetic_result now c)"
  by (auto simp: insertSyntheticToolResults_def split: if_splits)

lemma second_pass_step_set:
  "m \<in> set (ps_result (second_pass_step now s x)) \<Longrightarrow>
   m \<in> set (ps_result s) \<or> m = x \<or> (\<exists>c. m = synthetic_result now c)"
  by (cases x) (auto simp: Let_def split: if_splits dest: insert_synthetic_set)

lemma second_pass_fold_set:
  "m \<in> set (ps_result (foldl (second_pass_step now) s ms)) \<Longrightarrow>
   m \<in> set (ps_result s) \<or> m \<in> set ms \<or> (\<exists>c. m = synthetic_result now c)"
proof (induction ms arbitrary: s)
  case Nil
  then show ?case by simp
next
  case (Cons x ms)
  from Cons.IH [of "second_pass_step now s x"] Cons.prems second_pass_step_set [of m now s x]
  show ?case by auto
qed

text \<open>Every message sent comes from one of the history or is synthetic.\<close>

lemma transformed_set:
  assumes "y \<in> set (transformMessages now ms model nz)"
  shows "(\<exists>c. y = synthetic_result now c) \<or>
    (\<exists>x\<in>set (downgradeUnsupportedImages ms model). \<exists>m m'. transform_message model nz x m = (y, m'))"
proof -
  from assms insert_synthetic_set obtain t where
    t: "y \<in> set (ps_result (foldl (second_pass_step now) \<lparr>ps_result = [], ps_pending = [], ps_existing = {}\<rparr>
         (first_pass model nz (downgradeUnsupportedImages ms model) Map.empty))) \<or> y = synthetic_result now t"
    unfolding transformMessages_def second_pass_def by blast
  then show ?thesis
  proof
    assume "y = synthetic_result now t"
    then show ?thesis by blast
  next
    assume "y \<in> set (ps_result (foldl (second_pass_step now) \<lparr>ps_result = [], ps_pending = [], ps_existing = {}\<rparr>
         (first_pass model nz (downgradeUnsupportedImages ms model) Map.empty)))"
    from second_pass_fold_set [OF this] show ?thesis by (auto dest: set_first_pass)
  qed
qed

lemma transform_keeps_images:
  "transform_message model nz x m = (y, m') \<Longrightarrow> message_has_image y = message_has_image x"
  by (cases x) (auto split: option.splits if_splits prod.splits)

text \<open>A block that carries nothing bound to the model that produced it.\<close>

fun portable_block :: "assistant_block \<Rightarrow> bool" where
  "portable_block (AThinking t) = False"
| "portable_block (AText t) = (tc_textSignature t = None)"
| "portable_block (AToolCall c) = (\<not> truthy_str (call_thoughtSignature c))"

lemma transform_call_portable:
  "transform_call model nz a False c m = (c', m') \<Longrightarrow> \<not> truthy_str (call_thoughtSignature c')"
  by (auto simp: transform_call_def Let_def truthy_str_def split: option.splits if_splits)

lemma transform_blocks_portable:
  "transform_blocks model nz a False bs m = (bs', m') \<Longrightarrow> b \<in> set bs' \<Longrightarrow> portable_block b"
  by (induction model nz a "False" bs m arbitrary: bs' m' rule: transform_blocks.induct)
    (auto simp: transform_thinking_def transform_call_portable split: prod.splits if_splits)

text \<open>
  C10: A model without image input is never sent an image, and no model is ever sent what is bound to another
  model: in an assistant message of another model there is no thinking block, encrypted or not, no text block with a signature, and
  no tool call with a thought signature.
\<close>

theorem nothing_foreign_is_sent:
  assumes "y \<in> set (transformMessages now ms model nz)"
  shows "(InImage \<notin> set (model_input model) \<longrightarrow> \<not> message_has_image y)
    \<and> (\<forall>a. y = AssistantM a \<longrightarrow> \<not> is_same_model a model \<longrightarrow>
         (\<forall>t. AThinking t \<notin> set (am_content a))
       \<and> (\<forall>t. AText t \<in> set (am_content a) \<longrightarrow> tc_textSignature t = None)
       \<and> (\<forall>c. AToolCall c \<in> set (am_content a) \<longrightarrow> \<not> truthy_str (call_thoughtSignature c)))"
proof -
  from transformed_set [OF assms] show ?thesis
  proof
    assume "\<exists>c. y = synthetic_result now c"
    then show ?thesis by (auto simp: synthetic_result_def text_block_def)
  next
    assume "\<exists>x\<in>set (downgradeUnsupportedImages ms model). \<exists>m m'. transform_message model nz x m = (y, m')"
    then obtain x m m' where x: "x \<in> set (downgradeUnsupportedImages ms model)"
      "transform_message model nz x m = (y, m')" by blast
    have "\<not> message_has_image y" if "InImage \<notin> set (model_input model)"
      using x that downgrade_no_image transform_keeps_images [OF x(2)]
      by (auto simp: downgradeUnsupportedImages_def)
    moreover have "portable_block b" if "y = AssistantM a" "\<not> is_same_model a model" "b \<in> set (am_content a)" for a b
      using x(2) that by (cases x) (auto simp: is_same_model_def split: prod.splits option.splits if_splits
          dest: transform_blocks_portable)
    ultimately show ?thesis by fastforce
  qed
qed

text \<open>An image, and an answer of another model with thinking and signatures, for a model that reads text.\<close>

definition foreign_answer :: assistant_message where
  "foreign_answer = sample_assistant
     [AThinking \<lparr>th_thinking = js ''hm'', th_thinkingSignature = Some (js ''s''), th_redacted = None\<rparr>,
      AText \<lparr>tc_text = js ''ok'', tc_textSignature = Some (js ''s'')\<rparr>,
      AToolCall ((sample_call ''a'' ''read'')\<lparr>call_thoughtSignature := Some (js ''s'')\<rparr>)] SR_toolUse"

definition foreign_history :: "message list" where
  "foreign_history =
     [UserM \<lparr>um_content = Blocks [ImageBlock \<lparr>ic_data = js ''d'', ic_mimeType = js ''m''\<rparr>], um_timestamp = Some 0\<rparr>,
      AssistantM foreign_answer]"

lemma foreign_history_sent:
  "\<exists>u b bs r. transformMessages 0 foreign_history (sample_model [InText] ''other'') None
     = [UserM u, AssistantM (foreign_answer\<lparr>am_content := b # bs\<rparr>), r]"
  by (simp add: foreign_history_def foreign_answer_def transformMessages_def second_pass_def
      downgradeUnsupportedImages_def sample_model_def sample_assistant_def sample_call_def is_same_model_def
      transform_call_def transform_thinking_def insertSyntheticToolResults_def failed_assistant_def
      truthy_str_def js_trim_def js_trimStart_def js_trimEnd_def js_space_def js_def js_char_def Let_def)

theorem nothing_foreign_is_sent_witness:
  "\<exists>u b bs r. transformMessages 0 foreign_history (sample_model [InText] ''other'') None
       = [UserM u, AssistantM (foreign_answer\<lparr>am_content := b # bs\<rparr>), r]
     \<and> \<not> message_has_image (UserM u) \<and> portable_block b"
proof -
  from foreign_history_sent obtain u b bs r where
    sent: "transformMessages 0 foreign_history (sample_model [InText] ''other'') None
       = [UserM u, AssistantM (foreign_answer\<lparr>am_content := b # bs\<rparr>), r]" by blast
  let ?md = "sample_model [InText] ''other''" and ?a = "foreign_answer\<lparr>am_content := b # bs\<rparr>"
  have "UserM u \<in> set (transformMessages 0 foreign_history ?md None)"
    and answer: "AssistantM ?a \<in> set (transformMessages 0 foreign_history ?md None)"
    unfolding sent by simp_all
  have image: "\<not> message_has_image (UserM u)"
    using nothing_foreign_is_sent [OF \<open>UserM u \<in> _\<close>] by (simp add: sample_model_def)
  have "\<not> is_same_model ?a ?md"
    by (simp add: is_same_model_def foreign_answer_def sample_model_def sample_assistant_def js_def js_char_def)
  with nothing_foreign_is_sent [OF answer]
  have blocks: "\<forall>t. AThinking t \<notin> set (am_content ?a)"
    "\<forall>t. AText t \<in> set (am_content ?a) \<longrightarrow> tc_textSignature t = None"
    "\<forall>c. AToolCall c \<in> set (am_content ?a) \<longrightarrow> \<not> truthy_str (call_thoughtSignature c)" by blast+
  have b: "b \<in> set (am_content ?a)" by simp
  have "portable_block b"
  proof (cases b)
    case (AThinking t)
    from blocks(1) b show ?thesis unfolding AThinking by blast
  next
    case (AText t)
    from blocks(2) b show ?thesis unfolding AText portable_block.simps by blast
  next
    case (AToolCall c)
    from blocks(3) b show ?thesis unfolding AToolCall portable_block.simps by blast
  qed
  with sent image show ?thesis by blast
qed

section \<open>Histories of the same model\<close>

definition clean_block :: "assistant_block \<Rightarrow> bool" where
  "clean_block b \<longleftrightarrow> (\<forall>t. b = AThinking t \<longrightarrow> transform_thinking True t = [b])"

fun clean_message :: "llm_model \<Rightarrow> message \<Rightarrow> bool" where
  "clean_message model (AssistantM a) \<longleftrightarrow>
     is_same_model a model \<and> \<not> failed_assistant a \<and> list_all clean_block (am_content a)"
| "clean_message model _ = True"

lemma transform_blocks_clean:
  "list_all clean_block bs \<Longrightarrow> transform_blocks model nz a True bs m = (bs, m)"
proof (induction bs)
  case Nil
  show ?case by simp
next
  case (Cons b bs)
  then show ?case
    by (cases b) (auto simp: clean_block_def transform_call_def Let_def split: option.splits)
qed

lemma first_pass_clean:
  "list_all (clean_message model) ms \<Longrightarrow> first_pass model nz ms Map.empty = ms"
proof (induction ms)
  case Nil
  show ?case by simp
next
  case (Cons x ms)
  then show ?case by (cases x) (simp_all add: transform_blocks_clean)
qed

lemma second_pass_clean:
  assumes "list_all (clean_message model) ms" and "answered out ms"
    and "out = call_id ` set (ps_pending s) - ps_existing s"
  shows "ps_result (insertSyntheticToolResults now (foldl (second_pass_step now) s ms)) = ps_result s @ ms"
  using assms
proof (induction out ms arbitrary: s rule: answered.induct)
  case (1 out)
  then have "filter (\<lambda>c. call_id c \<notin> ps_existing s) (ps_pending s) = []"
    by (auto simp: filter_empty_conv)
  then show ?case by (simp add: insertSyntheticToolResults_def)
next
  case (2 out u ms)
  then have "filter (\<lambda>c. call_id c \<notin> ps_existing s) (ps_pending s) = []"
    by (auto simp: filter_empty_conv)
  then have "ps_result (second_pass_step now s (UserM u)) = ps_result s @ [UserM u]"
    "call_id ` set (ps_pending (second_pass_step now s (UserM u))) = {}"
    by (auto simp: Let_def insertSyntheticToolResults_def)
  with 2 show ?case by simp
next
  case (3 out a ms)
  then have "filter (\<lambda>c. call_id c \<notin> ps_existing s) (ps_pending s) = []"
    by (auto simp: filter_empty_conv)
  with 3 have "ps_result (second_pass_step now s (AssistantM a)) = ps_result s @ [AssistantM a]"
    "call_id ` set (ps_pending (second_pass_step now s (AssistantM a)))
       - ps_existing (second_pass_step now s (AssistantM a)) = call_id ` set (tool_calls_of (am_content a))"
    by (auto simp: Let_def insertSyntheticToolResults_def)
  with 3 show ?case by (simp del: second_pass_step.simps)
next
  case (4 out r ms)
  let ?s = "second_pass_step now s (ToolResultM r)"
  have "out - {tr_toolCallId r} = call_id ` set (ps_pending ?s) - ps_existing ?s"
    using "4.prems"(3) by auto
  with "4.IH" [of ?s] "4.prems"(1,2) show ?case by simp
qed

text \<open>
  A history that the same model can take as it is, with images allowed, no failed message, every call answered
  and no empty thinking block, is sent unchanged.
\<close>

theorem same_model_history_unchanged:
  assumes "InImage \<in> set (model_input model)" and "list_all (clean_message model) ms" and "answered {} ms"
  shows "transformMessages now ms model nz = ms"
  using second_pass_clean [OF assms(2,3), of "\<lparr>ps_result = [], ps_pending = [], ps_existing = {}\<rparr>" now]
  by (simp add: transformMessages_def second_pass_def downgradeUnsupportedImages_def assms(1)
      first_pass_clean [OF assms(2)])

theorem same_model_history_unchanged_witness:
  "let ms = [sample_user ''hi'', AssistantM (sample_assistant [AToolCall (sample_call ''a'' ''read'')] SR_toolUse),
       sample_result ''a'' ''read'']
   in transformMessages 0 ms (sample_model [InImage] ''anthropic'') None = ms"
  unfolding Let_def
  by (rule same_model_history_unchanged)
    (simp_all add: sample_model_def sample_user_def sample_assistant_def sample_call_def sample_result_def
      clean_block_def is_same_model_def failed_assistant_def)

end
