(* ===== verification/Session_Files.thy ===== *)
theory Session_Files
  imports Session_Storage
begin

text \<open>
  Session files of the coding agent (\<^verbatim>\<open>packages/coding-agent/src/core/session-manager.ts\<close>): the header,
  loading and the migrations from older versions.

  A file is the list of its lines, each as what \<^verbatim>\<open>JSON.parse\<close> makes of it: a blank line, a line that is no JSON, or the
  value of a file entry. That the text written by \<^verbatim>\<open>JSON.stringify\<close> reads back as the same value
  is taken from the language. Entries of version 1 have no id and no parent; the model gives those fields a value that
  nothing reads before the migration sets them, except where it says so.
\<close>

section \<open>File entries\<close>

record session_header =
  sh_version :: "nat option"
  sh_id :: "jstr option"
  sh_timestamp :: jstr
  sh_cwd :: "jstr option"
  sh_parentSession :: "jstr option"

datatype file_entry = FHeader session_header | FEntry entry

datatype file_line = BlankLine | MalformedLine | ValueLine file_entry

definition CURRENT_SESSION_VERSION :: nat where
  "CURRENT_SESSION_VERSION = 3"

definition session_entries :: "file_entry list \<Rightarrow> entry list" where
  "session_entries es = List.map_filter (\<lambda>f. case f of FEntry e \<Rightarrow> Some e | FHeader h \<Rightarrow> None) es"

fun find_header :: "file_entry list \<Rightarrow> session_header option" where
  "find_header [] = None"
| "find_header (FHeader h # es) = Some h"
| "find_header (FEntry e # es) = find_header es"

section \<open>Loading\<close>

definition parseSessionEntries :: "file_line list \<Rightarrow> file_entry list" where
  "parseSessionEntries ls = List.map_filter (\<lambda>l. case l of ValueLine v \<Rightarrow> Some v | _ \<Rightarrow> None) ls"

type_synonym disk = "jstr \<rightharpoonup> file_line list"

definition loadEntriesFromFile :: "disk \<Rightarrow> jstr \<Rightarrow> file_entry list" where
  "loadEntriesFromFile d path =
     (case d path of
        None \<Rightarrow> []
      | Some ls \<Rightarrow>
          (case parseSessionEntries ls of
             [] \<Rightarrow> []
           | FHeader h # es \<Rightarrow> if sh_id h = None then [] else FHeader h # es
           | FEntry e # es \<Rightarrow> []))"

section \<open>Migrations\<close>

text \<open>
  \<^verbatim>\<open>migrateV1ToV2\<close>: the loop at an entry, with the entries migrated so far, the id of the last one, and the
  entries still to come, among which the index of a compaction entry may point. The set of ids that
  \<^verbatim>\<open>generateId\<close> checks against stays empty.
\<close>

definition generateId :: "(jstr \<Rightarrow> bool) \<Rightarrow> host \<Rightarrow> jstr \<times> host" where
  "generateId has h =
     (case generate_id has (ho_uuid h) (ho_next h) of (i, k) \<Rightarrow> (i, h\<lparr>ho_next := k\<rparr>))"

definition entry_at :: "file_entry list \<Rightarrow> nat \<Rightarrow> entry option" where
  "entry_at es i = (case nth_opt es i of Some (FEntry e) \<Rightarrow> Some e | _ \<Rightarrow> None)"

definition resolve_index :: "file_entry list \<Rightarrow> compaction_data \<Rightarrow> compaction_data" where
  "resolve_index es d =
     (case cd_firstKeptEntryIndex d of
        None \<Rightarrow> d
      | Some i \<Rightarrow>
          (case entry_at es i of None \<Rightarrow> d | Some t \<Rightarrow> d\<lparr>cd_firstKeptEntryId := en_id t\<rparr>)
            \<lparr>cd_firstKeptEntryIndex := None\<rparr>)"

definition migrate_entry_v1 :: "file_entry list \<Rightarrow> jstr option \<Rightarrow> jstr \<Rightarrow> entry \<Rightarrow> file_entry list \<Rightarrow> entry" where
  "migrate_entry_v1 pre prev i e rest =
     (let e1 = e\<lparr>en_id := i, en_parentId := prev\<rparr> in
      case en_kind e of
        CompactionEntry d \<Rightarrow> e1\<lparr>en_kind := CompactionEntry (resolve_index (pre @ FEntry e1 # rest) d)\<rparr>
      | _ \<Rightarrow> e1)"

fun migrateV1ToV2 ::
  "file_entry list \<Rightarrow> jstr option \<Rightarrow> file_entry list \<Rightarrow> host \<Rightarrow> file_entry list \<times> host" where
  "migrateV1ToV2 pre prev [] h = (pre, h)"
| "migrateV1ToV2 pre prev (FHeader hdr # rest) h =
     migrateV1ToV2 (pre @ [FHeader (hdr\<lparr>sh_version := Some 2\<rparr>)]) prev rest h"
| "migrateV1ToV2 pre prev (FEntry e # rest) h =
     (let (i, h') = generateId (\<lambda>i. False) h in
      migrateV1ToV2 (pre @ [FEntry (migrate_entry_v1 pre prev i e rest)]) (Some i) rest h')"

definition migrate_entry_v2 :: "file_entry \<Rightarrow> file_entry" where
  "migrate_entry_v2 f =
     (case f of
        FHeader hdr \<Rightarrow> FHeader (hdr\<lparr>sh_version := Some 3\<rparr>)
      | FEntry e \<Rightarrow>
          (case en_kind e of
             MessageEntry (HookMsg m) \<Rightarrow> FEntry (e\<lparr>en_kind := MessageEntry (CustomMsg m)\<rparr>)
           | _ \<Rightarrow> f))"

definition migrateV2ToV3 :: "file_entry list \<Rightarrow> file_entry list" where
  "migrateV2ToV3 es = map migrate_entry_v2 es"

definition file_version :: "file_entry list \<Rightarrow> nat" where
  "file_version es = nullish (case find_header es of None \<Rightarrow> None | Some hdr \<Rightarrow> sh_version hdr) 1"

definition migrateToCurrentVersion :: "file_entry list \<Rightarrow> host \<Rightarrow> bool \<times> file_entry list \<times> host" where
  "migrateToCurrentVersion es h =
     (let version = file_version es in
      if CURRENT_SESSION_VERSION \<le> version then (False, es, h)
      else
        (let (es1, h1) = (if version < 2 then migrateV1ToV2 [] None es h else (es, h));
             es2 = (if version < 3 then migrateV2ToV3 es1 else es1)
         in (True, es2, h1)))"

section \<open>What a migration gives\<close>

lemma session_entries_simps [simp]:
  "session_entries [] = []"
  "session_entries (FHeader hdr # es) = session_entries es"
  "session_entries (FEntry e # es) = e # session_entries es"
  "session_entries (es @ fs) = session_entries es @ session_entries fs"
  by (simp_all add: session_entries_def map_filter_simps List.map_filter_def)

lemma session_entries_map: "session_entries (map FEntry es) = es"
  by (induction es) simp_all

lemma parse_values [simp]: "parseSessionEntries (map ValueLine es) = es"
  unfolding parseSessionEntries_def by (induction es) (simp_all add: map_filter_simps)

lemma find_header_append:
  "find_header (es @ fs) = (case find_header es of None \<Rightarrow> find_header fs | Some hdr \<Rightarrow> Some hdr)"
  by (induction es rule: find_header.induct) simp_all

lemma migrate_entry_v1_fields [simp]:
  "en_id (migrate_entry_v1 pre prev i e rest) = i"
  "en_parentId (migrate_entry_v1 pre prev i e rest) = prev"
  "en_timestamp (migrate_entry_v1 pre prev i e rest) = en_timestamp e"
  by (simp_all add: migrate_entry_v1_def Let_def split: entry_kind.split)

lemma generateId_unchecked:
  "generateId (\<lambda>i. False) h = (take 8 (ho_uuid h (ho_next h)), h\<lparr>ho_next := Suc (ho_next h)\<rparr>)"
proof -
  have "try_ids 100 (\<lambda>i. False) (ho_uuid h) (ho_next h) = (take 8 (ho_uuid h (ho_next h)), Suc (ho_next h))"
    by (simp add: numeral_eq_Suc)
  then show ?thesis by (simp add: generateId_def generate_id_def)
qed

text \<open>
  \<open>chain prev es\<close>: the entries form one branch, in which each entry is the child of the one before. That is the shape
  that version 1 has implicitly.
\<close>

fun chain :: "jstr option \<Rightarrow> entry list \<Rightarrow> bool" where
  "chain prev [] = True"
| "chain prev (e # es) = (en_parentId e = prev \<and> chain (Some (en_id e)) es)"

lemma migrateV1_entries:
  "migrateV1ToV2 pre prev es h = (es', h') \<Longrightarrow>
   \<exists>new. session_entries es' = session_entries pre @ new \<and> chain prev new
     \<and> map en_timestamp new = map en_timestamp (session_entries es)
     \<and> map en_id new = map (\<lambda>k. take 8 (ho_uuid h (ho_next h + k))) [0..<length (session_entries es)]
     \<and> h' = h\<lparr>ho_next := ho_next h + length (session_entries es)\<rparr>"
proof (induction pre prev es h arbitrary: es' h' rule: migrateV1ToV2.induct)
  case (1 pre prev h)
  then show ?case by simp
next
  case (2 pre prev hdr rest h)
  then show ?case by simp
next
  case (3 pre prev e rest h)
  let ?i = "take 8 (ho_uuid h (ho_next h))" and ?h = "h\<lparr>ho_next := Suc (ho_next h)\<rparr>"
  let ?e = "migrate_entry_v1 pre prev ?i e rest"
  from "3.prems" have "migrateV1ToV2 (pre @ [FEntry ?e]) (Some ?i) rest ?h = (es', h')"
    by (simp add: generateId_unchecked)
  from "3.IH" [OF _ _ this] obtain new where new: "session_entries es' = session_entries pre @ ?e # new"
    "chain (Some ?i) new" "map en_timestamp new = map en_timestamp (session_entries rest)"
    "map en_id new = map (\<lambda>k. take 8 (ho_uuid h (Suc (ho_next h) + k))) [0..<length (session_entries rest)]"
    "h' = h\<lparr>ho_next := Suc (ho_next h) + length (session_entries rest)\<rparr>"
    by (auto simp: generateId_unchecked)
  have "map (\<lambda>k. take 8 (ho_uuid h (ho_next h + k))) [0..<Suc (length (session_entries rest))]
      = ?i # map (\<lambda>k. take 8 (ho_uuid h (Suc (ho_next h) + k))) [0..<length (session_entries rest)]"
    by (simp add: upt_conv_Cons map_Suc_upt [symmetric] del: upt_Suc)
  with new show ?case by (intro exI [of _ "?e # new"]) simp
qed

lemma chain_snoc:
  "chain prev (es @ [e]) \<longleftrightarrow>
     chain prev es \<and> en_parentId e = (if es = [] then prev else Some (en_id (last es)))"
  by (induction prev es rule: chain.induct) auto

lemma chain_tree:
  assumes "chain None es" and "distinct (map en_id es)" and "[] \<notin> entry_ids es"
  shows "tree_ok es \<and> is_path es es"
proof -
  have "tree_ok es \<and> is_path es' es" if "set es \<subseteq> set es'" for es'
    using assms that
  proof (induction es rule: rev_induct)
    case (snoc e es)
    then have IH: "tree_ok es" "is_path es' es" unfolding chain_snoc by auto
    from snoc.prems(1) have parent: "en_parentId e = (if es = [] then None else Some (en_id (last es)))"
      unfolding chain_snoc by blast
    have "en_id e \<notin> entry_ids es" "en_id e \<noteq> []" using snoc.prems(2,3) by auto
    with IH(1) parent have "tree_ok (es @ [e])" unfolding tree_ok_snoc by (auto split: if_splits)
    moreover have "is_path es' (es @ [e])" unfolding is_path_snoc using IH(2) parent snoc.prems(4) by auto
    ultimately show ?case by blast
  qed simp
  from this [of es] show ?thesis by simp
qed

text \<open>Each entry of the migrated list, from its own and what was before it.\<close>

definition v1_step :: "file_entry list \<Rightarrow> file_entry list \<Rightarrow> file_entry list \<Rightarrow> nat \<Rightarrow> bool" where
  "v1_step pre es new k \<longleftrightarrow>
     (case es ! k of
        FHeader hdr \<Rightarrow> new ! k = FHeader (hdr\<lparr>sh_version := Some 2\<rparr>)
      | FEntry e \<Rightarrow> \<exists>q i. new ! k = FEntry (migrate_entry_v1 (pre @ take k new) q i e (drop (Suc k) es)))"

lemma v1_step_Suc: "v1_step pre (x # es) (y # new) (Suc k) = v1_step (pre @ [y]) es new k"
  by (simp add: v1_step_def split: file_entry.split)

lemma v1_steps_Cons:
  "v1_step pre (x # es) (y # new) 0 \<Longrightarrow> \<forall>k<length es. v1_step (pre @ [y]) es new k \<Longrightarrow>
   \<forall>k<length (x # es). v1_step pre (x # es) (y # new) k"
  by (auto simp: less_Suc_eq_0_disj v1_step_Suc)

lemma migrateV1_step:
  "migrateV1ToV2 pre prev es h = (es', h') \<Longrightarrow>
   \<exists>new. es' = pre @ new \<and> length new = length es \<and> (\<forall>k<length es. v1_step pre es new k)"
proof (induction pre prev es h arbitrary: es' h' rule: migrateV1ToV2.induct)
  case (1 pre prev h)
  then show ?case by simp
next
  case (2 pre prev hdr rest h)
  let ?y = "FHeader (hdr\<lparr>sh_version := Some 2\<rparr>)"
  from 2 obtain new where new: "es' = pre @ ?y # new" "length new = length rest"
    "\<forall>k<length rest. v1_step (pre @ [?y]) rest new k" by auto
  have "v1_step pre (FHeader hdr # rest) (?y # new) 0" by (simp add: v1_step_def)
  from v1_steps_Cons [OF this new(3)] new(1,2) show ?case by (intro exI [of _ "?y # new"]) simp
next
  case (3 pre prev e rest h)
  let ?i = "take 8 (ho_uuid h (ho_next h))" and ?h = "h\<lparr>ho_next := Suc (ho_next h)\<rparr>"
  let ?y = "FEntry (migrate_entry_v1 pre prev ?i e rest)"
  from "3.prems" have "migrateV1ToV2 (pre @ [?y]) (Some ?i) rest ?h = (es', h')"
    by (simp add: generateId_unchecked)
  from "3.IH" [OF _ _ this] obtain new where new: "es' = pre @ ?y # new" "length new = length rest"
    "\<forall>k<length rest. v1_step (pre @ [?y]) rest new k"
    by (auto simp: generateId_unchecked)
  have "v1_step pre (FEntry e # rest) (?y # new) 0" by (auto simp: v1_step_def)
  from v1_steps_Cons [OF this new(3)] new(1,2) show ?case by (intro exI [of _ "?y # new"]) simp
qed

lemma find_header_set: "find_header fs \<noteq> None \<longleftrightarrow> (\<exists>hdr. FHeader hdr \<in> set fs)"
  by (induction fs rule: find_header.induct) auto

lemma migrateV1_header:
  assumes "migrateV1ToV2 [] None es h = (es', h')" and "find_header es \<noteq> None"
  shows "find_header es' \<noteq> None"
proof -
  from assms(2) obtain hdr k where k: "k < length es" "es ! k = FHeader hdr"
    unfolding find_header_set by (auto simp: in_set_conv_nth)
  from migrateV1_step [OF assms(1)] k have "k < length es'" "es' ! k = FHeader (hdr\<lparr>sh_version := Some 2\<rparr>)"
    by (auto simp: v1_step_def)
  then show ?thesis unfolding find_header_set by (metis nth_mem)
qed

lemma find_header_map_v2:
  "find_header (migrateV2ToV3 es) = map_option (\<lambda>hdr. hdr\<lparr>sh_version := Some 3\<rparr>) (find_header es)"
  unfolding migrateV2ToV3_def
  by (induction es rule: find_header.induct)
    (auto simp: migrate_entry_v2_def split: entry_kind.split agent_message.split)

definition hook_free :: "entry list \<Rightarrow> bool" where
  "hook_free es \<longleftrightarrow> (\<forall>e\<in>set es. \<forall>m. en_kind e \<noteq> MessageEntry (HookMsg m))"

lemma migrateV2_entries:
  "\<exists>f. session_entries (migrateV2ToV3 es) = map f (session_entries es)
    \<and> (\<forall>e. en_id (f e) = en_id e \<and> en_parentId (f e) = en_parentId e \<and> en_timestamp (f e) = en_timestamp e)
    \<and> (\<forall>e m. en_kind (f e) \<noteq> MessageEntry (HookMsg m))"
proof -
  let ?f = "\<lambda>e. case en_kind e of MessageEntry (HookMsg m) \<Rightarrow> e\<lparr>en_kind := MessageEntry (CustomMsg m)\<rparr> | _ \<Rightarrow> e"
  have entry: "migrate_entry_v2 (FEntry e) = FEntry (?f e)" for e
    by (cases "en_kind e") (auto simp: migrate_entry_v2_def split: agent_message.split)
  have "session_entries (migrateV2ToV3 es) = map ?f (session_entries es)"
  proof (induction es)
    case (Cons x es)
    then show ?case by (cases x) (simp_all add: migrateV2ToV3_def entry, simp add: migrate_entry_v2_def)
  qed (simp add: migrateV2ToV3_def)
  moreover have "en_id (?f e) = en_id e \<and> en_parentId (?f e) = en_parentId e \<and> en_timestamp (?f e) = en_timestamp e" for e
    by (cases "en_kind e") (auto split: agent_message.split)
  moreover have "en_kind (?f e) \<noteq> MessageEntry (HookMsg m)" for e m
    by (cases "en_kind e") (auto split: agent_message.split)
  ultimately show ?thesis by blast
qed

text \<open>
  C13: Loading an older session brings it to the current version in one go: the header then says so, so that a second migration
  changes nothing, no message of the renamed role is left, and every entry keeps its place and time. A session of version 1 becomes
  one branch in which every entry is the child of the one before, well-formed as long as the UUIDs drawn differ in their first
  eight characters.
\<close>

theorem migration_reaches_current_version:
  assumes "find_header es \<noteq> None" and "file_version es < 3"
    and "migrateToCurrentVersion es h = (changed, es', h')"
  shows "changed \<and> file_version es' = 3 \<and> migrateToCurrentVersion es' k = (False, es', k)
    \<and> hook_free (session_entries es')
    \<and> map en_timestamp (session_entries es') = map en_timestamp (session_entries es)
    \<and> (file_version es = 2 \<longrightarrow> map en_id (session_entries es') = map en_id (session_entries es)
        \<and> map en_parentId (session_entries es') = map en_parentId (session_entries es))
    \<and> (file_version es < 2 \<and> distinct (map (\<lambda>j. take 8 (ho_uuid h (ho_next h + j))) [0..<length (session_entries es)])
        \<and> (\<forall>j<length (session_entries es). ho_uuid h (ho_next h + j) \<noteq> [])
       \<longrightarrow> tree_ok (session_entries es') \<and> is_path (session_entries es') (session_entries es'))"
proof -
  obtain es1 h1 where es1: "(if file_version es < 2 then migrateV1ToV2 [] None es h else (es, h)) = (es1, h1)" by fastforce
  with assms(2,3) have res: "changed" "es' = migrateV2ToV3 es1"
    by (auto simp: migrateToCurrentVersion_def CURRENT_SESSION_VERSION_def split: if_splits)
  have "find_header es1 \<noteq> None" using es1 assms(1) migrateV1_header [of es h es1 h1] by (auto split: if_splits)
  then have version: "file_version es' = 3" by (auto simp: file_version_def res(2) find_header_map_v2)
  obtain f where f: "session_entries es' = map f (session_entries es1)"
    "\<And>e. en_id (f e) = en_id e" "\<And>e. en_parentId (f e) = en_parentId e" "\<And>e. en_timestamp (f e) = en_timestamp e"
    "\<And>e m. en_kind (f e) \<noteq> MessageEntry (HookMsg m)"
    using migrateV2_entries [of es1] res(2) by auto
  have same: "map en_id (session_entries es') = map en_id (session_entries es1)"
    "map en_parentId (session_entries es') = map en_parentId (session_entries es1)"
    "map en_timestamp (session_entries es') = map en_timestamp (session_entries es1)"
    using f(2-4) by (simp_all add: f(1) o_def)
  have chain_same: "chain q (map f xs) = chain q xs" for q xs by (induction q xs rule: chain.induct) (simp_all add: f(2,3))
  have times: "map en_timestamp (session_entries es1) = map en_timestamp (session_entries es)"
    using es1 migrateV1_entries [of "[]" None es h es1 h1] by (auto split: if_splits)
  have v2: "es1 = es" if "file_version es = 2" using that es1 by simp
  have v1: "tree_ok (session_entries es') \<and> is_path (session_entries es') (session_entries es')"
    if "file_version es < 2" and d: "distinct (map (\<lambda>j. take 8 (ho_uuid h (ho_next h + j))) [0..<length (session_entries es)])"
      and n: "\<forall>j<length (session_entries es). ho_uuid h (ho_next h + j) \<noteq> []"
  proof (rule chain_tree)
    from that(1) es1 migrateV1_entries [of "[]" None es h es1 h1]
    have new: "chain None (session_entries es1)"
      "map en_id (session_entries es1) = map (\<lambda>j. take 8 (ho_uuid h (ho_next h + j))) [0..<length (session_entries es)]"
      by auto
    show "chain None (session_entries es')" unfolding f(1) chain_same by (rule new(1))
    show "distinct (map en_id (session_entries es'))" unfolding same(1) new(2) by (rule d)
    have "[] \<notin> set (map en_id (session_entries es1))" unfolding new(2) using n by auto
    then have "[] \<notin> set (map en_id (session_entries es'))" unfolding same(1) .
    then show "[] \<notin> entry_ids (session_entries es')" by simp
  qed
  have "hook_free (session_entries es')" unfolding hook_free_def f(1) using f(5) by auto
  moreover have "migrateToCurrentVersion es' k = (False, es', k)"
    using version by (simp add: migrateToCurrentVersion_def CURRENT_SESSION_VERSION_def)
  ultimately show ?thesis using res(1) version same times v2 v1 by simp
qed

definition sample_header :: "nat option \<Rightarrow> session_header" where
  "sample_header v = \<lparr>sh_version = v, sh_id = Some (js ''s''), sh_timestamp = js ''t'', sh_cwd = Some (js ''/''),
     sh_parentSession = None\<rparr>"

definition plain_host :: host where
  "plain_host = \<lparr>ho_uuid = counting_uuid, ho_next = 0, ho_clock = (\<lambda>n. js ''t''), ho_ticks = 0\<rparr>"

theorem migration_reaches_current_version_witness:
  "let es = [FHeader (sample_header None), FEntry (sample_entry '''' None (MessageEntry (Llm (sample_user ''one'')))),
      FEntry (sample_entry '''' None (MessageEntry (Llm (sample_user ''two''))))];
       (changed, es', h') = migrateToCurrentVersion es plain_host
   in changed \<and> file_version es' = 3 \<and> tree_ok (session_entries es')"
proof -
  let ?es = "[FHeader (sample_header None), FEntry (sample_entry '''' None (MessageEntry (Llm (sample_user ''one'')))),
      FEntry (sample_entry '''' None (MessageEntry (Llm (sample_user ''two''))))]"
  obtain changed es' h' where m: "migrateToCurrentVersion ?es plain_host = (changed, es', h')" by (metis prod_cases3)
  have "find_header ?es \<noteq> None" "file_version ?es < 2" "file_version ?es < 3"
    by (simp_all add: file_version_def sample_header_def)
  moreover have "distinct (map (\<lambda>j. take 8 (ho_uuid plain_host (ho_next plain_host + j))) [0..<length (session_entries ?es)])"
    "\<forall>j<length (session_entries ?es). ho_uuid plain_host (ho_next plain_host + j) \<noteq> []"
    by (simp_all add: plain_host_def counting_uuid_def upt_rec numeral_eq_Suc)
  ultimately show ?thesis using migration_reaches_current_version [OF _ _ m, of plain_host] m by simp
qed

text \<open>
  The compaction entries of version 1 point to the first kept entry by its index in the file; after the migration they name
  the id of the same entry, as long as it comes before them.
\<close>

theorem compaction_index_resolved:
  assumes "migrateV1ToV2 [] None es h = (es', h')"
    and "entry_at es p = Some e" and "en_kind e = CompactionEntry d"
    and "cd_firstKeptEntryIndex d = Some i" and "i < p" and "entry_at es i = Some target"
  shows "\<exists>e' target'. entry_at es' p = Some e' \<and> entry_at es' i = Some target'
    \<and> en_kind e' = CompactionEntry (d\<lparr>cd_firstKeptEntryId := en_id target', cd_firstKeptEntryIndex := None\<rparr>)"
proof -
  have at: "entry_at fs j = Some x \<longleftrightarrow> j < length fs \<and> fs ! j = FEntry x" for fs j x
    by (auto simp: entry_at_def nth_opt_def split: file_entry.splits)
  from migrateV1_step [OF assms(1)]
  have len: "length es' = length es" and step: "\<And>k. k < length es \<Longrightarrow> v1_step [] es es' k" by auto
  from assms(2,6) have e: "p < length es" "es ! p = FEntry e" and t: "i < length es" "es ! i = FEntry target"
    by (simp_all add: at)
  from step [OF e(1)] e(2) obtain q j
    where e': "es' ! p = FEntry (migrate_entry_v1 (take p es') q j e (drop (Suc p) es))"
    by (auto simp: v1_step_def)
  from step [OF t(1)] t(2) obtain target' where t': "es' ! i = FEntry target'" by (auto simp: v1_step_def)
  let ?all = "take p es' @ FEntry (e\<lparr>en_id := j, en_parentId := q\<rparr>) # drop (Suc p) es"
  have "entry_at ?all i = Some target'"
    using t' assms(5) len e(1) t(1) by (simp add: at nth_append)
  then have "en_kind (migrate_entry_v1 (take p es') q j e (drop (Suc p) es)) =
      CompactionEntry (d\<lparr>cd_firstKeptEntryId := en_id target', cd_firstKeptEntryIndex := None\<rparr>)"
    using assms(3,4) by (simp add: migrate_entry_v1_def Let_def resolve_index_def)
  then show ?thesis using e' t' e(1) t(1) len by (auto simp: at)
qed

theorem compaction_index_resolved_witness:
  "let c = sample_entry '''' None (CompactionEntry ((sample_compaction '''')\<lparr>cd_firstKeptEntryIndex := Some 1\<rparr>));
       es = [FHeader (sample_header None), FEntry (sample_entry '''' None (MessageEntry (Llm (sample_user ''one'')))),
         FEntry c];
       (es', h') = migrateV1ToV2 [] None es plain_host
   in \<exists>e' target'. entry_at es' 2 = Some e' \<and> entry_at es' 1 = Some target'
    \<and> en_kind e' = CompactionEntry ((sample_compaction '''')\<lparr>cd_firstKeptEntryId := en_id target',
        cd_firstKeptEntryIndex := None\<rparr>)"
proof -
  let ?d = "(sample_compaction '''')\<lparr>cd_firstKeptEntryIndex := Some 1\<rparr>"
  let ?c = "sample_entry '''' None (CompactionEntry ?d)" and
    ?m = "sample_entry '''' None (MessageEntry (Llm (sample_user ''one'')))"
  let ?es = "[FHeader (sample_header None), FEntry ?m, FEntry ?c]"
  obtain es' h' where m: "migrateV1ToV2 [] None ?es plain_host = (es', h')" by fastforce
  have "entry_at ?es 2 = Some ?c" "entry_at ?es 1 = Some ?m" "en_kind ?c = CompactionEntry ?d"
    "cd_firstKeptEntryIndex ?d = Some 1"
    by (simp_all add: entry_at_def nth_opt_def sample_entry_def)
  from compaction_index_resolved [OF m this(1,3,4) _ this(2)] show ?thesis using m by simp
qed

end
