(* ===== verification/Session_Manager.thy ===== *)
theory Session_Manager
  imports Session_Files
begin

text \<open>
  The class \<^verbatim>\<open>SessionManager\<close> of \<^verbatim>\<open>packages/coding-agent/src/core/session-manager.ts\<close>: a tree of
  entries kept in memory and, when it persists, in a file that is appended to. The world of an operation is the host, the disk,
  and the path functions of Node, which are parameters; disk operations do not fail.
\<close>

section \<open>State\<close>

record world =
  wo_host :: host
  wo_disk :: disk
  wo_resolve :: "jstr \<Rightarrow> jstr"
  wo_join :: "jstr \<Rightarrow> jstr \<Rightarrow> jstr"

record session_manager =
  sg_sessionId :: jstr
  sg_sessionFile :: "jstr option"
  sg_sessionDir :: jstr
  sg_cwd :: jstr
  sg_persist :: bool
  sg_flushed :: bool
  sg_fileEntries :: "file_entry list"
  sg_byId :: "(jstr \<times> entry) list"
  sg_labelsById :: "(jstr \<times> jstr) list"
  sg_labelTimestampsById :: "(jstr \<times> jstr) list"
  sg_leafId :: "jstr option"

record new_session_options =
  ns_id :: "jstr option"
  ns_parentSession :: "jstr option"

section \<open>Files\<close>

definition appendFileSync :: "jstr \<Rightarrow> file_entry \<Rightarrow> disk \<Rightarrow> disk" where
  "appendFileSync path e d = d(path \<mapsto> nullish (d path) [] @ [ValueLine e])"

text \<open>\<^verbatim>\<open>timestamp.replace(/[:.]/g, "-")\<close>, and the path of a session file.\<close>

definition file_timestamp :: "jstr \<Rightarrow> jstr" where
  "file_timestamp t = map (\<lambda>c. if c = js_char CHR '':'' \<or> c = js_char CHR ''.'' then js_char CHR ''-'' else c) t"

definition session_file_path :: "world \<Rightarrow> jstr \<Rightarrow> jstr \<Rightarrow> jstr \<Rightarrow> jstr" where
  "session_file_path w dir t i = wo_join w dir (file_timestamp t @ js ''_'' @ i @ js ''.jsonl'')"

definition has_assistant :: "file_entry list \<Rightarrow> bool" where
  "has_assistant es \<longleftrightarrow>
     list_ex (\<lambda>f. case f of
        FEntry e \<Rightarrow> (case en_kind e of MessageEntry (Llm (AssistantM a)) \<Rightarrow> True | _ \<Rightarrow> False)
      | FHeader hdr \<Rightarrow> False) es"

definition rewriteFile :: "session_manager \<Rightarrow> disk \<Rightarrow> disk" where
  "rewriteFile m d =
     (if \<not> sg_persist m \<or> \<not> truthy_str (sg_sessionFile m) then d
      else d(the (sg_sessionFile m) \<mapsto>
        (if sg_fileEntries m = [] then [BlankLine] else map ValueLine (sg_fileEntries m))))"

definition persist :: "entry \<Rightarrow> session_manager \<Rightarrow> disk \<Rightarrow> session_manager \<times> disk" where
  "persist e m d =
     (if \<not> sg_persist m \<or> \<not> truthy_str (sg_sessionFile m) then (m, d)
      else if \<not> has_assistant (sg_fileEntries m) then (m\<lparr>sg_flushed := False\<rparr>, d)
      else if \<not> sg_flushed m
      then (m\<lparr>sg_flushed := True\<rparr>, foldl (\<lambda>d e. appendFileSync (the (sg_sessionFile m)) e d) d (sg_fileEntries m))
      else (m, appendFileSync (the (sg_sessionFile m)) (FEntry e) d))"

section \<open>Starting and loading\<close>

definition newSession :: "new_session_options \<Rightarrow> session_manager \<Rightarrow> world \<Rightarrow> session_manager \<times> world" where
  "newSession opts m w =
     (let (i, h1) = (case ns_id opts of Some i \<Rightarrow> (i, wo_host w) | None \<Rightarrow> next_uuid (wo_host w));
          (t, h2) = time_now h1;
          hdr = \<lparr>sh_version = Some CURRENT_SESSION_VERSION, sh_id = Some i, sh_timestamp = t, sh_cwd = Some (sg_cwd m),
                 sh_parentSession = ns_parentSession opts\<rparr>;
          m1 = m\<lparr>sg_sessionId := i, sg_fileEntries := [FHeader hdr], sg_byId := [], sg_labelsById := [],
                 sg_leafId := None, sg_flushed := False\<rparr>;
          m2 = (if sg_persist m then m1\<lparr>sg_sessionFile := Some (session_file_path w (sg_sessionDir m) t i)\<rparr> else m1)
      in (m2, w\<lparr>wo_host := h2\<rparr>))"

definition index_entry :: "session_manager \<Rightarrow> entry \<Rightarrow> session_manager" where
  "index_entry m e =
     (let m1 = m\<lparr>sg_byId := map_set (en_id e) e (sg_byId m), sg_leafId := Some (en_id e)\<rparr> in
      case en_kind e of
        LabelEntry t l \<Rightarrow>
          (if truthy_str l
           then m1\<lparr>sg_labelsById := map_set t (the l) (sg_labelsById m1),
                   sg_labelTimestampsById := map_set t (en_timestamp e) (sg_labelTimestampsById m1)\<rparr>
           else m1\<lparr>sg_labelsById := map_delete t (sg_labelsById m1),
                   sg_labelTimestampsById := map_delete t (sg_labelTimestampsById m1)\<rparr>)
      | _ \<Rightarrow> m1)"

definition buildIndex :: "session_manager \<Rightarrow> session_manager" where
  "buildIndex m =
     foldl index_entry (m\<lparr>sg_byId := [], sg_labelsById := [], sg_labelTimestampsById := [], sg_leafId := None\<rparr>)
       (session_entries (sg_fileEntries m))"

definition setSessionFile :: "jstr \<Rightarrow> session_manager \<Rightarrow> world \<Rightarrow> session_manager \<times> world" where
  "setSessionFile path m w =
     (let file = wo_resolve w path; m0 = m\<lparr>sg_sessionFile := Some file\<rparr> in
      if wo_disk w file \<noteq> None
      then
        (let es = loadEntriesFromFile (wo_disk w) file in
         if es = []
         then
           (let (m1, w1) = newSession \<lparr>ns_id = None, ns_parentSession = None\<rparr> (m0\<lparr>sg_fileEntries := es\<rparr>) w;
                m2 = m1\<lparr>sg_sessionFile := Some file\<rparr>
            in (m2\<lparr>sg_flushed := True\<rparr>, w1\<lparr>wo_disk := rewriteFile m2 (wo_disk w1)\<rparr>))
         else
           (let (i, h1) = (case find_header es of
                   Some hdr \<Rightarrow> (case sh_id hdr of Some i \<Rightarrow> (i, wo_host w) | None \<Rightarrow> next_uuid (wo_host w))
                 | None \<Rightarrow> next_uuid (wo_host w));
                (changed, es', h2) = migrateToCurrentVersion es h1;
                m1 = m0\<lparr>sg_sessionId := i, sg_fileEntries := es'\<rparr>;
                d1 = (if changed then rewriteFile m1 (wo_disk w) else wo_disk w)
            in ((buildIndex m1)\<lparr>sg_flushed := True\<rparr>, w\<lparr>wo_host := h2, wo_disk := d1\<rparr>)))
      else
        (let (m1, w1) = newSession \<lparr>ns_id = None, ns_parentSession = None\<rparr> m0 w in
         (m1\<lparr>sg_sessionFile := Some file\<rparr>, w1)))"

text \<open>The constructor; creating the session directory is left to the host.\<close>

definition new_manager :: "jstr \<Rightarrow> jstr \<Rightarrow> jstr option \<Rightarrow> bool \<Rightarrow> world \<Rightarrow> session_manager \<times> world" where
  "new_manager cwd dir file pers w =
     (let m = \<lparr>sg_sessionId = [], sg_sessionFile = None, sg_sessionDir = dir, sg_cwd = cwd, sg_persist = pers,
               sg_flushed = False, sg_fileEntries = [], sg_byId = [], sg_labelsById = [], sg_labelTimestampsById = [],
               sg_leafId = None\<rparr>
      in if truthy_str file then setSessionFile (the file) m w
         else newSession \<lparr>ns_id = None, ns_parentSession = None\<rparr> m w)"

section \<open>Appending\<close>

definition appendEntry_sm :: "entry \<Rightarrow> session_manager \<Rightarrow> world \<Rightarrow> session_manager \<times> world" where
  "appendEntry_sm e m w =
     (let m1 = m\<lparr>sg_fileEntries := sg_fileEntries m @ [FEntry e], sg_byId := map_set (en_id e) e (sg_byId m),
                 sg_leafId := Some (en_id e)\<rparr>;
          (m2, d) = persist e m1 (wo_disk w)
      in (m2, w\<lparr>wo_disk := d\<rparr>))"

text \<open>The entry that the append operations build: a fresh id, a parent, the present time.\<close>

definition append_child ::
  "jstr option \<Rightarrow> entry_kind \<Rightarrow> session_manager \<Rightarrow> world \<Rightarrow> entry \<times> session_manager \<times> world" where
  "append_child parent kind m w =
     (let (i, h1) = generateId (\<lambda>i. map_of (sg_byId m) i \<noteq> None) (wo_host w);
          (t, h2) = time_now h1;
          e = \<lparr>en_id = i, en_parentId = parent, en_timestamp = t, en_kind = kind\<rparr>;
          (m1, w1) = appendEntry_sm e m (w\<lparr>wo_host := h2\<rparr>)
      in (e, m1, w1))"

definition append_kind ::
  "entry_kind \<Rightarrow> session_manager \<Rightarrow> world \<Rightarrow> jstr \<times> session_manager \<times> world" where
  "append_kind kind m w = (case append_child (sg_leafId m) kind m w of (e, m1, w1) \<Rightarrow> (en_id e, m1, w1))"

definition sm_appendMessage :: "agent_message \<Rightarrow> session_manager \<Rightarrow> world \<Rightarrow> jstr \<times> session_manager \<times> world" where
  "sm_appendMessage message = append_kind (MessageEntry message)"

definition sm_appendThinkingLevelChange :: "jstr \<Rightarrow> session_manager \<Rightarrow> world \<Rightarrow> jstr \<times> session_manager \<times> world" where
  "sm_appendThinkingLevelChange thinkingLevel = append_kind (ThinkingLevelChangeEntry thinkingLevel)"

definition sm_appendModelChange ::
  "jstr \<Rightarrow> jstr \<Rightarrow> session_manager \<Rightarrow> world \<Rightarrow> jstr \<times> session_manager \<times> world" where
  "sm_appendModelChange provider modelId = append_kind (ModelChangeEntry provider modelId)"

definition sm_appendCompaction ::
  "jstr \<Rightarrow> jstr \<Rightarrow> int \<Rightarrow> json option \<Rightarrow> bool option \<Rightarrow> session_manager \<Rightarrow> world \<Rightarrow> jstr \<times> session_manager \<times> world" where
  "sm_appendCompaction summary firstKeptEntryId tokensBefore details fromHook =
     append_kind (CompactionEntry \<lparr>cd_summary = summary, cd_firstKeptEntryId = firstKeptEntryId,
       cd_tokensBefore = tokensBefore, cd_details = details, cd_fromHook = fromHook, cd_firstKeptEntryIndex = None\<rparr>)"

definition sm_appendCustomEntry ::
  "jstr \<Rightarrow> json option \<Rightarrow> session_manager \<Rightarrow> world \<Rightarrow> jstr \<times> session_manager \<times> world" where
  "sm_appendCustomEntry customType data = append_kind (CustomEntry customType data)"

definition sm_appendSessionInfo :: "jstr \<Rightarrow> session_manager \<Rightarrow> world \<Rightarrow> jstr \<times> session_manager \<times> world" where
  "sm_appendSessionInfo name = append_kind (SessionInfoEntry (Some (js_trim name)))"

definition sm_appendCustomMessageEntry ::
  "jstr \<Rightarrow> message_content \<Rightarrow> bool \<Rightarrow> json option \<Rightarrow> session_manager \<Rightarrow> world \<Rightarrow> jstr \<times> session_manager \<times> world" where
  "sm_appendCustomMessageEntry customType content display details =
     append_kind (CustomMessageEntry customType content details display)"

definition sm_appendLabelChange ::
  "jstr \<Rightarrow> jstr option \<Rightarrow> session_manager \<Rightarrow> world \<Rightarrow> (jerror + jstr) \<times> session_manager \<times> world" where
  "sm_appendLabelChange targetId label m w =
     (if map_of (sg_byId m) targetId = None then (Inl (js ''Entry '' @ targetId @ js '' not found''), m, w)
      else
        (let (e, m1, w1) = append_child (sg_leafId m) (LabelEntry targetId label) m w;
             m2 = (if truthy_str label
               then m1\<lparr>sg_labelsById := map_set targetId (the label) (sg_labelsById m1),
                       sg_labelTimestampsById := map_set targetId (en_timestamp e) (sg_labelTimestampsById m1)\<rparr>
               else m1\<lparr>sg_labelsById := map_delete targetId (sg_labelsById m1),
                       sg_labelTimestampsById := map_delete targetId (sg_labelTimestampsById m1)\<rparr>)
         in (Inr (en_id e), m2, w1)))"

section \<open>Reading\<close>

definition sm_getEntries :: "session_manager \<Rightarrow> entry list" where
  "sm_getEntries m = session_entries (sg_fileEntries m)"

definition sm_getHeader :: "session_manager \<Rightarrow> session_header option" where
  "sm_getHeader m = find_header (sg_fileEntries m)"

definition sm_getSessionName :: "session_manager \<Rightarrow> jstr option" where
  "sm_getSessionName m =
     (case find (\<lambda>e. kind_type (en_kind e) = ET_session_info) (rev (sm_getEntries m)) of
        None \<Rightarrow> None
      | Some e \<Rightarrow>
          (case en_kind e of SessionInfoEntry name \<Rightarrow> or_undefined (map_option js_trim name) | _ \<Rightarrow> None))"

definition sm_getLeafEntry :: "session_manager \<Rightarrow> entry option" where
  "sm_getLeafEntry m = (if truthy_str (sg_leafId m) then map_of (sg_byId m) (the (sg_leafId m)) else None)"

definition sm_getEntry :: "session_manager \<Rightarrow> jstr \<Rightarrow> entry option" where
  "sm_getEntry m i = map_of (sg_byId m) i"

definition sm_getChildren :: "session_manager \<Rightarrow> jstr \<Rightarrow> entry list" where
  "sm_getChildren m parentId = filter (\<lambda>e. en_parentId e = Some parentId) (map snd (sg_byId m))"

definition sm_getLabel :: "session_manager \<Rightarrow> jstr \<Rightarrow> jstr option" where
  "sm_getLabel m i = map_of (sg_labelsById m) i"

definition sm_getBranch :: "jstr option \<Rightarrow> session_manager \<Rightarrow> entry list option" where
  "sm_getBranch fromId m =
     (let startId = nullish_opt fromId (sg_leafId m) in
      walk (Suc (length (sg_byId m))) (map_of (sg_byId m))
        (if truthy_str startId then map_of (sg_byId m) (the startId) else None) [])"

text \<open>
  The function \<^verbatim>\<open>buildSessionContext\<close> of the module. The leaf id may be \<^verbatim>\<open>undefined\<close> (\<open>None\<close>), \<^verbatim>\<open>null\<close>
  (\<open>Some None\<close>) or an id. \<open>None\<close> as a result stands for a walk that goes round in a cycle.
\<close>

definition empty_context :: session_context where
  "empty_context = \<lparr>sc_messages = [], sc_thinkingLevel = js ''off'', sc_model = None\<rparr>"

definition sm_find_leaf :: "entry list \<Rightarrow> jstr option \<Rightarrow> (jstr \<rightharpoonup> entry) \<Rightarrow> entry option" where
  "sm_find_leaf entries leafId byId =
     (let found = (if truthy_str leafId then byId (the leafId) else None)
      in if found = None then last_opt entries else found)"

definition module_buildSessionContext ::
  "(jstr \<Rightarrow> jtime) \<Rightarrow> entry list \<Rightarrow> jstr option option \<Rightarrow> (jstr \<rightharpoonup> entry) option \<Rightarrow> session_context option" where
  "module_buildSessionContext get_time entries leafId byId =
     (let byId' = nullish byId (index_by en_id entries) in
      if leafId = Some None then Some empty_context
      else
        (case sm_find_leaf entries (nullish leafId None) byId' of
           None \<Rightarrow> Some empty_context
         | Some leaf \<Rightarrow>
             map_option (buildSessionContext get_time) (walk (Suc (length entries)) byId' (Some leaf) [])))"

definition sm_buildSessionContext :: "(jstr \<Rightarrow> jtime) \<Rightarrow> session_manager \<Rightarrow> session_context option" where
  "sm_buildSessionContext get_time m =
     module_buildSessionContext get_time (sm_getEntries m) (Some (sg_leafId m)) (Some (map_of (sg_byId m)))"

fun getLatestCompactionEntry_rev :: "entry list \<Rightarrow> entry option" where
  "getLatestCompactionEntry_rev [] = None"
| "getLatestCompactionEntry_rev (e # es) = (if is_compaction e then Some e else getLatestCompactionEntry_rev es)"

definition getLatestCompactionEntry :: "entry list \<Rightarrow> entry option" where
  "getLatestCompactionEntry es = getLatestCompactionEntry_rev (rev es)"

section \<open>Branching\<close>

definition sm_branch :: "jstr \<Rightarrow> session_manager \<Rightarrow> (jerror + unit) \<times> session_manager" where
  "sm_branch branchFromId m =
     (if map_of (sg_byId m) branchFromId = None then (Inl (js ''Entry '' @ branchFromId @ js '' not found''), m)
      else (Inr (), m\<lparr>sg_leafId := Some branchFromId\<rparr>))"

definition sm_resetLeaf :: "session_manager \<Rightarrow> session_manager" where
  "sm_resetLeaf m = m\<lparr>sg_leafId := None\<rparr>"

definition sm_branchWithSummary ::
  "jstr option \<Rightarrow> jstr \<Rightarrow> json option \<Rightarrow> bool option \<Rightarrow> session_manager \<Rightarrow> world \<Rightarrow>
   (jerror + jstr) \<times> session_manager \<times> world" where
  "sm_branchWithSummary branchFromId summary details fromHook m w =
     (if branchFromId \<noteq> None \<and> map_of (sg_byId m) (the branchFromId) = None
      then (Inl (js ''Entry '' @ the branchFromId @ js '' not found''), m, w)
      else
        (let (e, m1, w1) = append_child branchFromId
               (BranchSummaryEntry (nullish branchFromId (js ''root'')) summary details fromHook)
               (m\<lparr>sg_leafId := branchFromId\<rparr>) w
         in (Inr (en_id e), m1, w1)))"

text \<open>The label entries that \<^verbatim>\<open>createBranchedSession\<close> makes anew, chained below the last entry of the path.\<close>

fun label_entries ::
  "(jstr \<times> jstr) list \<Rightarrow> (jstr \<times> jstr) list \<Rightarrow> jstr list \<Rightarrow> jstr option \<Rightarrow> host \<Rightarrow> entry list \<times> host" where
  "label_entries [] stamps ids parent h = ([], h)"
| "label_entries ((t, l) # ls) stamps ids parent h =
     (let (i, h1) = generateId (\<lambda>x. x \<in> set ids) h;
          e = \<lparr>en_id = i, en_parentId = parent, en_timestamp = nullish (map_of stamps t) [], en_kind = LabelEntry t (Some l)\<rparr>;
          (es, h2) = label_entries ls stamps (ids @ [i]) (Some i) h1
      in (e # es, h2))"

definition sm_createBranchedSession ::
  "jstr \<Rightarrow> session_manager \<Rightarrow> world \<Rightarrow> ((jerror + jstr option) \<times> session_manager \<times> world) option" where
  "sm_createBranchedSession leafId m w =
     (case sm_getBranch (Some leafId) m of
        None \<Rightarrow> None
      | Some path \<Rightarrow>
          if path = [] then Some (Inl (js ''Entry '' @ leafId @ js '' not found''), m, w)
          else
            (let pathWithoutLabels = filter (\<lambda>e. \<not> is_label e) path;
                 (newSessionId, h1) = next_uuid (wo_host w);
                 (t, h2) = time_now h1;
                 newSessionFile = session_file_path w (sg_sessionDir m) t newSessionId;
                 hdr = \<lparr>sh_version = Some CURRENT_SESSION_VERSION, sh_id = Some newSessionId, sh_timestamp = t,
                        sh_cwd = Some (sg_cwd m),
                        sh_parentSession = (if sg_persist m then sg_sessionFile m else None)\<rparr>;
                 ids = map en_id pathWithoutLabels;
                 labelsToWrite = filter (\<lambda>(t, l). t \<in> set ids) (sg_labelsById m);
                 lastId = or_undefined (map_option en_id (last_opt pathWithoutLabels));
                 (labels, h3) = label_entries labelsToWrite (sg_labelTimestampsById m) ids lastId h2;
                 m1 = m\<lparr>sg_fileEntries := FHeader hdr # map FEntry (pathWithoutLabels @ labels),
                        sg_sessionId := newSessionId\<rparr>
             in if sg_persist m
                then
                  (let m2 = buildIndex (m1\<lparr>sg_sessionFile := Some newSessionFile\<rparr>) in
                   if has_assistant (sg_fileEntries m2)
                   then Some (Inr (Some newSessionFile), m2\<lparr>sg_flushed := True\<rparr>,
                          w\<lparr>wo_host := h3, wo_disk := rewriteFile m2 (wo_disk w)\<rparr>)
                   else Some (Inr (Some newSessionFile), m2\<lparr>sg_flushed := False\<rparr>, w\<lparr>wo_host := h3\<rparr>))
                else Some (Inr None, buildIndex m1, w\<lparr>wo_host := h3\<rparr>)))"

section \<open>Opening\<close>

definition sm_create :: "jstr \<Rightarrow> jstr \<Rightarrow> world \<Rightarrow> session_manager \<times> world" where
  "sm_create cwd dir w = new_manager cwd dir None True w"

definition sm_open :: "jstr \<Rightarrow> jstr option \<Rightarrow> jstr option \<Rightarrow> jstr \<Rightarrow> world \<Rightarrow> session_manager \<times> world" where
  "sm_open path sessionDir cwdOverride process_cwd w =
     (let hdr = find_header (loadEntriesFromFile (wo_disk w) path);
          cwd = nullish cwdOverride (nullish (case hdr of None \<Rightarrow> None | Some h \<Rightarrow> sh_cwd h) process_cwd);
          dir = nullish sessionDir (wo_resolve w (wo_join w path (js ''..'')))
      in new_manager cwd dir (Some path) True w)"

definition sm_inMemory :: "jstr \<Rightarrow> world \<Rightarrow> session_manager \<times> world" where
  "sm_inMemory cwd w = new_manager cwd [] None False w"

definition sm_forkFrom ::
  "jstr \<Rightarrow> jstr \<Rightarrow> jstr \<Rightarrow> world \<Rightarrow> jerror + (session_manager \<times> world)" where
  "sm_forkFrom sourcePath targetCwd dir w =
     (let source = loadEntriesFromFile (wo_disk w) sourcePath in
      if source = [] then Inl (js ''Cannot fork: source session file is empty or invalid: '' @ sourcePath)
      else if find_header source = None then Inl (js ''Cannot fork: source session has no header: '' @ sourcePath)
      else
        (let (i, h1) = next_uuid (wo_host w);
             (t, h2) = time_now h1;
             file = session_file_path w dir t i;
             hdr = \<lparr>sh_version = Some CURRENT_SESSION_VERSION, sh_id = Some i, sh_timestamp = t, sh_cwd = Some targetCwd,
                    sh_parentSession = Some sourcePath\<rparr>;
             d = foldl (\<lambda>d e. appendFileSync file (FEntry e) d) (appendFileSync file (FHeader hdr) (wo_disk w))
                   (session_entries source)
         in Inr (new_manager targetCwd dir (Some file) True (w\<lparr>wo_host := h2, wo_disk := d\<rparr>))))"

end
