(* ===== verification/Session_Manager_Props.thy ===== *)
theory Session_Manager_Props
  imports Session_Manager Session_Repo
begin

text \<open>
  What the session manager of the coding agent keeps: an index that agrees with the entries, entries that are only ever
  appended, branches that lead to the root, a file that holds the session, and a context equal to the one that the harness
  session builds of the same entries.
\<close>

section \<open>The index\<close>

definition label_step :: "(jstr \<times> jstr) list \<Rightarrow> entry \<Rightarrow> (jstr \<times> jstr) list" where
  "label_step m e =
     (case en_kind e of
        LabelEntry t l \<Rightarrow> if truthy_str l then map_set t (the l) m else map_delete t m
      | _ \<Rightarrow> m)"

definition label_table :: "entry list \<Rightarrow> (jstr \<times> jstr) list" where
  "label_table es = foldl label_step [] es"

definition id_table :: "entry list \<Rightarrow> (jstr \<times> entry) list" where
  "id_table es = map (\<lambda>e. (en_id e, e)) es"

definition sm_ok :: "session_manager \<Rightarrow> bool" where
  "sm_ok m \<longleftrightarrow> tree_ok (sm_getEntries m) \<and> sg_byId m = id_table (sm_getEntries m)
     \<and> sg_labelsById m = label_table (sm_getEntries m) \<and> leaf_ok (sm_getEntries m) (sg_leafId m)"

lemma label_table_snoc [simp]: "label_table [] = []" "label_table (es @ [e]) = label_step (label_table es) e"
  by (simp_all add: label_table_def)

lemma label_step_other: "\<not> is_label e \<Longrightarrow> label_step t e = t"
  by (auto simp: label_step_def is_label_def split: entry_kind.splits)

lemma id_table_simps [simp]:
  "id_table [] = []" "id_table (es @ fs) = id_table es @ id_table fs" "id_table [e] = [(en_id e, e)]"
  "length (id_table es) = length es" "map snd (id_table es) = es" "fst ` set (id_table es) = entry_ids es"
  by (auto simp: id_table_def o_def image_iff)

lemma map_of_id_table:
  assumes "distinct (map en_id es)"
  shows "map_of (id_table es) = index_by en_id es"
proof
  fix i
  show "map_of (id_table es) i = index_by en_id es i"
  proof (cases "i \<in> entry_ids es")
    case True
    then obtain e where e: "e \<in> set es" "i = en_id e" by auto
    have "distinct (map fst (id_table es))" using assms by (simp add: id_table_def o_def)
    moreover have "(en_id e, e) \<in> set (id_table es)" using e(1) by (auto simp: id_table_def)
    ultimately have "map_of (id_table es) (en_id e) = Some e" by (simp add: map_of_is_SomeI)
    with index_by_distinct [OF assms e(1)] e(2) show ?thesis by simp
  next
    case False
    then have "map_of (id_table es) i = None" by (simp add: map_of_eq_None_iff)
    with False show ?thesis by (simp add: index_by_None_iff [symmetric])
  qed
qed

lemma sm_ok_byId: "sm_ok m \<Longrightarrow> map_of (sg_byId m) = index_by en_id (sm_getEntries m)"
  unfolding sm_ok_def tree_ok_def by (auto simp: map_of_id_table)

lemma index_entry_fields:
  "sg_byId (index_entry m e) = map_set (en_id e) e (sg_byId m)"
  "sg_labelsById (index_entry m e) = label_step (sg_labelsById m) e"
  "sg_leafId (index_entry m e) = Some (en_id e)"
  "sg_fileEntries (index_entry m e) = sg_fileEntries m"
  "sg_persist (index_entry m e) = sg_persist m" "sg_sessionFile (index_entry m e) = sg_sessionFile m"
  "sg_flushed (index_entry m e) = sg_flushed m" "sg_sessionId (index_entry m e) = sg_sessionId m"
  "sg_cwd (index_entry m e) = sg_cwd m" "sg_sessionDir (index_entry m e) = sg_sessionDir m"
  by (cases "en_kind e"; simp add: index_entry_def label_step_def Let_def)+

lemma index_entries_fields:
  "sg_labelsById (foldl index_entry m es) = foldl label_step (sg_labelsById m) es \<and>
   sg_leafId (foldl index_entry m es) = (if es = [] then sg_leafId m else Some (en_id (last es))) \<and>
   sg_fileEntries (foldl index_entry m es) = sg_fileEntries m \<and>
   sg_persist (foldl index_entry m es) = sg_persist m \<and> sg_sessionFile (foldl index_entry m es) = sg_sessionFile m \<and>
   sg_flushed (foldl index_entry m es) = sg_flushed m \<and> sg_sessionId (foldl index_entry m es) = sg_sessionId m \<and>
   sg_cwd (foldl index_entry m es) = sg_cwd m \<and> sg_sessionDir (foldl index_entry m es) = sg_sessionDir m"
  by (induction es rule: rev_induct) (simp_all add: index_entry_fields)

lemma index_entries_byId:
  "distinct (map en_id es) \<Longrightarrow> sg_byId m = [] \<Longrightarrow> sg_byId (foldl index_entry m es) = id_table es"
proof (induction es rule: rev_induct)
  case (snoc e es)
  then have "sg_byId (foldl index_entry m es) = id_table es" by simp
  moreover have "en_id e \<notin> fst ` set (id_table es)" using snoc.prems(1) by auto
  ultimately show ?case by (simp add: index_entry_fields map_set_new)
qed simp

lemma buildIndex_fields [simp]:
  "sg_labelsById (buildIndex m) = label_table (sm_getEntries m)"
  "sg_leafId (buildIndex m) = map_option en_id (last_opt (sm_getEntries m))"
  "sg_fileEntries (buildIndex m) = sg_fileEntries m" "sg_persist (buildIndex m) = sg_persist m"
  "sg_sessionFile (buildIndex m) = sg_sessionFile m" "sg_flushed (buildIndex m) = sg_flushed m"
  "sg_sessionId (buildIndex m) = sg_sessionId m" "sg_cwd (buildIndex m) = sg_cwd m"
  "sg_sessionDir (buildIndex m) = sg_sessionDir m"
  by (simp_all add: buildIndex_def index_entries_fields label_table_def sm_getEntries_def last_opt_def)

lemma buildIndex_ok:
  assumes "tree_ok (sm_getEntries m)"
  shows "sm_ok (buildIndex m)"
proof -
  have entries: "sm_getEntries (buildIndex m) = sm_getEntries m" by (simp add: sm_getEntries_def)
  have "distinct (map en_id (sm_getEntries m))" using assms by (simp add: tree_ok_def)
  from index_entries_byId [OF this] have "sg_byId (buildIndex m) = id_table (sm_getEntries m)"
    by (simp add: buildIndex_def sm_getEntries_def)
  moreover have "leaf_ok (sm_getEntries m) (sg_leafId (buildIndex m))"
    by (cases "sm_getEntries m" rule: rev_cases) simp_all
  ultimately show ?thesis using assms by (simp add: sm_ok_def entries)
qed

section \<open>Appending\<close>

lemma persist_fields [simp]:
  "sg_fileEntries (fst (persist e m d)) = sg_fileEntries m" "sg_byId (fst (persist e m d)) = sg_byId m"
  "sg_labelsById (fst (persist e m d)) = sg_labelsById m" "sg_leafId (fst (persist e m d)) = sg_leafId m"
  "sg_persist (fst (persist e m d)) = sg_persist m" "sg_sessionFile (fst (persist e m d)) = sg_sessionFile m"
  by (simp_all add: persist_def)

lemma generateId_fresh:
  assumes "host_ids h (Suc n) I" and "\<And>i. has i \<longleftrightarrow> i \<in> I" and "generateId has h = (i, h')"
  shows "i \<notin> I \<and> i \<noteq> [] \<and> host_ids h' n (insert i I)"
proof -
  from assms(3) obtain k where k: "generate_id has (ho_uuid h) (ho_next h) = (i, k)" "h' = h\<lparr>ho_next := k\<rparr>"
    by (auto simp: generateId_def split: prod.splits)
  have "uuid_supply (ho_uuid h) (ho_next h) (101 + 101 * n) I" using assms(1) by (simp add: host_ids_def)
  from generate_id_fresh [OF this assms(2) k(1)] k(2) show ?thesis by (simp add: host_ids_def)
qed

text \<open>A new child of an entry, or a new root: what it is and what it does to the manager and to the file.\<close>

lemma append_child_ok:
  assumes "sm_ok m" and "leaf_ok (sm_getEntries m) parent" and "host_ids (wo_host w) (Suc n) (entry_ids (sm_getEntries m))"
    and "append_child parent kind m w = (e, m', w')"
  shows "en_parentId e = parent" and "en_kind e = kind" and "sg_fileEntries m' = sg_fileEntries m @ [FEntry e]"
    and "sg_leafId m' = Some (en_id e)" and "tree_ok (sm_getEntries m @ [e])"
    and "sg_byId m' = id_table (sm_getEntries m @ [e])" and "sg_labelsById m' = sg_labelsById m"
    and "host_ids (wo_host w') n (entry_ids (sm_getEntries m @ [e]))"
    and "(m', wo_disk w') = persist e (m\<lparr>sg_fileEntries := sg_fileEntries m @ [FEntry e],
      sg_byId := map_set (en_id e) e (sg_byId m), sg_leafId := Some (en_id e)\<rparr>) (wo_disk w)"
proof -
  obtain i h1 where i: "generateId (\<lambda>i. map_of (sg_byId m) i \<noteq> None) (wo_host w) = (i, h1)" by fastforce
  obtain t h2 where t: "time_now h1 = (t, h2)" by fastforce
  let ?e = "\<lparr>en_id = i, en_parentId = parent, en_timestamp = t, en_kind = kind\<rparr>"
  let ?m = "m\<lparr>sg_fileEntries := sg_fileEntries m @ [FEntry ?e], sg_byId := map_set i ?e (sg_byId m), sg_leafId := Some i\<rparr>"
  have has: "(map_of (sg_byId m) j \<noteq> None) \<longleftrightarrow> j \<in> entry_ids (sm_getEntries m)" for j
    using sm_ok_byId [OF assms(1)] by (simp add: index_by_None_iff)
  from generateId_fresh [OF assms(3) has i] have fresh: "i \<notin> entry_ids (sm_getEntries m)" "i \<noteq> []"
    "host_ids h1 n (insert i (entry_ids (sm_getEntries m)))" by auto
  have res: "e = ?e" "(m', wo_disk w') = persist ?e ?m (wo_disk w)" "wo_host w' = h2"
    using assms(4) unfolding append_child_def i by (auto simp: t Let_def appendEntry_sm_def split: prod.splits)
  have m': "m' = fst (persist ?e ?m (wo_disk w))" using res(2) by (metis fst_conv)
  have tree: "tree_ok (sm_getEntries m @ [?e])"
    unfolding tree_ok_snoc using assms(1,2) fresh(1,2) by (auto simp: sm_ok_def)
  show "en_parentId e = parent" "en_kind e = kind" by (simp_all add: res(1))
  show "sg_fileEntries m' = sg_fileEntries m @ [FEntry e]" "sg_leafId m' = Some (en_id e)" "sg_labelsById m' = sg_labelsById m"
    by (simp_all add: m' res(1))
  show "tree_ok (sm_getEntries m @ [e])" using tree by (simp add: res(1))
  have "map_set i ?e (sg_byId m) = sg_byId m @ [(i, ?e)]"
    using fresh(1) assms(1) by (intro map_set_new) (simp add: sm_ok_def)
  then show "sg_byId m' = id_table (sm_getEntries m @ [e])" using assms(1) by (simp add: m' res(1) sm_ok_def)
  show "host_ids (wo_host w') n (entry_ids (sm_getEntries m @ [e]))"
    using fresh(3) time_now_host_ids [OF t] by (simp add: res(1,3))
  show "(m', wo_disk w') = persist e (m\<lparr>sg_fileEntries := sg_fileEntries m @ [FEntry e],
      sg_byId := map_set (en_id e) e (sg_byId m), sg_leafId := Some (en_id e)\<rparr>) (wo_disk w)"
    using res(2) by (simp add: res(1))
qed

section \<open>Any sequence of operations\<close>

text \<open>The operations that change a session, as they are called.\<close>

datatype sm_call =
    CallMessage agent_message
  | CallThinkingLevel jstr
  | CallModel jstr jstr
  | CallCompaction jstr jstr int "json option" "bool option"
  | CallCustom jstr "json option"
  | CallSessionInfo jstr
  | CallCustomMessage jstr message_content bool "json option"
  | CallLabel jstr "jstr option"
  | CallBranch jstr
  | CallResetLeaf
  | CallBranchWithSummary "jstr option" jstr "json option" "bool option"

fun sm_apply :: "sm_call \<Rightarrow> session_manager \<Rightarrow> world \<Rightarrow> session_manager \<times> world" where
  "sm_apply (CallMessage message) m w = snd (sm_appendMessage message m w)"
| "sm_apply (CallThinkingLevel l) m w = snd (sm_appendThinkingLevelChange l m w)"
| "sm_apply (CallModel p i) m w = snd (sm_appendModelChange p i m w)"
| "sm_apply (CallCompaction s k n d f) m w = snd (sm_appendCompaction s k n d f m w)"
| "sm_apply (CallCustom t d) m w = snd (sm_appendCustomEntry t d m w)"
| "sm_apply (CallSessionInfo n) m w = snd (sm_appendSessionInfo n m w)"
| "sm_apply (CallCustomMessage t c b d) m w = snd (sm_appendCustomMessageEntry t c b d m w)"
| "sm_apply (CallLabel t l) m w = snd (sm_appendLabelChange t l m w)"
| "sm_apply (CallBranch i) m w = (snd (sm_branch i m), w)"
| "sm_apply CallResetLeaf m w = (sm_resetLeaf m, w)"
| "sm_apply (CallBranchWithSummary i s d f) m w = snd (sm_branchWithSummary i s d f m w)"

fun sm_run :: "sm_call list \<Rightarrow> session_manager \<Rightarrow> world \<Rightarrow> session_manager \<times> world" where
  "sm_run [] m w = (m, w)"
| "sm_run (c # cs) m w = (case sm_apply c m w of (m', w') \<Rightarrow> sm_run cs m' w')"

text \<open>
  Every call either moves the leaf, or appends one child of an entry, updating the labels if the child is one.
\<close>

definition plain_kind :: "entry_kind \<Rightarrow> bool" where
  "plain_kind k \<longleftrightarrow> (case k of LabelEntry t l \<Rightarrow> False | LeafEntry t \<Rightarrow> False | _ \<Rightarrow> True)"

lemma not_is_label: "plain_kind (en_kind e) \<Longrightarrow> \<not> is_label e"
  by (auto simp: plain_kind_def is_label_def split: entry_kind.splits)

definition same_file :: "session_manager \<Rightarrow> session_manager \<Rightarrow> bool" where
  "same_file m m' \<longleftrightarrow> sg_fileEntries m' = sg_fileEntries m \<and> sg_flushed m' = sg_flushed m
     \<and> sg_persist m' = sg_persist m \<and> sg_sessionFile m' = sg_sessionFile m"

lemma sm_apply_cases:
  assumes "sm_ok m" and "host_ids (wo_host w) (Suc n) (entry_ids (sm_getEntries m))"
    and "sm_apply c m w = (m', w')"
  obtains (moved) "sm_ok m'" and "same_file m m'" and "sg_byId m' = sg_byId m" and "w' = w"
  | (appended) m2 m1 e where "sm_ok m'" and "same_file m2 m'"
      and "m1 = m \<or> (\<exists>l. m1 = m\<lparr>sg_leafId := l\<rparr>)"
      and "(m2, wo_disk w') = persist e (m1\<lparr>sg_fileEntries := sg_fileEntries m @ [FEntry e],
        sg_byId := map_set (en_id e) e (sg_byId m), sg_leafId := Some (en_id e)\<rparr>) (wo_disk w)"
      and "sg_fileEntries m' = sg_fileEntries m @ [FEntry e]"
      and "host_ids (wo_host w') n (entry_ids (sm_getEntries m @ [e]))"
      and "sg_leafId m' = Some (en_id e)"
proof -
  have plain: thesis
    if "append_child parent kind (m\<lparr>sg_leafId := l\<rparr>) w = (e, m', w')" "plain_kind kind"
      "leaf_ok (sm_getEntries m) parent" "leaf_ok (sm_getEntries m) l" for parent kind l e
  proof -
    have ok: "sm_ok (m\<lparr>sg_leafId := l\<rparr>)" "sm_getEntries (m\<lparr>sg_leafId := l\<rparr>) = sm_getEntries m"
      using assms(1) that(4) by (simp_all add: sm_ok_def sm_getEntries_def)
    note a = append_child_ok [OF ok(1), unfolded ok(2), OF that(3) assms(2) that(1)]
    have entries: "sm_getEntries m' = sm_getEntries m @ [e]" using a(3) by (simp add: sm_getEntries_def)
    have "sm_ok m'"
      using a(4-7) assms(1) not_is_label [of e] that(2) a(2)
      by (simp add: sm_ok_def entries label_step_other)
    moreover have "same_file m' m'" by (simp add: same_file_def)
    moreover have p: "(m', wo_disk w') = persist e ((m\<lparr>sg_leafId := l\<rparr>)\<lparr>sg_fileEntries := sg_fileEntries m @ [FEntry e],
        sg_byId := map_set (en_id e) e (sg_byId m), sg_leafId := Some (en_id e)\<rparr>) (wo_disk w)"
      using a(9) by simp
    moreover have "sg_fileEntries m' = sg_fileEntries m @ [FEntry e]" using a(3) by simp
    ultimately show thesis using a(4,8) by (intro appended [of m' "m\<lparr>sg_leafId := l\<rparr>" e]) blast+
  qed
  have kind: thesis if "snd (append_kind kind m w) = (m', w')" "plain_kind kind" for kind
  proof -
    obtain e m1 w1 where e: "append_child (sg_leafId m) kind m w = (e, m1, w1)" by (metis prod_cases3)
    have "append_child (sg_leafId m) kind (m\<lparr>sg_leafId := sg_leafId m\<rparr>) w = (e, m', w')"
      using that(1) e by (simp add: append_kind_def)
    from plain [OF this that(2)] assms(1) show thesis by (simp add: sm_ok_def)
  qed
  have byId: "(map_of (sg_byId m) i \<noteq> None) \<longleftrightarrow> i \<in> entry_ids (sm_getEntries m)" for i
    using sm_ok_byId [OF assms(1)] by (simp add: index_by_None_iff)
  show thesis
  proof (cases c)
    case (CallMessage x1)
    with assms(3) show thesis by (intro kind [of "MessageEntry x1"]) (simp_all add: sm_appendMessage_def plain_kind_def)
  next
    case (CallThinkingLevel l)
    with assms(3) show thesis
      by (intro kind [of "ThinkingLevelChangeEntry l"]) (simp_all add: sm_appendThinkingLevelChange_def plain_kind_def)
  next
    case (CallModel p i)
    with assms(3) show thesis
      by (intro kind [of "ModelChangeEntry p i"]) (simp_all add: sm_appendModelChange_def plain_kind_def)
  next
    case (CallCompaction s k n d f)
    let ?d = "\<lparr>cd_summary = s, cd_firstKeptEntryId = k, cd_tokensBefore = n, cd_details = d, cd_fromHook = f,
      cd_firstKeptEntryIndex = None\<rparr>"
    from assms(3) CallCompaction show thesis
      by (intro kind [of "CompactionEntry ?d"]) (simp_all add: sm_appendCompaction_def plain_kind_def)
  next
    case (CallCustom t d)
    with assms(3) show thesis by (intro kind [of "CustomEntry t d"]) (simp_all add: sm_appendCustomEntry_def plain_kind_def)
  next
    case (CallSessionInfo n)
    with assms(3) show thesis by (intro kind [of "SessionInfoEntry (Some (js_trim n))"]) (simp_all add: sm_appendSessionInfo_def plain_kind_def)
  next
    case (CallCustomMessage t c b d)
    with assms(3) show thesis by (intro kind [of "CustomMessageEntry t c d b"]) (simp_all add: sm_appendCustomMessageEntry_def plain_kind_def)
  next
    case (CallLabel t l)
    show thesis
    proof (cases "map_of (sg_byId m) t = None")
      case True
      with CallLabel assms(1,3) show thesis
        by (intro moved) (simp_all add: sm_appendLabelChange_def same_file_def)
    next
      case False
      obtain e m1 w1 where e: "append_child (sg_leafId m) (LabelEntry t l) m w = (e, m1, w1)" by (metis prod_cases3)
      have leaf: "leaf_ok (sm_getEntries m) (sg_leafId m)" using assms(1) by (simp add: sm_ok_def)
      note a = append_child_ok [OF assms(1) leaf assms(2) e]
      have m': "sm_getEntries m' = sm_getEntries m @ [e]" "sg_byId m' = sg_byId m1" "sg_leafId m' = sg_leafId m1"
        "sg_labelsById m' = label_step (sg_labelsById m1) e" "same_file m1 m'" "w' = w1"
        "sg_fileEntries m' = sg_fileEntries m @ [FEntry e]"
        using CallLabel assms(3) False e a(2,3)
        by (auto simp: sm_appendLabelChange_def same_file_def sm_getEntries_def label_step_def split: if_splits)
      have "sm_ok m'" using a(4-7) assms(1) by (simp add: sm_ok_def m'(1-4))
      moreover have "(m1, wo_disk w') = persist e (m\<lparr>sg_fileEntries := sg_fileEntries m @ [FEntry e],
          sg_byId := map_set (en_id e) e (sg_byId m), sg_leafId := Some (en_id e)\<rparr>) (wo_disk w)"
        using a(9) m'(6) by simp
      moreover have "host_ids (wo_host w') n (entry_ids (sm_getEntries m @ [e]))" "sg_leafId m' = Some (en_id e)"
        using a(4,8) m'(3,6) by simp_all
      ultimately show thesis using m'(5,7) by (intro appended [of m1 m e]) simp_all
    qed
  next
    case (CallBranch i)
    with assms(1,3) byId [of i] show thesis
      by (intro moved) (auto simp: sm_branch_def same_file_def sm_ok_def sm_getEntries_def split: if_splits)
  next
    case CallResetLeaf
    with assms(1,3) show thesis
      by (intro moved) (auto simp: sm_resetLeaf_def same_file_def sm_ok_def sm_getEntries_def)
  next
    case (CallBranchWithSummary i s d f)
    show thesis
    proof (cases "i \<noteq> None \<and> map_of (sg_byId m) (the i) = None")
      case True
      with CallBranchWithSummary assms(1,3) show thesis
        by (intro moved) (simp_all add: sm_branchWithSummary_def same_file_def)
    next
      case False
      have leaf: "leaf_ok (sm_getEntries m) i" using False byId by (cases i) auto
      let ?k = "BranchSummaryEntry (nullish i (js ''root'')) s d f"
      obtain e m1 w1 where e: "append_child i ?k (m\<lparr>sg_leafId := i\<rparr>) w = (e, m1, w1)" by (metis prod_cases3)
      have "append_child i ?k (m\<lparr>sg_leafId := i\<rparr>) w = (e, m', w')"
        using assms(3) False e by (auto simp: CallBranchWithSummary sm_branchWithSummary_def)
      from plain [OF this _ leaf leaf] show thesis by (simp add: plain_kind_def)
    qed
  qed
qed

lemma sm_apply_ok:
  assumes "sm_ok m" and "host_ids (wo_host w) (Suc n) (entry_ids (sm_getEntries m))"
    and "sm_apply c m w = (m', w')"
  shows "sm_ok m' \<and> (\<exists>ext. sm_getEntries m' = sm_getEntries m @ ext)
    \<and> host_ids (wo_host w') n (entry_ids (sm_getEntries m'))"
  using assms
proof (cases rule: sm_apply_cases)
  case moved
  with assms(2) less_host_ids show ?thesis by (auto simp: same_file_def sm_getEntries_def)
next
  case (appended m2 m1 e)
  then show ?thesis by (auto simp: sm_getEntries_def)
qed

lemma session_manager_run_ok:
  assumes "sm_ok m" and "host_ids (wo_host w) (length calls) (entry_ids (sm_getEntries m))"
    and "sm_run calls m w = (m', w')"
  shows "sm_ok m' \<and> (\<exists>ext. sm_getEntries m' = sm_getEntries m @ ext)"
  using assms
proof (induction calls arbitrary: m w)
  case Nil
  then show ?case by simp
next
  case (Cons c calls)
  obtain m1 w1 where c: "sm_apply c m w = (m1, w1)" by fastforce
  have "host_ids (wo_host w) (Suc (length calls)) (entry_ids (sm_getEntries m))" using Cons.prems(2) by simp
  from sm_apply_ok [OF Cons.prems(1) this c] Cons.IH [of m1 w1] Cons.prems(3) c show ?case by auto
qed

section \<open>Branches and contexts\<close>

lemma walk_branch:
  assumes "tree_ok es" and "e \<in> set es" and "length es < n"
  shows "walk n (index_by en_id es) (Some e) [] = Some (branch_of es (Some (en_id e)))"
proof -
  from walk_path [OF assms(1) refl, of e "length es" n "[]"] assms(2,3) obtain p
    where p: "walk n (index_by en_id es) (Some e) [] = Some (p @ [e])" "is_path es (p @ [e])" by auto
  from branch_of_unique [OF assms(1) p(2)] p(1) show ?thesis by (simp only:)
qed

lemma getBranch_ok:
  assumes "sm_ok m" and "leaf_ok (sm_getEntries m) (nullish_opt fromId (sg_leafId m))"
  shows "sm_getBranch fromId m = Some (branch_of (sm_getEntries m) (nullish_opt fromId (sg_leafId m)))"
  using assms(2)
proof (cases rule: leaf_okE)
  case 1
  then show ?thesis by (simp add: sm_getBranch_def Let_def)
next
  case (2 e)
  have tree: "tree_ok (sm_getEntries m)" using assms(1) by (simp add: sm_ok_def)
  then have "en_id e \<noteq> []" using 2(1) unfolding tree_ok_def by (metis image_eqI)
  moreover have "length (sg_byId m) = length (sm_getEntries m)" using assms(1) by (simp add: sm_ok_def)
  ultimately show ?thesis
    using walk_branch [OF tree 2(1), of "Suc (length (sm_getEntries m))"] index_by_tree [OF tree 2(1)] 2(2)
      sm_ok_byId [OF assms(1)]
    by (simp add: sm_getBranch_def)
qed

text \<open>
  In a well-formed session, the branch of any entry is computed, starts at a root, ends with the entry, and leads from
  parent to child without visiting an entry twice.
\<close>

theorem branch_leads_from_root:
  assumes "sm_ok m" and "e \<in> set (sm_getEntries m)"
  shows "\<exists>p. sm_getBranch (Some (en_id e)) m = Some (p @ [e]) \<and> is_path (sm_getEntries m) (p @ [e])
    \<and> distinct (map en_id (p @ [e]))"
proof -
  have tree: "tree_ok (sm_getEntries m)" using assms(1) by (simp add: sm_ok_def)
  from branch_of_path [OF tree assms(2)] obtain p
    where p: "branch_of (sm_getEntries m) (Some (en_id e)) = p @ [e]" "is_path (sm_getEntries m) (p @ [e])" by metis
  have "sm_getBranch (Some (en_id e)) m = Some (p @ [e])"
    using getBranch_ok [OF assms(1), of "Some (en_id e)"] assms(2) p(1) by simp
  with p(2) distinct_path [OF tree p(2)] show ?thesis by blast
qed

lemma sm_context:
  assumes "sm_ok m"
  shows "sm_buildSessionContext t m = Some (buildSessionContext t (branch_of (sm_getEntries m) (sg_leafId m)))"
proof -
  have leaf: "leaf_ok (sm_getEntries m) (sg_leafId m)" and tree: "tree_ok (sm_getEntries m)"
    using assms by (simp_all add: sm_ok_def)
  from leaf show ?thesis
  proof (cases rule: leaf_okE)
    case 1
    then show ?thesis
      by (simp add: sm_buildSessionContext_def module_buildSessionContext_def empty_context_def
        buildSessionContext_def path_messages_def scan_path_def initial_settings_def)
  next
    case (2 e)
    have "en_id e \<noteq> []" using tree 2(1) unfolding tree_ok_def by (metis image_eqI)
    with 2(2) index_by_tree [OF tree 2(1)] walk_branch [OF tree 2(1), of "Suc (length (sm_getEntries m))"]
      sm_ok_byId [OF assms]
    show ?thesis
      by (simp add: sm_buildSessionContext_def module_buildSessionContext_def sm_find_leaf_def)
  qed
qed

text \<open>
  C15: The session manager of the coding agent and the session of the harness build the same context of the same session: if
  a storage holds the entries of a manager, possibly among leaf records of its own, and both stand at the same leaf, the
  contexts they build are equal.
\<close>

theorem context_agrees_with_harness:
  assumes "sm_ok m" and "mem_good s" and "set (sm_getEntries m) \<subseteq> set (ms_entries s)"
    and "ms_leafId s = sg_leafId m"
  shows "\<exists>c. sm_buildSessionContext t m = Some c \<and> session_buildContext t mem_ops s = Some (Inr c)"
proof -
  let ?l = "sg_leafId m"
  have tree: "tree_ok (sm_getEntries m)" and leaf: "leaf_ok (sm_getEntries m) ?l"
    using assms(1) by (simp_all add: sm_ok_def)
  have tree': "tree_ok (ms_entries s)" using mem.tree [OF assms(2)] by simp
  have "branch_of (ms_entries s) ?l = branch_of (sm_getEntries m) ?l"
    using leaf
  proof (cases rule: leaf_okE)
    case (2 e)
    from branch_of_path [OF tree 2(1)] obtain p
      where p: "branch_of (sm_getEntries m) (Some (en_id e)) = p @ [e]" "is_path (sm_getEntries m) (p @ [e])" by metis
    from is_path_mono [OF p(2) assms(3)] branch_of_unique [OF tree'] p(1) 2(2) show ?thesis by simp
  qed simp
  moreover have "leaf_after (ms_entries s) = ?l" using assms(2,4) by (simp add: mem_good_def)
  ultimately show ?thesis using sm_context [OF assms(1), of t] mem.buildContext [OF assms(2), of t] by simp
qed

section \<open>The file\<close>

lemma has_assistant_append [simp]: "has_assistant (es @ fs) \<longleftrightarrow> has_assistant es \<or> has_assistant fs"
  by (simp add: has_assistant_def)

lemma parse_append [simp]: "parseSessionEntries (ls @ ks) = parseSessionEntries ls @ parseSessionEntries ks"
  by (simp add: parseSessionEntries_def List.map_filter_def)

lemma parse_value [simp]: "parseSessionEntries [ValueLine v] = [v]" "parseSessionEntries [] = []"
  by (simp_all add: parseSessionEntries_def List.map_filter_def)

lemma append_all:
  "foldl (\<lambda>d e. appendFileSync f e d) d es = (if es = [] then d else d(f \<mapsto> nullish (d f) [] @ map ValueLine es))"
proof (induction es rule: rev_induct)
  case (snoc e es)
  then show ?case by (cases "es = []") (simp_all add: appendFileSync_def fun_eq_iff)
qed simp

text \<open>
  The file of a session that persists: it does not exist before the first answer of the assistant, and holds exactly the
  entries in memory from then on.
\<close>

definition file_synced :: "session_manager \<Rightarrow> disk \<Rightarrow> bool" where
  "file_synced m d \<longleftrightarrow> sg_persist m \<and> truthy_str (sg_sessionFile m)
     \<and> (if has_assistant (sg_fileEntries m)
        then sg_flushed m \<and> (\<exists>ls. d (the (sg_sessionFile m)) = Some ls \<and> parseSessionEntries ls = sg_fileEntries m)
        else \<not> sg_flushed m \<and> d (the (sg_sessionFile m)) = None)"

lemma persist_synced:
  assumes "file_synced m d" and "m1 = m \<or> (\<exists>l. m1 = m\<lparr>sg_leafId := l\<rparr>)"
    and "persist e (m1\<lparr>sg_fileEntries := sg_fileEntries m @ [FEntry e], sg_byId := b, sg_leafId := l\<rparr>) d = (m', d')"
  shows "file_synced m' d'"
proof -
  have m1: "sg_persist m1" "sg_sessionFile m1 = sg_sessionFile m" "sg_flushed m1 = sg_flushed m"
    "truthy_str (sg_sessionFile m)"
    using assms(1,2) by (auto simp: file_synced_def)
  show ?thesis
  proof (cases "has_assistant (sg_fileEntries m)")
    case True
    with assms(1,3) m1 show ?thesis
      by (auto simp: file_synced_def persist_def appendFileSync_def)
  next
    case False
    show ?thesis
    proof (cases "has_assistant [FEntry e]")
      case True
      with False assms(1,3) m1 show ?thesis by (auto simp: file_synced_def persist_def append_all)
    next
      case False
      with \<open>\<not> has_assistant (sg_fileEntries m)\<close> assms(1,3) m1 show ?thesis
        by (auto simp: file_synced_def persist_def)
    qed
  qed
qed

lemma same_file_synced: "same_file m m' \<Longrightarrow> file_synced m d = file_synced m' d"
  by (auto simp: same_file_def file_synced_def)

lemma sm_apply_synced:
  assumes "sm_ok m" and "host_ids (wo_host w) (Suc n) (entry_ids (sm_getEntries m))"
    and "sm_apply c m w = (m', w')" and "file_synced m (wo_disk w)"
  shows "file_synced m' (wo_disk w') \<and> (\<exists>ext. sg_fileEntries m' = sg_fileEntries m @ ext)"
  using assms(1-3)
proof (cases rule: sm_apply_cases)
  case moved
  have "sg_fileEntries m' = sg_fileEntries m @ []" using moved(2) by (simp add: same_file_def)
  moreover have "file_synced m' (wo_disk w')"
    using assms(4) same_file_synced [OF moved(2), of "wo_disk w"] moved(4) by simp
  ultimately show ?thesis by blast
next
  case (appended m2 m1 e)
  have "file_synced m2 (wo_disk w')"
    by (rule persist_synced [OF assms(4) appended(3)]) (use appended(4) in simp)
  then have "file_synced m' (wo_disk w')" using same_file_synced [OF appended(2), of "wo_disk w'"] by simp
  with appended(5) show ?thesis by blast
qed

lemma session_manager_run_synced:
  assumes "sm_ok m" and "host_ids (wo_host w) (length calls) (entry_ids (sm_getEntries m))"
    and "sm_run calls m w = (m', w')" and "file_synced m (wo_disk w)"
  shows "file_synced m' (wo_disk w') \<and> (\<exists>ext. sg_fileEntries m' = sg_fileEntries m @ ext)"
  using assms
proof (induction calls arbitrary: m w)
  case Nil
  then show ?case by simp
next
  case (Cons c calls)
  obtain m1 w1 where c: "sm_apply c m w = (m1, w1)" by fastforce
  have ids: "host_ids (wo_host w) (Suc (length calls)) (entry_ids (sm_getEntries m))" using Cons.prems(2) by simp
  from sm_apply_ok [OF Cons.prems(1) ids c] sm_apply_synced [OF Cons.prems(1) ids c Cons.prems(4)]
    Cons.IH [of m1 w1] Cons.prems(3) c show ?case by auto
qed

lemma sm_run_file:
  assumes "sm_ok m" and "host_ids (wo_host w) (length calls) (entry_ids (sm_getEntries m))"
    and "sm_run calls m w = (m', w')"
  shows "sg_sessionFile m' = sg_sessionFile m"
  using assms
proof (induction calls arbitrary: m w)
  case (Cons c calls)
  obtain m1 w1 where c: "sm_apply c m w = (m1, w1)" by fastforce
  have ids: "host_ids (wo_host w) (Suc (length calls)) (entry_ids (sm_getEntries m))" using Cons.prems(2) by simp
  from Cons.prems(1) ids c have "sg_sessionFile m1 = sg_sessionFile m"
  proof (cases rule: sm_apply_cases)
    case (appended m2 m0 e)
    from appended(4) have "m2 = fst (persist e (m0\<lparr>sg_fileEntries := sg_fileEntries m @ [FEntry e],
        sg_byId := map_set (en_id e) e (sg_byId m), sg_leafId := Some (en_id e)\<rparr>) (wo_disk w))" by (metis fst_conv)
    with appended(2,3) show ?thesis by (auto simp: same_file_def)
  qed (simp add: same_file_def)
  with sm_apply_ok [OF Cons.prems(1) ids c] Cons.IH [of m1 w1] Cons.prems(3) c show ?case by auto
qed simp

lemma append_child_world:
  "append_child parent kind m w = (e, m', w') \<Longrightarrow> wo_resolve w' = wo_resolve w"
  by (auto simp: append_child_def appendEntry_sm_def Let_def split: prod.splits)

lemma sm_apply_world: "sm_apply c m w = (m', w') \<Longrightarrow> wo_resolve w' = wo_resolve w"
proof -
  have kind: "wo_resolve w' = wo_resolve w" if "snd (append_kind k m w) = (m', w')" for k
    using that append_child_world by (fastforce simp: append_kind_def split: prod.splits)
  assume a: "sm_apply c m w = (m', w')"
  show ?thesis
  proof (cases c)
    case (CallLabel t l)
    with a append_child_world show ?thesis
      by (fastforce simp: sm_appendLabelChange_def Let_def split: prod.splits if_splits)
  next
    case (CallBranchWithSummary i s d f)
    with a append_child_world show ?thesis
      by (fastforce simp: sm_branchWithSummary_def Let_def split: prod.splits if_splits)
  qed (use a kind in \<open>auto simp: sm_appendMessage_def sm_appendThinkingLevelChange_def sm_appendModelChange_def
    sm_appendCompaction_def sm_appendCustomEntry_def sm_appendSessionInfo_def sm_appendCustomMessageEntry_def\<close>)
qed

lemma sm_run_world: "sm_run cs m w = (m', w') \<Longrightarrow> wo_resolve w' = wo_resolve w"
proof (induction cs arbitrary: m w)
  case (Cons c cs)
  obtain m1 w1 where c: "sm_apply c m w = (m1, w1)" by fastforce
  with Cons sm_apply_world [OF c] show ?case by simp
qed simp

end
