(* ===== verification/Session_Restart.thy ===== *)
theory Session_Restart
  imports Session_Manager_Props
begin

text \<open>
  The life of a session of the coding agent from its start to its reopening from the file, the extraction of one branch into a session of
  its own, and sample sessions at which the theorems on the session manager are applied.
\<close>

section \<open>Starting\<close>

lemma newSession_ok:
  assumes "newSession opts m w = (m', w')"
  shows "sm_ok m'" and "sm_getEntries m' = []" and "sg_persist m' = sg_persist m" and "sg_flushed m' = False"
    and "wo_disk w' = wo_disk w" and "wo_resolve w' = wo_resolve w"
    and "ho_uuid (wo_host w') = ho_uuid (wo_host w)"
    and "\<exists>hdr. sg_fileEntries m' = [FHeader hdr] \<and> sh_version hdr = Some 3 \<and> sh_id hdr = Some (sg_sessionId m')"
  using assms
  by (auto simp: newSession_def Let_def sm_ok_def sm_getEntries_def next_uuid_def time_now_def
    CURRENT_SESSION_VERSION_def split: option.splits prod.splits if_splits)

lemma newSession_synced:
  assumes "newSession opts m w = (m', w')" and "sg_persist m" and "truthy_str (sg_sessionFile m')"
    and "wo_disk w (the (sg_sessionFile m')) = None"
  shows "file_synced m' (wo_disk w')"
  using newSession_ok [OF assms(1)] assms(2-4) by (auto simp: file_synced_def has_assistant_def)

text \<open>The header stays in front.\<close>

lemma sm_run_header:
  assumes "sm_ok m" and "host_ids (wo_host w) (length calls) (entry_ids (sm_getEntries m))"
    and "sm_run calls m w = (m', w')" and "file_synced m (wo_disk w)" and "sg_fileEntries m = FHeader hdr # es"
  obtains es' where "sg_fileEntries m' = FHeader hdr # es'" and "file_synced m' (wo_disk w')"
  using session_manager_run_synced [OF assms(1-4)] assms(5) that by auto

section \<open>Reopening\<close>

lemma loadEntries_synced:
  assumes "d f = Some ls" and "parseSessionEntries ls = FHeader hdr # es" and "sh_id hdr \<noteq> None"
  shows "loadEntriesFromFile d f = FHeader hdr # es"
  using assms by (simp add: loadEntriesFromFile_def)

lemma setSessionFile_current:
  assumes "wo_disk w (wo_resolve w f) = Some ls" and "parseSessionEntries ls = FHeader hdr # es"
    and "sh_id hdr = Some i" and "sh_version hdr = Some 3"
  shows "setSessionFile f m w =
    ((buildIndex (m\<lparr>sg_sessionFile := Some (wo_resolve w f), sg_sessionId := i, sg_fileEntries := FHeader hdr # es\<rparr>))
       \<lparr>sg_flushed := True\<rparr>, w)"
proof -
  have "loadEntriesFromFile (wo_disk w) (wo_resolve w f) = FHeader hdr # es"
    using loadEntries_synced [of "wo_disk w" "wo_resolve w f" ls hdr es] assms(1-3) by simp
  moreover have "migrateToCurrentVersion (FHeader hdr # es) (wo_host w) = (False, FHeader hdr # es, wo_host w)"
    by (simp add: migrateToCurrentVersion_def file_version_def assms(4) CURRENT_SESSION_VERSION_def)
  ultimately show ?thesis using assms(1,3) by (simp add: setSessionFile_def Let_def)
qed

text \<open>
  C17: A session survives a restart. Start a session that persists under a file name not in use, perform any operations, among them one message of
  the assistant, and open the file again: the entries, the id and label tables and the session id are the same, nothing
  on the disk changes, and the new manager, whose leaf is the last entry, again is well-formed and in step with the file.
\<close>

theorem session_survives_restart:
  assumes "newSession opts m w = (m0, w0)" and "sg_persist m" and "sg_sessionFile m0 = Some f" and "f \<noteq> []"
    and "wo_disk w f = None" and "host_ids (wo_host w0) (length calls) {}"
    and "sm_run calls m0 w0 = (m1, w1)" and "has_assistant (sg_fileEntries m1)"
    and "wo_resolve w g = f" and "setSessionFile g x w1 = (m2, w2)" and "sg_persist x"
  shows "sm_getEntries m2 = sm_getEntries m1 \<and> sg_byId m2 = sg_byId m1 \<and> sg_labelsById m2 = sg_labelsById m1
    \<and> sg_sessionId m2 = sg_sessionId m0 \<and> wo_disk w2 = wo_disk w1 \<and> sm_ok m2 \<and> file_synced m2 (wo_disk w2)
    \<and> sg_leafId m2 = map_option en_id (last_opt (sm_getEntries m1))"
proof -
  note new = newSession_ok [OF assms(1)]
  obtain hdr where hdr: "sg_fileEntries m0 = [FHeader hdr]" "sh_version hdr = Some 3" "sh_id hdr = Some (sg_sessionId m0)"
    using new(8) by blast
  have sync0: "file_synced m0 (wo_disk w0)"
    using newSession_synced [OF assms(1,2)] assms(3-5) by simp
  have ids: "host_ids (wo_host w0) (length calls) (entry_ids (sm_getEntries m0))" using assms(6) new(2) by simp
  from sm_run_header [OF new(1) ids assms(7) sync0 hdr(1)] obtain es
    where es: "sg_fileEntries m1 = FHeader hdr # es" and sync1: "file_synced m1 (wo_disk w1)" by metis
  have resolve: "wo_resolve w1 g = f" using sm_run_world [OF assms(7)] new(6) assms(9) by simp
  have ok1: "sm_ok m1" using session_manager_run_ok [OF new(1) ids assms(7)] by blast
  have path: "sg_sessionFile m1 = Some f" using sm_run_file [OF new(1) ids assms(7)] assms(3) by simp
  obtain ls where ls: "wo_disk w1 f = Some ls" "parseSessionEntries ls = FHeader hdr # es"
    using sync1 assms(8) path es by (auto simp: file_synced_def)
  let ?x = "x\<lparr>sg_sessionFile := Some f, sg_sessionId := sg_sessionId m0, sg_fileEntries := FHeader hdr # es\<rparr>"
  have m2: "m2 = (buildIndex ?x)\<lparr>sg_flushed := True\<rparr>" "w2 = w1"
    using setSessionFile_current [of w1 g ls hdr es "sg_sessionId m0" x] resolve assms(10) ls hdr(2,3) by auto
  have x: "sm_getEntries ?x = sm_getEntries m1" using es by (simp add: sm_getEntries_def)
  have ok2: "sm_ok (buildIndex ?x)" using ok1 x by (intro buildIndex_ok) (simp add: sm_ok_def)
  have entries: "sm_getEntries (buildIndex ?x) = sm_getEntries m1" using es by (simp add: sm_getEntries_def)
  have fields: "sm_getEntries m2 = sm_getEntries (buildIndex ?x)" "sg_byId m2 = sg_byId (buildIndex ?x)"
    "sg_labelsById m2 = sg_labelsById (buildIndex ?x)" "sg_leafId m2 = sg_leafId (buildIndex ?x)"
    "sg_sessionId m2 = sg_sessionId m0"
    by (simp_all add: m2 sm_getEntries_def)
  have "sm_ok m2" using ok2 by (simp add: sm_ok_def fields)
  moreover have "file_synced m2 (wo_disk w2)"
    using assms(4,8,11) es ls by (simp add: file_synced_def m2)
  moreover have "sg_byId m2 = sg_byId m1" "sg_labelsById m2 = sg_labelsById m1"
    using ok1 ok2 by (simp_all add: fields sm_ok_def entries)
  ultimately show ?thesis using entries fields x m2(2) by simp
qed

section \<open>The file of an opened session\<close>

lemma setSessionFile_absent:
  assumes "setSessionFile g x w = (m0, w0)" and "wo_disk w (wo_resolve w g) = None" and "sg_persist x"
    and "truthy_str (sg_sessionFile m0)"
  shows "sm_ok m0 \<and> file_synced m0 (wo_disk w0)"
proof -
  let ?x = "x\<lparr>sg_sessionFile := Some (wo_resolve w g)\<rparr>"
  obtain m1 w1 where new: "newSession \<lparr>ns_id = None, ns_parentSession = None\<rparr> ?x w = (m1, w1)" by fastforce
  with assms(1,2) have m0: "m0 = m1\<lparr>sg_sessionFile := Some (wo_resolve w g)\<rparr>" "w0 = w1"
    by (simp_all add: setSessionFile_def Let_def)
  from newSession_ok [OF new] assms(2-4) m0 show ?thesis
    by (auto simp: sm_ok_def sm_getEntries_def file_synced_def has_assistant_def)
qed

lemma migrate_unchanged: "migrateToCurrentVersion es h = (False, es', h') \<Longrightarrow> es' = es"
  by (auto simp: migrateToCurrentVersion_def Let_def split: prod.splits if_splits)

text \<open>A file that holds a session, migrated or not.\<close>

lemma setSessionFile_loaded:
  assumes "setSessionFile g x w = (m0, w0)" and "loadEntriesFromFile (wo_disk w) (wo_resolve w g) \<noteq> []"
    and "tree_ok (sm_getEntries m0)"
  shows "sm_ok m0"
    and "sg_persist x \<Longrightarrow> truthy_str (sg_sessionFile m0) \<Longrightarrow> has_assistant (sg_fileEntries m0) \<Longrightarrow>
         file_synced m0 (wo_disk w0)"
proof -
  let ?f = "wo_resolve w g"
  let ?es = "loadEntriesFromFile (wo_disk w) ?f"
  obtain ls where ls: "wo_disk w ?f = Some ls" "parseSessionEntries ls = ?es"
    using assms(2) by (auto simp: loadEntriesFromFile_def split: option.splits list.splits file_entry.splits if_splits)
  obtain i h1 where i: "(case find_header ?es of
       Some hdr \<Rightarrow> (case sh_id hdr of Some i \<Rightarrow> (i, wo_host w) | None \<Rightarrow> next_uuid (wo_host w))
     | None \<Rightarrow> next_uuid (wo_host w)) = (i, h1)" by fastforce
  obtain changed es' h2 where mig: "migrateToCurrentVersion ?es h1 = (changed, es', h2)" by (metis prod_cases3)
  let ?m1 = "x\<lparr>sg_sessionFile := Some ?f, sg_sessionId := i, sg_fileEntries := es'\<rparr>"
  have m0: "m0 = (buildIndex ?m1)\<lparr>sg_flushed := True\<rparr>"
    and w0: "wo_disk w0 = (if changed then rewriteFile ?m1 (wo_disk w) else wo_disk w)"
    using assms(1,2) ls(1) i mig by (auto simp: setSessionFile_def Let_def)
  have entries: "sm_getEntries m0 = sm_getEntries ?m1" "sg_fileEntries m0 = es'"
    by (simp_all add: m0 sm_getEntries_def)
  have "sm_ok (buildIndex ?m1)" using assms(3) unfolding entries(1) by (rule buildIndex_ok)
  then show "sm_ok m0" by (simp add: m0 sm_ok_def sm_getEntries_def)
  show "file_synced m0 (wo_disk w0)"
    if "sg_persist x" "truthy_str (sg_sessionFile m0)" "has_assistant (sg_fileEntries m0)"
  proof (cases changed)
    case True
    have "es' \<noteq> []" using that(3) entries(2) by (auto simp: has_assistant_def)
    with True that show ?thesis
      by (simp add: file_synced_def w0 rewriteFile_def m0 parse_values)
  next
    case False
    with mig have "es' = ?es" by (auto dest: migrate_unchanged)
    with False that ls show ?thesis by (simp add: file_synced_def w0 m0)
  qed
qed

text \<open>
  C16: The file of a persisted session holds exactly the session. Take a session that was just started under a file name not in
  use, by \<^verbatim>\<open>newSession\<close> or by naming a file that does not exist, or opened from a file that holds a session with an answer of the
  assistant, in this or an older version, whose entries form a tree. However often it is then appended to, relabelled or branched, until
  the first message of the assistant there is no file, and after it the file reads back as the
  entries in memory. (A file without a session in it, or without an answer, is not covered: see \<open>empty_file_gets_two_headers\<close>.)
\<close>

theorem session_file_in_sync:
  assumes "sg_persist x" and "truthy_str (sg_sessionFile m0)"
    and "newSession opts x w = (m0, w0) \<and> wo_disk w (the (sg_sessionFile m0)) = None
       \<or> setSessionFile g x w = (m0, w0) \<and> wo_disk w (wo_resolve w g) = None
       \<or> setSessionFile g x w = (m0, w0) \<and> loadEntriesFromFile (wo_disk w) (wo_resolve w g) \<noteq> []
           \<and> tree_ok (sm_getEntries m0) \<and> has_assistant (sg_fileEntries m0)"
    and "host_ids (wo_host w0) (length calls) (entry_ids (sm_getEntries m0))"
    and "sm_run calls m0 w0 = (m', w')"
  shows "(if has_assistant (sg_fileEntries m')
      then \<exists>ls. wo_disk w' (the (sg_sessionFile m0)) = Some ls \<and> parseSessionEntries ls = sg_fileEntries m'
      else wo_disk w' (the (sg_sessionFile m0)) = None)
    \<and> (\<exists>ext. sg_fileEntries m' = sg_fileEntries m0 @ ext)"
proof -
  have "sm_ok m0 \<and> file_synced m0 (wo_disk w0)"
    using assms(3)
  proof (elim disjE conjE)
    assume "newSession opts x w = (m0, w0)" "wo_disk w (the (sg_sessionFile m0)) = None"
    with newSession_ok(1) newSession_synced assms(1,2) show ?thesis by blast
  next
    assume "setSessionFile g x w = (m0, w0)" "wo_disk w (wo_resolve w g) = None"
    with setSessionFile_absent assms(1,2) show ?thesis by blast
  next
    assume "setSessionFile g x w = (m0, w0)" "loadEntriesFromFile (wo_disk w) (wo_resolve w g) \<noteq> []"
      "tree_ok (sm_getEntries m0)" "has_assistant (sg_fileEntries m0)"
    with setSessionFile_loaded assms(1,2) show ?thesis by blast
  qed
  with session_manager_run_synced [OF _ assms(4,5)] sm_run_file [OF _ assms(4,5)]
  show ?thesis by (auto simp: file_synced_def)
qed

section \<open>Extracting a branch\<close>

lemma host_ids_subset: "host_ids h n I \<Longrightarrow> J \<subseteq> I \<Longrightarrow> host_ids h n J"
  by (auto simp: host_ids_def uuid_supply_def)

lemma next_uuid_host_ids: "host_ids h (Suc n) I \<Longrightarrow> next_uuid h = (i, h') \<Longrightarrow> host_ids h' n I"
  unfolding host_ids_def next_uuid_def by (auto intro: uuid_supply_less)

lemma is_label_kind: "is_label e \<longleftrightarrow> (\<exists>t l. en_kind e = LabelEntry t l)"
  by (auto simp: is_label_def split: entry_kind.splits)

lemma is_path_append_self:
  "is_path (p @ [e]) (p @ [e]) \<Longrightarrow> is_path p p"
  using is_path_prefix [of "p @ [e]" p "[e]"] is_path_self [of "p @ [e]" p] by blast

text \<open>The labels made anew continue the path.\<close>

lemma label_entries_ok:
  assumes "tree_ok p" and "is_path p p" and "host_ids h (length ls) (set ids)"
    and "ids = map en_id p" and "parent = map_option en_id (last_opt p)"
    and "label_entries ls stamps ids parent h = (es, h')"
  shows "tree_ok (p @ es) \<and> is_path (p @ es) (p @ es)
    \<and> map en_kind es = map (\<lambda>(t, l). LabelEntry t (Some l)) ls"
  using assms
proof (induction ls stamps ids parent h arbitrary: p es h' rule: label_entries.induct)
  case (1 stamps ids parent h)
  then show ?case by simp
next
  case (2 t l ls stamps ids parent h)
  obtain i h1 where i: "generateId (\<lambda>x. x \<in> set ids) h = (i, h1)" by fastforce
  let ?e = "\<lparr>en_id = i, en_parentId = parent, en_timestamp = nullish (map_of stamps t) [], en_kind = LabelEntry t (Some l)\<rparr>"
  obtain es1 h2 where rest: "label_entries ls stamps (ids @ [i]) (Some i) h1 = (es1, h2)" by fastforce
  have es: "es = ?e # es1" using "2.prems"(6) i rest by (simp add: Let_def)
  have "host_ids h (Suc (length ls)) (set ids)" using "2.prems"(3) by simp
  from generateId_fresh [OF this _ i] have fresh: "i \<notin> set ids" "i \<noteq> []" "host_ids h1 (length ls) (insert i (set ids))"
    by auto
  have parent: "leaf_ok p parent"
    using "2.prems"(5) by (cases p rule: rev_cases) auto
  have tree: "tree_ok (p @ [?e])"
    unfolding tree_ok_snoc using "2.prems"(1,4) fresh(1,2) parent by auto
  have "is_path (p @ [?e]) p" by (rule is_path_mono [OF "2.prems"(2)]) auto
  then have path: "is_path (p @ [?e]) (p @ [?e])"
    unfolding is_path_snoc using "2.prems"(5) by (cases p rule: rev_cases) auto
  have "host_ids h1 (length ls) (set (ids @ [i]))" "ids @ [i] = map en_id (p @ [?e])"
    "Some i = map_option en_id (last_opt (p @ [?e]))" using fresh(3) "2.prems"(4) by simp_all
  from "2.IH" [OF i [symmetric] refl refl tree path this rest] show ?case by (simp add: es)
qed

lemma label_context:
  assumes "is_label e" and "distinct (map en_id (p @ [e]))"
  shows "buildSessionContext t (p @ [e]) = buildSessionContext t p"
proof -
  from assms(1) obtain x l where k: "en_kind e = LabelEntry x l" by (auto simp: is_label_kind)
  have "path_messages t (p @ [e]) = path_messages t p @ append_message t e"
    using assms(2) by (rule path_messages_snoc) (simp add: is_compaction_def k)
  then show ?thesis by (simp add: buildSessionContext_def scan_path_snoc append_message_def scan_entry_def k)
qed

lemma labels_context:
  "list_all is_label ls \<Longrightarrow> distinct (map en_id (p @ ls)) \<Longrightarrow> buildSessionContext t (p @ ls) = buildSessionContext t p"
proof (induction ls rule: rev_induct)
  case (snoc e ls)
  from label_context [of e "p @ ls" t] snoc show ?case by simp
qed simp

text \<open>The label table has one non-empty label per key, so writing it out and reading it back gives the same table.\<close>

definition label_table_ok :: "(jstr \<times> jstr) list \<Rightarrow> bool" where
  "label_table_ok m \<longleftrightarrow> distinct (map fst m) \<and> list_all (\<lambda>(t, l). l \<noteq> []) m"

lemma set_map_set: "set (map_set k v m) \<subseteq> insert (k, v) (set m)"
  by (induction k v m rule: map_set.induct) auto

lemma label_table_ok_set: "label_table_ok m \<Longrightarrow> l \<noteq> [] \<Longrightarrow> label_table_ok (map_set t l m)"
  using set_map_set [of t l m] by (auto simp: label_table_ok_def distinct_map_set list_all_iff)

lemma label_table_ok_delete: "label_table_ok m \<Longrightarrow> label_table_ok (map_delete t m)"
  unfolding label_table_ok_def by (simp add: distinct_map_delete) (simp add: map_delete_def list_all_iff)

lemma label_table_good: "label_table_ok (label_table es)"
proof (induction es rule: rev_induct)
  case (snoc e es)
  then show ?case
    by (auto simp: label_step_def label_table_ok_set label_table_ok_delete split: entry_kind.split elim!: truthy_strE)
qed (simp add: label_table_ok_def)

lemma relabel:
  "label_table_ok (m @ ls) \<Longrightarrow> map en_kind es = map (\<lambda>(t, l). LabelEntry t (Some l)) ls \<Longrightarrow>
   foldl label_step m es = m @ ls"
proof (induction ls arbitrary: m es)
  case (Cons x ls)
  obtain t l where x: "x = (t, l)" by fastforce
  with Cons.prems(2) obtain e es' where es: "es = e # es'" "en_kind e = LabelEntry t (Some l)"
    "map en_kind es' = map (\<lambda>(t, l). LabelEntry t (Some l)) ls" by auto
  have "l \<noteq> []" "t \<notin> fst ` set m" using Cons.prems(1) x by (auto simp: label_table_ok_def)
  then have "label_step m e = m @ [(t, l)]" by (simp add: label_step_def es(2) map_set_new)
  with Cons.IH [of "m @ [(t, l)]" es'] Cons.prems(1) es x show ?case by simp
qed simp

lemma foldl_no_labels: "list_all (\<lambda>e. \<not> is_label e) es \<Longrightarrow> foldl label_step m es = m"
  by (induction es arbitrary: m) (simp_all add: label_step_other)

text \<open>
  Extracting the branch of an entry, when no label entry lies on it, always succeeds and gives a well-formed
  session that holds the branch followed by label entries only, builds the same context as the branch, and has exactly
  the labels of the entries of the branch.
\<close>

lemma extracted_branch:
  assumes "sm_ok m" and "e \<in> set (sm_getEntries m)"
    and "list_all (\<lambda>x. \<not> is_label x) (branch_of (sm_getEntries m) (Some (en_id e)))"
    and "host_ids (wo_host w) (Suc (length (sg_labelsById m))) (entry_ids (sm_getEntries m))"
  shows "\<exists>r m' w' ls. sm_createBranchedSession (en_id e) m w = Some (Inr r, m', w') \<and> sm_ok m'
    \<and> sm_getEntries m' = branch_of (sm_getEntries m) (Some (en_id e)) @ ls \<and> list_all is_label ls
    \<and> sm_buildSessionContext t m' = Some (buildSessionContext t (branch_of (sm_getEntries m) (Some (en_id e))))
    \<and> sg_labelsById m' = filter (\<lambda>(t, l). t \<in> entry_ids (branch_of (sm_getEntries m) (Some (en_id e)))) (sg_labelsById m)"
proof -
  let ?p = "branch_of (sm_getEntries m) (Some (en_id e))"
  have tree: "tree_ok (sm_getEntries m)" using assms(1) by (simp add: sm_ok_def)
  from branch_of_path [OF tree assms(2)] obtain q where q: "?p = q @ [e]" "is_path (sm_getEntries m) ?p" by metis
  have p: "tree_ok ?p" "is_path ?p ?p" using tree_ok_path [OF tree q(2)] is_path_self [OF q(2)] by blast+
  have sub: "set ?p \<subseteq> set (sm_getEntries m)" using is_path_subset [OF q(2)] .
  have branch: "sm_getBranch (Some (en_id e)) m = Some ?p"
    using getBranch_ok [OF assms(1), of "Some (en_id e)"] assms(2) by simp
  have nolabels: "filter (\<lambda>e. \<not> is_label e) ?p = ?p" using assms(3) by (simp add: filter_id_conv list_all_iff)
  let ?ls = "filter (\<lambda>(t, l). t \<in> set (map en_id ?p)) (sg_labelsById m)"
  obtain sid h1 where sid: "next_uuid (wo_host w) = (sid, h1)" by fastforce
  obtain ts h2 where ts: "time_now h1 = (ts, h2)" by fastforce
  have last: "or_undefined (map_option en_id (last_opt ?p)) = map_option en_id (last_opt ?p)"
    using p(1) unfolding q(1) by (simp add: tree_ok_snoc)
  obtain ls h3 where ls: "label_entries ?ls (sg_labelTimestampsById m) (map en_id ?p)
      (map_option en_id (last_opt ?p)) h2 = (ls, h3)" by fastforce
  have "host_ids h2 (length (sg_labelsById m)) (set (map en_id ?p))"
  proof (rule host_ids_subset)
    show "host_ids h2 (length (sg_labelsById m)) (entry_ids (sm_getEntries m))"
      using next_uuid_host_ids [OF assms(4) sid] time_now_host_ids [OF ts] by simp
    show "set (map en_id ?p) \<subseteq> entry_ids (sm_getEntries m)" using sub by auto
  qed
  then have "host_ids h2 (length ?ls) (set (map en_id ?p))"
    unfolding host_ids_def by (rule uuid_supply_less) simp_all
  from label_entries_ok [OF p this refl refl ls] have ext: "tree_ok (?p @ ls)" "is_path (?p @ ls) (?p @ ls)"
    "map en_kind ls = map (\<lambda>(t, l). LabelEntry t (Some l)) ?ls" by blast+
  have labels: "list_all is_label ls"
  proof -
    have "is_label x" if "x \<in> set ls" for x
    proof -
      from that have "en_kind x \<in> set (map en_kind ls)" by simp
      then show ?thesis unfolding ext(3) by (auto simp: is_label_kind)
    qed
    then show ?thesis by (simp add: list_all_iff)
  qed
  have table: "label_table (?p @ ls) = ?ls"
  proof -
    have "label_table_ok (sg_labelsById m)" using assms(1) label_table_good by (simp add: sm_ok_def)
    then have "label_table_ok ([] @ ?ls)"
      by (auto simp: label_table_ok_def list_all_iff distinct_map_filter)
    from relabel [OF this ext(3)] foldl_no_labels [OF assms(3)] show ?thesis by (simp add: label_table_def)
  qed
  let ?hdr = "\<lparr>sh_version = Some CURRENT_SESSION_VERSION, sh_id = Some sid, sh_timestamp = ts, sh_cwd = Some (sg_cwd m),
    sh_parentSession = (if sg_persist m then sg_sessionFile m else None)\<rparr>"
  let ?m1 = "m\<lparr>sg_fileEntries := FHeader ?hdr # map FEntry (?p @ ls), sg_sessionId := sid\<rparr>"
  have entries: "session_entries (FHeader ?hdr # map FEntry (?p @ ls)) = ?p @ ls"
    by (simp add: session_entries_map)
  have good: "sm_ok m' \<and> sm_getEntries m' = ?p @ ls \<and> sm_buildSessionContext t m' = Some (buildSessionContext t ?p)
      \<and> sg_labelsById m' = ?ls"
    if "\<exists>f b. m' = (buildIndex (?m1\<lparr>sg_sessionFile := f\<rparr>))\<lparr>sg_flushed := b\<rparr>" for m'
  proof -
    from that obtain f b where m': "m' = (buildIndex (?m1\<lparr>sg_sessionFile := f\<rparr>))\<lparr>sg_flushed := b\<rparr>" by blast
    let ?x = "?m1\<lparr>sg_sessionFile := f\<rparr>"
    have x: "sm_getEntries ?x = ?p @ ls" using entries by (simp add: sm_getEntries_def)
    have ok: "sm_ok (buildIndex ?x)" using ext(1) by (intro buildIndex_ok) (simp only: x)
    have e': "sm_getEntries m' = ?p @ ls" using x by (simp add: m' sm_getEntries_def)
    have ok': "sm_ok m'" using ok by (simp add: m' sm_ok_def sm_getEntries_def)
    have "sg_leafId m' = sg_leafId (buildIndex ?x)" by (simp add: m')
    then have "sg_leafId m' = map_option en_id (last_opt (?p @ ls))" unfolding buildIndex_fields(2) x .
    moreover obtain y ys where y: "?p @ ls = ys @ [y]" using q(1) by (cases ls rule: rev_cases) auto
    ultimately have leaf: "sg_leafId m' = Some (en_id y)" by simp
    have "branch_of (?p @ ls) (Some (en_id y)) = ?p @ ls"
      using branch_of_unique [OF ext(1)] ext(2) unfolding y by blast
    then have "sm_buildSessionContext t m' = Some (buildSessionContext t (?p @ ls))"
      using sm_context [OF ok', of t] by (simp only: e' leaf)
    moreover have "buildSessionContext t (?p @ ls) = buildSessionContext t ?p"
      using labels ext(1) by (intro labels_context) (simp_all add: tree_ok_def)
    moreover have "sg_labelsById m' = ?ls" using ok' table by (simp add: sm_ok_def e')
    ultimately show ?thesis using ok' e' by simp
  qed
  have "?p \<noteq> []" using q(1) by simp
  then have eq: "sm_createBranchedSession (en_id e) m w =
    (if sg_persist m
     then
       (let m2 = buildIndex (?m1\<lparr>sg_sessionFile := Some (session_file_path w (sg_sessionDir m) ts sid)\<rparr>) in
        if has_assistant (sg_fileEntries m2)
        then Some (Inr (Some (session_file_path w (sg_sessionDir m) ts sid)), m2\<lparr>sg_flushed := True\<rparr>,
               w\<lparr>wo_host := h3, wo_disk := rewriteFile m2 (wo_disk w)\<rparr>)
        else Some (Inr (Some (session_file_path w (sg_sessionDir m) ts sid)), m2\<lparr>sg_flushed := False\<rparr>, w\<lparr>wo_host := h3\<rparr>))
     else Some (Inr None, buildIndex ?m1, w\<lparr>wo_host := h3\<rparr>))"
    by (simp only: sm_createBranchedSession_def branch option.case nolabels Let_def sid ts prod.case last ls if_False)
  have "\<exists>r m' w'. sm_createBranchedSession (en_id e) m w = Some (Inr r, m', w')
      \<and> (\<exists>f b. m' = (buildIndex (?m1\<lparr>sg_sessionFile := f\<rparr>))\<lparr>sg_flushed := b\<rparr>)"
  proof (cases "sg_persist m")
    case True
    then show ?thesis unfolding eq Let_def by (auto split: if_splits)
  next
    case False
    have "buildIndex ?m1 = (buildIndex (?m1\<lparr>sg_sessionFile := sg_sessionFile m\<rparr>))\<lparr>sg_flushed := sg_flushed (buildIndex ?m1)\<rparr>"
      by simp
    then show ?thesis unfolding eq if_not_P [OF False] by blast
  qed
  then obtain r m' w' where res: "sm_createBranchedSession (en_id e) m w = Some (Inr r, m', w')"
    "\<exists>f b. m' = (buildIndex (?m1\<lparr>sg_sessionFile := f\<rparr>))\<lparr>sg_flushed := b\<rparr>" by blast
  from good [OF res(2)] labels res(1) show ?thesis by auto
qed

section \<open>Every way a session changes\<close>

text \<open>
  The operations of the manager as a step relation. \<open>call_step\<close>: appending, relabelling or moving the leaf.
  \<open>session_step\<close> adds those that replace the session: a new one, opening a file whose entries, after migration,
  form a tree, and extracting the branch of an id, if no label entry lies on it.
\<close>

inductive call_step :: "session_manager \<times> world \<Rightarrow> session_manager \<times> world \<Rightarrow> bool" where
  step_call: "host_ids (wo_host w) 1 (entry_ids (sm_getEntries m)) \<Longrightarrow> sm_apply c m w = (m', w') \<Longrightarrow>
    call_step (m, w) (m', w')"

inductive session_step :: "session_manager \<times> world \<Rightarrow> session_manager \<times> world \<Rightarrow> bool" where
  step_change: "call_step s s' \<Longrightarrow> session_step s s'"
| step_start: "newSession opts m w = s' \<Longrightarrow> session_step (m, w) s'"
| step_load: "setSessionFile f m w = (m', w') \<Longrightarrow> tree_ok (sm_getEntries m') \<Longrightarrow> session_step (m, w) (m', w')"
| step_extract: "sm_createBranchedSession i m w = Some (r, m', w') \<Longrightarrow>
    list_all (\<lambda>x. \<not> is_label x) (branch_of (sm_getEntries m) (Some i)) \<Longrightarrow>
    host_ids (wo_host w) (Suc (length (sg_labelsById m))) (entry_ids (sm_getEntries m)) \<Longrightarrow>
    session_step (m, w) (m', w')"

inductive_cases call_stepE: "call_step (m, w) (m', w')"

lemma createBranched_unknown:
  assumes "sm_ok m" and "i \<notin> entry_ids (sm_getEntries m)" and "sm_createBranchedSession i m w = Some (r, m', w')"
  shows "m' = m \<and> w' = w"
proof -
  have "map_of (sg_byId m) i = None"
    using sm_ok_byId [OF assms(1)] assms(2) by (simp add: index_by_None_iff)
  then have "sm_getBranch (Some i) m = Some []" by (simp add: sm_getBranch_def)
  with assms(3) show ?thesis by (simp add: sm_createBranchedSession_def)
qed

lemma setSessionFile_ok:
  assumes "setSessionFile f m w = (m', w')" and "tree_ok (sm_getEntries m')"
  shows "sm_ok m'"
proof (cases "loadEntriesFromFile (wo_disk w) (wo_resolve w f) = []")
  case False
  from setSessionFile_loaded(1) [OF assms(1) False assms(2)] show ?thesis .
next
  case True
  let ?x = "m\<lparr>sg_sessionFile := Some (wo_resolve w f)\<rparr>"
  have "\<exists>x m1 w1. newSession \<lparr>ns_id = None, ns_parentSession = None\<rparr> x w = (m1, w1)
      \<and> (\<exists>b. m' = m1\<lparr>sg_sessionFile := Some (wo_resolve w f), sg_flushed := b\<rparr>)"
  proof (cases "wo_disk w (wo_resolve w f)")
    case None
    obtain m1 w1 where "newSession \<lparr>ns_id = None, ns_parentSession = None\<rparr> ?x w = (m1, w1)" by fastforce
    with assms(1) None show ?thesis
      by (intro exI [of _ ?x] exI [of _ m1] exI [of _ w1]) (auto simp: setSessionFile_def Let_def intro: exI [of _ "sg_flushed m1"])
  next
    case (Some ls)
    obtain m1 w1 where "newSession \<lparr>ns_id = None, ns_parentSession = None\<rparr> (?x\<lparr>sg_fileEntries := []\<rparr>) w = (m1, w1)" by fastforce
    with assms(1) Some True show ?thesis
      by (intro exI [of _ "?x\<lparr>sg_fileEntries := []\<rparr>"] exI [of _ m1] exI [of _ w1])
        (auto simp: setSessionFile_def Let_def)
  qed
  then obtain x m1 w1 b where new: "newSession \<lparr>ns_id = None, ns_parentSession = None\<rparr> x w = (m1, w1)"
    and m': "m' = m1\<lparr>sg_sessionFile := Some (wo_resolve w f), sg_flushed := b\<rparr>" by blast
  from newSession_ok(1) [OF new] show ?thesis by (simp add: m' sm_ok_def sm_getEntries_def)
qed

lemma session_step_ok: "session_step s s' \<Longrightarrow> sm_ok (fst s) \<Longrightarrow> sm_ok (fst s')"
proof (induction rule: session_step.induct)
  case (step_change s s')
  then show ?case
    by (cases s; cases s') (auto elim!: call_stepE dest: sm_apply_ok [where n = 0] simp del: sm_apply.simps)
next
  case (step_start opts m w s')
  then show ?case by (cases s') (auto dest: newSession_ok(1))
next
  case (step_load f m w m' w')
  then show ?case by (auto intro: setSessionFile_ok)
next
  case (step_extract i m w r m' w')
  then have ok: "sm_ok m" by simp
  show ?case
  proof (cases "i \<in> entry_ids (sm_getEntries m)")
    case True
    then obtain e where e: "e \<in> set (sm_getEntries m)" "i = en_id e" by auto
    from extracted_branch [OF ok e(1) step_extract(2) [unfolded e(2)] step_extract(3)] step_extract(1) e(2) show ?thesis by auto
  next
    case False
    with createBranched_unknown [OF ok False step_extract(1)] ok show ?thesis by simp
  qed
qed

lemma call_step_grows: "call_step s s' \<Longrightarrow> sm_ok (fst s) \<Longrightarrow>
   sm_ok (fst s') \<and> (\<exists>ext. sm_getEntries (fst s') = sm_getEntries (fst s) @ ext)"
  by (cases s; cases s') (auto elim!: call_stepE dest: sm_apply_ok [where n = 0] simp del: sm_apply.simps)

lemma call_steps_grow: "rtranclp call_step s s' \<Longrightarrow> sm_ok (fst s) \<Longrightarrow>
   sm_ok (fst s') \<and> (\<exists>ext. sm_getEntries (fst s') = sm_getEntries (fst s) @ ext)"
proof (induction rule: rtranclp_induct)
  case base
  then show ?case by auto
next
  case (step s1 s2)
  with call_step_grows [OF step(2)] show ?case by auto
qed

lemma session_steps_ok: "rtranclp session_step s s' \<Longrightarrow> sm_ok (fst s) \<Longrightarrow> sm_ok (fst s')"
  by (induction rule: rtranclp_induct) (auto dest: session_step_ok)

text \<open>
  C14: The session manager keeps its session well-formed. Take the ten appending and branching
  operations, \<^verbatim>\<open>newSession\<close>, the opening of a file whose entries form a tree, and \<^verbatim>\<open>createBranchedSession\<close> for a branch without label entries,
  in any order and number, each with unused ids at hand: ids stay distinct, parents exist and come before their children,
  the id and label tables are those of the entries, and the leaf is an entry. As long as no operation replaces the
  session, it is append-only: the entries there were stay as they were. (With a label entry on the branch,
  \<^verbatim>\<open>createBranchedSession\<close> may leave a parent that does not exist: see \<open>branched_session_drops_history\<close>.)
\<close>

theorem session_manager_invariant:
  assumes "sm_ok m" and "rtranclp session_step (m, w) (m', w')"
  shows "sm_ok m'
    \<and> (rtranclp call_step (m, w) (m', w') \<longrightarrow> (\<exists>ext. sm_getEntries m' = sm_getEntries m @ ext))"
  using session_steps_ok [OF assms(2)] call_steps_grow [of "(m, w)" "(m', w')"] assms(1) by simp

section \<open>Sample sessions\<close>

definition sample_manager :: "entry list \<Rightarrow> bool \<Rightarrow> session_manager" where
  "sample_manager es pers = buildIndex \<lparr>sg_sessionId = js ''s'', sg_sessionFile = Some (js ''f''), sg_sessionDir = js ''d'',
     sg_cwd = js ''c'', sg_persist = pers, sg_flushed = False,
     sg_fileEntries = FHeader (sample_header (Some 3)) # map FEntry es, sg_byId = [], sg_labelsById = [],
     sg_labelTimestampsById = [], sg_leafId = None\<rparr>"

definition sample_world :: world where
  "sample_world = \<lparr>wo_host = sample_host, wo_disk = Map.empty, wo_resolve = (\<lambda>p. p), wo_join = (\<lambda>d f. d @ f)\<rparr>"

definition sample_calls :: "sm_call list" where
  "sample_calls = [CallMessage (Llm (sample_user ''x'')), CallLabel (js ''a'') (Some (js ''L'')), CallBranch (js ''a'')]"

lemma sample_manager_fields:
  "sm_getEntries (sample_manager es pers) = es"
  "sg_fileEntries (sample_manager es pers) = FHeader (sample_header (Some 3)) # map FEntry es"
  "sg_persist (sample_manager es pers) = pers" "sg_sessionFile (sample_manager es pers) = Some (js ''f'')"
  "sg_flushed (sample_manager es pers) = False" "sg_labelsById (sample_manager es pers) = label_table es"
  "sg_leafId (sample_manager es pers) = map_option en_id (last_opt es)"
  by (simp_all add: sample_manager_def sm_getEntries_def session_entries_map)

lemma sample_manager_ok: "sm_ok (sample_manager sample_entries pers)"
  unfolding sample_manager_def using sample_session_ok
  by (intro buildIndex_ok) (simp add: sm_getEntries_def session_entries_map session_ok_def)

lemma sample_world_ids: "n \<le> 600 \<Longrightarrow> host_ids (wo_host sample_world) n (entry_ids sample_entries)"
  unfolding host_ids_def sample_world_def sample_host_def host.simps world.simps
  by (rule counting_uuid_supply) (simp_all add: sample_entries_def sample_entry_def)

lemma sample_synced: "file_synced (sample_manager sample_entries True) (wo_disk sample_world)"
  by (simp add: file_synced_def sample_manager_fields sample_world_def has_assistant_def sample_entries_def sample_entry_def
    sample_user_def)

theorem branch_leads_from_root_witness:
  "\<exists>p. sm_getBranch (Some (js ''b'')) (sample_manager sample_entries False) =
      Some (p @ [sample_entry ''b'' (Some ''a'') (MessageEntry (Llm (sample_user ''two'')))])"
  using branch_leads_from_root [OF sample_manager_ok,
      of "sample_entry ''b'' (Some ''a'') (MessageEntry (Llm (sample_user ''two'')))" False]
  by (auto simp: sample_manager_fields sample_entries_def sample_entry_def)

lemma sample_call_step:
  "\<exists>m' w'. call_step (sample_manager sample_entries False, sample_world) (m', w')"
proof -
  obtain m' w' where run: "sm_apply (CallMessage (Llm (sample_user ''x''))) (sample_manager sample_entries False) sample_world = (m', w')"
    by fastforce
  have "host_ids (wo_host sample_world) 1 (entry_ids (sm_getEntries (sample_manager sample_entries False)))"
    unfolding sample_manager_fields by (rule sample_world_ids) simp
  from call_step.intros [OF this run] show ?thesis by blast
qed

theorem session_manager_invariant_witness:
  "\<exists>m1 w1 m2 w2. call_step (sample_manager sample_entries False, sample_world) (m1, w1)
     \<and> newSession \<lparr>ns_id = None, ns_parentSession = None\<rparr> m1 w1 = (m2, w2)
     \<and> (\<exists>ext. sm_getEntries m1 = sample_entries @ ext) \<and> sm_ok m1 \<and> sm_ok m2"
proof -
  from sample_call_step obtain m1 w1 where
    grow: "call_step (sample_manager sample_entries False, sample_world) (m1, w1)" by blast
  obtain m2 w2 where new: "newSession \<lparr>ns_id = None, ns_parentSession = None\<rparr> m1 w1 = (m2, w2)" by fastforce
  have one: "rtranclp session_step (sample_manager sample_entries False, sample_world) (m1, w1)"
    using step_change [OF grow] by blast
  have two: "rtranclp session_step (sample_manager sample_entries False, sample_world) (m2, w2)"
    using rtranclp.rtrancl_into_rtrancl [OF one step_start [OF new]] .
  from session_manager_invariant [OF sample_manager_ok one] session_manager_invariant [OF sample_manager_ok two]
    grow new show ?thesis by (metis r_into_rtranclp sample_manager_fields(1))
qed

theorem context_agrees_with_harness_witness:
  "\<exists>c. sm_buildSessionContext (\<lambda>t. None) (sample_manager sample_entries False) = Some c
    \<and> session_buildContext (\<lambda>t. None) mem_ops sample_storage = Some (Inr c)"
  by (rule context_agrees_with_harness [OF sample_manager_ok sample_storage_good])
    (simp_all add: sample_manager_fields sample_storage_def sample_entries_def leafIdAfterEntry_def sample_entry_def
      leaf_after_def last_opt_def)

lemma extracted_branch_sample:
  "\<exists>r m' w' ls. sm_createBranchedSession (js ''b'') (sample_manager sample_entries False) sample_world = Some (Inr r, m', w')
    \<and> sm_ok m' \<and> sm_getEntries m' = sample_entries @ ls
    \<and> sm_buildSessionContext (\<lambda>t. None) m' = Some (buildSessionContext (\<lambda>t. None) sample_entries)"
proof -
  let ?b = "sample_entry ''b'' (Some ''a'') (MessageEntry (Llm (sample_user ''two'')))"
  have b: "?b \<in> set (sm_getEntries (sample_manager sample_entries False))" "en_id ?b = js ''b''"
    by (simp_all add: sample_manager_fields sample_entries_def sample_entry_def)
  have branch: "branch_of sample_entries (Some (js ''b'')) = sample_entries"
    by (simp add: branch_of_def path_to_root_def sample_entries_def sample_entry_def index_by_def path_from.simps)
  have "list_all (\<lambda>x. \<not> is_label x) (branch_of (sm_getEntries (sample_manager sample_entries False)) (Some (en_id ?b)))"
    unfolding b(2) sample_manager_fields branch by (simp add: sample_entries_def sample_entry_def is_label_def)
  moreover have "host_ids (wo_host sample_world) (Suc (length (sg_labelsById (sample_manager sample_entries False))))
      (entry_ids (sm_getEntries (sample_manager sample_entries False)))"
    unfolding sample_manager_fields
    by (rule sample_world_ids) (simp add: sample_entries_def label_table_def label_step_def sample_entry_def)
  ultimately show ?thesis
    using extracted_branch [OF sample_manager_ok b(1), of sample_world "\<lambda>t. None"]
    unfolding b(2) sample_manager_fields branch by blast
qed

text \<open>A whole life: a new session, a question and its answer, and the file opened again.\<close>

definition restart_calls :: "sm_call list" where
  "restart_calls = [CallMessage (Llm (sample_user ''x'')),
     CallMessage (Llm (AssistantM (sample_assistant [] SR_stop)))]"

definition blank_manager :: session_manager where
  "blank_manager = \<lparr>sg_sessionId = [], sg_sessionFile = None, sg_sessionDir = js ''d'', sg_cwd = js ''c'',
     sg_persist = True, sg_flushed = False, sg_fileEntries = [], sg_byId = [], sg_labelsById = [],
     sg_labelTimestampsById = [], sg_leafId = None\<rparr>"

lemma run_has_message:
  assumes "sm_ok m" and "host_ids (wo_host w) (Suc n) (entry_ids (sm_getEntries m))"
    and "sm_apply (CallMessage x) m w = (m', w')"
  shows "\<exists>e. sg_fileEntries m' = sg_fileEntries m @ [FEntry e] \<and> en_kind e = MessageEntry x"
proof -
  obtain e m1 w1 where e: "append_child (sg_leafId m) (MessageEntry x) m w = (e, m1, w1)" by (metis prod_cases3)
  have "leaf_ok (sm_getEntries m) (sg_leafId m)" using assms(1) by (simp add: sm_ok_def)
  from append_child_ok(2,3) [OF assms(1) this assms(2) e] assms(3) e show ?thesis
    by (simp add: sm_appendMessage_def append_kind_def)
qed

lemma blank_start_ids:
  assumes "newSession \<lparr>ns_id = None, ns_parentSession = None\<rparr> blank_manager sample_world = (m0, w0)"
  shows "host_ids (wo_host w0) 2 {}"
proof -
  obtain i h1 where i: "next_uuid (wo_host sample_world) = (i, h1)" by fastforce
  obtain t h2 where t: "time_now h1 = (t, h2)" by fastforce
  have "host_ids (wo_host sample_world) 3 {}" using sample_world_ids [of 3] by (rule host_ids_subset) auto
  then have "host_ids h1 2 {}" using next_uuid_host_ids [OF _ i, of 2 "{}"] by (simp add: numeral_3_eq_3 numeral_2_eq_2)
  moreover have "wo_host w0 = h2" using assms i t by (auto simp: newSession_def Let_def)
  ultimately show ?thesis using time_now_host_ids [OF t] by simp
qed

theorem session_survives_restart_witness:
  "\<exists>m0 w0 m1 w1 m2 w2. newSession \<lparr>ns_id = None, ns_parentSession = None\<rparr> blank_manager sample_world = (m0, w0)
    \<and> sm_run restart_calls m0 w0 = (m1, w1)
    \<and> setSessionFile (the (sg_sessionFile m0)) blank_manager w1 = (m2, w2)
    \<and> sm_getEntries m2 = sm_getEntries m1 \<and> length (sm_getEntries m1) = 2"
proof -
  let ?o = "\<lparr>ns_id = None, ns_parentSession = None\<rparr>"
  obtain m0 w0 where new: "newSession ?o blank_manager sample_world = (m0, w0)" by fastforce
  obtain m1 w1 where c1: "sm_apply (CallMessage (Llm (sample_user ''x''))) m0 w0 = (m1, w1)" by fastforce
  obtain m2 w2 where c2: "sm_apply (CallMessage (Llm (AssistantM (sample_assistant [] SR_stop)))) m1 w1 = (m2, w2)"
    by fastforce
  have run: "sm_run restart_calls m0 w0 = (m2, w2)" by (simp only: restart_calls_def sm_run.simps c1 c2 prod.case)
  obtain m3 w3 where reopen: "setSessionFile (the (sg_sessionFile m0)) blank_manager w2 = (m3, w3)" by fastforce
  have path: "sg_sessionFile m0 \<noteq> None" "the (sg_sessionFile m0) \<noteq> []"
    using new by (auto simp: newSession_def Let_def blank_manager_def session_file_path_def sample_world_def
      next_uuid_def time_now_def)
  have ids0: "host_ids (wo_host w0) 2 {}" using blank_start_ids [OF new] .
  have start: "sm_ok m0" "host_ids (wo_host w0) (Suc 1) (entry_ids (sm_getEntries m0))"
    using newSession_ok [OF new] ids0 by (simp_all add: numeral_2_eq_2)
  from run_has_message [OF start c1] obtain e where e: "sg_fileEntries m1 = sg_fileEntries m0 @ [FEntry e]" by blast
  from sm_apply_ok [OF start c1] have next_ok: "sm_ok m1" "host_ids (wo_host w1) (Suc 0) (entry_ids (sm_getEntries m1))"
    by auto
  from run_has_message [OF next_ok c2] obtain e' where e': "sg_fileEntries m2 = sg_fileEntries m1 @ [FEntry e']"
    "en_kind e' = MessageEntry (Llm (AssistantM (sample_assistant [] SR_stop)))" by blast
  have answered: "has_assistant (sg_fileEntries m2)" using e' by (simp add: has_assistant_def)
  have "sm_getEntries m0 = []" using newSession_ok(2) [OF new] .
  then have len: "length (sm_getEntries m2) = 2" using e e'(1) by (simp add: sm_getEntries_def)
  have "sg_persist blank_manager" "wo_disk sample_world f = None" "wo_resolve sample_world f = f"
    "length restart_calls = 2" for f
    by (simp_all add: blank_manager_def sample_world_def restart_calls_def)
  with session_survives_restart [OF new _ _ path(2) _ _ run answered _ reopen] path(1) ids0
  have "sm_getEntries m3 = sm_getEntries m2" by auto
  with new run reopen len show ?thesis by blast
qed

text \<open>The file of the new session, through a question and its answer.\<close>

theorem session_file_in_sync_witness:
  "\<exists>m0 w0 m1 w1. newSession \<lparr>ns_id = None, ns_parentSession = None\<rparr> blank_manager sample_world = (m0, w0)
    \<and> sm_run [CallMessage (Llm (sample_user ''x''))] m0 w0 = (m1, w1)
    \<and> (if has_assistant (sg_fileEntries m1)
       then \<exists>ls. wo_disk w1 (the (sg_sessionFile m0)) = Some ls \<and> parseSessionEntries ls = sg_fileEntries m1
       else wo_disk w1 (the (sg_sessionFile m0)) = None)
    \<and> (\<exists>ext. sg_fileEntries m1 = sg_fileEntries m0 @ ext)"
proof -
  let ?o = "\<lparr>ns_id = None, ns_parentSession = None\<rparr>" and ?c = "[CallMessage (Llm (sample_user ''x''))]"
  obtain m0 w0 where new: "newSession ?o blank_manager sample_world = (m0, w0)" by fastforce
  obtain m1 w1 where run: "sm_run ?c m0 w0 = (m1, w1)" by fastforce
  have path: "truthy_str (sg_sessionFile m0)"
    using new by (auto simp: newSession_def Let_def blank_manager_def session_file_path_def sample_world_def
      next_uuid_def time_now_def truthy_str_def)
  have start: "newSession ?o blank_manager sample_world = (m0, w0) \<and> wo_disk sample_world (the (sg_sessionFile m0)) = None"
    using new by (simp add: sample_world_def)
  have ids: "host_ids (wo_host w0) (length ?c) (entry_ids (sm_getEntries m0))"
    using blank_start_ids [OF new] newSession_ok(2) [OF new] by (auto simp: numeral_2_eq_2 intro: less_host_ids)
  have "sg_persist blank_manager" by (simp add: blank_manager_def)
  from session_file_in_sync [OF this path disjI1 [OF start] ids run] new run show ?thesis by blast
qed

section \<open>Two flaws\<close>

text \<open>
  Extracting a branch drops the label entries on it without joining the entries that hung below them to the rest: the
  context of the extracted session then starts after the last such label.
\<close>

definition labelled_entries :: "entry list" where
  "labelled_entries = [sample_entry ''a'' None (MessageEntry (Llm (sample_user ''one''))),
     sample_entry ''l'' (Some ''a'') (LabelEntry (js ''a'') (Some (js ''L''))),
     sample_entry ''b'' (Some ''l'') (MessageEntry (Llm (sample_user ''two'')))]"

lemma generateId_first:
  "\<not> has (take 8 (ho_uuid h (ho_next h))) \<Longrightarrow>
   generateId has h = (take 8 (ho_uuid h (ho_next h)), h\<lparr>ho_next := Suc (ho_next h)\<rparr>)"
  by (simp add: generateId_def generate_id_def numeral_eq_Suc)

lemma createBranched_inMemory:
  assumes "\<not> sg_persist m" and "sm_getBranch (Some i) m = Some p" and "p \<noteq> []"
    and "next_uuid (wo_host w) = (sid, h1)" and "time_now h1 = (ts, h2)"
    and "label_entries (filter (\<lambda>(t, l). t \<in> set (map en_id (filter (\<lambda>e. \<not> is_label e) p))) (sg_labelsById m))
      (sg_labelTimestampsById m) (map en_id (filter (\<lambda>e. \<not> is_label e) p))
      (or_undefined (map_option en_id (last_opt (filter (\<lambda>e. \<not> is_label e) p)))) h2 = (ls, h3)"
  shows "sm_createBranchedSession i m w =
    Some (Inr None, buildIndex (m\<lparr>sg_fileEntries := FHeader \<lparr>sh_version = Some CURRENT_SESSION_VERSION, sh_id = Some sid,
      sh_timestamp = ts, sh_cwd = Some (sg_cwd m), sh_parentSession = None\<rparr>
      # map FEntry (filter (\<lambda>e. \<not> is_label e) p @ ls), sg_sessionId := sid\<rparr>), w\<lparr>wo_host := h3\<rparr>)"
  using assms(3)
  by (simp only: sm_createBranchedSession_def assms(2,4-6) option.case Let_def prod.case if_False if_not_P [OF assms(1)])

lemma branched_session_drops_history:
  "sm_buildSessionContext (\<lambda>t. None) (sample_manager labelled_entries False) =
     Some (buildSessionContext (\<lambda>t. None) labelled_entries)
   \<and> (\<exists>r m' w'. sm_createBranchedSession (js ''b'') (sample_manager labelled_entries False) sample_world =
       Some (Inr r, m', w')
     \<and> map_option sc_messages (sm_buildSessionContext (\<lambda>t. None) m') = Some [Llm (sample_user ''two'')])"
proof -
  let ?m = "sample_manager labelled_entries False"
  let ?a = "sample_entry ''a'' None (MessageEntry (Llm (sample_user ''one'')))"
    and ?b = "sample_entry ''b'' (Some ''l'') (MessageEntry (Llm (sample_user ''two'')))"
  have ok: "sm_ok ?m"
    unfolding sample_manager_def
    by (rule buildIndex_ok)
      (simp add: sm_getEntries_def session_entries_map labelled_entries_def tree_ok_def parent_before_def less_Suc_eq
        sample_entry_def)
  have whole: "branch_of labelled_entries (Some (js ''b'')) = labelled_entries"
    by (simp add: branch_of_def path_to_root_def labelled_entries_def sample_entry_def index_by_def path_from.simps)
  have leaf: "map_option en_id (last_opt labelled_entries) = Some (js ''b'')"
    by (simp add: labelled_entries_def sample_entry_def last_opt_def)
  have before: "sm_buildSessionContext (\<lambda>t. None) ?m = Some (buildSessionContext (\<lambda>t. None) labelled_entries)"
    using sm_context [OF ok, of "\<lambda>t. None"] unfolding sample_manager_fields leaf whole .
  have branch: "sm_getBranch (Some (js ''b'')) ?m = Some labelled_entries"
    using getBranch_ok [OF ok, of "Some (js ''b'')"] whole
    by (simp add: sample_manager_fields) (simp add: labelled_entries_def sample_entry_def)
  have rest: "filter (\<lambda>e. \<not> is_label e) labelled_entries = [?a, ?b]"
    by (simp add: labelled_entries_def is_label_def sample_entry_def)
  have table: "sg_labelsById ?m = [(js ''a'', js ''L'')]"
    unfolding sample_manager_fields
    by (simp add: label_table_def label_step_def labelled_entries_def sample_entry_def)
  obtain sid h1 where sid: "next_uuid (wo_host sample_world) = (sid, h1)" by fastforce
  obtain ts h2 where ts: "time_now h1 = (ts, h2)" by fastforce
  have "ho_uuid h2 (ho_next h2) = counting_uuid 1"
    using sid ts by (auto simp: next_uuid_def time_now_def sample_world_def sample_host_def)
  have long: "replicate 8 (1::code_unit) \<noteq> js [c]" for c
  proof
    assume "replicate 8 (1::code_unit) = js [c]"
    from arg_cong [OF this, of length] show False by simp
  qed
  from \<open>ho_uuid h2 (ho_next h2) = counting_uuid 1\<close> have draw: "generateId (\<lambda>x. x = js ''a'' \<or> x = js ''b'') h2 =
      (replicate 8 1, h2\<lparr>ho_next := Suc (ho_next h2)\<rparr>)"
    using long by (subst generateId_first) (simp_all add: counting_uuid_def)
  obtain l h3 where l: "label_entries (filter (\<lambda>(t, l). t \<in> set (map en_id [?a, ?b])) (sg_labelsById ?m))
      (sg_labelTimestampsById ?m) (map en_id [?a, ?b]) (or_undefined (map_option en_id (last_opt [?a, ?b]))) h2 = ([l], h3)"
    and lab: "en_id l = replicate 8 1" "en_parentId l = Some (js ''b'')" "en_kind l = LabelEntry (js ''a'') (Some (js ''L''))"
    unfolding table by (simp add: sample_entry_def draw last_opt_def)
  from createBranched_inMemory [OF _ branch _ sid ts, unfolded rest, OF _ _ l]
  have res: "sm_createBranchedSession (js ''b'') ?m sample_world = Some (Inr None, buildIndex (?m\<lparr>sg_fileEntries :=
      FHeader \<lparr>sh_version = Some CURRENT_SESSION_VERSION, sh_id = Some sid, sh_timestamp = ts, sh_cwd = Some (sg_cwd ?m),
        sh_parentSession = None\<rparr> # map FEntry ([?a, ?b] @ [l]), sg_sessionId := sid\<rparr>), sample_world\<lparr>wo_host := h3\<rparr>)"
    (is "_ = Some (_, ?m', _)")
    by (simp add: sample_manager_fields labelled_entries_def)
  have entries: "sm_getEntries ?m' = [?a, ?b, l]" by (simp add: sm_getEntries_def)
  have ids: "distinct (map en_id [?a, ?b, l])"
    using lab(1) long by (simp add: sample_entry_def eq_commute [of "js _" "replicate _ _"])
  have byId: "map_of (sg_byId ?m') = index_by en_id [?a, ?b, l]"
    using index_entries_byId [OF ids] map_of_id_table [OF ids]
    by (simp add: buildIndex_def)
  have leaf': "sg_leafId ?m' = Some (replicate 8 1)" using lab(1) by (simp add: sm_getEntries_def last_opt_def)
  have lookup: "index_by en_id [?a, ?b, l] (replicate 8 1) = Some l" "index_by en_id [?a, ?b, l] (js ''b'') = Some ?b"
    "index_by en_id [?a, ?b, l] (js ''l'') = None"
    using index_by_distinct [OF ids, of l] index_by_distinct [OF ids, of ?b] lab(1) long
    by (simp_all add: index_by_None_iff, simp_all add: sample_entry_def eq_commute [of "js _" "replicate _ _"])
  have walked: "walk (Suc (Suc (Suc (Suc 0)))) (index_by en_id [?a, ?b, l]) (Some l) [] = Some [?b, l]"
    using lab(2) lookup by simp (simp add: sample_entry_def)
  have "sm_buildSessionContext (\<lambda>t. None) ?m' = Some (buildSessionContext (\<lambda>t. None) [?b, l])"
    unfolding sm_buildSessionContext_def module_buildSessionContext_def entries byId leaf'
    using walked lookup(1) by (simp add: sm_find_leaf_def)
  moreover have "sc_messages (buildSessionContext (\<lambda>t. None) [?b, l]) = [Llm (sample_user ''two'')]"
    using lab(3) by (simp add: buildSessionContext_def path_messages_def scan_path_def scan_entry_def
      initial_settings_def append_message_def sample_entry_def sample_user_def)
  ultimately have "map_option sc_messages (sm_buildSessionContext (\<lambda>t. None) ?m') = Some [Llm (sample_user ''two'')]"
    by simp
  with before res show ?thesis by blast
qed

text \<open>
  Opening an existing empty file writes the header at once. A session whose first message is not the assistant's then writes its
  header once more, with everything, when the assistant has answered.
\<close>

lemma message_persist:
  assumes "sm_ok m" and "host_ids (wo_host w) (Suc n) (entry_ids (sm_getEntries m))"
    and "sm_apply (CallMessage x) m w = (m', w')"
  obtains e where "en_kind e = MessageEntry x" and "(m', wo_disk w') =
      persist e (m\<lparr>sg_fileEntries := sg_fileEntries m @ [FEntry e], sg_byId := map_set (en_id e) e (sg_byId m),
        sg_leafId := Some (en_id e)\<rparr>) (wo_disk w)"
proof -
  obtain e m1 w1 where e: "append_child (sg_leafId m) (MessageEntry x) m w = (e, m1, w1)" by (metis prod_cases3)
  have "leaf_ok (sm_getEntries m) (sg_leafId m)" using assms(1) by (simp add: sm_ok_def)
  from append_child_ok(2,9) [OF assms(1) this assms(2) e] that assms(3) e show thesis
    by (simp add: sm_appendMessage_def append_kind_def)
qed

lemma empty_file_gets_two_headers:
  assumes "wo_disk w (wo_resolve w f) = Some []" and "wo_resolve w f \<noteq> []" and "sg_persist m"
    and "setSessionFile f m w = (m0, w0)" and "host_ids (wo_host w0) 2 {}"
    and "sm_apply (CallMessage (Llm (UserM u))) m0 w0 = (m1, w1)"
    and "sm_apply (CallMessage (Llm (AssistantM a))) m1 w1 = (m2, w2)"
  shows "\<exists>hdr e1 e2. sg_fileEntries m2 = [FHeader hdr, FEntry e1, FEntry e2]
    \<and> wo_disk w2 (wo_resolve w f) = Some (map ValueLine [FHeader hdr, FHeader hdr, FEntry e1, FEntry e2])"
proof -
  let ?f = "wo_resolve w f"
  have "loadEntriesFromFile (wo_disk w) ?f = []"
    using assms(1) by (simp add: loadEntriesFromFile_def)
  then obtain hdr where m0: "sg_fileEntries m0 = [FHeader hdr]" "sg_flushed m0" "sg_persist m0"
    "sg_sessionFile m0 = Some ?f" "sm_ok m0" and d0: "wo_disk w0 ?f = Some [ValueLine (FHeader hdr)]"
    using assms(1-4) by (auto simp: setSessionFile_def newSession_def Let_def rewriteFile_def sm_ok_def sm_getEntries_def
      split: prod.splits)
  have ids: "host_ids (wo_host w0) (Suc (Suc 0)) (entry_ids (sm_getEntries m0))"
    using assms(5) m0(1) by (simp add: sm_getEntries_def numeral_2_eq_2)
  from message_persist [OF m0(5) ids assms(6)] obtain e1 where e1: "en_kind e1 = MessageEntry (Llm (UserM u))"
    "(m1, wo_disk w1) = persist e1 (m0\<lparr>sg_fileEntries := sg_fileEntries m0 @ [FEntry e1],
      sg_byId := map_set (en_id e1) e1 (sg_byId m0), sg_leafId := Some (en_id e1)\<rparr>) (wo_disk w0)" by metis
  have m1: "sg_fileEntries m1 = [FHeader hdr, FEntry e1]" "\<not> sg_flushed m1" "sg_persist m1" "sg_sessionFile m1 = Some ?f"
    "wo_disk w1 = wo_disk w0"
    using e1 m0(1-4) assms(2) by (simp_all add: persist_def has_assistant_def)
  from sm_apply_ok [OF m0(5) ids assms(6)] have ok1: "sm_ok m1" "host_ids (wo_host w1) (Suc 0) (entry_ids (sm_getEntries m1))"
    by blast+
  from message_persist [OF ok1 assms(7)] obtain e2 where e2: "en_kind e2 = MessageEntry (Llm (AssistantM a))"
    "(m2, wo_disk w2) = persist e2 (m1\<lparr>sg_fileEntries := sg_fileEntries m1 @ [FEntry e2],
      sg_byId := map_set (en_id e2) e2 (sg_byId m1), sg_leafId := Some (en_id e2)\<rparr>) (wo_disk w1)" by metis
  have "sg_fileEntries m2 = [FHeader hdr, FEntry e1, FEntry e2]"
    "wo_disk w2 = (wo_disk w0)(?f \<mapsto> [ValueLine (FHeader hdr)] @ map ValueLine [FHeader hdr, FEntry e1, FEntry e2])"
    using e2 m1 assms(2) d0 by (simp_all add: persist_def has_assistant_def appendFileSync_def)
  then show ?thesis by simp
qed

section \<open>Forking into another project\<close>

lemma load_header: "loadEntriesFromFile d p = es \<Longrightarrow> es \<noteq> [] \<Longrightarrow> find_header es \<noteq> None"
  by (fastforce simp: loadEntriesFromFile_def split: option.splits list.splits file_entry.splits if_splits)

lemma fork_succeeds:
  assumes "loadEntriesFromFile (wo_disk w) src \<noteq> []"
  shows "\<exists>m' w'. sm_forkFrom src cwd dir w = Inr (m', w')"
proof -
  obtain i h1 where i: "next_uuid (wo_host w) = (i, h1)" by fastforce
  obtain t h2 where t: "time_now h1 = (t, h2)" by fastforce
  have "\<exists>m' w'. x = (Inr (m', w') :: jerror + session_manager \<times> world)" if "x = Inr y" for x y
    using that by (cases y) auto
  then show ?thesis
    using assms load_header [OF refl assms] i t unfolding sm_forkFrom_def by (simp add: Let_def)
qed

text \<open>
  Forking a valid session file into another project gives a session that holds exactly the entries of the source file,
  records it as its parent, and leaves the source file as it was; the entries are taken as the file has them, without
  migration. If they are well-formed, so is the new session.
\<close>

theorem fork_copies_session:
  assumes "loadEntriesFromFile (wo_disk w) src = es" and "es \<noteq> []"
    and "sm_forkFrom src cwd dir w = Inr (m', w')"
    and "\<And>i t. wo_disk w (session_file_path w dir t i) = None"
    and "\<And>i t. wo_resolve w (session_file_path w dir t i) = session_file_path w dir t i"
    and "\<And>i t. session_file_path w dir t i \<noteq> []"
  shows "sm_getEntries m' = session_entries es \<and> wo_disk w' src = wo_disk w src
    \<and> (\<exists>hdr. sm_getHeader m' = Some hdr \<and> sh_version hdr = Some 3 \<and> sh_cwd hdr = Some cwd \<and> sh_parentSession hdr = Some src)
    \<and> (tree_ok (session_entries es) \<longrightarrow> sm_ok m')"
proof -
  obtain i h1 where i: "next_uuid (wo_host w) = (i, h1)" by fastforce
  obtain t h2 where t: "time_now h1 = (t, h2)" by fastforce
  let ?f = "session_file_path w dir t i"
  let ?hdr = "\<lparr>sh_version = Some CURRENT_SESSION_VERSION, sh_id = Some i, sh_timestamp = t, sh_cwd = Some cwd,
    sh_parentSession = Some src\<rparr>"
  let ?d = "foldl (\<lambda>d e. appendFileSync ?f (FEntry e) d) (appendFileSync ?f (FHeader ?hdr) (wo_disk w)) (session_entries es)"
  have d: "?d = (wo_disk w)(?f \<mapsto> map ValueLine (FHeader ?hdr # map FEntry (session_entries es)))"
  proof -
    have "foldl (\<lambda>d e. appendFileSync ?f (FEntry e) d) x xs = foldl (\<lambda>d e. appendFileSync ?f e d) x (map FEntry xs)" for x xs
      by (induction xs arbitrary: x) simp_all
    then show ?thesis
      using append_all [of ?f "appendFileSync ?f (FHeader ?hdr) (wo_disk w)" "map FEntry (session_entries es)"] assms(4)
      by (cases "session_entries es = []") (simp_all add: appendFileSync_def fun_eq_iff)
  qed
  have header: "find_header es \<noteq> None"
    using load_header assms(1,2) by blast
  let ?w = "w\<lparr>wo_host := h2, wo_disk := ?d\<rparr>"
  have "new_manager cwd dir (Some ?f) True ?w = (m', w')"
    using assms(3) header assms(2) i t unfolding sm_forkFrom_def assms(1) by (simp add: Let_def)
  then obtain b where set: "setSessionFile ?f b ?w = (m', w')" using assms(6) by (auto simp: new_manager_def)
  have "setSessionFile ?f b ?w = ((buildIndex (b\<lparr>sg_sessionFile := Some (wo_resolve ?w ?f), sg_sessionId := i,
      sg_fileEntries := FHeader ?hdr # map FEntry (session_entries es)\<rparr>))\<lparr>sg_flushed := True\<rparr>, ?w)"
  proof (rule setSessionFile_current)
    show "wo_disk ?w (wo_resolve ?w ?f) = Some (map ValueLine (FHeader ?hdr # map FEntry (session_entries es)))"
      using assms(5) by (simp add: d)
    show "parseSessionEntries (map ValueLine (FHeader ?hdr # map FEntry (session_entries es))) =
        FHeader ?hdr # map FEntry (session_entries es)" by (rule parse_values)
  qed (simp_all add: CURRENT_SESSION_VERSION_def)
  with set have m': "m' = (buildIndex (b\<lparr>sg_sessionFile := Some (wo_resolve ?w ?f), sg_sessionId := i,
      sg_fileEntries := FHeader ?hdr # map FEntry (session_entries es)\<rparr>))\<lparr>sg_flushed := True\<rparr>"
    "w' = ?w" by (metis prod.inject)+
  let ?b = "b\<lparr>sg_sessionFile := Some (wo_resolve ?w ?f), sg_sessionId := i,
      sg_fileEntries := FHeader ?hdr # map FEntry (session_entries es)\<rparr>"
  have entries: "sm_getEntries ?b = session_entries es" by (simp add: sm_getEntries_def session_entries_map)
  have "sm_getEntries m' = session_entries es" using entries by (simp add: m'(1) sm_getEntries_def)
  moreover have "sm_getHeader m' = Some ?hdr" by (simp add: m'(1) sm_getHeader_def)
  moreover have "sm_ok m'" if "tree_ok (session_entries es)"
    using buildIndex_ok [of ?b] that entries by (simp add: m'(1) sm_ok_def sm_getEntries_def)
  moreover have "?f \<noteq> src"
  proof
    assume "?f = src"
    then have "wo_disk w src = None" using assms(4) by metis
    with assms(1,2) show False by (simp add: loadEntriesFromFile_def)
  qed
  then have "wo_disk w' src = wo_disk w src" by (simp add: m'(2) d)
  ultimately show ?thesis by (simp add: CURRENT_SESSION_VERSION_def)
qed

theorem fork_copies_session_witness:
  "let w = sample_world\<lparr>wo_disk := [js ''x'' \<mapsto> map ValueLine (FHeader (sample_header (Some 3)) # map FEntry sample_entries)]\<rparr>
   in \<exists>m' w'. sm_forkFrom (js ''x'') (js ''c'') (js ''d'') w = Inr (m', w') \<and> sm_getEntries m' = sample_entries \<and> sm_ok m'"
proof -
  let ?es = "FHeader (sample_header (Some 3)) # map FEntry sample_entries"
  let ?w = "sample_world\<lparr>wo_disk := [js ''x'' \<mapsto> map ValueLine ?es]\<rparr>"
  have load: "loadEntriesFromFile (wo_disk ?w) (js ''x'') = ?es"
    using parse_values [of ?es] by (simp add: loadEntriesFromFile_def sample_header_def)
  then obtain m' w' where res: "sm_forkFrom (js ''x'') (js ''c'') (js ''d'') ?w = Inr (m', w')"
    using fork_succeeds [of ?w "js ''x''" "js ''c''" "js ''d''"] by auto
  have long: "length (session_file_path ?w (js ''d'') t i) > 1" for t i
    by (simp add: session_file_path_def sample_world_def)
  have fresh: "wo_disk ?w (session_file_path ?w (js ''d'') t i) = None" for i t
    using long [of t i] by auto
  have "session_file_path ?w (js ''d'') t i \<noteq> []" for i t using long [of t i] by auto
  with fork_copies_session [OF load _ res fresh] sample_session_ok res show ?thesis
    by (simp add: sample_world_def session_entries_map session_ok_def)
qed

end
