(* ===== verification/Json_Text.thy ===== *)
theory Json_Text
  imports Utf8 Messages
begin

text \<open>
  \<^verbatim>\<open>JSON.stringify(value)\<close> for the JSON values of the model, without indentation: the members of
  an object come in insertion order, a string is quoted with the language's escapes, a lone surrogate becomes
  an escape as well. Such a value always has a text, so the fallbacks of \<^verbatim>\<open>safeJsonStringify\<close> are not reached.
\<close>

definition hex_digit :: "nat \<Rightarrow> code_unit" where
  "hex_digit d = of_nat (if d < 10 then 48 + d else 87 + d)"

definition unicode_escape :: "code_unit \<Rightarrow> jstr" where
  "unicode_escape c =
     (let n = unat c in
      [0x5C, 0x75, hex_digit (n div 4096), hex_digit (n div 256 mod 16), hex_digit (n div 16 mod 16), hex_digit (n mod 16)])"

fun quote_char :: "jstr \<Rightarrow> jstr" where
  "quote_char [c] =
     (if c = 0x22 \<or> c = 0x5C then [0x5C, c]
      else if c = 8 then [0x5C, 0x62]
      else if c = 9 then [0x5C, 0x74]
      else if c = 10 then [0x5C, 0x6E]
      else if c = 12 then [0x5C, 0x66]
      else if c = 13 then [0x5C, 0x72]
      else if c < 0x20 \<or> surrogate c then unicode_escape c
      else [c])"
| "quote_char u = u"

definition quote_str :: "jstr \<Rightarrow> jstr" where
  "quote_str s = 0x22 # concat (map quote_char (chars s)) @ [0x22]"

fun json_stringify :: "json \<Rightarrow> jstr" where
  "json_stringify JNull = js ''null''"
| "json_stringify (JBool b) = (if b then js ''true'' else js ''false'')"
| "json_stringify (JNum n) = int_text n"
| "json_stringify (JStr s) = quote_str s"
| "json_stringify (JArr xs) = js ''['' @ join_with (js '','') (map json_stringify xs) @ js '']''"
| "json_stringify (JObj ms) =
     js ''{'' @ join_with (js '','') (map (\<lambda>(k, v). quote_str k @ js '':'' @ json_stringify v) ms) @ js ''}''"


end
