(* ===== verification/File_Operations.thy ===== *)
theory File_Operations
  imports Json_Text "HOL-Library.List_Lexorder"
begin

text \<open>
  What summarisation reads off messages: \<^verbatim>\<open>packages/agent/src/harness/compaction/utils.ts\<close> (the same code
  is in \<^verbatim>\<open>coding-agent/src/core/compaction/utils.ts\<close>): the files that tool calls touched, and the text
  of a conversation. A JavaScript \<^verbatim>\<open>Set\<close> of strings is a list without repetition in insertion order;
  \<^verbatim>\<open>sort()\<close> orders strings by code units.
\<close>

section \<open>Files touched\<close>

definition set_add :: "'a list \<Rightarrow> 'a \<Rightarrow> 'a list" where
  "set_add xs x = (if x \<in> set xs then xs else xs @ [x])"

record file_operations =
  fo_read :: "jstr list"
  fo_written :: "jstr list"
  fo_edited :: "jstr list"

definition createFileOps :: file_operations where
  "createFileOps = \<lparr>fo_read = [], fo_written = [], fo_edited = []\<rparr>"

definition call_path :: "tool_call \<Rightarrow> jstr option" where
  "call_path c = (case json_get (call_arguments c) (js ''path'') of Some (JStr p) \<Rightarrow> or_undefined (Some p) | _ \<Rightarrow> None)"

definition add_call :: "file_operations \<Rightarrow> tool_call \<Rightarrow> file_operations" where
  "add_call ops c =
     (case call_path c of
        None \<Rightarrow> ops
      | Some path \<Rightarrow>
          (if call_name c = js ''read'' then ops\<lparr>fo_read := set_add (fo_read ops) path\<rparr>
           else if call_name c = js ''write'' then ops\<lparr>fo_written := set_add (fo_written ops) path\<rparr>
           else if call_name c = js ''edit'' then ops\<lparr>fo_edited := set_add (fo_edited ops) path\<rparr>
           else ops))"

definition extractFileOpsFromMessage :: "file_operations \<Rightarrow> agent_message \<Rightarrow> file_operations" where
  "extractFileOpsFromMessage ops m =
     (case m of Llm (AssistantM a) \<Rightarrow> foldl add_call ops (tool_calls_of (am_content a)) | _ \<Rightarrow> ops)"

record file_lists =
  fl_readFiles :: "jstr list"
  fl_modifiedFiles :: "jstr list"

definition computeFileLists :: "file_operations \<Rightarrow> file_lists" where
  "computeFileLists ops =
     (let modified = foldl set_add [] (fo_edited ops @ fo_written ops);
          readOnly = sort (filter (\<lambda>f. f \<notin> set modified) (fo_read ops))
      in \<lparr>fl_readFiles = readOnly, fl_modifiedFiles = sort modified\<rparr>)"

definition formatFileOperations :: "jstr list \<Rightarrow> jstr list \<Rightarrow> jstr" where
  "formatFileOperations readFiles modifiedFiles =
     (let sections =
        (if readFiles \<noteq> [] then [js ''<read-files>'' @ [LF] @ join_with [LF] readFiles @ [LF] @ js ''</read-files>''] else [])
        @ (if modifiedFiles \<noteq> []
           then [js ''<modified-files>'' @ [LF] @ join_with [LF] modifiedFiles @ [LF] @ js ''</modified-files>''] else [])
      in if sections = [] then [] else [LF, LF] @ join_with [LF, LF] sections)"

section \<open>The text of a conversation\<close>

definition TOOL_RESULT_MAX_CHARS :: nat where
  "TOOL_RESULT_MAX_CHARS = 2000"

definition truncateForSummary :: "jstr \<Rightarrow> nat \<Rightarrow> jstr" where
  "truncateForSummary t maxChars =
     (if length t \<le> maxChars then t
      else take maxChars t @ [LF, LF] @ js ''[... '' @ nat_text (length t - maxChars) @ js '' more characters truncated]'')"

definition block_text :: "content_block list \<Rightarrow> jstr" where
  "block_text bs = concat (map (\<lambda>b. case b of TextBlock t \<Rightarrow> tc_text t | ImageBlock i \<Rightarrow> []) bs)"

text \<open>
  \<^verbatim>\<open>Object.entries(args)\<close>. The arguments of a tool call are an object by their type; of the other JSON
  values an array would show its indexes, and the rest, which have no entries, do not occur.
\<close>

definition object_entries :: "json \<Rightarrow> (jstr \<times> json) list" where
  "object_entries v =
     (case v of JObj ms \<Rightarrow> ms | JArr xs \<Rightarrow> zip (map nat_text [0..<length xs]) xs | _ \<Rightarrow> [])"

definition call_text :: "tool_call \<Rightarrow> jstr" where
  "call_text c =
     call_name c @ js ''(''
     @ join_with (js '', '') (map (\<lambda>(k, v). k @ js ''='' @ json_stringify v) (object_entries (call_arguments c))) @ js '')''"

definition texts_of :: "assistant_block list \<Rightarrow> jstr list" where
  "texts_of bs = concat (map (\<lambda>b. case b of AText t \<Rightarrow> [tc_text t] | _ \<Rightarrow> []) bs)"

definition thinkings_of :: "assistant_block list \<Rightarrow> jstr list" where
  "thinkings_of bs = concat (map (\<lambda>b. case b of AThinking t \<Rightarrow> [th_thinking t] | _ \<Rightarrow> []) bs)"

fun serialize_message :: "message \<Rightarrow> jstr list" where
  "serialize_message (UserM u) =
     (let content = (case um_content u of PlainText t \<Rightarrow> t | Blocks bs \<Rightarrow> block_text bs)
      in if content \<noteq> [] then [js ''[User]: '' @ content] else [])"
| "serialize_message (AssistantM a) =
     (let textParts = texts_of (am_content a);
          thinkingParts = thinkings_of (am_content a);
          toolCalls = map call_text (tool_calls_of (am_content a))
      in (if thinkingParts \<noteq> [] then [js ''[Assistant thinking]: '' @ join_with [LF] thinkingParts] else [])
         @ (if textParts \<noteq> [] then [js ''[Assistant]: '' @ join_with [LF] textParts] else [])
         @ (if toolCalls \<noteq> [] then [js ''[Assistant tool calls]: '' @ join_with (js ''; '') toolCalls] else []))"
| "serialize_message (ToolResultM r) =
     (let content = block_text (tr_content r)
      in if content \<noteq> [] then [js ''[Tool result]: '' @ truncateForSummary content TOOL_RESULT_MAX_CHARS] else [])"

definition serializeConversation :: "message list \<Rightarrow> jstr" where
  "serializeConversation ms = join_with [LF, LF] (concat (map serialize_message ms))"

section \<open>What the file lists hold\<close>

lemma set_set_add [simp]: "set (set_add xs x) = insert x (set xs)"
  by (auto simp: set_add_def)

lemma distinct_set_add [simp]: "distinct (set_add xs x) \<longleftrightarrow> distinct xs"
  by (simp add: set_add_def)

lemma foldl_set_add: "set (foldl set_add xs ys) = set xs \<union> set ys" "distinct xs \<Longrightarrow> distinct (foldl set_add xs ys)"
  by (induction ys arbitrary: xs) auto

text \<open>The files that some call with a given name was for.\<close>

definition touched :: "string \<Rightarrow> agent_message list \<Rightarrow> jstr set" where
  "touched name ms =
     {p. \<exists>a c. Llm (AssistantM a) \<in> set ms \<and> AToolCall c \<in> set (am_content a) \<and> call_name c = js name \<and> call_path c = Some p}"

definition call_files :: "string \<Rightarrow> tool_call list \<Rightarrow> jstr set" where
  "call_files name cs = {p. \<exists>c\<in>set cs. call_name c = js name \<and> call_path c = Some p}"

lemma call_files_Cons:
  "call_files name (c # cs) =
    (case call_path c of Some p \<Rightarrow> if call_name c = js name then insert p (call_files name cs) else call_files name cs
     | None \<Rightarrow> call_files name cs)"
  by (auto simp: call_files_def split: option.splits)

lemma call_files_Nil [simp]: "call_files name [] = {}"
  by (simp add: call_files_def)

lemma add_calls:
  "set (fo_read (foldl add_call ops cs)) = set (fo_read ops) \<union> call_files ''read'' cs"
  "set (fo_written (foldl add_call ops cs)) = set (fo_written ops) \<union> call_files ''write'' cs"
  "set (fo_edited (foldl add_call ops cs)) = set (fo_edited ops) \<union> call_files ''edit'' cs"
  by (induction cs arbitrary: ops) (auto simp: call_files_Cons add_call_def split: option.splits)

lemma distinct_add_calls: "distinct (fo_read ops) \<Longrightarrow> distinct (fo_read (foldl add_call ops cs))"
  by (induction cs arbitrary: ops) (simp_all add: add_call_def split: option.splits)

lemma touched_Nil [simp]: "touched name [] = {}"
  by (simp add: touched_def)

lemma touched_Cons:
  "touched name (m # ms) =
    (case m of Llm (AssistantM a) \<Rightarrow> call_files name (tool_calls_of (am_content a)) | _ \<Rightarrow> {}) \<union> touched name ms"
  by (auto simp: touched_def call_files_def set_tool_calls_of split: agent_message.splits message.splits) blast

lemma touched_append: "touched name (ms @ ns) = touched name ms \<union> touched name ns"
  by (auto simp: touched_def)

lemma extract_files:
  "set (fo_read (foldl extractFileOpsFromMessage ops ms)) = set (fo_read ops) \<union> touched ''read'' ms"
  "set (fo_written (foldl extractFileOpsFromMessage ops ms)) = set (fo_written ops) \<union> touched ''write'' ms"
  "set (fo_edited (foldl extractFileOpsFromMessage ops ms)) = set (fo_edited ops) \<union> touched ''edit'' ms"
  by (induction ms arbitrary: ops)
    (auto simp: touched_Cons extractFileOpsFromMessage_def add_calls split: agent_message.splits message.splits)

lemma distinct_extract: "distinct (fo_read ops) \<Longrightarrow> distinct (fo_read (foldl extractFileOpsFromMessage ops ms))"
  by (induction ms arbitrary: ops)
    (auto simp: extractFileOpsFromMessage_def distinct_add_calls split: agent_message.splits message.splits)

lemma file_lists:
  assumes "distinct (fo_read ops)"
  shows "set (fl_modifiedFiles (computeFileLists ops)) = set (fo_edited ops) \<union> set (fo_written ops)"
    and "set (fl_readFiles (computeFileLists ops)) = set (fo_read ops) - set (fl_modifiedFiles (computeFileLists ops))"
    and "sorted (fl_modifiedFiles (computeFileLists ops)) \<and> distinct (fl_modifiedFiles (computeFileLists ops))"
    and "sorted (fl_readFiles (computeFileLists ops)) \<and> distinct (fl_readFiles (computeFileLists ops))"
  using assms by (auto simp: computeFileLists_def Let_def foldl_set_add)

end
