(* ===== verification/Compaction_Cut.thy ===== *)
theory Compaction_Cut
  imports Session_Context File_Operations
begin

text \<open>
  Where a session is cut when it is compacted: token estimates, valid cut points and \<^verbatim>\<open>findCutPoint\<close> of
  \<^verbatim>\<open>packages/agent/src/harness/compaction/compaction.ts\<close>. The same code is in
  \<^verbatim>\<open>coding-agent/src/core/compaction/compaction.ts\<close>. Token counts and limits are integers; \<open>None\<close> stands for the
  index -1.
\<close>

section \<open>Token estimates\<close>

record compaction_settings =
  cp_enabled :: bool
  cp_reserveTokens :: int
  cp_keepRecentTokens :: int

definition DEFAULT_COMPACTION_SETTINGS :: compaction_settings where
  "DEFAULT_COMPACTION_SETTINGS = \<lparr>cp_enabled = True, cp_reserveTokens = 16384, cp_keepRecentTokens = 20000\<rparr>"

definition calculateContextTokens :: "usage \<Rightarrow> int" where
  "calculateContextTokens u =
     (if us_totalTokens u \<noteq> 0 then us_totalTokens u
      else us_input u + us_output u + us_cacheRead u + us_cacheWrite u)"

definition getAssistantUsage :: "agent_message \<Rightarrow> usage option" where
  "getAssistantUsage m =
     (case m of
        Llm (AssistantM a) \<Rightarrow>
          (if am_stopReason a \<noteq> SR_aborted \<and> am_stopReason a \<noteq> SR_error then Some (am_usage a) else None)
      | _ \<Rightarrow> None)"

text \<open>\<^verbatim>\<open>Math.ceil(chars / 4)\<close>.\<close>

definition quarter :: "nat \<Rightarrow> int" where
  "quarter n = int ((n + 3) div 4)"

definition text_chars :: "content_block list \<Rightarrow> nat" where
  "text_chars bs = sum_list (map (\<lambda>b. case b of TextBlock t \<Rightarrow> length (tc_text t) | ImageBlock i \<Rightarrow> 0) bs)"

definition content_chars :: "content_block list \<Rightarrow> nat" where
  "content_chars bs = sum_list (map (\<lambda>b. case b of TextBlock t \<Rightarrow> length (tc_text t) | ImageBlock i \<Rightarrow> 4800) bs)"

fun assistant_chars :: "assistant_block \<Rightarrow> nat" where
  "assistant_chars (AText t) = length (tc_text t)"
| "assistant_chars (AThinking t) = length (th_thinking t)"
| "assistant_chars (AToolCall c) = length (call_name c) + length (json_stringify (call_arguments c))"

fun estimateTokens :: "agent_message \<Rightarrow> int" where
  "estimateTokens (Llm (UserM u)) =
     quarter (case um_content u of PlainText t \<Rightarrow> length t | Blocks bs \<Rightarrow> text_chars bs)"
| "estimateTokens (Llm (AssistantM a)) = quarter (sum_list (map assistant_chars (am_content a)))"
| "estimateTokens (Llm (ToolResultM r)) = quarter (content_chars (tr_content r))"
| "estimateTokens (CustomMsg m) =
     quarter (case cm_content m of PlainText t \<Rightarrow> length t | Blocks bs \<Rightarrow> content_chars bs)"
| "estimateTokens (BashExecution m) = quarter (length (be_command m) + length (be_output m))"
| "estimateTokens (BranchSummary m) = quarter (length (bs_summary m))"
| "estimateTokens (CompactionSummary m) = quarter (length (cs_summary m))"
| "estimateTokens (HookMsg m) = 0"

record context_usage_estimate =
  cu_tokens :: int
  cu_usageTokens :: int
  cu_trailingTokens :: int
  cu_lastUsageIndex :: "nat option"

text \<open>The messages from the last one back; \<open>i\<close> is the number of those still to see.\<close>

fun last_usage_info :: "agent_message list \<Rightarrow> nat \<Rightarrow> (usage \<times> nat) option" where
  "last_usage_info ms 0 = None"
| "last_usage_info ms (Suc i) =
     (case getAssistantUsage (ms ! i) of Some u \<Rightarrow> Some (u, i) | None \<Rightarrow> last_usage_info ms i)"

definition getLastAssistantUsageInfo :: "agent_message list \<Rightarrow> (usage \<times> nat) option" where
  "getLastAssistantUsageInfo ms = last_usage_info ms (length ms)"

fun last_usage_below :: "entry list \<Rightarrow> nat \<Rightarrow> usage option" where
  "last_usage_below es 0 = None"
| "last_usage_below es (Suc i) =
     (case en_kind (es ! i) of
        MessageEntry m \<Rightarrow> (case getAssistantUsage m of Some u \<Rightarrow> Some u | None \<Rightarrow> last_usage_below es i)
      | _ \<Rightarrow> last_usage_below es i)"

definition getLastAssistantUsage :: "entry list \<Rightarrow> usage option" where
  "getLastAssistantUsage es = last_usage_below es (length es)"

definition estimateContextTokens :: "agent_message list \<Rightarrow> context_usage_estimate" where
  "estimateContextTokens ms =
     (case getLastAssistantUsageInfo ms of
        None \<Rightarrow>
          (let estimated = sum_list (map estimateTokens ms) in
           \<lparr>cu_tokens = estimated, cu_usageTokens = 0, cu_trailingTokens = estimated, cu_lastUsageIndex = None\<rparr>)
      | Some (u, index) \<Rightarrow>
          (let usageTokens = calculateContextTokens u;
               trailingTokens = sum_list (map estimateTokens (drop (index + 1) ms))
           in \<lparr>cu_tokens = usageTokens + trailingTokens, cu_usageTokens = usageTokens,
               cu_trailingTokens = trailingTokens, cu_lastUsageIndex = Some index\<rparr>))"

definition shouldCompact :: "int \<Rightarrow> int \<Rightarrow> compaction_settings \<Rightarrow> bool" where
  "shouldCompact contextTokens contextWindow settings \<longleftrightarrow>
     cp_enabled settings \<and> contextTokens > contextWindow - cp_reserveTokens settings"

section \<open>Cut points\<close>

definition valid_cut :: "entry \<Rightarrow> bool" where
  "valid_cut e =
     (case en_kind e of
        MessageEntry m \<Rightarrow> (case m of Llm (ToolResultM r) \<Rightarrow> False | HookMsg h \<Rightarrow> False | _ \<Rightarrow> True)
      | BranchSummaryEntry f s d h \<Rightarrow> True
      | CustomMessageEntry t c d display \<Rightarrow> True
      | _ \<Rightarrow> False)"

definition findValidCutPoints :: "entry list \<Rightarrow> nat \<Rightarrow> nat \<Rightarrow> nat list" where
  "findValidCutPoints es start end_index = filter (\<lambda>i. valid_cut (es ! i)) [start..<end_index]"

definition starts_turn :: "entry \<Rightarrow> bool" where
  "starts_turn e =
     (case en_kind e of
        MessageEntry m \<Rightarrow> (case m of Llm (UserM u) \<Rightarrow> True | BashExecution b \<Rightarrow> True | _ \<Rightarrow> False)
      | BranchSummaryEntry f s d h \<Rightarrow> True
      | CustomMessageEntry t c d display \<Rightarrow> True
      | _ \<Rightarrow> False)"

text \<open>The search goes down from index \<open>n - 1\<close>.\<close>

fun turn_start_below :: "entry list \<Rightarrow> nat \<Rightarrow> nat \<Rightarrow> nat option" where
  "turn_start_below es start 0 = None"
| "turn_start_below es start (Suc i) =
     (if i < start then None else if starts_turn (es ! i) then Some i else turn_start_below es start i)"

definition findTurnStartIndex :: "entry list \<Rightarrow> nat \<Rightarrow> nat \<Rightarrow> nat option" where
  "findTurnStartIndex es entryIndex start = turn_start_below es start (Suc entryIndex)"

record cut_point_result =
  ct_firstKeptEntryIndex :: nat
  ct_turnStartIndex :: "nat option"
  ct_isSplitTurn :: bool

text \<open>The entry at which the budget of recent tokens is used up, counted from the end.\<close>

fun budget_index :: "entry list \<Rightarrow> int \<Rightarrow> nat \<Rightarrow> nat \<Rightarrow> int \<Rightarrow> nat option" where
  "budget_index es keep start 0 accumulated = None"
| "budget_index es keep start (Suc i) accumulated =
     (if i < start then None
      else
        (case en_kind (es ! i) of
           MessageEntry m \<Rightarrow>
             (let accumulated' = accumulated + estimateTokens m in
              if accumulated' \<ge> keep then Some i else budget_index es keep start i accumulated')
         | _ \<Rightarrow> budget_index es keep start i accumulated))"

definition is_message :: "entry \<Rightarrow> bool" where
  "is_message e = (case en_kind e of MessageEntry m \<Rightarrow> True | _ \<Rightarrow> False)"

text \<open>Entries without a message before the cut are kept too.\<close>

fun back_up :: "entry list \<Rightarrow> nat \<Rightarrow> nat \<Rightarrow> nat" where
  "back_up es start 0 = 0"
| "back_up es start (Suc k) =
     (if \<not> start < Suc k then Suc k
      else if is_compaction (es ! k) then Suc k
      else if is_message (es ! k) then Suc k
      else back_up es start k)"

definition is_user_message :: "entry \<Rightarrow> bool" where
  "is_user_message e = (case en_kind e of MessageEntry (Llm (UserM u)) \<Rightarrow> True | _ \<Rightarrow> False)"

definition chosen_cut :: "entry list \<Rightarrow> nat list \<Rightarrow> nat \<Rightarrow> nat \<Rightarrow> int \<Rightarrow> nat" where
  "chosen_cut es cutPoints start end_index keep =
     (case budget_index es keep start end_index 0 of
        None \<Rightarrow> hd cutPoints
      | Some i \<Rightarrow> (case find (\<lambda>c. c \<ge> i) cutPoints of Some c \<Rightarrow> c | None \<Rightarrow> hd cutPoints))"

definition findCutPoint :: "entry list \<Rightarrow> nat \<Rightarrow> nat \<Rightarrow> int \<Rightarrow> cut_point_result" where
  "findCutPoint es start end_index keep =
     (let cutPoints = findValidCutPoints es start end_index in
      if cutPoints = []
      then \<lparr>ct_firstKeptEntryIndex = start, ct_turnStartIndex = None, ct_isSplitTurn = False\<rparr>
      else
        (let cutIndex = back_up es start (chosen_cut es cutPoints start end_index keep);
             isUserMessage = is_user_message (es ! cutIndex);
             turnStart = (if isUserMessage then None else findTurnStartIndex es cutIndex start)
         in \<lparr>ct_firstKeptEntryIndex = cutIndex, ct_turnStartIndex = turnStart,
             ct_isSplitTurn = (\<not> isUserMessage \<and> turnStart \<noteq> None)\<rparr>))"

section \<open>Where the cut falls\<close>

lemma back_up_le: "back_up es start k \<le> k" "start \<le> k \<Longrightarrow> start \<le> back_up es start k"
  by (induction k) auto

lemma back_up_skips:
  "back_up es start k \<le> j \<Longrightarrow> j < k \<Longrightarrow> \<not> is_message (es ! j) \<and> \<not> is_compaction (es ! j)"
  by (induction k) (auto simp: less_Suc_eq split: if_splits)

lemma turn_start_bounds:
  "turn_start_below es start n = Some j \<Longrightarrow> start \<le> j \<and> j < n \<and> starts_turn (es ! j)"
  by (induction n) (auto split: if_splits)

lemma chosen_cut_in: "cutPoints \<noteq> [] \<Longrightarrow> chosen_cut es cutPoints start end_index keep \<in> set cutPoints"
  by (auto simp: chosen_cut_def find_Some_iff split: option.splits)

lemma find_cut_point:
  fixes es :: "entry list" and keep :: int
  assumes "start \<le> end_index"
  defines "r \<equiv> findCutPoint es start end_index keep"
  shows "start \<le> ct_firstKeptEntryIndex r" and "start < end_index \<Longrightarrow> ct_firstKeptEntryIndex r < end_index"
    and "ct_isSplitTurn r \<Longrightarrow> \<exists>j. ct_turnStartIndex r = Some j \<and> start \<le> j \<and> j \<le> ct_firstKeptEntryIndex r"
    and "ct_firstKeptEntryIndex r = start \<and> \<not> ct_isSplitTurn r \<and> findValidCutPoints es start end_index = []
      \<or> (\<exists>p. ct_firstKeptEntryIndex r \<le> p \<and> p < end_index \<and> valid_cut (es ! p)
           \<and> (\<forall>j. ct_firstKeptEntryIndex r \<le> j \<longrightarrow> j < p \<longrightarrow> \<not> is_message (es ! j) \<and> \<not> is_compaction (es ! j)))"
proof -
  define cps where "cps = findValidCutPoints es start end_index"
  define c where "c = chosen_cut es cps start end_index keep"
  have r: "r = (if cps = [] then \<lparr>ct_firstKeptEntryIndex = start, ct_turnStartIndex = None, ct_isSplitTurn = False\<rparr>
    else (let cutIndex = back_up es start c; isUserMessage = is_user_message (es ! cutIndex);
             turnStart = (if isUserMessage then None else findTurnStartIndex es cutIndex start)
         in \<lparr>ct_firstKeptEntryIndex = cutIndex, ct_turnStartIndex = turnStart,
             ct_isSplitTurn = (\<not> isUserMessage \<and> turnStart \<noteq> None)\<rparr>))"
    unfolding r_def findCutPoint_def cps_def c_def by (simp add: Let_def)
  have c: "start \<le> c" "c < end_index" "valid_cut (es ! c)" if "cps \<noteq> []"
    using chosen_cut_in [OF that, of es start end_index keep] by (auto simp: cps_def c_def findValidCutPoints_def)
  have kept: "ct_firstKeptEntryIndex r = back_up es start c" if "cps \<noteq> []"
    using that by (simp add: r Let_def)
  show "start \<le> ct_firstKeptEntryIndex r"
    using back_up_le(2) c(1) kept by (cases "cps = []") (simp_all add: r)
  show "ct_firstKeptEntryIndex r < end_index" if "start < end_index"
    using that back_up_le(1) [of es start c] c kept by (cases "cps = []") (simp add: r, fastforce)
  show "\<exists>j. ct_turnStartIndex r = Some j \<and> start \<le> j \<and> j \<le> ct_firstKeptEntryIndex r" if "ct_isSplitTurn r"
    using that turn_start_bounds
    by (fastforce simp: r Let_def findTurnStartIndex_def split: if_splits)
  show "ct_firstKeptEntryIndex r = start \<and> \<not> ct_isSplitTurn r \<and> findValidCutPoints es start end_index = []
      \<or> (\<exists>p. ct_firstKeptEntryIndex r \<le> p \<and> p < end_index \<and> valid_cut (es ! p)
           \<and> (\<forall>j. ct_firstKeptEntryIndex r \<le> j \<longrightarrow> j < p \<longrightarrow> \<not> is_message (es ! j) \<and> \<not> is_compaction (es ! j)))"
  proof (cases "cps = []")
    case True
    then show ?thesis by (simp add: r cps_def)
  next
    case False
    with c kept back_up_le(1) [of es start c] back_up_skips [of es start c] show ?thesis by auto
  qed
qed

section \<open>The budget of recent tokens\<close>

definition entry_tokens :: "entry \<Rightarrow> int list" where
  "entry_tokens e = (case en_kind e of MessageEntry m \<Rightarrow> [estimateTokens m] | _ \<Rightarrow> [])"

definition token_list :: "entry list \<Rightarrow> int list" where
  "token_list es = concat (map entry_tokens es)"

lemma token_list_simps [simp]:
  "token_list [] = []" "token_list (e # es) = entry_tokens e @ token_list es"
  "token_list (es @ fs) = token_list es @ token_list fs"
  by (simp_all add: token_list_def)

lemma quarter_nonneg [simp]: "0 \<le> quarter n"
  by (simp add: quarter_def)

lemma estimateTokens_nonneg: "0 \<le> estimateTokens m"
  by (cases m rule: estimateTokens.cases) simp_all

lemma token_list_nonneg: "t \<in> set (token_list es) \<Longrightarrow> 0 \<le> t"
  by (auto simp: token_list_def entry_tokens_def estimateTokens_nonneg split: entry_kind.splits)

lemma sum_tokens_nonneg: "0 \<le> sum_list (token_list es)"
  by (intro sum_list_nonneg) (rule token_list_nonneg)

lemma sum_tokens_drop: "i \<le> j \<Longrightarrow> sum_list (token_list (drop j es)) \<le> sum_list (token_list (drop i es))"
proof -
  assume "i \<le> j"
  then have "drop i es = take (j - i) (drop i es) @ drop j es"
    by (metis append_take_drop_id drop_drop le_add_diff_inverse2)
  then have "sum_list (token_list (drop i es)) =
      sum_list (token_list (take (j - i) (drop i es))) + sum_list (token_list (drop j es))"
    by (metis sum_list_append token_list_simps(3))
  then show ?thesis using sum_tokens_nonneg [of "take (j - i) (drop i es)"] by linarith
qed

lemma sum_tokens_tl: "sum_list (tl (token_list es)) \<le> sum_list (token_list es)"
  using token_list_nonneg [of "hd (token_list es)" es] by (cases "token_list es") simp_all

lemma budget_index_tokens:
  assumes "n \<le> length es" and "acc = sum_list (token_list (drop n es))" and "acc < keep"
  shows "case budget_index es keep start n acc of
      None \<Rightarrow> start \<le> n \<longrightarrow> sum_list (token_list (drop start es)) < keep
    | Some i \<Rightarrow> i < n \<and> start \<le> i \<and> is_message (es ! i) \<and> sum_list (token_list (drop (Suc i) es)) < keep"
  using assms
proof (induction es keep start n acc rule: budget_index.induct)
  case (1 es keep start accumulated)
  then show ?case by simp
next
  case (2 es keep start i acc)
  then have d: "drop i es = es ! i # drop (Suc i) es" by (simp add: Cons_nth_drop_Suc)
  show ?case
  proof (cases "i < start")
    case True
    have "sum_list (token_list (drop start es)) < keep" if "start \<le> Suc i"
    proof -
      from that True have "start = Suc i" by simp
      with "2.prems" show ?thesis by simp
    qed
    with True show ?thesis by simp
  next
    case ge: False
    show ?thesis
    proof (cases "en_kind (es ! i)")
      case (MessageEntry m)
      then have acc: "acc + estimateTokens m = sum_list (token_list (drop i es))"
        using "2.prems"(2) d by (simp add: entry_tokens_def)
      show ?thesis
      proof (cases "keep \<le> acc + estimateTokens m")
        case True
        with ge MessageEntry 2 show ?thesis by (simp add: Let_def is_message_def)
      next
        case False
        with 2(1) [OF ge MessageEntry refl] "2.prems"(1) acc ge MessageEntry show ?thesis
          by (auto simp: Let_def split: option.splits)
      qed
    qed (use 2 ge d in \<open>auto simp: entry_tokens_def split: option.splits\<close>)
  qed
qed

lemma token_list_back_up:
  assumes "start \<le> c" and "c \<le> length es"
  shows "token_list (drop (back_up es start c) es) = token_list (drop c es)"
proof -
  let ?b = "back_up es start c"
  have "token_list (drop j es) = token_list (drop c es)" if "?b \<le> j" "j \<le> c" for j
    using that
  proof (induction "c - j" arbitrary: j)
    case (Suc k)
    then have "drop j es = es ! j # drop (Suc j) es" using assms(2) by (simp add: Cons_nth_drop_Suc)
    moreover from Suc.hyps(2) have "j < c" by simp
    then have "entry_tokens (es ! j) = []"
      using back_up_skips [of es start c j] Suc.prems
      by (auto simp: entry_tokens_def is_message_def split: entry_kind.splits)
    moreover have "token_list (drop (Suc j) es) = token_list (drop c es)"
      using Suc.prems Suc.hyps(2) by (intro Suc.hyps(1)) simp_all
    ultimately show ?case by simp
  qed simp
  then show ?thesis using back_up_le(1) [of es start c] by blast
qed

lemma chosen_cut_budget:
  assumes "start < length es" and "valid_cut (last es)" and "0 < keep"
  defines "cps \<equiv> findValidCutPoints es start (length es)"
  shows "sum_list (tl (token_list (drop (chosen_cut es cps start (length es) keep) es))) < keep"
proof -
  have last: "length es - 1 \<in> set cps"
    using assms(1,2) last_conv_nth [of es] by (cases "es = []") (auto simp: cps_def findValidCutPoints_def)
  have inside: "start \<le> c" if "c \<in> set cps" for c using that by (auto simp: cps_def findValidCutPoints_def)
  have run: "case budget_index es keep start (length es) 0 of
      None \<Rightarrow> start \<le> length es \<longrightarrow> sum_list (token_list (drop start es)) < keep
    | Some i \<Rightarrow> i < length es \<and> start \<le> i \<and> is_message (es ! i) \<and> sum_list (token_list (drop (Suc i) es)) < keep"
    by (rule budget_index_tokens) (use assms(3) in simp_all)
  show ?thesis
  proof (cases "budget_index es keep start (length es) 0")
    case None
    then have cut: "chosen_cut es cps start (length es) keep = hd cps" by (simp add: chosen_cut_def)
    from last have "hd cps \<in> set cps" by (cases cps) simp_all
    from inside [OF this] have "sum_list (token_list (drop (hd cps) es)) \<le> sum_list (token_list (drop start es))"
      by (rule sum_tokens_drop)
    with run None assms(1) sum_tokens_tl [of "drop (hd cps) es"] show ?thesis unfolding cut by simp
  next
    case (Some i)
    with run have i: "i < length es" "is_message (es ! i)" "sum_list (token_list (drop (Suc i) es)) < keep" by simp_all
    from last i(1) have "find (\<lambda>c. i \<le> c) cps \<noteq> None" by (auto simp: find_None_iff)
    then obtain c where c: "find (\<lambda>c. i \<le> c) cps = Some c" by blast
    then have "i \<le> c" by (auto simp: find_Some_iff)
    have cut: "chosen_cut es cps start (length es) keep = c" using Some c by (simp add: chosen_cut_def)
    show ?thesis
    proof (cases "c = i")
      case True
      have "drop i es = es ! i # drop (Suc i) es" using i(1) by (simp add: Cons_nth_drop_Suc)
      with i(2,3) True show ?thesis unfolding cut by (auto simp: entry_tokens_def is_message_def split: entry_kind.splits)
    next
      case False
      with \<open>i \<le> c\<close> have "sum_list (token_list (drop c es)) \<le> sum_list (token_list (drop (Suc i) es))"
        by (intro sum_tokens_drop) simp
      with i(3) sum_tokens_tl [of "drop c es"] show ?thesis unfolding cut by linarith
    qed
  qed
qed

end
