(* ===== verification/Compaction.thy ===== *)
theory Compaction
  imports Compaction_Cut Compaction_Prompts
begin

text \<open>
  Preparing and writing the summary that replaces the older part of a session:
  \<^verbatim>\<open>prepareCompaction\<close>, \<^verbatim>\<open>generateSummary\<close> and \<^verbatim>\<open>compact\<close> of
  \<^verbatim>\<open>packages/agent/src/harness/compaction/compaction.ts\<close>, and \<^verbatim>\<open>prepareCompaction\<close> of
  \<^verbatim>\<open>coding-agent/src/core/compaction/compaction.ts\<close>. The call of the model (\<^verbatim>\<open>completeSimple\<close>) is a
  parameter. Of two requests made together, the first is taken before the second.
\<close>

section \<open>Preparation\<close>

datatype compaction_error_code = CE_aborted | CE_summarization_failed | CE_invalid_session | CE_unknown

record compaction_error =
  ce_code :: compaction_error_code
  ce_message :: jstr

definition getMessageFromEntry :: "(jstr \<Rightarrow> jtime) \<Rightarrow> entry \<Rightarrow> agent_message option" where
  "getMessageFromEntry get_time e =
     (case en_kind e of
        MessageEntry m \<Rightarrow> Some m
      | CustomMessageEntry t c d display \<Rightarrow>
          Some (CustomMsg (createCustomMessage get_time t c display d (en_timestamp e)))
      | BranchSummaryEntry from_id summary d h \<Rightarrow>
          Some (BranchSummary (createBranchSummaryMessage get_time summary from_id (en_timestamp e)))
      | CompactionEntry d \<Rightarrow>
          Some (CompactionSummary (createCompactionSummaryMessage get_time (cd_summary d) (cd_tokensBefore d) (en_timestamp e)))
      | _ \<Rightarrow> None)"

definition getMessageFromEntryForCompaction :: "(jstr \<Rightarrow> jtime) \<Rightarrow> entry \<Rightarrow> agent_message option" where
  "getMessageFromEntryForCompaction get_time e = (if is_compaction e then None else getMessageFromEntry get_time e)"

text \<open>The messages of the entries with index \<open>i \<le> j < k\<close>.\<close>

definition messages_between :: "(jstr \<Rightarrow> jtime) \<Rightarrow> entry list \<Rightarrow> nat \<Rightarrow> nat \<Rightarrow> agent_message list" where
  "messages_between get_time es i k =
     concat (map (\<lambda>j. case getMessageFromEntryForCompaction get_time (es ! j) of Some m \<Rightarrow> [m] | None \<Rightarrow> []) [i..<k])"

definition json_strings :: "json option \<Rightarrow> jstr list" where
  "json_strings v = (case v of Some (JArr xs) \<Rightarrow> concat (map (\<lambda>x. case x of JStr s \<Rightarrow> [s] | _ \<Rightarrow> []) xs) | _ \<Rightarrow> [])"

text \<open>The file lists in the details of an earlier compaction are lists of strings by their type.\<close>

definition previous_file_ops :: "compaction_data \<Rightarrow> file_operations" where
  "previous_file_ops d =
     (if cd_fromHook d = Some True then createFileOps
      else
        (case cd_details d of
           None \<Rightarrow> createFileOps
         | Some v \<Rightarrow>
             \<lparr>fo_read = foldl set_add [] (json_strings (json_get v (js ''readFiles''))), fo_written = [],
              fo_edited = foldl set_add [] (json_strings (json_get v (js ''modifiedFiles'')))\<rparr>))"

definition extractFileOperations :: "agent_message list \<Rightarrow> compaction_data option \<Rightarrow> file_operations" where
  "extractFileOperations ms prev =
     foldl extractFileOpsFromMessage (case prev of None \<Rightarrow> createFileOps | Some d \<Rightarrow> previous_file_ops d) ms"

fun last_compaction_below :: "entry list \<Rightarrow> nat \<Rightarrow> (nat \<times> compaction_data) option" where
  "last_compaction_below es 0 = None"
| "last_compaction_below es (Suc i) =
     (case en_kind (es ! i) of CompactionEntry d \<Rightarrow> Some (i, d) | _ \<Rightarrow> last_compaction_below es i)"

definition boundary_start :: "entry list \<Rightarrow> (nat \<times> compaction_data) option \<Rightarrow> nat" where
  "boundary_start es prev =
     (case prev of
        None \<Rightarrow> 0
      | Some (p, d) \<Rightarrow>
          (case find_index (\<lambda>e. en_id e = cd_firstKeptEntryId d) es of Some i \<Rightarrow> i | None \<Rightarrow> p + 1))"

record compaction_preparation =
  pr_firstKeptEntryId :: jstr
  pr_messagesToSummarize :: "agent_message list"
  pr_turnPrefixMessages :: "agent_message list"
  pr_isSplitTurn :: bool
  pr_tokensBefore :: int
  pr_previousSummary :: "jstr option"
  pr_fileOps :: file_operations
  pr_settings :: compaction_settings

definition first_kept_error :: compaction_error where
  "first_kept_error = \<lparr>ce_code = CE_invalid_session,
     ce_message = js ''First kept entry has no UUID - session may need migration''\<rparr>"

definition ends_compacted :: "entry list \<Rightarrow> bool" where
  "ends_compacted es \<longleftrightarrow> (case last_opt es of Some e \<Rightarrow> is_compaction e | None \<Rightarrow> False)"

definition prepare_path :: "(jstr \<Rightarrow> jtime) \<Rightarrow> entry list \<Rightarrow> compaction_settings \<Rightarrow> compaction_preparation option" where
  "prepare_path get_time es settings =
     (let prev = last_compaction_below es (length es);
          start = boundary_start es prev;
          cut = findCutPoint es start (length es) (cp_keepRecentTokens settings);
          first = ct_firstKeptEntryIndex cut
      in case nth_opt es first of
           None \<Rightarrow> None
         | Some e \<Rightarrow>
             (if en_id e = [] then None
              else
                (let historyEnd = (if ct_isSplitTurn cut then the (ct_turnStartIndex cut) else first);
                     toSummarize = messages_between get_time es start historyEnd;
                     turnPrefix = (if ct_isSplitTurn cut then messages_between get_time es (the (ct_turnStartIndex cut)) first else [])
                 in Some \<lparr>pr_firstKeptEntryId = en_id e, pr_messagesToSummarize = toSummarize,
                      pr_turnPrefixMessages = turnPrefix, pr_isSplitTurn = ct_isSplitTurn cut,
                      pr_tokensBefore = cu_tokens (estimateContextTokens (sc_messages (buildSessionContext get_time es))),
                      pr_previousSummary = map_option (\<lambda>(p, d). cd_summary d) prev,
                      pr_fileOps = foldl extractFileOpsFromMessage (extractFileOperations toSummarize (map_option snd prev)) turnPrefix,
                      pr_settings = settings\<rparr>)))"

text \<open>
  The two functions differ where there is nothing to compact: that of the harness reports an empty path
  as such and a missing id as an error, that of the coding agent gives \<^verbatim>\<open>undefined\<close>.
\<close>

definition prepareCompaction ::
  "(jstr \<Rightarrow> jtime) \<Rightarrow> entry list \<Rightarrow> compaction_settings \<Rightarrow> compaction_error + compaction_preparation option" where
  "prepareCompaction get_time es settings =
     (if es = [] \<or> ends_compacted es then Inr None
      else (case prepare_path get_time es settings of None \<Rightarrow> Inl first_kept_error | Some p \<Rightarrow> Inr (Some p)))"

definition ca_prepareCompaction ::
  "(jstr \<Rightarrow> jtime) \<Rightarrow> entry list \<Rightarrow> compaction_settings \<Rightarrow> compaction_preparation option" where
  "ca_prepareCompaction get_time es settings =
     (if es \<noteq> [] \<and> ends_compacted es then None else prepare_path get_time es settings)"

section \<open>Summaries\<close>

record completion_options =
  co_maxTokens :: int
  co_apiKey :: jstr
  co_headers :: "(jstr \<times> jstr) list option"
  co_reasoning :: "thinking_level option"

text \<open>A request: the model, the system prompt, the text of the one user message, and the options.\<close>

type_synonym 'w completion =
  "llm_model \<Rightarrow> jstr \<Rightarrow> jstr \<Rightarrow> completion_options \<Rightarrow> 'w \<Rightarrow> (jerror + assistant_message) \<times> 'w"

definition max_summary_tokens :: "int \<Rightarrow> int \<Rightarrow> int \<Rightarrow> llm_model \<Rightarrow> int" where
  "max_summary_tokens num den reserveTokens model =
     (let n = (num * reserveTokens) div den in
      if model_maxTokens model > 0 then min n (model_maxTokens model) else n)"

definition summary_options ::
  "int \<Rightarrow> llm_model \<Rightarrow> jstr \<Rightarrow> (jstr \<times> jstr) list option \<Rightarrow> thinking_level option \<Rightarrow> completion_options" where
  "summary_options maxTokens model apiKey headers level =
     \<lparr>co_maxTokens = maxTokens, co_apiKey = apiKey, co_headers = headers,
      co_reasoning = (if model_reasoning model \<and> level \<noteq> Some TL_off then level else None)\<rparr>"

text \<open>What a response is read as; \<open>what\<close> names the summary in messages.\<close>

definition summary_result :: "jstr \<Rightarrow> assistant_message \<Rightarrow> compaction_error + jstr" where
  "summary_result what r =
     (if am_stopReason r = SR_aborted
      then Inl \<lparr>ce_code = CE_aborted, ce_message = or_str (am_errorMessage r) (what @ js '' aborted'')\<rparr>
      else if am_stopReason r = SR_error
      then Inl \<lparr>ce_code = CE_summarization_failed,
                ce_message = what @ js '' failed: '' @ or_str (am_errorMessage r) (js ''Unknown error'')\<rparr>
      else Inr (join_with [LF] (texts_of (am_content r))))"

definition conversation_text :: "agent_message list \<Rightarrow> jstr" where
  "conversation_text ms =
     js ''<conversation>'' @ [LF] @ serializeConversation (convertToLlm ms) @ [LF] @ js ''</conversation>'' @ [LF, LF]"

definition summary_prompt :: "agent_message list \<Rightarrow> jstr option \<Rightarrow> jstr option \<Rightarrow> jstr" where
  "summary_prompt ms customInstructions previousSummary =
     (let basePrompt = (if truthy_str previousSummary then UPDATE_SUMMARIZATION_PROMPT else SUMMARIZATION_PROMPT)
            @ (if truthy_str customInstructions then [LF, LF] @ js ''Additional focus: '' @ the customInstructions else [])
      in conversation_text ms
         @ (if truthy_str previousSummary
            then js ''<previous-summary>'' @ [LF] @ the previousSummary @ [LF] @ js ''</previous-summary>'' @ [LF, LF] else [])
         @ basePrompt)"

definition generateSummary ::
  "'w completion \<Rightarrow> agent_message list \<Rightarrow> llm_model \<Rightarrow> int \<Rightarrow> jstr \<Rightarrow> (jstr \<times> jstr) list option \<Rightarrow> jstr option \<Rightarrow>
   jstr option \<Rightarrow> thinking_level option \<Rightarrow> 'w \<Rightarrow> (jerror + (compaction_error + jstr)) \<times> 'w" where
  "generateSummary ask ms model reserveTokens apiKey headers customInstructions previousSummary level w =
     (let (r, w) = ask model SUMMARIZATION_SYSTEM_PROMPT (summary_prompt ms customInstructions previousSummary)
            (summary_options (max_summary_tokens 4 5 reserveTokens model) model apiKey headers level) w
      in (case r of Inl e \<Rightarrow> (Inl e, w) | Inr m \<Rightarrow> (Inr (summary_result (js ''Summarization'') m), w)))"

definition generateTurnPrefixSummary ::
  "'w completion \<Rightarrow> agent_message list \<Rightarrow> llm_model \<Rightarrow> int \<Rightarrow> jstr \<Rightarrow> (jstr \<times> jstr) list option \<Rightarrow>
   thinking_level option \<Rightarrow> 'w \<Rightarrow> (jerror + (compaction_error + jstr)) \<times> 'w" where
  "generateTurnPrefixSummary ask ms model reserveTokens apiKey headers level w =
     (let (r, w) = ask model SUMMARIZATION_SYSTEM_PROMPT (conversation_text ms @ TURN_PREFIX_SUMMARIZATION_PROMPT)
            (summary_options (max_summary_tokens 1 2 reserveTokens model) model apiKey headers level) w
      in (case r of Inl e \<Rightarrow> (Inl e, w) | Inr m \<Rightarrow> (Inr (summary_result (js ''Turn prefix summarization'') m), w)))"

record compaction_result =
  cr_summary :: jstr
  cr_firstKeptEntryId :: jstr
  cr_tokensBefore :: int
  cr_details :: json

definition file_details :: "file_lists \<Rightarrow> json" where
  "file_details l =
     JObj [(js ''readFiles'', JArr (map JStr (fl_readFiles l))), (js ''modifiedFiles'', JArr (map JStr (fl_modifiedFiles l)))]"

definition compaction_outcome :: "compaction_preparation \<Rightarrow> jstr \<Rightarrow> compaction_result" where
  "compaction_outcome p summary =
     (let l = computeFileLists (pr_fileOps p) in
      \<lparr>cr_summary = summary @ formatFileOperations (fl_readFiles l) (fl_modifiedFiles l),
       cr_firstKeptEntryId = pr_firstKeptEntryId p, cr_tokensBefore = pr_tokensBefore p, cr_details = file_details l\<rparr>)"

definition compact ::
  "'w completion \<Rightarrow> compaction_preparation \<Rightarrow> llm_model \<Rightarrow> jstr \<Rightarrow> (jstr \<times> jstr) list option \<Rightarrow> jstr option \<Rightarrow>
   thinking_level option \<Rightarrow> 'w \<Rightarrow> (jerror + (compaction_error + compaction_result)) \<times> 'w" where
  "compact ask p model apiKey headers customInstructions level w =
     (if pr_firstKeptEntryId p = [] then (Inr (Inl first_kept_error), w)
      else if pr_isSplitTurn p \<and> length (pr_turnPrefixMessages p) > 0
      then
        (let (h, w) =
               (if length (pr_messagesToSummarize p) > 0
                then generateSummary ask (pr_messagesToSummarize p) model (cp_reserveTokens (pr_settings p)) apiKey headers
                       customInstructions (pr_previousSummary p) level w
                else (Inr (Inr (js ''No prior history.'')), w));
             (t, w) = generateTurnPrefixSummary ask (pr_turnPrefixMessages p) model (cp_reserveTokens (pr_settings p))
                        apiKey headers level w
         in case (h, t) of
              (Inl e, _) \<Rightarrow> (Inl e, w)
            | (_, Inl e) \<Rightarrow> (Inl e, w)
            | (Inr (Inl e), _) \<Rightarrow> (Inr (Inl e), w)
            | (_, Inr (Inl e)) \<Rightarrow> (Inr (Inl e), w)
            | (Inr (Inr history), Inr (Inr turnPrefix)) \<Rightarrow>
                (Inr (Inr (compaction_outcome p (history @ [LF, LF] @ js ''---'' @ [LF, LF]
                   @ js ''**Turn Context (split turn):**'' @ [LF, LF] @ turnPrefix))), w))
      else
        (let (h, w) = generateSummary ask (pr_messagesToSummarize p) model (cp_reserveTokens (pr_settings p)) apiKey headers
               customInstructions (pr_previousSummary p) level w
         in case h of
              Inl e \<Rightarrow> (Inl e, w)
            | Inr (Inl e) \<Rightarrow> (Inr (Inl e), w)
            | Inr (Inr summary) \<Rightarrow> (Inr (Inr (compaction_outcome p summary)), w)))"

section \<open>Paths that compaction is for\<close>

text \<open>
  Entries have distinct ids, branch summaries have a text, and a compaction keeps from an entry before it: what the
  sessions of this model keep.
\<close>

definition entry_ok :: "entry list \<Rightarrow> nat \<Rightarrow> bool" where
  "entry_ok es i \<longleftrightarrow>
     (case en_kind (es ! i) of
        CompactionEntry d \<Rightarrow> cd_firstKeptEntryId d \<notin> en_id ` set (drop i es)
      | BranchSummaryEntry f s d h \<Rightarrow> s \<noteq> []
      | _ \<Rightarrow> True)"

definition kept_ids :: "entry list \<Rightarrow> jstr set" where
  "kept_ids es = (\<Union>e\<in>set es. case en_kind e of CompactionEntry d \<Rightarrow> {cd_firstKeptEntryId d} | _ \<Rightarrow> {})"

definition compaction_path :: "entry list \<Rightarrow> bool" where
  "compaction_path es \<longleftrightarrow> distinct (map en_id es) \<and> (\<forall>i<length es. entry_ok es i)"

lemma append_message_entry:
  assumes "\<And>f d h. en_kind e \<noteq> BranchSummaryEntry f [] d h"
  shows "append_message t e = (case getMessageFromEntryForCompaction t e of Some m \<Rightarrow> [m] | None \<Rightarrow> [])"
  using assms
  by (auto simp: append_message_def getMessageFromEntryForCompaction_def getMessageFromEntry_def is_compaction_def
      split: entry_kind.splits)

lemma compaction_path_summary:
  "compaction_path es \<Longrightarrow> i < length es \<Longrightarrow> en_kind (es ! i) \<noteq> BranchSummaryEntry f [] d h"
  by (auto simp: compaction_path_def entry_ok_def split: entry_kind.splits)

lemma messages_between_split:
  "i \<le> k \<Longrightarrow> k \<le> m \<Longrightarrow> messages_between t es i m = messages_between t es i k @ messages_between t es k m"
proof -
  assume "i \<le> k" "k \<le> m"
  then have "[i..<m] = [i..<k] @ [k..<m]" by (metis le_Suc_ex upt_add_eq_append)
  then show ?thesis by (simp add: messages_between_def)
qed

lemma messages_between_empty [simp]: "messages_between t es i i = []"
  by (simp add: messages_between_def)

lemma messages_between_drop:
  assumes "compaction_path es" and "i \<le> length es"
  shows "messages_between t es i (length es) = concat (map (append_message t) (drop i es))"
  using assms(2)
proof (induction "length es - i" arbitrary: i)
  case 0
  then show ?case by simp
next
  case (Suc k)
  then have i: "i < length es" by simp
  then have "messages_between t es i (length es) = messages_between t es i (Suc i) @ messages_between t es (Suc i) (length es)"
    by (intro messages_between_split) simp_all
  moreover have "messages_between t es i (Suc i) = append_message t (es ! i)"
    using append_message_entry [of "es ! i" t] compaction_path_summary [OF assms(1) i] by (simp add: messages_between_def)
  moreover have "drop i es = es ! i # drop (Suc i) es" using i by (simp add: Cons_nth_drop_Suc)
  moreover have "messages_between t es (Suc i) (length es) = concat (map (append_message t) (drop (Suc i) es))"
    using Suc.hyps(2) i by (intro Suc.hyps(1)) simp_all
  ultimately show ?case by simp
qed

lemma last_compaction_below_None:
  "last_compaction_below es n = None \<Longrightarrow> n \<le> length es \<Longrightarrow> \<forall>e\<in>set (take n es). \<not> is_compaction e"
proof (induction n)
  case (Suc n)
  then show ?case by (auto simp: take_Suc_conv_app_nth is_compaction_def split: entry_kind.splits)
qed simp

lemma last_compaction_below_Some:
  "last_compaction_below es n = Some (p, d) \<Longrightarrow> n \<le> length es \<Longrightarrow>
   p < n \<and> en_kind (es ! p) = CompactionEntry d \<and> (\<forall>j. p < j \<longrightarrow> j < n \<longrightarrow> \<not> is_compaction (es ! j))"
proof (induction n)
  case (Suc n)
  then show ?case by (auto simp: is_compaction_def less_Suc_eq split: entry_kind.splits)
qed simp

lemma dropWhile_id:
  assumes "distinct (map en_id es)" and "i < length es"
  shows "dropWhile (\<lambda>e. en_id e \<noteq> en_id (es ! i)) es = drop i es"
proof -
  have "takeWhile (\<lambda>e. en_id e \<noteq> en_id (es ! i)) es = take i es"
  proof (rule takeWhile_eq_take_P_nth)
    fix j assume "j < i" "j < length es"
    with assms show "en_id (es ! j) \<noteq> en_id (es ! i)"
      using nth_eq_iff_index_eq [OF assms(1), of j i] by simp
  qed (use assms(2) in simp)
  then show ?thesis by (metis append_take_drop_id takeWhile_dropWhile_id same_append_eq)
qed

section \<open>The context before compaction\<close>

definition previous_summary :: "(jstr \<Rightarrow> jtime) \<Rightarrow> entry list \<Rightarrow> agent_message list" where
  "previous_summary get_time es =
     (case last_compaction_below es (length es) of
        None \<Rightarrow> []
      | Some (p, d) \<Rightarrow>
          [CompactionSummary (createCompactionSummaryMessage get_time (cd_summary d) (cd_tokensBefore d) (en_timestamp (es ! p)))])"

lemma boundary_start_le: "boundary_start es (last_compaction_below es (length es)) \<le> length es"
  using last_compaction_below_Some [of es "length es"]
  by (auto simp: boundary_start_def dest!: find_index_SomeD split: option.splits)

lemma context_from_boundary:
  assumes "compaction_path es"
  shows "path_messages t es = previous_summary t es
    @ concat (map (append_message t) (drop (boundary_start es (last_compaction_below es (length es))) es))"
proof (cases "last_compaction_below es (length es)")
  case None
  from last_compaction_below_None [OF this] have "\<forall>e\<in>set es. \<not> is_compaction e" by simp
  with None show ?thesis by (simp add: previous_summary_def boundary_start_def path_messages_plain)
next
  case (Some pd)
  obtain p d where pd: "pd = (p, d)" by (cases pd)
  from last_compaction_below_Some [of es "length es" p d] Some pd
  have p: "p < length es" "en_kind (es ! p) = CompactionEntry d"
    and last: "\<forall>j. p < j \<longrightarrow> j < length es \<longrightarrow> \<not> is_compaction (es ! j)" by auto
  define pre c post where "pre = take p es" and "c = es ! p" and "post = drop (Suc p) es"
  have es: "es = pre @ c # post" using p(1) by (simp add: pre_def c_def post_def id_take_nth_drop [symmetric])
  have post: "\<forall>e\<in>set post. \<not> is_compaction e"
    using last by (auto simp: post_def in_set_conv_nth)
  have dist: "distinct (map en_id (pre @ c # post))" using assms es by (simp add: compaction_path_def)
  have c: "en_kind c = CompactionEntry d" "append_message t c = []"
    using p(2) by (simp_all add: c_def append_message_def)
  let ?fk = "cd_firstKeptEntryId d"
  have kept: "concat (map (append_message t) (dropWhile (\<lambda>e. en_id e \<noteq> ?fk) pre)) @ concat (map (append_message t) post)
    = concat (map (append_message t) (drop (boundary_start es (Some (p, d))) es))"
  proof (cases "find_index (\<lambda>e. en_id e = ?fk) es")
    case None
    then have "dropWhile (\<lambda>e. en_id e \<noteq> ?fk) pre = []"
      using es by (auto simp: find_index_None_iff dropWhile_eq_Nil_conv)
    moreover have "drop (p + 1) es = post" by (simp add: post_def)
    ultimately show ?thesis using None by (simp add: boundary_start_def del: dropWhile_eq_Nil_conv)
  next
    case (Some i)
    from find_index_SomeD [OF this] have i: "i < length es" "en_id (es ! i) = ?fk" by auto
    have "entry_ok es p" using assms p(1) by (simp add: compaction_path_def)
    then have "?fk \<notin> en_id ` set (drop p es)" using p(2) by (simp add: entry_ok_def)
    moreover have "en_id (es ! i) \<in> en_id ` set (drop p es)" if "p \<le> i"
    proof -
      from that i(1) have "es ! i = drop p es ! (i - p)" "i - p < length (drop p es)" by simp_all
      then show ?thesis by (metis imageI nth_mem)
    qed
    ultimately have less: "i < p" using i(2) by force
    then have pre_i: "pre ! i = es ! i" "i < length pre" using p(1) by (simp_all add: pre_def)
    have "distinct (map en_id pre)" using dist by simp
    from dropWhile_id [OF this pre_i(2)] have "dropWhile (\<lambda>e. en_id e \<noteq> ?fk) pre = drop i pre"
      using i(2) pre_i(1) by simp
    moreover have "drop i es = drop i pre @ c # post" using pre_i(2) by (simp add: es)
    ultimately show ?thesis using Some c(2) by (simp add: boundary_start_def)
  qed
  have "path_messages t es =
     CompactionSummary (createCompactionSummaryMessage t (cd_summary d) (cd_tokensBefore d) (en_timestamp c))
     # concat (map (append_message t) (dropWhile (\<lambda>e. en_id e \<noteq> ?fk) pre)) @ concat (map (append_message t) post)"
    using path_messages_compaction [OF dist c(1) post, of t] by (simp only: es [symmetric])
  with kept Some pd show ?thesis by (simp add: previous_summary_def c_def)
qed

section \<open>What compaction does to the context\<close>

text \<open>A prepared compaction, unfolded.\<close>

lemma prepare_path_unfold:
  assumes "prepare_path t es settings = Some p"
  obtains start first k where
    "start = boundary_start es (last_compaction_below es (length es))"
    and "first = ct_firstKeptEntryIndex (findCutPoint es start (length es) (cp_keepRecentTokens settings))"
    and "start \<le> k" and "k \<le> first" and "first < length es"
    and "pr_firstKeptEntryId p = en_id (es ! first)" and "en_id (es ! first) \<noteq> []"
    and "pr_messagesToSummarize p = messages_between t es start k"
    and "pr_turnPrefixMessages p = messages_between t es k first"
    and "pr_isSplitTurn p \<or> k = first"
    and "pr_fileOps p = foldl extractFileOpsFromMessage
      (extractFileOperations (messages_between t es start k) (map_option snd (last_compaction_below es (length es))))
      (messages_between t es k first)"
    and "pr_previousSummary p = map_option (\<lambda>(p, d). cd_summary d) (last_compaction_below es (length es))"
proof -
  define start where "start = boundary_start es (last_compaction_below es (length es))"
  define cut where "cut = findCutPoint es start (length es) (cp_keepRecentTokens settings)"
  define first where "first = ct_firstKeptEntryIndex cut"
  define k where "k = (if ct_isSplitTurn cut then the (ct_turnStartIndex cut) else first)"
  have bound: "start \<le> length es" unfolding start_def by (rule boundary_start_le)
  from find_cut_point(1) [OF bound] have "start \<le> first" by (simp add: first_def cut_def)
  moreover from find_cut_point(3) [OF bound, of es "cp_keepRecentTokens settings"]
  have "ct_isSplitTurn cut \<Longrightarrow> start \<le> k \<and> k \<le> first" by (auto simp: k_def first_def cut_def)
  ultimately have k: "start \<le> k" "k \<le> first" by (auto simp: k_def)
  from assms have len: "first < length es"
    by (auto simp: prepare_path_def Let_def nth_opt_def first_def cut_def start_def split: if_splits)
  from assms len have p: "p = \<lparr>pr_firstKeptEntryId = en_id (es ! first), pr_messagesToSummarize = messages_between t es start k,
      pr_turnPrefixMessages = (if ct_isSplitTurn cut then messages_between t es (the (ct_turnStartIndex cut)) first else []),
      pr_isSplitTurn = ct_isSplitTurn cut,
      pr_tokensBefore = cu_tokens (estimateContextTokens (sc_messages (buildSessionContext t es))),
      pr_previousSummary = map_option (\<lambda>(p, d). cd_summary d) (last_compaction_below es (length es)),
      pr_fileOps = foldl extractFileOpsFromMessage
        (extractFileOperations (messages_between t es start k) (map_option snd (last_compaction_below es (length es))))
        (if ct_isSplitTurn cut then messages_between t es (the (ct_turnStartIndex cut)) first else []),
      pr_settings = settings\<rparr>" and id: "en_id (es ! first) \<noteq> []"
    by (auto simp: prepare_path_def Let_def nth_opt_def first_def cut_def start_def k_def split: if_splits)
  have turn: "(if ct_isSplitTurn cut then messages_between t es (the (ct_turnStartIndex cut)) first else [])
      = messages_between t es k first" by (simp add: k_def)
  have "first = ct_firstKeptEntryIndex (findCutPoint es start (length es) (cp_keepRecentTokens settings))"
    by (simp add: first_def cut_def)
  moreover have "pr_isSplitTurn p \<or> k = first" by (simp add: p k_def)
  ultimately show thesis
    by (intro that [OF start_def _ k len _ id]) (simp_all add: p turn)
qed

definition is_tool_result :: "agent_message \<Rightarrow> bool" where
  "is_tool_result m = (case m of Llm (ToolResultM r) \<Rightarrow> True | _ \<Rightarrow> False)"

lemma append_message_not_result: "\<not> is_message e \<Longrightarrow> m \<in> set (append_message t e) \<Longrightarrow> \<not> is_tool_result m"
  by (auto simp: append_message_def is_message_def is_tool_result_def split: entry_kind.splits if_splits)

lemma append_message_valid_cut:
  "valid_cut e \<Longrightarrow> (\<And>f d h. en_kind e \<noteq> BranchSummaryEntry f [] d h) \<Longrightarrow>
   \<exists>m. append_message t e = [m] \<and> \<not> is_tool_result m"
  by (auto simp: append_message_def valid_cut_def is_tool_result_def
      split: entry_kind.splits agent_message.splits message.splits)

lemma kept_starts_clean:
  assumes "compaction_path es" and "first \<le> p" and "p < length es" and "valid_cut (es ! p)"
    and "\<And>j. first \<le> j \<Longrightarrow> j < p \<Longrightarrow> \<not> is_message (es ! j)"
  shows "concat (map (append_message t) (drop first es)) \<noteq> []
    \<and> \<not> is_tool_result (hd (concat (map (append_message t) (drop first es))))"
  using assms(2,5)
proof (induction "p - first" arbitrary: first)
  case 0
  then have "drop first es = es ! p # drop (Suc p) es" using assms(3) by (simp add: Cons_nth_drop_Suc)
  moreover obtain m where "append_message t (es ! p) = [m]" "\<not> is_tool_result m"
    using append_message_valid_cut [OF assms(4)] compaction_path_summary [OF assms(1,3)] by blast
  ultimately show ?case by simp
next
  case (Suc n)
  then have less: "first < p" by simp
  then have d: "drop first es = es ! first # drop (Suc first) es" using assms(3) by (simp add: Cons_nth_drop_Suc)
  have "concat (map (append_message t) (drop (Suc first) es)) \<noteq> []
    \<and> \<not> is_tool_result (hd (concat (map (append_message t) (drop (Suc first) es))))"
    using Suc.hyps(2) Suc.prems less by (intro Suc.hyps(1)) simp_all
  moreover have "\<not> is_message (es ! first)" using Suc.prems(2) less by simp
  ultimately show ?case
    using append_message_not_result [of "es ! first" _ t] by (cases "append_message t (es ! first)") (auto simp: d)
qed

lemma compaction_partitions_context':
  assumes "compaction_path es" and "prepareCompaction t es settings = Inr (Some p)"
    and "en_kind c = CompactionEntry d" and "cd_firstKeptEntryId d = pr_firstKeptEntryId p"
    and "en_id c \<notin> en_id ` set es \<union> kept_ids es"
  shows "\<exists>kept. path_messages t es = previous_summary t es @ pr_messagesToSummarize p @ pr_turnPrefixMessages p @ kept
    \<and> path_messages t (es @ [c]) =
        CompactionSummary (createCompactionSummaryMessage t (cd_summary d) (cd_tokensBefore d) (en_timestamp c)) # kept
    \<and> (kept \<noteq> [] \<and> \<not> is_tool_result (hd kept) \<or> pr_messagesToSummarize p = [] \<and> pr_turnPrefixMessages p = [])
    \<and> compaction_path (es @ [c])"
proof -
  have "prepare_path t es settings = Some p"
    using assms(2) by (auto simp: prepareCompaction_def split: if_splits option.splits)
  then obtain start first k where start: "start = boundary_start es (last_compaction_below es (length es))"
    and first: "first = ct_firstKeptEntryIndex (findCutPoint es start (length es) (cp_keepRecentTokens settings))"
    and k: "start \<le> k" "k \<le> first" "first < length es"
    and p: "pr_firstKeptEntryId p = en_id (es ! first)" "pr_messagesToSummarize p = messages_between t es start k"
      "pr_turnPrefixMessages p = messages_between t es k first" and split: "pr_isSplitTurn p \<or> k = first"
    by (rule prepare_path_unfold) blast
  let ?kept = "concat (map (append_message t) (drop first es))"
  have dist: "distinct (map en_id es)" using assms(1) by (simp add: compaction_path_def)
  have "concat (map (append_message t) (drop start es)) = messages_between t es start (length es)"
    using assms(1) k by (simp add: messages_between_drop)
  also have "\<dots> = messages_between t es start k @ messages_between t es k (length es)"
    using k by (intro messages_between_split) simp_all
  also have "messages_between t es k (length es) = messages_between t es k first @ messages_between t es first (length es)"
    using k by (intro messages_between_split) simp_all
  also have "messages_between t es first (length es) = ?kept" using assms(1) k by (simp add: messages_between_drop)
  finally have old: "path_messages t es =
      previous_summary t es @ pr_messagesToSummarize p @ pr_turnPrefixMessages p @ ?kept"
    using context_from_boundary [OF assms(1), of t] by (simp add: start p)
  have "dropWhile (\<lambda>e. en_id e \<noteq> cd_firstKeptEntryId d) es = drop first es"
    using dropWhile_id [OF dist k(3)] by (simp add: assms(4) p(1))
  moreover have "distinct (map en_id (es @ c # []))" using dist assms(5) by simp
  ultimately have new: "path_messages t (es @ [c]) =
      CompactionSummary (createCompactionSummaryMessage t (cd_summary d) (cd_tokensBefore d) (en_timestamp c)) # ?kept"
    using path_messages_compaction [of es c "[]" d t] assms(3) by simp
  have bound: "start \<le> length es" using k by simp
  have head: "?kept \<noteq> [] \<and> \<not> is_tool_result (hd ?kept) \<or> pr_messagesToSummarize p = [] \<and> pr_turnPrefixMessages p = []"
    using find_cut_point(4) [OF bound, of es "cp_keepRecentTokens settings", folded first]
  proof
    assume "first = start \<and> \<not> ct_isSplitTurn (findCutPoint es start (length es) (cp_keepRecentTokens settings))
      \<and> findValidCutPoints es start (length es) = []"
    then have "first = start" "k = start" using k by simp_all
    then show ?thesis by (simp add: p)
  next
    assume "\<exists>q\<ge>first. q < length es \<and> valid_cut (es ! q)
      \<and> (\<forall>j\<ge>first. j < q \<longrightarrow> \<not> is_message (es ! j) \<and> \<not> is_compaction (es ! j))"
    then show ?thesis using kept_starts_clean [OF assms(1)] by blast
  qed
  have "entry_ok (es @ [c]) i" if "i < length (es @ [c])" for i
  proof (cases "i < length es")
    case True
    then have "entry_ok es i" using assms(1) by (simp add: compaction_path_def)
    moreover have "cd_firstKeptEntryId d' \<noteq> en_id c"
      if "en_kind (es ! i) = CompactionEntry d'" for d'
    proof -
      have "cd_firstKeptEntryId d' \<in> kept_ids es"
        using that True unfolding kept_ids_def by (intro UN_I [of "es ! i"]) simp_all
      with assms(5) show ?thesis by auto
    qed
    ultimately show ?thesis using True by (auto simp: entry_ok_def nth_append split: entry_kind.splits)
  next
    case False
    with that have "i = length es" by simp
    moreover have "en_id (es ! first) \<noteq> en_id c" using assms(5) nth_mem [OF k(3)] by (metis UnI1 imageI)
    ultimately show ?thesis using assms(3,4) p(1) by (simp add: entry_ok_def)
  qed
  with dist assms(5) have "compaction_path (es @ [c])" by (simp add: compaction_path_def)
  with old new head show ?thesis by blast
qed

text \<open>
  Compaction loses no message. The context before it is the earlier summary, the messages handed to the
  summary, those of the cut turn handed to the turn summary, and the messages kept; the context after it is
  the new summary and the same kept messages, which never start with a tool result unless nothing was cut off.\<close>

theorem compaction_partitions_context:
  assumes "compaction_path es" and "prepareCompaction t es settings = Inr (Some p)"
    and "en_kind c = CompactionEntry d" and "cd_firstKeptEntryId d = pr_firstKeptEntryId p"
    and "en_id c \<notin> en_id ` set es \<union> kept_ids es"
  shows "\<exists>kept. path_messages t es = previous_summary t es @ pr_messagesToSummarize p @ pr_turnPrefixMessages p @ kept
    \<and> path_messages t (es @ [c]) =
        CompactionSummary (createCompactionSummaryMessage t (cd_summary d) (cd_tokensBefore d) (en_timestamp c)) # kept
    \<and> (kept \<noteq> [] \<and> \<not> is_tool_result (hd kept) \<or> pr_messagesToSummarize p = [] \<and> pr_turnPrefixMessages p = [])
    \<and> compaction_path (es @ [c])"
  using compaction_partitions_context' [OF assms] .

text \<open>
  A tool result answers a call of the assistant message before it; only other results may stand between. This is
  what providers demand of a conversation.
\<close>

fun results_paired :: "jstr set \<Rightarrow> agent_message list \<Rightarrow> bool" where
  "results_paired ids [] = True"
| "results_paired ids (m # ms) =
     (case m of
        Llm (AssistantM a) \<Rightarrow> results_paired (call_id ` set (tool_calls_of (am_content a))) ms
      | Llm (ToolResultM r) \<Rightarrow> tr_toolCallId r \<in> ids \<and> results_paired ids ms
      | _ \<Rightarrow> results_paired {} ms)"

lemma results_paired_suffix: "results_paired ids (xs @ ys) \<Longrightarrow> \<exists>ids'. results_paired ids' ys"
  by (induction xs arbitrary: ids) (auto split: agent_message.splits message.splits)

lemma results_paired_any: "results_paired ids ms \<Longrightarrow> ms = [] \<or> \<not> is_tool_result (hd ms) \<Longrightarrow> results_paired ids' ms"
  by (cases ms) (auto simp: is_tool_result_def split: agent_message.splits message.splits)

text \<open>
  C21: compaction leaves no tool result without its call: when every tool result of the context answers a call
  of the assistant message before it, the same holds after the compaction.\<close>

theorem compaction_keeps_results_paired:
  assumes "compaction_path es" and "prepareCompaction t es settings = Inr (Some p)"
    and "en_kind c = CompactionEntry d" and "cd_firstKeptEntryId d = pr_firstKeptEntryId p"
    and "en_id c \<notin> en_id ` set es \<union> kept_ids es"
    and "results_paired {} (path_messages t es)"
  shows "results_paired {} (path_messages t (es @ [c]))"
proof -
  obtain kept where old: "path_messages t es = previous_summary t es @ pr_messagesToSummarize p @ pr_turnPrefixMessages p @ kept"
    and new: "path_messages t (es @ [c]) =
        CompactionSummary (createCompactionSummaryMessage t (cd_summary d) (cd_tokensBefore d) (en_timestamp c)) # kept"
    and head: "kept \<noteq> [] \<and> \<not> is_tool_result (hd kept) \<or> pr_messagesToSummarize p = [] \<and> pr_turnPrefixMessages p = []"
    using compaction_partitions_context' [OF assms(1-5)] by blast
  have "results_paired {} kept"
  proof (cases "pr_messagesToSummarize p = [] \<and> pr_turnPrefixMessages p = []")
    case True
    with old assms(6) show ?thesis
      by (cases "last_compaction_below es (length es)") (auto simp: previous_summary_def split: prod.splits)
  next
    case False
    with head have clean: "\<not> is_tool_result (hd kept)" by blast
    from assms(6) old have "results_paired {} ((previous_summary t es @ pr_messagesToSummarize p @ pr_turnPrefixMessages p) @ kept)"
      by simp
    from results_paired_suffix [OF this] clean results_paired_any show ?thesis by blast
  qed
  then show ?thesis unfolding new by simp
qed

text \<open>
  C22: when the newest entry may be cut at, as after an assistant message, the messages kept, without the first of
  them, are estimated below the budget of recent tokens.\<close>

theorem compaction_keeps_budget:
  assumes "prepareCompaction t es settings = Inr (Some p)" and "valid_cut (last es)"
    and "0 < cp_keepRecentTokens settings"
  shows "\<exists>first<length es. en_id (es ! first) = pr_firstKeptEntryId p
    \<and> sum_list (tl (token_list (drop first es))) < cp_keepRecentTokens settings"
proof -
  have "prepare_path t es settings = Some p"
    using assms(1) by (auto simp: prepareCompaction_def split: if_splits option.splits)
  then obtain start first k where start: "start \<le> k" "k \<le> first" "first < length es"
    and first: "first = ct_firstKeptEntryIndex (findCutPoint es start (length es) (cp_keepRecentTokens settings))"
    and id: "pr_firstKeptEntryId p = en_id (es ! first)"
    by (rule prepare_path_unfold) blast
  define cps where "cps = findValidCutPoints es start (length es)"
  define c where "c = chosen_cut es cps start (length es) (cp_keepRecentTokens settings)"
  have len: "start < length es" using start by simp
  have "length es - 1 \<in> set cps"
    using len assms(2) last_conv_nth [of es] by (cases "es = []") (auto simp: cps_def findValidCutPoints_def)
  then have cps: "cps \<noteq> []" by auto
  have c: "start \<le> c" "c < length es"
    using chosen_cut_in [OF cps, of es start "length es" "cp_keepRecentTokens settings"]
    by (auto simp: cps_def c_def findValidCutPoints_def)
  have "first = back_up es start c"
    using cps by (simp add: first findCutPoint_def Let_def cps_def [symmetric] c_def)
  then have "token_list (drop first es) = token_list (drop c es)"
    using token_list_back_up [of start c es] c by simp
  moreover have "sum_list (tl (token_list (drop c es))) < cp_keepRecentTokens settings"
    unfolding c_def cps_def by (rule chosen_cut_budget [OF len assms(2,3)])
  ultimately show ?thesis using start(3) id by auto
qed

section \<open>The files a summary names\<close>

definition earlier_files :: "string \<Rightarrow> entry list \<Rightarrow> jstr set" where
  "earlier_files key es =
     (case last_compaction_below es (length es) of
        None \<Rightarrow> {}
      | Some (p, d) \<Rightarrow>
          (if cd_fromHook d = Some True then {}
           else (case cd_details d of None \<Rightarrow> {} | Some v \<Rightarrow> set (json_strings (json_get v (js key))))))"

lemma previous_files:
  "set (fo_read (case map_option snd (last_compaction_below es (length es)) of
      None \<Rightarrow> createFileOps | Some d \<Rightarrow> previous_file_ops d)) = earlier_files ''readFiles'' es"
  "set (fo_edited (case map_option snd (last_compaction_below es (length es)) of
      None \<Rightarrow> createFileOps | Some d \<Rightarrow> previous_file_ops d)) = earlier_files ''modifiedFiles'' es"
  "fo_written (case map_option snd (last_compaction_below es (length es)) of
      None \<Rightarrow> createFileOps | Some d \<Rightarrow> previous_file_ops d) = []"
  "distinct (fo_read (case map_option snd (last_compaction_below es (length es)) of
      None \<Rightarrow> createFileOps | Some d \<Rightarrow> previous_file_ops d))"
  by (auto simp: earlier_files_def previous_file_ops_def createFileOps_def foldl_set_add split: option.splits)

lemma file_details_read_back:
  "json_strings (json_get (file_details l) (js ''readFiles'')) = fl_readFiles l"
  "json_strings (json_get (file_details l) (js ''modifiedFiles'')) = fl_modifiedFiles l"
proof -
  have "concat (map (\<lambda>x. case x of JStr s \<Rightarrow> [s] | _ \<Rightarrow> []) (map JStr xs)) = xs" for xs
    by (induction xs) simp_all
  then show "json_strings (json_get (file_details l) (js ''readFiles'')) = fl_readFiles l"
    "json_strings (json_get (file_details l) (js ''modifiedFiles'')) = fl_modifiedFiles l"
    by (simp_all add: json_strings_def file_details_def)
qed

lemma compact_outcome:
  "compact ask p model apiKey headers ci level w = (Inr (Inr r), w') \<Longrightarrow> \<exists>summary. r = compaction_outcome p summary"
  by (auto simp: compact_def Let_def split: if_splits prod.splits sum.splits)

text \<open>
  The file lists of a compaction add up: a file counts as modified when the summarised messages wrote or
  edited it or the compaction before said so, as read when it was read and not modified. The lists are
  sorted and without repetition, and the next compaction reads them back from the stored details.\<close>

theorem compaction_file_lists:
  assumes "prepareCompaction t es settings = Inr (Some p)"
    and "compact ask p model apiKey headers customInstructions level w = (Inr (Inr r), w')"
  shows "\<exists>l. cr_details r = file_details l
    \<and> json_strings (json_get (cr_details r) (js ''readFiles'')) = fl_readFiles l
    \<and> json_strings (json_get (cr_details r) (js ''modifiedFiles'')) = fl_modifiedFiles l
    \<and> set (fl_modifiedFiles l) = earlier_files ''modifiedFiles'' es
        \<union> touched ''write'' (pr_messagesToSummarize p @ pr_turnPrefixMessages p)
        \<union> touched ''edit'' (pr_messagesToSummarize p @ pr_turnPrefixMessages p)
    \<and> set (fl_readFiles l) = (earlier_files ''readFiles'' es
        \<union> touched ''read'' (pr_messagesToSummarize p @ pr_turnPrefixMessages p)) - set (fl_modifiedFiles l)
    \<and> sorted (fl_readFiles l) \<and> distinct (fl_readFiles l) \<and> sorted (fl_modifiedFiles l) \<and> distinct (fl_modifiedFiles l)"
proof -
  have "prepare_path t es settings = Some p"
    using assms(1) by (auto simp: prepareCompaction_def split: if_splits option.splits)
  then obtain start first k where ms: "pr_messagesToSummarize p = messages_between t es start k"
      "pr_turnPrefixMessages p = messages_between t es k first"
    and ops: "pr_fileOps p = foldl extractFileOpsFromMessage
      (extractFileOperations (messages_between t es start k) (map_option snd (last_compaction_below es (length es))))
      (messages_between t es k first)"
    by (rule prepare_path_unfold) blast
  define prev where "prev = (case map_option snd (last_compaction_below es (length es)) of
      None \<Rightarrow> createFileOps | Some d \<Rightarrow> previous_file_ops d)"
  note earlier = previous_files [of es, folded prev_def]
  let ?ms = "pr_messagesToSummarize p @ pr_turnPrefixMessages p"
  have ops: "pr_fileOps p = foldl extractFileOpsFromMessage prev ?ms"
    by (simp add: ops ms extractFileOperations_def prev_def)
  have "distinct (fo_read (pr_fileOps p))" unfolding ops by (intro distinct_extract earlier)
  note lists = file_lists [OF this]
  obtain summary where r: "r = compaction_outcome p summary" using compact_outcome [OF assms(2)] by blast
  let ?l = "computeFileLists (pr_fileOps p)"
  have details: "cr_details r = file_details ?l" by (simp add: r compaction_outcome_def Let_def)
  have modified: "set (fl_modifiedFiles ?l) = earlier_files ''modifiedFiles'' es \<union> touched ''write'' ?ms \<union> touched ''edit'' ?ms"
    unfolding lists(1) unfolding ops extract_files earlier by auto
  have "set (fl_readFiles ?l) = (earlier_files ''readFiles'' es \<union> touched ''read'' ?ms) - set (fl_modifiedFiles ?l)"
    unfolding lists(2) unfolding ops extract_files earlier ..
  with details modified lists(3,4) file_details_read_back [of ?l] show ?thesis
    by (intro exI [of _ ?l]) simp
qed

section \<open>Examples\<close>

definition demo_user :: "string \<Rightarrow> string option \<Rightarrow> entry" where
  "demo_user i parent = sample_entry i parent (MessageEntry (Llm (sample_user ''hello'')))"

definition demo_assistant :: "string \<Rightarrow> string option \<Rightarrow> entry" where
  "demo_assistant i parent = sample_entry i parent
     (MessageEntry (Llm (AssistantM (sample_assistant [AText \<lparr>tc_text = js ''answer'', tc_textSignature = None\<rparr>] SR_stop))))"

definition demo_settings :: compaction_settings where
  "demo_settings = \<lparr>cp_enabled = True, cp_reserveTokens = 100, cp_keepRecentTokens = 2\<rparr>"

definition demo_path :: "entry list" where
  "demo_path = [demo_user ''a'' None, demo_assistant ''b'' (Some ''a''), demo_user ''c'' (Some ''b''),
     demo_assistant ''d'' (Some ''c'')]"

lemma demo_kinds [simp]:
  "en_kind (demo_user i p) = MessageEntry (Llm (sample_user ''hello''))"
  "en_kind (demo_assistant i p) = MessageEntry (Llm (AssistantM
     (sample_assistant [AText \<lparr>tc_text = js ''answer'', tc_textSignature = None\<rparr>] SR_stop)))"
  "en_id (demo_user i p) = js i" "en_id (demo_assistant i p) = js i"
  by (simp_all add: demo_user_def demo_assistant_def sample_entry_def)

lemma demo_tokens [simp]:
  "estimateTokens (Llm (sample_user ''hello'')) = 2"
  "estimateTokens (Llm (AssistantM (sample_assistant [AText \<lparr>tc_text = js ''answer'', tc_textSignature = None\<rparr>] SR_stop))) = 2"
  by (simp_all add: sample_user_def sample_assistant_def quarter_def text_chars_def text_block_def)

lemma demo_upt: "[0..<4] = [0, 1, 2, 3 :: nat]" "[0..<2] = [0, 1 :: nat]" "[2..<3] = [2 :: nat]" "[0..<5] = [0, 1, 2, 3, 4 :: nat]"
  by (simp_all add: upt_rec)

lemma demo_length [simp]: "length demo_path = 4"
  by (simp add: demo_path_def)

lemma demo_nth [simp]:
  "demo_path ! 0 = demo_user ''a'' None" "demo_path ! Suc 0 = demo_assistant ''b'' (Some ''a'')"
  "demo_path ! 2 = demo_user ''c'' (Some ''b'')" "demo_path ! 3 = demo_assistant ''d'' (Some ''c'')"
  by (simp_all add: demo_path_def)

lemma demo_predicates [simp]:
  "valid_cut (demo_user i p)" "valid_cut (demo_assistant i p)"
  "is_message (demo_user i p)" "is_message (demo_assistant i p)"
  "\<not> is_compaction (demo_user i p)" "\<not> is_compaction (demo_assistant i p)"
  "is_user_message (demo_user i p)" "\<not> is_user_message (demo_assistant i p)"
  "starts_turn (demo_user i p)" "\<not> starts_turn (demo_assistant i p)"
  by (simp_all add: valid_cut_def is_message_def is_compaction_def is_user_message_def starts_turn_def sample_user_def)

lemma demo_cut:
  "findCutPoint demo_path 0 4 2 = \<lparr>ct_firstKeptEntryIndex = 3, ct_turnStartIndex = Some 2, ct_isSplitTurn = True\<rparr>"
proof -
  have points: "findValidCutPoints demo_path 0 4 = [0, 1, 2, 3]"
    by (simp add: findValidCutPoints_def demo_upt)
  have "budget_index demo_path 2 0 (Suc 3) 0 = Some 3"
    unfolding budget_index.simps by (simp del: estimateTokens.simps)
  then have "chosen_cut demo_path [0, 1, 2, 3] 0 4 2 = 3" by (simp add: chosen_cut_def)
  moreover have "back_up demo_path 0 (Suc 2) = Suc 2" unfolding back_up.simps by simp
  moreover have "turn_start_below demo_path 0 (Suc (Suc 2)) = Some 2" unfolding turn_start_below.simps by simp
  ultimately show ?thesis by (simp add: findCutPoint_def points Let_def findTurnStartIndex_def)
qed

lemma demo_preparation:
  obtains p where "prepareCompaction (\<lambda>_. None) demo_path demo_settings = Inr (Some p)"
    and "pr_firstKeptEntryId p = js ''d''"
    and "pr_messagesToSummarize p = map (\<lambda>e. case en_kind e of MessageEntry m \<Rightarrow> m) (take 2 demo_path)"
    and "pr_turnPrefixMessages p = [Llm (sample_user ''hello'')]"
proof -
  have none: "last_compaction_below demo_path 4 = None"
    by (simp add: demo_path_def eval_nat_numeral)
  have "\<not> (demo_path = [] \<or> ends_compacted demo_path)"
    by (simp add: demo_path_def ends_compacted_def last_opt_def is_compaction_def)
  moreover have "\<exists>p. prepare_path (\<lambda>_. None) demo_path demo_settings = Some p \<and> pr_firstKeptEntryId p = js ''d''
    \<and> pr_messagesToSummarize p = messages_between (\<lambda>_. None) demo_path 0 2
    \<and> pr_turnPrefixMessages p = messages_between (\<lambda>_. None) demo_path 2 3"
    by (simp add: prepare_path_def none boundary_start_def demo_settings_def demo_cut Let_def nth_opt_def)
  moreover have "messages_between (\<lambda>_. None) demo_path 0 2 = map (\<lambda>e. case en_kind e of MessageEntry m \<Rightarrow> m) (take 2 demo_path)"
    by (simp add: messages_between_def demo_upt demo_path_def getMessageFromEntryForCompaction_def getMessageFromEntry_def
        is_compaction_def)
  moreover have "messages_between (\<lambda>_. None) demo_path 2 3 = [Llm (sample_user ''hello'')]"
    by (simp add: messages_between_def demo_upt demo_path_def getMessageFromEntryForCompaction_def getMessageFromEntry_def
        is_compaction_def)
  ultimately show thesis by (auto simp: prepareCompaction_def intro: that)
qed

definition demo_compaction :: entry where
  "demo_compaction = sample_entry ''e'' (Some ''d'') (CompactionEntry (sample_compaction ''d''))"

lemma demo_compaction_path: "compaction_path demo_path" "en_id demo_compaction \<notin> en_id ` set demo_path \<union> kept_ids demo_path"
proof -
  have "entry_ok demo_path i" if "i < 4" for i
    using that by (simp add: demo_path_def entry_ok_def less_Suc_eq eval_nat_numeral) auto
  then show "compaction_path demo_path" by (simp add: compaction_path_def) (simp add: demo_path_def)
  show "en_id demo_compaction \<notin> en_id ` set demo_path \<union> kept_ids demo_path"
    by (simp add: demo_path_def demo_compaction_def kept_ids_def sample_entry_def demo_user_def demo_assistant_def)
qed

lemma demo_compaction_kind: "en_kind demo_compaction = CompactionEntry (sample_compaction ''d'')"
  "cd_firstKeptEntryId (sample_compaction ''d'') = js ''d''"
  by (simp_all add: demo_compaction_def sample_entry_def sample_compaction_def)

theorem compaction_partitions_context_witness:
  "\<exists>(p :: compaction_preparation) kept. path_messages (\<lambda>_. None) demo_path = previous_summary (\<lambda>_. None) demo_path
      @ pr_messagesToSummarize p @ pr_turnPrefixMessages p @ kept
    \<and> pr_turnPrefixMessages p = [Llm (sample_user ''hello'')]
    \<and> path_messages (\<lambda>_. None) (demo_path @ [demo_compaction]) =
        CompactionSummary (createCompactionSummaryMessage (\<lambda>_. None) (js ''sum'') 9 (js ''t'')) # kept"
proof -
  obtain p where p: "prepareCompaction (\<lambda>_. None) demo_path demo_settings = Inr (Some p)"
    "pr_firstKeptEntryId p = js ''d''" "pr_turnPrefixMessages p = [Llm (sample_user ''hello'')]"
    by (rule demo_preparation)
  have "cd_firstKeptEntryId (sample_compaction ''d'') = pr_firstKeptEntryId p" by (simp add: p(2) demo_compaction_kind)
  from compaction_partitions_context [OF demo_compaction_path(1) p(1) demo_compaction_kind(1) this demo_compaction_path(2)]
  have "\<exists>kept. path_messages (\<lambda>_. None) demo_path = previous_summary (\<lambda>_. None) demo_path
      @ pr_messagesToSummarize p @ pr_turnPrefixMessages p @ kept
    \<and> path_messages (\<lambda>_. None) (demo_path @ [demo_compaction]) =
        CompactionSummary (createCompactionSummaryMessage (\<lambda>_. None) (js ''sum'') 9 (js ''t'')) # kept"
    by (auto simp: sample_compaction_def demo_compaction_def sample_entry_def)
  with p(3) show ?thesis by blast
qed

text \<open>A path that ends with a tool call and its result, where the cut falls on the call.\<close>

definition tool_path :: "entry list" where
  "tool_path = [demo_user ''a'' None,
     sample_entry ''b'' (Some ''a'') (MessageEntry (Llm (AssistantM
       (sample_assistant [AToolCall (sample_call ''k'' ''read'')] SR_toolUse)))),
     sample_entry ''c'' (Some ''b'') (MessageEntry (Llm (ToolResultM
       \<lparr>tr_toolCallId = js ''k'', tr_toolName = js ''read'', tr_content = [TextBlock \<lparr>tc_text = js ''answer'', tc_textSignature = None\<rparr>],
        tr_details = None, tr_isError = False, tr_timestamp = Some 0\<rparr>)))]"

definition tool_settings :: compaction_settings where
  "tool_settings = \<lparr>cp_enabled = True, cp_reserveTokens = 100, cp_keepRecentTokens = 3\<rparr>"

definition tool_compaction :: entry where
  "tool_compaction = sample_entry ''e'' (Some ''c'') (CompactionEntry (sample_compaction ''b''))"

lemma tool_preparation:
  "case prepareCompaction (\<lambda>_. None) tool_path tool_settings of
     Inr (Some p) \<Rightarrow> pr_firstKeptEntryId p = js ''b'' | _ \<Rightarrow> False"
  by code_simp

lemma tool_path_ok: "compaction_path tool_path" "en_id tool_compaction \<notin> en_id ` set tool_path \<union> kept_ids tool_path"
proof -
  have "entry_ok tool_path i" if "i < 3" for i
    using that by (simp add: tool_path_def entry_ok_def less_Suc_eq eval_nat_numeral) (auto simp: sample_entry_def)
  then show "compaction_path tool_path" by (simp add: compaction_path_def) (simp add: tool_path_def sample_entry_def)
  show "en_id tool_compaction \<notin> en_id ` set tool_path \<union> kept_ids tool_path"
    by (simp add: tool_path_def tool_compaction_def kept_ids_def sample_entry_def demo_user_def)
qed

lemma tool_messages:
  "results_paired {} (path_messages (\<lambda>_. None) tool_path)"
  "map is_tool_result (path_messages (\<lambda>_. None) (tool_path @ [tool_compaction])) = [False, False, True]"
  by code_simp+

theorem compaction_keeps_results_paired_witness:
  "results_paired {} (path_messages (\<lambda>_. None) (tool_path @ [tool_compaction]))
    \<and> map is_tool_result (path_messages (\<lambda>_. None) (tool_path @ [tool_compaction])) = [False, False, True]"
proof -
  from tool_preparation obtain p where p: "prepareCompaction (\<lambda>_. None) tool_path tool_settings = Inr (Some p)"
    "pr_firstKeptEntryId p = js ''b''" by (auto split: sum.splits option.splits)
  have kind: "en_kind tool_compaction = CompactionEntry (sample_compaction ''b'')"
    and key: "cd_firstKeptEntryId (sample_compaction ''b'') = pr_firstKeptEntryId p"
    by (simp_all add: p(2) tool_compaction_def sample_entry_def sample_compaction_def)
  from compaction_keeps_results_paired [OF tool_path_ok(1) p(1) kind key tool_path_ok(2) tool_messages(1)] tool_messages(2)
  show ?thesis ..
qed

theorem compaction_keeps_budget_witness:
  "\<exists>first<4. en_id (demo_path ! first) = js ''d'' \<and> sum_list (tl (token_list (drop first demo_path))) < 2"
proof -
  obtain p where p: "prepareCompaction (\<lambda>_. None) demo_path demo_settings = Inr (Some p)"
    "pr_firstKeptEntryId p = js ''d''" by (rule demo_preparation)
  have "valid_cut (last demo_path)" by (simp add: demo_path_def)
  moreover have keep: "cp_keepRecentTokens demo_settings = 2" by (simp add: demo_settings_def)
  ultimately show ?thesis using compaction_keeps_budget [OF p(1)] by (simp add: p(2))
qed

definition answering :: "string \<Rightarrow> unit completion" where
  "answering t model system prompt opts w = (Inr (sample_assistant [AText \<lparr>tc_text = js t, tc_textSignature = None\<rparr>] SR_stop), w)"

definition demo_model :: llm_model where
  "demo_model = \<lparr>model_id = js ''m'', model_name = js ''m'', model_api = js ''a'', model_provider = js ''p'', model_baseUrl = [],
     model_reasoning = False, model_thinkingLevelMap = None, model_input = [InText],
     model_cost = \<lparr>mc_input = 0, mc_output = 0, mc_cacheRead = 0, mc_cacheWrite = 0\<rparr>,
     model_contextWindow = 1000, model_maxTokens = 100, model_headers = None, model_compat = None\<rparr>"

theorem compaction_file_lists_witness:
  "\<exists>p r l. prepareCompaction (\<lambda>_. None) demo_path demo_settings = Inr (Some p)
    \<and> compact (answering ''sum'') p demo_model [] None None None () = (Inr (Inr r), ())
    \<and> cr_details r = file_details l \<and> fl_modifiedFiles l = []"
proof -
  obtain p where p: "prepareCompaction (\<lambda>_. None) demo_path demo_settings = Inr (Some p)"
    "pr_firstKeptEntryId p = js ''d''"
    and ms: "pr_messagesToSummarize p = map (\<lambda>e. case en_kind e of MessageEntry m \<Rightarrow> m) (take 2 demo_path)"
    "pr_turnPrefixMessages p = [Llm (sample_user ''hello'')]" by (rule demo_preparation)
  have "\<exists>r. compact (answering ''sum'') p demo_model [] None None None () = (Inr (Inr r), ())"
    by (simp add: compact_def p(2) generateSummary_def generateTurnPrefixSummary_def answering_def summary_result_def
        sample_assistant_def Let_def)
  then obtain r where r: "compact (answering ''sum'') p demo_model [] None None None () = (Inr (Inr r), ())" by blast
  have none: "earlier_files ''modifiedFiles'' demo_path = {}"
    by (simp add: earlier_files_def) (simp add: demo_path_def eval_nat_numeral)
  have "touched k (pr_messagesToSummarize p @ pr_turnPrefixMessages p) = {}" for k
    by (simp add: ms demo_path_def touched_Cons sample_user_def sample_assistant_def)
  with compaction_file_lists [OF p(1) r] none p(1) r show ?thesis by (auto simp: touched_append)
qed

section \<open>Two flaws\<close>

text \<open>
  When a turn is split and no message precedes it since the last compaction, the summary says that there is no prior
  history, whatever the earlier summary was.
\<close>

lemma split_turn_forgets_summary:
  assumes "pr_isSplitTurn p" and "pr_turnPrefixMessages p \<noteq> []" and "pr_messagesToSummarize p = []"
  shows "compact ask (p\<lparr>pr_previousSummary := s\<rparr>) model apiKey headers ci level w = compact ask p model apiKey headers ci level w"
proof -
  have "compaction_outcome (p\<lparr>pr_previousSummary := s\<rparr>) x = compaction_outcome p x" for x
    by (simp add: compaction_outcome_def Let_def)
  with assms show ?thesis by (auto simp: compact_def Let_def split: prod.splits sum.splits)
qed

definition recompacted_path :: "entry list" where
  "recompacted_path = [demo_user ''a'' None, sample_entry ''x'' (Some ''a'') (CompactionEntry (sample_compaction ''a'')),
     demo_assistant ''b'' (Some ''x'')]"

lemma split_turn_after_compaction:
  "\<exists>p. prepareCompaction (\<lambda>_. None) recompacted_path demo_settings = Inr (Some p)
    \<and> pr_previousSummary p = Some (js ''sum'') \<and> pr_isSplitTurn p
    \<and> pr_messagesToSummarize p = [] \<and> pr_turnPrefixMessages p = [Llm (sample_user ''hello'')]"
proof -
  let ?c = "sample_entry ''x'' (Some ''a'') (CompactionEntry (sample_compaction ''a''))"
  have nth: "recompacted_path ! 0 = demo_user ''a'' None" "recompacted_path ! 1 = ?c"
    "recompacted_path ! 2 = demo_assistant ''b'' (Some ''x'')" "length recompacted_path = 3"
    by (simp_all add: recompacted_path_def)
  have c: "en_kind ?c = CompactionEntry (sample_compaction ''a'')" "is_compaction ?c" "\<not> valid_cut ?c" "\<not> starts_turn ?c"
    by (simp_all add: sample_entry_def is_compaction_def valid_cut_def starts_turn_def)
  have "last_compaction_below recompacted_path (Suc 2) = last_compaction_below recompacted_path (Suc 1)"
    unfolding last_compaction_below.simps(2) [of recompacted_path 2] using nth by (simp add: numeral_2_eq_2)
  also have "\<dots> = Some (1, sample_compaction ''a'')"
    unfolding last_compaction_below.simps(2) [of recompacted_path 1] using nth c by simp
  finally have prev: "last_compaction_below recompacted_path 3 = Some (1, sample_compaction ''a'')" by simp
  have start: "boundary_start recompacted_path (Some (1, sample_compaction ''a'')) = 0"
    by (simp add: boundary_start_def recompacted_path_def sample_compaction_def)
  have points: "findValidCutPoints recompacted_path 0 3 = [0, 2]"
    using nth c by (simp add: findValidCutPoints_def upt_rec numeral_2_eq_2)
  have "budget_index recompacted_path 2 0 (Suc 2) 0 = Some 2"
    unfolding budget_index.simps using nth by (simp del: estimateTokens.simps)
  then have "chosen_cut recompacted_path [0, 2] 0 3 2 = 2" by (simp add: chosen_cut_def)
  moreover have "back_up recompacted_path 0 2 = 2"
  proof -
    have "back_up recompacted_path 0 (Suc 1) = Suc 1" unfolding back_up.simps using nth c by simp
    then show ?thesis by (simp add: numeral_2_eq_2)
  qed
  moreover have "findTurnStartIndex recompacted_path 2 0 = Some 0"
  proof -
    have "turn_start_below recompacted_path 0 (Suc (Suc (Suc 0))) = Some 0"
      unfolding turn_start_below.simps using nth c by (simp add: numeral_2_eq_2)
    then show ?thesis by (simp add: findTurnStartIndex_def numeral_2_eq_2)
  qed
  ultimately have cut: "findCutPoint recompacted_path 0 3 2 =
      \<lparr>ct_firstKeptEntryIndex = 2, ct_turnStartIndex = Some 0, ct_isSplitTurn = True\<rparr>"
    using nth by (simp add: findCutPoint_def points Let_def)
  have "\<not> ends_compacted recompacted_path" "recompacted_path \<noteq> []"
    by (simp_all add: recompacted_path_def ends_compacted_def last_opt_def)
  moreover have "messages_between (\<lambda>_. None) recompacted_path 0 2 = [Llm (sample_user ''hello'')]"
    using nth c by (simp add: messages_between_def demo_upt getMessageFromEntryForCompaction_def getMessageFromEntry_def)
  moreover have "cp_keepRecentTokens demo_settings = 2" by (simp add: demo_settings_def)
  moreover have "cd_summary (sample_compaction ''a'') = js ''sum''" by (simp add: sample_compaction_def)
  ultimately show ?thesis
    using nth prev start by (simp add: prepareCompaction_def prepare_path_def cut Let_def nth_opt_def)
qed

text \<open>
  When a settings entry precedes the user message that starts the kept turn, the cut is moved before it, the entry at
  the cut is no user message, and the whole turn before is taken for the prefix of a split turn.
\<close>

definition settings_path :: "entry list" where
  "settings_path = [demo_user ''a'' None, demo_assistant ''b'' (Some ''a''),
     sample_entry ''m'' (Some ''b'') (ModelChangeEntry (js ''p'') (js ''m'')), demo_user ''c'' (Some ''m''),
     demo_assistant ''d'' (Some ''c'')]"

lemma cut_between_turns_reported_as_split:
  "findCutPoint settings_path 0 5 3 = \<lparr>ct_firstKeptEntryIndex = 2, ct_turnStartIndex = Some 0, ct_isSplitTurn = True\<rparr>
   \<and> chosen_cut settings_path (findValidCutPoints settings_path 0 5) 0 5 3 = 3 \<and> is_user_message (settings_path ! 3)"
proof -
  let ?m = "sample_entry ''m'' (Some ''b'') (ModelChangeEntry (js ''p'') (js ''m''))"
  have nth: "settings_path ! 0 = demo_user ''a'' None" "settings_path ! 1 = demo_assistant ''b'' (Some ''a'')"
    "settings_path ! 2 = ?m" "settings_path ! 3 = demo_user ''c'' (Some ''m'')" "settings_path ! 4 = demo_assistant ''d'' (Some ''c'')"
    by (simp_all add: settings_path_def)
  have m: "\<not> is_compaction ?m" "\<not> is_message ?m" "\<not> valid_cut ?m" "\<not> starts_turn ?m" "\<not> is_user_message ?m"
    by (simp_all add: sample_entry_def is_compaction_def valid_cut_def starts_turn_def is_message_def is_user_message_def)
  have points: "findValidCutPoints settings_path 0 5 = [0, 1, 3, 4]"
    using nth m by (simp add: findValidCutPoints_def demo_upt)
  have "budget_index settings_path 3 0 (Suc 4) 0 = budget_index settings_path 3 0 (Suc 3) 2"
    unfolding budget_index.simps(2) [of settings_path 3 0 4 0] using nth by (simp del: estimateTokens.simps add: Let_def)
  also have "\<dots> = Some 3"
    unfolding budget_index.simps(2) [of settings_path 3 0 3 2] using nth by (simp del: estimateTokens.simps)
  finally have chosen: "chosen_cut settings_path [0, 1, 3, 4] 0 5 3 = 3" by (simp add: chosen_cut_def)
  have "back_up settings_path 0 (Suc 2) = back_up settings_path 0 (Suc 1)"
    unfolding back_up.simps(2) [of settings_path 0 2] using nth m by (simp add: numeral_2_eq_2)
  also have "\<dots> = 2" unfolding back_up.simps using nth by simp
  finally have backed: "back_up settings_path 0 3 = 2" by simp
  have turn: "turn_start_below settings_path 0 (Suc (Suc (Suc 0))) = Some 0"
    unfolding turn_start_below.simps using nth m by (simp add: numeral_2_eq_2)
  then have "findTurnStartIndex settings_path 2 0 = Some 0" by (simp add: findTurnStartIndex_def numeral_2_eq_2)
  with nth m chosen show ?thesis by (simp add: findCutPoint_def points backed Let_def)
qed

end
