(* ===== verification/Edit_Diff.thy ===== *)
theory Edit_Diff
  imports Js_Strings "HOL-Library.Multiset"
begin

text \<open>
  Text replacement for the edit tool: \<^verbatim>\<open>packages/coding-agent/src/core/tools/edit-diff.ts\<close>. Unicode
  normalisation (\<^verbatim>\<open>normalize("NFKC")\<close>), which rests on the Unicode tables of the engine, is a parameter. One property asks of it that it leaves alone what has been
  normalised for matching (\<open>normalizer_ok\<close>).
  An index that may be -1 is an option.
\<close>

section \<open>Line endings\<close>

definition CR :: code_unit where
  "CR = 13"

definition detectLineEnding :: "jstr \<Rightarrow> jstr" where
  "detectLineEnding content =
     (case index_of content [LF] of
        None \<Rightarrow> [LF]
      | Some lfIdx \<Rightarrow>
          (case index_of content [CR, LF] of
             None \<Rightarrow> [LF]
           | Some crlfIdx \<Rightarrow> (if crlfIdx < lfIdx then [CR, LF] else [LF])))"

fun crlf_to_lf :: "jstr \<Rightarrow> jstr" where
  "crlf_to_lf [] = []"
| "crlf_to_lf [c] = [c]"
| "crlf_to_lf (c # d # s) = (if c = CR \<and> d = LF then LF # crlf_to_lf s else c # crlf_to_lf (d # s))"

definition normalizeToLF :: "jstr \<Rightarrow> jstr" where
  "normalizeToLF t = map (\<lambda>c. if c = CR then LF else c) (crlf_to_lf t)"

definition restoreLineEndings :: "jstr \<Rightarrow> jstr \<Rightarrow> jstr" where
  "restoreLineEndings t e = (if e = [CR, LF] then concat (map (\<lambda>c. if c = LF then [CR, LF] else [c]) t) else t)"

definition BOM :: code_unit where
  "BOM = 0xFEFF"

definition stripBom :: "jstr \<Rightarrow> jstr \<times> jstr" where
  "stripBom content = (if prefix [BOM] content then ([BOM], drop 1 content) else ([], content))"

section \<open>Matching\<close>

definition fuzzy_char :: "code_unit \<Rightarrow> code_unit" where
  "fuzzy_char c =
     (if c \<in> {0x2018, 0x2019, 0x201A, 0x201B} then 0x27
      else if c \<in> {0x201C, 0x201D, 0x201E, 0x201F} then 0x22
      else if c \<in> {0x2010, 0x2011, 0x2012, 0x2013, 0x2014, 0x2015, 0x2212} then 0x2D
      else if c = 0xA0 \<or> 0x2002 \<le> c \<and> c \<le> 0x200A \<or> c \<in> {0x202F, 0x205F, 0x3000} then 0x20
      else c)"

definition normalizeForFuzzyMatch :: "(jstr \<Rightarrow> jstr) \<Rightarrow> jstr \<Rightarrow> jstr" where
  "normalizeForFuzzyMatch nfkc t = map fuzzy_char (join_with [LF] (map js_trimEnd (split_on LF (nfkc t))))"

record fuzzy_match_result =
  fm_found :: bool
  fm_index :: "nat option"
  fm_matchLength :: nat
  fm_usedFuzzyMatch :: bool
  fm_contentForReplacement :: jstr

record edit =
  ed_oldText :: jstr
  ed_newText :: jstr

record matched_edit =
  me_editIndex :: nat
  me_matchIndex :: nat
  me_matchLength :: nat
  me_newText :: jstr

record applied_edits_result =
  ap_baseContent :: jstr
  ap_newContent :: jstr

definition fuzzyFindText :: "(jstr \<Rightarrow> jstr) \<Rightarrow> jstr \<Rightarrow> jstr \<Rightarrow> fuzzy_match_result" where
  "fuzzyFindText nfkc content oldText =
     (case index_of content oldText of
        Some i \<Rightarrow> \<lparr>fm_found = True, fm_index = Some i, fm_matchLength = length oldText,
                   fm_usedFuzzyMatch = False, fm_contentForReplacement = content\<rparr>
      | None \<Rightarrow>
          (let fuzzyContent = normalizeForFuzzyMatch nfkc content;
               fuzzyOldText = normalizeForFuzzyMatch nfkc oldText
           in case index_of fuzzyContent fuzzyOldText of
                None \<Rightarrow> \<lparr>fm_found = False, fm_index = None, fm_matchLength = 0,
                         fm_usedFuzzyMatch = False, fm_contentForReplacement = content\<rparr>
              | Some i \<Rightarrow> \<lparr>fm_found = True, fm_index = Some i, fm_matchLength = length fuzzyOldText,
                           fm_usedFuzzyMatch = True, fm_contentForReplacement = fuzzyContent\<rparr>))"

text \<open>\<^verbatim>\<open>content.split(separator)\<close> for a string separator; the empty one splits into code units.\<close>

function split_pieces :: "jstr \<Rightarrow> jstr \<Rightarrow> jstr \<Rightarrow> jstr list" where
  "split_pieces sep piece s =
     (if s = [] then [piece]
      else if sep \<noteq> [] \<and> prefix sep s then piece # split_pieces sep [] (drop (length sep) s)
      else split_pieces sep (piece @ [hd s]) (tl s))"
  by pat_completeness auto

termination by (relation "measure (\<lambda>(sep, piece, s). length s)") auto

declare split_pieces.simps [simp del]

definition js_split :: "jstr \<Rightarrow> jstr \<Rightarrow> jstr list" where
  "js_split s sep = (if sep = [] then map (\<lambda>c. [c]) s else split_pieces sep [] s)"

definition countOccurrences :: "(jstr \<Rightarrow> jstr) \<Rightarrow> jstr \<Rightarrow> jstr \<Rightarrow> int" where
  "countOccurrences nfkc content oldText =
     int (length (js_split (normalizeForFuzzyMatch nfkc content) (normalizeForFuzzyMatch nfkc oldText))) - 1"

section \<open>Errors\<close>

definition edit_name :: "nat \<Rightarrow> jstr" where
  "edit_name i = js ''edits['' @ nat_text i @ js '']''"

definition getNotFoundError :: "jstr \<Rightarrow> nat \<Rightarrow> nat \<Rightarrow> jerror" where
  "getNotFoundError path i totalEdits =
     (if totalEdits = 1
      then js ''Could not find the exact text in '' @ path
        @ js ''. The old text must match exactly including all whitespace and newlines.''
      else js ''Could not find '' @ edit_name i @ js '' in '' @ path
        @ js ''. The oldText must match exactly including all whitespace and newlines.'')"

definition getDuplicateError :: "jstr \<Rightarrow> nat \<Rightarrow> nat \<Rightarrow> int \<Rightarrow> jerror" where
  "getDuplicateError path i totalEdits occurrences =
     (if totalEdits = 1
      then js ''Found '' @ int_text occurrences @ js '' occurrences of the text in '' @ path
        @ js ''. The text must be unique. Please provide more context to make it unique.''
      else js ''Found '' @ int_text occurrences @ js '' occurrences of '' @ edit_name i @ js '' in '' @ path
        @ js ''. Each oldText must be unique. Please provide more context to make it unique.'')"

definition getEmptyOldTextError :: "jstr \<Rightarrow> nat \<Rightarrow> nat \<Rightarrow> jerror" where
  "getEmptyOldTextError path i totalEdits =
     (if totalEdits = 1 then js ''oldText must not be empty in '' @ path @ js ''.''
      else edit_name i @ js ''.oldText must not be empty in '' @ path @ js ''.'')"

definition getNoChangeError :: "jstr \<Rightarrow> nat \<Rightarrow> jerror" where
  "getNoChangeError path totalEdits =
     (if totalEdits = 1
      then js ''No changes made to '' @ path @ js ''. The replacement produced identical content. ''
        @ js ''This might indicate an issue with special characters or the text not existing as expected.''
      else js ''No changes made to '' @ path @ js ''. The replacements produced identical content.'')"

definition overlap_error :: "jstr \<Rightarrow> matched_edit \<Rightarrow> matched_edit \<Rightarrow> jerror" where
  "overlap_error path previous current =
     edit_name (me_editIndex previous) @ js '' and '' @ edit_name (me_editIndex current) @ js '' overlap in '' @ path
     @ js ''. Merge them into one edit or target disjoint regions.''"

section \<open>Applying edits\<close>

definition normalized_edit :: "edit \<Rightarrow> edit" where
  "normalized_edit e = \<lparr>ed_oldText = normalizeToLF (ed_oldText e), ed_newText = normalizeToLF (ed_newText e)\<rparr>"

text \<open>The loop that looks for each edit; \<open>i\<close> is the index of the first of the edits left.\<close>

fun match_edits :: "(jstr \<Rightarrow> jstr) \<Rightarrow> jstr \<Rightarrow> jstr \<Rightarrow> nat \<Rightarrow> nat \<Rightarrow> edit list \<Rightarrow> jerror + matched_edit list" where
  "match_edits nfkc base path totalEdits i [] = Inr []"
| "match_edits nfkc base path totalEdits i (e # es) =
     (let m = fuzzyFindText nfkc base (ed_oldText e) in
      if \<not> fm_found m then Inl (getNotFoundError path i totalEdits)
      else
        (let occurrences = countOccurrences nfkc base (ed_oldText e) in
         if occurrences > 1 then Inl (getDuplicateError path i totalEdits occurrences)
         else
           (case match_edits nfkc base path totalEdits (Suc i) es of
              Inl err \<Rightarrow> Inl err
            | Inr ms \<Rightarrow>
                Inr (\<lparr>me_editIndex = i, me_matchIndex = the (fm_index m), me_matchLength = fm_matchLength m,
                      me_newText = ed_newText e\<rparr> # ms))))"

fun find_overlap :: "matched_edit list \<Rightarrow> (matched_edit \<times> matched_edit) option" where
  "find_overlap (a # b # ms) =
     (if me_matchIndex a + me_matchLength a > me_matchIndex b then Some (a, b) else find_overlap (b # ms))"
| "find_overlap _ = None"

definition replace_at :: "matched_edit \<Rightarrow> jstr \<Rightarrow> jstr" where
  "replace_at e content =
     take (me_matchIndex e) content @ me_newText e @ drop (me_matchIndex e + me_matchLength e) content"

definition applyEditsToNormalizedContent ::
  "(jstr \<Rightarrow> jstr) \<Rightarrow> jstr \<Rightarrow> edit list \<Rightarrow> jstr \<Rightarrow> jerror + applied_edits_result" where
  "applyEditsToNormalizedContent nfkc content edits path =
     (let es = map normalized_edit edits in
      case find_index (\<lambda>e. ed_oldText e = []) es of
        Some i \<Rightarrow> Inl (getEmptyOldTextError path i (length es))
      | None \<Rightarrow>
          (let initialMatches = map (\<lambda>e. fuzzyFindText nfkc content (ed_oldText e)) es;
               base = (if \<exists>m\<in>set initialMatches. fm_usedFuzzyMatch m then normalizeForFuzzyMatch nfkc content else content)
           in case match_edits nfkc base path (length es) 0 es of
                Inl err \<Rightarrow> Inl err
              | Inr matched \<Rightarrow>
                  (let ms = sort_key me_matchIndex matched in
                   case find_overlap ms of
                     Some (previous, current) \<Rightarrow> Inl (overlap_error path previous current)
                   | None \<Rightarrow>
                       (let new = foldr replace_at ms base in
                        if base = new then Inl (getNoChangeError path (length es))
                        else Inr \<lparr>ap_baseContent = base, ap_newContent = new\<rparr>))))"

section \<open>Searching\<close>

lemma fuzzyFindText_simps:
  "fm_found (fuzzyFindText nfkc base old) \<Longrightarrow>
   (\<exists>i. fm_index (fuzzyFindText nfkc base old) = Some i
     \<and> (\<not> fm_usedFuzzyMatch (fuzzyFindText nfkc base old) \<and> index_of base old = Some i
          \<and> fm_matchLength (fuzzyFindText nfkc base old) = length old
       \<or> fm_usedFuzzyMatch (fuzzyFindText nfkc base old) \<and> index_of base old = None
          \<and> index_of (normalizeForFuzzyMatch nfkc base) (normalizeForFuzzyMatch nfkc old) = Some i
          \<and> fm_matchLength (fuzzyFindText nfkc base old) = length (normalizeForFuzzyMatch nfkc old)))"
  by (auto simp: fuzzyFindText_def Let_def split: option.splits)

section \<open>Normalised text stays as it is\<close>

lemma fuzzy_char_space: "js_space (fuzzy_char c) \<longleftrightarrow> js_space c"
proof -
  have "js_space (0x20 :: code_unit)" "\<not> js_space (0x27 :: code_unit)" "\<not> js_space (0x22 :: code_unit)" "\<not> js_space (0x2D :: code_unit)"
    by (simp_all add: js_space_def)
  moreover have "\<not> js_space c" if "c \<in> {0x2018, 0x2019, 0x201A, 0x201B, 0x201C, 0x201D, 0x201E, 0x201F,
      0x2010, 0x2011, 0x2012, 0x2013, 0x2014, 0x2015, 0x2212}"
    using that by (auto simp: js_space_def)
  moreover have "js_space c" if "c = 0xA0 \<or> 0x2002 \<le> c \<and> c \<le> 0x200A \<or> c \<in> {0x202F, 0x205F, 0x3000}"
    using that by (auto simp: js_space_def word_le_nat_alt)
  ultimately show ?thesis by (auto simp: fuzzy_char_def)
qed

lemma fuzzy_char_LF [simp]: "fuzzy_char c = LF \<longleftrightarrow> c = LF"
  by (auto simp: fuzzy_char_def LF_def)

lemma fuzzy_char_idem [simp]: "fuzzy_char (fuzzy_char c) = fuzzy_char c"
  by (simp add: fuzzy_char_def)

lemma split_on_map:
  assumes "\<And>x. f x = c \<longleftrightarrow> x = c"
  shows "split_on c (map f s) = map (map f) (split_on c s)"
  by (induction s) (auto simp: assms split: list.splits)

lemma js_trimEnd_map_fuzzy: "js_trimEnd (map fuzzy_char s) = map fuzzy_char (js_trimEnd s)"
  by (simp add: js_trimEnd_def rev_map dropWhile_map comp_def fuzzy_char_space)

lemma set_js_trimEnd: "set (js_trimEnd s) \<subseteq> set s"
  by (auto simp: js_trimEnd_def dest: set_dropWhileD)

lemma normalize_idem:
  assumes "nfkc (normalizeForFuzzyMatch nfkc t) = normalizeForFuzzyMatch nfkc t"
  shows "normalizeForFuzzyMatch nfkc (normalizeForFuzzyMatch nfkc t) = normalizeForFuzzyMatch nfkc t"
proof -
  define ls where "ls = map js_trimEnd (split_on LF (nfkc t))"
  have "\<forall>l\<in>set ls. LF \<notin> set l" using split_on_pieces set_js_trimEnd unfolding ls_def by fastforce
  moreover have "ls \<noteq> []" by (simp add: ls_def)
  ultimately have split: "split_on LF (join_with [LF] ls) = ls" by (intro split_join)
  have norm: "normalizeForFuzzyMatch nfkc t = map fuzzy_char (join_with [LF] ls)"
    by (simp add: normalizeForFuzzyMatch_def ls_def)
  have join: "map f (join_with sep xs) = join_with (map f sep) (map (map f) xs)" for f sep and xs :: "jstr list"
    by (induction sep xs rule: join_with.induct) simp_all
  have "map js_trimEnd ls = ls" by (simp add: ls_def)
  then have "map js_trimEnd (split_on LF (map fuzzy_char (join_with [LF] ls))) = map (map fuzzy_char) ls"
    by (simp add: split_on_map split js_trimEnd_map_fuzzy comp_def) (metis (no_types, lifting) map_eq_conv map_map comp_apply)
  then show ?thesis
    unfolding normalizeForFuzzyMatch_def [of nfkc "normalizeForFuzzyMatch nfkc t"] assms
    by (simp add: norm join [of fuzzy_char "[LF]"] comp_def)
qed

section \<open>Replacing regions\<close>

definition matched_text :: "jstr \<Rightarrow> matched_edit \<Rightarrow> jstr" where
  "matched_text base e = take (me_matchLength e) (drop (me_matchIndex e) base)"

text \<open>The text with gaps between the parts of a list.\<close>

fun interleave :: "jstr list \<Rightarrow> jstr list \<Rightarrow> jstr" where
  "interleave (g # gs) (x # xs) = g @ x @ interleave gs xs"
| "interleave gs _ = concat gs"

fun gaps :: "jstr \<Rightarrow> nat \<Rightarrow> matched_edit list \<Rightarrow> jstr list" where
  "gaps base pos [] = [drop pos base]"
| "gaps base pos (e # es) =
     take (me_matchIndex e - pos) (drop pos base) # gaps base (me_matchIndex e + me_matchLength e) es"

fun disjoint_from :: "jstr \<Rightarrow> nat \<Rightarrow> matched_edit list \<Rightarrow> bool" where
  "disjoint_from base pos [] = (pos \<le> length base)"
| "disjoint_from base pos (e # es) =
     (pos \<le> me_matchIndex e \<and> me_matchIndex e + me_matchLength e \<le> length base
      \<and> disjoint_from base (me_matchIndex e + me_matchLength e) es)"

lemma length_gaps [simp]: "length (gaps base pos ms) = Suc (length ms)"
  by (induction ms arbitrary: pos) simp_all

lemma interleave_matched:
  "disjoint_from base pos ms \<Longrightarrow> drop pos base = interleave (gaps base pos ms) (map (matched_text base) ms)"
proof (induction ms arbitrary: pos)
  case (Cons e es)
  let ?i = "me_matchIndex e" and ?n = "me_matchLength e"
  from Cons have IH: "drop (?i + ?n) base = interleave (gaps base (?i + ?n) es) (map (matched_text base) es)" by simp
  have "drop pos base = take (?i - pos) (drop pos base) @ drop ?i base"
    using Cons.prems by (metis append_take_drop_id disjoint_from.simps(2) drop_drop le_add_diff_inverse2)
  moreover have "drop ?i base = matched_text base e @ drop (?i + ?n) base"
    unfolding matched_text_def by (metis append_take_drop_id drop_drop add.commute)
  ultimately show ?case by (simp add: IH [symmetric])
qed simp

lemma replace_all:
  "disjoint_from base pos ms \<Longrightarrow> foldr replace_at ms base = take pos base @ interleave (gaps base pos ms) (map me_newText ms)"
proof (induction ms arbitrary: pos)
  case (Cons e es)
  let ?i = "me_matchIndex e" and ?n = "me_matchLength e"
  let ?rest = "interleave (gaps base (?i + ?n) es) (map me_newText es)"
  from Cons have IH: "foldr replace_at es base = take (?i + ?n) base @ ?rest" by simp
  have len: "pos \<le> ?i" "?i + ?n \<le> length base" using Cons.prems by simp_all
  have "take ?i (foldr replace_at es base) = take ?i base" unfolding IH using len by simp
  moreover have "drop (?i + ?n) (foldr replace_at es base) = ?rest" unfolding IH using len by simp
  moreover have "take ?i base = take pos base @ take (?i - pos) (drop pos base)"
    using len by (metis le_add_diff_inverse take_add)
  ultimately show ?case by (simp add: replace_at_def [of e])
qed simp

lemma disjointI:
  assumes "find_overlap ms = None" and "\<forall>e\<in>set ms. me_matchIndex e + me_matchLength e \<le> length base"
    and "pos \<le> length base" and "ms \<noteq> [] \<longrightarrow> pos \<le> me_matchIndex (hd ms)"
  shows "disjoint_from base pos ms"
  using assms
proof (induction ms arbitrary: pos rule: find_overlap.induct)
  case (1 a b ms)
  then have "\<not> me_matchIndex b < me_matchIndex a + me_matchLength a" "find_overlap (b # ms) = None"
    by (simp_all split: if_splits)
  then have "disjoint_from base (me_matchIndex a + me_matchLength a) (b # ms)"
    using 1 by (intro "1.IH") simp_all
  with 1 show ?case by simp
qed simp_all

lemma match_edits_InrD:
  "match_edits nfkc base path n i es = Inr ms \<Longrightarrow>
   length ms = length es \<and>
   (\<forall>k<length es. me_editIndex (ms ! k) = i + k \<and> me_newText (ms ! k) = ed_newText (es ! k)
      \<and> fm_found (fuzzyFindText nfkc base (ed_oldText (es ! k)))
      \<and> countOccurrences nfkc base (ed_oldText (es ! k)) \<le> 1
      \<and> me_matchIndex (ms ! k) = the (fm_index (fuzzyFindText nfkc base (ed_oldText (es ! k))))
      \<and> me_matchLength (ms ! k) = fm_matchLength (fuzzyFindText nfkc base (ed_oldText (es ! k))))"
proof (induction nfkc base path n i es arbitrary: ms rule: match_edits.induct)
  case (2 nfkc base path n i e es)
  then obtain ms' where ok: "fm_found (fuzzyFindText nfkc base (ed_oldText e))"
      "\<not> countOccurrences nfkc base (ed_oldText e) > 1"
    and rest: "match_edits nfkc base path n (Suc i) es = Inr ms'"
    and ms: "ms = \<lparr>me_editIndex = i, me_matchIndex = the (fm_index (fuzzyFindText nfkc base (ed_oldText e))),
       me_matchLength = fm_matchLength (fuzzyFindText nfkc base (ed_oldText e)), me_newText = ed_newText e\<rparr> # ms'"
    by (auto simp: Let_def split: if_splits sum.splits)
  from 2(1) [OF refl _ refl] ok rest
  have "length ms' = length es" and all: "\<forall>k<length es. me_editIndex (ms' ! k) = Suc i + k \<and> me_newText (ms' ! k) = ed_newText (es ! k)
      \<and> fm_found (fuzzyFindText nfkc base (ed_oldText (es ! k)))
      \<and> countOccurrences nfkc base (ed_oldText (es ! k)) \<le> 1
      \<and> me_matchIndex (ms' ! k) = the (fm_index (fuzzyFindText nfkc base (ed_oldText (es ! k))))
      \<and> me_matchLength (ms' ! k) = fm_matchLength (fuzzyFindText nfkc base (ed_oldText (es ! k)))"
    by simp_all
  then show ?case
    using ok unfolding ms by (auto simp: nth_Cons split: nat.splits)
qed simp

section \<open>Line endings come back\<close>

text \<open>A text in which every line ends the same way.\<close>

fun crlf_only :: "jstr \<Rightarrow> bool" where
  "crlf_only [] = True"
| "crlf_only [c] = (c \<noteq> CR \<and> c \<noteq> LF)"
| "crlf_only (c # d # s) = (if c = CR then d = LF \<and> crlf_only s else c \<noteq> LF \<and> crlf_only (d # s))"

definition uniform_endings :: "jstr \<Rightarrow> bool" where
  "uniform_endings t \<longleftrightarrow> CR \<notin> set t \<or> crlf_only t"

lemma CR_LF [simp]: "CR \<noteq> LF" "LF \<noteq> CR"
  by (simp_all add: CR_def LF_def)

lemma normalizeToLF_id: "CR \<notin> set t \<Longrightarrow> normalizeToLF t = t"
proof -
  assume "CR \<notin> set t"
  then have "crlf_to_lf t = t" by (induction t rule: crlf_to_lf.induct) auto
  moreover have "map (\<lambda>c. if c = CR then LF else c) t = t" using \<open>CR \<notin> set t\<close> by (induction t) auto
  ultimately show ?thesis by (simp add: normalizeToLF_def)
qed

lemma crlf_restored: "crlf_only t \<Longrightarrow> restoreLineEndings (normalizeToLF t) [CR, LF] = t"
  by (induction t rule: crlf_only.induct) (auto simp: restoreLineEndings_def normalizeToLF_def split: if_splits)

lemma index_of_CRLF: "CR \<notin> set t \<Longrightarrow> index_of t [CR, LF] = None"
  by (induction t) auto

lemma index_of_crlf_only:
  "crlf_only t \<Longrightarrow> LF \<in> set t \<Longrightarrow> \<exists>i. index_of t [CR, LF] = Some i \<and> index_of t [LF] = Some (Suc i)"
  by (induction t rule: crlf_only.induct) (auto split: if_splits)

lemma index_of_no_LF: "LF \<notin> set t \<Longrightarrow> index_of t [LF] = None"
  by (induction t) auto

lemma crlf_only_no_LF: "crlf_only t \<Longrightarrow> LF \<notin> set t \<Longrightarrow> CR \<notin> set t"
  by (induction t rule: crlf_only.induct) (auto split: if_splits)

text \<open>
  A file whose lines end the same way comes back unchanged from normalising its line endings for
  matching and restoring them.\<close>

theorem line_endings_restored:
  assumes "uniform_endings t"
  shows "restoreLineEndings (normalizeToLF t) (detectLineEnding t) = t"
proof (cases "CR \<in> set t")
  case False
  then have "detectLineEnding t = [LF]"
    by (simp add: detectLineEnding_def index_of_CRLF split: option.split)
  with normalizeToLF_id [OF False] show ?thesis by (simp add: restoreLineEndings_def)
next
  case True
  with assms have crlf: "crlf_only t" by (simp add: uniform_endings_def)
  with True crlf_only_no_LF have "LF \<in> set t" by blast
  from index_of_crlf_only [OF crlf this] have "detectLineEnding t = [CR, LF]"
    by (auto simp: detectLineEnding_def)
  then show ?thesis using crlf_restored [OF crlf] by simp
qed

section \<open>What an edit does\<close>

text \<open>
  What is asked of Unicode normalisation: it leaves alone what has been normalised for matching. NFKC does: it is
  idempotent, and the characters put in after it are ASCII and compose with nothing that follows them.
\<close>

definition normalizer_ok :: "(jstr \<Rightarrow> jstr) \<Rightarrow> bool" where
  "normalizer_ok nfkc \<longleftrightarrow> (\<forall>t. nfkc (normalizeForFuzzyMatch nfkc t) = normalizeForFuzzyMatch nfkc t)"

definition found_in :: "(jstr \<Rightarrow> jstr) \<Rightarrow> jstr \<Rightarrow> edit list \<Rightarrow> matched_edit \<Rightarrow> bool" where
  "found_in nfkc base es m \<longleftrightarrow>
     me_editIndex m < length es \<and> me_newText m = ed_newText (es ! me_editIndex m)
     \<and> me_matchIndex m + me_matchLength m \<le> length base
     \<and> (index_of base (ed_oldText (es ! me_editIndex m)) = Some (me_matchIndex m)
          \<and> matched_text base m = ed_oldText (es ! me_editIndex m)
        \<or> index_of base (ed_oldText (es ! me_editIndex m)) = None
          \<and> matched_text base m = normalizeForFuzzyMatch nfkc (ed_oldText (es ! me_editIndex m)))
     \<and> countOccurrences nfkc base (ed_oldText (es ! me_editIndex m)) \<le> 1"

lemma match_edits_found:
  assumes "match_edits nfkc base path n 0 es = Inr ms"
    and "normalizeForFuzzyMatch nfkc base = base \<or> (\<forall>e\<in>set es. \<not> fm_usedFuzzyMatch (fuzzyFindText nfkc base (ed_oldText e)))"
  shows "\<forall>m\<in>set ms. found_in nfkc base es m" and "map me_editIndex ms = [0..<length es]"
proof -
  from match_edits_InrD [OF assms(1)] have len: "length ms = length es"
    and all: "\<And>k. k < length es \<Longrightarrow> me_editIndex (ms ! k) = k \<and> me_newText (ms ! k) = ed_newText (es ! k)
      \<and> fm_found (fuzzyFindText nfkc base (ed_oldText (es ! k)))
      \<and> countOccurrences nfkc base (ed_oldText (es ! k)) \<le> 1
      \<and> me_matchIndex (ms ! k) = the (fm_index (fuzzyFindText nfkc base (ed_oldText (es ! k))))
      \<and> me_matchLength (ms ! k) = fm_matchLength (fuzzyFindText nfkc base (ed_oldText (es ! k)))"
    by auto
  show "map me_editIndex ms = [0..<length es]" using len all by (intro nth_equalityI) auto
  show "\<forall>m\<in>set ms. found_in nfkc base es m"
  proof
    fix m assume "m \<in> set ms"
    then obtain k where k: "k < length es" "m = ms ! k" using len by (auto simp: in_set_conv_nth)
    let ?old = "ed_oldText (es ! k)"
    from all [OF k(1)] have m: "me_editIndex m = k" "me_newText m = ed_newText (es ! k)"
      "countOccurrences nfkc base ?old \<le> 1"
      "me_matchIndex m = the (fm_index (fuzzyFindText nfkc base ?old))"
      "me_matchLength m = fm_matchLength (fuzzyFindText nfkc base ?old)"
      and found: "fm_found (fuzzyFindText nfkc base ?old)" by (simp_all add: k(2))
    from fuzzyFindText_simps [OF found] obtain i where i: "fm_index (fuzzyFindText nfkc base ?old) = Some i"
      and cases: "\<not> fm_usedFuzzyMatch (fuzzyFindText nfkc base ?old) \<and> index_of base ?old = Some i
          \<and> fm_matchLength (fuzzyFindText nfkc base ?old) = length ?old
       \<or> fm_usedFuzzyMatch (fuzzyFindText nfkc base ?old) \<and> index_of base ?old = None
          \<and> index_of (normalizeForFuzzyMatch nfkc base) (normalizeForFuzzyMatch nfkc ?old) = Some i
          \<and> fm_matchLength (fuzzyFindText nfkc base ?old) = length (normalizeForFuzzyMatch nfkc ?old)" by blast
    from cases show "found_in nfkc base es m"
    proof
      assume "\<not> fm_usedFuzzyMatch (fuzzyFindText nfkc base ?old) \<and> index_of base ?old = Some i
          \<and> fm_matchLength (fuzzyFindText nfkc base ?old) = length ?old"
      with index_of_SomeD [of base ?old i] m i k(1) show ?thesis by (simp add: found_in_def matched_text_def)
    next
      assume fuzzy: "fm_usedFuzzyMatch (fuzzyFindText nfkc base ?old) \<and> index_of base ?old = None
          \<and> index_of (normalizeForFuzzyMatch nfkc base) (normalizeForFuzzyMatch nfkc ?old) = Some i
          \<and> fm_matchLength (fuzzyFindText nfkc base ?old) = length (normalizeForFuzzyMatch nfkc ?old)"
      then have "normalizeForFuzzyMatch nfkc base = base" using assms(2) k(1) by auto
      with fuzzy index_of_SomeD [of base "normalizeForFuzzyMatch nfkc ?old" i] m i k(1) show ?thesis
        by (simp add: found_in_def matched_text_def)
    qed
  qed
qed

lemma applied_edits:
  assumes "normalizer_ok nfkc
      \<or> (\<forall>e\<in>set (map normalized_edit edits). \<not> fm_usedFuzzyMatch (fuzzyFindText nfkc content (ed_oldText e)))"
    and "applyEditsToNormalizedContent nfkc content edits path = Inr r"
  defines "es \<equiv> map normalized_edit edits" and "base \<equiv> ap_baseContent r"
  obtains ms where "mset (map me_editIndex ms) = mset [0..<length edits]" and "\<forall>m\<in>set ms. found_in nfkc base es m"
    and "base = interleave (gaps base 0 ms) (map (matched_text base) ms)"
    and "ap_newContent r = interleave (gaps base 0 ms) (map me_newText ms)"
    and "base \<noteq> ap_newContent r" and "\<forall>e\<in>set es. ed_oldText e \<noteq> []"
    and "base = (if \<exists>e\<in>set es. fm_usedFuzzyMatch (fuzzyFindText nfkc content (ed_oldText e))
      then normalizeForFuzzyMatch nfkc content else content)"
proof -
  define b where "b = (if \<exists>e\<in>set es. fm_usedFuzzyMatch (fuzzyFindText nfkc content (ed_oldText e))
      then normalizeForFuzzyMatch nfkc content else content)"
  obtain matched where nonempty: "find_index (\<lambda>e. ed_oldText e = []) es = None"
    and matched: "match_edits nfkc b path (length es) 0 es = Inr matched"
    and disj: "find_overlap (sort_key me_matchIndex matched) = None"
    and new: "b \<noteq> foldr replace_at (sort_key me_matchIndex matched) b"
    and r: "r = \<lparr>ap_baseContent = b, ap_newContent = foldr replace_at (sort_key me_matchIndex matched) b\<rparr>"
    using assms(2) unfolding applyEditsToNormalizedContent_def Let_def es_def [symmetric] b_def
    by (auto split: option.splits sum.splits if_splits prod.splits)
  let ?ms = "sort_key me_matchIndex matched"
  have base: "base = b" by (simp add: base_def r)
  have norm: "normalizeForFuzzyMatch nfkc b = b \<or> (\<forall>e\<in>set es. \<not> fm_usedFuzzyMatch (fuzzyFindText nfkc b (ed_oldText e)))"
    using assms(1) normalize_idem [of nfkc content] by (auto simp: b_def normalizer_ok_def es_def)
  note found = match_edits_found [OF matched norm]
  have "\<forall>m\<in>set ?ms. me_matchIndex m + me_matchLength m \<le> length b" using found(1) by (simp add: found_in_def)
  from disjointI [OF disj this, of 0] have dis: "disjoint_from b 0 ?ms" by simp
  show thesis
  proof (rule that [of ?ms])
    have "mset (map me_editIndex ?ms) = mset (map me_editIndex matched)" by simp
    then show "mset (map me_editIndex ?ms) = mset [0..<length edits]" unfolding found(2) by (simp add: es_def)
    show "\<forall>m\<in>set ?ms. found_in nfkc base es m" using found(1) by (simp add: base)
    show "base = interleave (gaps base 0 ?ms) (map (matched_text base) ?ms)"
      using interleave_matched [OF dis] by (simp add: base)
    show "ap_newContent r = interleave (gaps base 0 ?ms) (map me_newText ?ms)"
      using replace_all [OF dis] by (simp add: base r)
    show "base \<noteq> ap_newContent r" using new by (simp add: base r)
    show "\<forall>e\<in>set es. ed_oldText e \<noteq> []" using nonempty by (auto simp: find_index_None_iff)
    show "base = (if \<exists>e\<in>set es. fm_usedFuzzyMatch (fuzzyFindText nfkc content (ed_oldText e))
      then normalizeForFuzzyMatch nfkc content else content)" by (simp add: base b_def)
  qed
qed

lemma index_of_sublist: "index_of s p = None \<longleftrightarrow> \<not> sublist p s"
proof (induction s p rule: index_of.induct)
  case (2 c s p)
  then show ?case by (auto simp: sublist_Cons_right)
qed (auto simp: sublist_Nil_right)

lemma used_fuzzy_absent: "fm_usedFuzzyMatch (fuzzyFindText nfkc content old) \<Longrightarrow> \<not> sublist old content"
  by (auto simp: fuzzyFindText_def index_of_sublist split: option.splits)

text \<open>The base of a successful edit is the content itself, unless an old text is not in it.\<close>

lemma applied_base:
  assumes "applyEditsToNormalizedContent nfkc content edits path = Inr r"
  shows "ap_baseContent r = (if \<forall>e\<in>set edits. sublist (normalizeToLF (ed_oldText e)) content
      then content else normalizeForFuzzyMatch nfkc content)"
proof -
  let ?es = "map normalized_edit edits"
  let ?fuzzy = "\<exists>e\<in>set ?es. fm_usedFuzzyMatch (fuzzyFindText nfkc content (ed_oldText e))"
  have old: "ed_oldText (normalized_edit e) = normalizeToLF (ed_oldText e)" for e
    by (simp add: normalized_edit_def)
  show ?thesis
  proof (cases ?fuzzy)
    case True
    then have "ap_baseContent r = normalizeForFuzzyMatch nfkc content"
      using assms by (auto simp: applyEditsToNormalizedContent_def Let_def split: option.splits sum.splits if_splits)
    moreover have absent: "\<not> (\<forall>e\<in>set edits. sublist (normalizeToLF (ed_oldText e)) content)"
      using True used_fuzzy_absent by (auto simp: old)
    ultimately show ?thesis unfolding if_not_P [OF absent] by blast
  next
    case False
    then obtain matched where m: "match_edits nfkc content path (length ?es) 0 ?es = Inr matched"
      and base: "ap_baseContent r = content"
      using assms by (auto simp: applyEditsToNormalizedContent_def Let_def split: option.splits sum.splits if_splits)
    have "sublist (ed_oldText (?es ! k)) content" if k: "k < length ?es" for k
    proof -
      from match_edits_InrD [OF m] k have "fm_found (fuzzyFindText nfkc content (ed_oldText (?es ! k)))" by auto
      moreover from False k have "\<not> fm_usedFuzzyMatch (fuzzyFindText nfkc content (ed_oldText (?es ! k)))"
        by (meson nth_mem)
      ultimately have "index_of content (ed_oldText (?es ! k)) \<noteq> None" using fuzzyFindText_simps by blast
      then show ?thesis by (simp add: index_of_sublist)
    qed
    then have "\<forall>e\<in>set edits. sublist (normalizeToLF (ed_oldText e)) content"
      by (auto simp: in_set_conv_nth old [symmetric])
    with base show ?thesis by simp
  qed
qed

text \<open>
  C23: A successful edit replaces each \<^verbatim>\<open>oldText\<close> at one place and leaves the rest of the base as it was, whatever the order
  of the edits: the base is its gaps with the matched texts between them, the new content the same gaps with
  the new texts. The base is the content itself if every old text is in it; only otherwise it is the content
  normalised for fuzzy matching. There is one match for each edit; it is the old text where the base has it, and
  its normal form elsewhere, and by the count of the tool the old text occurs at most once in the base. (Unicode normalisation leaves normalised text alone.)
\<close>

theorem edits_replace_exactly:
  assumes "normalizer_ok nfkc" and "applyEditsToNormalizedContent nfkc content edits path = Inr r"
  shows "\<exists>ms gs. mset (map me_editIndex ms) = mset [0..<length edits] \<and> length gs = Suc (length ms)
    \<and> ap_baseContent r = (if \<forall>e\<in>set edits. sublist (normalizeToLF (ed_oldText e)) content
        then content else normalizeForFuzzyMatch nfkc content)
    \<and> ap_baseContent r = interleave gs (map (matched_text (ap_baseContent r)) ms)
    \<and> ap_newContent r = interleave gs (map me_newText ms)
    \<and> (\<forall>m\<in>set ms. me_newText m = normalizeToLF (ed_newText (edits ! me_editIndex m))
        \<and> matched_text (ap_baseContent r) m =
            (if sublist (normalizeToLF (ed_oldText (edits ! me_editIndex m))) (ap_baseContent r)
             then normalizeToLF (ed_oldText (edits ! me_editIndex m))
             else normalizeForFuzzyMatch nfkc (normalizeToLF (ed_oldText (edits ! me_editIndex m))))
        \<and> countOccurrences nfkc (ap_baseContent r) (normalizeToLF (ed_oldText (edits ! me_editIndex m))) \<le> 1)
    \<and> ap_baseContent r \<noteq> ap_newContent r"
proof -
  let ?base = "ap_baseContent r"
  obtain ms where ms: "mset (map me_editIndex ms) = mset [0..<length edits]"
    "\<forall>m\<in>set ms. found_in nfkc ?base (map normalized_edit edits) m"
    "?base = interleave (gaps ?base 0 ms) (map (matched_text ?base) ms)"
    "ap_newContent r = interleave (gaps ?base 0 ms) (map me_newText ms)" "?base \<noteq> ap_newContent r"
    using applied_edits [OF disjI1 [OF assms(1)] assms(2)] by metis
  have "me_newText m = normalizeToLF (ed_newText (edits ! me_editIndex m))
        \<and> matched_text ?base m =
            (if sublist (normalizeToLF (ed_oldText (edits ! me_editIndex m))) ?base
             then normalizeToLF (ed_oldText (edits ! me_editIndex m))
             else normalizeForFuzzyMatch nfkc (normalizeToLF (ed_oldText (edits ! me_editIndex m))))
        \<and> countOccurrences nfkc ?base (normalizeToLF (ed_oldText (edits ! me_editIndex m))) \<le> 1"
    if "m \<in> set ms" for m
    using ms(2) that index_of_sublist [of ?base "normalizeToLF (ed_oldText (edits ! me_editIndex m))"]
    by (auto simp: found_in_def normalized_edit_def)
  with applied_base [OF assms(2)] ms(1,3,4,5) show ?thesis
    by (intro exI [of _ ms] exI [of _ "gaps ?base 0 ms"]) simp
qed

section \<open>Examples\<close>

theorem line_endings_restored_witness:
  "restoreLineEndings (normalizeToLF [0x61, CR, LF, 0x62]) (detectLineEnding [0x61, CR, LF, 0x62]) = [0x61, CR, LF, 0x62]"
proof -
  have "uniform_endings [0x61, CR, LF, 0x62]" by (simp add: uniform_endings_def CR_def LF_def)
  then show ?thesis by (rule line_endings_restored)
qed

lemma normalizer_ok_id: "normalizer_ok (\<lambda>t. t)"
  by (simp add: normalizer_ok_def)

definition letter_edit :: edit where
  "letter_edit = \<lparr>ed_oldText = [0x61], ed_newText = [0x63]\<rparr>"

lemma letters_plain:
  "normalizeToLF [0x61] = [0x61]" "normalizeToLF [0x63] = [0x63]" "normalizeToLF [0x61, 0x62] = [0x61, 0x62]"
  "normalizeForFuzzyMatch (\<lambda>t. t) [0x61] = [0x61]" "normalizeForFuzzyMatch (\<lambda>t. t) [0x61, 0x62] = [0x61, 0x62]"
  by (simp_all add: normalizeToLF_def normalizeForFuzzyMatch_def CR_def LF_def js_trimEnd_def js_space_def fuzzy_char_def)

lemma letter_occurs_once: "countOccurrences (\<lambda>t. t) [0x61, 0x62] [0x61] = 1"
proof -
  have "split_pieces [0x61] [] [0x61, 0x62] = [] # split_pieces [0x61] [] [0x62]"
    by (simp add: split_pieces.simps [of "[0x61]" "[]" "[0x61, 0x62]"])
  also have "split_pieces [0x61] [] [0x62] = split_pieces [0x61] [0x62] []"
    by (simp add: split_pieces.simps [of "[0x61]" "[]" "[0x62]"])
  also have "\<dots> = [[0x62]]" by (simp add: split_pieces.simps)
  finally show ?thesis by (simp add: countOccurrences_def js_split_def letters_plain)
qed

lemma letter_edited:
  "applyEditsToNormalizedContent (\<lambda>t. t) [0x61, 0x62] [letter_edit] (js ''f'') =
    Inr \<lparr>ap_baseContent = [0x61, 0x62], ap_newContent = [0x63, 0x62]\<rparr>"
  by (simp add: applyEditsToNormalizedContent_def letter_edit_def normalized_edit_def letters_plain fuzzyFindText_def
      letter_occurs_once replace_at_def Let_def)

theorem edits_replace_exactly_witness:
  "\<exists>ms gs. length ms = 1 \<and> length gs = 2 \<and> [0x61, 0x62 :: code_unit] = interleave gs (map (matched_text [0x61, 0x62]) ms)
    \<and> [0x63, 0x62] = interleave gs (map me_newText ms)"
proof -
  obtain ms gs where ms: "mset (map me_editIndex ms) = mset [0..<length [letter_edit]]" "length gs = Suc (length ms)"
    "[0x61, 0x62] = interleave gs (map (matched_text [0x61, 0x62]) ms)" "[0x63, 0x62] = interleave gs (map me_newText ms)"
    using edits_replace_exactly [OF normalizer_ok_id letter_edited] by auto
  have "length ms = 1" using arg_cong [OF ms(1), of size] by simp
  with ms(2,3,4) show ?thesis by (intro exI [of _ ms] exI [of _ gs]) simp
qed

end
