(* ===== verification/Edit_Tool.thy ===== *)
theory Edit_Tool
  imports Edit_Diff Messages
begin

text \<open>
  The edit tool: \<^verbatim>\<open>packages/coding-agent/src/core/tools/edit.ts\<close> without its rendering, and
  \<^verbatim>\<open>generateDiffString\<close> of \<^verbatim>\<open>edit-diff.ts\<close>. The file operations and the line diff of the package
  \<^verbatim>\<open>diff\<close> are parameters. The abort signal is asked where the code asks it; a signal that fires in between is seen
  at the next of these places.
\<close>

section \<open>The diff\<close>

record diff_part =
  dp_value :: jstr
  dp_added :: bool
  dp_removed :: bool

definition pad_start :: "nat \<Rightarrow> jstr \<Rightarrow> jstr" where
  "pad_start n s = replicate (n - length s) 0x20 @ s"

definition part_lines :: "jstr \<Rightarrow> jstr list" where
  "part_lines v = (let raw = split_on LF v in if last raw = [] then butlast raw else raw)"

record diff_state =
  df_output :: "jstr list"
  df_oldLineNum :: nat
  df_newLineNum :: nat
  df_lastWasChange :: bool
  df_firstChangedLine :: "nat option"

definition diff_row :: "string \<Rightarrow> nat \<Rightarrow> nat \<Rightarrow> jstr \<Rightarrow> jstr" where
  "diff_row mark width n line = js mark @ pad_start width (nat_text n) @ js '' '' @ line"

definition skip_row :: "nat \<Rightarrow> jstr" where
  "skip_row width = js '' '' @ pad_start width [] @ js '' ...''"

definition show_added :: "nat \<Rightarrow> diff_state \<Rightarrow> jstr \<Rightarrow> diff_state" where
  "show_added width s line =
     s\<lparr>df_output := df_output s @ [diff_row ''+'' width (df_newLineNum s) line], df_newLineNum := Suc (df_newLineNum s)\<rparr>"

definition show_removed :: "nat \<Rightarrow> diff_state \<Rightarrow> jstr \<Rightarrow> diff_state" where
  "show_removed width s line =
     s\<lparr>df_output := df_output s @ [diff_row ''-'' width (df_oldLineNum s) line], df_oldLineNum := Suc (df_oldLineNum s)\<rparr>"

definition show_context :: "nat \<Rightarrow> diff_state \<Rightarrow> jstr \<Rightarrow> diff_state" where
  "show_context width s line =
     s\<lparr>df_output := df_output s @ [diff_row '' '' width (df_oldLineNum s) line],
       df_oldLineNum := Suc (df_oldLineNum s), df_newLineNum := Suc (df_newLineNum s)\<rparr>"

definition skip_lines :: "nat \<Rightarrow> diff_state \<Rightarrow> diff_state" where
  "skip_lines n s = s\<lparr>df_oldLineNum := df_oldLineNum s + n, df_newLineNum := df_newLineNum s + n\<rparr>"

definition show_skip :: "nat \<Rightarrow> nat \<Rightarrow> diff_state \<Rightarrow> diff_state" where
  "show_skip width n s = skip_lines n (s\<lparr>df_output := df_output s @ [skip_row width]\<rparr>)"

definition is_change :: "diff_part \<Rightarrow> bool" where
  "is_change p \<longleftrightarrow> dp_added p \<or> dp_removed p"

definition changed_part :: "nat \<Rightarrow> diff_part \<Rightarrow> diff_state \<Rightarrow> diff_state" where
  "changed_part width p s =
     (let s = (if df_firstChangedLine s = None then s\<lparr>df_firstChangedLine := Some (df_newLineNum s)\<rparr> else s);
          s = foldl (if dp_added p then show_added width else show_removed width) s (part_lines (dp_value p))
      in s\<lparr>df_lastWasChange := True\<rparr>)"

definition context_part :: "nat \<Rightarrow> nat \<Rightarrow> bool \<Rightarrow> diff_part \<Rightarrow> diff_state \<Rightarrow> diff_state" where
  "context_part width contextLines nextPartIsChange p s =
     (let raw = part_lines (dp_value p);
          s =
            (if df_lastWasChange s \<and> nextPartIsChange
             then
               (if length raw \<le> contextLines * 2 then foldl (show_context width) s raw
                else
                  (let leadingLines = take contextLines raw;
                       trailingLines = drop (length raw - contextLines) raw;
                       skipped = length raw - length leadingLines - length trailingLines
                   in foldl (show_context width)
                        (show_skip width skipped (foldl (show_context width) s leadingLines)) trailingLines))
             else if df_lastWasChange s
             then
               (let shownLines = take contextLines raw;
                    skipped = length raw - length shownLines;
                    s = foldl (show_context width) s shownLines
                in if skipped > 0 then show_skip width skipped s else s)
             else if nextPartIsChange
             then
               (let skipped = length raw - contextLines;
                    s = (if skipped > 0 then show_skip width skipped s else s)
                in foldl (show_context width) s (drop skipped raw))
             else skip_lines (length raw) s)
      in s\<lparr>df_lastWasChange := False\<rparr>)"

fun diff_parts :: "nat \<Rightarrow> nat \<Rightarrow> diff_part list \<Rightarrow> diff_state \<Rightarrow> diff_state" where
  "diff_parts width contextLines [] s = s"
| "diff_parts width contextLines (p # ps) s =
     diff_parts width contextLines ps
       (if is_change p then changed_part width p s
        else context_part width contextLines (ps \<noteq> [] \<and> is_change (hd ps)) p s)"

definition generateDiffString ::
  "(jstr \<Rightarrow> jstr \<Rightarrow> diff_part list) \<Rightarrow> jstr \<Rightarrow> jstr \<Rightarrow> nat \<Rightarrow> jstr \<times> nat option" where
  "generateDiffString diffLines oldContent newContent contextLines =
     (let parts = diffLines oldContent newContent;
          maxLineNum = max (length (split_on LF oldContent)) (length (split_on LF newContent));
          width = length (nat_text maxLineNum);
          s = diff_parts width contextLines parts
            \<lparr>df_output = [], df_oldLineNum = 1, df_newLineNum = 1, df_lastWasChange = False, df_firstChangedLine = None\<rparr>
      in (join_with [LF] (df_output s), df_firstChangedLine s))"

section \<open>The tool\<close>

text \<open>The text that an edit of a file writes.\<close>

definition edited_file ::
  "(jstr \<Rightarrow> jstr) \<Rightarrow> jstr \<Rightarrow> edit list \<Rightarrow> jstr \<Rightarrow> jerror + (jstr \<times> applied_edits_result)" where
  "edited_file nfkc rawContent edits path =
     (let (bom, content) = stripBom rawContent;
          originalEnding = detectLineEnding content
      in case applyEditsToNormalizedContent nfkc (normalizeToLF content) edits path of
           Inl e \<Rightarrow> Inl e
         | Inr r \<Rightarrow> Inr (bom @ restoreLineEndings (ap_newContent r) originalEnding, r))"

text \<open>
  A failed \<open>eo_access\<close> gives the text that the code takes from the error: its code, or the whole error.
  \<open>eo_readFile\<close> gives the file decoded.
\<close>

record 'w edit_env =
  eo_access :: "jstr \<Rightarrow> 'w \<Rightarrow> (jerror + unit) \<times> 'w"
  eo_readFile :: "jstr \<Rightarrow> 'w \<Rightarrow> (jerror + jstr) \<times> 'w"
  eo_writeFile :: "jstr \<Rightarrow> jstr \<Rightarrow> 'w \<Rightarrow> (jerror + unit) \<times> 'w"
  eo_aborted :: "'w \<Rightarrow> bool"
  eo_resolveToCwd :: "jstr \<Rightarrow> jstr"
  eo_nfkc :: "jstr \<Rightarrow> jstr"
  eo_diffLines :: "jstr \<Rightarrow> jstr \<Rightarrow> diff_part list"

definition validateEditInput :: "edit list \<Rightarrow> jerror + edit list" where
  "validateEditInput edits =
     (if edits = [] then Inl (js ''Edit tool input is invalid. edits must contain at least one replacement.'')
      else Inr edits)"

definition operation_aborted :: jerror where
  "operation_aborted = js ''Operation aborted''"

text \<open>An error after an abort is not reported: the promise was rejected when the signal fired.\<close>

definition unless_aborted :: "'w edit_env \<Rightarrow> jerror \<Rightarrow> 'w \<Rightarrow> jerror" where
  "unless_aborted env e w = (if eo_aborted env w then operation_aborted else e)"

definition edit_result :: "'w edit_env \<Rightarrow> edit list \<Rightarrow> jstr \<Rightarrow> applied_edits_result \<Rightarrow> tool_result" where
  "edit_result env edits path r =
     (let (diff, firstChangedLine) = generateDiffString (eo_diffLines env) (ap_baseContent r) (ap_newContent r) 4 in
      \<lparr>res_content = [text_block (js ''Successfully replaced '' @ nat_text (length edits) @ js '' block(s) in '' @ path @ js ''.'')],
       res_details = Some (JObj ((js ''diff'', JStr diff)
         # (case firstChangedLine of None \<Rightarrow> [] | Some n \<Rightarrow> [(js ''firstChangedLine'', JNum (int n))]))),
       res_terminate = None\<rparr>)"

definition write_edited ::
  "'w edit_env \<Rightarrow> edit list \<Rightarrow> jstr \<Rightarrow> jstr \<Rightarrow> jstr \<Rightarrow> applied_edits_result \<Rightarrow> 'w \<Rightarrow> (jerror + tool_result) \<times> 'w" where
  "write_edited env edits path absolutePath final r w =
     (case eo_writeFile env absolutePath final w of
        (Inl e, w) \<Rightarrow> (Inl (unless_aborted env e w), w)
      | (Inr _, w) \<Rightarrow> (if eo_aborted env w then Inl operation_aborted else Inr (edit_result env edits path r), w))"

definition edit_execute :: "'w edit_env \<Rightarrow> jstr \<Rightarrow> edit list \<Rightarrow> 'w \<Rightarrow> (jerror + tool_result) \<times> 'w" where
  "edit_execute env path edits w =
     (case validateEditInput edits of
        Inl e \<Rightarrow> (Inl e, w)
      | Inr edits \<Rightarrow>
          (let absolutePath = eo_resolveToCwd env path in
           if eo_aborted env w then (Inl operation_aborted, w)
           else
             (case eo_access env absolutePath w of
                (Inl e, w) \<Rightarrow>
                  (Inl (unless_aborted env (js ''Could not edit file: '' @ path @ js ''. '' @ e @ js ''.'') w), w)
              | (Inr _, w) \<Rightarrow>
                  (if eo_aborted env w then (Inl operation_aborted, w)
                   else
                     (case eo_readFile env absolutePath w of
                        (Inl e, w) \<Rightarrow> (Inl (unless_aborted env e w), w)
                      | (Inr rawContent, w) \<Rightarrow>
                          (if eo_aborted env w then (Inl operation_aborted, w)
                           else
                             (case edited_file (eo_nfkc env) rawContent edits path of
                                Inl e \<Rightarrow> (Inl e, w)
                              | Inr (final, r) \<Rightarrow> write_edited env edits path absolutePath final r w)))))))"

section \<open>What the tool writes\<close>

lemma restore_append: "restoreLineEndings (s @ t) e = restoreLineEndings s e @ restoreLineEndings t e"
  by (simp add: restoreLineEndings_def)

lemma restore_Nil [simp]: "restoreLineEndings [] e = []"
  by (simp add: restoreLineEndings_def)

lemma restore_interleave:
  "restoreLineEndings (interleave gs xs) e =
    interleave (map (\<lambda>g. restoreLineEndings g e) gs) (map (\<lambda>x. restoreLineEndings x e) xs)"
proof (induction gs arbitrary: xs)
  case Nil
  then show ?case by (cases xs) simp_all
next
  case (Cons g gs)
  have "restoreLineEndings (concat gs) e = concat (map (\<lambda>g. restoreLineEndings g e) gs)"
    by (induction gs) (simp_all add: restore_append)
  with Cons show ?case by (cases xs) (simp_all add: restore_append)
qed

lemma stripBom_whole: "stripBom raw = (bom, content) \<Longrightarrow> raw = bom @ content"
  by (auto simp: stripBom_def prefix_def split: if_splits)

lemma normalizeToLF_no_CR: "CR \<notin> set (normalizeToLF t)"
  by (auto simp: normalizeToLF_def)

lemma normalizeToLF_Cons: "c \<noteq> CR \<Longrightarrow> normalizeToLF (c # s) = c # normalizeToLF s"
  by (cases s) (simp_all add: normalizeToLF_def)

lemma normalizeToLF_CRLF: "normalizeToLF (CR # LF # s) = LF # normalizeToLF s"
  by (simp add: normalizeToLF_def)

lemma normalize_restored: "CR \<notin> set s \<Longrightarrow> normalizeToLF (restoreLineEndings s e) = s"
proof (cases "e = [CR, LF]")
  case True
  assume "CR \<notin> set s"
  then show ?thesis unfolding True
    by (induction s) (auto simp: restoreLineEndings_def normalizeToLF_CRLF normalizeToLF_Cons, simp add: normalizeToLF_def)
next
  case False
  assume "CR \<notin> set s"
  with False normalizeToLF_id show ?thesis by (simp add: restoreLineEndings_def)
qed

lemma set_gaps: "g \<in> set (gaps base pos ms) \<Longrightarrow> set g \<subseteq> set base"
  by (induction ms arbitrary: pos) (auto dest: in_set_takeD in_set_dropD)

lemma set_interleave: "set (interleave gs xs) \<subseteq> (\<Union>g\<in>set gs. set g) \<union> (\<Union>x\<in>set xs. set x)"
  by (induction gs xs rule: interleave.induct) auto

text \<open>The old and the new text of an edit as they stand in the file.\<close>

definition in_file :: "jstr \<Rightarrow> jstr \<Rightarrow> jstr" where
  "in_file ending t = restoreLineEndings (normalizeToLF t) ending"

text \<open>
  C24: an edit of a file whose lines end the same way, all of whose old texts are found as they are, writes the
  file with just these texts replaced: what stands between them, the byte order mark and the line
  endings stay.\<close>

theorem edit_changes_only_matches:
  assumes "edited_file nfkc raw edits path = Inr (final, r)" and "uniform_endings (snd (stripBom raw))"
    and "\<forall>e\<in>set edits. index_of (normalizeToLF (snd (stripBom raw))) (normalizeToLF (ed_oldText e)) \<noteq> None"
  shows "\<exists>order gs bom ending. mset order = mset edits \<and> length gs = Suc (length order)
    \<and> raw = bom @ interleave gs (map (\<lambda>e. in_file ending (ed_oldText e)) order)
    \<and> final = bom @ interleave gs (map (\<lambda>e. in_file ending (ed_newText e)) order) \<and> raw \<noteq> final"
proof -
  obtain bom content where strip: "stripBom raw = (bom, content)" by (cases "stripBom raw")
  then have raw: "raw = bom @ content" by (rule stripBom_whole)
  define e where "e = detectLineEnding content"
  define lf where "lf = normalizeToLF content"
  have run: "applyEditsToNormalizedContent nfkc lf edits path = Inr r"
    and final: "final = bom @ restoreLineEndings (ap_newContent r) e"
    using assms(1) by (auto simp: edited_file_def strip e_def lf_def Let_def split: sum.splits)
  have exact: "\<forall>x\<in>set (map normalized_edit edits). \<not> fm_usedFuzzyMatch (fuzzyFindText nfkc lf (ed_oldText x))"
    using assms(3) by (auto simp: strip lf_def normalized_edit_def fuzzyFindText_def)
  let ?base = "ap_baseContent r"
  obtain ms where idx: "mset (map me_editIndex ms) = mset [0..<length edits]"
    and found: "\<forall>m\<in>set ms. found_in nfkc ?base (map normalized_edit edits) m"
    and base: "?base = interleave (gaps ?base 0 ms) (map (matched_text ?base) ms)"
    and new: "ap_newContent r = interleave (gaps ?base 0 ms) (map me_newText ms)"
    and changed: "?base \<noteq> ap_newContent r"
    and eq: "?base = (if \<exists>e\<in>set (map normalized_edit edits). fm_usedFuzzyMatch (fuzzyFindText nfkc lf (ed_oldText e))
      then normalizeForFuzzyMatch nfkc lf else lf)"
    using applied_edits [OF disjI2 [OF exact] run] by metis
  from exact have lf: "?base = lf" by (subst eq) auto
  define order where "order = map (\<lambda>m. edits ! me_editIndex m) ms"
  define gs where "gs = map (\<lambda>g. restoreLineEndings g e) (gaps ?base 0 ms)"
  have restored: "content = restoreLineEndings lf e"
    using line_endings_restored assms(2) by (simp add: strip lf_def e_def)
  have mtext: "matched_text ?base m = normalizeToLF (ed_oldText (edits ! me_editIndex m))"
    "me_newText m = normalizeToLF (ed_newText (edits ! me_editIndex m))" if "m \<in> set ms" for m
  proof -
    from found that have m: "found_in nfkc ?base (map normalized_edit edits) m" by blast
    then have "me_editIndex m < length edits" by (simp add: found_in_def)
    then have "index_of lf (normalizeToLF (ed_oldText (edits ! me_editIndex m))) \<noteq> None"
      using assms(3) by (simp add: strip lf_def)
    with m lf show "matched_text ?base m = normalizeToLF (ed_oldText (edits ! me_editIndex m))"
      "me_newText m = normalizeToLF (ed_newText (edits ! me_editIndex m))"
      by (auto simp: found_in_def normalized_edit_def)
  qed
  have old: "map (\<lambda>x. restoreLineEndings x e) (map (matched_text ?base) ms) = map (\<lambda>x. in_file e (ed_oldText x)) order"
    and new': "map (\<lambda>x. restoreLineEndings x e) (map me_newText ms) = map (\<lambda>x. in_file e (ed_newText x)) order"
    using mtext by (simp_all add: order_def in_file_def)
  have content: "content = interleave gs (map (\<lambda>x. in_file e (ed_oldText x)) order)"
    using base unfolding restored lf [symmetric] gs_def old [symmetric] restore_interleave [symmetric] by simp
  have written: "restoreLineEndings (ap_newContent r) e = interleave gs (map (\<lambda>x. in_file e (ed_newText x)) order)"
    unfolding gs_def new' [symmetric] restore_interleave [symmetric] by (simp add: new)
  have "mset order = image_mset (\<lambda>i. edits ! i) (mset (map me_editIndex ms))" by (simp add: order_def multiset.map_comp comp_def)
  also have "\<dots> = mset (map (\<lambda>i. edits ! i) [0..<length edits])" unfolding idx by simp
  finally have perm: "mset order = mset edits" by (simp add: map_nth)
  have "CR \<notin> set ?base" unfolding lf unfolding lf_def by (rule normalizeToLF_no_CR)
  moreover have "CR \<notin> set x" if "x \<in> set (map me_newText ms)" for x
    using that mtext(2) normalizeToLF_no_CR by auto
  ultimately have no_CR: "CR \<notin> set ?base" "CR \<notin> set (ap_newContent r)"
    using set_interleave [of "gaps ?base 0 ms" "map me_newText ms"] set_gaps [of _ ?base 0 ms] unfolding new by blast+
  have "raw \<noteq> final"
  proof
    assume "raw = final"
    then have "restoreLineEndings ?base e = restoreLineEndings (ap_newContent r) e" using raw final restored lf by simp
    then have "?base = ap_newContent r" using normalize_restored no_CR by metis
    with changed show False ..
  qed
  with raw content written perm final show ?thesis
    by (intro exI [of _ order] exI [of _ gs] exI [of _ bom] exI [of _ e]) (simp add: gs_def order_def)
qed

theorem edit_changes_only_matches_witness:
  "\<exists>order gs bom ending. order = [letter_edit] \<and> length gs = 2
    \<and> [0x61, 0x62] = bom @ interleave gs (map (\<lambda>e. in_file ending (ed_oldText e)) order)
    \<and> [0x63, 0x62] = bom @ interleave gs (map (\<lambda>e. in_file ending (ed_newText e)) order)"
proof -
  have strip: "stripBom [0x61, 0x62] = ([], [0x61, 0x62])" by (simp add: stripBom_def BOM_def)
  have ending: "detectLineEnding [0x61, 0x62] = [LF]" by (simp add: detectLineEnding_def LF_def)
  have "edited_file (\<lambda>t. t) [0x61, 0x62] [letter_edit] (js ''f'') =
      Inr ([0x63, 0x62], \<lparr>ap_baseContent = [0x61, 0x62], ap_newContent = [0x63, 0x62]\<rparr>)"
    by (simp add: edited_file_def strip ending letters_plain letter_edited restoreLineEndings_def)
  moreover have "uniform_endings (snd (stripBom [0x61, 0x62]))" by (simp add: strip uniform_endings_def CR_def)
  moreover have "\<forall>e\<in>set [letter_edit]. index_of (normalizeToLF (snd (stripBom [0x61, 0x62]))) (normalizeToLF (ed_oldText e)) \<noteq> None"
    by (simp add: strip letters_plain letter_edit_def)
  ultimately obtain order gs bom ending where o: "mset order = mset [letter_edit]" "length gs = Suc (length order)"
    "[0x61, 0x62] = bom @ interleave gs (map (\<lambda>e. in_file ending (ed_oldText e)) order)"
    "[0x63, 0x62] = bom @ interleave gs (map (\<lambda>e. in_file ending (ed_newText e)) order)"
    using edit_changes_only_matches [of "\<lambda>t. t" "[0x61, 0x62]" "[letter_edit]" "js ''f''" "[0x63, 0x62]"] by blast
  have order: "order = [letter_edit]" using o(1) by (simp add: mset_single_iff)
  then have "length gs = 2" using o(2) by simp
  with order o(3,4) show ?thesis
    by (intro exI [of _ order] exI [of _ gs] exI [of _ bom] exI [of _ ending]) simp
qed

end
