(* ===== verification/Uuid.thy ===== *)
theory Uuid
  imports Session_Entries Json_Text
begin

unbundle bit_operations_syntax

text \<open>
  UUIDs of version 7 as \<^verbatim>\<open>packages/agent/src/harness/session/uuid.ts\<close> makes them: 48 bits of time in
  milliseconds, a 32 bit sequence that starts at random and counts up within a millisecond, and random bits.
  The sequence is a 32 bit word, as \<^verbatim>\<open>>>> 0\<close> makes it; bytes are natural numbers. The clock and the random
  bytes are given by the host.
\<close>

section \<open>The generator\<close>

record uuid_state =
  uu_lastTimestamp :: "nat option"
  uu_sequence :: "32 word"

definition initial_uuid_state :: uuid_state where
  "initial_uuid_state = \<lparr>uu_lastTimestamp = None, uu_sequence = 0\<rparr>"

type_synonym byte = "8 word"

text \<open>\<open>None\<close> is minus infinity.\<close>

definition later :: "nat \<Rightarrow> nat option \<Rightarrow> bool" where
  "later timestamp l = (case l of None \<Rightarrow> True | Some t \<Rightarrow> timestamp > t)"

definition advance :: "byte list \<Rightarrow> nat \<Rightarrow> uuid_state \<Rightarrow> uuid_state" where
  "advance random timestamp s =
     (if later timestamp (uu_lastTimestamp s)
      then \<lparr>uu_lastTimestamp = Some timestamp,
            uu_sequence = of_nat (unat (random ! 6) * 0x1000000 + unat (random ! 7) * 0x10000 + unat (random ! 8) * 0x100 + unat (random ! 9))\<rparr>
      else
        (let sequence = uu_sequence s + 1 in
         \<lparr>uu_lastTimestamp = (if sequence = 0 then map_option Suc (uu_lastTimestamp s) else uu_lastTimestamp s),
          uu_sequence = sequence\<rparr>))"

definition uuid_bytes :: "byte list \<Rightarrow> nat \<Rightarrow> 32 word \<Rightarrow> nat list" where
  "uuid_bytes random t sequence =
     [t div 0x10000000000 mod 256, t div 0x100000000 mod 256, t div 0x1000000 mod 256, t div 0x10000 mod 256,
      t div 0x100 mod 256, t mod 256,
      unat (0x70 OR (drop_bit 28 sequence AND 0x0F) :: 32 word),
      unat (drop_bit 20 sequence AND 0xFF),
      unat (0x80 OR (drop_bit 14 sequence AND 0x3F) :: 32 word),
      unat (drop_bit 6 sequence AND 0xFF),
      unat (push_bit 2 (sequence AND 0x3F) OR (ucast (random ! 10) AND 0x03) :: 32 word),
      unat (random ! 11), unat (random ! 12), unat (random ! 13), unat (random ! 14), unat (random ! 15)]"

definition byte_hex :: "nat \<Rightarrow> jstr" where
  "byte_hex b = [hex_digit (b div 16), hex_digit (b mod 16)]"

definition formatUuid :: "nat list \<Rightarrow> jstr" where
  "formatUuid bytes =
     (let hex = map byte_hex bytes in
      concat (take 4 hex) @ js ''-'' @ concat (take 2 (drop 4 hex)) @ js ''-'' @ concat (take 2 (drop 6 hex)) @ js ''-''
      @ concat (take 2 (drop 8 hex)) @ js ''-'' @ concat (take 6 (drop 10 hex)))"

definition uuidv7 :: "byte list \<Rightarrow> nat \<Rightarrow> uuid_state \<Rightarrow> jstr \<times> uuid_state" where
  "uuidv7 random timestamp s =
     (let s = advance random timestamp s in
      (formatUuid (uuid_bytes random (the (uu_lastTimestamp s)) (uu_sequence s)), s))"

text \<open>The UUIDs of a sequence of calls.\<close>

primrec uuid_run :: "(nat \<Rightarrow> byte list) \<Rightarrow> (nat \<Rightarrow> nat) \<Rightarrow> nat \<Rightarrow> uuid_state" where
  "uuid_run random clock 0 = initial_uuid_state"
| "uuid_run random clock (Suc k) = snd (uuidv7 (random k) (clock k) (uuid_run random clock k))"

definition uuid_at :: "(nat \<Rightarrow> byte list) \<Rightarrow> (nat \<Rightarrow> nat) \<Rightarrow> nat \<Rightarrow> jstr" where
  "uuid_at random clock k = fst (uuidv7 (random k) (clock k) (uuid_run random clock k))"

section \<open>UUIDs are distinct\<close>

text \<open>The time and the sequence of a state as one number, which every call makes larger.\<close>

definition uuid_key :: "uuid_state \<Rightarrow> nat" where
  "uuid_key s = (case uu_lastTimestamp s of None \<Rightarrow> 0 | Some t \<Rightarrow> Suc t * 2 ^ 32 + unat (uu_sequence s))"

lemma unat32: "unat (w :: 32 word) < 2 ^ 32"
  using unsigned_less [of w] by simp

lemma advance_key: "uuid_key s < uuid_key (advance random timestamp s)"
proof (cases "uu_lastTimestamp s")
  case None
  then show ?thesis by (simp add: uuid_key_def advance_def later_def)
next
  case (Some t)
  show ?thesis
  proof (cases "timestamp > t")
    case True
    then have "Suc t * 2 ^ 32 + 2 ^ 32 \<le> Suc timestamp * 2 ^ 32" by simp
    with True Some unat32 [of "uu_sequence s"] show ?thesis
      by (simp add: uuid_key_def advance_def later_def)
  next
    case False
    show ?thesis
    proof (cases "uu_sequence s + 1 = 0")
      case True
      with False Some unat32 [of "uu_sequence s"] show ?thesis
        by (simp add: uuid_key_def advance_def later_def Let_def)
    next
      case 2: False
      then have "unat (uu_sequence s + 1) = Suc (unat (uu_sequence s))" by (simp add: unatSuc add.commute)
      with 2 False Some show ?thesis by (simp add: uuid_key_def advance_def later_def Let_def)
    qed
  qed
qed

lemma advance_time: "\<exists>t. uu_lastTimestamp (advance random timestamp s) = Some t"
  by (cases "uu_lastTimestamp s") (auto simp: advance_def later_def Let_def)

lemma hex_digit_inj: "a < 16 \<Longrightarrow> b < 16 \<Longrightarrow> hex_digit a = hex_digit b \<Longrightarrow> a = b"
proof -
  assume less: "a < 16" "b < 16" and eq: "hex_digit a = hex_digit b"
  let ?f = "\<lambda>d. if d < 10 then 48 + d else 87 + d :: nat"
  have n: "unat (of_nat (?f d) :: code_unit) = ?f d" if "d < 16" for d
    using that by (simp add: unat_of_nat)
  from eq have "?f a = ?f b" using n [of a] n [of b] less unfolding hex_digit_def by metis
  with less show "a = b" by (simp split: if_splits)
qed

lemma byte_hex_inj: "a < 256 \<Longrightarrow> b < 256 \<Longrightarrow> byte_hex a = byte_hex b \<Longrightarrow> a = b"
proof -
  assume less: "a < 256" "b < 256" and eq: "byte_hex a = byte_hex b"
  have "a div 16 < 16" "b div 16 < 16" using less by linarith+
  with eq have "a div 16 = b div 16" "a mod 16 = b mod 16"
    using hex_digit_inj [of "a div 16" "b div 16"] hex_digit_inj [of "a mod 16" "b mod 16"] by (simp_all add: byte_hex_def)
  then show "a = b" by (metis div_mult_mod_eq)
qed

text \<open>A field of the sequence beside constant or random bits: the bits of the field can be read back.\<close>

lemma field_bit:
  fixes s t c d :: "32 word"
  assumes "c OR (drop_bit n s AND mask m) = d OR (drop_bit n t AND mask m)"
    and "j < m" and "\<not> bit c j" and "\<not> bit d j"
  shows "bit s (n + j) = bit t (n + j)"
proof -
  from assms(1) have "bit (c OR (drop_bit n s AND mask m)) j = bit (d OR (drop_bit n t AND mask m)) j" by simp
  with assms(2-4) show ?thesis by (auto simp: bit_simps dest: bit_imp_le_length)
qed

lemma sequence_bits:
  fixes s t :: "32 word" and x y :: byte
  assumes "unat (0x70 OR (drop_bit 28 s AND 0x0F) :: 32 word) = unat (0x70 OR (drop_bit 28 t AND 0x0F) :: 32 word)"
    and "unat (drop_bit 20 s AND 0xFF) = unat (drop_bit 20 t AND 0xFF)"
    and "unat (0x80 OR (drop_bit 14 s AND 0x3F) :: 32 word) = unat (0x80 OR (drop_bit 14 t AND 0x3F) :: 32 word)"
    and "unat (drop_bit 6 s AND 0xFF) = unat (drop_bit 6 t AND 0xFF)"
    and "unat (push_bit 2 (s AND 0x3F) OR (ucast x AND 0x03) :: 32 word) =
      unat (push_bit 2 (t AND 0x3F) OR (ucast y AND 0x03) :: 32 word)"
  shows "s = t"
proof (rule bit_word_eqI)
  fix i :: nat assume "i < LENGTH(32)"
  then have i: "i < 32" by simp
  have masks: "(0x0F :: 32 word) = mask 4" "(0xFF :: 32 word) = mask 8" "(0x3F :: 32 word) = mask 6"
    by (simp_all add: mask_eq_exp_minus_1)
  have const: "\<not> bit (0x70 :: 32 word) j" if "j < 4" for j
  proof -
    from that consider "j = 0" | "j = 1" | "j = 2" | "j = 3" by linarith
    then show ?thesis by cases simp_all
  qed
  have const': "\<not> bit (0x80 :: 32 word) j" if "j < 6" for j
  proof -
    from that consider "j = 0" | "j = 1" | "j = 2" | "j = 3" | "j = 4" | "j = 5" by linarith
    then show ?thesis by cases simp_all
  qed
  consider "i < 6" | "6 \<le> i" "i < 14" | "14 \<le> i" "i < 20" | "20 \<le> i" "i < 28" | "28 \<le> i" by linarith
  then show "bit s i = bit t i"
  proof cases
    case 1
    have "push_bit 2 (s AND mask 6) OR (ucast x AND 0x03) = (push_bit 2 (t AND mask 6) OR (ucast y AND 0x03) :: 32 word)"
      using assms(5) unfolding masks word_unat_eq_iff .
    then have "bit (push_bit 2 (s AND mask 6) OR (ucast x AND 0x03) :: 32 word) (i + 2) =
      bit (push_bit 2 (t AND mask 6) OR (ucast y AND 0x03) :: 32 word) (i + 2)" by simp
    moreover have "\<not> bit (0x03 :: 32 word) (i + 2)"
      using i 1 by (simp add: bit_simps)
    ultimately show ?thesis using 1 by (simp add: bit_simps)
  next
    case 2
    show ?thesis using field_bit [of 0 6 s 8 0 t "i - 6"] assms(4) 2 unfolding masks word_unat_eq_iff by simp
  next
    case 3
    show ?thesis using field_bit [of "0x80" 14 s 6 "0x80" t "i - 14"] assms(3) 3 const' [of "i - 14"]
      unfolding masks word_unat_eq_iff by simp
  next
    case 4
    show ?thesis using field_bit [of 0 20 s 8 0 t "i - 20"] assms(2) 4 unfolding masks word_unat_eq_iff by simp
  next
    case 5
    then have "i - 28 < 4" using i by simp
    with field_bit [of "0x70" 28 s 4 "0x70" t "i - 28"] assms(1) 5 const [of "i - 28"]
    show ?thesis unfolding masks word_unat_eq_iff by simp
  qed
qed

lemma formatUuid_bytes:
  "formatUuid [b0, b1, b2, b3, b4, b5, b6, b7, b8, b9, b10, b11, b12, b13, b14, b15] =
     byte_hex b0 @ byte_hex b1 @ byte_hex b2 @ byte_hex b3 @ js ''-'' @ byte_hex b4 @ byte_hex b5 @ js ''-'' @
     byte_hex b6 @ byte_hex b7 @ js ''-'' @ byte_hex b8 @ byte_hex b9 @ js ''-'' @
     byte_hex b10 @ byte_hex b11 @ byte_hex b12 @ byte_hex b13 @ byte_hex b14 @ byte_hex b15"
  by (simp add: formatUuid_def)

lemma length_byte_hex [simp]: "length (byte_hex b) = 2"
  by (simp add: byte_hex_def)

lemma formatUuid_inj:
  assumes "length xs = 16" "length ys = 16" and "\<forall>b\<in>set xs \<union> set ys. b < 256"
    and "formatUuid xs = formatUuid ys"
  shows "xs = ys"
proof -
  from assms(1) obtain a0 a1 a2 a3 a4 a5 a6 a7 a8 a9 a10 a11 a12 a13 a14 a15 where
    xs: "xs = [a0, a1, a2, a3, a4, a5, a6, a7, a8, a9, a10, a11, a12, a13, a14, a15]"
    by (auto simp: numeral_eq_Suc length_Suc_conv)
  from assms(2) obtain b0 b1 b2 b3 b4 b5 b6 b7 b8 b9 b10 b11 b12 b13 b14 b15 where
    ys: "ys = [b0, b1, b2, b3, b4, b5, b6, b7, b8, b9, b10, b11, b12, b13, b14, b15]"
    by (auto simp: numeral_eq_Suc length_Suc_conv)
  from assms(3,4) show ?thesis
    unfolding xs ys formatUuid_bytes by (auto intro!: byte_hex_inj)
qed

lemma word_small: "take_bit n w = w \<Longrightarrow> unat (w :: 32 word) < 2 ^ n"
  by (metis take_bit_nat_less_exp unsigned_take_bit_eq)

lemma uuid_masks: "(0x0F :: 32 word) = mask 4" "(0xFF :: 32 word) = mask 8" "(0x3F :: 32 word) = mask 6" "(0x03 :: 32 word) = mask 2"
  by (simp_all add: mask_eq_exp_minus_1)

lemma length_uuid_bytes [simp]: "length (uuid_bytes random t s) = 16"
  by (simp add: uuid_bytes_def)

lemma uuid_bytes_less: "\<forall>b\<in>set (uuid_bytes random t s). b < 256"
proof -
  have byte: "unat (b :: byte) < 256" for b using unsigned_less [of b] by simp
  have low: "unat (x AND mask 8 :: 32 word) < 256" for x
    using word_small [of 8 "x AND mask 8"] by (simp add: take_bit_eq_mask)
  have version: "unat (0x70 OR (x AND mask 4) :: 32 word) < 256"
    and variant: "unat (0x80 OR (x AND mask 6) :: 32 word) < 256" for x
    using word_small [of 8 "0x70 OR (x AND mask 4)"] word_small [of 8 "0x80 OR (x AND mask 6)"]
    by (simp_all add: take_bit_or flip: take_bit_eq_mask)
  have last: "unat (push_bit 2 (x AND mask 6) OR (y AND mask 2) :: 32 word) < 256" for x y
    using word_small [of 8 "push_bit 2 (x AND mask 6) OR (y AND mask 2)"]
    by (simp add: take_bit_or take_bit_push_bit flip: take_bit_eq_mask)
  show ?thesis unfolding uuid_bytes_def uuid_masks
    using last by (simp add: byte low version variant)
qed

text \<open>The time and the sequence can be read back from the bytes.\<close>

lemma digit_step:
  fixes x y n :: nat
  shows "x div (n * 256) = y div (n * 256) \<Longrightarrow> x div n mod 256 = y div n mod 256 \<Longrightarrow> x div n = y div n"
  by (metis div_mult2_eq div_mult_mod_eq)

lemma time_bytes:
  assumes "t < 2 ^ 48" "u < 2 ^ 48"
    and "t div 0x10000000000 mod 256 = u div 0x10000000000 mod 256" "t div 0x100000000 mod 256 = u div 0x100000000 mod 256"
    and "t div 0x1000000 mod 256 = u div 0x1000000 mod 256" "t div 0x10000 mod 256 = u div 0x10000 mod 256"
    and "t div 0x100 mod 256 = u div 0x100 mod 256" "t mod 256 = u mod (256 :: nat)"
  shows "t = u"
proof -
  have "t div 0x1000000000000 = u div 0x1000000000000" using assms(1,2) by simp
  then have "t div 0x10000000000 = u div 0x10000000000" using assms(3) digit_step [of t "0x10000000000" u] by simp
  then have "t div 0x100000000 = u div 0x100000000" using assms(4) digit_step [of t "0x100000000" u] by simp
  then have "t div 0x1000000 = u div 0x1000000" using assms(5) digit_step [of t "0x1000000" u] by simp
  then have "t div 0x10000 = u div 0x10000" using assms(6) digit_step [of t "0x10000" u] by simp
  then have "t div 0x100 = u div 0x100" using assms(7) digit_step [of t "0x100" u] by simp
  then show "t = u" using assms(8) digit_step [of t 1 u] by simp
qed

lemma uuid_bytes_inj:
  assumes "uuid_bytes random t s = uuid_bytes random' u s'" and "t < 2 ^ 48" "u < 2 ^ 48"
  shows "t = u \<and> s = s'"
proof
  show "t = u" by (rule time_bytes [OF assms(2,3)]) (insert assms(1), simp_all only: uuid_bytes_def list.inject)
  show "s = s'" by (rule sequence_bits [of s s' "random ! 10" "random' ! 10"])
      (insert assms(1), simp_all only: uuid_bytes_def list.inject)
qed

lemma uuidv7_inj:
  assumes "formatUuid (uuid_bytes random t s) = formatUuid (uuid_bytes random' u s')" and "t < 2 ^ 48" "u < 2 ^ 48"
  shows "t = u \<and> s = s'"
  using assms formatUuid_inj [OF length_uuid_bytes length_uuid_bytes _ assms(1)] uuid_bytes_less uuid_bytes_inj
  by (metis UnE)

text \<open>The state after a call, and how far the time of a state can run ahead of the clock.\<close>

lemma uuid_at_bytes:
  "uuid_at random clock k =
     formatUuid (uuid_bytes (random k) (the (uu_lastTimestamp (uuid_run random clock (Suc k)))) (uu_sequence (uuid_run random clock (Suc k))))"
  by (simp add: uuid_at_def uuidv7_def Let_def)

lemma uuid_run_Suc: "uuid_run random clock (Suc k) = advance (random k) (clock k) (uuid_run random clock k)"
  by (simp add: uuidv7_def Let_def)

lemma uuid_run_time:
  assumes "\<forall>j<k. clock j \<le> B" and "uu_lastTimestamp (uuid_run random clock k) = Some t"
  shows "t < B + k"
  using assms
proof (induction k arbitrary: t)
  case 0
  then show ?case by (simp add: initial_uuid_state_def)
next
  case (Suc k)
  have B: "clock k \<le> B" using Suc.prems(1) by simp
  show ?case
  proof (cases "uu_lastTimestamp (uuid_run random clock k)")
    case None
    then show ?thesis using Suc.prems(2) B by (auto simp: uuidv7_def Let_def advance_def later_def)
  next
    case (Some u)
    with Suc.IH Suc.prems(1) have "u < B + k" by simp
    with Some Suc.prems(2) B show ?thesis
      by (auto simp: uuidv7_def Let_def advance_def later_def split: if_splits)
  qed
qed

lemma uuid_keys_grow: "j < k \<Longrightarrow> uuid_key (uuid_run random clock j) < uuid_key (uuid_run random clock k)"
  by (rule lift_Suc_mono_less) (unfold uuid_run_Suc, rule advance_key)

lemma uuid_at_inj:
  assumes "\<forall>j<n. clock j + n \<le> 2 ^ 48"
  shows "inj_on (uuid_at random clock) {..<n}"
proof -
  have differ: "uuid_at random clock j \<noteq> uuid_at random clock k" if "j < k" "k < n" for j k
  proof
    assume eq: "uuid_at random clock j = uuid_at random clock k"
    let ?s = "uuid_run random clock (Suc j)" and ?t = "uuid_run random clock (Suc k)"
    obtain t where t: "uu_lastTimestamp ?s = Some t" unfolding uuid_run_Suc using advance_time by blast
    obtain u where u: "uu_lastTimestamp ?t = Some u" unfolding uuid_run_Suc using advance_time by blast
    have early: "clock i \<le> 2 ^ 48 - n" if "i < n" for i using assms that by (intro add_le_imp_le_diff) simp
    then have "\<forall>i<Suc j. clock i \<le> 2 ^ 48 - n" "\<forall>i<Suc k. clock i \<le> 2 ^ 48 - n" using that by simp_all
    note times = uuid_run_time [OF this(1) t] uuid_run_time [OF this(2) u]
    have "clock k + n \<le> 2 ^ 48" using assms that(2) by blast
    then have n: "n \<le> 2 ^ 48" by linarith
    with times that have "t < 2 ^ 48" "u < 2 ^ 48" by linarith+
    from uuidv7_inj [OF _ this] eq t u have "t = u" "uu_sequence ?s = uu_sequence ?t"
      unfolding uuid_at_bytes by auto
    with t u have "uuid_key ?s = uuid_key ?t" by (simp add: uuid_key_def del: uuid_run.simps)
    moreover have "uuid_key ?s < uuid_key ?t" using that(1) by (intro uuid_keys_grow) simp
    ultimately show False by simp
  qed
  show ?thesis by (rule linorder_inj_onI') (use differ in auto)
qed

section \<open>The form of a UUID\<close>

definition hex_char :: "code_unit \<Rightarrow> bool" where
  "hex_char c \<longleftrightarrow> 0x30 \<le> c \<and> c \<le> 0x39 \<or> 0x61 \<le> c \<and> c \<le> 0x66"

text \<open>Groups of 8, 4, 4, 4 and 12 lower case hexadecimal digits; version 7 and the variant of RFC 9562.\<close>

definition is_uuid7 :: "jstr \<Rightarrow> bool" where
  "is_uuid7 s \<longleftrightarrow>
     length s = 36 \<and> map length (split_on 0x2D s) = [8, 4, 4, 4, 12]
     \<and> (\<forall>g\<in>set (split_on 0x2D s). list_all hex_char g)
     \<and> s ! 14 = 0x37 \<and> s ! 19 \<in> {0x38, 0x39, 0x61, 0x62}"

lemma hex_char_digit: "d < 16 \<Longrightarrow> hex_char (hex_digit d)"
  by (auto simp: hex_char_def hex_digit_def word_le_nat_alt unat_of_nat)

lemma list_all_byte_hex: "b < 256 \<Longrightarrow> list_all hex_char (byte_hex b)"
  by (auto simp: byte_hex_def intro!: hex_char_digit)

lemma hex_char_no_hyphen: "list_all hex_char g \<Longrightarrow> 0x2D \<notin> set g"
  by (auto simp: list_all_iff hex_char_def word_le_nat_alt)

lemma hyphen: "js ''-'' = [0x2D]"
  by (simp add: js_def js_char_def)

lemma formatUuid_form:
  assumes "length bs = 16" "\<forall>b\<in>set bs. b < 256" and "bs ! 6 div 16 = 7" and "bs ! 8 div 16 \<in> {8, 9, 10, 11}"
  shows "is_uuid7 (formatUuid bs)"
proof -
  from assms(1) obtain b0 b1 b2 b3 b4 b5 b6 b7 b8 b9 b10 b11 b12 b13 b14 b15 where
    bs: "bs = [b0, b1, b2, b3, b4, b5, b6, b7, b8, b9, b10, b11, b12, b13, b14, b15]"
    by (auto simp: numeral_eq_Suc length_Suc_conv)
  let ?gs = "[byte_hex b0 @ byte_hex b1 @ byte_hex b2 @ byte_hex b3, byte_hex b4 @ byte_hex b5,
    byte_hex b6 @ byte_hex b7, byte_hex b8 @ byte_hex b9,
    byte_hex b10 @ byte_hex b11 @ byte_hex b12 @ byte_hex b13 @ byte_hex b14 @ byte_hex b15]"
  have eq: "formatUuid bs = join_with [0x2D] ?gs"
    by (simp add: bs formatUuid_bytes hyphen)
  have hex: "list_all hex_char (byte_hex b)" if "b \<in> set bs" for b using assms(2) that list_all_byte_hex by blast
  then have all: "\<forall>g\<in>set ?gs. list_all hex_char g" by (simp add: bs)
  then have "\<forall>g\<in>set ?gs. 0x2D \<notin> set g" using hex_char_no_hyphen by blast
  then have split: "split_on 0x2D (formatUuid bs) = ?gs" unfolding eq by (intro split_join) simp
  have "formatUuid bs ! 14 = 0x37" "formatUuid bs ! 19 \<in> {0x38, 0x39, 0x61, 0x62}"
    using assms(3,4) by (auto simp: bs formatUuid_bytes hyphen byte_hex_def hex_digit_def)
  then show ?thesis unfolding is_uuid7_def split using all
    by (simp add: bs formatUuid_bytes hyphen)
qed

lemma uuid_byte_fields:
  "uuid_bytes random t s ! 6 div 16 = 7" "uuid_bytes random t s ! 8 div 16 \<in> {8, 9, 10, 11}"
proof -
  have six: "uuid_bytes random t s ! 6 = unat (0x70 OR (drop_bit 28 s AND mask 4) :: 32 word)"
    and eight: "uuid_bytes random t s ! 8 = unat (0x80 OR (drop_bit 14 s AND mask 6) :: 32 word)"
    unfolding uuid_bytes_def uuid_masks by simp_all
  have "unat (0x70 OR (x AND mask 4) :: 32 word) div 16 = 7" for x
  proof -
    have small: "unat (x AND mask 4) < 16" using word_small [of 4 "x AND mask 4"] by (simp add: take_bit_eq_mask)
    have "push_bit 4 7 OR (x AND mask 4) = push_bit 4 7 + (x AND mask 4)"
      by (rule disjunctive_add [symmetric]) (auto simp: bit_simps simp del: push_bit_numeral push_bit_of_1)
    then have "unat (0x70 OR (x AND mask 4)) = 112 + unat (x AND mask 4)"
      using small by (simp add: unat_word_ariths)
    with small show ?thesis by simp
  qed
  then show "uuid_bytes random t s ! 6 div 16 = 7" unfolding six .
  have "unat (0x80 OR (x AND mask 6) :: 32 word) div 16 \<in> {8, 9, 10, 11}" for x
  proof -
    have small: "unat (x AND mask 6) < 64" using word_small [of 6 "x AND mask 6"] by (simp add: take_bit_eq_mask)
    have "push_bit 6 2 OR (x AND mask 6) = push_bit 6 2 + (x AND mask 6)"
      by (rule disjunctive_add [symmetric]) (auto simp: bit_simps simp del: push_bit_numeral push_bit_of_1)
    then have "unat (0x80 OR (x AND mask 6)) = 128 + unat (x AND mask 6)"
      using small by (simp add: unat_word_ariths)
    with small show ?thesis by auto
  qed
  then show "uuid_bytes random t s ! 8 div 16 \<in> {8, 9, 10, 11}" unfolding eight .
qed

lemma uuid_at_form: "is_uuid7 (uuid_at random clock k)"
  unfolding uuid_at_bytes
  by (rule formatUuid_form [OF length_uuid_bytes uuid_bytes_less uuid_byte_fields])

lemma length_uuid_at: "length (uuid_at random clock k) = 36"
  using uuid_at_form by (simp add: is_uuid7_def)

section \<open>Short ids\<close>

text \<open>
  The first eight characters of a UUID are the upper 32 of the 48 bits of its time. Within 65536 milliseconds
  they do not change, so that an entry id cannot be short when the session has one from the same period.
\<close>

lemma take_8_formatUuid:
  "take 8 (formatUuid (b0 # b1 # b2 # b3 # bs)) = byte_hex b0 @ byte_hex b1 @ byte_hex b2 @ byte_hex b3"
  by (simp add: formatUuid_def)

lemma short_id_coarse:
  assumes "t div 0x10000 = u div 0x10000"
  shows "take 8 (formatUuid (uuid_bytes random t s)) = take 8 (formatUuid (uuid_bytes random' u s'))"
proof -
  have "t div (0x10000 * n) = u div (0x10000 * n)" for n using assms by (simp add: div_mult2_eq)
  from this [of "0x100"] this [of "0x10000"] this [of "0x1000000"]
  have "t div 0x1000000 = u div 0x1000000" "t div 0x100000000 = u div 0x100000000"
    "t div 0x10000000000 = u div 0x10000000000" by simp_all
  then show ?thesis unfolding uuid_bytes_def take_8_formatUuid by (simp only: assms)
qed

lemma try_ids_exhausted:
  "\<forall>j<n. has (take 8 (src (k + j))) \<Longrightarrow> try_ids n has src k = (src (k + n), Suc (k + n))"
proof (induction n arbitrary: k)
  case (Suc n)
  then have "\<forall>j<n. has (take 8 (src (Suc k + j)))" by auto
  moreover have "has (take 8 (src k))" using Suc.prems [rule_format, of 0] by simp
  ultimately show ?case using Suc.IH [of "Suc k"] by (simp add: Let_def)
qed simp

lemma short_ids_collide:
  assumes "\<forall>j<100. the (uu_lastTimestamp (uuid_run random clock (Suc (k + j)))) div 0x10000 =
      the (uu_lastTimestamp (uuid_run random clock (Suc i))) div 0x10000"
    and "has (take 8 (uuid_at random clock i))"
  shows "generate_id has (uuid_at random clock) k = (uuid_at random clock (k + 100), Suc (k + 100))"
  unfolding generate_id_def
proof (rule try_ids_exhausted, intro allI impI)
  fix j :: nat assume "j < 100"
  with assms(1) have "take 8 (uuid_at random clock (k + j)) = take 8 (uuid_at random clock i)"
    unfolding uuid_at_bytes by (intro short_id_coarse) blast
  with assms(2) show "has (take 8 (uuid_at random clock (k + j)))" by simp
qed

section \<open>Properties\<close>

text \<open>
  C26: Every call gives a UUID of version 7 in the usual form: 36 characters, groups of 8, 4, 4, 4 and 12
  lower case hexadecimal digits, the version digit 7 and the variant of RFC 9562, whatever the clock and
  the random bytes are.
\<close>

theorem uuid_form: "is_uuid7 (uuid_at random clock k)"
  by (rule uuid_at_form)

text \<open>
  C25: As long as the clock and the number of calls stay below 2 to the 48 milliseconds, no two of the first
  \<open>n\<close> calls give the same UUID, also when the clock stands still or runs backwards, when the sequence wraps
  around and for any random bytes. So the generator meets what entry ids ask of their host, beside ids that
  are not UUIDs.
\<close>

theorem uuids_unique:
  assumes "\<forall>j<n. clock j + n \<le> 2 ^ 48" and "\<forall>i\<in>I. length i \<noteq> 36"
  shows "inj_on (uuid_at random clock) {..<n} \<and> uuid_supply (uuid_at random clock) 0 n I"
proof -
  have inj: "inj_on (uuid_at random clock) {..<n}" using assms(1) by (rule uuid_at_inj)
  with assms(2) length_uuid_at show ?thesis by (auto simp: uuid_supply_def lessThan_atLeast0)
qed

text \<open>A clock that stands still at its first tick, and bytes that are all zero.\<close>

lemma uuids_unique_witness:
  "inj_on (uuid_at (\<lambda>_. replicate 16 0) (\<lambda>_. 1700000000000)) {..<(3 :: nat)}
   \<and> uuid_supply (uuid_at (\<lambda>_. replicate 16 0) (\<lambda>_. 1700000000000)) 0 3 {js ''root''}"
  using uuids_unique [of 3 "\<lambda>_. 1700000000000" "{js ''root''}" "\<lambda>_. replicate 16 0"] by simp

end
