(* ===== verification/Mutation_Queue.thy ===== *)
theory Mutation_Queue
  imports Prelude
begin

text \<open>
  \<^verbatim>\<open>withFileMutationQueue\<close> of \<^verbatim>\<open>packages/coding-agent/src/core/tools/file-mutation-queue.ts\<close>: tools that
  change files take turns per file. A call is known by its number. The map holds, per file, the last call of
  the queue, which stands for its promise \<^verbatim>\<open>chainedQueue\<close>; a promise is settled when its call has been
  released and the promise it is chained to is settled. The steps are what runs without a break: the call up
  to its \<^verbatim>\<open>await\<close>, its continuation that starts \<^verbatim>\<open>fn\<close>, the end of \<^verbatim>\<open>fn\<close> (also by an exception) with
  the \<^verbatim>\<open>finally\<close> block, and the settling of a chained promise. They interleave in any order.
\<close>

section \<open>Calls and steps\<close>

definition getMutationQueueKey :: "(jstr \<Rightarrow> jstr) \<Rightarrow> (jstr \<Rightarrow> jstr option) \<Rightarrow> jstr \<Rightarrow> jstr" where
  "getMutationQueueKey resolve realpath filePath =
     (let resolvedPath = resolve filePath in
      case realpath resolvedPath of Some p \<Rightarrow> p | None \<Rightarrow> resolvedPath)"

datatype call_phase = Waiting | Running | Released

text \<open>\<open>currentQueue\<close> is \<open>None\<close> for the promise that is settled from the start.\<close>

record mutation =
  mu_key :: jstr
  mu_currentQueue :: "nat option"
  mu_phase :: call_phase
  mu_chained :: bool

record mutation_queues =
  mq_calls :: "mutation list"
  mq_map :: "jstr \<rightharpoonup> nat"

definition no_mutations :: mutation_queues where
  "no_mutations = \<lparr>mq_calls = [], mq_map = Map.empty\<rparr>"

text \<open>Up to the \<^verbatim>\<open>await\<close>: the call enters the queue of its file.\<close>

definition enter_queue :: "jstr \<Rightarrow> mutation_queues \<Rightarrow> mutation_queues" where
  "enter_queue key s =
     \<lparr>mq_calls = mq_calls s @ [\<lparr>mu_key = key, mu_currentQueue = mq_map s key, mu_phase = Waiting, mu_chained = False\<rparr>],
      mq_map = (mq_map s)(key \<mapsto> length (mq_calls s))\<rparr>"

definition update_call :: "nat \<Rightarrow> (mutation \<Rightarrow> mutation) \<Rightarrow> mutation_queues \<Rightarrow> mutation_queues" where
  "update_call i f s = s\<lparr>mq_calls := (mq_calls s)[i := f (mq_calls s ! i)]\<rparr>"

definition settled_queue :: "mutation_queues \<Rightarrow> nat option \<Rightarrow> bool" where
  "settled_queue s q = (case q of None \<Rightarrow> True | Some p \<Rightarrow> p < length (mq_calls s) \<and> mu_chained (mq_calls s ! p))"

text \<open>After the \<^verbatim>\<open>await\<close>: \<^verbatim>\<open>fn\<close> begins.\<close>

definition can_begin :: "nat \<Rightarrow> mutation_queues \<Rightarrow> bool" where
  "can_begin i s \<longleftrightarrow> i < length (mq_calls s) \<and> mu_phase (mq_calls s ! i) = Waiting
     \<and> settled_queue s (mu_currentQueue (mq_calls s ! i))"

definition begin_fn :: "nat \<Rightarrow> mutation_queues \<Rightarrow> mutation_queues" where
  "begin_fn i = update_call i (mu_phase_update (\<lambda>_. Running))"

text \<open>The \<^verbatim>\<open>finally\<close> block: the queue is released, and removed from the map if no other call has joined it.\<close>

definition is_running :: "nat \<Rightarrow> mutation_queues \<Rightarrow> bool" where
  "is_running i s \<longleftrightarrow> i < length (mq_calls s) \<and> mu_phase (mq_calls s ! i) = Running"

definition leave_queue :: "nat \<Rightarrow> mutation_queues \<Rightarrow> mutation_queues" where
  "leave_queue i s =
     (let key = mu_key (mq_calls s ! i);
          s1 = update_call i (mu_phase_update (\<lambda>_. Released)) s
      in if mq_map s1 key = Some i then s1\<lparr>mq_map := (mq_map s1)(key := None)\<rparr> else s1)"

text \<open>\<^verbatim>\<open>currentQueue.then(() => nextQueue)\<close> settles.\<close>

definition can_chain :: "nat \<Rightarrow> mutation_queues \<Rightarrow> bool" where
  "can_chain i s \<longleftrightarrow> i < length (mq_calls s) \<and> mu_phase (mq_calls s ! i) = Released \<and> \<not> mu_chained (mq_calls s ! i)
     \<and> settled_queue s (mu_currentQueue (mq_calls s ! i))"

definition settle_chain :: "nat \<Rightarrow> mutation_queues \<Rightarrow> mutation_queues" where
  "settle_chain i = update_call i (mu_chained_update (\<lambda>_. True))"

text \<open>The steps of the calls already in a queue, and those with new calls.\<close>

inductive queue_step :: "mutation_queues \<Rightarrow> mutation_queues \<Rightarrow> bool" where
  begins: "can_begin i s \<Longrightarrow> queue_step s (begin_fn i s)"
| leave: "is_running i s \<Longrightarrow> queue_step s (leave_queue i s)"
| settle: "can_chain i s \<Longrightarrow> queue_step s (settle_chain i s)"

inductive mutation_step :: "mutation_queues \<Rightarrow> mutation_queues \<Rightarrow> bool" where
  enter: "mutation_step s (enter_queue key s)"
| queued: "queue_step s t \<Longrightarrow> mutation_step s t"

inductive mutation_reachable :: "mutation_queues \<Rightarrow> bool" where
  start: "mutation_reachable no_mutations"
| step: "mutation_reachable s \<Longrightarrow> mutation_step s t \<Longrightarrow> mutation_reachable t"

inductive_simps queue_step_iff: "queue_step s t"
inductive_cases mutation_stepE: "mutation_step s t"

section \<open>The invariant\<close>

abbreviation key_of :: "mutation_queues \<Rightarrow> nat \<Rightarrow> jstr" where
  "key_of s i \<equiv> mu_key (mq_calls s ! i)"

abbreviation phase_of :: "mutation_queues \<Rightarrow> nat \<Rightarrow> call_phase" where
  "phase_of s i \<equiv> mu_phase (mq_calls s ! i)"

definition earlier_done :: "mutation_queues \<Rightarrow> nat \<Rightarrow> bool" where
  "earlier_done s i \<longleftrightarrow> (\<forall>j<i. key_of s j = key_of s i \<longrightarrow> phase_of s j = Released)"

text \<open>
  A call waits for the last one before it on its file, or for none if all are done; a call past its \<^verbatim>\<open>await\<close>
  has every earlier one behind it.
\<close>

definition call_ok :: "mutation_queues \<Rightarrow> nat \<Rightarrow> bool" where
  "call_ok s i \<longleftrightarrow>
     (case mu_currentQueue (mq_calls s ! i) of
        None \<Rightarrow> earlier_done s i
      | Some p \<Rightarrow> p < i \<and> key_of s p = key_of s i \<and> (\<forall>j. p < j \<longrightarrow> j < i \<longrightarrow> key_of s j \<noteq> key_of s i))
     \<and> (phase_of s i \<noteq> Waiting \<longrightarrow> earlier_done s i)
     \<and> (mu_chained (mq_calls s ! i) \<longrightarrow> phase_of s i = Released)"

text \<open>The map holds the last call of a file as long as it is not done.\<close>

definition map_ok :: "mutation_queues \<Rightarrow> jstr \<Rightarrow> bool" where
  "map_ok s k \<longleftrightarrow>
     (case mq_map s k of
        None \<Rightarrow> (\<forall>j<length (mq_calls s). key_of s j = k \<longrightarrow> phase_of s j = Released)
      | Some i \<Rightarrow> i < length (mq_calls s) \<and> key_of s i = k \<and> phase_of s i \<noteq> Released
          \<and> (\<forall>j. i < j \<longrightarrow> j < length (mq_calls s) \<longrightarrow> key_of s j \<noteq> k))"

definition queues_ok :: "mutation_queues \<Rightarrow> bool" where
  "queues_ok s \<longleftrightarrow> (\<forall>i<length (mq_calls s). call_ok s i) \<and> (\<forall>k. map_ok s k)"

lemma queues_okD: "queues_ok s \<Longrightarrow> i < length (mq_calls s) \<Longrightarrow> call_ok s i"
  by (simp add: queues_ok_def)

lemma settled_earlier_done:
  assumes "queues_ok s" and "i < length (mq_calls s)" and "settled_queue s (mu_currentQueue (mq_calls s ! i))"
  shows "earlier_done s i"
proof (cases "mu_currentQueue (mq_calls s ! i)")
  case None
  with queues_okD [OF assms(1,2)] show ?thesis by (simp add: call_ok_def)
next
  case (Some p)
  with queues_okD [OF assms(1,2)] have p: "p < i" "key_of s p = key_of s i"
    "\<And>j. p < j \<Longrightarrow> j < i \<Longrightarrow> key_of s j \<noteq> key_of s i" by (auto simp: call_ok_def)
  from Some assms(3) have "mu_chained (mq_calls s ! p)" by (simp add: settled_queue_def)
  with queues_okD [OF assms(1), of p] p(1) assms(2) have "phase_of s p = Released" "earlier_done s p"
    by (auto simp: call_ok_def)
  with p show ?thesis unfolding earlier_done_def by (metis linorder_neqE_nat)
qed

lemma queues_ok_start: "queues_ok no_mutations"
  by (simp add: queues_ok_def map_ok_def no_mutations_def)

lemma queues_ok_enter:
  assumes "queues_ok s"
  shows "queues_ok (enter_queue key s)"
proof -
  let ?t = "enter_queue key s" and ?n = "length (mq_calls s)"
  have old [simp]: "mq_calls ?t ! j = mq_calls s ! j" if "j < ?n" for j
    using that by (simp add: enter_queue_def nth_append)
  have new [simp]: "mq_calls ?t ! ?n = \<lparr>mu_key = key, mu_currentQueue = mq_map s key, mu_phase = Waiting, mu_chained = False\<rparr>"
    by (simp add: enter_queue_def)
  have len [simp]: "length (mq_calls ?t) = Suc ?n" by (simp add: enter_queue_def)
  have map [simp]: "mq_map ?t = (mq_map s)(key \<mapsto> ?n)" by (simp add: enter_queue_def)
  have m: "map_ok s k" for k using assms by (simp add: queues_ok_def)
  have "call_ok ?t i" if "i < Suc ?n" for i
  proof (cases "i < ?n")
    case True
    with queues_okD [OF assms True] show ?thesis
      by (auto simp: call_ok_def earlier_done_def split: option.splits)
  next
    case False
    with that have "i = ?n" by simp
    with m [of key] show ?thesis by (auto simp: call_ok_def earlier_done_def map_ok_def split: option.splits)
  qed
  moreover have "map_ok ?t k" for k
    using m [of k] by (auto simp: map_ok_def less_Suc_eq split: option.splits)
  ultimately show ?thesis by (simp add: queues_ok_def)
qed

lemma update_call_simps [simp]:
  "length (mq_calls (update_call i f s)) = length (mq_calls s)"
  "mq_map (update_call i f s) = mq_map s"
  "i < length (mq_calls s) \<Longrightarrow>
    mq_calls (update_call i f s) ! j = (if j = i then f (mq_calls s ! i) else mq_calls s ! j)"
  by (auto simp: update_call_def)

text \<open>A change to one call that keeps its file and its place and, if it was done, leaves it done.\<close>

lemma call_ok_update:
  assumes "queues_ok s" and "i < length (mq_calls s)" and "j < length (mq_calls s)"
    and "mu_key (f (mq_calls s ! i)) = key_of s i" "mu_currentQueue (f (mq_calls s ! i)) = mu_currentQueue (mq_calls s ! i)"
    and "phase_of s i = Released \<Longrightarrow> mu_phase (f (mq_calls s ! i)) = Released"
    and "mu_phase (f (mq_calls s ! i)) \<noteq> Waiting \<Longrightarrow> earlier_done s i"
    and "mu_chained (f (mq_calls s ! i)) \<Longrightarrow> mu_phase (f (mq_calls s ! i)) = Released"
  shows "call_ok (update_call i f s) j"
proof -
  have kept: "earlier_done s k \<Longrightarrow> earlier_done (update_call i f s) k" for k
    unfolding earlier_done_def using assms(2,4,6) by auto
  show ?thesis using queues_okD [OF assms(1,3)] assms(2,4,5,7,8) kept [of j]
    by (auto simp: call_ok_def split: option.splits if_splits)
qed

lemma queues_ok_begin:
  assumes "queues_ok s" and "can_begin i s"
  shows "queues_ok (begin_fn i s)"
proof -
  from assms(2) have i: "i < length (mq_calls s)" "phase_of s i = Waiting" "settled_queue s (mu_currentQueue (mq_calls s ! i))"
    by (simp_all add: can_begin_def)
  note first = settled_earlier_done [OF assms(1) i(1,3)]
  have "call_ok (begin_fn i s) j" if "j < length (mq_calls s)" for j
    unfolding begin_fn_def using queues_okD [OF assms(1) i(1)] i first
    by (intro call_ok_update [OF assms(1) i(1) that]) (auto simp: call_ok_def)
  moreover have "map_ok (begin_fn i s) k" for k
  proof -
    have "map_ok s k" using assms(1) by (simp add: queues_ok_def)
    with i show ?thesis by (auto simp: map_ok_def begin_fn_def split: option.splits)
  qed
  ultimately show ?thesis by (simp add: queues_ok_def begin_fn_def)
qed

lemma queues_ok_settle:
  assumes "queues_ok s" and "can_chain i s"
  shows "queues_ok (settle_chain i s)"
proof -
  from assms(2) have i: "i < length (mq_calls s)" "phase_of s i = Released" by (simp_all add: can_chain_def)
  have "call_ok (settle_chain i s) j" if "j < length (mq_calls s)" for j
    unfolding settle_chain_def using queues_okD [OF assms(1) i(1)] i
    by (intro call_ok_update [OF assms(1) i(1) that]) (auto simp: call_ok_def)
  moreover have "map_ok (settle_chain i s) k" for k
  proof -
    have "map_ok s k" using assms(1) by (simp add: queues_ok_def)
    with i show ?thesis by (auto simp: map_ok_def settle_chain_def split: option.splits)
  qed
  ultimately show ?thesis by (simp add: queues_ok_def settle_chain_def)
qed

lemma leave_queue_simps [simp]:
  "mq_calls (leave_queue i s) = mq_calls (update_call i (mu_phase_update (\<lambda>_. Released)) s)"
  "i < length (mq_calls s) \<Longrightarrow> mq_map (leave_queue i s) =
    (if mq_map s (key_of s i) = Some i then (mq_map s)(key_of s i := None) else mq_map s)"
  by (simp_all add: leave_queue_def Let_def)

lemma call_ok_calls: "mq_calls t = mq_calls u \<Longrightarrow> call_ok t j = call_ok u j"
  by (simp only: call_ok_def earlier_done_def)

lemma queues_ok_leave:
  assumes "queues_ok s" and "is_running i s"
  shows "queues_ok (leave_queue i s)"
proof -
  from assms(2) have i: "i < length (mq_calls s)" "phase_of s i = Running" by (simp_all add: is_running_def)
  from queues_okD [OF assms(1) i(1)] i(2) have first: "earlier_done s i" by (simp add: call_ok_def)
  have "call_ok (leave_queue i s) j" if "j < length (mq_calls s)" for j
    unfolding call_ok_calls [OF leave_queue_simps(1)] using first
    by (intro call_ok_update [OF assms(1) i(1) that]) auto
  moreover have "map_ok (leave_queue i s) k" for k
  proof -
    have m: "map_ok s k" using assms(1) by (simp add: queues_ok_def)
    show ?thesis
    proof (cases "mq_map s (key_of s i) = Some i \<and> k = key_of s i")
      case True
      with m have last: "j \<le> i" if "j < length (mq_calls s)" "key_of s j = k" for j
        using that by (auto simp: map_ok_def not_less [symmetric])
      then have "phase_of s j = Released" if "j < length (mq_calls s)" "key_of s j = k" "j \<noteq> i" for j
        using first that True by (metis earlier_done_def le_neq_implies_less)
      with True i show ?thesis by (auto simp: map_ok_def)
    next
      case False
      with m i show ?thesis by (auto simp: map_ok_def split: option.splits)
    qed
  qed
  ultimately show ?thesis by (simp add: queues_ok_def)
qed

lemma queues_ok_step: "mutation_step s t \<Longrightarrow> queues_ok s \<Longrightarrow> queues_ok t"
  by (auto elim!: mutation_stepE simp: queue_step_iff
      intro: queues_ok_enter queues_ok_begin queues_ok_settle queues_ok_leave)

lemma mutation_reachable_ok: "mutation_reachable s \<Longrightarrow> queues_ok s"
  by (induction rule: mutation_reachable.induct) (auto intro: queues_ok_start queues_ok_step)

section \<open>Turns\<close>

lemma running_turns:
  assumes "queues_ok s" and "is_running i s" and "j < length (mq_calls s)" and "key_of s j = key_of s i"
  shows "j < i \<Longrightarrow> phase_of s j = Released" and "i < j \<Longrightarrow> phase_of s j = Waiting"
proof -
  from assms(2) have i: "i < length (mq_calls s)" "phase_of s i = Running" by (simp_all add: is_running_def)
  from queues_okD [OF assms(1) i(1)] i(2) assms(4) show "j < i \<Longrightarrow> phase_of s j = Released"
    by (auto simp: call_ok_def earlier_done_def)
  show "i < j \<Longrightarrow> phase_of s j = Waiting"
    using queues_okD [OF assms(1,3)] i(2) assms(4) by (force simp: call_ok_def earlier_done_def)
qed

section \<open>Progress\<close>

text \<open>What a call still has to do; every step but a new call takes one off.\<close>

definition remaining :: "mutation \<Rightarrow> nat" where
  "remaining c = (case mu_phase c of Waiting \<Rightarrow> 3 | Running \<Rightarrow> 2 | Released \<Rightarrow> if mu_chained c then 0 else 1)"

definition pending_steps :: "mutation_queues \<Rightarrow> nat" where
  "pending_steps s = sum_list (map remaining (mq_calls s))"

lemma sum_list_update_less:
  "i < length xs \<Longrightarrow> Suc (f x) = f (xs ! i) \<Longrightarrow> Suc (sum_list (map f (xs[i := x]))) = (sum_list (map f xs) :: nat)"
  by (induction xs arbitrary: i) (auto split: nat.splits)

lemma queue_step_pending: "queue_step s t \<Longrightarrow> queues_ok s \<Longrightarrow> Suc (pending_steps t) = pending_steps s"
proof (induction rule: queue_step.induct)
  case (begins i s)
  from queues_okD [OF begins(2)] begins(1) show ?case
    unfolding pending_steps_def begin_fn_def update_call_def
    by (auto simp: can_begin_def remaining_def call_ok_def intro!: sum_list_update_less)
next
  case (leave i s)
  from queues_okD [OF leave(2)] leave(1) show ?case
    unfolding pending_steps_def leave_queue_simps update_call_def
    by (auto simp: is_running_def remaining_def call_ok_def intro!: sum_list_update_less)
next
  case (settle i s)
  then show ?case
    unfolding pending_steps_def settle_chain_def update_call_def
    by (auto simp: can_chain_def remaining_def intro!: sum_list_update_less)
qed

lemma least_open_call_steps:
  assumes "queues_ok s" and "i < length (mq_calls s)" and "\<not> mu_chained (mq_calls s ! i)"
    and "\<And>j. j < i \<Longrightarrow> mu_chained (mq_calls s ! j)"
  shows "\<exists>t. queue_step s t"
proof -
  have settled: "settled_queue s (mu_currentQueue (mq_calls s ! i))"
    using queues_okD [OF assms(1,2)] assms(2,4) by (auto simp: call_ok_def settled_queue_def split: option.splits)
  show ?thesis
  proof (cases "phase_of s i")
    case Waiting
    with settled assms(2) have "can_begin i s" by (simp add: can_begin_def)
    then show ?thesis by (blast intro: queue_step.begins)
  next
    case Running
    with assms(2) have "is_running i s" by (simp add: is_running_def)
    then show ?thesis by (blast intro: queue_step.leave)
  next
    case Released
    with settled assms(2,3) have "can_chain i s" by (simp add: can_chain_def)
    then show ?thesis by (blast intro: queue_step.settle)
  qed
qed

lemma stuck_all_done:
  assumes "queues_ok s" and "\<nexists>t. queue_step s t"
  shows "(\<forall>i<length (mq_calls s). phase_of s i = Released) \<and> mq_map s = Map.empty"
proof -
  have chained: "mu_chained (mq_calls s ! i)" if "i < length (mq_calls s)" for i
    using that
  proof (induction i rule: less_induct)
    case (less i)
    then have "\<And>j. j < i \<Longrightarrow> mu_chained (mq_calls s ! j)" by simp
    with least_open_call_steps [OF assms(1) less.prems] assms(2) show ?case by blast
  qed
  with queues_okD [OF assms(1)] have all: "phase_of s i = Released" if "i < length (mq_calls s)" for i
    using that by (auto simp: call_ok_def)
  have "mq_map s k = None" for k
  proof (rule ccontr)
    assume "mq_map s k \<noteq> None"
    moreover have "map_ok s k" using assms(1) by (simp add: queues_ok_def)
    ultimately show False using all by (auto simp: map_ok_def)
  qed
  with all show ?thesis by blast
qed

lemma mutation_run_ok: "queue_step\<^sup>*\<^sup>* s t \<Longrightarrow> queues_ok s \<Longrightarrow> queues_ok t"
  by (induction rule: rtranclp_induct) (auto intro: queues_ok_step mutation_step.queued)

lemma queue_steps_pending:
  "(queue_step ^^ n) s t \<Longrightarrow> queues_ok s \<Longrightarrow> queues_ok t \<and> pending_steps t + n = pending_steps s"
proof (induction n arbitrary: t)
  case (Suc n)
  then obtain u where u: "(queue_step ^^ n) s u" "queue_step u t" by auto
  with Suc have ok: "queues_ok u" "pending_steps u + n = pending_steps s" by auto
  with u(2) queue_step_pending show ?case
    by (metis add_Suc_right add_Suc mutation_step.queued queues_ok_step)
qed simp

section \<open>No update is lost\<close>

text \<open>
  The files, for tools that read the whole file when \<^verbatim>\<open>fn\<close> begins and write it back changed when it ends,
  as the edit tool does: call \<open>i\<close> changes the content by \<open>f i\<close>.
\<close>

record 'c mutated_files =
  mf_queues :: mutation_queues
  mf_content :: "jstr \<Rightarrow> 'c"
  mf_read :: "nat \<Rightarrow> 'c"

inductive file_step :: "(nat \<Rightarrow> 'c \<Rightarrow> 'c) \<Rightarrow> 'c mutated_files \<Rightarrow> 'c mutated_files \<Rightarrow> bool" for f where
  enter: "file_step f w (w\<lparr>mf_queues := enter_queue key (mf_queues w)\<rparr>)"
| reads: "can_begin i (mf_queues w) \<Longrightarrow>
    file_step f w (w\<lparr>mf_queues := begin_fn i (mf_queues w),
      mf_read := (mf_read w)(i := mf_content w (key_of (mf_queues w) i))\<rparr>)"
| writes: "is_running i (mf_queues w) \<Longrightarrow>
    file_step f w (w\<lparr>mf_queues := leave_queue i (mf_queues w),
      mf_content := (mf_content w)(key_of (mf_queues w) i := f i (mf_read w i))\<rparr>)"
| settle: "can_chain i (mf_queues w) \<Longrightarrow> file_step f w (w\<lparr>mf_queues := settle_chain i (mf_queues w)\<rparr>)"

text \<open>The calls for a file that are done, in the order in which they were made.\<close>

definition done_calls :: "mutation_queues \<Rightarrow> jstr \<Rightarrow> nat list" where
  "done_calls s k = filter (\<lambda>i. key_of s i = k \<and> phase_of s i = Released) [0..<length (mq_calls s)]"

definition files_ok :: "(nat \<Rightarrow> 'c \<Rightarrow> 'c) \<Rightarrow> (jstr \<Rightarrow> 'c) \<Rightarrow> 'c mutated_files \<Rightarrow> bool" where
  "files_ok f c0 w \<longleftrightarrow> queues_ok (mf_queues w)
     \<and> (\<forall>k. mf_content w k = fold f (done_calls (mf_queues w) k) (c0 k))
     \<and> (\<forall>i. is_running i (mf_queues w) \<longrightarrow> mf_read w i = mf_content w (key_of (mf_queues w) i))"

lemma done_calls_cong:
  assumes "length (mq_calls t) = length (mq_calls s)"
    and "\<And>i. i < length (mq_calls s) \<Longrightarrow> key_of t i = key_of s i \<and> (phase_of t i = Released \<longleftrightarrow> phase_of s i = Released)"
  shows "done_calls t k = done_calls s k"
  unfolding done_calls_def assms(1) by (rule filter_cong) (use assms(2) in auto)

lemma done_calls_enter: "done_calls (enter_queue key s) k = done_calls s k"
proof -
  have "filter (\<lambda>i. key_of (enter_queue key s) i = k \<and> phase_of (enter_queue key s) i = Released) [0..<length (mq_calls s)] =
    filter (\<lambda>i. key_of s i = k \<and> phase_of s i = Released) [0..<length (mq_calls s)]"
    by (rule filter_cong) (auto simp: enter_queue_def nth_append)
  then show ?thesis by (simp add: done_calls_def enter_queue_def)
qed

lemma done_calls_leave:
  assumes "queues_ok s" and "is_running i s"
  shows "done_calls (leave_queue i s) k = done_calls s k @ (if k = key_of s i then [i] else [])"
proof -
  from assms(2) have i: "i < length (mq_calls s)" by (simp add: is_running_def)
  have other: "done_calls (leave_queue i s) k = done_calls s k" if "k \<noteq> key_of s i"
    unfolding done_calls_def using i that by (auto intro!: filter_cong)
  let ?n = "length (mq_calls s)"
  have split: "[0..<?n] = [0..<i] @ i # [Suc i..<?n]" 
    using upt_add_eq_append [of 0 i "?n - i"] upt_conv_Cons [OF i] i by simp
  have late: "filter (\<lambda>j. key_of s j = key_of s i \<and> phase_of s j = Released) [Suc i..<?n] = []"
    using running_turns(2) [OF assms] by (auto simp: filter_empty_conv)
  have late': "filter (\<lambda>j. key_of (leave_queue i s) j = key_of s i \<and> phase_of (leave_queue i s) j = Released) [Suc i..<?n] = []"
    using running_turns(2) [OF assms] i by (auto simp: filter_empty_conv)
  have early: "filter (\<lambda>j. key_of (leave_queue i s) j = key_of s i \<and> phase_of (leave_queue i s) j = Released) [0..<i] =
    filter (\<lambda>j. key_of s j = key_of s i \<and> phase_of s j = Released) [0..<i]"
    using i by (intro filter_cong) auto
  show ?thesis
  proof (cases "k = key_of s i")
    case True
    with i late late' early assms(2) show ?thesis
      unfolding done_calls_def leave_queue_simps update_call_simps split filter_append filter.simps
      by (simp add: is_running_def)
  qed (use other in simp)
qed

lemma is_running_leave: "is_running j (leave_queue i s) \<longleftrightarrow> is_running j s \<and> j \<noteq> i" if "is_running i s"
  using that by (auto simp: is_running_def)

lemma is_running_begin: "is_running j (begin_fn i s) \<longleftrightarrow> is_running j s \<or> j = i" if "can_begin i s"
  using that by (auto simp: is_running_def begin_fn_def can_begin_def)

lemma is_running_enter: "queues_ok s \<Longrightarrow> is_running j (enter_queue key s) \<longleftrightarrow> is_running j s"
  by (auto simp: is_running_def enter_queue_def nth_append)

lemma one_running:
  "queues_ok s \<Longrightarrow> is_running i s \<Longrightarrow> is_running j s \<Longrightarrow> key_of s i = key_of s j \<Longrightarrow> i = j"
  using running_turns [of s i j] linorder_neqE_nat [of i j] by (auto simp: is_running_def)

lemma files_ok_step: "file_step f w v \<Longrightarrow> files_ok f c0 w \<Longrightarrow> files_ok f c0 v"
proof (induction rule: file_step.induct)
  case (enter w key)
  then show ?case
    by (auto simp: files_ok_def done_calls_enter is_running_enter intro: queues_ok_enter)
      (auto simp: is_running_def enter_queue_def nth_append)
next
  case (reads i w)
  then have "done_calls (begin_fn i (mf_queues w)) k = done_calls (mf_queues w) k" for k
    by (intro done_calls_cong) (auto simp: begin_fn_def can_begin_def)
  with reads show ?case
    by (auto simp: files_ok_def is_running_begin intro: queues_ok_begin) (auto simp: begin_fn_def can_begin_def)
next
  case (writes i w)
  then have ok: "queues_ok (mf_queues w)" and i: "i < length (mq_calls (mf_queues w))"
    by (auto simp: files_ok_def is_running_def)
  have one: "key_of (mf_queues w) j \<noteq> key_of (mf_queues w) i" if "is_running j (mf_queues w)" "j \<noteq> i" for j
    using one_running [OF ok writes(1) that(1)] that(2) by auto
  from writes one show ?case
    using i by (auto simp: files_ok_def is_running_leave done_calls_leave intro: queues_ok_leave)
next
  case (settle i w)
  then have "done_calls (settle_chain i (mf_queues w)) k = done_calls (mf_queues w) k" for k
    by (intro done_calls_cong) (auto simp: settle_chain_def can_chain_def)
  moreover have "is_running j (settle_chain i (mf_queues w)) \<longleftrightarrow> is_running j (mf_queues w)" for j
    using settle(1) by (auto simp: is_running_def settle_chain_def can_chain_def)
  ultimately show ?case using settle
    by (auto simp: files_ok_def intro: queues_ok_settle) (auto simp: settle_chain_def can_chain_def)
qed

lemma files_ok_start: "files_ok f c0 \<lparr>mf_queues = no_mutations, mf_content = c0, mf_read = r\<rparr>"
  using queues_ok_start by (simp add: files_ok_def done_calls_def no_mutations_def is_running_def)

lemma files_ok_run: "(file_step f)\<^sup>*\<^sup>* w v \<Longrightarrow> files_ok f c0 w \<Longrightarrow> files_ok f c0 v"
  by (induction rule: rtranclp_induct) (auto intro: files_ok_step)

section \<open>Properties\<close>

text \<open>
  C28: Whatever the order in which calls are made and go on, at most one \<^verbatim>\<open>fn\<close> runs per file, files are
  known by their resolved path; when it runs, all calls for the file made before have ended and all made after
  still wait. A call whose predecessors on the same file have ended never waits for another file.
\<close>

theorem mutations_take_turns:
  assumes "mutation_reachable s" and "i < length (mq_calls s)" and "j < length (mq_calls s)"
    and "mu_key (mq_calls s ! i) = mu_key (mq_calls s ! j)" and "i < j"
  shows "(is_running i s \<longrightarrow> mu_phase (mq_calls s ! j) = Waiting)
    \<and> (is_running j s \<longrightarrow> mu_phase (mq_calls s ! i) = Released)
    \<and> (mu_phase (mq_calls s ! j) = Waiting
        \<and> (\<forall>p<j. mu_key (mq_calls s ! p) = mu_key (mq_calls s ! j) \<longrightarrow> mu_chained (mq_calls s ! p)) \<longrightarrow> can_begin j s)"
proof -
  have ok: "queues_ok s" using assms(1) by (rule mutation_reachable_ok)
  have "can_begin j s" if "mu_phase (mq_calls s ! j) = Waiting"
      "\<forall>p<j. mu_key (mq_calls s ! p) = mu_key (mq_calls s ! j) \<longrightarrow> mu_chained (mq_calls s ! p)"
    using queues_okD [OF ok assms(3)] that assms(3)
    by (auto simp: can_begin_def settled_queue_def call_ok_def split: option.splits)
  with running_turns [OF ok _ assms(2)] running_turns [OF ok _ assms(3)] assms(4,5) show ?thesis by auto
qed

text \<open>
  C29: Calls never block each other for good: from every reachable state each sequence of steps of the calls
  already made is bounded, by three steps for each call, and where no step is left every call has ended and
  the map of queues is empty again, so no queue leaks.
\<close>

theorem mutations_finish:
  assumes "mutation_reachable s" and "(queue_step ^^ n) s t"
  shows "n \<le> 3 * length (mq_calls s)
    \<and> ((\<nexists>u. queue_step t u) \<longrightarrow>
        (\<forall>i<length (mq_calls t). mu_phase (mq_calls t ! i) = Released) \<and> mq_map t = Map.empty)"
proof -
  have ok: "queues_ok s" using assms(1) by (rule mutation_reachable_ok)
  from queue_steps_pending [OF assms(2) ok] have t: "queues_ok t" "n \<le> pending_steps s" by auto
  have "sum_list (map remaining cs) \<le> 3 * length cs" for cs
    by (induction cs) (auto simp: remaining_def split: call_phase.split)
  with t stuck_all_done [OF t(1)] show ?thesis unfolding pending_steps_def by (meson order_trans)
qed

text \<open>
  C27: When every tool reads the file as its turn begins and writes it back changed as the turn ends, no
  change is lost: at every moment the content of a file is the result of the changes that have ended, one
  after the other in the order of the calls, and a running call has read the current content.
\<close>

theorem no_update_lost:
  assumes "(file_step f)\<^sup>*\<^sup>* \<lparr>mf_queues = no_mutations, mf_content = c0, mf_read = r\<rparr> w"
  shows "mf_content w k = fold f (done_calls (mf_queues w) k) (c0 k)
    \<and> (\<forall>i. is_running i (mf_queues w) \<longrightarrow> mf_read w i = mf_content w (mu_key (mq_calls (mf_queues w) ! i)))"
  using files_ok_run [OF assms files_ok_start] by (simp add: files_ok_def)

section \<open>Two edits of one file\<close>

definition demo_waiting :: mutation_queues where
  "demo_waiting = enter_queue (js ''a'') (enter_queue (js ''a'') no_mutations)"

lemmas demo_queue_simps = demo_waiting_def no_mutations_def enter_queue_def begin_fn_def leave_queue_def settle_chain_def
  update_call_def can_begin_def is_running_def can_chain_def settled_queue_def Let_def

lemma demo_reachable: "mutation_reachable (begin_fn 0 demo_waiting)" "mutation_reachable demo_waiting"
proof -
  show waiting: "mutation_reachable demo_waiting" unfolding demo_waiting_def
    by (intro mutation_reachable.step [OF _ mutation_step.enter] mutation_reachable.start)
  have "can_begin 0 demo_waiting" by (simp add: demo_queue_simps)
  with waiting show "mutation_reachable (begin_fn 0 demo_waiting)"
    by (blast intro: mutation_reachable.step mutation_step.queued queue_step.begins)
qed

lemma mutations_take_turns_witness:
  "is_running 0 (begin_fn 0 demo_waiting) \<and> mu_phase (mq_calls (begin_fn 0 demo_waiting) ! 1) = Waiting"
  using mutations_take_turns [OF demo_reachable(1), of 0 1] by (simp add: demo_queue_simps)

definition demo_finished :: mutation_queues where
  "demo_finished =
     settle_chain 1 (leave_queue 1 (begin_fn 1 (settle_chain 0 (leave_queue 0 (begin_fn 0 demo_waiting)))))"

lemma demo_steps: "(queue_step ^^ 6) demo_waiting demo_finished"
proof -
  have "queue_step demo_waiting (begin_fn 0 demo_waiting)"
    by (rule queue_step.begins) (simp add: demo_queue_simps)
  moreover have "queue_step (begin_fn 0 demo_waiting) (leave_queue 0 (begin_fn 0 demo_waiting))"
    by (rule queue_step.leave) (simp add: demo_queue_simps)
  moreover have "queue_step (leave_queue 0 (begin_fn 0 demo_waiting)) (settle_chain 0 (leave_queue 0 (begin_fn 0 demo_waiting)))"
    by (rule queue_step.settle) (simp add: demo_queue_simps)
  moreover have "queue_step (settle_chain 0 (leave_queue 0 (begin_fn 0 demo_waiting)))
      (begin_fn 1 (settle_chain 0 (leave_queue 0 (begin_fn 0 demo_waiting))))"
    by (rule queue_step.begins) (simp add: demo_queue_simps)
  moreover have "queue_step (begin_fn 1 (settle_chain 0 (leave_queue 0 (begin_fn 0 demo_waiting))))
      (leave_queue 1 (begin_fn 1 (settle_chain 0 (leave_queue 0 (begin_fn 0 demo_waiting)))))"
    by (rule queue_step.leave) (simp add: demo_queue_simps)
  moreover have "queue_step (leave_queue 1 (begin_fn 1 (settle_chain 0 (leave_queue 0 (begin_fn 0 demo_waiting))))) demo_finished"
    unfolding demo_finished_def by (rule queue_step.settle) (simp add: demo_queue_simps)
  ultimately show ?thesis by (simp add: numeral_eq_Suc relcompp_apply) blast
qed

lemma demo_stuck: "\<not> queue_step demo_finished u"
proof
  assume "queue_step demo_finished u"
  moreover have "queues_ok demo_finished"
    using queue_steps_pending [OF demo_steps mutation_reachable_ok [OF demo_reachable(2)]] by blast
  ultimately have "Suc (pending_steps u) = pending_steps demo_finished" by (rule queue_step_pending)
  then show False by (simp add: pending_steps_def demo_finished_def remaining_def demo_queue_simps)
qed

lemma mutations_finish_witness:
  "(6 :: nat) \<le> 3 * length (mq_calls demo_waiting) \<and> map mu_phase (mq_calls demo_finished) = [Released, Released]
   \<and> mq_map demo_finished = Map.empty"
proof -
  have len: "length (mq_calls demo_finished) = 2" by (simp add: demo_finished_def demo_queue_simps)
  have "map mu_phase cs = [Released, Released]" if "length cs = 2" "\<forall>i<length cs. mu_phase (cs ! i) = Released" for cs
    using that by (auto simp: numeral_eq_Suc length_Suc_conv less_Suc_eq)
  then show ?thesis using mutations_finish [OF demo_reachable(2) demo_steps] demo_stuck len by blast
qed

abbreviation log_call :: "nat \<Rightarrow> nat list \<Rightarrow> nat list" where
  "log_call i c \<equiv> c @ [i]"

lemma no_update_lost_witness:
  "\<exists>w. (file_step log_call)\<^sup>*\<^sup>* \<lparr>mf_queues = no_mutations, mf_content = \<lambda>_. [], mf_read = \<lambda>_. []\<rparr> w
     \<and> mf_content w (js ''a'') = fold log_call (done_calls (mf_queues w) (js ''a'')) [] \<and> done_calls (mf_queues w) (js ''a'') = [0]"
proof -
  let ?a = "js ''a''" and ?w0 = "\<lparr>mf_queues = no_mutations, mf_content = \<lambda>_. [], mf_read = \<lambda>_. []\<rparr> :: nat list mutated_files"
  let ?q1 = "enter_queue ?a no_mutations"
  let ?w1 = "?w0\<lparr>mf_queues := ?q1\<rparr>"
  let ?w2 = "?w1\<lparr>mf_queues := begin_fn 0 ?q1, mf_read := (\<lambda>_. [])(0 := [])\<rparr>"
  let ?w3 = "?w2\<lparr>mf_queues := leave_queue 0 (begin_fn 0 ?q1), mf_content := (\<lambda>_. [])(?a := log_call 0 [])\<rparr>"
  have "file_step log_call ?w0 ?w1" using file_step.enter [of log_call ?w0 ?a] by simp
  moreover have "file_step log_call ?w1 ?w2" using file_step.reads [of 0 ?w1 log_call] by (simp add: demo_queue_simps)
  moreover have "file_step log_call ?w2 ?w3" using file_step.writes [of 0 ?w2 log_call] by (simp add: demo_queue_simps)
  ultimately have run: "(file_step log_call)\<^sup>*\<^sup>* ?w0 ?w3" 
    by (blast intro: converse_rtranclp_into_rtranclp)
  have "done_calls (mf_queues ?w3) ?a = [0]" by (simp add: done_calls_def demo_queue_simps)
  with no_update_lost [OF run, of ?a] run show ?thesis by blast
qed

end
