(* ===== verification/Branch_Summary.thy ===== *)
theory Branch_Summary
  imports Harness_Session Compaction
begin

text \<open>
  Summarising the branch that a session leaves: \<^verbatim>\<open>packages/agent/src/harness/compaction/branch-summarization.ts\<close>.
  The entries of the branch left are collected back to the common ancestor with the target, as many of their
  messages as fit the budget are chosen from the newest back, and the model is asked for a summary, to which the files touched
  are added. Asking the model is a parameter, as in \<open>Compaction\<close>.
\<close>

section \<open>The entries to summarise\<close>

record collected_entries =
  ce_entries :: "entry list"
  ce_commonAncestorId :: "jstr option"

text \<open>The walk back from the old leaf. The fuel is the number of entries; \<open>None\<close> stands for a walk in a cycle.\<close>

fun collect_back ::
  "nat \<Rightarrow> (jstr \<Rightarrow> entry option) \<Rightarrow> jstr option \<Rightarrow> jstr option \<Rightarrow> entry list \<Rightarrow> (session_error + entry list) option" where
  "collect_back n getEntry ancestor current acc =
     (if \<not> truthy_str current \<or> current = ancestor then Some (Inr acc)
      else
        (case getEntry (the current) of
           None \<Rightarrow> Some (Inl (entry_error SE_invalid_session (the current)))
         | Some e \<Rightarrow>
             (case n of 0 \<Rightarrow> None | Suc k \<Rightarrow> collect_back k getEntry ancestor (en_parentId e) (e # acc))))"

declare collect_back.simps [simp del]

definition collectEntriesForBranchSummary ::
  "'s storage_ops \<Rightarrow> 's \<Rightarrow> jstr option \<Rightarrow> jstr \<Rightarrow> (session_error + collected_entries) option" where
  "collectEntriesForBranchSummary ops s oldLeafId targetId =
     (if \<not> truthy_str oldLeafId then Some (Inr \<lparr>ce_entries = [], ce_commonAncestorId = None\<rparr>)
      else
        (case session_getBranch ops oldLeafId s of
           None \<Rightarrow> None
         | Some (Inl e) \<Rightarrow> Some (Inl e)
         | Some (Inr old) \<Rightarrow>
             (case session_getBranch ops (Some targetId) s of
                None \<Rightarrow> None
              | Some (Inl e) \<Rightarrow> Some (Inl e)
              | Some (Inr target) \<Rightarrow>
                  (let ancestor = map_option en_id (find (\<lambda>e. en_id e \<in> set (map en_id old)) (rev target)) in
                   map_option (map_sum id (\<lambda>es. \<lparr>ce_entries = es, ce_commonAncestorId = ancestor\<rparr>))
                     (collect_back (length (op_getEntries ops s)) (op_getEntry ops s) ancestor oldLeafId [])))))"

section \<open>The messages to summarise\<close>

text \<open>Tool results are left out; a compaction counts as its summary.\<close>

definition branch_message :: "(jstr \<Rightarrow> jtime) \<Rightarrow> entry \<Rightarrow> agent_message option" where
  "branch_message get_time e =
     (case en_kind e of
        MessageEntry m \<Rightarrow> (case m of Llm (ToolResultM r) \<Rightarrow> None | _ \<Rightarrow> Some m)
      | CustomMessageEntry t c d display \<Rightarrow>
          Some (CustomMsg (createCustomMessage get_time t c display d (en_timestamp e)))
      | BranchSummaryEntry from_id summary d h \<Rightarrow>
          Some (BranchSummary (createBranchSummaryMessage get_time summary from_id (en_timestamp e)))
      | CompactionEntry d \<Rightarrow>
          Some (CompactionSummary (createCompactionSummaryMessage get_time (cd_summary d) (cd_tokensBefore d) (en_timestamp e)))
      | _ \<Rightarrow> None)"

record branch_preparation =
  bp_messages :: "agent_message list"
  bp_fileOps :: file_operations
  bp_totalTokens :: int

text \<open>The files that earlier branch summaries recorded.\<close>

definition add_summary_files :: "file_operations \<Rightarrow> entry \<Rightarrow> file_operations" where
  "add_summary_files ops e =
     (case en_kind e of
        BranchSummaryEntry from_id summary (Some details) fromHook \<Rightarrow>
          (if fromHook = Some True then ops
           else ops\<lparr>fo_read := foldl set_add (fo_read ops) (json_strings (json_get details (js ''readFiles''))),
                    fo_edited := foldl set_add (fo_edited ops) (json_strings (json_get details (js ''modifiedFiles'')))\<rparr>)
      | _ \<Rightarrow> ops)"

definition is_summary :: "entry \<Rightarrow> bool" where
  "is_summary e = (case en_kind e of CompactionEntry d \<Rightarrow> True | BranchSummaryEntry f s d h \<Rightarrow> True | _ \<Rightarrow> False)"

text \<open>The loop over the entries, the newest first. Nine tenths of the budget are compared in integers.\<close>

fun select_messages ::
  "(jstr \<Rightarrow> jtime) \<Rightarrow> int \<Rightarrow> entry list \<Rightarrow> branch_preparation \<Rightarrow> branch_preparation" where
  "select_messages get_time tokenBudget [] p = p"
| "select_messages get_time tokenBudget (e # es) p =
     (case branch_message get_time e of
        None \<Rightarrow> select_messages get_time tokenBudget es p
      | Some m \<Rightarrow>
          (let p = p\<lparr>bp_fileOps := extractFileOpsFromMessage (bp_fileOps p) m\<rparr>;
               tokens = estimateTokens m;
               p' = p\<lparr>bp_messages := m # bp_messages p, bp_totalTokens := bp_totalTokens p + tokens\<rparr>
           in if tokenBudget > 0 \<and> bp_totalTokens p + tokens > tokenBudget
              then (if is_summary e \<and> 10 * bp_totalTokens p < 9 * tokenBudget then p' else p)
              else select_messages get_time tokenBudget es p'))"

definition prepareBranchEntries :: "(jstr \<Rightarrow> jtime) \<Rightarrow> entry list \<Rightarrow> int \<Rightarrow> branch_preparation" where
  "prepareBranchEntries get_time entries tokenBudget =
     select_messages get_time tokenBudget (rev entries)
       \<lparr>bp_messages = [], bp_fileOps = foldl add_summary_files createFileOps entries, bp_totalTokens = 0\<rparr>"

section \<open>The summary\<close>

definition BRANCH_SUMMARY_PREAMBLE :: jstr where \<open>
  BRANCH_SUMMARY_PREAMBLE = join_with [LF]
    [js ''The user explored a different conversation branch before returning here.'',
     js ''Summary of that exploration:'',
     [], []]\<close>

definition BRANCH_SUMMARY_PROMPT :: jstr where \<open>
  BRANCH_SUMMARY_PROMPT = join_with [LF]
    [js ''Create a structured summary of this conversation branch for context when returning later.'',
     [],
     js ''Use this EXACT format:'',
     [],
     js ''## Goal'',
     js ''[What was the user trying to accomplish in this branch?]'',
     [],
     js ''## Constraints & Preferences'',
     js ''- [Any constraints, preferences, or requirements mentioned]'',
     js ''- [Or "(none)" if none were mentioned]'',
     [],
     js ''## Progress'',
     js ''### Done'',
     js ''- [x] [Completed tasks/changes]'',
     [],
     js ''### In Progress'',
     js ''- [ ] [Work that was started but not finished]'',
     [],
     js ''### Blocked'',
     js ''- [Issues preventing progress, if any]'',
     [],
     js ''## Key Decisions'',
     js ''- **[Decision]**: [Brief rationale]'',
     [],
     js ''## Next Steps'',
     js ''1. [What should happen next to continue this work]'',
     [],
     js ''Keep each section concise. Preserve exact file paths, function names, and error messages.'']\<close>

datatype branch_error_code = BE_aborted | BE_summarization_failed | BE_invalid_session

record branch_summary_error =
  be_code :: branch_error_code
  be_message :: jstr

record branch_summary_result =
  br_summary :: jstr
  br_readFiles :: "jstr list"
  br_modifiedFiles :: "jstr list"

record branch_summary_options =
  bo_model :: llm_model
  bo_apiKey :: jstr
  bo_headers :: "(jstr \<times> jstr) list option"
  bo_customInstructions :: "jstr option"
  bo_replaceInstructions :: "bool option"
  bo_reserveTokens :: "int option"

definition branch_instructions :: "branch_summary_options \<Rightarrow> jstr" where
  "branch_instructions opts =
     (if bo_replaceInstructions opts = Some True \<and> truthy_str (bo_customInstructions opts)
      then the (bo_customInstructions opts)
      else if truthy_str (bo_customInstructions opts)
      then BRANCH_SUMMARY_PROMPT @ [LF, LF] @ js ''Additional focus: '' @ the (bo_customInstructions opts)
      else BRANCH_SUMMARY_PROMPT)"

definition branch_token_budget :: "branch_summary_options \<Rightarrow> int" where
  "branch_token_budget opts =
     (if model_contextWindow (bo_model opts) \<noteq> 0 then model_contextWindow (bo_model opts) else 128000)
     - nullish (bo_reserveTokens opts) 16384"

text \<open>What becomes of the model's answer.\<close>

definition branch_outcome :: "file_operations \<Rightarrow> assistant_message \<Rightarrow> branch_summary_error + branch_summary_result" where
  "branch_outcome fileOps response =
     (if am_stopReason response = SR_aborted
      then Inl \<lparr>be_code = BE_aborted, be_message = or_str (am_errorMessage response) (js ''Branch summary aborted'')\<rparr>
      else if am_stopReason response = SR_error
      then Inl \<lparr>be_code = BE_summarization_failed,
                be_message = js ''Branch summary failed: '' @ or_str (am_errorMessage response) (js ''Unknown error'')\<rparr>
      else
        (let l = computeFileLists fileOps;
             summary = BRANCH_SUMMARY_PREAMBLE @ join_with [LF] (texts_of (am_content response))
               @ formatFileOperations (fl_readFiles l) (fl_modifiedFiles l)
         in Inr \<lparr>br_summary = (if summary = [] then js ''No summary generated'' else summary),
                 br_readFiles = fl_readFiles l, br_modifiedFiles = fl_modifiedFiles l\<rparr>))"

definition generateBranchSummary ::
  "'w completion \<Rightarrow> (jstr \<Rightarrow> jtime) \<Rightarrow> entry list \<Rightarrow> branch_summary_options \<Rightarrow> 'w \<Rightarrow>
   (jerror + (branch_summary_error + branch_summary_result)) \<times> 'w" where
  "generateBranchSummary ask get_time entries opts w =
     (let p = prepareBranchEntries get_time entries (branch_token_budget opts) in
      if bp_messages p = []
      then (Inr (Inr \<lparr>br_summary = js ''No content to summarize'', br_readFiles = [], br_modifiedFiles = []\<rparr>), w)
      else
        (let (r, w) = ask (bo_model opts) SUMMARIZATION_SYSTEM_PROMPT
               (conversation_text (bp_messages p) @ branch_instructions opts)
               \<lparr>co_maxTokens = 2048, co_apiKey = bo_apiKey opts, co_headers = bo_headers opts, co_reasoning = None\<rparr> w
         in (case r of Inl e \<Rightarrow> (Inl e, w) | Inr m \<Rightarrow> (Inr (branch_outcome (bp_fileOps p) m), w))))"

section \<open>The common part of two branches\<close>

text \<open>Two paths from the root share a first part and no entry after it.\<close>

lemma paths_fork:
  assumes "tree_ok es" and "is_path es p" and "is_path es q"
  shows "\<exists>c p' q'. p = c @ p' \<and> q = c @ q' \<and> set p' \<inter> set q = {} \<and> set q' \<inter> set p = {}"
proof -
  have same: "u = v" if "p = u @ e # u'" "q = v @ e # v'" for e u u' v v'
  proof -
    have "is_path es (u @ [e])" "is_path es (v @ [e])"
      using is_path_prefix [of es "u @ [e]" u'] is_path_prefix [of es "v @ [e]" v'] assms(2,3) that by simp_all
    from is_path_unique [OF assms(1) this] show "u = v" by simp
  qed
  let ?c = "takeWhile (\<lambda>e. e \<in> set q) p" and ?p = "dropWhile (\<lambda>e. e \<in> set q) p"
  have p: "p = ?c @ ?p" by simp
  obtain q' where q: "q = ?c @ q'"
  proof (cases ?c rule: rev_cases)
    case Nil
    then show ?thesis using that by simp
  next
    case (snoc c x)
    then have "x \<in> set q" by (metis in_set_conv_decomp set_takeWhileD)
    then obtain v v' where v: "q = v @ x # v'" by (auto simp: in_set_conv_decomp)
    have "p = c @ x # ?p" using p snoc by simp
    from same [OF this v] v snoc that show ?thesis by simp
  qed
  have "e \<notin> set q" if "e \<in> set ?p" for e
  proof
    assume "e \<in> set q"
    from that obtain u u' where u: "?p = u @ e # u'" by (auto simp: in_set_conv_decomp)
    from \<open>e \<in> set q\<close> obtain v v' where v: "q = v @ e # v'" by (auto simp: in_set_conv_decomp)
    have "p = (?c @ u) @ e # u'" using p u by simp
    from same [OF this v] have "set u \<subseteq> set q" unfolding v by (metis Un_iff set_append subsetI)
    moreover have "hd ?p \<notin> set q" using that hd_dropWhile [of "\<lambda>e. e \<in> set q" p] by fastforce
    ultimately show False using u \<open>e \<in> set q\<close> by (cases u) auto
  qed
  moreover have "set q' \<inter> set ?c = {}"
    using distinct_path [OF assms(1,3)] q by (metis distinct_append distinct_map inf_commute)
  then have "set q' \<inter> set p = {}" using calculation q p
    by (metis (no_types, lifting) UnE UnI2 disjoint_iff set_append)
  ultimately show ?thesis using p q by (metis disjoint_iff)
qed

lemma last_shared:
  assumes "distinct (map en_id es)" and "set (c @ p') \<subseteq> set es" and "set q' \<subseteq> set es" and "set q' \<inter> set (c @ p') = {}"
  shows "find (\<lambda>e. en_id e \<in> set (map en_id (c @ p'))) (rev (c @ q')) = last_opt c"
proof -
  have "en_id e \<notin> set (map en_id (c @ p'))" if "e \<in> set q'" for e
  proof
    assume "en_id e \<in> set (map en_id (c @ p'))"
    then obtain f where "f \<in> set (c @ p')" "en_id f = en_id e" by (metis imageE set_map)
    with that assms have "f = e" by (meson distinct_map inj_onD subsetD)
    with \<open>f \<in> set (c @ p')\<close> that assms(4) show False by blast
  qed
  then have "find (\<lambda>e. en_id e \<in> set (map en_id (c @ p'))) (rev q' @ xs) = find (\<lambda>e. en_id e \<in> set (map en_id (c @ p'))) xs" for xs
    by (induction q' arbitrary: xs rule: rev_induct) auto
  moreover have "find (\<lambda>e. en_id e \<in> set (map en_id (c @ p'))) (rev c) = last_opt c"
    by (cases c rule: rev_cases) auto
  ultimately show ?thesis by simp
qed

text \<open>The walk from the end of a path gives back the part after the ancestor.\<close>

lemma collect_back_path:
  assumes "tree_ok es" and "is_path es (c @ p')" and "length p' \<le> n"
    and "current = (if c @ p' = [] then None else Some (en_id (last (c @ p'))))"
  shows "collect_back n (index_by en_id es) (map_option en_id (last_opt c)) current acc = Some (Inr (p' @ acc))"
  using assms(2-4)
proof (induction p' arbitrary: n current acc rule: rev_induct)
  case Nil
  then show ?case by (cases c rule: rev_cases) (auto simp: collect_back.simps)
next
  case (snoc e p')
  then obtain k where k: "n = Suc k" by (cases n) auto
  from snoc.prems(1) have path: "is_path es (c @ p')" and e: "e \<in> set es"
    and parent: "en_parentId e = (if c @ p' = [] then None else Some (en_id (last (c @ p'))))"
    using is_path_snoc [of es "c @ p'" e] by auto
  have cur: "current = Some (en_id e)" "truthy_str current"
    using snoc.prems(3) assms(1) e by (auto simp: tree_ok_def image_iff)
  have "current \<noteq> map_option en_id (last_opt c)"
    using distinct_path [OF assms(1) snoc.prems(1)] cur(1)
    by (cases c rule: rev_cases) auto
  moreover have "index_by en_id es (en_id e) = Some e" by (rule index_by_tree [OF assms(1) e])
  ultimately show ?case
    using snoc.IH [OF path _ parent, of k "e # acc"] snoc.prems(2) cur k
    by (simp add: collect_back.simps [of "Suc k"])
qed

context session_storage
begin

text \<open>Leaving a branch collects what it has beside the branch of the target.\<close>

lemma collect_branch:
  assumes "good s" and "i \<in> entry_ids (entries s)" and "j \<in> entry_ids (entries s)"
  shows "\<exists>c p' q'. branch_of (entries s) (Some i) = c @ p' \<and> branch_of (entries s) (Some j) = c @ q'
    \<and> set p' \<inter> set (branch_of (entries s) (Some j)) = {}
    \<and> collectEntriesForBranchSummary ops s (Some i) j
        = Some (Inr \<lparr>ce_entries = p', ce_commonAncestorId = map_option en_id (last_opt c)\<rparr>)"
proof -
  note ok = tree [OF assms(1)]
  have p: "is_path (entries s) (branch_of (entries s) (Some i))"
    and q: "is_path (entries s) (branch_of (entries s) (Some j))"
    using branch_of_is_path [OF ok] assms(2,3) by simp_all
  from paths_fork [OF ok p q] obtain c p' q' where
    c: "branch_of (entries s) (Some i) = c @ p'" "branch_of (entries s) (Some j) = c @ q'"
      "set p' \<inter> set (c @ q') = {}" "set q' \<inter> set (c @ p') = {}" by metis
  have ids: "distinct (map en_id (entries s))" using ok by (simp add: tree_ok_def)
  have sub: "set (c @ p') \<subseteq> set (entries s)" "set q' \<subseteq> set (entries s)"
    using is_path_subset [OF p] is_path_subset [OF q] c by auto
  have nonempty: "i \<noteq> []" using assms(2) ok unfolding tree_ok_def by blast
  have last: "(if c @ p' = [] then None else Some (en_id (last (c @ p')))) = Some i"
    using branch_of_last [OF ok, of "Some i"] assms(2) unfolding c(1) [symmetric] by (auto split: if_splits)
  have "length p' \<le> length (entries s)"
    using sub(1) distinct_path [OF ok p] unfolding c(1)
    by (metis card_length card_mono distinct_append distinct_card distinct_map le_trans List.finite_set le_sup_iff set_append)
  from collect_back_path [OF ok _ this last [symmetric], of "[]"] p c(1)
  have "collect_back (length (entries s)) (op_getEntry ops s) (map_option en_id (last_opt c)) (Some i) [] = Some (Inr p')"
    by (simp add: getEntry [OF assms(1)])
  then have "collectEntriesForBranchSummary ops s (Some i) j
      = Some (Inr \<lparr>ce_entries = p', ce_commonAncestorId = map_option en_id (last_opt c)\<rparr>)"
    using getBranch_entry [OF assms(1,2)] getBranch_entry [OF assms(1,3)] nonempty last_shared [OF ids sub c(4)]
    unfolding collectEntriesForBranchSummary_def by (simp add: c(1,2))
  with c show ?thesis by metis
qed

end

section \<open>The budget\<close>

definition branch_messages :: "(jstr \<Rightarrow> jtime) \<Rightarrow> entry list \<Rightarrow> agent_message list" where
  "branch_messages get_time es = concat (map (\<lambda>e. case branch_message get_time e of None \<Rightarrow> [] | Some m \<Rightarrow> [m]) es)"

lemma branch_messages_simps [simp]:
  "branch_messages t [] = []"
  "branch_messages t (es @ fs) = branch_messages t es @ branch_messages t fs"
  "branch_messages t [e] = (case branch_message t e of None \<Rightarrow> [] | Some m \<Rightarrow> [m])"
  by (simp_all add: branch_messages_def)

definition summary_message :: "agent_message \<Rightarrow> bool" where
  "summary_message m = (case m of BranchSummary b \<Rightarrow> True | CompactionSummary c \<Rightarrow> True | _ \<Rightarrow> False)"

abbreviation tokens_of :: "agent_message list \<Rightarrow> int" where
  "tokens_of ms \<equiv> sum_list (map estimateTokens ms)"

lemma tokens_of_nonneg: "0 \<le> tokens_of ms"
  by (induction ms) (simp_all add: estimateTokens_nonneg add_nonneg_nonneg)

lemma is_summary_message: "is_summary e \<Longrightarrow> branch_message t e = Some m \<Longrightarrow> summary_message m"
  by (auto simp: is_summary_def branch_message_def summary_message_def split: entry_kind.splits)

text \<open>What the loop adds: the newest messages, as many as fit, and perhaps one summary beyond the budget.\<close>

definition fits_budget :: "int \<Rightarrow> int \<Rightarrow> agent_message list \<Rightarrow> agent_message list \<Rightarrow> bool" where
  "fits_budget budget used older new \<longleftrightarrow>
     (budget \<le> 0 \<longrightarrow> older = [])
   \<and> (0 < budget \<and> used \<le> budget \<longrightarrow>
        used + tokens_of new \<le> budget
        \<or> (\<exists>m rest. new = m # rest \<and> summary_message m \<and> 10 * (used + tokens_of rest) < 9 * budget))
   \<and> (0 < budget \<and> older \<noteq> [] \<longrightarrow> used + tokens_of new + estimateTokens (last older) > budget)"

lemma select_messages_spec:
  "\<exists>older new. branch_messages t (rev es) = older @ new
     \<and> bp_messages (select_messages t budget es p) = new @ bp_messages p
     \<and> bp_totalTokens (select_messages t budget es p) = bp_totalTokens p + tokens_of new
     \<and> fits_budget budget (bp_totalTokens p) older new"
proof (induction es arbitrary: p)
  case Nil
  then show ?case by (intro exI [of _ "[]"]) (simp add: fits_budget_def)
next
  case (Cons e es)
  show ?case
  proof (cases "branch_message t e")
    case None
    with Cons.IH [of p] show ?thesis by simp
  next
    case (Some m)
    let ?p = "p\<lparr>bp_fileOps := extractFileOpsFromMessage (bp_fileOps p) m\<rparr>"
    let ?p' = "?p\<lparr>bp_messages := m # bp_messages p, bp_totalTokens := bp_totalTokens p + estimateTokens m\<rparr>"
    note m = Some estimateTokens_nonneg [of m]
    show ?thesis
    proof (cases "budget > 0 \<and> bp_totalTokens p + estimateTokens m > budget")
      case over: True
      show ?thesis
      proof (cases "is_summary e \<and> 10 * bp_totalTokens p < 9 * budget")
        case True
        have "fits_budget budget (bp_totalTokens p) (branch_messages t (rev es)) [m]"
          using over True is_summary_message [OF _ Some] estimateTokens_nonneg [of "last (branch_messages t (rev es))"]
          by (auto simp: fits_budget_def)
        then show ?thesis using over True m
          apply -
          apply (rule exI [of _ "branch_messages t (rev es)"], rule exI [of _ "[m]"])
          by (simp add: Let_def)
      next
        case False
        show ?thesis using False over m
          apply -
          apply (rule exI [of _ "branch_messages t (rev es) @ [m]"], rule exI [of _ "[]"])
          by (auto simp: Let_def fits_budget_def)
      qed
    next
      case False
      from Cons.IH [of ?p'] obtain older new where
        new: "branch_messages t (rev es) = older @ new"
          "bp_messages (select_messages t budget es ?p') = new @ m # bp_messages p"
          "bp_totalTokens (select_messages t budget es ?p') = bp_totalTokens p + estimateTokens m + tokens_of new"
          "fits_budget budget (bp_totalTokens p + estimateTokens m) older new" by auto
      have "fits_budget budget (bp_totalTokens p) older (new @ [m])"
        using new(4) False tokens_of_nonneg [of new] m(2) by (cases new) (auto simp: fits_budget_def)
      then show ?thesis using new False m
        apply -
        apply (rule exI [of _ older], rule exI [of _ "new @ [m]"])
        by (auto simp: Let_def)
    qed
  qed
qed

lemma select_messages_files:
  "\<exists>ms. set ms \<subseteq> set (branch_messages t es) \<and> set (bp_messages (select_messages t budget es p)) \<subseteq> set ms \<union> set (bp_messages p)
     \<and> bp_fileOps (select_messages t budget es p) = foldl extractFileOpsFromMessage (bp_fileOps p) ms"
proof (induction es arbitrary: p)
  case Nil
  then show ?case by (intro exI [of _ "[]"]) simp
next
  case (Cons e es)
  have es: "branch_messages t (e # es) = branch_messages t [e] @ branch_messages t es"
    using branch_messages_simps(2) [of t "[e]" es] by simp
  show ?case
  proof (cases "branch_message t e")
    case None
    with Cons.IH [of p] show ?thesis unfolding es by simp
  next
    case (Some m)
    let ?p' = "p\<lparr>bp_fileOps := extractFileOpsFromMessage (bp_fileOps p) m, bp_messages := m # bp_messages p,
      bp_totalTokens := bp_totalTokens p + estimateTokens m\<rparr>"
    from Cons.IH [of ?p'] obtain ms where
      "set ms \<subseteq> set (branch_messages t es)" "set (bp_messages (select_messages t budget es ?p')) \<subseteq> set ms \<union> set (m # bp_messages p)"
      "bp_fileOps (select_messages t budget es ?p') = foldl extractFileOpsFromMessage (extractFileOpsFromMessage (bp_fileOps p) m) ms"
      by auto
    note files = this
    show ?thesis
    proof (cases "budget > 0 \<and> bp_totalTokens p + estimateTokens m > budget")
      case True
      with Some show ?thesis unfolding es by (intro exI [of _ "[m]"]) (auto simp: Let_def)
    next
      case False
      with Some files show ?thesis unfolding es by (intro exI [of _ "m # ms"]) (auto simp: Let_def)
    qed
  qed
qed

lemma summary_files:
  "set (fo_read (foldl add_summary_files ops es)) \<supseteq> set (fo_read ops)"
  "set (fo_edited (foldl add_summary_files ops es)) \<supseteq> set (fo_edited ops)"
  by (induction es arbitrary: ops)
    (force simp: add_summary_files_def foldl_set_add split: entry_kind.splits option.splits)+

definition recorded_files :: "string \<Rightarrow> entry \<Rightarrow> jstr set" where
  "recorded_files field e =
     (case en_kind e of
        BranchSummaryEntry f s (Some details) fromHook \<Rightarrow>
          if fromHook = Some True then {} else set (json_strings (json_get details (js field)))
      | _ \<Rightarrow> {})"

lemma summary_files_recorded:
  "set (fo_read (foldl add_summary_files ops es)) = set (fo_read ops) \<union> (\<Union>e\<in>set es. recorded_files ''readFiles'' e)"
  "set (fo_edited (foldl add_summary_files ops es)) = set (fo_edited ops) \<union> (\<Union>e\<in>set es. recorded_files ''modifiedFiles'' e)"
  "fo_written (foldl add_summary_files ops es) = fo_written ops"
  by (induction es arbitrary: ops)
    (auto simp: add_summary_files_def recorded_files_def foldl_set_add split: entry_kind.splits option.splits)

section \<open>Properties\<close>

text \<open>
  C30: In a well-formed session in memory, leaving the branch of one entry for another collects exactly the entries of
  the old branch that are not on the new one, in their order, and the common ancestor is the last entry that both
  branches share; before it the branches are the same. The walk back always ends and no entry is missing.
\<close>

theorem left_branch_collected:
  assumes "mem_good s" and "i \<in> entry_ids (ms_entries s)" and "j \<in> entry_ids (ms_entries s)"
  shows "\<exists>c left rest. branch_of (ms_entries s) (Some i) = c @ left \<and> branch_of (ms_entries s) (Some j) = c @ rest
    \<and> set left \<inter> set (branch_of (ms_entries s) (Some j)) = {}
    \<and> collectEntriesForBranchSummary mem_ops s (Some i) j
        = Some (Inr \<lparr>ce_entries = left, ce_commonAncestorId = map_option en_id (last_opt c)\<rparr>)"
  using mem.collect_branch [of s i j] assms by simp

text \<open>
  C31: The messages chosen for a branch summary are the newest ones of the branch, without its tool results, and as
  many as the budget allows: with a budget their tokens are within it, or the oldest chosen one is a summary of
  earlier history that was added while the others filled less than nine tenths; and the next older message would
  exceed the budget. Without a budget all are chosen. The files touched by calls in the chosen messages and those
  recorded in any earlier summary of the branch are all noted.
\<close>

theorem branch_messages_fit_budget:
  "let p = prepareBranchEntries t entries budget in
   \<exists>older. branch_messages t entries = older @ bp_messages p
    \<and> bp_totalTokens p = tokens_of (bp_messages p) \<and> fits_budget budget 0 older (bp_messages p)
    \<and> touched ''read'' (bp_messages p) \<union> (\<Union>e\<in>set entries. recorded_files ''readFiles'' e) \<subseteq> set (fo_read (bp_fileOps p))
    \<and> touched ''edit'' (bp_messages p) \<union> (\<Union>e\<in>set entries. recorded_files ''modifiedFiles'' e) \<subseteq> set (fo_edited (bp_fileOps p))
    \<and> touched ''write'' (bp_messages p) \<subseteq> set (fo_written (bp_fileOps p))"
proof -
  let ?p = "prepareBranchEntries t entries budget"
  let ?start = "\<lparr>bp_messages = [], bp_fileOps = foldl add_summary_files createFileOps entries, bp_totalTokens = 0\<rparr>"
  have p: "?p = select_messages t budget (rev entries) ?start" by (simp add: prepareBranchEntries_def)
  from select_messages_spec [of t "rev entries" budget ?start] obtain older new where
    o: "branch_messages t (rev (rev entries)) = older @ new" "bp_messages ?p = new @ bp_messages ?start"
      "bp_totalTokens ?p = bp_totalTokens ?start + tokens_of new" "fits_budget budget (bp_totalTokens ?start) older new"
    unfolding p by blast
  then have new: "branch_messages t entries = older @ bp_messages ?p"
    "bp_totalTokens ?p = tokens_of (bp_messages ?p)" "fits_budget budget 0 older (bp_messages ?p)"
    by simp_all
  obtain ms where ms: "set (bp_messages ?p) \<subseteq> set ms"
    "bp_fileOps ?p = foldl extractFileOpsFromMessage (foldl add_summary_files createFileOps entries) ms"
    using select_messages_files [of t "rev entries" budget ?start] by (auto simp: prepareBranchEntries_def)
  have mono: "touched name (bp_messages ?p) \<subseteq> touched name ms" for name using ms(1) by (auto simp: touched_def)
  show ?thesis unfolding Let_def ms(2) extract_files summary_files_recorded using new mono by blast
qed

lemma left_branch_collected_witness:
  "\<exists>c left rest. branch_of (ms_entries sample_storage) (Some (js ''b'')) = c @ left
    \<and> branch_of (ms_entries sample_storage) (Some (js ''a'')) = c @ rest
    \<and> set left \<inter> set (branch_of (ms_entries sample_storage) (Some (js ''a''))) = {}
    \<and> collectEntriesForBranchSummary mem_ops sample_storage (Some (js ''b'')) (js ''a'')
        = Some (Inr \<lparr>ce_entries = left, ce_commonAncestorId = map_option en_id (last_opt c)\<rparr>)"
  by (rule left_branch_collected [OF sample_storage_good])
    (simp_all add: sample_storage_def sample_entries_def sample_entry_def)

text \<open>
  Files are noted only as far as the loop reads: a file written before the budget was reached is missing from
  the lists of the summary, although the coding agent's copy says that the files of all entries are collected.
\<close>

definition writing_entry :: entry where
  "writing_entry = sample_entry ''w'' None (MessageEntry (Llm (AssistantM (sample_assistant
     [AToolCall (sample_call ''1'' ''write''\<lparr>call_arguments := JObj [(js ''path'', JStr (js ''f''))]\<rparr>)] SR_toolUse))))"

lemma branch_files_beyond_budget_lost:
  "fo_written (bp_fileOps (prepareBranchEntries t [writing_entry, demo_user ''b'' (Some ''w''), demo_user ''c'' (Some ''b'')] 3)) = []
   \<and> fo_written (bp_fileOps (prepareBranchEntries t [writing_entry, demo_user ''b'' (Some ''w''), demo_user ''c'' (Some ''b'')] 0)) = [js ''f'']"
proof -
  have user: "branch_message t (demo_user i q) = Some (Llm (sample_user ''hello''))" for i q
    by (simp add: branch_message_def sample_user_def)
  have wr: "branch_message t writing_entry = Some (Llm (AssistantM (sample_assistant
     [AToolCall (sample_call ''1'' ''write''\<lparr>call_arguments := JObj [(js ''path'', JStr (js ''f''))]\<rparr>)] SR_toolUse)))"
    by (simp add: branch_message_def writing_entry_def sample_entry_def)
  have none: "extractFileOpsFromMessage ops (Llm (sample_user ''hello'')) = ops" for ops
    by (simp add: extractFileOpsFromMessage_def sample_user_def)
  have kind: "\<not> is_summary (demo_user i q)" "add_summary_files ops (demo_user i q) = ops" "add_summary_files ops writing_entry = ops" for i q ops
    by (simp_all add: is_summary_def add_summary_files_def writing_entry_def sample_entry_def)
  show ?thesis
    by (simp add: prepareBranchEntries_def user wr none kind Let_def)
      (simp add: extractFileOpsFromMessage_def sample_assistant_def sample_call_def add_call_def call_path_def createFileOps_def
        set_add_def)
qed

end
