(* ===== verification/Prompt_Templates.thy ===== *)
theory Prompt_Templates
  imports Js_Strings
begin

text \<open>
  Invoking prompt templates and skills: \<^verbatim>\<open>parseCommandArgs\<close>, \<^verbatim>\<open>substituteArgs\<close> and
  \<^verbatim>\<open>formatPromptTemplateInvocation\<close> of \<^verbatim>\<open>packages/agent/src/harness/prompt-templates.ts\<close> (the coding agent has
  the same functions in \<^verbatim>\<open>core/prompt-templates.ts\<close>, with \<^verbatim>\<open>expandPromptTemplate\<close>), and \<^verbatim>\<open>formatSkillInvocation\<close> of
  \<^verbatim>\<open>skills.ts\<close>. The four regular expressions are matchers at one position; a global replacement tries them from left to right.
\<close>

section \<open>Command arguments\<close>

record arg_state =
  ar_args :: "jstr list"
  ar_current :: jstr
  ar_inQuote :: "code_unit option"

definition end_arg :: "arg_state \<Rightarrow> arg_state" where
  "end_arg s = (if ar_current s \<noteq> [] then s\<lparr>ar_args := ar_args s @ [ar_current s], ar_current := []\<rparr> else s)"

definition arg_step :: "arg_state \<Rightarrow> code_unit \<Rightarrow> arg_state" where
  "arg_step s c =
     (case ar_inQuote s of
        Some q \<Rightarrow> if c = q then s\<lparr>ar_inQuote := None\<rparr> else s\<lparr>ar_current := ar_current s @ [c]\<rparr>
      | None \<Rightarrow>
          (if c = 0x22 \<or> c = 0x27 then s\<lparr>ar_inQuote := Some c\<rparr>
           else if c = 0x20 \<or> c = 9 then end_arg s
           else s\<lparr>ar_current := ar_current s @ [c]\<rparr>))"

definition parseCommandArgs :: "jstr \<Rightarrow> jstr list" where
  "parseCommandArgs argsString =
     ar_args (end_arg (foldl arg_step \<lparr>ar_args = [], ar_current = [], ar_inQuote = None\<rparr> argsString))"

section \<open>Global replacement\<close>

text \<open>
  \<open>replace_from m f before k s\<close>: the rest \<open>s\<close> of a string of which \<open>before\<close> is done, the next \<open>k\<close> units being
  part of a match. A matcher gives the length of the match at the start of a string with what it captured; the
  replacement sees the text before and after.
\<close>

fun replace_from ::
  "(jstr \<Rightarrow> (nat \<times> 'm) option) \<Rightarrow> (jstr \<Rightarrow> 'm \<Rightarrow> jstr \<Rightarrow> jstr) \<Rightarrow> jstr \<Rightarrow> nat \<Rightarrow> jstr \<Rightarrow> jstr" where
  "replace_from m f before k [] = []"
| "replace_from m f before (Suc k) (c # cs) = replace_from m f (before @ [c]) k cs"
| "replace_from m f before 0 (c # cs) =
     (case m (c # cs) of
        None \<Rightarrow> c # replace_from m f (before @ [c]) 0 cs
      | Some (n, x) \<Rightarrow> f before x (drop n (c # cs)) @ replace_from m f (before @ [c]) (n - 1) cs)"

definition replace_global ::
  "(jstr \<Rightarrow> (nat \<times> 'm) option) \<Rightarrow> (jstr \<Rightarrow> 'm \<Rightarrow> jstr \<Rightarrow> jstr) \<Rightarrow> jstr \<Rightarrow> jstr" where
  "replace_global m f s = replace_from m f [] 0 s"

text \<open>
  A replacement given as a string: \<^verbatim>\<open>$$\<close> stands for a dollar sign, \<^verbatim>\<open>$&\<close> for the match, \<^verbatim>\<open>$`\<close> and
  \<^verbatim>\<open>$'\<close> for the text before and after it. The expressions it is used with capture nothing, so that \<^verbatim>\<open>$1\<close> stays.
\<close>

abbreviation DOLLAR :: code_unit where
  "DOLLAR \<equiv> 0x24"

fun expand_replacement :: "jstr \<Rightarrow> jstr \<Rightarrow> jstr \<Rightarrow> jstr \<Rightarrow> jstr" where
  "expand_replacement before matched after (c # d # cs) =
     (if c = DOLLAR \<and> d = DOLLAR then DOLLAR # expand_replacement before matched after cs
      else if c = DOLLAR \<and> d = 0x26 then matched @ expand_replacement before matched after cs
      else if c = DOLLAR \<and> d = 0x60 then before @ expand_replacement before matched after cs
      else if c = DOLLAR \<and> d = 0x27 then after @ expand_replacement before matched after cs
      else c # expand_replacement before matched after (d # cs))"
| "expand_replacement before matched after cs = cs"

section \<open>Placeholders\<close>

text \<open>\<^verbatim>\<open>/\$(\d+)/\<close>\<close>

definition match_positional :: "jstr \<Rightarrow> (nat \<times> nat) option" where
  "match_positional s =
     (case s of
        c # cs \<Rightarrow>
          (let ds = leading_digits cs in
           if c = DOLLAR \<and> ds \<noteq> [] then Some (Suc (length ds), digits_value ds) else None)
      | [] \<Rightarrow> None)"

text \<open>\<^verbatim>\<open>/\$\{@:(\d+)(?::(\d+))?\}/\<close>\<close>

definition match_slice :: "jstr \<Rightarrow> (nat \<times> nat \<times> nat option) option" where
  "match_slice s =
     (if take 4 s \<noteq> js ''${@:'' then None
      else
        (let body = drop 4 s; ds = leading_digits body in
         if ds = [] then None
         else
           (case drop (length ds) body of
              [] \<Rightarrow> None
            | c # rest \<Rightarrow>
                (let ls = leading_digits rest in
                 if c = 0x3A \<and> ls \<noteq> [] \<and> take 1 (drop (length ls) rest) = js ''}''
                 then Some (6 + length ds + length ls, digits_value ds, Some (digits_value ls))
                 else if c = 0x7D then Some (5 + length ds, digits_value ds, None)
                 else None))))"

definition match_literal :: "jstr \<Rightarrow> jstr \<Rightarrow> (nat \<times> unit) option" where
  "match_literal p s = (if take (length p) s = p then Some (length p, ()) else None)"

definition positional_value :: "jstr list \<Rightarrow> nat \<Rightarrow> jstr" where
  "positional_value args n = (if 0 < n \<and> n \<le> length args then args ! (n - 1) else [])"

definition slice_value :: "jstr list \<Rightarrow> nat \<Rightarrow> nat option \<Rightarrow> jstr" where
  "slice_value args start len =
     (let rest = drop (start - 1) args in
      join_with (js '' '') (case len of Some l \<Rightarrow> take l rest | None \<Rightarrow> rest))"

definition all_args :: "jstr list \<Rightarrow> jstr" where
  "all_args args = join_with (js '' '') args"

definition substituteArgs :: "jstr \<Rightarrow> jstr list \<Rightarrow> jstr" where
  "substituteArgs content args =
     (let result = replace_global match_positional (\<lambda>before n after. positional_value args n) content;
          result = replace_global match_slice (\<lambda>before (start, len) after. slice_value args start len) result;
          allArgs = all_args args;
          result = replace_global (match_literal (js ''$ARGUMENTS''))
            (\<lambda>before u after. expand_replacement before (js ''$ARGUMENTS'') after allArgs) result
      in replace_global (match_literal (js ''$@''))
           (\<lambda>before u after. expand_replacement before (js ''$@'') after allArgs) result)"

section \<open>Templates and skills\<close>

record prompt_template =
  pt_name :: jstr
  pt_description :: "jstr option"
  pt_content :: jstr

definition formatPromptTemplateInvocation :: "prompt_template \<Rightarrow> jstr list \<Rightarrow> jstr" where
  "formatPromptTemplateInvocation t args = substituteArgs (pt_content t) args"

text \<open>The coding agent's \<^verbatim>\<open>/name args\<close>.\<close>

definition expandPromptTemplate :: "jstr \<Rightarrow> prompt_template list \<Rightarrow> jstr" where
  "expandPromptTemplate s templates =
     (if take 1 s \<noteq> js ''/'' then s
      else
        (let name = takeWhile (\<lambda>c. c \<noteq> 0x20) (drop 1 s); argsString = drop (2 + length name) s in
         case find (\<lambda>t. pt_name t = name) templates of
           Some t \<Rightarrow> substituteArgs (pt_content t) (parseCommandArgs argsString)
         | None \<Rightarrow> s))"

record skill =
  sk_name :: jstr
  sk_description :: jstr
  sk_content :: jstr
  sk_filePath :: jstr
  sk_disableModelInvocation :: "bool option"

definition dirnameEnvPath :: "jstr \<Rightarrow> jstr" where
  "dirnameEnvPath path =
     (let normalized = rev (dropWhile (\<lambda>c. c = 0x2F) (rev path));
          parent = dropWhile (\<lambda>c. c \<noteq> 0x2F) (rev normalized)
      in if length parent \<le> 1 then js ''/'' else rev (drop 1 parent))"

definition formatSkillInvocation :: "skill \<Rightarrow> jstr option \<Rightarrow> jstr" where \<open>
  formatSkillInvocation s additionalInstructions =
     (let skillBlock = js ''<skill name="'' @ sk_name s @ js ''" location="'' @ sk_filePath s @ js ''">'' @ [LF]
            @ js ''References are relative to '' @ dirnameEnvPath (sk_filePath s) @ js ''.'' @ [LF, LF]
            @ sk_content s @ [LF] @ js ''</skill>''
      in if truthy_str additionalInstructions then skillBlock @ [LF, LF] @ the additionalInstructions else skillBlock)\<close>

section \<open>Quoted arguments\<close>

definition quote_arg :: "jstr \<Rightarrow> jstr" where
  "quote_arg a = 0x22 # a @ [0x22]"

lemma arg_step_quoted:
  "0x22 \<notin> set a \<Longrightarrow> foldl arg_step \<lparr>ar_args = xs, ar_current = cur, ar_inQuote = Some 0x22\<rparr> a =
    \<lparr>ar_args = xs, ar_current = cur @ a, ar_inQuote = Some 0x22\<rparr>"
  by (induction a arbitrary: cur) (auto simp: arg_step_def)

lemma arg_step_quote_arg:
  "0x22 \<notin> set a \<Longrightarrow> foldl arg_step \<lparr>ar_args = xs, ar_current = [], ar_inQuote = None\<rparr> (quote_arg a) =
    \<lparr>ar_args = xs, ar_current = a, ar_inQuote = None\<rparr>"
  by (simp add: quote_arg_def arg_step_def [of _ "0x22"] arg_step_quoted)

lemma arg_step_space:
  "arg_step \<lparr>ar_args = xs, ar_current = a, ar_inQuote = None\<rparr> 0x20 =
    \<lparr>ar_args = (if a = [] then xs else xs @ [a]), ar_current = [], ar_inQuote = None\<rparr>"
  by (simp add: arg_step_def end_arg_def)

lemma parse_quoted:
  assumes "\<forall>a\<in>set args. a \<noteq> [] \<and> 0x22 \<notin> set a"
  shows "ar_args (end_arg (foldl arg_step \<lparr>ar_args = xs, ar_current = [], ar_inQuote = None\<rparr>
    (join_with [0x20] (map quote_arg args)))) = xs @ args"
  using assms
proof (induction args arbitrary: xs)
  case Nil
  then show ?case by (simp add: end_arg_def)
next
  case (Cons a args)
  then have a: "a \<noteq> []" "0x22 \<notin> set a" by auto
  show ?case
  proof (cases "args = []")
    case True
    with a show ?thesis by (simp add: arg_step_quote_arg end_arg_def)
  next
    case False
    with Cons.IH [of "xs @ [a]"] Cons.prems a show ?thesis
      by (simp add: join_with_Cons arg_step_quote_arg arg_step_space)
  qed
qed

section \<open>Replacing token by token\<close>

text \<open>
  The pieces of a template: text without a dollar sign, a dollar sign with a unit after it that begins no placeholder, and the
  four placeholders. The text of a template is read back as these pieces when a number is not followed by a digit.
\<close>

datatype piece = Literal jstr | Dollar code_unit | Positional jstr | Slice jstr "jstr option" | Arguments | At

fun piece_text :: "piece \<Rightarrow> jstr" where
  "piece_text (Literal s) = s"
| "piece_text (Dollar c) = [DOLLAR, c]"
| "piece_text (Positional ds) = DOLLAR # ds"
| "piece_text (Slice ds None) = js ''${@:'' @ ds @ js ''}''"
| "piece_text (Slice ds (Some ls)) = js ''${@:'' @ ds @ js '':'' @ ls @ js ''}''"
| "piece_text Arguments = js ''$ARGUMENTS''"
| "piece_text At = js ''$@''"

fun piece_value :: "jstr list \<Rightarrow> piece \<Rightarrow> jstr" where
  "piece_value args (Literal s) = s"
| "piece_value args (Dollar c) = [DOLLAR, c]"
| "piece_value args (Positional ds) = positional_value args (digits_value ds)"
| "piece_value args (Slice ds ls) = slice_value args (digits_value ds) (map_option digits_value ls)"
| "piece_value args _ = all_args args"

definition digits_ok :: "jstr \<Rightarrow> bool" where
  "digits_ok ds \<longleftrightarrow> ds \<noteq> [] \<and> list_all is_digit_unit ds"

fun piece_ok :: "piece \<Rightarrow> bool" where
  "piece_ok (Literal s) = (DOLLAR \<notin> set s)"
| "piece_ok (Dollar c) = (\<not> is_digit_unit c \<and> c \<notin> {0x7B, 0x41, 0x40, DOLLAR})"
| "piece_ok (Positional ds) = digits_ok ds"
| "piece_ok (Slice ds ls) = (digits_ok ds \<and> (case ls of None \<Rightarrow> True | Some l \<Rightarrow> digits_ok l))"
| "piece_ok _ = True"

definition template_text :: "piece list \<Rightarrow> jstr" where
  "template_text ps = concat (map piece_text ps)"

fun starts_digit :: "jstr \<Rightarrow> bool" where
  "starts_digit [] = False"
| "starts_digit (c # cs) = is_digit_unit c"

fun template_ok :: "piece list \<Rightarrow> bool" where
  "template_ok [] = True"
| "template_ok (p # ps) =
     (piece_ok p \<and> (case p of Positional ds \<Rightarrow> \<not> starts_digit (template_text ps) | _ \<Rightarrow> True) \<and> template_ok ps)"

lemma template_text_simps [simp]:
  "template_text [] = []" "template_text (p # ps) = piece_text p @ template_text ps"
  by (simp_all add: template_text_def)

text \<open>A matcher that wants a dollar sign first passes over other text.\<close>

definition dollar_matcher :: "(jstr \<Rightarrow> (nat \<times> 'm) option) \<Rightarrow> bool" where
  "dollar_matcher m \<longleftrightarrow> (\<forall>c cs. c \<noteq> DOLLAR \<longrightarrow> m (c # cs) = None)"

lemma replace_plain:
  assumes "dollar_matcher m" and "DOLLAR \<notin> set s"
  shows "replace_from m f before 0 (s @ t) = s @ replace_from m f (before @ s) 0 t"
  using assms(2)
proof (induction s arbitrary: before)
  case (Cons c s)
  with assms(1) show ?case by (auto simp: dollar_matcher_def)
qed simp

lemma replace_skip: "replace_from m f before (length s) (s @ t) = replace_from m f (before @ s) 0 t"
  by (induction s arbitrary: before) auto

text \<open>A placeholder that the matcher takes, and one that it does not.\<close>

lemma replace_hit:
  assumes "m (c # s @ t) = Some (Suc (length s), x)"
  shows "replace_from m f before 0 (c # s @ t) = f before x t @ replace_from m f (before @ c # s) 0 t"
  using assms replace_skip [of m f "before @ [c]" s t] by simp

lemma replace_miss:
  assumes "dollar_matcher m" and "m (DOLLAR # s @ t) = None" and "DOLLAR \<notin> set s"
  shows "replace_from m f before 0 (DOLLAR # s @ t) = DOLLAR # s @ replace_from m f (before @ DOLLAR # s) 0 t"
  using assms replace_plain [OF assms(1,3), of f "before @ [DOLLAR]" t] by simp

lemma replace_template:
  assumes "template_ok ps"
    and "\<And>p ps' before. template_ok (p # ps') \<Longrightarrow> replace_from m f before 0 (piece_text p @ template_text ps') =
      piece_text (g p) @ replace_from m f (before @ piece_text p) 0 (template_text ps')"
  shows "replace_from m f before 0 (template_text ps) = template_text (map g ps)"
  using assms(1)
proof (induction ps arbitrary: before)
  case (Cons p ps)
  then show ?case using assms(2) [OF Cons.prems] by simp
qed simp

definition no_positional :: "piece list \<Rightarrow> bool" where
  "no_positional ps \<longleftrightarrow> (\<forall>p\<in>set ps. piece_ok p \<and> (\<forall>ds. p \<noteq> Positional ds))"

lemma no_positional_ok: "no_positional ps \<Longrightarrow> template_ok ps"
  by (induction ps) (auto simp: no_positional_def split: piece.splits)

lemma placeholder_units:
  "js ''${@:'' = [DOLLAR, 0x7B, 0x40, 0x3A]" "js ''}'' = [0x7D]" "js '':'' = [0x3A]" "js ''$@'' = [DOLLAR, 0x40]"
  "js ''$ARGUMENTS'' = [DOLLAR, 0x41, 0x52, 0x47, 0x55, 0x4D, 0x45, 0x4E, 0x54, 0x53]"
  by (simp_all add: js_def js_char_def)

lemma leading_digits_append:
  "list_all is_digit_unit ds \<Longrightarrow> \<not> starts_digit t \<Longrightarrow> leading_digits (ds @ t) = ds"
  by (cases t) (auto simp: leading_digits_def list_all_iff takeWhile_append2)

lemma not_digits [simp]:
  "\<not> is_digit_unit DOLLAR" "\<not> is_digit_unit 0x7B" "\<not> is_digit_unit 0x40" "\<not> is_digit_unit 0x3A" "\<not> is_digit_unit 0x7D"
  "\<not> is_digit_unit 0x41"
  by (simp_all add: is_digit_unit_def word_le_nat_alt)

lemma digits_no_dollar: "digits_ok ds \<Longrightarrow> DOLLAR \<notin> set ds"
  by (auto simp: digits_ok_def list_all_iff dest: bspec [of _ _ DOLLAR])

lemma dollar_matchers: "dollar_matcher match_positional" "dollar_matcher match_slice"
  "dollar_matcher (match_literal (js ''$ARGUMENTS''))" "dollar_matcher (match_literal (js ''$@''))"
  by (auto simp: dollar_matcher_def match_positional_def match_slice_def match_literal_def placeholder_units Let_def)

text \<open>What each matcher does at the start of a placeholder.\<close>

lemma match_positional_simps:
  "digits_ok ds \<Longrightarrow> \<not> starts_digit t \<Longrightarrow> match_positional (DOLLAR # ds @ t) = Some (Suc (length ds), digits_value ds)"
  "\<not> is_digit_unit c \<Longrightarrow> match_positional (DOLLAR # c # t) = None"
  by (auto simp: match_positional_def leading_digits_append digits_ok_def) (simp_all add: leading_digits_def)

lemma match_slice_simps:
  "digits_ok ds \<Longrightarrow> match_slice (DOLLAR # 0x7B # 0x40 # 0x3A # ds @ 0x7D # t) = Some (5 + length ds, digits_value ds, None)"
  "digits_ok ds \<Longrightarrow> digits_ok ls \<Longrightarrow> match_slice (DOLLAR # 0x7B # 0x40 # 0x3A # ds @ 0x3A # ls @ 0x7D # t) =
     Some (6 + length ds + length ls, digits_value ds, Some (digits_value ls))"
  "c \<noteq> 0x7B \<Longrightarrow> match_slice (DOLLAR # c # t) = None"
  by (auto simp: match_slice_def placeholder_units digits_ok_def leading_digits_append Let_def)

lemma match_literal_simps:
  "match_literal p (p @ t) = Some (length p, ())"
  "c \<noteq> 0x41 \<Longrightarrow> match_literal (js ''$ARGUMENTS'') (DOLLAR # c # t) = None"
  "c \<noteq> 0x40 \<Longrightarrow> match_literal (js ''$@'') (DOLLAR # c # t) = None"
  by (auto simp: match_literal_def placeholder_units)

lemma expand_plain: "DOLLAR \<notin> set s \<Longrightarrow> expand_replacement b x a s = s"
  by (induction b x a s rule: expand_replacement.induct) auto

section \<open>The four passes\<close>

fun fill_positional :: "jstr list \<Rightarrow> piece \<Rightarrow> piece" where
  "fill_positional args (Positional ds) = Literal (positional_value args (digits_value ds))"
| "fill_positional args p = p"

fun fill_slice :: "jstr list \<Rightarrow> piece \<Rightarrow> piece" where
  "fill_slice args (Slice ds ls) = Literal (slice_value args (digits_value ds) (map_option digits_value ls))"
| "fill_slice args p = p"

fun fill_arguments :: "jstr list \<Rightarrow> piece \<Rightarrow> piece" where
  "fill_arguments args Arguments = Literal (all_args args)"
| "fill_arguments args p = p"

fun fill_at :: "jstr list \<Rightarrow> piece \<Rightarrow> piece" where
  "fill_at args At = Literal (all_args args)"
| "fill_at args p = p"

lemma join_no_dollar: "\<forall>a\<in>set args. DOLLAR \<notin> set a \<Longrightarrow> DOLLAR \<notin> set (join_with (js '' '') args)"
  by (induction args) (auto simp: join_with_Cons js_def js_char_def)

lemma values_no_dollar:
  assumes "\<forall>a\<in>set args. DOLLAR \<notin> set a"
  shows "DOLLAR \<notin> set (positional_value args n)" "DOLLAR \<notin> set (slice_value args n l)" "DOLLAR \<notin> set (all_args args)"
proof -
  show "DOLLAR \<notin> set (positional_value args n)" using assms
    by (cases n) (auto simp: positional_value_def)
  show "DOLLAR \<notin> set (all_args args)" using join_no_dollar [OF assms] by (simp add: all_args_def)
  have "\<forall>a\<in>set (take x (drop y args)). DOLLAR \<notin> set a" "\<forall>a\<in>set (drop y args). DOLLAR \<notin> set a" for x y
    using assms by (auto dest: in_set_takeD in_set_dropD)
  then show "DOLLAR \<notin> set (slice_value args n l)"
    unfolding slice_value_def Let_def by (cases l) (simp_all add: join_no_dollar)
qed

lemma replace_literal:
  "dollar_matcher m \<Longrightarrow> DOLLAR \<notin> set s \<Longrightarrow>
   replace_from m f before 0 (piece_text (Literal s) @ t) = piece_text (Literal s) @ replace_from m f (before @ piece_text (Literal s)) 0 t"
  by (simp add: replace_plain)

text \<open>A placeholder starts with a dollar sign and has no other; its second unit tells the kinds apart.\<close>

lemma placeholder_text:
  assumes "piece_ok p" and "\<And>s. p \<noteq> Literal s"
  obtains c s where "piece_text p = DOLLAR # c # s" and "DOLLAR \<notin> set (c # s)"
    and "is_digit_unit c \<longleftrightarrow> (\<exists>ds. p = Positional ds)" and "c = 0x7B \<longleftrightarrow> (\<exists>ds ls. p = Slice ds ls)"
    and "c = 0x41 \<longleftrightarrow> p = Arguments" and "c = 0x40 \<longleftrightarrow> p = At"
proof (cases p)
  case (Positional ds)
  with assms(1) obtain d ds' where "ds = d # ds'" "is_digit_unit d" by (cases ds) (auto simp: digits_ok_def)
  moreover from this(2) have "d \<noteq> 0x7B" "d \<noteq> 0x41" "d \<noteq> 0x40" by auto
  ultimately show ?thesis using that [of d ds'] Positional assms(1) digits_no_dollar [of ds] by auto
next
  case (Slice ds ls)
  show ?thesis
  proof (cases ls)
    case None
    with Slice assms(1) digits_no_dollar [of ds] show ?thesis
      using that [of "0x7B" "[0x40, 0x3A] @ ds @ [0x7D]"] by (auto simp: placeholder_units)
  next
    case (Some l)
    with Slice assms(1) digits_no_dollar [of ds] digits_no_dollar [of l] show ?thesis
      using that [of "0x7B" "[0x40, 0x3A] @ ds @ [0x3A] @ l @ [0x7D]"] by (auto simp: placeholder_units)
  qed
qed (use assms that in \<open>auto simp: placeholder_units\<close>)

lemma second_unit:
  assumes "piece_ok p" and "piece_text p = DOLLAR # c # s"
  shows "(is_digit_unit c \<longleftrightarrow> (\<exists>ds. p = Positional ds)) \<and> (c = 0x7B \<longleftrightarrow> (\<exists>ds ls. p = Slice ds ls))
    \<and> (c = 0x41 \<longleftrightarrow> p = Arguments) \<and> (c = 0x40 \<longleftrightarrow> p = At)"
proof -
  have no: "\<And>t. p \<noteq> Literal t" using assms by auto
  obtain c' s' where "piece_text p = DOLLAR # c' # s'" and "is_digit_unit c' \<longleftrightarrow> (\<exists>ds. p = Positional ds)"
    and "c' = 0x7B \<longleftrightarrow> (\<exists>ds ls. p = Slice ds ls)" and "c' = 0x41 \<longleftrightarrow> p = Arguments" and "c' = 0x40 \<longleftrightarrow> p = At"
    by (rule placeholder_text [OF assms(1) no])
  moreover from this(1) assms(2) have "c' = c" by simp
  ultimately show ?thesis by simp
qed

text \<open>A piece that a pass takes is replaced; a piece that it does not take is passed over.\<close>

lemma replace_taken:
  assumes "piece_text p = DOLLAR # s" and "m (piece_text p @ t) = Some (length (piece_text p), x)" and "f before x t = v"
  shows "replace_from m f before 0 (piece_text p @ t) = v @ replace_from m f (before @ piece_text p) 0 t"
  using replace_hit [of m DOLLAR s t x f before] assms by (simp del: replace_from.simps)

lemma replace_passed:
  assumes "dollar_matcher m" and "piece_ok p"
    and "\<And>c s t. piece_text p = DOLLAR # c # s \<Longrightarrow> m (DOLLAR # c # t) = None"
  shows "replace_from m f before 0 (piece_text p @ t) = piece_text p @ replace_from m f (before @ piece_text p) 0 t"
proof (cases "\<exists>s. p = Literal s")
  case True
  with assms(1,2) show ?thesis by (auto simp: replace_plain simp del: replace_from.simps)
next
  case False
  then have "\<And>s. p \<noteq> Literal s" by blast
  from assms(2) this show ?thesis
  proof (cases rule: placeholder_text)
    case (1 c s)
    with assms(3) [OF 1(1), of "s @ t"] replace_miss [OF assms(1), of "c # s" t f before] show ?thesis
      by (simp del: replace_from.simps)
  qed
qed

lemma replace_pass:
  assumes "template_ok ps" and "dollar_matcher m"
    and "\<And>p c s t. piece_ok p \<Longrightarrow> \<not> taken p \<Longrightarrow> piece_text p = DOLLAR # c # s \<Longrightarrow> m (DOLLAR # c # t) = None"
    and "\<And>p. \<not> taken p \<Longrightarrow> g p = p"
    and "\<And>p ps'. taken p \<Longrightarrow> template_ok (p # ps') \<Longrightarrow> \<exists>s x. piece_text p = DOLLAR # s \<and>
      m (piece_text p @ template_text ps') = Some (length (piece_text p), x) \<and>
      (\<forall>before. f before x (template_text ps') = piece_text (g p))"
  shows "replace_global m f (template_text ps) = template_text (map g ps)"
  unfolding replace_global_def
proof (rule replace_template [OF assms(1)])
  fix p ps' before assume ok: "template_ok (p # ps')"
  show "replace_from m f before 0 (piece_text p @ template_text ps') =
    piece_text (g p) @ replace_from m f (before @ piece_text p) 0 (template_text ps')"
  proof (cases "taken p")
    case True
    from assms(5) [OF this ok] obtain s x where "piece_text p = DOLLAR # s"
      "m (piece_text p @ template_text ps') = Some (length (piece_text p), x)"
      "f before x (template_text ps') = piece_text (g p)" by blast
    then show ?thesis by (rule replace_taken)
  next
    case False
    from ok have "piece_ok p" by simp
    from replace_passed [OF assms(2) this assms(3) [OF this False]] assms(4) [OF False] show ?thesis by simp
  qed
qed

lemma fill_positional_pass:
  assumes "template_ok ps"
  shows "replace_global match_positional (\<lambda>b n a. positional_value args n) (template_text ps)
    = template_text (map (fill_positional args) ps)"
proof (rule replace_pass [OF assms dollar_matchers(1), where taken = "\<lambda>p. \<exists>ds. p = Positional ds"])
  fix p assume "\<not> (\<exists>ds. p = Positional ds)"
  then show "fill_positional args p = p" by (cases p) auto
qed (use second_unit in \<open>auto simp: match_positional_simps\<close>)

lemma fill_slice_pass:
  assumes "template_ok ps"
  shows "replace_global match_slice (\<lambda>b (i, l) a. slice_value args i l) (template_text ps)
    = template_text (map (fill_slice args) ps)"
proof (rule replace_pass [OF assms dollar_matchers(2), where taken = "\<lambda>p. \<exists>ds ls. p = Slice ds ls"])
  fix p assume "\<not> (\<exists>ds ls. p = Slice ds ls)"
  then show "fill_slice args p = p" by (cases p) auto
next
  fix p ps' assume "\<exists>ds ls. p = Slice ds ls" and ok: "template_ok (p # ps')"
  then obtain ds ls where "p = Slice ds ls" by blast
  with ok show "\<exists>s x. piece_text p = DOLLAR # s \<and>
      match_slice (piece_text p @ template_text ps') = Some (length (piece_text p), x) \<and>
      (\<forall>before. (case x of (i, l) \<Rightarrow> \<lambda>a. slice_value args i l) (template_text ps') = piece_text (fill_slice args p))"
    by (cases ls) (auto simp: placeholder_units match_slice_simps)
qed (use second_unit match_slice_simps(3) in blast)

text \<open>The passes for \<^verbatim>\<open>$ARGUMENTS\<close> and \<^verbatim>\<open>$@\<close> differ in the piece that they take.\<close>

lemma fill_arguments_pass:
  assumes "template_ok ps" and "DOLLAR \<notin> set (all_args args)"
  shows "replace_global (match_literal (js ''$ARGUMENTS''))
      (\<lambda>b u a. expand_replacement b (js ''$ARGUMENTS'') a (all_args args)) (template_text ps)
    = template_text (map (fill_arguments args) ps)"
proof (rule replace_pass [OF assms(1) dollar_matchers(3), where taken = "\<lambda>p. p = Arguments"])
  fix p assume "p \<noteq> Arguments"
  then show "fill_arguments args p = p" by (cases p) auto
next
  fix p ps' assume "p = Arguments"
  then show "\<exists>s x. piece_text p = DOLLAR # s \<and>
      match_literal (js ''$ARGUMENTS'') (piece_text p @ template_text ps') = Some (length (piece_text p), x) \<and>
      (\<forall>before. expand_replacement before (js ''$ARGUMENTS'') (template_text ps') (all_args args) = piece_text (fill_arguments args p))"
    using assms(2) by (simp add: match_literal_simps(1) expand_plain) (simp add: placeholder_units)
qed (use second_unit match_literal_simps(2) in blast)

lemma fill_at_pass:
  assumes "template_ok ps" and "DOLLAR \<notin> set (all_args args)"
  shows "replace_global (match_literal (js ''$@''))
      (\<lambda>b u a. expand_replacement b (js ''$@'') a (all_args args)) (template_text ps)
    = template_text (map (fill_at args) ps)"
proof (rule replace_pass [OF assms(1) dollar_matchers(4), where taken = "\<lambda>p. p = At"])
  fix p assume "p \<noteq> At"
  then show "fill_at args p = p" by (cases p) auto
next
  fix p ps' assume "p = At"
  then show "\<exists>s x. piece_text p = DOLLAR # s \<and>
      match_literal (js ''$@'') (piece_text p @ template_text ps') = Some (length (piece_text p), x) \<and>
      (\<forall>before. expand_replacement before (js ''$@'') (template_text ps') (all_args args) = piece_text (fill_at args p))"
    using assms(2) by (simp add: match_literal_simps(1) expand_plain) (simp add: placeholder_units)
qed (use second_unit match_literal_simps(3) in blast)

section \<open>The result of a substitution\<close>

lemma no_positional_step:
  assumes "no_positional ps" and "\<And>p. piece_ok p \<Longrightarrow> (\<forall>ds. p \<noteq> Positional ds) \<Longrightarrow> piece_ok (g p) \<and> (\<forall>ds. g p \<noteq> Positional ds)"
  shows "no_positional (map g ps)"
  using assms by (auto simp: no_positional_def)

lemma template_ok_pieces: "template_ok ps \<Longrightarrow> \<forall>p\<in>set ps. piece_ok p"
  by (induction ps) auto

lemma substitute_pieces:
  assumes "template_ok ps" and "\<forall>a\<in>set args. DOLLAR \<notin> set a"
  shows "substituteArgs (template_text ps) args = concat (map (piece_value args) ps)"
proof -
  note v = values_no_dollar [OF assms(2)]
  let ?p1 = "map (fill_positional args) ps"
  have ok: "piece_ok (fill_positional args p) \<and> (\<forall>ds. fill_positional args p \<noteq> Positional ds)" if "piece_ok p" for p
    using that v(1) by (cases p) auto
  have n1: "no_positional ?p1"
    using template_ok_pieces [OF assms(1)] ok by (auto simp: no_positional_def)
  have g2: "piece_ok (fill_slice args p) \<and> (\<forall>ds. fill_slice args p \<noteq> Positional ds)"
    if "piece_ok p" "\<forall>ds. p \<noteq> Positional ds" for p using that v(2) by (cases p) auto
  have g3: "piece_ok (fill_arguments args p) \<and> (\<forall>ds. fill_arguments args p \<noteq> Positional ds)"
    if "piece_ok p" "\<forall>ds. p \<noteq> Positional ds" for p using that v(3) by (cases p) auto
  have n2: "no_positional (map (fill_slice args) ?p1)"
    by (rule no_positional_step [OF n1 g2])
  have n3: "no_positional (map (fill_arguments args) (map (fill_slice args) ?p1))"
    by (rule no_positional_step [OF n2 g3])
  have "substituteArgs (template_text ps) args =
      template_text (map (fill_at args) (map (fill_arguments args) (map (fill_slice args) ?p1)))"
    unfolding substituteArgs_def Let_def fill_positional_pass [OF assms(1)] fill_slice_pass [OF no_positional_ok [OF n1]]
      fill_arguments_pass [OF no_positional_ok [OF n2] v(3)] fill_at_pass [OF no_positional_ok [OF n3] v(3)] ..
  moreover have "piece_text (fill_at args (fill_arguments args (fill_slice args (fill_positional args p)))) = piece_value args p" for p
    by (cases p) auto
  ultimately show ?thesis by (simp add: template_text_def comp_def)
qed

text \<open>Without the hypothesis on the arguments this fails: values are substituted again, and dollar patterns in them are expanded.\<close>

lemma arguments_substituted_again:
  "substituteArgs (js ''$1'') [js ''$@'', js ''b''] = js ''$@ b''"
  "substituteArgs (js ''$@'') [js ''a$$b''] = js ''a$b''"
  by code_simp+

text \<open>Nor does it hold for a template with a dollar sign before a placeholder: the value joins the dollar sign.\<close>

lemma dollar_before_placeholder:
  "substituteArgs (js ''$$1'') [js ''@'', js ''b''] = js ''@ b''"
  by code_simp

text \<open>
  C32: Invoking a template gives its text with every placeholder replaced by the value of its own arguments
  (the positional one, a slice, all of them) and the rest of the text unchanged, in one pass as the comment in the code promises. The
  conditions: the arguments contain no dollar sign, no number of a positional placeholder is followed by a digit, and a
  dollar sign that is not part of a placeholder is followed by a character other than a digit, an opening brace, \<^verbatim>\<open>A\<close>,
  an at sign and another dollar sign. Without the first and the last, the later passes can substitute again: see
  \<open>arguments_substituted_again\<close> and \<open>dollar_before_placeholder\<close>.
\<close>

theorem template_arguments_substituted:
  assumes "template_ok ps" and "\<forall>a\<in>set args. DOLLAR \<notin> set a"
  shows "formatPromptTemplateInvocation \<lparr>pt_name = name, pt_description = description, pt_content = template_text ps\<rparr> args
    = concat (map (piece_value args) ps)"
  using substitute_pieces [OF assms] by (simp add: formatPromptTemplateInvocation_def)

theorem template_arguments_substituted_witness:
  "formatPromptTemplateInvocation
     \<lparr>pt_name = [], pt_description = None,
       pt_content = template_text [Literal (js ''Fix ''), Positional (js ''1''), Literal (js '' in ''), Slice (js ''2'') None,
         Literal (js '' for ''), Dollar 0x20, At]\<rparr>
     [js ''it'', js ''the'', js ''file''] = js ''Fix it in the file for $ it the file''"
proof -
  have "template_ok [Literal (js ''Fix ''), Positional (js ''1''), Literal (js '' in ''), Slice (js ''2'') None,
         Literal (js '' for ''), Dollar 0x20, At]"
    by code_simp
  moreover have "\<forall>a\<in>set [js ''it'', js ''the'', js ''file'']. DOLLAR \<notin> set a" by code_simp
  ultimately show ?thesis by (simp only: template_arguments_substituted) code_simp
qed

text \<open>
  Arguments written in double quotes and separated by blanks are read back, also with blanks and single quotes in them.
\<close>

lemma quoted_arguments_read_back:
  assumes "\<forall>a\<in>set args. a \<noteq> [] \<and> 0x22 \<notin> set a"
  shows "parseCommandArgs (join_with [0x20] (map quote_arg args)) = args"
  using parse_quoted [OF assms, of "[]"] by (simp add: parseCommandArgs_def)

end
