(* ===== verification/Harness_Options.thy ===== *)
theory Harness_Options
  imports Branch_Summary Prompt_Templates Agent_Loop "HOL-Library.AList"
begin

text \<open>
  The parts of \<^verbatim>\<open>packages/agent/src/harness/agent-harness.ts\<close> around the class \<^verbatim>\<open>AgentHarness\<close>: what the harness and its
  helpers throw and how that is turned into an \<^verbatim>\<open>AgentHarnessError\<close>, the stream options with the patches of
  provider hooks, and the messages that the harness makes. An object used as a dictionary is an association list.

  A function that awaits callbacks is a \<open>step\<close>: it takes the world and returns a value or what it throws, with the next world.
\<close>

section \<open>Errors\<close>

datatype harness_error_code =
  HE_busy | HE_invalid_state | HE_invalid_argument | HE_session | HE_hook | HE_auth | HE_compaction | HE_branch_summary | HE_unknown

record harness_error =
  he_code :: harness_error_code
  he_message :: jstr

text \<open>What can be thrown, by class.\<close>

datatype thrown =
    Harness_thrown harness_error
  | Session_thrown session_error
  | Compaction_thrown compaction_error
  | Branch_thrown branch_summary_error
  | Other_thrown jstr

fun thrown_message :: "thrown \<Rightarrow> jstr" where
  "thrown_message (Harness_thrown e) = he_message e"
| "thrown_message (Session_thrown e) = se_message e"
| "thrown_message (Compaction_thrown e) = ce_message e"
| "thrown_message (Branch_thrown e) = be_message e"
| "thrown_message (Other_thrown m) = m"

definition own_error :: "harness_error_code \<Rightarrow> string \<Rightarrow> thrown" where
  "own_error c m = Harness_thrown \<lparr>he_code = c, he_message = js m\<rparr>"

fun normalizeHarnessError :: "thrown \<Rightarrow> harness_error_code \<Rightarrow> harness_error" where
  "normalizeHarnessError (Harness_thrown e) fallbackCode = e"
| "normalizeHarnessError (Session_thrown e) fallbackCode = \<lparr>he_code = HE_session, he_message = se_message e\<rparr>"
| "normalizeHarnessError (Compaction_thrown e) fallbackCode = \<lparr>he_code = HE_compaction, he_message = ce_message e\<rparr>"
| "normalizeHarnessError (Branch_thrown e) fallbackCode = \<lparr>he_code = HE_branch_summary, he_message = be_message e\<rparr>"
| "normalizeHarnessError (Other_thrown m) fallbackCode = \<lparr>he_code = fallbackCode, he_message = m\<rparr>"

definition normalizeHookError :: "thrown \<Rightarrow> harness_error" where
  "normalizeHookError e = normalizeHarnessError e HE_hook"

section \<open>Steps\<close>

type_synonym ('w, 'a) step = "'w \<Rightarrow> (thrown + 'a) \<times> 'w"

definition step_ret :: "'a \<Rightarrow> ('w, 'a) step" where
  "step_ret a w = (Inr a, w)"

definition step_throw :: "thrown \<Rightarrow> ('w, 'a) step" where
  "step_throw e w = (Inl e, w)"

definition step_then :: "('w, 'a) step \<Rightarrow> ('a \<Rightarrow> ('w, 'b) step) \<Rightarrow> ('w, 'b) step" where
  "step_then m f w = (case m w of (Inl e, w') \<Rightarrow> (Inl e, w') | (Inr a, w') \<Rightarrow> f a w')"

text \<open>\<^verbatim>\<open>try { ... } catch (error) { throw f(error) }\<close>.\<close>

definition step_rethrow :: "(thrown \<Rightarrow> thrown) \<Rightarrow> ('w, 'a) step \<Rightarrow> ('w, 'a) step" where
  "step_rethrow f m w = (case m w of (Inl e, w') \<Rightarrow> (Inl (f e), w') | (Inr a, w') \<Rightarrow> (Inr a, w'))"

definition as_hook_error :: "('w, 'a) step \<Rightarrow> ('w, 'a) step" where
  "as_hook_error m = step_rethrow (\<lambda>e. Harness_thrown (normalizeHookError e)) m"

text \<open>Changing the world, and a step handed to the agent loop, which sees the message of what is thrown.\<close>

definition step_update :: "('w \<Rightarrow> 'w) \<Rightarrow> ('w, unit) step" where
  "step_update f w = (Inr (), f w)"

definition as_callback :: "('w, 'a) step \<Rightarrow> ('w, 'a) callback" where
  "as_callback m w = (case m w of (r, w') \<Rightarrow> (map_sum thrown_message id r, w'))"

definition from_callback :: "('w, 'a) callback \<Rightarrow> ('w, 'a) step" where
  "from_callback m w = (case m w of (r, w') \<Rightarrow> (map_sum Other_thrown id r, w'))"

section \<open>Messages\<close>

definition createUserMessage :: "int \<Rightarrow> jstr \<Rightarrow> image_content list option \<Rightarrow> agent_message" where
  "createUserMessage now s images =
     Llm (UserM \<lparr>um_content = Blocks (text_block s # map ImageBlock (nullish images [])), um_timestamp = Some now\<rparr>)"

definition createFailureMessage :: "int \<Rightarrow> llm_model \<Rightarrow> jerror \<Rightarrow> bool \<Rightarrow> assistant_message" where
  "createFailureMessage now model err aborted =
     \<lparr>am_content = [AText \<lparr>tc_text = [], tc_textSignature = None\<rparr>], am_api = model_api model,
      am_provider = model_provider model, am_model = model_id model, am_responseModel = None, am_responseId = None,
      am_diagnostics = None,
      am_usage = \<lparr>us_input = 0, us_output = 0, us_cacheRead = 0, us_cacheWrite = 0, us_totalTokens = 0,
        us_cost = \<lparr>cost_input = 0, cost_output = 0, cost_cacheRead = 0, cost_cacheWrite = 0, cost_total = 0\<rparr>\<rparr>,
      am_stopReason = (if aborted then SR_aborted else SR_error), am_errorMessage = Some err, am_timestamp = Some now\<rparr>"

section \<open>Stream options\<close>

type_synonym headers = "(jstr \<times> jstr) list"

record stream_options =
  so_transport :: "jstr option"
  so_timeoutMs :: "int option"
  so_maxRetries :: "int option"
  so_maxRetryDelayMs :: "int option"
  so_headers :: "headers option"
  so_metadata :: "(jstr \<times> json) list option"
  so_cacheRetention :: "jstr option"

text \<open>Copying matters only where objects are shared, which values are not.\<close>

definition cloneStreamOptions :: "stream_options option \<Rightarrow> stream_options" where
  "cloneStreamOptions s =
     nullish s \<lparr>so_transport = None, so_timeoutMs = None, so_maxRetries = None, so_maxRetryDelayMs = None,
       so_headers = None, so_metadata = None, so_cacheRetention = None\<rparr>"

text \<open>\<^verbatim>\<open>Object.assign(merged, entry)\<close>.\<close>

definition assign_entries :: "('k \<times> 'v) list \<Rightarrow> ('k \<times> 'v) list \<Rightarrow> ('k \<times> 'v) list" where
  "assign_entries merged entry = foldl (\<lambda>m (k, v). AList.update k v m) merged entry"

definition mergeHeaders :: "headers option list \<Rightarrow> headers option" where
  "mergeHeaders hs =
     (if \<exists>h\<in>set hs. h \<noteq> None then Some (foldl assign_entries [] (map the (filter (\<lambda>h. h \<noteq> None) hs))) else None)"

text \<open>
  A patch: an outer \<open>None\<close> is an absent member, \<open>Some None\<close> the explicit value \<^verbatim>\<open>undefined\<close>.
\<close>

record stream_options_patch =
  sp_transport :: "jstr option option"
  sp_timeoutMs :: "int option option"
  sp_maxRetries :: "int option option"
  sp_maxRetryDelayMs :: "int option option"
  sp_headers :: "(jstr \<times> jstr option) list option option"
  sp_metadata :: "(jstr \<times> json option) list option option"
  sp_cacheRetention :: "jstr option option"

fun patch_entry :: "('k \<times> 'v) list \<Rightarrow> 'k \<times> 'v option \<Rightarrow> ('k \<times> 'v) list" where
  "patch_entry m (k, None) = AList.delete k m"
| "patch_entry m (k, Some v) = AList.update k v m"

definition patch_entries ::
  "('k \<times> 'v) list option \<Rightarrow> ('k \<times> 'v option) list option option \<Rightarrow> ('k \<times> 'v) list option" where
  "patch_entries old p =
     (case p of
        None \<Rightarrow> old
      | Some None \<Rightarrow> None
      | Some (Some changes) \<Rightarrow>
          (let m = foldl patch_entry (nullish old []) changes in if m \<noteq> [] then Some m else None))"

definition applyStreamOptionsPatch :: "stream_options \<Rightarrow> stream_options_patch option \<Rightarrow> stream_options" where
  "applyStreamOptionsPatch base patch =
     (let result = cloneStreamOptions (Some base) in
      case patch of
        None \<Rightarrow> result
      | Some p \<Rightarrow>
          \<lparr>so_transport = nullish (sp_transport p) (so_transport result),
           so_timeoutMs = nullish (sp_timeoutMs p) (so_timeoutMs result),
           so_maxRetries = nullish (sp_maxRetries p) (so_maxRetries result),
           so_maxRetryDelayMs = nullish (sp_maxRetryDelayMs p) (so_maxRetryDelayMs result),
           so_headers = patch_entries (so_headers result) (sp_headers p),
           so_metadata = patch_entries (so_metadata result) (sp_metadata p),
           so_cacheRetention = nullish (sp_cacheRetention p) (so_cacheRetention result)\<rparr>)"

section \<open>What a patch does to a dictionary\<close>

text \<open>The last change of a key counts; a key without a change keeps its value.\<close>

definition entry_value :: "('k \<times> 'v) list option \<Rightarrow> 'k \<rightharpoonup> 'v" where
  "entry_value m k = (case m of None \<Rightarrow> None | Some xs \<Rightarrow> map_of xs k)"

lemma patch_entry_value: "map_of (patch_entry m (k, v)) = (map_of m)(k := v)"
  by (cases v) (simp_all add: update_conv' delete_conv')

lemma patch_entries_fold:
  "map_of (foldl patch_entry m changes) k = nullish (map_of (rev changes) k) (map_of m k)"
proof (induction changes arbitrary: m)
  case (Cons c changes)
  obtain k' v where c: "c = (k', v)" by fastforce
  show ?case unfolding foldl_Cons Cons.IH c patch_entry_value
    by (cases "map_of (rev changes) k") (auto simp: map_of_append map_add_def)
qed simp

lemma patched_value:
  "entry_value (patch_entries old (Some (Some changes))) k = nullish (map_of (rev changes) k) (entry_value old k)"
proof -
  have "entry_value (patch_entries old (Some (Some changes))) k = map_of (foldl patch_entry (nullish old []) changes) k"
    by (auto simp: patch_entries_def entry_value_def Let_def)
  also have "\<dots> = nullish (map_of (rev changes) k) (entry_value old k)"
    unfolding patch_entries_fold by (cases old) (simp_all add: entry_value_def)
  finally show ?thesis .
qed

lemma patch_entries_nonempty: "old \<noteq> Some [] \<Longrightarrow> patch_entries old p \<noteq> Some []"
  by (auto simp: patch_entries_def Let_def split: option.splits)

lemma assign_entries_value: "map_of (assign_entries m e) k = nullish_opt (map_of (rev e) k) (map_of m k)"
  unfolding assign_entries_def
proof (induction e arbitrary: m)
  case (Cons c e)
  obtain k' v where c: "c = (k', v)" by fastforce
  show ?case using Cons.IH [of "AList.update k' v m"]
    by (cases "map_of (rev e) k") (auto simp: c update_conv' map_of_append map_add_def)
qed simp

text \<open>Later headers win over earlier ones.\<close>

lemma merged_headers:
  assumes "\<forall>h. b = Some h \<longrightarrow> distinct (map fst h)" and "\<forall>h. a = Some h \<longrightarrow> distinct (map fst h)"
  shows "entry_value (mergeHeaders [a, b]) k = nullish_opt (entry_value b k) (entry_value a k)"
proof -
  have rev_value: "map_of (rev h) k = map_of h k" if "distinct (map fst h)" for h :: headers
    using that map_of_inject_set [of "rev h" h] by (simp add: rev_map [symmetric])
  have "nullish_opt x None = x" for x :: "jstr option" by (cases x) simp_all
  then show ?thesis using assms rev_value
    by (cases a; cases b) (auto simp: mergeHeaders_def entry_value_def assign_entries_value)
qed

end
