(* ===== verification/Agent_Harness.thy ===== *)
theory Agent_Harness
  imports Harness_Options
begin

text \<open>
  The class \<^verbatim>\<open>AgentHarness\<close> of \<^verbatim>\<open>packages/agent/src/harness/agent-harness.ts\<close>: a session, the phase of the harness, the
  queues of messages, the session writes that wait for the end of a turn, and the operations that prompt the model, compact the
  session and move in its tree.

  As in \<open>Agent\<close>, the world of the loop is the harness itself with an extension of any type, so that hooks, tools and
  subscribers may act on the harness; tools are kept by handles. The storage is any implementation of the interface of
  \<open>Session_Storage\<close>. Subscribers and hooks are parameters that do not change, and a session operation is one step. What
  is not modelled is a callback that starts another run while one is active. A walk to the root of a session that does not
  end, which a well-formed session rules out, counts as an error.
\<close>

section \<open>State\<close>

datatype harness_phase = Phase_idle | Phase_turn | Phase_compaction | Phase_branch_summary | Phase_retry

record harness_resources =
  re_skills :: "skill list option"
  re_promptTemplates :: "prompt_template list option"

record 't turn_state =
  ts_messages :: "agent_message list"
  ts_resources :: harness_resources
  ts_streamOptions :: stream_options
  ts_sessionId :: jstr
  ts_systemPrompt :: jstr
  ts_model :: llm_model
  ts_thinkingLevel :: thinking_level
  ts_tools :: "'t list"
  ts_activeTools :: "'t list"

text \<open>
  \<open>ah_abort\<close> is \<^verbatim>\<open>runAbortController\<close> with the state of its signal, \<open>ah_running\<close> whether there is a
  \<^verbatim>\<open>runPromise\<close>, \<open>ah_activeTurn\<close> the variable \<^verbatim>\<open>activeTurnState\<close> that the closures of a run share, and
  \<open>ah_queueEpoch\<close> counts how often \<^verbatim>\<open>abort\<close> replaced the arrays of the steering and follow-up queues.
\<close>

record ('s, 't, 'x) harness =
  ah_storage :: 's
  ah_ids :: host
  ah_phase :: harness_phase
  ah_abort :: "bool option"
  ah_running :: bool
  ah_pendingWrites :: "entry_kind list"
  ah_model :: llm_model
  ah_thinkingLevel :: thinking_level
  ah_streamOptions :: stream_options
  ah_resources :: harness_resources
  ah_tools :: "(jstr \<times> 't) list"
  ah_activeToolNames :: "jstr list"
  ah_steerQueue :: "agent_message list"
  ah_steeringMode :: queue_mode
  ah_followUpQueue :: "agent_message list"
  ah_followUpMode :: queue_mode
  ah_nextTurnQueue :: "agent_message list"
  ah_queueEpoch :: nat
  ah_activeTurn :: "'t turn_state option"
  ah_host :: 'x

text \<open>Events that subscribers receive: those of the loop and the harness's own.\<close>

datatype harness_event =
    Agent_event agent_event
  | Queue_update "agent_message list" "agent_message list" "agent_message list"
  | Save_point bool
  | Abort_event "agent_message list" "agent_message list"
  | Settled nat
  | After_provider_response int headers
  | Session_compact entry bool
  | Session_tree "jstr option" "jstr option" "entry option" bool
  | Model_select llm_model llm_model
  | Thinking_level_select thinking_level thinking_level
  | Resources_update harness_resources harness_resources

text \<open>Hook events and their results.\<close>

record before_agent_start_event =
  bs_prompt :: jstr
  bs_images :: "image_content list option"
  bs_systemPrompt :: jstr
  bs_resources :: harness_resources

record before_agent_start_result =
  bs_messages :: "agent_message list option"
  bs_newSystemPrompt :: "jstr option"

record before_provider_request_event =
  bq_model :: llm_model
  bq_sessionId :: jstr
  bq_streamOptions :: stream_options

record tool_call_event =
  tce_toolCallId :: jstr
  tce_toolName :: jstr
  tce_input :: json

record tool_result_event =
  tre_call :: tool_call_event
  tre_content :: "content_block list"
  tre_details :: "json option"
  tre_isError :: bool

record before_compact_event =
  bc_preparation :: compaction_preparation
  bc_branchEntries :: "entry list"
  bc_customInstructions :: "jstr option"

record harness_compact_result =
  hc_summary :: jstr
  hc_firstKeptEntryId :: jstr
  hc_tokensBefore :: int
  hc_details :: "json option"

record before_compact_result =
  bc_cancel :: "bool option"
  bc_compaction :: "harness_compact_result option"

record tree_preparation =
  tp_targetId :: jstr
  tp_oldLeafId :: "jstr option"
  tp_commonAncestorId :: "jstr option"
  tp_entriesToSummarize :: "entry list"
  tp_userWantsSummary :: bool
  tp_customInstructions :: "jstr option"
  tp_replaceInstructions :: "bool option"
  tp_label :: "jstr option"

record before_tree_result =
  bt_cancel :: "bool option"
  bt_summary :: "(jstr \<times> json option) option"
  bt_customInstructions :: "jstr option"
  bt_replaceInstructions :: "bool option"
  bt_label :: "jstr option"

record auth =
  au_apiKey :: jstr
  au_headers :: "headers option"

text \<open>The request that the harness hands to \<^verbatim>\<open>streamSimple\<close>, with its callbacks.\<close>

record 'w provider_request =
  rq_options :: stream_options
  rq_onPayload :: "json \<Rightarrow> ('w, json) step"
  rq_onResponse :: "int \<Rightarrow> headers \<Rightarrow> ('w, unit) step"
  rq_reasoning :: "thinking_level option"
  rq_sessionId :: jstr
  rq_apiKey :: "jstr option"

record 't prompt_context =
  pc_model :: llm_model
  pc_thinkingLevel :: thinking_level
  pc_activeTools :: "'t list"
  pc_resources :: harness_resources

datatype ('t, 'w) system_prompt = Fixed_prompt jstr | Computed_prompt "'t prompt_context \<Rightarrow> ('w, jstr) step"

text \<open>What the harness is given: its options, the subscribers and hooks, the provider, and the host's clock and scheduler.\<close>

record ('s, 't, 'w) harness_deps =
  hd_ops :: "'s storage_ops"
  hd_sessionId :: "'s \<Rightarrow> jstr"
  hd_subscribers :: "(harness_event \<Rightarrow> ('w, unit) step) list"
  hd_beforeAgentStart :: "(before_agent_start_event \<Rightarrow> ('w, before_agent_start_result option) step) list"
  hd_context :: "(agent_message list \<Rightarrow> ('w, agent_message list option) step) list"
  hd_beforeProviderRequest :: "(before_provider_request_event \<Rightarrow> ('w, stream_options_patch option) step) list"
  hd_beforeProviderPayload :: "(llm_model \<Rightarrow> json \<Rightarrow> ('w, json option) step) list"
  hd_toolCall :: "(tool_call_event \<Rightarrow> ('w, before_tool_call_result option) step) list"
  hd_toolResult :: "(tool_result_event \<Rightarrow> ('w, after_tool_call_result option) step) list"
  hd_beforeCompact :: "(before_compact_event \<Rightarrow> ('w, before_compact_result option) step) list"
  hd_beforeTree :: "(tree_preparation \<Rightarrow> ('w, before_tree_result option) step) list"
  hd_systemPrompt :: "('t, 'w) system_prompt option"
  hd_getApiKeyAndHeaders :: "(llm_model \<Rightarrow> ('w, auth option) step) option"
  hd_provider :: "llm_model \<Rightarrow> 'w llm_context \<Rightarrow> 'w provider_request \<Rightarrow> ('w, response) callback"
  hd_completion :: "'w completion"
  hd_tool :: "'t \<Rightarrow> 'w agent_tool"
  hd_validateToolArguments :: "'w agent_tool \<Rightarrow> tool_call \<Rightarrow> jerror + json"
  hd_now :: "'w \<Rightarrow> int"
  hd_schedule :: "'w \<Rightarrow> nat list \<Rightarrow> nat"
  hd_getTime :: "jstr \<Rightarrow> jtime"

record ('s, 't) harness_options =
  hopt_session :: 's
  hopt_sessionIds :: host
  hopt_resources :: "harness_resources option"
  hopt_streamOptions :: "stream_options option"
  hopt_tools :: "'t list option"
  hopt_model :: llm_model
  hopt_thinkingLevel :: "thinking_level option"
  hopt_activeToolNames :: "jstr list option"
  hopt_steeringMode :: "queue_mode option"
  hopt_followUpMode :: "queue_mode option"

text \<open>\<^verbatim>\<open>new Map(tools.map((tool) => [tool.name, tool]))\<close>.\<close>

definition tool_map :: "('t \<Rightarrow> jstr) \<Rightarrow> 't list \<Rightarrow> (jstr \<times> 't) list" where
  "tool_map name tools = foldl (\<lambda>m t. AList.update (name t) t m) [] tools"

definition new_harness :: "('s, 't, 'w) harness_deps \<Rightarrow> ('s, 't) harness_options \<Rightarrow> 'x \<Rightarrow> ('s, 't, 'x) harness" where
  "new_harness d opts host =
     (let name = (\<lambda>t. tool_name (hd_tool d t)); tools = nullish (hopt_tools opts) [] in
      \<lparr>ah_storage = hopt_session opts, ah_ids = hopt_sessionIds opts, ah_phase = Phase_idle, ah_abort = None,
       ah_running = False, ah_pendingWrites = [], ah_model = hopt_model opts,
       ah_thinkingLevel = nullish (hopt_thinkingLevel opts) TL_off,
       ah_streamOptions = cloneStreamOptions (hopt_streamOptions opts),
       ah_resources = nullish (hopt_resources opts) \<lparr>re_skills = None, re_promptTemplates = None\<rparr>,
       ah_tools = tool_map name tools, ah_activeToolNames = nullish (hopt_activeToolNames opts) (map name tools),
       ah_steerQueue = [], ah_steeringMode = nullish (hopt_steeringMode opts) Queue_one_at_a_time,
       ah_followUpQueue = [], ah_followUpMode = nullish (hopt_followUpMode opts) Queue_one_at_a_time,
       ah_nextTurnQueue = [], ah_queueEpoch = 0, ah_activeTurn = None, ah_host = host\<rparr>)"

section \<open>Events and hooks\<close>

fun notify_subscribers :: "(harness_event \<Rightarrow> ('w, unit) step) list \<Rightarrow> harness_event \<Rightarrow> ('w, unit) step" where
  "notify_subscribers [] e = step_ret ()"
| "notify_subscribers (l # ls) e = step_then (as_hook_error (l e)) (\<lambda>_. notify_subscribers ls e)"

definition emitOwn :: "('s, 't, 'w) harness_deps \<Rightarrow> harness_event \<Rightarrow> ('w, unit) step" where
  "emitOwn d e = notify_subscribers (hd_subscribers d) e"

definition emitAny :: "('s, 't, 'w) harness_deps \<Rightarrow> agent_event \<Rightarrow> ('w, unit) step" where
  "emitAny d e = notify_subscribers (hd_subscribers d) (Agent_event e)"

text \<open>The last result that is not \<^verbatim>\<open>undefined\<close> counts.\<close>

fun run_hooks :: "('e \<Rightarrow> ('w, 'r option) step) list \<Rightarrow> 'e \<Rightarrow> 'r option \<Rightarrow> ('w, 'r option) step" where
  "run_hooks [] e latest = step_ret latest"
| "run_hooks (h # hs) e latest = step_then (as_hook_error (h e)) (\<lambda>r. run_hooks hs e (nullish_opt r latest))"

definition emitHook :: "('e \<Rightarrow> ('w, 'r option) step) list \<Rightarrow> 'e \<Rightarrow> ('w, 'r option) step" where
  "emitHook hs e = run_hooks hs e None"

fun patch_request ::
  "(before_provider_request_event \<Rightarrow> ('w, stream_options_patch option) step) list \<Rightarrow> llm_model \<Rightarrow> jstr \<Rightarrow>
   stream_options \<Rightarrow> ('w, stream_options) step" where
  "patch_request [] model sessionId current = step_ret current"
| "patch_request (h # hs) model sessionId current =
     step_then (as_hook_error
         (h \<lparr>bq_model = model, bq_sessionId = sessionId, bq_streamOptions = cloneStreamOptions (Some current)\<rparr>))
       (\<lambda>r. patch_request hs model sessionId (if r = None then current else applyStreamOptionsPatch current r))"

definition emitBeforeProviderRequest ::
  "('s, 't, 'w) harness_deps \<Rightarrow> llm_model \<Rightarrow> jstr \<Rightarrow> stream_options \<Rightarrow> ('w, stream_options) step" where
  "emitBeforeProviderRequest d model sessionId options =
     patch_request (hd_beforeProviderRequest d) model sessionId (cloneStreamOptions (Some options))"

fun patch_payload ::
  "(llm_model \<Rightarrow> json \<Rightarrow> ('w, json option) step) list \<Rightarrow> llm_model \<Rightarrow> json \<Rightarrow> ('w, json) step" where
  "patch_payload [] model current = step_ret current"
| "patch_payload (h # hs) model current =
     step_then (as_hook_error (h model current)) (\<lambda>r. patch_payload hs model (nullish r current))"

definition emitBeforeProviderPayload :: "('s, 't, 'w) harness_deps \<Rightarrow> llm_model \<Rightarrow> json \<Rightarrow> ('w, json) step" where
  "emitBeforeProviderPayload d model payload = patch_payload (hd_beforeProviderPayload d) model payload"

type_synonym ('s, 't, 'x) hdeps = "('s, 't, ('s, 't, 'x) harness) harness_deps"

definition emitQueueUpdate :: "('s, 't, 'x) hdeps \<Rightarrow> (('s, 't, 'x) harness, unit) step" where
  "emitQueueUpdate d w = emitOwn d (Queue_update (ah_steerQueue w) (ah_followUpQueue w) (ah_nextTurnQueue w)) w"

text \<open>An operation of the session.\<close>

definition on_session :: "('s, 'a) session_op \<Rightarrow> (('s, 't, 'x) harness, 'a) step" where
  "on_session f w =
     (case f (ah_storage w) (ah_ids w) of
        (r, s, h) \<Rightarrow> (map_sum Session_thrown id r, w\<lparr>ah_storage := s, ah_ids := h\<rparr>))"

definition endless_walk :: thrown where
  "endless_walk = Session_thrown \<lparr>se_code = SE_invalid_session, se_message = js ''endless path''\<rparr>"

definition of_walk :: "(session_error + 'a) option \<Rightarrow> thrown + 'a" where
  "of_walk r = (case r of None \<Rightarrow> Inl endless_walk | Some x \<Rightarrow> map_sum Session_thrown id x)"

definition ask_session :: "('s \<Rightarrow> thrown + 'a) \<Rightarrow> (('s, 't, 'x) harness, 'a) step" where
  "ask_session f w = (f (ah_storage w), w)"

definition lift_session_error :: "session_error + 'a \<Rightarrow> thrown + 'a" where
  "lift_session_error r = map_sum Session_thrown id r"

section \<open>The state of a turn\<close>

definition getResources :: "('s, 't, 'x) harness \<Rightarrow> harness_resources" where
  "getResources w = \<lparr>re_skills = re_skills (ah_resources w), re_promptTemplates = re_promptTemplates (ah_resources w)\<rparr>"

definition active_tools :: "('s, 't, 'x) harness \<Rightarrow> 't list" where
  "active_tools w = List.map_filter (map_of (ah_tools w)) (ah_activeToolNames w)"

definition turn_prompt :: "('s, 't, 'x) hdeps \<Rightarrow> harness_resources \<Rightarrow> (('s, 't, 'x) harness, jstr) step" where
  "turn_prompt d resources w =
     (case hd_systemPrompt d of
        None \<Rightarrow> (Inr (js ''You are a helpful assistant.''), w)
      | Some (Fixed_prompt p) \<Rightarrow> (Inr p, w)
      | Some (Computed_prompt f) \<Rightarrow>
          f \<lparr>pc_model = ah_model w, pc_thinkingLevel = ah_thinkingLevel w, pc_activeTools = active_tools w,
             pc_resources = resources\<rparr> w)"

definition createTurnState :: "('s, 't, 'x) hdeps \<Rightarrow> (('s, 't, 'x) harness, 't turn_state) step" where
  "createTurnState d =
     step_then (ask_session (\<lambda>s. of_walk (session_buildContext (hd_getTime d) (hd_ops d) s))) (\<lambda>c w.
       let resources = getResources w; sessionId = hd_sessionId d (ah_storage w); tools = map snd (ah_tools w);
           activeTools = active_tools w in
       step_then (turn_prompt d resources) (\<lambda>p w.
         (Inr \<lparr>ts_messages = sc_messages c, ts_resources = resources,
               ts_streamOptions = cloneStreamOptions (Some (ah_streamOptions w)), ts_sessionId = sessionId,
               ts_systemPrompt = p, ts_model = ah_model w, ts_thinkingLevel = ah_thinkingLevel w, ts_tools = tools,
               ts_activeTools = activeTools\<rparr>, w)) w)"

definition createContext ::
  "('s, 't, 'w) harness_deps \<Rightarrow> 't turn_state \<Rightarrow> jstr option \<Rightarrow> 'w agent_context" where
  "createContext d ts systemPrompt =
     \<lparr>ctx_systemPrompt = nullish systemPrompt (ts_systemPrompt ts), ctx_messages = ts_messages ts,
      ctx_tools = Some (map (hd_tool d) (ts_activeTools ts))\<rparr>"

text \<open>\<^verbatim>\<open>getTurnState()\<close>; during a run there is one.\<close>

definition turn_of :: "('s, 't, 'x) harness \<Rightarrow> 't turn_state" where
  "turn_of w = the (ah_activeTurn w)"

definition request_auth :: "('s, 't, 'w) harness_deps \<Rightarrow> llm_model \<Rightarrow> ('w, auth option) step" where
  "request_auth d model = (case hd_getApiKeyAndHeaders d of None \<Rightarrow> step_ret None | Some f \<Rightarrow> f model)"

definition createStreamFn :: "('s, 't, 'x) hdeps \<Rightarrow> ('s, 't, 'x) harness stream_fn" where
  "createStreamFn d model ctx streamOptions w0 =
     (let ts = turn_of w0 in
      case as_callback
        (step_then (request_auth d model) (\<lambda>auth.
          step_then (emitBeforeProviderRequest d model (ts_sessionId ts)
              ((ts_streamOptions ts)\<lparr>so_headers := mergeHeaders [so_headers (ts_streamOptions ts), Option.bind auth au_headers]\<rparr>))
            (\<lambda>options. step_ret (auth, options)))) w0 of
        (Inl e, w) \<Rightarrow> (Inl e, w)
      | (Inr (auth, options), w) \<Rightarrow>
          hd_provider d model ctx
            \<lparr>rq_options = options, rq_onPayload = emitBeforeProviderPayload d model,
             rq_onResponse = (\<lambda>status hs. emitOwn d (After_provider_response status hs)),
             rq_reasoning = lc_reasoning streamOptions, rq_sessionId = ts_sessionId ts,
             rq_apiKey = map_option au_apiKey auth\<rparr> w)"

section \<open>Queues\<close>

datatype harness_queue = Steer_queue | FollowUp_queue

fun queue_of :: "harness_queue \<Rightarrow> ('s, 't, 'x) harness \<Rightarrow> agent_message list" where
  "queue_of Steer_queue w = ah_steerQueue w"
| "queue_of FollowUp_queue w = ah_followUpQueue w"

fun set_queue :: "harness_queue \<Rightarrow> agent_message list \<Rightarrow> ('s, 't, 'x) harness \<Rightarrow> ('s, 't, 'x) harness" where
  "set_queue Steer_queue ms w = w\<lparr>ah_steerQueue := ms\<rparr>"
| "set_queue FollowUp_queue ms w = w\<lparr>ah_followUpQueue := ms\<rparr>"

fun mode_of :: "harness_queue \<Rightarrow> ('s, 't, 'x) harness \<Rightarrow> queue_mode" where
  "mode_of Steer_queue w = ah_steeringMode w"
| "mode_of FollowUp_queue w = ah_followUpMode w"

text \<open>When the update fails the messages go back into the array they came from, which \<^verbatim>\<open>abort\<close> may have replaced.\<close>

definition drainQueuedMessages ::
  "('s, 't, 'x) hdeps \<Rightarrow> harness_queue \<Rightarrow> (('s, 't, 'x) harness, agent_message list) step" where
  "drainQueuedMessages d q w =
     (let queue = queue_of q w; messages = (if mode_of q w = Queue_all then queue else take 1 queue);
          w1 = set_queue q (drop (length messages) queue) w in
      if messages = [] then (Inr messages, w1)
      else
        (case emitQueueUpdate d w1 of
           (Inr u, w2) \<Rightarrow> (Inr messages, w2)
         | (Inl e, w2) \<Rightarrow>
             (Inl (Harness_thrown (normalizeHookError e)),
              if ah_queueEpoch w2 = ah_queueEpoch w then set_queue q (messages @ queue_of q w2) w2 else w2)))"

section \<open>Pending session writes\<close>

definition no_value :: "('s, 'a) session_op \<Rightarrow> ('s, unit) session_op" where
  "no_value f s h = (case f s h of (r, s', h') \<Rightarrow> (map_sum id (\<lambda>_. ()) r, s', h'))"

fun write_pending :: "'s storage_ops \<Rightarrow> entry_kind \<Rightarrow> ('s, unit) session_op" where
  "write_pending ops (MessageEntry m) = no_value (session_appendMessage ops m)"
| "write_pending ops (ModelChangeEntry provider modelId) = no_value (session_appendModelChange ops provider modelId)"
| "write_pending ops (ThinkingLevelChangeEntry level) = no_value (session_appendThinkingLevelChange ops level)"
| "write_pending ops (CustomEntry customType data) = no_value (session_appendCustomEntry ops customType data)"
| "write_pending ops (CustomMessageEntry customType content details display) =
     no_value (session_appendCustomMessageEntry ops customType content display details)"
| "write_pending ops (LabelEntry targetId label) = no_value (session_appendLabel ops targetId label)"
| "write_pending ops (SessionInfoEntry name) = no_value (session_appendSessionName ops (nullish name []))"
| "write_pending ops (LeafEntry targetId) = op_setLeafId ops targetId"
| "write_pending ops kind = (\<lambda>s h. (Inr (), s, h))"

text \<open>A write leaves the list once it has been done.\<close>

fun flush_writes ::
  "'s storage_ops \<Rightarrow> entry_kind list \<Rightarrow> 's \<Rightarrow> host \<Rightarrow> (session_error + unit) \<times> entry_kind list \<times> 's \<times> host" where
  "flush_writes ops [] s h = (Inr (), [], s, h)"
| "flush_writes ops (k # ks) s h =
     (case write_pending ops k s h of
        (Inl e, s', h') \<Rightarrow> (Inl e, k # ks, s', h')
      | (Inr u, s', h') \<Rightarrow> flush_writes ops ks s' h')"

definition flushPendingSessionWrites :: "('s, 't, 'x) hdeps \<Rightarrow> (('s, 't, 'x) harness, unit) step" where
  "flushPendingSessionWrites d w =
     (case flush_writes (hd_ops d) (ah_pendingWrites w) (ah_storage w) (ah_ids w) of
        (r, ks, s, h) \<Rightarrow>
          (map_sum Session_thrown id r, w\<lparr>ah_pendingWrites := ks, ah_storage := s, ah_ids := h\<rparr>))"

section \<open>The inputs of the loop\<close>

definition tool_call_event_of :: "tool_call \<Rightarrow> json \<Rightarrow> tool_call_event" where
  "tool_call_event_of c args = \<lparr>tce_toolCallId = call_id c, tce_toolName = call_name c, tce_input = args\<rparr>"

definition prepare_next_turn ::
  "('s, 't, 'x) hdeps \<Rightarrow> (('s, 't, 'x) harness, ('s, 't, 'x) harness turn_update option) step" where
  "prepare_next_turn d =
     step_then (flushPendingSessionWrites d) (\<lambda>_.
     step_then (createTurnState d) (\<lambda>ts.
     step_then (step_update (\<lambda>w. w\<lparr>ah_activeTurn := Some ts\<rparr>)) (\<lambda>_.
     step_ret (Some \<lparr>upd_context = Some (createContext d ts None), upd_model = Some (ts_model ts),
                     upd_thinkingLevel = Some (ts_thinkingLevel ts)\<rparr>))))"

definition harness_loop_config :: "('s, 't, 'x) hdeps \<Rightarrow> 't turn_state \<Rightarrow> ('s, 't, 'x) harness loop_config" where
  "harness_loop_config d ts =
     \<lparr>lc_model = ts_model ts,
      lc_reasoning = (if ts_thinkingLevel ts = TL_off then None else Some (ts_thinkingLevel ts)), lc_apiKey = None,
      lc_tools =
        \<lparr>cfg_toolExecution = None,
         cfg_beforeToolCall = Some (\<lambda>x. as_callback (emitHook (hd_toolCall d) (tool_call_event_of (btx_toolCall x) (btx_args x)))),
         cfg_afterToolCall = Some (\<lambda>x. as_callback (emitHook (hd_toolResult d)
           \<lparr>tre_call = tool_call_event_of (atx_toolCall x) (atx_args x), tre_content = res_content (atx_result x),
            tre_details = res_details (atx_result x), tre_isError = atx_isError x\<rparr>))\<rparr>,
      lc_convertToLlm = (\<lambda>ms w. (Inr (convertToLlm ms), w)),
      lc_transformContext = Some (\<lambda>ms. as_callback (step_then (emitHook (hd_context d) ms) (\<lambda>r. step_ret (nullish r ms)))),
      lc_getApiKey = None, lc_shouldStopAfterTurn = None,
      lc_prepareNextTurn = Some (\<lambda>x. as_callback (prepare_next_turn d)),
      lc_getSteeringMessages = Some (as_callback (drainQueuedMessages d Steer_queue)),
      lc_getFollowUpMessages = Some (as_callback (drainQueuedMessages d FollowUp_queue))\<rparr>"

section \<open>Events of the loop\<close>

definition persist_message :: "('s, 't, 'x) hdeps \<Rightarrow> agent_message \<Rightarrow> (('s, 't, 'x) harness, unit) step" where
  "persist_message d m = on_session (no_value (session_appendMessage (hd_ops d) m))"

definition end_turn :: "('s, 't, 'x) hdeps \<Rightarrow> agent_event \<Rightarrow> (('s, 't, 'x) harness, unit) step" where
  "end_turn d e w =
     (case emitAny d e w of (eventError, w1) \<Rightarrow>
        step_then (flushPendingSessionWrites d) (\<lambda>_.
          case eventError of
            Inl err \<Rightarrow> step_throw err
          | Inr u \<Rightarrow> emitOwn d (Save_point (ah_pendingWrites w1 \<noteq> []))) w1)"

definition close_run :: "('s, 't, 'x) hdeps \<Rightarrow> (('s, 't, 'x) harness, unit) step" where
  "close_run d =
     step_then (flushPendingSessionWrites d) (\<lambda>_. step_update (\<lambda>w. w\<lparr>ah_phase := Phase_idle\<rparr>))"

definition end_run :: "('s, 't, 'x) hdeps \<Rightarrow> agent_event \<Rightarrow> (('s, 't, 'x) harness, unit) step" where
  "end_run d e =
     step_then (close_run d) (\<lambda>_.
     step_then (emitAny d e) (\<lambda>_ w. emitOwn d (Settled (length (ah_nextTurnQueue w))) w))"

definition handleAgentEvent :: "('s, 't, 'x) hdeps \<Rightarrow> agent_event \<Rightarrow> (('s, 't, 'x) harness, unit) step" where
  "handleAgentEvent d e =
     (case e of
        Message_end m \<Rightarrow> step_then (persist_message d m) (\<lambda>_. emitAny d e)
      | Turn_end m rs \<Rightarrow> end_turn d e
      | Agent_end ms \<Rightarrow> end_run d e
      | _ \<Rightarrow> emitAny d e)"

definition loop_tool_env :: "('s, 't, 'x) hdeps \<Rightarrow> ('s, 't, 'x) harness tool_env" where
  "loop_tool_env d = \<lparr>env_emit = (\<lambda>e. as_callback (handleAgentEvent d e)),
     env_validateToolArguments = hd_validateToolArguments d, env_now = hd_now d, env_schedule = hd_schedule d\<rparr>"

text \<open>Reporting a failed run; a list of events, as the loop emits them.\<close>

definition failure_events :: "assistant_message \<Rightarrow> agent_event list" where
  "failure_events f =
     (let m = assistant_agent_message f in [Message_start m, Message_end m, Turn_end m [], Agent_end [m]])"

definition emitRunFailure ::
  "('s, 't, 'x) hdeps \<Rightarrow> llm_model \<Rightarrow> jerror \<Rightarrow> bool \<Rightarrow>
   (agent_event, ('s, 't, 'x) harness, agent_message list) act" where
  "emitRunFailure d model err aborted =
     and_then (asks (\<lambda>w. createFailureMessage (hd_now d w) model err aborted)) (\<lambda>f.
     and_then (for_each (failure_events f) (emit (\<lambda>e. as_callback (handleAgentEvent d e)))) (\<lambda>_.
     ret [assistant_agent_message f]))"

section \<open>Running a turn\<close>

definition last_assistant :: "agent_message list \<Rightarrow> assistant_message option" where
  "last_assistant ms =
     (case find is_assistant (rev ms) of Some (Llm (AssistantM m)) \<Rightarrow> Some m | _ \<Rightarrow> None)"

text \<open>The messages of the next turn that were queued, followed by the prompt.\<close>

definition turn_messages ::
  "('s, 't, 'x) hdeps \<Rightarrow> jstr \<Rightarrow> image_content list option \<Rightarrow> (('s, 't, 'x) harness, agent_message list) step" where
  "turn_messages d s images w =
     (let m = createUserMessage (hd_now d w) s images; queued = ah_nextTurnQueue w in
      if queued = [] then (Inr [m], w)
      else
        (case emitQueueUpdate d (w\<lparr>ah_nextTurnQueue := []\<rparr>) of
           (Inr u, w1) \<Rightarrow> (Inr (queued @ [m]), w1)
         | (Inl e, w1) \<Rightarrow>
             (Inl (Harness_thrown (normalizeHookError e)), w1\<lparr>ah_nextTurnQueue := queued @ ah_nextTurnQueue w1\<rparr>)))"

text \<open>\<^verbatim>\<open>runResultPromise\<close>: the loop, and the report when it throws.\<close>

definition run_result ::
  "nat \<Rightarrow> ('s, 't, 'x) hdeps \<Rightarrow> agent_message list \<Rightarrow> ('s, 't, 'x) harness agent_context \<Rightarrow>
   (agent_event, ('s, 't, 'x) harness) rt \<Rightarrow>
   ((thrown + agent_message list) \<times> (agent_event, ('s, 't, 'x) harness) rt) option" where
  "run_result n d messages ctx s =
     (case runAgentLoop n (loop_tool_env d) (createStreamFn d) messages ctx (harness_loop_config d (turn_of (world s))) s of
        None \<Rightarrow> None
      | Some (Inr ms, s1) \<Rightarrow> Some (Inr ms, s1)
      | Some (Inl err, s1) \<Rightarrow>
          (case emitRunFailure d (ts_model (turn_of (world s1))) err (ah_abort (world s1) = Some True) s1 of
             (Inr ms, s2) \<Rightarrow> Some (Inr ms, s2)
           | (Inl e, s2) \<Rightarrow>
               Some (Inl (own_error HE_unknown ''Agent run failed and failure reporting failed''), s2)))"

text \<open>The \<^verbatim>\<open>finally\<close> of \<^verbatim>\<open>executeTurn\<close>.\<close>

definition close_turn ::
  "('s, 't, 'x) hdeps \<Rightarrow> thrown + 'a \<Rightarrow> (('s, 't, 'x) harness, 'a) step" where
  "close_turn d r w =
     (case flushPendingSessionWrites d w of
        (Inl e, w1) \<Rightarrow> (Inl e, w1\<lparr>ah_abort := None\<rparr>)
      | (Inr u, w1) \<Rightarrow> (r, w1\<lparr>ah_abort := None\<rparr>))"

definition answer_of :: "agent_message list \<Rightarrow> thrown + assistant_message" where
  "answer_of ms =
     (case last_assistant ms of
        Some m \<Rightarrow> Inr m
      | None \<Rightarrow> Inl (own_error HE_invalid_state ''AgentHarness prompt completed without an assistant message''))"

text \<open>What precedes the run: the messages and the result of the hook.\<close>

definition open_turn ::
  "('s, 't, 'x) hdeps \<Rightarrow> 't turn_state \<Rightarrow> jstr \<Rightarrow> image_content list option \<Rightarrow>
   (('s, 't, 'x) harness, agent_message list \<times> jstr option) step" where
  "open_turn d ts s images =
     step_then (turn_messages d s images) (\<lambda>messages.
     step_then (emitHook (hd_beforeAgentStart d)
         \<lparr>bs_prompt = s, bs_images = images, bs_systemPrompt = ts_systemPrompt ts, bs_resources = ts_resources ts\<rparr>) (\<lambda>r.
     step_ret (messages @ nullish (Option.bind r bs_messages) [], Option.bind r bs_newSystemPrompt)))"

definition executeTurn ::
  "nat \<Rightarrow> ('s, 't, 'x) hdeps \<Rightarrow> 't turn_state \<Rightarrow> jstr \<Rightarrow> image_content list option \<Rightarrow> ('s, 't, 'x) harness \<Rightarrow>
   ((thrown + assistant_message) \<times> ('s, 't, 'x) harness) option" where
  "executeTurn n d ts s images w =
     (case open_turn d ts s images w of
        (Inl e, w1) \<Rightarrow> Some (Inl e, w1)
      | (Inr (messages, systemPrompt), w1) \<Rightarrow>
          (case run_result n d messages (createContext d ts systemPrompt)
                  \<lparr>emitted = [], world = w1\<lparr>ah_activeTurn := Some ts, ah_abort := Some False\<rparr>\<rparr> of
             None \<Rightarrow> None
           | Some (r, s1) \<Rightarrow> Some (close_turn d (case r of Inl e \<Rightarrow> Inl e | Inr ms \<Rightarrow> answer_of ms) (world s1))))"

section \<open>Prompting\<close>

definition busy_error :: "string \<Rightarrow> harness_error" where
  "busy_error m = \<lparr>he_code = HE_busy, he_message = js m\<rparr>"

definition settle_run ::
  "thrown + 'a \<Rightarrow> ('s, 't, 'x) harness \<Rightarrow> (harness_error + 'a) \<times> ('s, 't, 'x) harness" where
  "settle_run r w =
     (case r of
        Inl e \<Rightarrow> (Inl (normalizeHarnessError e HE_unknown), w\<lparr>ah_phase := Phase_idle, ah_running := False\<rparr>)
      | Inr a \<Rightarrow> (Inr a, w\<lparr>ah_running := False\<rparr>))"

text \<open>
  The body that \<^verbatim>\<open>prompt\<close>, \<^verbatim>\<open>skill\<close> and \<^verbatim>\<open>promptFromTemplate\<close> share; \<open>pick\<close> gives the text and images of
  the prompt from the state of the turn.
\<close>

definition run_prompt ::
  "nat \<Rightarrow> ('s, 't, 'x) hdeps \<Rightarrow> ('t turn_state \<Rightarrow> thrown + jstr \<times> image_content list option) \<Rightarrow> ('s, 't, 'x) harness \<Rightarrow>
   ((harness_error + assistant_message) \<times> ('s, 't, 'x) harness) option" where
  "run_prompt n d pick w =
     (if ah_phase w \<noteq> Phase_idle then Some (Inl (busy_error ''AgentHarness is busy''), w)
      else
        (case createTurnState d (w\<lparr>ah_phase := Phase_turn, ah_running := True\<rparr>) of
           (Inl e, w1) \<Rightarrow> Some (settle_run (Inl e) w1)
         | (Inr ts, w1) \<Rightarrow>
             (case pick ts of
                Inl e \<Rightarrow> Some (settle_run (Inl e) w1)
              | Inr (s, images) \<Rightarrow>
                  map_option (\<lambda>(r, w2). settle_run r w2) (executeTurn n d ts s images w1))))"

definition pick_text :: "jstr \<Rightarrow> image_content list option \<Rightarrow> 't turn_state \<Rightarrow> thrown + jstr \<times> image_content list option" where
  "pick_text s images ts = Inr (s, images)"

definition pick_skill :: "jstr \<Rightarrow> jstr option \<Rightarrow> 't turn_state \<Rightarrow> thrown + jstr \<times> image_content list option" where
  "pick_skill name additionalInstructions ts =
     (case find (\<lambda>c. sk_name c = name) (nullish (re_skills (ts_resources ts)) []) of
        None \<Rightarrow> Inl (Harness_thrown \<lparr>he_code = HE_invalid_argument, he_message = js ''Unknown skill: '' @ name\<rparr>)
      | Some skill \<Rightarrow> Inr (formatSkillInvocation skill additionalInstructions, None))"

definition pick_template :: "jstr \<Rightarrow> jstr list \<Rightarrow> 't turn_state \<Rightarrow> thrown + jstr \<times> image_content list option" where
  "pick_template name args ts =
     (case find (\<lambda>c. pt_name c = name) (nullish (re_promptTemplates (ts_resources ts)) []) of
        None \<Rightarrow>
          Inl (Harness_thrown \<lparr>he_code = HE_invalid_argument, he_message = js ''Unknown prompt template: '' @ name\<rparr>)
      | Some template \<Rightarrow> Inr (formatPromptTemplateInvocation template args, None))"

definition harness_prompt ::
  "nat \<Rightarrow> ('s, 't, 'x) hdeps \<Rightarrow> jstr \<Rightarrow> image_content list option \<Rightarrow> ('s, 't, 'x) harness \<Rightarrow>
   ((harness_error + assistant_message) \<times> ('s, 't, 'x) harness) option" where
  "harness_prompt n d s images = run_prompt n d (pick_text s images)"

definition harness_skill ::
  "nat \<Rightarrow> ('s, 't, 'x) hdeps \<Rightarrow> jstr \<Rightarrow> jstr option \<Rightarrow> ('s, 't, 'x) harness \<Rightarrow>
   ((harness_error + assistant_message) \<times> ('s, 't, 'x) harness) option" where
  "harness_skill n d name additionalInstructions = run_prompt n d (pick_skill name additionalInstructions)"

definition promptFromTemplate ::
  "nat \<Rightarrow> ('s, 't, 'x) hdeps \<Rightarrow> jstr \<Rightarrow> jstr list \<Rightarrow> ('s, 't, 'x) harness \<Rightarrow>
   ((harness_error + assistant_message) \<times> ('s, 't, 'x) harness) option" where
  "promptFromTemplate n d name args = run_prompt n d (pick_template name args)"

definition harness_steer ::
  "('s, 't, 'x) hdeps \<Rightarrow> jstr \<Rightarrow> image_content list option \<Rightarrow> (('s, 't, 'x) harness, unit) step" where
  "harness_steer d s images w =
     (if ah_phase w = Phase_idle then (Inl (own_error HE_invalid_state ''Cannot steer while idle''), w)
      else emitQueueUpdate d (w\<lparr>ah_steerQueue := ah_steerQueue w @ [createUserMessage (hd_now d w) s images]\<rparr>))"

definition harness_followUp ::
  "('s, 't, 'x) hdeps \<Rightarrow> jstr \<Rightarrow> image_content list option \<Rightarrow> (('s, 't, 'x) harness, unit) step" where
  "harness_followUp d s images w =
     (if ah_phase w = Phase_idle then (Inl (own_error HE_invalid_state ''Cannot follow up while idle''), w)
      else emitQueueUpdate d (w\<lparr>ah_followUpQueue := ah_followUpQueue w @ [createUserMessage (hd_now d w) s images]\<rparr>))"

definition harness_nextTurn ::
  "('s, 't, 'x) hdeps \<Rightarrow> jstr \<Rightarrow> image_content list option \<Rightarrow> (('s, 't, 'x) harness, unit) step" where
  "harness_nextTurn d s images w =
     emitQueueUpdate d (w\<lparr>ah_nextTurnQueue := ah_nextTurnQueue w @ [createUserMessage (hd_now d w) s images]\<rparr>)"

section \<open>Session writes\<close>

text \<open>A write goes to the session when the harness is idle and waits otherwise.\<close>

definition write_or_queue ::
  "('s, 't, 'x) hdeps \<Rightarrow> entry_kind \<Rightarrow> (('s, 't, 'x) harness, unit) step" where
  "write_or_queue d kind w =
     (if ah_phase w = Phase_idle then on_session (write_pending (hd_ops d) kind) w
      else (Inr (), w\<lparr>ah_pendingWrites := ah_pendingWrites w @ [kind]\<rparr>))"

definition normalize_step :: "harness_error_code \<Rightarrow> ('w, 'a) step \<Rightarrow> ('w, 'a) step" where
  "normalize_step c m = step_rethrow (\<lambda>e. Harness_thrown (normalizeHarnessError e c)) m"

definition harness_appendMessage :: "('s, 't, 'x) hdeps \<Rightarrow> agent_message \<Rightarrow> (('s, 't, 'x) harness, unit) step" where
  "harness_appendMessage d m = normalize_step HE_session (write_or_queue d (MessageEntry m))"

definition setModel :: "('s, 't, 'x) hdeps \<Rightarrow> llm_model \<Rightarrow> (('s, 't, 'x) harness, unit) step" where
  "setModel d model w =
     normalize_step HE_session
       (step_then (write_or_queue d (ModelChangeEntry (model_provider model) (model_id model))) (\<lambda>_.
        step_then (step_update (\<lambda>w. w\<lparr>ah_model := model\<rparr>)) (\<lambda>_.
        emitOwn d (Model_select model (ah_model w))))) w"

definition setThinkingLevel :: "('s, 't, 'x) hdeps \<Rightarrow> thinking_level \<Rightarrow> (('s, 't, 'x) harness, unit) step" where
  "setThinkingLevel d level w =
     normalize_step HE_session
       (step_then (write_or_queue d (ThinkingLevelChangeEntry (thinking_level_text level))) (\<lambda>_.
        step_then (step_update (\<lambda>w. w\<lparr>ah_thinkingLevel := level\<rparr>)) (\<lambda>_.
        emitOwn d (Thinking_level_select level (ah_thinkingLevel w))))) w"

section \<open>Compaction and navigation\<close>

text \<open>The phase holds during the body and is idle afterwards, whatever the body throws.\<close>

definition in_phase ::
  "harness_phase \<Rightarrow> string \<Rightarrow> harness_error_code \<Rightarrow> (('s, 't, 'x) harness, 'a) step \<Rightarrow> ('s, 't, 'x) harness \<Rightarrow>
   (harness_error + 'a) \<times> ('s, 't, 'x) harness" where
  "in_phase phase busy fallbackCode body w =
     (if ah_phase w \<noteq> Phase_idle then (Inl (busy_error busy), w)
      else
        (case body (w\<lparr>ah_phase := phase\<rparr>) of
           (Inl e, w1) \<Rightarrow> (Inl (normalizeHarnessError e fallbackCode), w1\<lparr>ah_phase := Phase_idle\<rparr>)
         | (Inr a, w1) \<Rightarrow> (Inr a, w1\<lparr>ah_phase := Phase_idle\<rparr>)))"

text \<open>The compaction that the hook provides, or the one the model writes.\<close>

definition compaction_of ::
  "('s, 't, 'x) hdeps \<Rightarrow> compaction_preparation \<Rightarrow> llm_model \<Rightarrow> auth \<Rightarrow> jstr option \<Rightarrow> before_compact_result option \<Rightarrow>
   (('s, 't, 'x) harness, harness_compact_result \<times> bool) step" where
  "compaction_of d p model auth customInstructions hookResult w =
     (case Option.bind hookResult bc_compaction of
        Some provided \<Rightarrow> (Inr (provided, True), w)
      | None \<Rightarrow>
          (case compact (hd_completion d) p model (au_apiKey auth) (au_headers auth) customInstructions
                  (Some (ah_thinkingLevel w)) w of
             (Inl e, w1) \<Rightarrow> (Inl (Other_thrown e), w1)
           | (Inr (Inl e), w1) \<Rightarrow> (Inl (Compaction_thrown e), w1)
           | (Inr (Inr r), w1) \<Rightarrow>
               (Inr (\<lparr>hc_summary = cr_summary r, hc_firstKeptEntryId = cr_firstKeptEntryId r,
                      hc_tokensBefore = cr_tokensBefore r, hc_details = Some (cr_details r)\<rparr>, False), w1)))"

definition announce_compaction ::
  "('s, 't, 'x) hdeps \<Rightarrow> jstr \<Rightarrow> bool \<Rightarrow> (('s, 't, 'x) harness, unit) step" where
  "announce_compaction d entryId fromHook w =
     (case op_getEntry (hd_ops d) (ah_storage w) entryId of
        None \<Rightarrow> (Inr (), w)
      | Some e \<Rightarrow> if kind_type (en_kind e) = ET_compaction then emitOwn d (Session_compact e fromHook) w else (Inr (), w))"

definition write_compaction ::
  "('s, 't, 'x) hdeps \<Rightarrow> harness_compact_result \<times> bool \<Rightarrow> (('s, 't, 'x) harness, harness_compact_result) step" where
  "write_compaction d p =
     (case p of (r, fromHook) \<Rightarrow>
        step_then (on_session (session_appendCompaction (hd_ops d) (hc_summary r) (hc_firstKeptEntryId r)
                     (hc_tokensBefore r) (hc_details r) (Some fromHook))) (\<lambda>entryId.
        step_then (announce_compaction d entryId fromHook) (\<lambda>_. step_ret r)))"

definition compact_body ::
  "('s, 't, 'x) hdeps \<Rightarrow> jstr option \<Rightarrow> (('s, 't, 'x) harness, harness_compact_result) step" where
  "compact_body d customInstructions w =
     (let model = ah_model w in
      step_then (request_auth d model) (\<lambda>a.
        case a of
          None \<Rightarrow> step_throw (own_error HE_auth ''No auth available for compaction'')
        | Some auth \<Rightarrow>
            step_then (ask_session (\<lambda>s. of_walk (session_getBranch (hd_ops d) None s))) (\<lambda>branchEntries.
            case prepareCompaction (hd_getTime d) branchEntries DEFAULT_COMPACTION_SETTINGS of
              Inl e \<Rightarrow> step_throw (Compaction_thrown e)
            | Inr None \<Rightarrow> step_throw (own_error HE_compaction ''Nothing to compact'')
            | Inr (Some p) \<Rightarrow>
                step_then (emitHook (hd_beforeCompact d) \<lparr>bc_preparation = p, bc_branchEntries = branchEntries,
                    bc_customInstructions = customInstructions\<rparr>) (\<lambda>r.
                  if Option.bind r bc_cancel = Some True then step_throw (own_error HE_compaction ''Compaction cancelled'')
                  else step_then (compaction_of d p model auth customInstructions r) (write_compaction d)))) w)"

definition harness_compact ::
  "('s, 't, 'x) hdeps \<Rightarrow> jstr option \<Rightarrow> ('s, 't, 'x) harness \<Rightarrow>
   (harness_error + harness_compact_result) \<times> ('s, 't, 'x) harness" where
  "harness_compact d customInstructions =
     in_phase Phase_compaction ''compact() requires idle harness'' HE_compaction (compact_body d customInstructions)"

record navigate_options =
  no_summarize :: "bool option"
  no_customInstructions :: "jstr option"
  no_replaceInstructions :: "bool option"
  no_label :: "jstr option"

record navigate_result =
  nr_cancelled :: bool
  nr_editorText :: "jstr option"
  nr_summaryEntry :: "entry option"

definition cancelled :: "bool \<Rightarrow> navigate_result" where
  "cancelled c = \<lparr>nr_cancelled = c, nr_editorText = None, nr_summaryEntry = None\<rparr>"

fun content_text :: "message_content \<Rightarrow> jstr" where
  "content_text (PlainText s) = s"
| "content_text (Blocks bs) = concat (List.map_filter (\<lambda>b. case b of TextBlock t \<Rightarrow> Some (tc_text t) | ImageBlock i \<Rightarrow> None) bs)"

text \<open>The new leaf, and the text for the editor when the target is a message that can be edited.\<close>

definition navigation_target :: "entry \<Rightarrow> jstr option \<times> jstr option" where
  "navigation_target e =
     (case en_kind e of
        MessageEntry (Llm (UserM m)) \<Rightarrow> (en_parentId e, Some (content_text (um_content m)))
      | CustomMessageEntry customType content details display \<Rightarrow> (en_parentId e, Some (content_text content))
      | _ \<Rightarrow> (Some (en_id e), None))"

definition summary_details :: "branch_summary_result \<Rightarrow> json" where
  "summary_details r =
     JObj [(js ''readFiles'', JArr (map JStr (br_readFiles r))), (js ''modifiedFiles'', JArr (map JStr (br_modifiedFiles r)))]"

text \<open>The summary of the hook, or the one the model writes; an outer \<open>None\<close> is a summary that was aborted.\<close>

definition branch_summary_of ::
  "('s, 't, 'x) hdeps \<Rightarrow> navigate_options \<Rightarrow> entry list \<Rightarrow> before_tree_result option \<Rightarrow>
   (('s, 't, 'x) harness, (jstr \<times> json option) option option) step" where
  "branch_summary_of d opts es hookResult w =
     (let given = Option.bind hookResult bt_summary in
      if truthy_str (map_option fst given) \<or> no_summarize opts \<noteq> Some True \<or> es = [] then (Inr (Some given), w)
      else
        (let model = ah_model w in
         step_then (request_auth d model) (\<lambda>a.
           case a of
             None \<Rightarrow> step_throw (own_error HE_auth ''No auth available for branch summary'')
           | Some auth \<Rightarrow>
               step_then (from_callback (generateBranchSummary (hd_completion d) (hd_getTime d) es
                   \<lparr>bo_model = model, bo_apiKey = au_apiKey auth, bo_headers = au_headers auth,
                    bo_customInstructions = nullish_opt (Option.bind hookResult bt_customInstructions) (no_customInstructions opts),
                    bo_replaceInstructions = nullish_opt (Option.bind hookResult bt_replaceInstructions) (no_replaceInstructions opts),
                    bo_reserveTokens = None\<rparr>)) (\<lambda>r.
                 case r of
                   Inl e \<Rightarrow> (if be_code e = BE_aborted then step_ret None
                             else step_throw (Harness_thrown \<lparr>he_code = HE_branch_summary, he_message = be_message e\<rparr>))
                 | Inr b \<Rightarrow> step_ret (Some (Some (br_summary b, Some (summary_details b)))))) w))"

text \<open>Moving the leaf and reporting it.\<close>

definition move_and_report ::
  "('s, 't, 'x) hdeps \<Rightarrow> entry \<Rightarrow> jstr option \<Rightarrow> (jstr \<times> json option) option \<Rightarrow> bool \<Rightarrow>
   (('s, 't, 'x) harness, navigate_result) step" where
  "move_and_report d target oldLeafId summary fromHook =
     (case navigation_target target of (newLeafId, editorText) \<Rightarrow>
        step_then (on_session (session_moveTo (hd_ops d) newLeafId
            (if truthy_str (map_option fst summary)
             then Some \<lparr>si_summary = fst (the summary), si_details = snd (the summary), si_fromHook = Some fromHook\<rparr>
             else None))) (\<lambda>summaryId.
        step_then (ask_session (\<lambda>s. Inr (if truthy_str summaryId then op_getEntry (hd_ops d) s (the summaryId) else None))) (\<lambda>e.
        let summaryEntry = (case e of Some x \<Rightarrow> if kind_type (en_kind x) = ET_branch_summary then Some x else None | None \<Rightarrow> None) in
        step_then (ask_session (\<lambda>s. lift_session_error (op_getLeafId (hd_ops d) s))) (\<lambda>leaf.
        step_then (emitOwn d (Session_tree leaf oldLeafId summaryEntry fromHook)) (\<lambda>_.
        step_ret \<lparr>nr_cancelled = False, nr_editorText = editorText, nr_summaryEntry = summaryEntry\<rparr>)))))"

definition tree_preparation_of ::
  "navigate_options \<Rightarrow> jstr \<Rightarrow> jstr option \<Rightarrow> collected_entries \<Rightarrow> tree_preparation" where
  "tree_preparation_of opts targetId oldLeafId c =
     \<lparr>tp_targetId = targetId, tp_oldLeafId = oldLeafId, tp_commonAncestorId = ce_commonAncestorId c,
      tp_entriesToSummarize = ce_entries c, tp_userWantsSummary = nullish (no_summarize opts) False,
      tp_customInstructions = no_customInstructions opts, tp_replaceInstructions = no_replaceInstructions opts,
      tp_label = no_label opts\<rparr>"

definition navigate_body ::
  "('s, 't, 'x) hdeps \<Rightarrow> jstr \<Rightarrow> navigate_options \<Rightarrow> (('s, 't, 'x) harness, navigate_result) step" where
  "navigate_body d targetId opts =
     step_then (ask_session (\<lambda>s. lift_session_error (op_getLeafId (hd_ops d) s))) (\<lambda>oldLeafId.
     if oldLeafId = Some targetId then step_ret (cancelled False)
     else
       step_then (ask_session (\<lambda>s. Inr (op_getEntry (hd_ops d) s targetId))) (\<lambda>target.
       case target of
         None \<Rightarrow> step_throw (Harness_thrown \<lparr>he_code = HE_invalid_argument,
             he_message = js ''Entry '' @ targetId @ js '' not found''\<rparr>)
       | Some e \<Rightarrow>
           step_then (ask_session (\<lambda>s. of_walk (collectEntriesForBranchSummary (hd_ops d) s oldLeafId targetId))) (\<lambda>c.
           step_then (emitHook (hd_beforeTree d) (tree_preparation_of opts targetId oldLeafId c)) (\<lambda>r.
             if Option.bind r bt_cancel = Some True then step_ret (cancelled True)
             else
               step_then (branch_summary_of d opts (ce_entries c) r) (\<lambda>summary.
                 case summary of
                   None \<Rightarrow> step_ret (cancelled True)
                 | Some su \<Rightarrow> move_and_report d e oldLeafId su (Option.bind r bt_summary \<noteq> None))))))"

definition navigateTree ::
  "('s, 't, 'x) hdeps \<Rightarrow> jstr \<Rightarrow> navigate_options \<Rightarrow> ('s, 't, 'x) harness \<Rightarrow>
   (harness_error + navigate_result) \<times> ('s, 't, 'x) harness" where
  "navigateTree d targetId opts =
     in_phase Phase_branch_summary ''navigateTree() requires idle harness'' HE_branch_summary (navigate_body d targetId opts)"

section \<open>Settings\<close>

definition validateToolNames :: "jstr list \<Rightarrow> (jstr \<times> 't) list \<Rightarrow> thrown + unit" where
  "validateToolNames toolNames tools =
     (let missing = filter (\<lambda>n. map_of tools n = None) toolNames in
      if missing \<noteq> []
      then Inl (Harness_thrown \<lparr>he_code = HE_invalid_argument,
             he_message = js ''Unknown tool(s): '' @ join_with (js '', '') missing\<rparr>)
      else Inr ())"

definition setActiveTools :: "jstr list \<Rightarrow> (('s, 't, 'x) harness, unit) step" where
  "setActiveTools toolNames w =
     normalize_step HE_invalid_argument (\<lambda>w.
       case validateToolNames toolNames (ah_tools w) of
         Inl e \<Rightarrow> (Inl e, w)
       | Inr u \<Rightarrow> (Inr (), w\<lparr>ah_activeToolNames := toolNames\<rparr>)) w"

definition setTools ::
  "('s, 't, 'w) harness_deps \<Rightarrow> 't list \<Rightarrow> jstr list option \<Rightarrow> (('s, 't, 'x) harness, unit) step" where
  "setTools d tools activeToolNames w =
     normalize_step HE_invalid_argument (\<lambda>w.
       let nextTools = tool_map (\<lambda>t. tool_name (hd_tool d t)) tools;
           nextActive = nullish activeToolNames (ah_activeToolNames w) in
       case validateToolNames nextActive nextTools of
         Inl e \<Rightarrow> (Inl e, w)
       | Inr u \<Rightarrow> (Inr (), w\<lparr>ah_tools := nextTools, ah_activeToolNames := nextActive\<rparr>)) w"

definition setSteeringMode :: "queue_mode \<Rightarrow> ('s, 't, 'x) harness \<Rightarrow> ('s, 't, 'x) harness" where
  "setSteeringMode mode w = w\<lparr>ah_steeringMode := mode\<rparr>"

definition setFollowUpMode :: "queue_mode \<Rightarrow> ('s, 't, 'x) harness \<Rightarrow> ('s, 't, 'x) harness" where
  "setFollowUpMode mode w = w\<lparr>ah_followUpMode := mode\<rparr>"

definition setResources :: "('s, 't, 'x) hdeps \<Rightarrow> harness_resources \<Rightarrow> (('s, 't, 'x) harness, unit) step" where
  "setResources d resources w =
     (let w1 = w\<lparr>ah_resources := resources\<rparr> in emitOwn d (Resources_update (getResources w1) (getResources w)) w1)"

definition getStreamOptions :: "('s, 't, 'x) harness \<Rightarrow> stream_options" where
  "getStreamOptions w = cloneStreamOptions (Some (ah_streamOptions w))"

definition setStreamOptions :: "stream_options \<Rightarrow> ('s, 't, 'x) harness \<Rightarrow> ('s, 't, 'x) harness" where
  "setStreamOptions options w = w\<lparr>ah_streamOptions := cloneStreamOptions (Some options)\<rparr>"

section \<open>Aborting\<close>

text \<open>
  \<^verbatim>\<open>abort\<close> clears the queues and signals at once; what follows the wait for the run is the second half.
  The first half gives the errors so far and the cleared queues.
\<close>

definition abort_signal ::
  "('s, 't, 'x) hdeps \<Rightarrow> ('s, 't, 'x) harness \<Rightarrow>
   (thrown list \<times> agent_message list \<times> agent_message list) \<times> ('s, 't, 'x) harness" where
  "abort_signal d w =
     (let w1 = w\<lparr>ah_steerQueue := [], ah_followUpQueue := [], ah_queueEpoch := Suc (ah_queueEpoch w),
                 ah_abort := map_option (\<lambda>_. True) (ah_abort w)\<rparr> in
      case emitQueueUpdate d w1 of
        (Inl e, w2) \<Rightarrow> (([e], ah_steerQueue w, ah_followUpQueue w), w2)
      | (Inr u, w2) \<Rightarrow> (([], ah_steerQueue w, ah_followUpQueue w), w2))"

definition abort_errors :: "thrown list \<Rightarrow> thrown" where
  "abort_errors es = (case es of [e] \<Rightarrow> e | _ \<Rightarrow> Other_thrown (js ''Abort completed with errors''))"

definition abort_settle ::
  "('s, 't, 'x) hdeps \<Rightarrow> thrown list \<times> agent_message list \<times> agent_message list \<Rightarrow>
   (('s, 't, 'x) harness, agent_message list \<times> agent_message list) step" where
  "abort_settle d st w =
     (case st of (errors, steer, followUp) \<Rightarrow>
        (case emitOwn d (Abort_event steer followUp) w of (r, w1) \<Rightarrow>
           let errors = errors @ (case r of Inl e \<Rightarrow> [e] | Inr u \<Rightarrow> []) in
           if errors \<noteq> [] then (Inl (Harness_thrown (normalizeHarnessError (abort_errors errors) HE_hook)), w1)
           else (Inr (steer, followUp), w1)))"

end
