(* ===== verification/Harness_Runs.thy ===== *)
theory Harness_Runs
  imports Agent_Harness
begin

text \<open>
  What a run of the harness does to its world, for any law that the harness's own steps keep (\<open>harness_law\<close>): when the
  callbacks that it is given keep the law too, every action of the harness does, and so a whole run over the loop does
  (\<open>agent_law\<close>). The law about the session is \<open>records\<close>, in \<open>Harness_Records\<close>.
\<close>

section \<open>Steps and laws\<close>

definition step_obeys :: "('w \<Rightarrow> agent_event list \<Rightarrow> 'w \<Rightarrow> bool) \<Rightarrow> agent_event list \<Rightarrow> ('w, 'a) step \<Rightarrow> bool" where
  "step_obeys P ts m \<longleftrightarrow> (\<forall>w. P w ts (snd (m w)))"

lemma callback_of_step: "step_obeys P [] m \<Longrightarrow> callback_obeys P (as_callback m)"
  by (auto simp: step_obeys_def callback_obeys_def as_callback_def split: prod.splits) (metis snd_conv)

lemma step_of_callback: "callback_obeys P m \<Longrightarrow> step_obeys P [] (from_callback m)"
  by (auto simp: step_obeys_def callback_obeys_def from_callback_def split: prod.splits) (metis snd_conv)

lemma step_obeys_rethrow [intro]: "step_obeys P ts m \<Longrightarrow> step_obeys P ts (step_rethrow f m)"
  by (auto simp: step_obeys_def step_rethrow_def split: prod.splits sum.splits) (metis snd_conv)+

lemma step_obeys_hook_error [intro]: "step_obeys P ts m \<Longrightarrow> step_obeys P ts (as_hook_error m)"
  unfolding as_hook_error_def by (rule step_obeys_rethrow)

context agent_law
begin

lemma step_ret_obeys [intro]: "step_obeys P [] (step_ret a)"
  by (simp add: step_obeys_def step_ret_def idle)

lemma step_throw_obeys [intro]: "step_obeys P [] (step_throw e)"
  by (simp add: step_obeys_def step_throw_def idle)

lemma step_then_obeys:
  assumes "step_obeys P ts m" and "\<And>a. step_obeys P us (f a)" and "us = []"
  shows "step_obeys P ts (step_then m f)"
proof -
  have "P w ts (snd (step_then m f w))" for w
  proof (cases "m w")
    case (Pair r w')
    then have first: "P w ts w'" using assms(1) by (metis step_obeys_def snd_conv)
    show ?thesis
    proof (cases r)
      case (Inl e)
      with first Pair show ?thesis by (simp add: step_then_def)
    next
      case (Inr a)
      have "P w' us (snd (f a w'))" using assms(2) by (simp add: step_obeys_def)
      from run_on [OF first this] Pair Inr assms(3) show ?thesis by (simp add: step_then_def)
    qed
  qed
  then show ?thesis by (simp add: step_obeys_def)
qed

lemma notify_obeys:
  "\<forall>l\<in>set ls. step_obeys P [] (l e) \<Longrightarrow> step_obeys P [] (notify_subscribers ls e)"
  by (induction ls) (auto intro: step_then_obeys)

lemma run_hooks_obey: "\<forall>h\<in>set hs. step_obeys P [] (h e) \<Longrightarrow> step_obeys P [] (run_hooks hs e r)"
  by (induction hs arbitrary: r) (auto intro: step_then_obeys)

lemma patch_request_obeys:
  "\<forall>h\<in>set hs. \<forall>e. step_obeys P [] (h e) \<Longrightarrow> step_obeys P [] (patch_request hs model i current)"
  by (induction hs arbitrary: current) (auto intro!: step_then_obeys)

lemma as_callback_obeys: "step_obeys P [] m \<Longrightarrow> callback_obeys P (as_callback m)"
  by (rule callback_of_step)

end

section \<open>Callbacks that keep a law\<close>

definition subscribers_obey ::
  "('w \<Rightarrow> agent_event list \<Rightarrow> 'w \<Rightarrow> bool) \<Rightarrow> ('s, 't, 'w) harness_deps \<Rightarrow> bool" where
  "subscribers_obey P d \<longleftrightarrow> (\<forall>l\<in>set (hd_subscribers d). \<forall>e. step_obeys P [] (l e))"

definition hooks_obey ::
  "('w \<Rightarrow> agent_event list \<Rightarrow> 'w \<Rightarrow> bool) \<Rightarrow> ('s, 't, 'w) harness_deps \<Rightarrow> bool" where
  "hooks_obey P d \<longleftrightarrow>
     (\<forall>h\<in>set (hd_beforeAgentStart d). \<forall>e. step_obeys P [] (h e))
   \<and> (\<forall>h\<in>set (hd_context d). \<forall>e. step_obeys P [] (h e))
   \<and> (\<forall>h\<in>set (hd_beforeProviderRequest d). \<forall>e. step_obeys P [] (h e))
   \<and> (\<forall>h\<in>set (hd_toolCall d). \<forall>e. step_obeys P [] (h e))
   \<and> (\<forall>h\<in>set (hd_toolResult d). \<forall>e. step_obeys P [] (h e))
   \<and> (\<forall>h\<in>set (hd_beforeCompact d). \<forall>e. step_obeys P [] (h e))
   \<and> (\<forall>h\<in>set (hd_beforeTree d). \<forall>e. step_obeys P [] (h e))
   \<and> (\<forall>f x. hd_systemPrompt d = Some (Computed_prompt f) \<longrightarrow> step_obeys P [] (f x))
   \<and> (\<forall>f model. hd_getApiKeyAndHeaders d = Some f \<longrightarrow> step_obeys P [] (f model))"

definition host_obeys ::
  "('w \<Rightarrow> agent_event list \<Rightarrow> 'w \<Rightarrow> bool) \<Rightarrow> ('s, 't, 'w) harness_deps \<Rightarrow> bool" where
  "host_obeys P d \<longleftrightarrow>
     (\<forall>model ctx rq. callback_obeys P (hd_provider d model ctx rq))
   \<and> (\<forall>model system prompt opts. callback_obeys P (hd_completion d model system prompt opts))
   \<and> (\<forall>t i a w. P w [] (snd (tool_execute (hd_tool d t) i a w)))"

definition callbacks_obey ::
  "('w \<Rightarrow> agent_event list \<Rightarrow> 'w \<Rightarrow> bool) \<Rightarrow> ('s, 't, 'w) harness_deps \<Rightarrow> bool" where
  "callbacks_obey P d \<longleftrightarrow> subscribers_obey P d \<and> hooks_obey P d \<and> host_obeys P d"

text \<open>What the harness itself does to its world: writing to the session, flushing, and setting its own fields.\<close>

definition own_steps_obey ::
  "(('s, 't, 'x) harness \<Rightarrow> agent_event list \<Rightarrow> ('s, 't, 'x) harness \<Rightarrow> bool) \<Rightarrow> ('s, 't, 'x) hdeps \<Rightarrow> bool" where
  "own_steps_obey P d \<longleftrightarrow>
     (\<forall>m. step_obeys P [Message_end m] (persist_message d m))
   \<and> step_obeys P [] (flushPendingSessionWrites d)
   \<and> (\<forall>w ts. P w [] (w\<lparr>ah_activeTurn := ts\<rparr>))
   \<and> (\<forall>w ab. P w [] (w\<lparr>ah_abort := ab\<rparr>))
   \<and> (\<forall>w ms. P w [] (w\<lparr>ah_nextTurnQueue := ms\<rparr>))
   \<and> (\<forall>w q ms. P w [] (set_queue q ms w))
   \<and> (\<forall>ms. step_obeys P [Agent_end ms] (close_run d))
   \<and> (\<forall>w e. (\<forall>m. e \<noteq> Message_end m) \<longrightarrow> (\<forall>ms. e \<noteq> Agent_end ms) \<longrightarrow> P w [e] w)"

locale harness_law = agent_law P
  for P :: "('s, 't, 'x) harness \<Rightarrow> agent_event list \<Rightarrow> ('s, 't, 'x) harness \<Rightarrow> bool" +
  fixes ops :: "'s storage_ops"
  assumes own: "hd_ops d = ops \<Longrightarrow> own_steps_obey P d"
begin

lemma emitOwn_obeys: "callbacks_obey P d \<Longrightarrow> step_obeys P [] (emitOwn d e)"
  unfolding emitOwn_def callbacks_obey_def subscribers_obey_def by (auto intro: notify_obeys)

lemma emitAny_obeys: "callbacks_obey P d \<Longrightarrow> step_obeys P [] (emitAny d e)"
  unfolding emitAny_def callbacks_obey_def subscribers_obey_def by (auto intro: notify_obeys)

lemma queue_update_obeys: "callbacks_obey P d \<Longrightarrow> step_obeys P [] (emitQueueUpdate d)"
  using emitOwn_obeys by (auto simp: step_obeys_def emitQueueUpdate_def)

lemma emitHook_obeys: "\<forall>h\<in>set hs. \<forall>e. step_obeys P [] (h e) \<Longrightarrow> step_obeys P [] (emitHook hs e)"
  unfolding emitHook_def by (auto intro: run_hooks_obey)

lemma ask_session_obeys: "step_obeys P [] (ask_session f)"
  by (simp add: step_obeys_def ask_session_def idle)

text \<open>Going on after a part of the run that obeys the law.\<close>

lemma and_on: "P v ts w \<Longrightarrow> P w [] w' \<Longrightarrow> P v ts w'"
  using run_on [of v ts w "[]" w'] by simp

lemma then_on: "P v [] w \<Longrightarrow> P w ts w' \<Longrightarrow> P v ts w'"
  using run_on [of v "[]" w ts w'] by simp

lemma stepD: "step_obeys P ts m \<Longrightarrow> m w = (r, w') \<Longrightarrow> P w ts w'"
  by (metis step_obeys_def snd_conv)

lemma flush_obeys: "hd_ops d = ops \<Longrightarrow> step_obeys P [] (flushPendingSessionWrites d)"
  using own by (auto simp: own_steps_obey_def)

lemma set_queue_obeys: "hd_ops d = ops \<Longrightarrow> P w [] (set_queue q ms w)"
  for d :: "('s, 't, 'x) hdeps"
  using own [of d] by (auto simp: own_steps_obey_def)

lemma drain_obeys:
  assumes "callbacks_obey P d" and "hd_ops d = ops"
  shows "step_obeys P [] (drainQueuedMessages d q)"
proof -
  have "P w [] (snd (drainQueuedMessages d q w))" for w
  proof -
    define k where "k = (if mode_of q w = Queue_all then queue_of q w else take 1 (queue_of q w))"
    let ?w1 = "set_queue q (drop (length k) (queue_of q w)) w"
    obtain r w2 where e: "emitQueueUpdate d ?w1 = (r, w2)" by fastforce
    have 1: "P w [] ?w1" using set_queue_obeys [OF assms(2)] .
    from stepD [OF queue_update_obeys [OF assms(1)] e] have 2: "P w [] w2" by (rule and_on [OF 1])
    have 3: "P w [] (set_queue q ms w2)" for ms by (rule and_on [OF 2 set_queue_obeys [OF assms(2)]])
    show ?thesis using 1 2 3 e by (auto simp: drainQueuedMessages_def Let_def k_def [symmetric] split: sum.splits)
  qed
  then show ?thesis by (simp add: step_obeys_def)
qed

lemma turn_prompt_obeys: "callbacks_obey P d \<Longrightarrow> step_obeys P [] (turn_prompt d resources)"
  unfolding callbacks_obey_def hooks_obey_def step_obeys_def turn_prompt_def
  by (auto simp: idle split: option.splits system_prompt.splits)

lemma createTurnState_obeys:
  assumes "callbacks_obey P d"
  shows "step_obeys P [] (createTurnState d)"
  unfolding createTurnState_def
proof (rule step_then_obeys [OF ask_session_obeys _ refl])
  fix c
  have "P v [] (snd (step_then (turn_prompt d resources) (\<lambda>p w. (Inr (f p w), w)) v))"
    for v resources and f :: "jstr \<Rightarrow> _ \<Rightarrow> 't turn_state"
    using step_then_obeys [OF turn_prompt_obeys [OF assms, of resources], of "[]" "\<lambda>p w. (Inr (f p w), w)"]
    by (simp add: step_obeys_def idle)
  then show "step_obeys P [] (\<lambda>w. let resources = getResources w; sessionId = hd_sessionId d (ah_storage w);
      tools = map snd (ah_tools w); activeTools = active_tools w in
      step_then (turn_prompt d resources) (\<lambda>p w.
         (Inr \<lparr>ts_messages = sc_messages c, ts_resources = resources,
               ts_streamOptions = cloneStreamOptions (Some (ah_streamOptions w)), ts_sessionId = sessionId,
               ts_systemPrompt = p, ts_model = ah_model w, ts_thinkingLevel = ah_thinkingLevel w, ts_tools = tools,
               ts_activeTools = activeTools\<rparr>, w)) w)"
    unfolding Let_def step_obeys_def by (intro allI)
qed

lemma prepare_next_turn_obeys:
  assumes "callbacks_obey P d" and "hd_ops d = ops"
  shows "step_obeys P [] (prepare_next_turn d)"
  unfolding prepare_next_turn_def
proof (intro step_then_obeys [OF _ _ refl])
  show "step_obeys P [] (step_update (\<lambda>w. w\<lparr>ah_activeTurn := Some ts\<rparr>))" for ts
    using own [OF assms(2)] by (simp add: own_steps_obey_def step_obeys_def step_update_def)
qed (use flush_obeys [OF assms(2)] createTurnState_obeys [OF assms(1)] in auto)

lemma request_auth_obeys: "callbacks_obey P d \<Longrightarrow> step_obeys P [] (request_auth d model)"
  unfolding callbacks_obey_def hooks_obey_def request_auth_def by (auto split: option.splits)

lemma createStreamFn_obeys:
  assumes "callbacks_obey P d"
  shows "stream_fn_obeys P (createStreamFn d)"
proof -
  have "P w [] (snd (createStreamFn d model ctx cfg w))" for model ctx cfg w
  proof -
    define m where "m = step_then (request_auth d model) (\<lambda>auth.
      step_then (emitBeforeProviderRequest d model (ts_sessionId (turn_of w)) ((ts_streamOptions (turn_of w))
          \<lparr>so_headers := mergeHeaders [so_headers (ts_streamOptions (turn_of w)), Option.bind auth au_headers]\<rparr>))
        (\<lambda>options. step_ret (auth, options)))"
    have "step_obeys P [] m" unfolding m_def emitBeforeProviderRequest_def
      by (rule step_then_obeys [OF request_auth_obeys [OF assms] step_then_obeys [OF patch_request_obeys step_ret_obeys refl] refl])
        (use assms in \<open>auto simp: callbacks_obey_def hooks_obey_def\<close>)
    then have m: "P w [] (snd (as_callback m w))" using callback_of_step by (auto simp: callback_obeys_def)
    have "P v [] (snd (hd_provider d model ctx rq v))" for v rq
      using assms by (auto simp: callbacks_obey_def host_obeys_def callback_obeys_def)
    with m show ?thesis
      unfolding createStreamFn_def Let_def m_def [symmetric]
      by (auto split: prod.splits sum.splits intro: and_on)
  qed
  then show ?thesis by (auto simp: stream_fn_obeys_def callback_obeys_def)
qed

lemma createContext_tools: "callbacks_obey P d \<Longrightarrow> tools_obey P (createContext d ts p)"
  by (auto simp: callbacks_obey_def host_obeys_def tools_obey_def createContext_def)

lemma harness_loop_config_obeys:
  assumes "callbacks_obey P d" and "hd_ops d = ops"
  shows "loop_config_obeys P (harness_loop_config d ts)"
proof -
  have hooks: "hooks_obey P d" using assms(1) by (simp add: callbacks_obey_def)
  have "step_obeys P [] (emitHook (hd_toolCall d) e)" "step_obeys P [] (emitHook (hd_toolResult d) e')" for e e'
    using hooks by (auto simp: hooks_obey_def intro: emitHook_obeys)
  then have "tool_config_obeys P (lc_tools (harness_loop_config d ts))"
    by (auto simp: tool_config_obeys_def harness_loop_config_def intro: as_callback_obeys)
  moreover have "step_obeys P [] (step_then (emitHook (hd_context d) ms) (\<lambda>r. step_ret (nullish r ms)))" for ms
    using hooks by (auto simp: hooks_obey_def intro!: step_then_obeys [OF emitHook_obeys])
  then have "hook_obeys P (lc_transformContext (harness_loop_config d ts))"
    by (auto simp: hook_obeys_def harness_loop_config_def intro: as_callback_obeys)
  moreover have "hook_obeys P (lc_prepareNextTurn (harness_loop_config d ts))"
    using prepare_next_turn_obeys [OF assms] by (auto simp: hook_obeys_def harness_loop_config_def intro: as_callback_obeys)
  moreover have "poll_obeys P (lc_getSteeringMessages (harness_loop_config d ts))"
    "poll_obeys P (lc_getFollowUpMessages (harness_loop_config d ts))"
    using drain_obeys [OF assms] by (auto simp: poll_obeys_def harness_loop_config_def intro: as_callback_obeys)
  moreover have "tools_obey P c" if "as_callback (prepare_next_turn d) w = (Inr (Some u), w')" "upd_context u = Some c" for w u w' c
  proof -
    from that(1) obtain t where "u = \<lparr>upd_context = Some (createContext d t None), upd_model = Some (ts_model t),
        upd_thinkingLevel = Some (ts_thinkingLevel t)\<rparr>"
      by (auto simp: as_callback_def prepare_next_turn_def step_then_def step_ret_def step_update_def
          split: prod.splits sum.splits)
    with that(2) createContext_tools [OF assms(1)] show ?thesis by auto
  qed
  ultimately show ?thesis
    by (auto simp: loop_config_obeys_def harness_loop_config_def callback_obeys_def hook_obeys_def idle)
qed

lemma end_turn_obeys:
  assumes "callbacks_obey P d" and "hd_ops d = ops"
  shows "step_obeys P [Turn_end m rs] (end_turn d (Turn_end m rs))"
proof -
  have "P w [Turn_end m rs] (snd (end_turn d (Turn_end m rs) w))" for w
  proof -
    obtain r w1 where e: "emitAny d (Turn_end m rs) w = (r, w1)" by fastforce
    have "P w [Turn_end m rs] w" using own [OF assms(2)] by (simp add: own_steps_obey_def)
    from and_on [OF this stepD [OF emitAny_obeys [OF assms(1)] e]] have 1: "P w [Turn_end m rs] w1" .
    have "step_obeys P [] (step_then (flushPendingSessionWrites d) (\<lambda>_. case r of Inl err \<Rightarrow> step_throw err
        | Inr u \<Rightarrow> emitOwn d (Save_point (ah_pendingWrites w1 \<noteq> []))))"
      by (rule step_then_obeys [OF flush_obeys [OF assms(2)] _ refl])
        (auto intro: emitOwn_obeys [OF assms(1)] split: sum.splits)
    then have "P w1 [] (snd (end_turn d (Turn_end m rs) w))" by (simp add: end_turn_def e step_obeys_def)
    from and_on [OF 1 this] show ?thesis .
  qed
  then show ?thesis by (simp add: step_obeys_def)
qed

lemma end_run_obeys:
  assumes "callbacks_obey P d" and "hd_ops d = ops"
  shows "step_obeys P [Agent_end ms] (end_run d (Agent_end ms))"
proof -
  have "step_obeys P [Agent_end ms] (close_run d)" using own [OF assms(2)] by (simp add: own_steps_obey_def)
  moreover have "step_obeys P [] (\<lambda>w. emitOwn d (Settled (length (ah_nextTurnQueue w))) w)"
    using emitOwn_obeys [OF assms(1)] by (simp add: step_obeys_def)
  ultimately show ?thesis unfolding end_run_def
    by (intro step_then_obeys [OF _ step_then_obeys [OF emitAny_obeys [OF assms(1)] _ refl] refl])
qed

lemma handleAgentEvent_obeys:
  assumes "callbacks_obey P d" and "hd_ops d = ops"
  shows "step_obeys P [e] (handleAgentEvent d e)"
proof -
  have other: "step_obeys P [e] (emitAny d e)" if "\<forall>m. e \<noteq> Message_end m" "\<forall>ms. e \<noteq> Agent_end ms"
  proof -
    from own [OF assms(2)] that have "P w [e] w" for w by (auto simp: own_steps_obey_def)
    from and_on [OF this] emitAny_obeys [OF assms(1)] show ?thesis by (simp add: step_obeys_def)
  qed
  have message: "step_obeys P [Message_end m] (step_then (persist_message d m) (\<lambda>_. emitAny d (Message_end m)))" for m
    using own [OF assms(2)] by (intro step_then_obeys [OF _ emitAny_obeys [OF assms(1)] refl]) (simp add: own_steps_obey_def)
  show ?thesis using other message end_turn_obeys [OF assms] end_run_obeys [OF assms]
    by (cases e) (simp_all add: handleAgentEvent_def)
qed

lemma sink_obeys_harness:
  assumes "callbacks_obey P d" and "hd_ops d = ops"
  shows "sink_obeys P (\<lambda>e. as_callback (handleAgentEvent d e))"
  using handleAgentEvent_obeys [OF assms]
  by (auto simp: sink_obeys_def step_obeys_def as_callback_def split: prod.splits) (metis snd_conv)

lemma run_result_obeys:
  assumes "callbacks_obey P d" and "hd_ops d = ops"
    and "run_result n d messages (createContext d ts p) s = Some (r, s')"
  shows "\<exists>us. emitted s' = emitted s @ us \<and> P (world s) us (world s')"
proof -
  note sink = sink_obeys_harness [OF assms(1,2)]
  obtain x s1 where loop: "runAgentLoop n (loop_tool_env d) (createStreamFn d) messages (createContext d ts p)
      (harness_loop_config d (turn_of (world s))) s = Some (x, s1)"
    using assms(3) by (auto simp: run_result_def split: option.splits)
  have "sink_obeys P (env_emit (loop_tool_env d))" using sink by (simp add: loop_tool_env_def)
  from runAgentLoop_obeys [OF this createStreamFn_obeys [OF assms(1)] harness_loop_config_obeys [OF assms(1,2)]
      createContext_tools [OF assms(1)] loop]
  obtain us where us: "emitted s1 = emitted s @ us" "P (world s) us (world s1)" by blast
  show ?thesis
  proof (cases x)
    case (Inr ms)
    with assms(3) loop us show ?thesis by (auto simp: run_result_def)
  next
    case (Inl err)
    let ?fail = "emitRunFailure d (ts_model (turn_of (world s1))) err (ah_abort (world s1) = Some True)"
    have "obeys P ?fail" unfolding emitRunFailure_def
      by (intro obeys_and_then obeys_asks obeys_for_each obeys_emit sink obeys_ret)
    moreover obtain y s2 where f: "?fail s1 = (y, s2)" by fastforce
    ultimately obtain vs where vs: "emitted s2 = emitted s1 @ vs" "P (world s1) vs (world s2)"
      using obeysD by blast
    have "s' = s2" using assms(3) loop Inl f by (auto simp: run_result_def split: sum.splits)
    with us vs run_on show ?thesis by auto
  qed
qed

end

end
