(* ===== verification/Harness_Records.thy ===== *)
theory Harness_Records
  imports Harness_Runs "HOL-Library.Sublist"
begin

text \<open>
  What a run of the harness writes to its session. The law \<open>records\<close> says that the session, its branch and the pending writes move
  together: the entries that were added are the messages that ended, in order, interleaved with writes that were pending, in
  order, and what was pending or has been queued meanwhile is written or still pending. Every action of the harness
  obeys it on a storage that nothing can fail, when the callbacks do; so a whole run does. The messages are those of the
  events that the run emitted (\<open>turn_trace\<close>, \<open>prompt_trace\<close>), and the writes queued meanwhile are those that the host has noted.
\<close>

section \<open>Interleavings\<close>

lemma shuffles_prepend: "xs \<in> shuffles a b \<Longrightarrow> c @ xs \<in> shuffles a (c @ b)"
  by (induction c) (auto intro: Cons_in_shuffles_rightI)

lemma shuffles_append: "xs \<in> shuffles a b \<Longrightarrow> ys \<in> shuffles c d \<Longrightarrow> xs @ ys \<in> shuffles (a @ c) (b @ d)"
proof (induction a b arbitrary: xs rule: shuffles.induct)
  case (1 b)
  then show ?case by (auto intro: shuffles_prepend)
next
  case (2 a)
  then have "ys @ [] \<in> shuffles c d" by simp
  from 2 shuffles_prepend [of ys d c a] show ?case by (auto simp: shuffles_commutes)
next
  case (3 x a y b)
  from "3.prems"(1) show ?case
    using "3.IH" "3.prems"(2) by (auto intro: Cons_in_shuffles_leftI Cons_in_shuffles_rightI)
qed

section \<open>Storages that only grow\<close>

text \<open>Appending adds one entry and moving the leaf removes none, whether or not the session is well-formed.\<close>

locale growing_storage = reliable_storage +
  assumes append_adds: "op_appendEntry ops e s h = (r, s', h') \<Longrightarrow>
      length (op_getEntries ops s') = Suc (length (op_getEntries ops s))"
    and move_keeps: "op_setLeafId ops l s h = (r, s', h') \<Longrightarrow> length (op_getEntries ops s) \<le> length (op_getEntries ops s')"

interpretation growing_mem: growing_storage mem_ops mem_good
  by unfold_locales
    (auto simp: mem_appendEntry_def mem_setLeafId_def Let_def split: if_splits prod.splits)

section \<open>What is written\<close>

text \<open>The writes that the harness queues, which reach the session as they are and cannot fail.\<close>

definition plain_write :: "entry_kind \<Rightarrow> bool" where
  "plain_write k =
     (case k of MessageEntry m \<Rightarrow> True | ModelChangeEntry p i \<Rightarrow> True | ThinkingLevelChangeEntry l \<Rightarrow> True
      | CustomEntry t j \<Rightarrow> True | CustomMessageEntry t c j b \<Rightarrow> True | _ \<Rightarrow> False)"

lemma plain_writeE:
  assumes "plain_write k"
  obtains "\<not> moves_leaf k" and "\<And>d. k \<noteq> CompactionEntry d" and "write_pending ops k = no_value (append_at_leaf ops k)"
  using assms by (cases k) (auto simp: plain_write_def moves_leaf_def session_appendMessage_def session_appendModelChange_def
    session_appendThinkingLevelChange_def session_appendCustomEntry_def session_appendCustomMessageEntry_def)

abbreviation harness_entries :: "'s storage_ops \<Rightarrow> ('s, 't, 'x) harness \<Rightarrow> entry list" where
  "harness_entries ops w \<equiv> op_getEntries ops (ah_storage w)"

text \<open>The current branch.\<close>

definition session_branch :: "'s storage_ops \<Rightarrow> 's \<Rightarrow> entry list" where
  "session_branch ops s = branch_of (op_getEntries ops s) (leaf_after (op_getEntries ops s))"

text \<open>A session with room for \<open>N\<close> entries: the host has an id for each of those to come.\<close>

definition room :: "'s storage_ops \<Rightarrow> ('s \<Rightarrow> bool) \<Rightarrow> nat \<Rightarrow> 's \<Rightarrow> host \<Rightarrow> bool" where
  "room ops good N s h \<longleftrightarrow> good s \<and> length (op_getEntries ops s) \<le> N
     \<and> host_ids h (N - length (op_getEntries ops s)) (entry_ids (op_getEntries ops s))"

text \<open>Entries \<open>new\<close> were added at the end of the branch.\<close>

definition branch_grows :: "'s storage_ops \<Rightarrow> 's \<Rightarrow> entry list \<Rightarrow> 's \<Rightarrow> bool" where
  "branch_grows ops s new s' \<longleftrightarrow>
     op_getEntries ops s' = op_getEntries ops s @ new \<and> session_branch ops s' = session_branch ops s @ new"

lemma branch_grows_refl: "branch_grows ops s [] s"
  by (simp add: branch_grows_def)

lemma branch_grows_trans: "branch_grows ops s a s' \<Longrightarrow> branch_grows ops s' b s'' \<Longrightarrow> branch_grows ops s (a @ b) s''"
  by (simp add: branch_grows_def)

context growing_storage
begin

lemma typed_adds: "appendTypedEntry ops e s h = (r, s', h') \<Longrightarrow> length (op_getEntries ops s') = Suc (length (op_getEntries ops s))"
  by (auto simp: appendTypedEntry_def split: prod.splits sum.splits dest: append_adds)

lemma at_leaf_keeps: "append_at_leaf ops k s h = (r, s', h') \<Longrightarrow> length (op_getEntries ops s) \<le> length (op_getEntries ops s')"
  by (auto simp: append_at_leaf_def Let_def split: prod.splits sum.splits dest: typed_adds)

lemma write_keeps: "write_pending ops k s h = (r, s', h') \<Longrightarrow> length (op_getEntries ops s) \<le> length (op_getEntries ops s')"
  by (cases k) (auto simp: no_value_def session_appendMessage_def session_appendModelChange_def
    session_appendThinkingLevelChange_def session_appendCustomEntry_def session_appendCustomMessageEntry_def
    session_appendLabel_def session_appendSessionName_def
    split: prod.splits if_splits dest: at_leaf_keeps move_keeps)

lemma flush_keeps:
  "flush_writes ops ks s h = (r, ks', s', h') \<Longrightarrow> length (op_getEntries ops s) \<le> length (op_getEntries ops s')"
proof (induction ks arbitrary: s h)
  case (Cons k ks)
  obtain r1 s1 h1 where w: "write_pending ops k s h = (r1, s1, h1)" by (metis prod_cases3)
  from write_keeps [OF w] Cons.IH [of s1 h1] Cons.prems w show ?case by (fastforce split: sum.splits)
qed simp

text \<open>A plain write puts its entry at the end of the branch.\<close>

lemma write_plain:
  assumes "room ops good N s h" and "plain_write k" and "write_pending ops k s h = (r, s', h')"
    and "length (op_getEntries ops s') \<le> N"
  obtains e where "r = Inr ()" and "room ops good N s' h'" and "branch_grows ops s [e] s'" and "en_kind e = k"
proof -
  from assms(2) obtain k: "\<not> moves_leaf k" and w: "write_pending ops k = no_value (append_at_leaf ops k)"
    by (rule plain_writeE)
  have g: "good s" and len: "length (op_getEntries ops s) \<le> N"
    and ids: "host_ids h (N - length (op_getEntries ops s)) (entry_ids (op_getEntries ops s))"
    using assms(1) by (simp_all add: room_def)
  from append_at_leaf_succeeds [OF g, of k h] assms(3) w obtain i where
    a: "append_at_leaf ops k s h = (Inr i, s', h')" and r: "r = Inr ()" by (auto simp: no_value_def)
  then have "length (op_getEntries ops s') = Suc (length (op_getEntries ops s))"
    by (auto simp: append_at_leaf_def Let_def split: prod.splits sum.splits dest: typed_adds)
  with assms(4) obtain n where n: "N - length (op_getEntries ops s) = Suc n" "N - length (op_getEntries ops s') = n"
    by (metis Suc_diff_le diff_Suc_Suc le_refl less_eq_Suc_le)
  from append_at_leaf_ok [OF g k _ a, of n] ids n(1) obtain e where e: "good s'"
    "op_getEntries ops s' = op_getEntries ops s @ [e]" "en_kind e = k"
    "en_parentId e = leaf_after (op_getEntries ops s)" "host_ids h' n (entry_ids (op_getEntries ops s'))" by auto
  have "session_branch ops s' = session_branch ops s @ [e]"
    unfolding session_branch_def by (rule branch_after_append [OF g e(1)]) (use e k in auto)
  with that [OF r _ _ e(3)] e n(2) assms(4) show thesis by (simp add: room_def branch_grows_def)
qed

lemma flush_plain:
  assumes "room ops good N s h" and "list_all plain_write ks" and "flush_writes ops ks s h = (r, ks', s', h')"
    and "length (op_getEntries ops s') \<le> N"
  shows "r = Inr () \<and> ks' = [] \<and> room ops good N s' h' \<and> (\<exists>new. branch_grows ops s new s' \<and> map en_kind new = ks)"
  using assms
proof (induction ks arbitrary: s h)
  case Nil
  then show ?case by (auto intro: branch_grows_refl)
next
  case (Cons k ks)
  obtain r1 s1 h1 where w: "write_pending ops k s h = (r1, s1, h1)" by (metis prod_cases3)
  have "length (op_getEntries ops s1) \<le> length (op_getEntries ops s')"
    using Cons.prems(3) w flush_keeps by (auto split: sum.splits)
  with Cons.prems(4) have "length (op_getEntries ops s1) \<le> N" by simp
  from write_plain [OF Cons.prems(1) _ w this] Cons.prems(2) obtain e where
    e: "r1 = Inr ()" "room ops good N s1 h1" "branch_grows ops s [e] s1" "en_kind e = k" by auto
  with w Cons.prems(3) have "flush_writes ops ks s1 h1 = (r, ks', s', h')" by simp
  from Cons.IH [OF e(2) _ this Cons.prems(4)] Cons.prems(2) obtain new where
    "r = Inr () \<and> ks' = [] \<and> room ops good N s' h'" "branch_grows ops s1 new s'" "map en_kind new = ks" by auto
  with branch_grows_trans [OF e(3)] e(4) show ?case by (metis append_Cons append_Nil list.simps(9))
qed

end

section \<open>The law\<close>

definition phase_after :: "harness_phase \<Rightarrow> agent_event \<Rightarrow> harness_phase" where
  "phase_after p e = (case e of Agent_end ms \<Rightarrow> Phase_idle | _ \<Rightarrow> p)"

definition harness_ready :: "'s storage_ops \<Rightarrow> ('s \<Rightarrow> bool) \<Rightarrow> nat \<Rightarrow> ('s, 't, 'x) harness \<Rightarrow> bool" where
  "harness_ready ops good N w \<longleftrightarrow> room ops good N (ah_storage w) (ah_ids w) \<and> list_all plain_write (ah_pendingWrites w)"

text \<open>
  What was written between two states of the world. The messages \<open>ms\<close> ended meanwhile, and \<open>queued\<close> reads off the host the
  writes that callbacks have queued so far, so those queued meanwhile are fixed by the two states.
\<close>

definition wrote ::
  "('x \<Rightarrow> entry_kind list) \<Rightarrow> 's storage_ops \<Rightarrow> ('s, 't, 'x) harness \<Rightarrow> agent_message list \<Rightarrow> ('s, 't, 'x) harness \<Rightarrow> bool" where
  "wrote queued ops w ms w' \<longleftrightarrow>
     (\<exists>new written pushed. branch_grows ops (ah_storage w) new (ah_storage w')
        \<and> map en_kind new \<in> shuffles (map MessageEntry ms) written \<and> list_all plain_write written
        \<and> queued (ah_host w') = queued (ah_host w) @ pushed
        \<and> ah_pendingWrites w @ pushed = written @ ah_pendingWrites w')"

definition records ::
  "('x \<Rightarrow> entry_kind list) \<Rightarrow> 's storage_ops \<Rightarrow> ('s \<Rightarrow> bool) \<Rightarrow> nat \<Rightarrow> ('s, 't, 'x) harness \<Rightarrow> agent_event list \<Rightarrow> ('s, 't, 'x) harness \<Rightarrow> bool" where
  "records queued ops good N w ts w' \<longleftrightarrow>
     length (harness_entries ops w) \<le> length (harness_entries ops w')
   \<and> (harness_ready ops good N w \<and> length (harness_entries ops w') \<le> N \<longrightarrow>
        harness_ready ops good N w' \<and> ah_phase w' = foldl phase_after (ah_phase w) ts
        \<and> wrote queued ops w (message_ends ts) w')"

lemma wrote_nothing: "wrote queued ops w [] w"
  unfolding wrote_def by (intro exI [of _ "[]"]) (simp add: branch_grows_refl)

lemma wrote_trans:
  assumes "wrote queued ops w ms w'" and "wrote queued ops w' ns w''"
  shows "wrote queued ops w (ms @ ns) w''"
proof -
  from assms(1) obtain a u p where 1: "branch_grows ops (ah_storage w) a (ah_storage w')"
    "map en_kind a \<in> shuffles (map MessageEntry ms) u" "list_all plain_write u" "ah_pendingWrites w @ p = u @ ah_pendingWrites w'"
    "queued (ah_host w') = queued (ah_host w) @ p"
    unfolding wrote_def by blast
  from assms(2) obtain b v q where 2: "branch_grows ops (ah_storage w') b (ah_storage w'')"
    "map en_kind b \<in> shuffles (map MessageEntry ns) v" "list_all plain_write v" "ah_pendingWrites w' @ q = v @ ah_pendingWrites w''"
    "queued (ah_host w'') = queued (ah_host w') @ q"
    unfolding wrote_def by blast
  have 3: "ah_pendingWrites w @ p @ q = (u @ v) @ ah_pendingWrites w''"
    using 1(4) 2(4) by (metis append_assoc)
  show ?thesis unfolding wrote_def map_append
    by (rule exI [of _ "a @ b"], rule exI [of _ "u @ v"], rule exI [of _ "p @ q"])
      (use branch_grows_trans [OF 1(1) 2(1)] shuffles_append [OF 1(2) 2(2)] 1(3,5) 2(3,5) 3 in simp)
qed

interpretation recording: agent_law "records queued ops good N"
  for queued :: "'x \<Rightarrow> entry_kind list" and ops :: "'s storage_ops" and good :: "'s \<Rightarrow> bool" and N
proof unfold_locales
  show "records queued ops good N w [] w" for w by (simp add: records_def wrote_nothing)
next
  fix w w' w'' :: "('s, 't, 'x) harness" and ts us
  assume "records queued ops good N w ts w'" "records queued ops good N w' us w''"
  then show "records queued ops good N w (ts @ us) w''"
    by (auto simp: records_def message_ends_append intro: wrote_trans)
qed

text \<open>Changing fields that the session does not depend on.\<close>

lemma records_fields:
  assumes "ah_storage w' = ah_storage w" "ah_ids w' = ah_ids w" "ah_pendingWrites w' = ah_pendingWrites w" "ah_phase w' = ah_phase w"
    and "ah_host w' = ah_host w" and "foldl phase_after (ah_phase w) ts = ah_phase w" and "message_ends ts = []"
  shows "records queued ops good N w ts w'"
proof -
  have "wrote queued ops w [] w'" unfolding wrote_def assms(1,3,5) by (intro exI [of _ "[]"]) (simp add: branch_grows_refl)
  with assms show ?thesis by (simp add: records_def harness_ready_def)
qed

context growing_storage
begin

lemma records_flush:
  assumes "hd_ops d = ops" and "flushPendingSessionWrites d w = (r, w')"
  shows "length (harness_entries ops w) \<le> length (harness_entries ops w')"
    and "harness_ready ops good N w \<Longrightarrow> length (harness_entries ops w') \<le> N \<Longrightarrow>
      r = Inr () \<and> ah_pendingWrites w' = [] \<and> harness_ready ops good N w' \<and> wrote queued ops w [] w'"
    and "\<exists>ks s h. w' = w\<lparr>ah_pendingWrites := ks, ah_storage := s, ah_ids := h\<rparr>"
proof -
  obtain r1 ks s h where f: "flush_writes ops (ah_pendingWrites w) (ah_storage w) (ah_ids w) = (r1, ks, s, h)"
    by (metis prod_cases4)
  with assms have w': "w' = w\<lparr>ah_pendingWrites := ks, ah_storage := s, ah_ids := h\<rparr>" and r: "r = map_sum Session_thrown id r1"
    by (simp_all add: flushPendingSessionWrites_def)
  then show "\<exists>ks s h. w' = w\<lparr>ah_pendingWrites := ks, ah_storage := s, ah_ids := h\<rparr>" by blast
  from flush_keeps [OF f] w' show "length (harness_entries ops w) \<le> length (harness_entries ops w')" by simp
  assume a: "harness_ready ops good N w" "length (harness_entries ops w') \<le> N"
  from flush_plain [OF _ _ f, of N] a w' obtain new where n: "r1 = Inr ()" "ks = []" "room ops good N s h"
    "branch_grows ops (ah_storage w) new s" "map en_kind new = ah_pendingWrites w"
    by (auto simp: harness_ready_def)
  have "wrote queued ops w [] w'" unfolding wrote_def
    by (intro exI [of _ new] exI [of _ "ah_pendingWrites w"] exI [of _ "[]"]) (use n w' a(1) in \<open>simp add: harness_ready_def\<close>)
  with n r w' show "r = Inr () \<and> ah_pendingWrites w' = [] \<and> harness_ready ops good N w' \<and> wrote queued ops w [] w'"
    by (simp add: harness_ready_def)
qed

lemma records_persist:
  assumes "hd_ops d = ops"
  shows "step_obeys (records queued ops good N) [Message_end m] (persist_message d m)"
proof -
  have "records queued ops good N w [Message_end m] (snd (persist_message d m w))" for w
  proof -
    obtain r s h where a: "write_pending ops (MessageEntry m) (ah_storage w) (ah_ids w) = (r, s, h)" by (metis prod_cases3)
    then have w': "snd (persist_message d m w) = w\<lparr>ah_storage := s, ah_ids := h\<rparr>"
      using assms by (simp add: persist_message_def on_session_def)
    have "wrote queued ops w [m] (w\<lparr>ah_storage := s, ah_ids := h\<rparr>) \<and> room ops good N s h"
      if "room ops good N (ah_storage w) (ah_ids w)" "length (op_getEntries ops s) \<le> N"
    proof -
      have "plain_write (MessageEntry m)" by (simp add: plain_write_def)
      from write_plain [OF that(1) this a that(2)] obtain e where
        e: "room ops good N s h" "branch_grows ops (ah_storage w) [e] s" "en_kind e = MessageEntry m" by auto
      then show ?thesis unfolding wrote_def
        by (intro conjI exI [of _ "[e]"] exI [of _ "[]"]) simp_all
    qed
    with write_keeps [OF a] show ?thesis
      unfolding w' by (auto simp: records_def harness_ready_def phase_after_def)
  qed
  then show ?thesis by (simp add: step_obeys_def)
qed

lemma records_own:
  fixes d :: "('a, 't, 'x) hdeps"
  assumes "hd_ops d = ops"
  shows "own_steps_obey (records queued ops good N) d"
proof -
  have flush: "records queued ops good N w [] (snd (flushPendingSessionWrites d w))" for w
  proof -
    obtain r w' where f: "flushPendingSessionWrites d w = (r, w')" by fastforce
    from records_flush [OF assms f] f show ?thesis by (auto simp: records_def)
  qed
  have close: "records queued ops good N w [Agent_end ms] (snd (close_run d w))" for w ms
  proof -
    obtain r w' where f: "flushPendingSessionWrites d w = (r, w')" by fastforce
    have "wrote queued ops w [] (w'\<lparr>ah_phase := Phase_idle\<rparr>) = wrote queued ops w [] w'" by (simp add: wrote_def)
    with records_flush [OF assms f] f show ?thesis
      by (cases r) (auto simp: close_run_def step_then_def step_update_def records_def harness_ready_def phase_after_def)
  qed
  show ?thesis
    unfolding own_steps_obey_def step_obeys_def
  proof (intro conjI allI impI)
    fix w :: "('a, 't, 'x) harness" and q ms
    show "records queued ops good N w [] (set_queue q ms w)" by (cases q) (auto intro: records_fields)
  next
    fix w :: "('a, 't, 'x) harness" and e
    assume "\<forall>m. e \<noteq> Message_end m" "\<forall>ms. e \<noteq> Agent_end ms"
    then show "records queued ops good N w [e] w" by (cases e) (auto intro!: records_fields simp: phase_after_def)
  qed (use flush close records_persist [OF assms] in \<open>auto simp: step_obeys_def intro: records_fields\<close>)
qed

end

interpretation mem_law: harness_law "records queued mem_ops mem_good N" mem_ops for queued N
  by unfold_locales (rule growing_mem.records_own)

section \<open>The trace of a run\<close>

lemma for_each_emits:
  "for_each xs (emit sink) s = (r, s') \<Longrightarrow>
   \<exists>ys. prefix ys xs \<and> emitted s' = emitted s @ ys \<and> (\<forall>u. r = Inr u \<longrightarrow> ys = xs)"
proof (induction xs arbitrary: s)
  case Nil
  then show ?case by (simp add: ret_def)
next
  case (Cons x xs)
  obtain r1 s1 where e: "emit sink x s = (r1, s1)" by fastforce
  from emitted_emit [OF e] have em: "emitted s1 = emitted s @ [x]" .
  show ?case
  proof (cases r1)
    case (Inl err)
    with Cons.prems e have "r = Inl err" "s' = s1" by (auto simp: and_then_def)
    with em show ?thesis by (intro exI [of _ "[x]"]) simp
  next
    case (Inr u)
    with Cons.prems e have "for_each xs (emit sink) s1 = (r, s')" by (simp add: and_then_def)
    from Cons.IH [OF this] em obtain ys where
      "prefix ys xs" "emitted s' = emitted s @ x # ys" "\<forall>u. r = Inr u \<longrightarrow> ys = xs" by auto
    then show ?thesis by (intro exI [of _ "x # ys"]) simp
  qed
qed

text \<open>The events of a run: those of the loop, and those of the report when it failed.\<close>

definition run_events :: "thrown + agent_message list \<Rightarrow> agent_event list \<Rightarrow> bool" where
  "run_events r ts \<longleftrightarrow>
     (\<exists>us vs. ts = us @ vs \<and> accepts protocol_step protocol_start us \<noteq> None
        \<and> (vs = [] \<or> (\<exists>f. prefix vs (failure_events f))))
   \<and> (\<forall>ms. r = Inr ms \<longrightarrow> last_opt ts = Some (Agent_end ms) \<and> set ms \<subseteq> set (message_ends ts))"

lemma failure_report:
  assumes "emitRunFailure d model err aborted s = (r, s')"
  obtains f vs where "emitted s' = emitted s @ vs" and "prefix vs (failure_events f)"
    and "\<And>ms. r = Inr ms \<Longrightarrow> vs = failure_events f \<and> ms = [assistant_agent_message f]"
proof -
  let ?f = "createFailureMessage (hd_now d (world s)) model err aborted"
  obtain x s1 where e: "for_each (failure_events ?f) (emit (\<lambda>e. as_callback (handleAgentEvent d e))) s = (x, s1)" by fastforce
  from for_each_emits [OF e] obtain vs where vs: "prefix vs (failure_events ?f)" "emitted s1 = emitted s @ vs"
    "\<forall>u. x = Inr u \<longrightarrow> vs = failure_events ?f" by blast
  have "s' = s1 \<and> (\<forall>ms. r = Inr ms \<longrightarrow> (\<exists>u. x = Inr u) \<and> ms = [assistant_agent_message ?f])"
    using assms e by (cases x) (auto simp: emitRunFailure_def and_then_asks and_then_def [of "for_each _ _"] ret_def)
  with vs that show thesis by blast
qed

lemma run_result_trace:
  assumes "run_result n d messages ctx s = Some (r, s')"
  shows "\<exists>ts. emitted s' = emitted s @ ts \<and> run_events r ts"
proof -
  obtain x s1 where loop: "runAgentLoop n (loop_tool_env d) (createStreamFn d) messages ctx
      (harness_loop_config d (turn_of (world s))) s = Some (x, s1)"
    using assms by (auto simp: run_result_def split: option.splits)
  from traced_runAgentLoop [of s n "loop_tool_env d" "createStreamFn d" messages ctx "harness_loop_config d (turn_of (world s))"] loop
  obtain us q where us: "emitted s1 = emitted s @ us" "accepts protocol_step protocol_start us = Some q"
    "\<And>ms. x = Inr ms \<Longrightarrow> at_phase Over ms q" by (cases x) (auto simp: traced_def)
  show ?thesis
  proof (cases x)
    case (Inr ms)
    then have r: "r = Inr ms" "s' = s1" using assms loop by (auto simp: run_result_def)
    from us(3) [OF Inr] have q: "pr_life q = Over" "pr_log q = ms" by (simp_all add: at_phase_def)
    from over_ends [OF us(2) q(1)] obtain vs where "us = vs @ [Agent_end ms]" by (auto simp: protocol_start_def q(2))
    moreover from accepts_log [OF us(2)] q(2) have "message_ends us = ms" by (simp add: protocol_start_def)
    ultimately have "run_events r us" unfolding run_events_def r
      using us(2) by (intro conjI exI [of _ us] exI [of _ "[]"]) (auto simp: last_opt_def)
    with us(1) r show ?thesis by blast
  next
    case (Inl err)
    obtain y s2 where f: "emitRunFailure d (ts_model (turn_of (world s1))) err (ah_abort (world s1) = Some True) s1 = (y, s2)"
      by fastforce
    from failure_report [OF f] obtain fm vs where vs: "emitted s2 = emitted s1 @ vs" "prefix vs (failure_events fm)"
      "\<And>ms. y = Inr ms \<Longrightarrow> vs = failure_events fm \<and> ms = [assistant_agent_message fm]" by blast
    have s': "s' = s2" and r: "\<And>ms. r = Inr ms \<Longrightarrow> y = Inr ms"
      using assms loop Inl f by (auto simp: run_result_def split: sum.splits)
    have "last_opt (us @ vs) = Some (Agent_end ms) \<and> set ms \<subseteq> set (message_ends (us @ vs))" if "r = Inr ms" for ms
      using vs(3) [OF r [OF that]] by (simp add: failure_events_def Let_def last_opt_def message_ends_append)
    with us(2) vs(2) have "run_events r (us @ vs)" unfolding run_events_def by blast
    with us(1) vs(1) s' show ?thesis by (intro exI [of _ "us @ vs"]) simp
  qed
qed

section \<open>A turn and a prompt\<close>

text \<open>
  The events that a turn and a prompt emit: those of the very run that \<open>executeTurn\<close> and \<open>run_prompt\<close> start, and none when
  they fail before it.
\<close>

definition turn_trace ::
  "nat \<Rightarrow> ('s, 't, 'x) hdeps \<Rightarrow> 't turn_state \<Rightarrow> jstr \<Rightarrow> image_content list option \<Rightarrow> ('s, 't, 'x) harness \<Rightarrow>
   agent_event list" where
  "turn_trace n d ts s images w =
     (case open_turn d ts s images w of
        (Inl e, w1) \<Rightarrow> []
      | (Inr (messages, systemPrompt), w1) \<Rightarrow>
          (case run_result n d messages (createContext d ts systemPrompt)
                  \<lparr>emitted = [], world = w1\<lparr>ah_activeTurn := Some ts, ah_abort := Some False\<rparr>\<rparr> of
             None \<Rightarrow> []
           | Some (r, s1) \<Rightarrow> emitted s1))"

definition prompt_trace ::
  "nat \<Rightarrow> ('s, 't, 'x) hdeps \<Rightarrow> ('t turn_state \<Rightarrow> thrown + jstr \<times> image_content list option) \<Rightarrow> ('s, 't, 'x) harness \<Rightarrow>
   agent_event list" where
  "prompt_trace n d pick w =
     (case createTurnState d (w\<lparr>ah_phase := Phase_turn, ah_running := True\<rparr>) of
        (Inl e, w1) \<Rightarrow> []
      | (Inr ts, w1) \<Rightarrow> (case pick ts of Inl e \<Rightarrow> [] | Inr (s, images) \<Rightarrow> turn_trace n d ts s images w1))"

context harness_law
begin

lemma turn_messages_obeys:
  assumes "callbacks_obey P d" and "hd_ops d = ops"
  shows "step_obeys P [] (turn_messages d s images)"
proof -
  have next_queue: "P v [] (v\<lparr>ah_nextTurnQueue := ms\<rparr>)" for v ms
    using own [OF assms(2)] by (simp add: own_steps_obey_def)
  have "P w [] (snd (turn_messages d s images w))" for w
  proof -
    obtain r w1 where e: "emitQueueUpdate d (w\<lparr>ah_nextTurnQueue := []\<rparr>) = (r, w1)" by fastforce
    from stepD [OF queue_update_obeys [OF assms(1)] e] have 1: "P w [] w1" by (rule and_on [OF next_queue])
    with and_on [OF 1 next_queue] e idle show ?thesis
      by (auto simp: turn_messages_def Let_def split: sum.splits)
  qed
  then show ?thesis by (simp add: step_obeys_def)
qed

lemma open_turn_obeys:
  assumes "callbacks_obey P d" and "hd_ops d = ops"
  shows "step_obeys P [] (open_turn d ts s images)"
  unfolding open_turn_def
  by (intro step_then_obeys [OF turn_messages_obeys [OF assms] step_then_obeys [OF emitHook_obeys step_ret_obeys refl] refl])
    (use assms(1) in \<open>simp add: callbacks_obey_def hooks_obey_def\<close>)

text \<open>A turn goes from its start over the run to the final flush.\<close>

lemma executeTurn_obeys:
  assumes "callbacks_obey P d" and "hd_ops d = ops" and "executeTurn n d ts s images w = Some (r, w')"
  shows "turn_trace n d ts s images w = [] \<and> (\<exists>e. r = Inl e) \<and> P w [] w' \<or>
    (\<exists>x w1. run_events x (turn_trace n d ts s images w) \<and> P w (turn_trace n d ts s images w) w1
      \<and> (\<forall>m. r = Inr m \<longrightarrow> (\<exists>ms. x = Inr ms \<and> answer_of ms = Inr m))
      \<and> close_turn d (case x of Inl e \<Rightarrow> Inl e | Inr ms \<Rightarrow> answer_of ms) w1 = (r, w'))"
proof -
  have fields: "P v [] (v\<lparr>ah_activeTurn := a, ah_abort := b\<rparr>)" for v a b
    using own [OF assms(2)] and_on [of v "[]" "v\<lparr>ah_activeTurn := a\<rparr>"] unfolding own_steps_obey_def by blast
  obtain o1 w1 where o: "open_turn d ts s images w = (o1, w1)" by fastforce
  from stepD [OF open_turn_obeys [OF assms(1,2)] o] have 1: "P w [] w1" .
  show ?thesis
  proof (cases o1)
    case (Inl e)
    with assms(3) o 1 show ?thesis by (auto simp: executeTurn_def turn_trace_def)
  next
    case (Inr mp)
    obtain messages p where mp: "mp = (messages, p)" by fastforce
    let ?s0 = "\<lparr>emitted = [], world = w1\<lparr>ah_activeTurn := Some ts, ah_abort := Some False\<rparr>\<rparr>"
    from assms(3) o Inr mp obtain x s1 where run: "run_result n d messages (createContext d ts p) ?s0 = Some (x, s1)"
      and close: "close_turn d (case x of Inl e \<Rightarrow> Inl e | Inr ms \<Rightarrow> answer_of ms) (world s1) = (r, w')"
      by (auto simp: executeTurn_def split: option.splits)
    from run_result_obeys [OF assms(1,2) run] run_result_trace [OF run] obtain us where
      us: "emitted s1 = us" "P (w1\<lparr>ah_activeTurn := Some ts, ah_abort := Some False\<rparr>) us (world s1)" "run_events x us" by auto
    have trace: "turn_trace n d ts s images w = us" using o Inr mp run us(1) by (simp add: turn_trace_def)
    have "P w us (world s1)" by (rule then_on [OF and_on [OF 1 fields] us(2)])
    moreover have "\<exists>ms. x = Inr ms \<and> answer_of ms = Inr m" if "r = Inr m" for m
      using close that by (auto simp: close_turn_def split: prod.splits sum.splits)
    ultimately show ?thesis using us(3) close unfolding trace by blast
  qed
qed

end

lemma run_events_idle:
  assumes "run_events (Inr ms) ts"
  shows "foldl phase_after p ts = Phase_idle"
proof -
  from assms have "last_opt ts = Some (Agent_end ms)" unfolding run_events_def by blast
  from last_opt_SomeD [OF this] obtain us where "ts = us @ [Agent_end ms]" ..
  then show ?thesis by (simp add: phase_after_def)
qed

lemma find_in: "find Q xs = Some x \<Longrightarrow> x \<in> set xs"
  by (induction xs) (auto split: if_splits)

lemma answer_in: "answer_of ms = Inr m \<Longrightarrow> assistant_agent_message m \<in> set ms"
  using find_in [of is_assistant "rev ms"]
  by (auto simp: answer_of_def last_assistant_def assistant_agent_message_def
      split: option.splits agent_message.splits message.splits)

lemma answer_recorded:
  "run_events (Inr ms) ts \<Longrightarrow> answer_of ms = Inr m \<Longrightarrow> assistant_agent_message m \<in> set (message_ends ts)"
  using answer_in by (auto simp: run_events_def)

text \<open>Appended entries and the messages of the context.\<close>

lemma plain_shuffle:
  assumes "map en_kind new \<in> shuffles (map MessageEntry ms) written" and "list_all plain_write written"
  shows "\<forall>e\<in>set new. \<not> is_compaction e"
proof
  fix e assume "e \<in> set new"
  then have "en_kind e \<in> set (map en_kind new)" by simp
  also have "\<dots> = set (map MessageEntry ms) \<union> set written" using set_shuffles [OF assms(1)] .
  finally show "\<not> is_compaction e" using assms(2)
    by (cases "en_kind e") (auto simp: is_compaction_def list_all_iff plain_write_def)
qed

text \<open>The messages of the current branch grow by those of the entries.\<close>

definition context_messages :: "(jstr \<Rightarrow> jtime) \<Rightarrow> 's storage_ops \<Rightarrow> 's \<Rightarrow> agent_message list" where
  "context_messages t ops s = path_messages t (session_branch ops s)"

context session_storage
begin

lemma context_messages_grow:
  assumes "good s'" and "branch_grows ops s new s'" and "\<forall>e\<in>set new. \<not> is_compaction e"
  shows "context_messages t ops s' = context_messages t ops s @ concat (map (append_message t) new)"
proof -
  from branch_of_is_path [OF tree leaf] assms(1) have "is_path (op_getEntries ops s') (session_branch ops s')"
    by (simp add: session_branch_def)
  from distinct_path [OF tree this] assms(1,2) have "distinct (map en_id (session_branch ops s @ new))"
    by (simp add: branch_grows_def)
  with assms(3) have "path_messages t (session_branch ops s @ new) =
      path_messages t (session_branch ops s) @ concat (map (append_message t) new)"
  proof (induction new rule: rev_induct)
    case (snoc e new)
    then have "distinct (map en_id ((session_branch ops s @ new) @ [e]))" "\<not> is_compaction e" by simp_all
    from path_messages_snoc [OF this] snoc show ?case by simp
  qed simp
  with assms(2) show ?thesis by (simp add: context_messages_def branch_grows_def)
qed

end

lemma wrote_messages:
  assumes "wrote queued mem_ops w ms w'" and "mem_good (ah_storage w')"
  obtains new written pushed where "branch_grows mem_ops (ah_storage w) new (ah_storage w')"
    and "map en_kind new \<in> shuffles (map MessageEntry ms) written"
    and "queued (ah_host w') = queued (ah_host w) @ pushed"
    and "ah_pendingWrites w @ pushed = written @ ah_pendingWrites w'"
    and "context_messages t mem_ops (ah_storage w') =
      context_messages t mem_ops (ah_storage w) @ concat (map (append_message t) new)"
  using assms(1) mem.context_messages_grow [OF assms(2)] plain_shuffle unfolding wrote_def by blast

section \<open>A prompt on a session in memory\<close>

lemma close_turn_flush:
  "close_turn d x w = (r, w') \<Longrightarrow> \<exists>y w1. flushPendingSessionWrites d w = (y, w1) \<and> w' = w1\<lparr>ah_abort := None\<rparr>"
  by (auto simp: close_turn_def split: prod.splits sum.splits)

lemma executeTurn_records:
  assumes "hd_ops d = mem_ops" and "callbacks_obey (records queued mem_ops mem_good N) d"
    and "harness_ready mem_ops mem_good N w" and "executeTurn n d ts s images w = Some (r, w')"
    and "length (ms_entries (ah_storage w')) \<le> N" and "us = turn_trace n d ts s images w"
  shows "harness_ready mem_ops mem_good N w' \<and> (us = [] \<and> (\<exists>e. r = Inl e) \<or> (\<exists>x. run_events x us))
    \<and> wrote queued mem_ops w (message_ends us) w'
    \<and> (\<forall>m. r = Inr m \<longrightarrow> ah_phase w' = Phase_idle \<and> ah_pendingWrites w' = []
         \<and> assistant_agent_message m \<in> set (message_ends us))"
  using mem_law.executeTurn_obeys [OF assms(2,1,4)] unfolding assms(6) [symmetric]
proof (elim disjE exE conjE)
  fix e assume "us = []" "r = Inl e" "records queued mem_ops mem_good N w [] w'"
  with assms(3,5) show ?thesis by (auto simp: records_def)
next
  fix x w1 assume run: "run_events x us" and w1: "records queued mem_ops mem_good N w us w1"
    and answer: "\<forall>m. r = Inr m \<longrightarrow> (\<exists>ms. x = Inr ms \<and> answer_of ms = Inr m)"
    and close: "close_turn d (case x of Inl e \<Rightarrow> Inl e | Inr ms \<Rightarrow> answer_of ms) w1 = (r, w')"
  from close_turn_flush [OF close] obtain y w2 where f: "flushPendingSessionWrites d w1 = (y, w2)"
    and w': "w' = w2\<lparr>ah_abort := None\<rparr>" by blast
  note flush = growing_mem.records_flush [OF assms(1) f]
  have len: "length (ms_entries (ah_storage w1)) \<le> N" using flush(1) assms(5) w' by simp
  with w1 assms(3) have 1: "harness_ready mem_ops mem_good N w1" "ah_phase w1 = foldl phase_after (ah_phase w) us"
    "wrote queued mem_ops w (message_ends us) w1" by (auto simp: records_def)
  from flush(2) [OF 1(1)] assms(5) w' have 2: "ah_pendingWrites w2 = []" "harness_ready mem_ops mem_good N w2"
    "wrote queued mem_ops w1 [] w2" by simp_all
  have "wrote queued mem_ops w (message_ends us) w'" using wrote_trans [OF 1(3) 2(3)] by (simp add: w' wrote_def)
  moreover have "ah_phase w' = Phase_idle" "assistant_agent_message m \<in> set (message_ends us)" if "r = Inr m" for m
    using answer that run run_events_idle answer_recorded 1(2) flush(3) w' by fastforce+
  ultimately show ?thesis using 2 run w' by (auto simp: harness_ready_def)
qed

end
