(* ===== verification/Harness_Prompts.thy ===== *)
theory Harness_Prompts
  imports Harness_Records
begin

text \<open>
  The properties of \<^verbatim>\<open>AgentHarness\<close>: what a prompt leaves behind, what the queues deliver, what pending writes become, what
  compaction and navigation do to the context, and how errors are reported. The general part is in \<open>Harness_Records\<close>.
\<close>

section \<open>Prompts\<close>

lemma wrote_same_start:
  "ah_storage v = ah_storage w \<Longrightarrow> ah_pendingWrites v = ah_pendingWrites w \<Longrightarrow> ah_host v = ah_host w \<Longrightarrow>
   wrote queued ops v ms w' = wrote queued ops w ms w'"
  by (simp add: wrote_def)

lemma wrote_same_end:
  "ah_storage v = ah_storage w \<Longrightarrow> ah_pendingWrites v = ah_pendingWrites w \<Longrightarrow> ah_host v = ah_host w \<Longrightarrow>
   wrote queued ops u ms v = wrote queued ops u ms w"
  by (simp add: wrote_def)

lemma ready_same:
  "ah_storage v = ah_storage w \<Longrightarrow> ah_pendingWrites v = ah_pendingWrites w \<Longrightarrow> ah_ids v = ah_ids w \<Longrightarrow>
   harness_ready ops good N v = harness_ready ops good N w"
  by (simp add: harness_ready_def)

lemma settle_run_fields:
  assumes "settle_run x w = (r, w')"
  shows "ah_storage w' = ah_storage w" "ah_pendingWrites w' = ah_pendingWrites w" "ah_ids w' = ah_ids w" "ah_host w' = ah_host w"
      "\<not> ah_running w'"
    and "\<And>m. r = Inr m \<Longrightarrow> x = Inr m \<and> ah_phase w' = ah_phase w" and "\<And>e. r = Inl e \<Longrightarrow> ah_phase w' = Phase_idle"
  using assms by (auto simp: settle_run_def split: sum.splits)

lemma executeTurn_grows:
  assumes "hd_ops d = mem_ops" and "callbacks_obey (records queued mem_ops mem_good N) d"
    and "executeTurn n d ts s images w = Some (q, w')"
  shows "length (ms_entries (ah_storage w)) \<le> length (ms_entries (ah_storage w'))"
  using mem_law.executeTurn_obeys [OF assms(2,1,3)]
proof (elim disjE exE conjE)
  fix us x w1 assume r: "records queued mem_ops mem_good N w us w1"
    and close: "close_turn d (case x of Inl e \<Rightarrow> Inl e | Inr ms \<Rightarrow> answer_of ms) w1 = (q, w')"
  from close_turn_flush [OF close] obtain y w2 where f: "flushPendingSessionWrites d w1 = (y, w2)"
    and w': "w' = w2\<lparr>ah_abort := None\<rparr>" by blast
  from growing_mem.records_flush(1) [OF assms(1) f] r w' show ?thesis by (simp add: records_def)
qed (simp add: records_def)

text \<open>A prompt either fails before its turn or is a turn between the state of the turn and the settling of the run.\<close>

lemma run_prompt_parts:
  assumes "ah_phase w = Phase_idle" and "run_prompt n d pick w = Some (r, w')"
  obtains (failed) c w1 e where "createTurnState d (w\<lparr>ah_phase := Phase_turn, ah_running := True\<rparr>) = (c, w1)"
      and "prompt_trace n d pick w = []" and "settle_run (Inl e) w1 = (r, w')"
  | (turn) c w1 ts s images q w2 where "createTurnState d (w\<lparr>ah_phase := Phase_turn, ah_running := True\<rparr>) = (c, w1)"
      and "prompt_trace n d pick w = turn_trace n d ts s images w1"
      and "executeTurn n d ts s images w1 = Some (q, w2)" and "settle_run q w2 = (r, w')"
proof -
  obtain c w1 where c: "createTurnState d (w\<lparr>ah_phase := Phase_turn, ah_running := True\<rparr>) = (c, w1)" by fastforce
  show thesis
  proof (cases c)
    case (Inl e)
    with assms c failed show thesis by (simp add: run_prompt_def prompt_trace_def)
  next
    case ts: (Inr ts)
    show thesis
    proof (cases "pick ts")
      case (Inl e)
      with assms c ts failed show thesis by (simp add: run_prompt_def prompt_trace_def)
    next
      case (Inr p)
      obtain s images where p: "p = (s, images)" by fastforce
      from assms c ts Inr p obtain q w2 where "executeTurn n d ts s images w1 = Some (q, w2)" "settle_run q w2 = (r, w')"
        by (auto simp: run_prompt_def)
      with turn c ts Inr p show thesis by (simp add: prompt_trace_def)
    qed
  qed
qed

definition prompt_outcome ::
  "('x \<Rightarrow> entry_kind list) \<Rightarrow> nat \<Rightarrow> agent_event list \<Rightarrow> (mem_storage, 't, 'x) harness \<Rightarrow>
   harness_error + assistant_message \<Rightarrow> (mem_storage, 't, 'x) harness \<Rightarrow> bool" where
  "prompt_outcome queued N us w r w' \<longleftrightarrow>
     harness_ready mem_ops mem_good N w' \<and> ah_phase w' = Phase_idle \<and> \<not> ah_running w'
   \<and> (us = [] \<and> (\<exists>e. r = Inl e) \<or> (\<exists>x. run_events x us)) \<and> wrote queued mem_ops w (message_ends us) w'
   \<and> (\<forall>m. r = Inr m \<longrightarrow> ah_pendingWrites w' = [] \<and> assistant_agent_message m \<in> set (message_ends us))"

lemma prompt_failed:
  assumes "settle_run (Inl e) w1 = (r, w')" and "harness_ready mem_ops mem_good N w1" and "wrote queued mem_ops w [] w1"
  shows "prompt_outcome queued N [] w r w'"
proof -
  note f = settle_run_fields [OF assms(1)]
  have "\<exists>y. r = Inl y" using assms(1) by (auto simp: settle_run_def)
  with f assms(2,3) ready_same [OF f(1-3)] wrote_same_end [OF f(1,2,4)] show ?thesis
    unfolding prompt_outcome_def by auto
qed

lemma prompt_turn:
  assumes "hd_ops d = mem_ops" and "callbacks_obey (records queued mem_ops mem_good N) d"
    and "harness_ready mem_ops mem_good N w1" and "wrote queued mem_ops w [] w1"
    and "executeTurn n d ts s images w1 = Some (q, w2)" and "settle_run q w2 = (r, w')"
    and "length (ms_entries (ah_storage w')) \<le> N"
  shows "prompt_outcome queued N (turn_trace n d ts s images w1) w r w'"
proof -
  define us where "us = turn_trace n d ts s images w1"
  note f = settle_run_fields [OF assms(6)]
  from assms(7) f(1) have len2: "length (ms_entries (ah_storage w2)) \<le> N" by simp
  note us = executeTurn_records [OF assms(1-3,5) len2 us_def]
  have "wrote queued mem_ops w (message_ends us) w'"
    using wrote_trans [OF assms(4), of "message_ends us" w2] us wrote_same_end [OF f(1,2,4)] by simp
  moreover have "\<exists>y. r = Inl y" if "q = Inl e" for e using assms(6) that by (auto simp: settle_run_def)
  moreover have "ah_phase w' = Phase_idle" using f(6,7) us by (cases r) auto
  ultimately show ?thesis using us f ready_same [OF f(1-3)]
    unfolding prompt_outcome_def us_def [symmetric] by auto
qed

lemma run_prompt_records:
  assumes "hd_ops d = mem_ops" and "callbacks_obey (records queued mem_ops mem_good N) d"
    and "harness_ready mem_ops mem_good N w" and "ah_phase w = Phase_idle"
    and "run_prompt n d pick w = Some (r, w')" and "length (ms_entries (ah_storage w')) \<le> N"
  shows "prompt_outcome queued N (prompt_trace n d pick w) w r w'"
proof -
  let ?w0 = "w\<lparr>ah_phase := Phase_turn, ah_running := True\<rparr>"
  have start: "harness_ready mem_ops mem_good N w1 \<and> wrote queued mem_ops w [] w1"
    if "createTurnState d ?w0 = (c, w1)" "length (ms_entries (ah_storage w1)) \<le> N" for c w1
  proof -
    from mem_law.stepD [OF mem_law.createTurnState_obeys [OF assms(2)] that(1)]
    have "records queued mem_ops mem_good N ?w0 [] w1" .
    with assms(3) that(2) ready_same [of ?w0 w] wrote_same_start [of ?w0 w queued mem_ops "[]" w1] show ?thesis
      by (simp add: records_def)
  qed
  from assms(4,5) show ?thesis
  proof (cases rule: run_prompt_parts)
    case (failed c w1 e)
    with start [OF failed(1)] settle_run_fields(1) [OF failed(3)] assms(6) prompt_failed [OF failed(3)] show ?thesis by simp
  next
    case (turn c w1 ts s images q w2)
    from executeTurn_grows [OF assms(1,2) turn(3)] settle_run_fields(1) [OF turn(4)] assms(6)
    have "length (ms_entries (ah_storage w1)) \<le> N" by simp
    from start [OF turn(1) this] prompt_turn [OF assms(1,2) _ _ turn(3,4) assms(6)] turn(2) show ?thesis by simp
  qed
qed

text \<open>A harness over the session of two messages, with a provider that answers at once and no hooks.\<close>

definition demo_answer :: assistant_message where
  "demo_answer = sample_assistant [AText \<lparr>tc_text = js ''ok'', tc_textSignature = None\<rparr>] SR_stop"

definition demo_harness_deps :: "(mem_storage, unit, unit) hdeps" where
  "demo_harness_deps =
     \<lparr>hd_ops = mem_ops, hd_sessionId = (\<lambda>s. js ''s''), hd_subscribers = [], hd_beforeAgentStart = [], hd_context = [],
      hd_beforeProviderRequest = [], hd_beforeProviderPayload = [], hd_toolCall = [], hd_toolResult = [],
      hd_beforeCompact = [], hd_beforeTree = [], hd_systemPrompt = None, hd_getApiKeyAndHeaders = None,
      hd_provider = (\<lambda>model ctx rq w. (Inr \<lparr>resp_events = [Ev_done SR_stop demo_answer], resp_result = Inr demo_answer\<rparr>, w)),
      hd_completion = (\<lambda>model system prompt opts w. (Inr demo_answer, w)),
      hd_tool = (\<lambda>_. \<lparr>tool_name = js ''t'', tool_description = [], tool_parameters = JNull, tool_label = [],
        tool_prepareArguments = None, tool_execute = (\<lambda>i a w. (([], Inl []), w)), tool_executionMode = None\<rparr>),
      hd_validateToolArguments = (\<lambda>t c. Inr (call_arguments c)), hd_now = (\<lambda>w. 7), hd_schedule = (\<lambda>w xs. 0),
      hd_getTime = (\<lambda>s. None)\<rparr>"

definition demo_harness :: "(mem_storage, unit, unit) harness" where
  "demo_harness = new_harness demo_harness_deps
     \<lparr>hopt_session = sample_storage, hopt_sessionIds = sample_host, hopt_resources = None, hopt_streamOptions = None,
      hopt_tools = None, hopt_model = demo_model, hopt_thinkingLevel = None, hopt_activeToolNames = None,
      hopt_steeringMode = None, hopt_followUpMode = None\<rparr> ()"

lemma demo_harness_ready: "harness_ready mem_ops mem_good 4 demo_harness"
  using sample_storage_good sample_host_ids
  by (simp add: harness_ready_def room_def demo_harness_def new_harness_def demo_harness_deps_def sample_storage_def
      sample_entries_def)

text \<open>
  C33: A run of the harness (a prompt, a skill or a template) from an idle state, whose callbacks do to the session no more
  than queue plain writes, leaves a well-formed session and an idle harness, also when it fails. The events are those that this very
  run emits (\<open>prompt_trace\<close>), and the queued writes those that the callbacks have queued while it ran, which \<open>queued\<close> reads off the
  host. The session has gained entries at the end of its branch, and its context their messages: each message that
  an event of the run ended, user message, answer or tool result, once and in order, interleaved with the first of the writes that
  were pending or were queued, each once and in order; the other writes are still pending, in order. When the run returns its
  answer, all of them have been written and the answer is among the messages. The session is in memory and has ids for
  \<open>N\<close> entries, which the run does not exceed.
\<close>

theorem prompt_persists_transcript:
  assumes "hd_ops d = mem_ops" and "callbacks_obey (records queued mem_ops mem_good N) d"
    and "harness_ready mem_ops mem_good N w" and "ah_phase w = Phase_idle"
    and "harness_prompt n d s images w = Some (r, w') \<and> us = prompt_trace n d (pick_text s images) w
      \<or> harness_skill n d name extra w = Some (r, w') \<and> us = prompt_trace n d (pick_skill name extra) w
      \<or> promptFromTemplate n d name args w = Some (r, w') \<and> us = prompt_trace n d (pick_template name args) w"
    and "length (ms_entries (ah_storage w')) \<le> N"
  shows "mem_good (ah_storage w') \<and> ah_phase w' = Phase_idle \<and> \<not> ah_running w'
    \<and> (us = [] \<and> (\<exists>e. r = Inl e) \<or> (\<exists>x. run_events x us))
    \<and> (\<exists>new written pushed.
          ms_entries (ah_storage w') = ms_entries (ah_storage w) @ new
        \<and> session_branch mem_ops (ah_storage w') = session_branch mem_ops (ah_storage w) @ new
        \<and> context_messages t mem_ops (ah_storage w') =
            context_messages t mem_ops (ah_storage w) @ concat (map (append_message t) new)
        \<and> map en_kind new \<in> shuffles (map MessageEntry (message_ends us)) written
        \<and> queued (ah_host w') = queued (ah_host w) @ pushed
        \<and> ah_pendingWrites w @ pushed = written @ ah_pendingWrites w')
    \<and> (\<forall>m. r = Inr m \<longrightarrow> ah_pendingWrites w' = [] \<and> assistant_agent_message m \<in> set (message_ends us))"
proof -
  from assms(5) obtain pick where "run_prompt n d pick w = Some (r, w')" "us = prompt_trace n d pick w"
    unfolding harness_prompt_def harness_skill_def promptFromTemplate_def by blast
  with run_prompt_records [OF assms(1-4) _ assms(6)] have
    out: "harness_ready mem_ops mem_good N w'" "ah_phase w' = Phase_idle" "\<not> ah_running w'"
    and us: "us = [] \<and> (\<exists>e. r = Inl e) \<or> (\<exists>x. run_events x us)" "wrote queued mem_ops w (message_ends us) w'"
      "\<forall>m. r = Inr m \<longrightarrow> ah_pendingWrites w' = [] \<and> assistant_agent_message m \<in> set (message_ends us)"
    unfolding prompt_outcome_def by blast+
  from out(1) have good: "mem_good (ah_storage w')" by (simp add: harness_ready_def room_def)
  from wrote_messages [OF us(2) good] obtain new written pushed where
    "branch_grows mem_ops (ah_storage w) new (ah_storage w')"
    "map en_kind new \<in> shuffles (map MessageEntry (message_ends us)) written"
    "queued (ah_host w') = queued (ah_host w) @ pushed"
    "ah_pendingWrites w @ pushed = written @ ah_pendingWrites w'"
    "context_messages t mem_ops (ah_storage w') =
      context_messages t mem_ops (ah_storage w) @ concat (map (append_message t) new)" by metis
  with good out(2,3) us(1,3) show ?thesis unfolding branch_grows_def mem_ops_simps by blast
qed

text \<open>
  A run in which the model calls a tool before it answers; a subscriber queues a note whenever a message starts, and keeps a list
  of what it has queued.
\<close>

definition noted :: entry_kind where
  "noted = CustomEntry (js ''note'') None"

definition note_message ::
  "harness_event \<Rightarrow> ((mem_storage, unit, entry_kind list) harness, unit) step" where
  "note_message e w =
     (case e of
        Agent_event (Message_start m) \<Rightarrow>
          (if ah_phase w = Phase_idle then (Inr (), w)
           else (Inr (), w\<lparr>ah_pendingWrites := ah_pendingWrites w @ [noted], ah_host := ah_host w @ [noted]\<rparr>))
      | _ \<Rightarrow> (Inr (), w))"

definition tool_answer :: "message list \<Rightarrow> assistant_message" where
  "tool_answer ms =
     (if list_ex is_tool_result (map Llm ms) then demo_answer
      else sample_assistant [AToolCall \<lparr>call_id = js ''c'', call_name = js ''t'', call_arguments = JNull,
        call_thoughtSignature = None\<rparr>] SR_toolUse)"

definition noting_deps :: "(mem_storage, unit, entry_kind list) hdeps" where
  "noting_deps =
     \<lparr>hd_ops = mem_ops, hd_sessionId = (\<lambda>s. js ''s''), hd_subscribers = [note_message], hd_beforeAgentStart = [], hd_context = [],
      hd_beforeProviderRequest = [], hd_beforeProviderPayload = [], hd_toolCall = [], hd_toolResult = [],
      hd_beforeCompact = [], hd_beforeTree = [], hd_systemPrompt = None, hd_getApiKeyAndHeaders = None,
      hd_provider = (\<lambda>model ctx rq w. (Inr \<lparr>resp_events = [Ev_done SR_stop (tool_answer (llm_messages ctx))],
        resp_result = Inr (tool_answer (llm_messages ctx))\<rparr>, w)),
      hd_completion = (\<lambda>model system prompt opts w. (Inr demo_answer, w)),
      hd_tool = (\<lambda>_. \<lparr>tool_name = js ''t'', tool_description = [], tool_parameters = JNull, tool_label = [],
        tool_prepareArguments = None, tool_execute = (\<lambda>i a w. (([], Inl (js ''no'')), w)), tool_executionMode = None\<rparr>),
      hd_validateToolArguments = (\<lambda>t c. Inr (call_arguments c)), hd_now = (\<lambda>w. 7), hd_schedule = (\<lambda>w xs. 0),
      hd_getTime = (\<lambda>s. None)\<rparr>"

definition noting_harness :: "(mem_storage, unit, entry_kind list) harness" where
  "noting_harness = new_harness noting_deps
     \<lparr>hopt_session = sample_storage, hopt_sessionIds = sample_host, hopt_resources = None, hopt_streamOptions = None,
      hopt_tools = Some [()], hopt_model = demo_model, hopt_thinkingLevel = None, hopt_activeToolNames = None,
      hopt_steeringMode = None, hopt_followUpMode = None\<rparr> []"

lemma note_message_obeys: "step_obeys (records id mem_ops mem_good N) [] (note_message e)"
proof -
  have "records id mem_ops mem_good N w []
      (w\<lparr>ah_pendingWrites := ah_pendingWrites w @ [noted], ah_host := ah_host w @ [noted]\<rparr>)" for w :: "(mem_storage, unit, entry_kind list) harness"
    by (auto simp: records_def wrote_def harness_ready_def branch_grows_def noted_def plain_write_def)
  then show ?thesis
    by (auto simp: step_obeys_def note_message_def recording.idle split: harness_event.splits agent_event.splits)
qed

lemma noting_callbacks: "callbacks_obey (records id mem_ops mem_good N) noting_deps"
  using note_message_obeys
  by (simp add: callbacks_obey_def subscribers_obey_def hooks_obey_def host_obeys_def noting_deps_def
      callback_obeys_def recording.idle)

lemma noting_ready: "harness_ready mem_ops mem_good 10 noting_harness"
proof -
  have "host_ids sample_host 8 (entry_ids sample_entries)"
    unfolding host_ids_def sample_host_def host.simps
    by (rule counting_uuid_supply) (simp_all add: sample_entries_def sample_entry_def)
  with sample_storage_good show ?thesis
    by (simp add: harness_ready_def room_def noting_harness_def new_harness_def noting_deps_def sample_storage_def
        sample_entries_def)
qed

lemma noting_run:
  "case harness_prompt 6 noting_deps (js ''hi'') None noting_harness of
     None \<Rightarrow> False
   | Some (r, w') \<Rightarrow> r = Inr demo_answer \<and> length (ms_entries (ah_storage w')) = 10 \<and> ah_host w' = [noted, noted, noted, noted]
       \<and> length (message_ends (prompt_trace 6 noting_deps (pick_text (js ''hi'') None) noting_harness)) = 4"
  by code_simp

theorem prompt_persists_transcript_witness:
  "\<exists>w' new us. harness_prompt 6 noting_deps (js ''hi'') None noting_harness = Some (Inr demo_answer, w')
    \<and> us = prompt_trace 6 noting_deps (pick_text (js ''hi'') None) noting_harness \<and> length (message_ends us) = 4
    \<and> ms_entries (ah_storage w') = sample_entries @ new
    \<and> map en_kind new \<in> shuffles (map MessageEntry (message_ends us)) [noted, noted, noted, noted]
    \<and> mem_good (ah_storage w') \<and> ah_phase w' = Phase_idle \<and> ah_pendingWrites w' = []"
proof -
  let ?us = "prompt_trace 6 noting_deps (pick_text (js ''hi'') None) noting_harness"
  from noting_run obtain w' where run: "harness_prompt 6 noting_deps (js ''hi'') None noting_harness = Some (Inr demo_answer, w')"
    and len: "length (ms_entries (ah_storage w')) \<le> 10" and host: "ah_host w' = [noted, noted, noted, noted]"
    and ends: "length (message_ends ?us) = 4" by (auto split: option.splits)
  have ops: "hd_ops noting_deps = mem_ops" by (simp add: noting_deps_def)
  have start: "ah_phase noting_harness = Phase_idle" "ms_entries (ah_storage noting_harness) = sample_entries"
    "ah_host noting_harness = []" "ah_pendingWrites noting_harness = []"
    by (simp_all add: noting_harness_def new_harness_def sample_storage_def Let_def)
  note run' = disjI1 [OF conjI [OF run refl]]
  from prompt_persists_transcript [OF ops noting_callbacks noting_ready start(1) run' len, of "\<lambda>_. None"] host start(2-4)
  obtain new where new: "mem_good (ah_storage w')" "ah_phase w' = Phase_idle" "ah_pendingWrites w' = []"
    "ms_entries (ah_storage w') = sample_entries @ new"
    "map en_kind new \<in> shuffles (map MessageEntry (message_ends ?us)) [noted, noted, noted, noted]" by auto
  show ?thesis by (rule exI [of _ w'], rule exI [of _ new], rule exI [of _ ?us]) (use run ends new in simp)
qed

section \<open>Queues\<close>

text \<open>A subscriber that may add to a queue, but takes nothing from it.\<close>

definition only_adds :: "harness_queue \<Rightarrow> ('s, 't, 'x) harness \<Rightarrow> agent_event list \<Rightarrow> ('s, 't, 'x) harness \<Rightarrow> bool" where
  "only_adds q w ts w' \<longleftrightarrow> prefix (queue_of q w) (queue_of q w') \<and> ah_queueEpoch w' = ah_queueEpoch w"

interpretation adding: agent_law "only_adds q" for q
  by unfold_locales (auto simp: only_adds_def)

lemma queue_of_set: "queue_of q (set_queue q ms w) = ms" "ah_queueEpoch (set_queue q ms w) = ah_queueEpoch w"
  "mode_of q (set_queue q ms w) = mode_of q w"
  by (cases q; simp)+

text \<open>
  C34: Draining a queue of steering or follow-up messages delivers a prefix of it, at least one message if there is one and
  only one in the mode one-at-a-time, and keeps the rest with what subscribers add meanwhile; when a subscriber throws,
  nothing is delivered and nothing lost.
\<close>

theorem drain_loses_nothing:
  assumes "subscribers_obey (only_adds q) d" and "drainQueuedMessages d q w = (r, w')"
  shows "\<exists>added. case r of
      Inr ms \<Rightarrow> ms @ queue_of q w' = queue_of q w @ added \<and> prefix ms (queue_of q w)
        \<and> (ms = [] \<longleftrightarrow> queue_of q w = []) \<and> (mode_of q w = Queue_one_at_a_time \<longrightarrow> length ms \<le> 1)
    | Inl e \<Rightarrow> queue_of q w' = queue_of q w @ added"
proof -
  define ms where "ms = (if mode_of q w = Queue_all then queue_of q w else take 1 (queue_of q w))"
  define rest where "rest = drop (length ms) (queue_of q w)"
  have split: "queue_of q w = ms @ rest" by (cases "queue_of q w") (simp_all add: ms_def rest_def)
  have some: "ms = [] \<longleftrightarrow> queue_of q w = []" by (simp add: ms_def take_eq_Nil)
  have one: "mode_of q w = Queue_one_at_a_time \<longrightarrow> length ms \<le> 1" by (simp add: ms_def)
  obtain x w1 where e: "emitQueueUpdate d (set_queue q rest w) = (x, w1)" by fastforce
  have "step_obeys (only_adds q) [] (emitOwn d ev)" for ev
    using assms(1) by (auto simp: emitOwn_def subscribers_obey_def intro: adding.notify_obeys)
  then have "only_adds q (set_queue q rest w) [] w1"
    using e by (metis emitQueueUpdate_def snd_conv step_obeys_def)
  then obtain added where w1: "queue_of q w1 = rest @ added" "ah_queueEpoch w1 = ah_queueEpoch w"
    by (auto simp: only_adds_def queue_of_set prefix_def)
  show ?thesis
  proof (cases "ms = []")
    case True
    with assms(2) have "r = Inr []" "w' = set_queue q rest w" "rest = []"
      using some by (auto simp: drainQueuedMessages_def Let_def ms_def [symmetric] rest_def)
    with True some show ?thesis by (intro exI [of _ "[]"]) (simp add: queue_of_set)
  next
    case False
    with assms(2) e w1(2) have "(r, w') = (case x of Inr u \<Rightarrow> (Inr ms, w1)
        | Inl err \<Rightarrow> (Inl (Harness_thrown (normalizeHookError err)), set_queue q (ms @ queue_of q w1) w1))"
      by (auto simp: drainQueuedMessages_def Let_def ms_def [symmetric] rest_def [symmetric] split: sum.splits)
    with w1(1) some one split show ?thesis
      by (intro exI [of _ added]) (auto simp: queue_of_set split: sum.splits)
  qed
qed

lemma drain_loses_nothing_witness:
  "\<exists>w'. drainQueuedMessages demo_harness_deps Steer_queue (demo_harness\<lparr>ah_steerQueue := [demo_prompt, demo_prompt]\<rparr>)
      = (Inr [demo_prompt], w') \<and> queue_of Steer_queue w' = [demo_prompt]"
proof -
  let ?w = "demo_harness\<lparr>ah_steerQueue := [demo_prompt, demo_prompt]\<rparr>"
  have "subscribers_obey (only_adds Steer_queue) demo_harness_deps"
    by (simp add: subscribers_obey_def demo_harness_deps_def)
  moreover obtain w' where w': "drainQueuedMessages demo_harness_deps Steer_queue ?w = (Inr [demo_prompt], w')"
    by (simp add: drainQueuedMessages_def emitQueueUpdate_def emitOwn_def demo_harness_deps_def step_ret_def Let_def
        demo_harness_def new_harness_def)
  ultimately obtain added where "[demo_prompt] @ queue_of Steer_queue w' = queue_of Steer_queue ?w @ added"
    using drain_loses_nothing [of Steer_queue demo_harness_deps ?w "Inr [demo_prompt]" w'] by auto
  moreover have "queue_of Steer_queue w' = [demo_prompt]"
    using w' by (auto simp: drainQueuedMessages_def emitQueueUpdate_def emitOwn_def demo_harness_deps_def step_ret_def
      Let_def demo_harness_def new_harness_def)
  ultimately show ?thesis using w' by blast
qed

section \<open>Refusals\<close>

text \<open>A busy harness refuses what needs an idle one, and steering needs a run; both leave the harness as it is.\<close>

lemma busy_refused:
  assumes "ah_phase w \<noteq> Phase_idle"
  shows "run_prompt n d pick w = Some (Inl (busy_error ''AgentHarness is busy''), w)"
    and "harness_compact d instructions w = (Inl (busy_error ''compact() requires idle harness''), w)"
    and "navigateTree d target opts w = (Inl (busy_error ''navigateTree() requires idle harness''), w)"
  using assms by (simp_all add: run_prompt_def harness_compact_def navigateTree_def in_phase_def)

lemma idle_not_steered:
  "ah_phase w = Phase_idle \<Longrightarrow> harness_steer d s images w = (Inl (own_error HE_invalid_state ''Cannot steer while idle''), w)"
  by (simp add: harness_steer_def)

section \<open>Flaws\<close>

text \<open>
  Messages queued for the next turn are taken from their queue before the \<^verbatim>\<open>before_agent_start\<close> hooks run; when a hook throws
  the prompt fails and they are gone, neither queued nor in the session.
\<close>

definition failing_hook :: "(mem_storage, unit, unit) hdeps" where
  "failing_hook = demo_harness_deps\<lparr>hd_beforeAgentStart := [\<lambda>e w. (Inl (Other_thrown (js ''no'')), w)]\<rparr>"

lemma next_turn_messages_lost:
  "map_option (\<lambda>(r, w'). (r, ah_nextTurnQueue w', length (ms_entries (ah_storage w'))))
     (harness_prompt 3 failing_hook (js ''hi'') None (demo_harness\<lparr>ah_nextTurnQueue := [demo_prompt]\<rparr>))
   = Some (Inl \<lparr>he_code = HE_hook, he_message = js ''no''\<rparr>, [], 2)"
  by code_simp

text \<open>
  A message appended during a compaction waits in the pending writes; nothing flushes them when the phase ends, so a message
  appended afterwards to the idle harness precedes it in the session.
\<close>

lemma appended_messages_swapped:
  assumes "ah_phase w = Phase_idle" and "ah_pendingWrites w = []"
  shows "\<exists>u w1. harness_appendMessage d m1 (w\<lparr>ah_phase := Phase_compaction\<rparr>) = (Inr u, w1)
    \<and> w1\<lparr>ah_phase := Phase_idle\<rparr> = w\<lparr>ah_pendingWrites := [MessageEntry m1]\<rparr>
    \<and> harness_appendMessage d m2 (w1\<lparr>ah_phase := Phase_idle\<rparr>) =
        (case harness_appendMessage d m2 w of (r, w2) \<Rightarrow> (r, w2\<lparr>ah_pendingWrites := [MessageEntry m1]\<rparr>))"
  using assms
  by (auto simp: harness_appendMessage_def normalize_step_def step_rethrow_def write_or_queue_def on_session_def
      split: prod.splits sum.splits)

end
