(* ===== verification/Harness_Tree.thy ===== *)
theory Harness_Tree
  imports Harness_Prompts
begin

text \<open>
  Compaction and navigation by the harness, from the guards over the hooks and the model's summary to the context that the
  session has afterwards.
\<close>

section \<open>Callbacks that leave the session alone\<close>

definition keeps_session :: "('s, 't, 'x) harness \<Rightarrow> agent_event list \<Rightarrow> ('s, 't, 'x) harness \<Rightarrow> bool" where
  "keeps_session w ts w' \<longleftrightarrow> ah_storage w' = ah_storage w \<and> ah_ids w' = ah_ids w"

interpretation keeping: agent_law keeps_session
  by unfold_locales (simp_all add: keeps_session_def)

lemma keeps_sessionD: "step_obeys keeps_session [] m \<Longrightarrow> m w = (r, w') \<Longrightarrow> ah_storage w' = ah_storage w \<and> ah_ids w' = ah_ids w"
  by (metis keeps_session_def snd_conv step_obeys_def)

lemma step_then_Inr:
  assumes "step_then m f w = (Inr b, w')"
  obtains a w1 where "m w = (Inr a, w1)" and "f a w1 = (Inr b, w')"
  using assms by (auto simp: step_then_def split: prod.splits sum.splits)

lemma keeps_emitOwn: "callbacks_obey keeps_session d \<Longrightarrow> step_obeys keeps_session [] (emitOwn d e)"
  unfolding emitOwn_def callbacks_obey_def subscribers_obey_def by (auto intro: keeping.notify_obeys)

lemma keeps_auth: "callbacks_obey keeps_session d \<Longrightarrow> step_obeys keeps_session [] (request_auth d model)"
  unfolding callbacks_obey_def hooks_obey_def request_auth_def by (auto split: option.splits)

lemma keeps_hooks: "\<forall>h\<in>set hs. \<forall>e. step_obeys keeps_session [] (h e) \<Longrightarrow> step_obeys keeps_session [] (emitHook hs e)"
  unfolding emitHook_def by (auto intro: keeping.run_hooks_obey)

text \<open>The result of hooks none of which gives a value with a property has it neither.\<close>

lemma run_hooks_result:
  assumes "\<forall>h\<in>set hs. \<forall>e w c w'. h e w = (Inr (Some c), w') \<longrightarrow> Q c" and "\<forall>c. r = Some c \<longrightarrow> Q c"
    and "run_hooks hs e r w = (Inr (Some c), w')"
  shows "Q c"
  using assms
proof (induction hs arbitrary: r w)
  case (Cons h hs)
  from Cons.prems(3) obtain x w1 where x: "as_hook_error (h e) w = (Inr x, w1)"
    "run_hooks hs e (nullish_opt x r) w1 = (Inr (Some c), w')" by (auto elim: step_then_Inr)
  from x(1) have "h e w = (Inr x, w1)" by (auto simp: as_hook_error_def step_rethrow_def split: prod.splits sum.splits)
  moreover have "\<forall>c. h e w = (Inr (Some c), w1) \<longrightarrow> Q c" using Cons.prems(1) by (meson list.set_intros(1))
  ultimately have "\<forall>c. nullish_opt x r = Some c \<longrightarrow> Q c" using Cons.prems(2) by (cases x) simp_all
  with Cons.IH [OF _ this x(2)] Cons.prems(1) show ?case by auto
qed (simp add: step_ret_def)

section \<open>Asking for a summary keeps the session\<close>

lemma summary_keeps:
  assumes "\<forall>model system prompt opts. callback_obeys keeps_session (ask model system prompt opts)"
  shows "generateSummary ask ms model reserve key hs ci prev level w = (r, w') \<Longrightarrow> keeps_session w [] w'"
    and "generateTurnPrefixSummary ask ms model reserve key hs level w = (r, w') \<Longrightarrow> keeps_session w [] w'"
  using assms by (auto simp: generateSummary_def generateTurnPrefixSummary_def Let_def callback_obeys_def
      split: prod.splits sum.splits) (metis snd_conv)+

lemma compact_keeps:
  assumes "\<forall>model system prompt opts. callback_obeys keeps_session (ask model system prompt opts)"
    and "compact ask p model key hs ci level w = (r, w')"
  shows "keeps_session w [] w'"
  using assms(2) summary_keeps [OF assms(1)]
  by (auto simp: compact_def Let_def keeps_session_def split: prod.splits sum.splits if_splits)

lemma of_walk_Inr: "of_walk r = Inr a \<Longrightarrow> r = Some (Inr a)"
  by (cases r; cases "the r") (auto simp: of_walk_def)

lemma on_session_Inr: "on_session f v = (Inr a, w) \<Longrightarrow> f (ah_storage v) (ah_ids v) = (Inr a, ah_storage w, ah_ids w)"
proof -
  assume o: "on_session f v = (Inr a, w)"
  obtain r s h where f: "f (ah_storage v) (ah_ids v) = (r, s, h)" by (metis prod_cases3)
  with o show ?thesis by (cases r) (auto simp: on_session_def)
qed

section \<open>Compaction\<close>

lemma compact_first_kept:
  "compact ask p model key hs ci level w = (Inr (Inr r), w') \<Longrightarrow> cr_firstKeptEntryId r = pr_firstKeptEntryId p"
  by (auto simp: compact_def compaction_outcome_def Let_def split: prod.splits sum.splits if_splits)

text \<open>A compaction that the model writes: it keeps what the preparation says, and the session has not changed before it is written.\<close>

lemma compact_body_written:
  assumes "callbacks_obey keeps_session d" and "compact_body d ci w = (Inr res, w')"
    and "\<forall>h\<in>set (hd_beforeCompact d). \<forall>e w c w'. h e w = (Inr (Some c), w') \<longrightarrow> bc_compaction c = None"
  obtains branch p v where "session_getBranch (hd_ops d) None (ah_storage w) = Some (Inr branch)"
    and "prepareCompaction (hd_getTime d) branch DEFAULT_COMPACTION_SETTINGS = Inr (Some p)"
    and "hc_firstKeptEntryId res = pr_firstKeptEntryId p" and "keeps_session w [] v"
    and "write_compaction d (res, False) v = (Inr res, w')"
proof -
  from assms(2) obtain a w1 where a: "request_auth d (ah_model w) w = (Inr (Some a), w1)" and
    b: "step_then (ask_session (\<lambda>s. of_walk (session_getBranch (hd_ops d) None s))) (\<lambda>branchEntries.
            case prepareCompaction (hd_getTime d) branchEntries DEFAULT_COMPACTION_SETTINGS of
              Inl e \<Rightarrow> step_throw (Compaction_thrown e)
            | Inr None \<Rightarrow> step_throw (own_error HE_compaction ''Nothing to compact'')
            | Inr (Some p) \<Rightarrow>
                step_then (emitHook (hd_beforeCompact d) \<lparr>bc_preparation = p, bc_branchEntries = branchEntries,
                    bc_customInstructions = ci\<rparr>) (\<lambda>r.
                  if Option.bind r bc_cancel = Some True then step_throw (own_error HE_compaction ''Compaction cancelled'')
                  else step_then (compaction_of d p (ah_model w) a ci r) (write_compaction d))) w1 = (Inr res, w')"
    unfolding compact_body_def Let_def
    by (elim step_then_Inr) (auto simp: step_throw_def split: option.splits)
  from b obtain branch p r w2 w3 q where br: "of_walk (session_getBranch (hd_ops d) None (ah_storage w1)) = Inr branch"
    and p: "prepareCompaction (hd_getTime d) branch DEFAULT_COMPACTION_SETTINGS = Inr (Some p)"
    and r: "emitHook (hd_beforeCompact d) \<lparr>bc_preparation = p, bc_branchEntries = branch, bc_customInstructions = ci\<rparr> w1 = (Inr r, w2)"
    and q: "compaction_of d p (ah_model w) a ci r w2 = (Inr q, w3)" and wr: "write_compaction d q w3 = (Inr res, w')"
    by (elim step_then_Inr) (auto simp: step_throw_def ask_session_def elim!: step_then_Inr split: sum.splits option.splits if_splits)
  have none: "Option.bind r bc_compaction = None"
  proof (cases r)
    case (Some c)
    with run_hooks_result [OF assms(3) _ r [unfolded emitHook_def Some]] show ?thesis by simp
  qed simp
  then obtain c where c: "compact (hd_completion d) p (ah_model w) (au_apiKey a) (au_headers a) ci (Some (ah_thinkingLevel w2)) w2 = (Inr (Inr c), w3)"
    and q': "q = (\<lparr>hc_summary = cr_summary c, hc_firstKeptEntryId = cr_firstKeptEntryId c,
      hc_tokensBefore = cr_tokensBefore c, hc_details = Some (cr_details c)\<rparr>, False)"
    using q by (auto simp: compaction_of_def split: prod.splits sum.splits)
  have res: "q = (res, False)" using wr q' by (auto simp: write_compaction_def step_ret_def elim!: step_then_Inr)
  have "\<forall>model system prompt opts. callback_obeys keeps_session (hd_completion d model system prompt opts)"
    using assms(1) by (simp add: callbacks_obey_def host_obeys_def)
  note k = keeps_sessionD [OF keeps_auth [OF assms(1)] a] keeps_sessionD [OF keeps_hooks r] compact_keeps [OF this c]
  have "ah_storage w2 = ah_storage w1 \<and> ah_ids w2 = ah_ids w1"
    by (rule k(2)) (use assms(1) in \<open>simp add: callbacks_obey_def hooks_obey_def\<close>)
  with k(1,3) have "keeps_session w [] w3" by (simp add: keeps_session_def)
  moreover have "session_getBranch (hd_ops d) None (ah_storage w) = Some (Inr branch)"
    using of_walk_Inr [OF br] k(1) by simp
  ultimately show thesis using that p wr res q' compact_first_kept [OF c] by auto
qed

lemma write_compaction_entry:
  assumes "hd_ops d = mem_ops" and "mem_good (ah_storage v)" and "host_ids (ah_ids v) 1 (entry_ids (ms_entries (ah_storage v)))"
    and "callbacks_obey keeps_session d" and "write_compaction d (res, fromHook) v = (Inr r, w')"
  obtains c dt where "ms_entries (ah_storage w') = ms_entries (ah_storage v) @ [c]" and "mem_good (ah_storage w')"
    and "session_branch mem_ops (ah_storage w') = session_branch mem_ops (ah_storage v) @ [c]"
    and "en_kind c = CompactionEntry dt" and "cd_summary dt = hc_summary res" and "cd_firstKeptEntryId dt = hc_firstKeptEntryId res"
    and "cd_tokensBefore dt = hc_tokensBefore res" and "en_id c \<notin> entry_ids (ms_entries (ah_storage v))"
proof -
  let ?dt = "\<lparr>cd_summary = hc_summary res, cd_firstKeptEntryId = hc_firstKeptEntryId res,
       cd_tokensBefore = hc_tokensBefore res, cd_details = hc_details res, cd_fromHook = Some fromHook,
       cd_firstKeptEntryIndex = None\<rparr>"
  from assms(5) obtain i w1 where ap: "on_session (session_appendCompaction (hd_ops d) (hc_summary res) (hc_firstKeptEntryId res)
      (hc_tokensBefore res) (hc_details res) (Some fromHook)) v = (Inr i, w1)"
    and an: "announce_compaction d i fromHook w1 = (Inr (), w')"
    by (auto simp: write_compaction_def step_ret_def elim!: step_then_Inr)
  from on_session_Inr [OF ap] assms(1)
  have a: "append_at_leaf mem_ops (CompactionEntry ?dt) (ah_storage v) (ah_ids v) = (Inr i, ah_storage w1, ah_ids w1)"
    by (simp add: session_appendCompaction_def)
  have stays: "ah_storage w' = ah_storage w1"
    using an keeps_sessionD [OF keeps_emitOwn [OF assms(4)]]
    by (auto simp: announce_compaction_def split: option.splits if_splits)
  have "host_ids (ah_ids v) (Suc 0) (entry_ids (op_getEntries mem_ops (ah_storage v)))" using assms(3) by simp
  moreover have still: "\<not> moves_leaf (CompactionEntry ?dt)" by (simp add: moves_leaf_def)
  ultimately obtain c where c: "mem_good (ah_storage w1)" "ms_entries (ah_storage w1) = ms_entries (ah_storage v) @ [c]"
    "en_kind c = CompactionEntry ?dt" "en_parentId c = leaf_after (ms_entries (ah_storage v))"
    using mem.append_at_leaf_ok [OF assms(2) _ _ a] by auto
  have "session_branch mem_ops (ah_storage w1) = session_branch mem_ops (ah_storage v) @ [c]"
    unfolding session_branch_def by (rule mem.branch_after_append [OF assms(2) c(1)]) (use c still in simp_all)
  moreover have "en_id c \<notin> entry_ids (ms_entries (ah_storage v))"
    using mem.entries_ok [OF c(1)] by (simp add: c(2) session_ok_snoc)
  ultimately show thesis using that c stays by auto
qed

text \<open>
  C35: When hooks and subscribers leave the session alone and no hook provides a compaction, a compaction that succeeds adds
  one entry; the context then is the new summary followed by messages that were the end of the context before, and what came
  before them, with the earlier summary, is what the model was given to summarise. The harness is idle again.
\<close>

theorem compaction_shortens_context:
  assumes "hd_ops d = mem_ops" and "mem_good (ah_storage w)" and "host_ids (ah_ids w) 1 (entry_ids (ms_entries (ah_storage w)))"
    and "callbacks_obey keeps_session d"
    and "\<forall>h\<in>set (hd_beforeCompact d). \<forall>e w c w'. h e w = (Inr (Some c), w') \<longrightarrow> bc_compaction c = None"
    and "compaction_path (session_branch mem_ops (ah_storage w))"
    and "kept_ids (session_branch mem_ops (ah_storage w)) \<subseteq> entry_ids (ms_entries (ah_storage w))"
    and "harness_compact d instructions w = (Inr res, w')"
  shows "\<exists>p kept c. prepareCompaction (hd_getTime d) (session_branch mem_ops (ah_storage w)) DEFAULT_COMPACTION_SETTINGS = Inr (Some p)
    \<and> context_messages (hd_getTime d) mem_ops (ah_storage w) = previous_summary (hd_getTime d) (session_branch mem_ops (ah_storage w))
        @ pr_messagesToSummarize p @ pr_turnPrefixMessages p @ kept
    \<and> context_messages (hd_getTime d) mem_ops (ah_storage w') = CompactionSummary (createCompactionSummaryMessage (hd_getTime d)
        (hc_summary res) (hc_tokensBefore res) (en_timestamp c)) # kept
    \<and> ms_entries (ah_storage w') = ms_entries (ah_storage w) @ [c]
    \<and> mem_good (ah_storage w') \<and> ah_phase w' = Phase_idle"
proof -
  let ?es = "session_branch mem_ops (ah_storage w)"
  from assms(8) obtain w1 where body: "compact_body d instructions (w\<lparr>ah_phase := Phase_compaction\<rparr>) = (Inr res, w1)"
    and w': "w' = w1\<lparr>ah_phase := Phase_idle\<rparr>"
    by (auto simp: harness_compact_def in_phase_def split: if_splits prod.splits sum.splits)
  from compact_body_written [OF assms(4) body assms(5)] obtain branch p v where
    b: "session_getBranch mem_ops None (ah_storage w) = Some (Inr branch)"
    and p: "prepareCompaction (hd_getTime d) branch DEFAULT_COMPACTION_SETTINGS = Inr (Some p)"
    and kept: "hc_firstKeptEntryId res = pr_firstKeptEntryId p" and v: "ah_storage v = ah_storage w" "ah_ids v = ah_ids w"
    and wr: "write_compaction d (res, False) v = (Inr res, w1)"
    unfolding assms(1) keeps_session_def by simp metis
  have branch: "branch = ?es" using mem.getBranch_leaf [OF assms(2)] b by (simp add: session_branch_def)
  from write_compaction_entry [OF assms(1) _ _ assms(4) wr] assms(2,3) v obtain c dt where
    c: "ms_entries (ah_storage w1) = ms_entries (ah_storage w) @ [c]" "mem_good (ah_storage w1)"
      "session_branch mem_ops (ah_storage w1) = ?es @ [c]" "en_kind c = CompactionEntry dt"
      "cd_summary dt = hc_summary res" "cd_firstKeptEntryId dt = hc_firstKeptEntryId res"
      "cd_tokensBefore dt = hc_tokensBefore res" "en_id c \<notin> entry_ids (ms_entries (ah_storage w))"
    by (metis (no_types))
  have "is_path (ms_entries (ah_storage w)) ?es"
    using branch_of_is_path [OF mem.tree mem.leaf] assms(2) by (simp add: session_branch_def)
  then have "en_id ` set ?es \<subseteq> entry_ids (ms_entries (ah_storage w))" unfolding is_path_def by blast
  with assms(7) c(8) have fresh: "en_id c \<notin> en_id ` set ?es \<union> kept_ids ?es" by blast
  have "cd_firstKeptEntryId dt = pr_firstKeptEntryId p" using c(6) kept by simp
  from compaction_partitions_context' [OF assms(6) p [unfolded branch] c(4) this fresh] obtain ks where
    "path_messages (hd_getTime d) ?es = previous_summary (hd_getTime d) ?es @ pr_messagesToSummarize p @ pr_turnPrefixMessages p @ ks"
    "path_messages (hd_getTime d) (?es @ [c]) = CompactionSummary (createCompactionSummaryMessage (hd_getTime d)
        (cd_summary dt) (cd_tokensBefore dt) (en_timestamp c)) # ks" by blast
  then show ?thesis using p branch c w'
    by (intro exI [of _ p], intro exI [of _ ks], intro exI [of _ c]) (simp add: context_messages_def)
qed

section \<open>Navigation\<close>

lemma branch_summary_keeps:
  assumes "callbacks_obey keeps_session d"
  shows "step_obeys keeps_session [] (branch_summary_of d opts es r)"
proof -
  have ask: "\<forall>model system prompt opts. callback_obeys keeps_session (hd_completion d model system prompt opts)"
    using assms by (simp add: callbacks_obey_def host_obeys_def)
  have gen: "step_obeys keeps_session [] (from_callback (generateBranchSummary (hd_completion d) t es o'))" for t es o'
  proof (rule step_of_callback, unfold callback_obeys_def, intro allI)
    fix w show "keeps_session w [] (snd (generateBranchSummary (hd_completion d) t es o' w))"
      using ask by (auto simp: generateBranchSummary_def Let_def callback_obeys_def keeps_session_def split: prod.splits sum.splits)
        (metis snd_conv)+
  qed
  have body: "step_obeys keeps_session [] (step_then (request_auth d model) (\<lambda>a.
      case a of None \<Rightarrow> step_throw e | Some auth \<Rightarrow> step_then (from_callback (generateBranchSummary (hd_completion d) t es (f auth)))
        (\<lambda>r. case r of Inl e \<Rightarrow> (if be_code e = BE_aborted then step_ret None else step_throw (g e))
          | Inr b \<Rightarrow> step_ret (h b))))" for model e t f g and h :: "_ \<Rightarrow> 'z option"
    by (intro keeping.step_then_obeys [OF keeps_auth [OF assms] _ refl])
      (auto intro!: keeping.step_then_obeys [OF gen _ refl] split: option.splits sum.splits)
  have "keeps_session w [] (snd (branch_summary_of d opts es r w))" for w
  proof (cases "truthy_str (map_option fst (Option.bind r bt_summary)) \<or> no_summarize opts \<noteq> Some True \<or> es = []")
    case True
    then show ?thesis by (simp add: branch_summary_of_def keeping.idle)
  next
    case False
    show ?thesis unfolding branch_summary_of_def Let_def if_not_P [OF False]
      by (rule body [unfolded step_obeys_def, rule_format])
  qed
  then show ?thesis by (simp add: step_obeys_def)
qed

lemma lift_session_error_Inr: "lift_session_error r = Inr a \<longleftrightarrow> r = Inr a"
  by (cases r) (simp_all add: lift_session_error_def)

lemma navigate_moves:
  assumes "callbacks_obey keeps_session d" and "navigate_body d target opts w = (Inr res, w')" and "\<not> nr_cancelled res"
    and "op_getLeafId (hd_ops d) (ah_storage w) \<noteq> Inr (Some target)"
  obtains e leaf su fromHook v where "op_getEntry (hd_ops d) (ah_storage w) target = Some e" and "keeps_session w [] v"
    and "move_and_report d e leaf su fromHook v = (Inr res, w')"
proof -
  from assms(2,4) obtain leaf e c r w1 x w2 where e: "op_getEntry (hd_ops d) (ah_storage w) target = Some e"
    and r: "emitHook (hd_beforeTree d) (tree_preparation_of opts target leaf c) w = (Inr r, w1)"
    and x: "(if Option.bind r bt_cancel = Some True then step_ret (cancelled True)
             else step_then (branch_summary_of d opts (ce_entries c) r) (\<lambda>summary.
                 case summary of None \<Rightarrow> step_ret (cancelled True)
                 | Some su \<Rightarrow> move_and_report d e leaf su (Option.bind r bt_summary \<noteq> None))) w1 = (Inr res, w')"
    unfolding navigate_body_def
    by (elim step_then_Inr)
      (auto simp: ask_session_def step_throw_def lift_session_error_Inr split: if_splits option.splits sum.splits elim!: step_then_Inr)
  from x assms(3) obtain su w3 where s: "branch_summary_of d opts (ce_entries c) r w1 = (Inr (Some su), w3)"
    and m: "move_and_report d e leaf su (Option.bind r bt_summary \<noteq> None) w3 = (Inr res, w')"
    by (auto simp: cancelled_def step_ret_def split: if_splits option.splits elim!: step_then_Inr)
  have "ah_storage w1 = ah_storage w \<and> ah_ids w1 = ah_ids w"
    by (rule keeps_sessionD [OF keeps_hooks r]) (use assms(1) in \<open>simp add: callbacks_obey_def hooks_obey_def\<close>)
  with keeps_sessionD [OF branch_summary_keeps [OF assms(1)] s] have "keeps_session w [] w3" by (simp add: keeps_session_def)
  with e m that show thesis by blast
qed

text \<open>Moving in a session in memory.\<close>

lemma move_and_report_moves:
  assumes "hd_ops d = mem_ops" and "mem_good (ah_storage v)" and "host_ids (ah_ids v) 2 (entry_ids (ms_entries (ah_storage v)))"
    and "callbacks_obey keeps_session d" and "e \<in> set (ms_entries (ah_storage v))"
    and "move_and_report d e leaf su fromHook v = (Inr res, w')"
  obtains ext where "mem_good (ah_storage w')" and "ms_entries (ah_storage w') = ms_entries (ah_storage v) @ ext"
    and "session_branch mem_ops (ah_storage w') = branch_of (ms_entries (ah_storage v)) (fst (navigation_target e))
      @ (case nr_summaryEntry res of None \<Rightarrow> [] | Some s \<Rightarrow> [s])"
    and "nr_editorText res = snd (navigation_target e)"
    and "nr_summaryEntry res \<noteq> None \<longleftrightarrow> truthy_str (map_option fst su)"
proof -
  obtain l editor where nt: "navigation_target e = (l, editor)" by fastforce
  let ?su = "if truthy_str (map_option fst su)
     then Some \<lparr>si_summary = fst (the su), si_details = snd (the su), si_fromHook = Some fromHook\<rparr> else None"
  have tree: "tree_ok (ms_entries (ah_storage v))" using mem.tree [OF assms(2)] by simp
  have l: "leaf_ok (op_getEntries mem_ops (ah_storage v)) l"
  proof -
    have "l = en_parentId e \<or> l = Some (en_id e)" using nt
      by (auto simp: navigation_target_def split: entry_kind.splits agent_message.splits message.splits)
    moreover have "leaf_ok (ms_entries (ah_storage v)) (en_parentId e)"
    proof (cases "en_parentId e")
      case (Some p)
      with tree_ok_parent [OF tree assms(5) this] show ?thesis by (metis imageI leaf_ok_simps(2))
    qed simp
    ultimately show ?thesis using assms(5) by auto
  qed
  have two: "host_ids (ah_ids v) (Suc (Suc 0)) (entry_ids (op_getEntries mem_ops (ah_storage v)))"
    using assms(3) by (simp add: numeral_2_eq_2)
  obtain j s' h' ext where mv: "session_moveTo mem_ops l ?su (ah_storage v) (ah_ids v) = (Inr j, s', h')" "mem_good s'"
    "op_getEntries mem_ops s' = op_getEntries mem_ops (ah_storage v) @ ext"
    and br: "case ?su of
        None \<Rightarrow> j = None \<and> branch_of (op_getEntries mem_ops s') (leaf_after (op_getEntries mem_ops s')) =
          branch_of (op_getEntries mem_ops (ah_storage v)) l
      | Some u \<Rightarrow> \<exists>e. branch_of (op_getEntries mem_ops s') (leaf_after (op_getEntries mem_ops s'))
            = branch_of (op_getEntries mem_ops (ah_storage v)) l @ [e] \<and> j = Some (en_id e)
          \<and> en_kind e = BranchSummaryEntry (nullish l (js ''root'')) (si_summary u) (si_details u) (si_fromHook u)"
    by (rule mem.moveTo_succeeds [OF assms(2) l two])
  have entry: "nr_summaryEntry res = (if truthy_str j then (case ms_byId s' (the j) of None \<Rightarrow> None
      | Some x \<Rightarrow> if kind_type (en_kind x) = ET_branch_summary then Some x else None) else None)"
    and stays: "ah_storage w' = s'" and text_ok: "nr_editorText res = editor"
    using assms(6) nt mv(1) keeps_sessionD [OF keeps_emitOwn [OF assms(4)]]
    unfolding move_and_report_def assms(1)
    by (auto simp: on_session_def ask_session_def Let_def step_ret_def elim!: step_then_Inr split: option.splits if_splits)
  show thesis
  proof (cases "truthy_str (map_option fst su)")
    case False
    with br entry stays text_ok mv nt that show thesis by (simp add: session_branch_def)
  next
    case True
    with br obtain e' where e': "session_branch mem_ops s' = branch_of (ms_entries (ah_storage v)) l @ [e']" "j = Some (en_id e')"
      "kind_type (en_kind e') = ET_branch_summary" by (auto simp: session_branch_def)
    have tree': "tree_ok (ms_entries s')" using mem.tree [OF mv(2)] by simp
    have "is_path (ms_entries s') (session_branch mem_ops s')"
      using branch_of_is_path [OF mem.tree mem.leaf] mv(2) by (simp add: session_branch_def)
    then have "e' \<in> set (ms_entries s')" by (simp add: e'(1) is_path_def)
    with tree' have "en_id e' \<noteq> []" "ms_byId s' (en_id e') = Some e'"
      using mv(2) index_by_tree [OF tree'] by (force simp: tree_ok_def mem_good_def)+
    with e' entry have "nr_summaryEntry res = Some e'" by simp
    with that e'(1) True stays text_ok mv nt show thesis by simp
  qed
qed

text \<open>
  C36: When hooks and subscribers leave the session alone, moving to another entry, unless it is cancelled, loses no entry
  and restores the branch of the target: up to the target, or up to its parent when it is a message of the user or
  a custom message, whose text is handed to the editor; the summary of the branch left, if there is one, comes after it
  and is the entry reported. The harness is idle again.
\<close>

theorem navigation_restores_branch:
  assumes "hd_ops d = mem_ops" and "mem_good (ah_storage w)" and "host_ids (ah_ids w) 2 (entry_ids (ms_entries (ah_storage w)))"
    and "callbacks_obey keeps_session d" and "leaf_after (ms_entries (ah_storage w)) \<noteq> Some target"
    and "navigateTree d target opts w = (Inr res, w')" and "\<not> nr_cancelled res"
  shows "\<exists>e ext leaf. e \<in> set (ms_entries (ah_storage w)) \<and> en_id e = target
    \<and> ms_entries (ah_storage w') = ms_entries (ah_storage w) @ ext \<and> mem_good (ah_storage w')
    \<and> session_branch mem_ops (ah_storage w') = branch_of (ms_entries (ah_storage w)) leaf
        @ (case nr_summaryEntry res of None \<Rightarrow> [] | Some s \<Rightarrow> [s])
    \<and> (case en_kind e of
          MessageEntry (Llm (UserM m)) \<Rightarrow> leaf = en_parentId e \<and> nr_editorText res = Some (content_text (um_content m))
        | CustomMessageEntry customType content details display \<Rightarrow>
            leaf = en_parentId e \<and> nr_editorText res = Some (content_text content)
        | _ \<Rightarrow> leaf = Some target \<and> nr_editorText res = None)
    \<and> ah_phase w' = Phase_idle"
proof -
  from assms(6) obtain w1 where body: "navigate_body d target opts (w\<lparr>ah_phase := Phase_branch_summary\<rparr>) = (Inr res, w1)"
    and w': "w' = w1\<lparr>ah_phase := Phase_idle\<rparr>"
    by (auto simp: navigateTree_def in_phase_def split: if_splits prod.splits sum.splits)
  have "op_getLeafId (hd_ops d) (ah_storage (w\<lparr>ah_phase := Phase_branch_summary\<rparr>)) \<noteq> Inr (Some target)"
    using mem.getLeafId [OF assms(2)] assms(5) by (simp add: assms(1))
  from navigate_moves [OF assms(4) body assms(7) this] obtain e leaf su fh v where
    e: "op_getEntry (hd_ops d) (ah_storage w) target = Some e" and v: "ah_storage v = ah_storage w" "ah_ids v = ah_ids w"
    and mv: "move_and_report d e leaf su fh v = (Inr res, w1)"
    unfolding keeps_session_def by simp metis
  have in_set: "e \<in> set (ms_entries (ah_storage w))" "en_id e = target"
    using e assms(2) unfolding assms(1) by (auto simp: mem_good_def dest: index_by_SomeD)
  from move_and_report_moves [OF assms(1) _ _ assms(4) _ mv] assms(2,3) v in_set(1) obtain ext where
    "mem_good (ah_storage w1)" "ms_entries (ah_storage w1) = ms_entries (ah_storage w) @ ext"
    "session_branch mem_ops (ah_storage w1) = branch_of (ms_entries (ah_storage w)) (fst (navigation_target e))
      @ (case nr_summaryEntry res of None \<Rightarrow> [] | Some s \<Rightarrow> [s])"
    "nr_editorText res = snd (navigation_target e)" by metis
  with in_set w' show ?thesis
    by (intro exI [of _ e], intro exI [of _ ext], intro exI [of _ "fst (navigation_target e)"])
      (simp add: navigation_target_def split: entry_kind.splits agent_message.splits message.splits)
qed

section \<open>Witnesses\<close>

lemma demo_keeps: "callbacks_obey keeps_session (demo_harness_deps\<lparr>hd_getApiKeyAndHeaders := f\<rparr>)"
  if "\<forall>g model. f = Some g \<longrightarrow> step_obeys keeps_session [] (g model)" for f
  using that by (simp add: callbacks_obey_def subscribers_obey_def hooks_obey_def host_obeys_def demo_harness_deps_def
      callback_obeys_def keeping.idle)

text \<open>Navigating to the first message, which is the user's: the branch ends before it and its text goes to the editor.\<close>

lemma demo_navigation:
  "case navigateTree demo_harness_deps (js ''a'')
      \<lparr>no_summarize = None, no_customInstructions = None, no_replaceInstructions = None, no_label = None\<rparr> demo_harness of
     (r, w') \<Rightarrow> r = Inr \<lparr>nr_cancelled = False, nr_editorText = Some (js ''one''), nr_summaryEntry = None\<rparr>"
  by code_simp

lemma demo_harness_fields: "ah_storage demo_harness = sample_storage" "ah_ids demo_harness = sample_host"
  "ms_entries sample_storage = sample_entries"
  by (simp_all add: demo_harness_def new_harness_def sample_storage_def Let_def)

theorem navigation_restores_branch_witness:
  "\<exists>w' ext. navigateTree demo_harness_deps (js ''a'')
      \<lparr>no_summarize = None, no_customInstructions = None, no_replaceInstructions = None, no_label = None\<rparr> demo_harness
      = (Inr \<lparr>nr_cancelled = False, nr_editorText = Some (js ''one''), nr_summaryEntry = None\<rparr>, w')
    \<and> ms_entries (ah_storage w') = sample_entries @ ext \<and> session_branch mem_ops (ah_storage w') = []"
proof -
  let ?o = "\<lparr>no_summarize = None, no_customInstructions = None, no_replaceInstructions = None, no_label = None\<rparr>"
  from demo_navigation obtain w' where nav: "navigateTree demo_harness_deps (js ''a'') ?o demo_harness
      = (Inr \<lparr>nr_cancelled = False, nr_editorText = Some (js ''one''), nr_summaryEntry = None\<rparr>, w')"
    by (auto split: prod.splits)
  have "callbacks_obey keeps_session demo_harness_deps"
    using demo_keeps [of None] by (simp add: demo_harness_deps_def)
  moreover have "leaf_after sample_entries \<noteq> Some (js ''a'')"
    by (simp add: sample_entries_def sample_entry_def leaf_after_def leafIdAfterEntry_def)
  moreover have first: "e \<in> set sample_entries \<Longrightarrow> en_id e = js ''a'' \<Longrightarrow>
      en_parentId e = None \<and> en_kind e = MessageEntry (Llm (sample_user ''one''))" for e
    by (auto simp: sample_entries_def sample_entry_def)
  ultimately have "\<exists>ext. ms_entries (ah_storage w') = sample_entries @ ext
      \<and> session_branch mem_ops (ah_storage w') = branch_of sample_entries None"
    using navigation_restores_branch [OF _ _ _ _ _ nav] sample_storage_good sample_host_ids
    by (auto simp: demo_harness_fields demo_harness_deps_def sample_user_def dest!: first)
  then show ?thesis using nav by (auto simp: branch_of_def path_to_root_def)
qed

definition demo_auth_deps :: "(mem_storage, unit, unit) hdeps" where
  "demo_auth_deps = demo_harness_deps\<lparr>hd_getApiKeyAndHeaders := Some (\<lambda>model w. (Inr (Some \<lparr>au_apiKey = js ''k'', au_headers = None\<rparr>), w))\<rparr>"

text \<open>Compacting the session of two messages, which keeps both.\<close>

lemma demo_harness_compact:
  "case harness_compact demo_auth_deps None demo_harness of
     (r, w') \<Rightarrow> (case r of Inl e \<Rightarrow> False
       | Inr c \<Rightarrow> hc_summary c = js ''ok'' \<and> hc_firstKeptEntryId c = js ''a'')"
  by code_simp

lemma sample_branch: "session_branch mem_ops sample_storage = sample_entries"
  by code_simp

lemma sample_compaction_path: "compaction_path sample_entries" "kept_ids sample_entries = {}"
  by (auto simp: compaction_path_def sample_entries_def sample_entry_def entry_ok_def kept_ids_def less_Suc_eq)

theorem compaction_shortens_context_witness:
  "\<exists>c w' kept e. harness_compact demo_auth_deps None demo_harness = (Inr c, w')
    \<and> context_messages (\<lambda>s. None) mem_ops (ah_storage w') =
        CompactionSummary (createCompactionSummaryMessage (\<lambda>s. None) (hc_summary c) (hc_tokensBefore c) (en_timestamp e)) # kept
    \<and> ms_entries (ah_storage w') = sample_entries @ [e]"
proof -
  from demo_harness_compact obtain c w' where run: "harness_compact demo_auth_deps None demo_harness = (Inr c, w')"
    by (auto split: prod.splits sum.splits)
  have "callbacks_obey keeps_session demo_auth_deps" unfolding demo_auth_deps_def
    by (rule demo_keeps) (simp add: step_obeys_def keeping.idle)
  moreover have "host_ids sample_host 1 (entry_ids sample_entries)"
    using sample_host_ids less_host_ids [of sample_host 1] by (simp add: demo_harness_fields numeral_2_eq_2)
  ultimately show ?thesis
    using compaction_shortens_context [OF _ _ _ _ _ _ _ run] sample_storage_good run
    by (auto simp: demo_harness_fields sample_branch sample_compaction_path demo_auth_deps_def demo_harness_deps_def)
qed

end
