(* ===== verification/Spec2Isabelle.thy ===== *)
theory Spec2Isabelle
  imports Context_Overflow Thinking_Levels Output_Accumulator Stdin_Buffer Jsonl_Repo Loop_Stop Agent_Observed Message_Queue Transform_Messages Session_Restart Truncate Compaction Edit_Tool Uuid Mutation_Queue
    Branch_Summary Prompt_Templates Harness_Tree
begin

text \<open>
  A verification library for the core of this repository, a coding agent: a language model is called in a loop, the
  tools it asks for are run, and everything that is said is kept in a session. The model covers the runtime in
  \<^verbatim>\<open>packages/agent\<close>, the parts of \<^verbatim>\<open>packages/coding-agent\<close> that keep sessions and change files, the
  message transformation of \<^verbatim>\<open>packages/ai\<close> and the input side of \<^verbatim>\<open>packages/tui\<close>. Each theory opens
  with a text of its own; this one says how the parts fit together.

  \<^bold>\<open>The parts, from the bottom up.\<close>

  \<^item> Data. \<^verbatim>\<open>Prelude\<close>, \<^verbatim>\<open>Js_Strings\<close>, \<^verbatim>\<open>Utf8\<close> and \<^verbatim>\<open>Json_Text\<close> hold what the program takes from its language: strings,
    truthiness, JSON values and their text, maps in insertion order, UTF-8. \<^verbatim>\<open>Messages\<close> has the types of
    \<^verbatim>\<open>packages/ai/src/types.ts\<close>, \<^verbatim>\<open>packages/agent/src/types.ts\<close> and \<^verbatim>\<open>harness/messages.ts\<close>, with the conversion of agent messages to those
    a model sees. \<^verbatim>\<open>Effects\<close> is the shape of every asynchronous function: a step on a state that
    may throw.
  \<^item> The agent. \<^verbatim>\<open>Event_Stream\<close> is \<^verbatim>\<open>ai/src/utils/event-stream.ts\<close>; \<^verbatim>\<open>Tool_Calls\<close> and \<^verbatim>\<open>Agent_Loop\<close> are
    \<^verbatim>\<open>agent/src/agent-loop.ts\<close>; \<^verbatim>\<open>Message_Queue\<close> and \<^verbatim>\<open>Agent\<close> are \<^verbatim>\<open>agent/src/agent.ts\<close>. \<^verbatim>\<open>Agent_Protocol\<close> is the abstract
    specification: the step relation of the events an observer may see. The loop is proved to emit only runs of that relation;
    \<^verbatim>\<open>Loop_Stop\<close> shows that a failed response ends the run, and \<^verbatim>\<open>Agent_Observed\<close> that through every run of the class \<^verbatim>\<open>Agent\<close>
    its listeners see each event with a state that matches the protocol.
  \<^item> Sessions of the harness. \<^verbatim>\<open>Session_Entries\<close> and \<^verbatim>\<open>Session_Context\<close> are the tree of entries and the context a path stands for;
    \<^verbatim>\<open>Session_Storage\<close> states the contract of a storage (locales \<^verbatim>\<open>session_storage\<close> and \<^verbatim>\<open>reliable_storage\<close>) and the storage in
    memory; \<^verbatim>\<open>Harness_Session\<close> is the class \<^verbatim>\<open>Session\<close>, proved once for every storage that keeps the contract; \<^verbatim>\<open>Session_Repo\<close> is the
    repository in memory; \<^verbatim>\<open>Uuid\<close> is the generator of ids. \<^verbatim>\<open>File_System\<close>, \<^verbatim>\<open>Jsonl_Storage\<close> and \<^verbatim>\<open>Jsonl_Repo\<close> are the file
    operations of Node's environment (locale \<^verbatim>\<open>text_files\<close>), the storage in a file, which refines the one in memory and keeps the
    same contract, and the repository of files.
  \<^item> Sessions of the coding agent. \<^verbatim>\<open>Session_Files\<close> has the file format and its migrations, \<^verbatim>\<open>Session_Manager\<close> the operations of
    \<^verbatim>\<open>core/session-manager.ts\<close>, \<^verbatim>\<open>Session_Manager_Props\<close> and \<^verbatim>\<open>Session_Restart\<close> what they keep, also over new, reopened and
    branched sessions, and that both kinds of sessions build the same context.
  \<^item> Summaries. \<^verbatim>\<open>File_Operations\<close>, \<^verbatim>\<open>Compaction_Cut\<close>, \<^verbatim>\<open>Compaction_Prompts\<close>, \<^verbatim>\<open>Compaction\<close> and \<^verbatim>\<open>Branch_Summary\<close> are
    \<^verbatim>\<open>harness/compaction/*.ts\<close>.
  \<^item> The harness. \<^verbatim>\<open>Prompt_Templates\<close>, \<^verbatim>\<open>Harness_Options\<close> and \<^verbatim>\<open>Agent_Harness\<close> are the prompts, the parts around and the operations
    of the class \<^verbatim>\<open>AgentHarness\<close>, which runs the loop on a session. \<^verbatim>\<open>Harness_Runs\<close> lifts a law of single callbacks to whole runs
    (locale \<^verbatim>\<open>harness_law\<close>), \<^verbatim>\<open>Harness_Records\<close> instantiates it with what is written to the session (locale \<^verbatim>\<open>growing_storage\<close>) for the events that the
    run emits,
    \<^verbatim>\<open>Harness_Prompts\<close> and \<^verbatim>\<open>Harness_Tree\<close> have the properties of prompts, queues, compaction and navigation.
  \<^item> Providers and tools. \<^verbatim>\<open>Transform_Messages\<close> is what every provider does to a transcript first, with the functions
    by which four of them normalise tool call ids; \<^verbatim>\<open>Truncate\<close> cuts tool output
    in both packages and \<^verbatim>\<open>Output_Accumulator\<close> keeps the output of a running command; \<^verbatim>\<open>Edit_Diff\<close>, \<^verbatim>\<open>Edit_Tool\<close> and \<^verbatim>\<open>Mutation_Queue\<close> are the edit tool and the queues that keep file changes
    apart.
  \<^item> Models. \<^verbatim>\<open>Context_Overflow\<close> is \<^verbatim>\<open>ai/src/utils/overflow.ts\<close> with the test for transient errors of
    the coding agent's session, and \<^verbatim>\<open>Thinking_Levels\<close> the thinking levels of \<^verbatim>\<open>ai/src/models.ts\<close>.
  \<^item> The terminal. \<^verbatim>\<open>Stdin_Buffer\<close> is \<^verbatim>\<open>tui/src/stdin-buffer.ts\<close>, which cuts input into keys and pastes.

  \<^bold>\<open>How code becomes definitions.\<close>

  \<^item> A string is its list of UTF-16 code units. A value that may be missing is an option. A thrown error is the
    \<^verbatim>\<open>Inl\<close> of a sum, with its code where the program looks at codes and with its message otherwise. Regular expressions are matchers
    written out.
  \<^item> State is passed along. Callbacks of the embedder (hooks, tools, listeners, the provider) are functions on a
    world of any type; what they may rely on and must keep is stated where a theorem needs it. The trace of emitted events is a ghost
    field of the state. Where a theorem speaks of what callbacks did or saw (writes queued during a run of the harness, the states an
    agent's listener was shown), the host's part of the world notes it.
  \<^item> A provider's answer is the list of its stream events and its result. A tool run is one step, whose updates come
    during it. The calls of a parallel batch are interleaved by any schedule; after a callback of the batch throws, the calls
    still running are not followed.
  \<^item> Operations of a storage, a session and the harness are single steps: appends that overlap are not modelled. An
    abort of the harness comes in two halves, before and after its wait; runs started inside a callback are not modelled.
  \<^item> Numbers in JSON are integers, costs are rational, times are integers or none, dates and paths are turned into those by
    parameters. Token budgets compare in integers what the code computes with fractions (0.8 and 0.9 of a budget).
  \<^item> A session file is the list of its lines as \<^verbatim>\<open>JSON.parse\<close> makes them. In \<^verbatim>\<open>Session_Manager\<close> the disk never fails; in
    \<^verbatim>\<open>Jsonl_Storage\<close> any call of it may fail, and then changes nothing.
  \<^item> Parameters: Unicode normalisation, the line diff that the edit tool shows and the decoding of terminal bytes, which are tables of the
    engine or a package; and two parts whose code under \<^verbatim>\<open>packages/ai/src\<close> is a wrapper of packages that are not in the
    repository, the providers (over the clients of the services and the network) and \<^verbatim>\<open>validateToolArguments\<close> (over a JSON schema
    validator). Of a provider any stream of events and any result is allowed, of the validation any answer.

  \<^bold>\<open>Fuel and bounds.\<close> The walk to the root of a session takes the number of entries as fuel, which a well-formed session never uses
  up; where the parents go in a circle the code does not return, and the model says \<^verbatim>\<open>None\<close>. The agent loop has fuel as well: \<^verbatim>\<open>agent_run_returns\<close>
  gives an amount that suffices, twice a measure of the messages and tool requests to come plus two. The functions that scan strings and lists
  are total. An entry id takes up to 101 UUIDs; theorems on sessions ask the host for that many distinct ones per entry, which
  \<^verbatim>\<open>uuids_unique\<close> shows the generator to supply.

  \<^bold>\<open>What is not modelled.\<close> Everything that draws or talks to the outside: the interactive mode and the components of the terminal and web
  interfaces, the providers and their authentication, the generated table of models, child processes, the loading of extensions, packages,
  skills, settings and models, export to HTML, and the scripts. They are listed with their reasons in the manifest of components. Of the modelled files the
  rendering of tools, abort signals of the file system, temporary and binary files, and the registering of
  listeners are left out.
\<close>

end
